(* ===== verification/Prelude.thy ===== *)
theory Prelude
  imports Main "HOL-Library.While_Combinator" "HOL-Library.Multiset"
begin

text \<open>
  What the component theories share: the outcome of a Rust method that borrows its receiver
  mutably, ordered iteration over the standard library's B-tree containers, and the generic
  lemmas that carry the component proofs.

  A B-tree set is a finite HOL set, iterated in key order with \<open>sorted_list_of_set\<close>; a B-tree
  map that the code only looks up is a HOL map. Both are finite in every well-formed state, which
  the invariants of the components say where a proof needs it.
\<close>

section \<open>Collections of facts\<close>

named_theorems outcome_simps \<open>equations of the outcome combinators\<close>
named_theorems field_defs \<open>definitions of accessors that are always unfolded\<close>

section \<open>Identifiers of the protocol\<close>

text \<open>
  The identifiers come from the protocol library. The code only compares, orders and copies
  them, so each is a natural number; a block number is the chain height it stands for.
\<close>

type_synonym transaction_id = nat
type_synonym batch_id = nat
type_synonym account_id = nat
type_synonym note_id = nat
type_synonym nullifier = nat
type_synonym digest = nat
type_synonym block_number = nat

section \<open>Outcomes of methods with a mutable receiver\<close>

text \<open>
  A method \<open>fn f(&mut self, ..) -> Result<A, E>\<close> either returns a value and the new state
  (\<open>Ok\<close>), returns an error, with the state it leaves behind (\<open>Err\<close>), panics, or does not
  return. A method without a \<open>Result\<close> never produces \<open>Err\<close>.
\<close>

datatype ('s, 'e, 'a) outcome = Ok 's 'a | Err 's 'e | Panic | Diverge

text \<open>The operator \<open>?\<close>: continue after a value, leave with an error.\<close>

definition and_then ::
  "('s, 'e, 'a) outcome \<Rightarrow> ('s \<Rightarrow> 'a \<Rightarrow> ('s, 'e, 'b) outcome) \<Rightarrow> ('s, 'e, 'b) outcome" where
  "and_then r f = (case r of Ok s a \<Rightarrow> f s a | Err s e \<Rightarrow> Err s e | Panic \<Rightarrow> Panic | Diverge \<Rightarrow> Diverge)"

text \<open>\<open>Result::expect\<close> and \<open>Result::unwrap\<close>: an error becomes a panic.\<close>

definition expect :: "('s, 'e, 'a) outcome \<Rightarrow> ('s, 'f, 'a) outcome" where
  "expect r = (case r of Ok s a \<Rightarrow> Ok s a | Err s e \<Rightarrow> Panic | Panic \<Rightarrow> Panic | Diverge \<Rightarrow> Diverge)"

text \<open>A method called on a field of the receiver: the new field is put back.\<close>

definition in_field :: "('s \<Rightarrow> 't) \<Rightarrow> ('s, 'e, 'a) outcome \<Rightarrow> ('t, 'e, 'a) outcome" where
  "in_field put r = map_outcome put id id r"

text \<open>\<open>Result::map_err\<close>, and the conversion of an error by \<open>From\<close>.\<close>

definition map_err :: "('e \<Rightarrow> 'f) \<Rightarrow> ('s, 'e, 'a) outcome \<Rightarrow> ('s, 'f, 'a) outcome" where
  "map_err f r = map_outcome id f id r"

text \<open>The result of a loop that may not stop.\<close>

definition returned :: "'c option \<Rightarrow> ('c \<Rightarrow> ('s, 'e, 'a) outcome) \<Rightarrow> ('s, 'e, 'a) outcome" where
  "returned r f = (case r of None \<Rightarrow> Diverge | Some c \<Rightarrow> f c)"

lemma and_then_simps [simp, outcome_simps]:
  "and_then (Ok s a) f = f s a"
  "and_then (Err s e) f = Err s e"
  "and_then Panic f = Panic"
  "and_then Diverge f = Diverge"
  by (simp_all add: and_then_def)

lemma expect_simps [simp, outcome_simps]:
  "expect (Ok s a) = Ok s a"
  "expect (Err s e) = Panic"
  "expect Panic = Panic"
  "expect Diverge = Diverge"
  by (simp_all add: expect_def)

lemma in_field_simps [simp, outcome_simps]:
  "in_field put (Ok s a) = Ok (put s) a"
  "in_field put (Err s e) = Err (put s) e"
  "in_field put Panic = Panic"
  "in_field put Diverge = Diverge"
  by (simp_all add: in_field_def)

lemma map_err_simps [simp, outcome_simps]:
  "map_err h (Ok s a) = Ok s a"
  "map_err h (Err s e) = Err s (h e)"
  "map_err h Panic = Panic"
  "map_err h Diverge = Diverge"
  by (simp_all add: map_err_def)

lemma returned_simps [simp, outcome_simps]:
  "returned (Some c) f = f c"
  "returned None f = Diverge"
  by (simp_all add: returned_def)

lemma and_then_eq_Ok:
  "and_then r f = Ok s' b \<longleftrightarrow> (\<exists>s a. r = Ok s a \<and> f s a = Ok s' b)"
  by (cases r) auto

lemma in_field_eq_Ok:
  "in_field put r = Ok t a \<longleftrightarrow> (\<exists>s. r = Ok s a \<and> t = put s)"
  by (cases r) auto

lemma expect_eq_Ok: "expect r = Ok s a \<longleftrightarrow> r = Ok s a"
  by (cases r) auto

lemmas outcome_Ok_iffs = and_then_eq_Ok in_field_eq_Ok expect_eq_Ok

section \<open>Results\<close>

text \<open>Where no state changes, a \<open>Result\<close> is a sum: the operator \<open>?\<close>, \<open>map_err\<close>, and \<open>collect\<close> and \<open>try_fold\<close>.\<close>

definition bind_res :: "'e + 'a \<Rightarrow> ('a \<Rightarrow> 'e + 'b) \<Rightarrow> 'e + 'b" where
  "bind_res r f = (case r of Inl e \<Rightarrow> Inl e | Inr a \<Rightarrow> f a)"

definition map_fail :: "('e \<Rightarrow> 'f) \<Rightarrow> 'e + 'a \<Rightarrow> 'f + 'a" where
  "map_fail f r = (case r of Inl e \<Rightarrow> Inl (f e) | Inr a \<Rightarrow> Inr a)"

fun collect_res :: "('a \<Rightarrow> 'e + 'b) \<Rightarrow> 'a list \<Rightarrow> 'e + 'b list" where
  "collect_res f [] = Inr []"
| "collect_res f (x # xs) = bind_res (f x) (\<lambda>y. bind_res (collect_res f xs) (\<lambda>ys. Inr (y # ys)))"

fun fold_res :: "('a \<Rightarrow> 's \<Rightarrow> 'e + 's) \<Rightarrow> 'a list \<Rightarrow> 's \<Rightarrow> 'e + 's" where
  "fold_res f [] s = Inr s"
| "fold_res f (x # xs) s = bind_res (f x s) (fold_res f xs)"

lemma bind_res_simps [simp]: "bind_res (Inl e) f = Inl e" "bind_res (Inr a) f = f a"
  by (simp_all add: bind_res_def)

lemma map_fail_simps [simp]: "map_fail f (Inl e) = Inl (f e)" "map_fail f (Inr a) = Inr a"
  by (simp_all add: map_fail_def)

lemma map_fail_eq_Inr [simp]: "map_fail f r = Inr a \<longleftrightarrow> r = Inr a"
  by (cases r) simp_all

lemma bind_res_eq_Inr: "bind_res r f = Inr b \<longleftrightarrow> (\<exists>a. r = Inr a \<and> f a = Inr b)"
  by (cases r) auto

lemma collect_res_Inr:
  "(\<And>x. x \<in> set xs \<Longrightarrow> f x = Inr (g x)) \<Longrightarrow> collect_res f xs = Inr (map g xs)"
  by (induction xs) auto

lemma collect_res_InrD: "collect_res f xs = Inr ys \<Longrightarrow> list_all2 (\<lambda>x y. f x = Inr y) xs ys"
  by (induction xs arbitrary: ys) (auto simp: bind_res_eq_Inr)

lemma fold_res_append: "fold_res f (xs @ ys) s = bind_res (fold_res f xs s) (fold_res f ys)"
  by (induction xs arbitrary: s) (auto simp: bind_res_def split: sum.split)

section \<open>Maps\<close>

text \<open>\<open>BTreeMap::contains_key\<close>, and \<open>unwrap_or_default\<close> on a set-valued entry.\<close>

definition contains_key :: "('k \<rightharpoonup> 'v) \<Rightarrow> 'k \<Rightarrow> bool" where
  "contains_key m k = (case m k of None \<Rightarrow> False | Some _ \<Rightarrow> True)"

lemma contains_key_iff [simp]: "contains_key m k \<longleftrightarrow> k \<in> dom m"
  by (auto simp: contains_key_def split: option.splits)

definition set_or_default :: "('k \<rightharpoonup> 'a set) \<Rightarrow> 'k \<Rightarrow> 'a set" where
  "set_or_default m k = (case m k of None \<Rightarrow> {} | Some s \<Rightarrow> s)"

lemma set_or_default_None [simp]: "m k = None \<Longrightarrow> set_or_default m k = {}"
  by (simp add: set_or_default_def)

lemma set_or_default_Some [simp]: "m k = Some s \<Longrightarrow> set_or_default m k = s"
  by (simp add: set_or_default_def)

lemma set_or_default_upd:
  "set_or_default (m(k := v)) x = (if x = k then (case v of None \<Rightarrow> {} | Some s \<Rightarrow> s) else set_or_default m x)"
  by (simp add: set_or_default_def)

lemma set_or_default_memD: "x \<in> set_or_default m k \<Longrightarrow> k \<in> dom m"
  by (auto simp: set_or_default_def split: option.splits)

text \<open>Removing a list of keys from a map.\<close>

definition remove_keys :: "'k list \<Rightarrow> ('k \<rightharpoonup> 'v) \<Rightarrow> ('k \<rightharpoonup> 'v)" where
  "remove_keys ks m = fold (\<lambda>k m. m(k := None)) ks m"

lemma remove_keys_apply: "remove_keys ks m x = (if x \<in> set ks then None else m x)"
  unfolding remove_keys_def by (induction ks arbitrary: m) auto

lemma remove_keys_eq: "remove_keys ks m = m |` (- set ks)"
  by (rule ext) (simp add: remove_keys_apply restrict_map_def)

lemma dom_remove_keys [simp]: "dom (remove_keys ks m) = dom m - set ks"
  by (auto simp: remove_keys_apply dom_def)

section \<open>Ordered maps and checked removal\<close>

text \<open>
  A B-tree map that the code iterates over is an association list sorted by key; this is
  \<open>BTreeMap::insert\<close> on it.
\<close>

fun bt_insert :: "'k::linorder \<Rightarrow> 'v \<Rightarrow> ('k \<times> 'v) list \<Rightarrow> ('k \<times> 'v) list" where
  "bt_insert k v [] = [(k, v)]"
| "bt_insert k v ((k', v') # xs) =
     (if k < k' then (k, v) # (k', v') # xs
      else if k = k' then (k, v) # xs
      else (k', v') # bt_insert k v xs)"

text \<open>\<open>assert!(set.remove(x))\<close> and \<open>assert!(map.remove(x).is_some())\<close> in a loop; \<open>None\<close> is the panic.\<close>

fun checked_remove :: "'a list \<Rightarrow> 'a set \<Rightarrow> 'a set option" where
  "checked_remove [] S = Some S"
| "checked_remove (x # xs) S = (if x \<in> S then checked_remove xs (S - {x}) else None)"

fun checked_remove_keys :: "'k list \<Rightarrow> ('k \<rightharpoonup> 'v) \<Rightarrow> ('k \<rightharpoonup> 'v) option" where
  "checked_remove_keys [] m = Some m"
| "checked_remove_keys (k # ks) m =
     (if contains_key m k then checked_remove_keys ks (m(k := None)) else None)"

lemma checked_remove_Some: "distinct xs \<Longrightarrow> set xs \<subseteq> S \<Longrightarrow> checked_remove xs S = Some (S - set xs)"
proof (induction xs arbitrary: S)
  case (Cons x xs)
  then have "set xs \<subseteq> S - {x}" by auto
  then have "checked_remove xs (S - {x}) = Some (S - {x} - set xs)" using Cons by simp
  moreover have "S - {x} - set xs = S - set (x # xs)" by auto
  ultimately show ?case using Cons.prems by simp
qed simp

lemma checked_remove_keys_Some:
  "distinct ks \<Longrightarrow> set ks \<subseteq> dom m \<Longrightarrow> checked_remove_keys ks m = Some (m |` (- set ks))"
proof (induction ks arbitrary: m)
  case Nil
  then show ?case by (simp add: restrict_map_def)
next
  case (Cons k ks)
  then have "set ks \<subseteq> dom (m(k := None))" by auto
  then have "checked_remove_keys ks (m(k := None)) = Some ((m(k := None)) |` (- set ks))"
    using Cons by simp
  moreover have "(m(k := None)) |` (- set ks) = m |` (- set (k # ks))"
    by (auto simp: restrict_map_def fun_eq_iff)
  ultimately show ?case using Cons.prems by simp
qed

lemma bt_insert_keys: "fst ` set (bt_insert k v xs) = insert k (fst ` set xs)"
  by (induction k v xs rule: bt_insert.induct) auto

lemma bt_insert_sorted:
  "sorted (map fst xs) \<Longrightarrow> distinct (map fst xs) \<Longrightarrow>
     sorted (map fst (bt_insert k v xs)) \<and> distinct (map fst (bt_insert k v xs))"
proof (induction k v xs rule: bt_insert.induct)
  case (2 k v k' v' xs)
  have "fst ` set (bt_insert k v xs) = insert k (fst ` set xs)" by (rule bt_insert_keys)
  with 2 show ?case by auto
qed simp

lemma bt_insert_fresh:
  "k \<notin> fst ` set xs \<Longrightarrow> mset (map snd (bt_insert k v xs)) = add_mset v (mset (map snd xs))"
  by (induction k v xs rule: bt_insert.induct) auto

text \<open>Sets of a list that do not overlap.\<close>

fun disj_list :: "'a set list \<Rightarrow> bool" where
  "disj_list [] = True"
| "disj_list (x # xs) = ((\<forall>y \<in> set xs. x \<inter> y = {}) \<and> disj_list xs)"

lemma disj_list_append:
  "disj_list (xs @ ys) \<longleftrightarrow> disj_list xs \<and> disj_list ys \<and> (\<forall>x \<in> set xs. \<forall>y \<in> set ys. x \<inter> y = {})"
  by (induction xs) auto

lemma disj_list_perm: "mset xs = mset ys \<Longrightarrow> disj_list xs \<Longrightarrow> disj_list ys"
proof (induction xs arbitrary: ys)
  case (Cons x xs)
  then have "x \<in> set ys" by (metis list.set_intros(1) mset_eq_setD)
  then obtain as bs where ys: "ys = as @ x # bs" by (meson split_list)
  with Cons.prems(1) have m: "mset xs = mset (as @ bs)" by simp
  then have "disj_list (as @ bs)" using Cons by auto
  moreover have "set xs = set as \<union> set bs" using m by (metis mset_eq_setD set_append)
  ultimately show ?case using Cons.prems(2) unfolding ys by (auto simp: disj_list_append)
qed simp

section \<open>Loops\<close>

text \<open>
  Total correctness of a loop with a counting measure: it returns, the invariant holds of the
  result and the guard does not.
\<close>

lemma while_option_total:
  fixes f :: "'s \<Rightarrow> nat"
  assumes "P s" and "\<And>s. P s \<Longrightarrow> b s \<Longrightarrow> P (c s) \<and> f (c s) < f s"
  obtains t where "while_option b c s = Some t" and "P t" and "\<not> b t"
proof -
  obtain t where t: "while_option b c s = Some t"
    using measure_while_option_Some[of P b c f s] assms by blast
  moreover have "P t"
    by (rule while_option_rule[where P = P, OF _ t]) (use assms in auto)
  moreover have "\<not> b t" using t by (rule while_option_stop)
  ultimately show ?thesis by (rule that)
qed

section \<open>Reachability in a finite relation\<close>

lemma acyclic_add_sink:
  assumes "acyclic r" and "key \<notin> Domain r" and "key \<notin> ps"
  shows "acyclic (r \<union> ps \<times> {key})"
proof (rule acyclicI, rule allI, rule notI)
  let ?s = "r \<union> ps \<times> {key}"
  have sink: "key \<notin> Domain ?s" using assms(2,3) by auto
  have path: "(x, y) \<in> r\<^sup>+" if "(x, y) \<in> ?s\<^sup>+" "y \<noteq> key" for x y
    using that
  proof (induction rule: trancl_induct)
    case (base y)
    then show ?case by auto
  next
    case (step y z)
    then have "y \<noteq> key" "(y, z) \<in> r" using sink by auto
    with step.IH show ?case by (meson trancl.trancl_into_trancl)
  qed
  fix x assume x: "(x, x) \<in> ?s\<^sup>+"
  then have "x \<in> Domain ?s" by (metis DomainI tranclD)
  with sink have "x \<noteq> key" by blast
  with path[OF x] assms(1) show False by (simp add: acyclic_def)
qed

lemma rtrancl_Image_closed:
  assumes "A \<subseteq> S" and "\<And>x y. x \<in> S \<Longrightarrow> (x, y) \<in> r \<Longrightarrow> y \<in> S"
  shows "r\<^sup>* `` A \<subseteq> S"
proof
  fix y assume "y \<in> r\<^sup>* `` A"
  then obtain x where "x \<in> A" "(x, y) \<in> r\<^sup>*" by blast
  from this(2) \<open>x \<in> A\<close> assms show "y \<in> S"
    by (induction rule: rtrancl_induct) auto
qed

text \<open>An acyclic relation has a minimal element in every finite non-empty set.\<close>

lemma finite_acyclic_minimal:
  assumes "finite A" and "A \<noteq> {}" and "acyclic r"
  shows "\<exists>m\<in>A. \<forall>y\<in>A. (y, m) \<notin> r"
proof -
  let ?s = "r \<inter> A \<times> A"
  have "acyclic ?s" using assms(3) by (rule acyclic_subset) blast
  moreover have "finite ?s" using assms(1) by blast
  ultimately have wf: "wf ?s" by (simp add: finite_acyclic_wf)
  from assms(2) obtain a where "a \<in> A" by blast
  from wfE_min[OF wf this] obtain m where "m \<in> A" "\<And>y. (y, m) \<in> ?s \<Longrightarrow> y \<notin> A" by blast
  then show ?thesis by blast
qed

end
