(* ===== verification/Domain.thy ===== *)
theory Domain
  imports Prelude "HOL-Library.Word"
begin

text \<open>
  The block producer's view of a transaction: what it reads of the protocol library's types, the
  authenticated transaction with its accessors (crates/block-producer/src/domain/transaction.rs),
  the inputs it is authenticated against (src/store/mod.rs), the errors of a submission
  (src/errors.rs) and the budgets of batches and blocks (src/mempool/mod.rs).
\<close>

section \<open>What is read of the protocol library\<close>

text \<open>
  A note tag and a note with the answers the library gives about them (\<open>NoteTag::execution_mode\<close>,
  \<open>is_single_target\<close>, \<open>Note::is_network_note\<close>), the three shapes of an output note, accounts and
  account updates, and a proven transaction with the results of its accessors.
\<close>

record note_tag =
  tag_inner :: "32 word"
  tag_network_execution :: bool
  tag_single_target :: bool

record protocol_note =
  note_id_of :: note_id
  note_nullifier :: nullifier
  note_tag_of :: note_tag
  is_network_note :: bool

datatype output_note = FullNote protocol_note | PartialNote note_id | HeaderNote note_id

record account_ident =
  ident_key :: account_id
  ident_prefix :: "64 word"
  ident_is_network :: bool

record account =
  acc_ident :: account_ident
  acc_content :: nat

record account_delta =
  delta_ident :: account_ident
  delta_content :: nat

datatype account_update_details = PrivateUpdate | NewAccount account | DeltaUpdate account_delta

record proven_tx =
  ptx_id :: transaction_id
  ptx_account_id :: account_id
  ptx_account_is_network :: bool
  ptx_initial_state :: digest
  ptx_final_state :: digest
  ptx_details :: account_update_details
  ptx_nullifiers :: "nullifier list"
  ptx_unauthenticated :: "note_id list"
  ptx_num_input_notes :: nat
  ptx_output_notes :: "output_note list"
  ptx_ref_block :: "block_number \<times> digest"
  ptx_expiration :: block_number

record proven_batch =
  pb_id :: batch_id
  pb_security_level :: nat

record block_header =
  bh_block_num :: block_number

definition default_digest :: digest where
  "default_digest = 0"

fun output_note_id :: "output_note \<Rightarrow> note_id" where
  "output_note_id (FullNote n) = note_id_of n"
| "output_note_id (PartialNote i) = i"
| "output_note_id (HeaderNote i) = i"

section \<open>Errors of a submission\<close>

datatype verify_tx_error =
    InputNotesAlreadyConsumed "nullifier list"
  | UnauthenticatedNotesNotFound "note_id list"
  | OutputNotesAlreadyExist "note_id list"
  | IncorrectAccountInitialCommitment digest "digest option"
  | StoreConnectionFailed
  | InvalidTransactionProof transaction_id

datatype add_transaction_error =
    VerificationFailed verify_tx_error
  | StaleInputs block_number block_number
  | TransactionDeserializationFailed
  | Expired block_number block_number

text \<open>The status codes a caller sees: user errors are reported, internal ones hidden.\<close>

datatype grpc_status = InvalidArgument add_transaction_error | InternalError

fun add_transaction_status :: "add_transaction_error \<Rightarrow> grpc_status" where
  "add_transaction_status (VerificationFailed (InputNotesAlreadyConsumed ns)) =
     InvalidArgument (VerificationFailed (InputNotesAlreadyConsumed ns))"
| "add_transaction_status (VerificationFailed (UnauthenticatedNotesNotFound ns)) =
     InvalidArgument (VerificationFailed (UnauthenticatedNotesNotFound ns))"
| "add_transaction_status (VerificationFailed (OutputNotesAlreadyExist ns)) =
     InvalidArgument (VerificationFailed (OutputNotesAlreadyExist ns))"
| "add_transaction_status (VerificationFailed (IncorrectAccountInitialCommitment a b)) =
     InvalidArgument (VerificationFailed (IncorrectAccountInitialCommitment a b))"
| "add_transaction_status (VerificationFailed (InvalidTransactionProof t)) =
     InvalidArgument (VerificationFailed (InvalidTransactionProof t))"
| "add_transaction_status (Expired a b) = InvalidArgument (Expired a b)"
| "add_transaction_status TransactionDeserializationFailed = InvalidArgument TransactionDeserializationFailed"
| "add_transaction_status (VerificationFailed StoreConnectionFailed) = InternalError"
| "add_transaction_status (StaleInputs a b) = InternalError"

section \<open>Authenticated transactions\<close>

record transaction_inputs =
  ti_account_id :: account_id
  ti_account_commitment :: "digest option"
  ti_nullifiers :: "nullifier \<rightharpoonup> block_number option"
  ti_found_unauthenticated_notes :: "note_id set"
  ti_current_block_height :: block_number

record auth_tx =
  tx_inner :: proven_tx
  tx_store_account_state :: "digest option"
  tx_notes_authenticated_by_store :: "note_id set"
  tx_authentication_height :: block_number

text \<open>\<open>AuthenticatedTransaction::new\<close>: rejected when the store has seen one of the nullifiers.\<close>

definition spent_in_store :: "transaction_inputs \<Rightarrow> nullifier \<Rightarrow> bool" where
  "spent_in_store inputs n = (case ti_nullifiers inputs n of Some (Some b) \<Rightarrow> True | _ \<Rightarrow> False)"

definition auth_tx_new :: "proven_tx \<Rightarrow> transaction_inputs \<Rightarrow> verify_tx_error + auth_tx" where
  "auth_tx_new tx inputs =
     (let nullifiers_already_spent = filter (spent_in_store inputs) (ptx_nullifiers tx) in
      if nullifiers_already_spent \<noteq> [] then Inl (InputNotesAlreadyConsumed nullifiers_already_spent)
      else Inr \<lparr>tx_inner = tx,
                tx_store_account_state = ti_account_commitment inputs,
                tx_notes_authenticated_by_store = ti_found_unauthenticated_notes inputs,
                tx_authentication_height = ti_current_block_height inputs\<rparr>)"

definition tx_id :: "auth_tx \<Rightarrow> transaction_id" where
  "tx_id tx = ptx_id (tx_inner tx)"

definition tx_account_id :: "auth_tx \<Rightarrow> account_id" where
  "tx_account_id tx = ptx_account_id (tx_inner tx)"

definition tx_initial_state :: "auth_tx \<Rightarrow> digest" where
  "tx_initial_state tx = ptx_initial_state (tx_inner tx)"

definition tx_final_state :: "auth_tx \<Rightarrow> digest" where
  "tx_final_state tx = ptx_final_state (tx_inner tx)"

definition tx_nullifiers :: "auth_tx \<Rightarrow> nullifier list" where
  "tx_nullifiers tx = ptx_nullifiers (tx_inner tx)"

definition tx_output_notes :: "auth_tx \<Rightarrow> output_note list" where
  "tx_output_notes tx = ptx_output_notes (tx_inner tx)"

definition tx_output_note_ids :: "auth_tx \<Rightarrow> note_id list" where
  "tx_output_note_ids tx = map output_note_id (ptx_output_notes (tx_inner tx))"

definition tx_output_note_count :: "auth_tx \<Rightarrow> nat" where
  "tx_output_note_count tx = length (ptx_output_notes (tx_inner tx))"

definition tx_input_note_count :: "auth_tx \<Rightarrow> nat" where
  "tx_input_note_count tx = ptx_num_input_notes (tx_inner tx)"

definition tx_reference_block :: "auth_tx \<Rightarrow> block_number \<times> digest" where
  "tx_reference_block tx = ptx_ref_block (tx_inner tx)"

definition tx_unauthenticated_notes :: "auth_tx \<Rightarrow> note_id list" where
  "tx_unauthenticated_notes tx =
     filter (\<lambda>n. n \<notin> tx_notes_authenticated_by_store tx) (ptx_unauthenticated (tx_inner tx))"

definition tx_expires_at :: "auth_tx \<Rightarrow> block_number" where
  "tx_expires_at tx = ptx_expiration (tx_inner tx)"

section \<open>Budgets\<close>

record batch_budget =
  budget_transactions :: nat
  budget_input_notes :: nat
  budget_output_notes :: nat
  budget_accounts :: nat

record block_budget =
  budget_batches :: nat

datatype budget_status = WithinScope | Exceeded

text \<open>
  The defaults take the server's own limits (src/lib.rs) and three limits of the protocol library,
  which are parameters here.
\<close>

definition server_max_txs_per_batch :: nat where
  "server_max_txs_per_batch = 8"

definition server_max_batches_per_block :: nat where
  "server_max_batches_per_block = 8"

definition batch_budget_default :: "nat \<Rightarrow> nat \<Rightarrow> nat \<Rightarrow> batch_budget" where
  "batch_budget_default max_input_notes max_output_notes max_accounts =
     \<lparr>budget_transactions = server_max_txs_per_batch, budget_input_notes = max_input_notes,
      budget_output_notes = max_output_notes, budget_accounts = max_accounts\<rparr>"

definition block_budget_default :: block_budget where
  "block_budget_default = \<lparr>budget_batches = server_max_batches_per_block\<rparr>"

definition batch_check_then_subtract :: "batch_budget \<Rightarrow> auth_tx \<Rightarrow> batch_budget \<times> budget_status" where
  "batch_check_then_subtract b tx =
     (let output_notes = tx_output_note_count tx; input_notes = tx_input_note_count tx in
      if budget_transactions b = 0 \<or> budget_accounts b < 1
         \<or> budget_input_notes b < input_notes \<or> budget_output_notes b < output_notes
      then (b, Exceeded)
      else (b\<lparr>budget_transactions := budget_transactions b - 1,
              budget_accounts := budget_accounts b - 1,
              budget_input_notes := budget_input_notes b - input_notes,
              budget_output_notes := budget_output_notes b - output_notes\<rparr>, WithinScope))"

definition block_check_then_subtract :: "block_budget \<Rightarrow> proven_batch \<Rightarrow> block_budget \<times> budget_status" where
  "block_check_then_subtract b batch =
     (if budget_batches b = 0 then (b, Exceeded)
      else (b\<lparr>budget_batches := budget_batches b - 1\<rparr>, WithinScope))"

section \<open>Facts\<close>

lemma batch_check_WithinScope:
  assumes "batch_check_then_subtract b tx = (b', WithinScope)"
  shows "budget_transactions b = Suc (budget_transactions b')"
    "budget_accounts b = Suc (budget_accounts b')"
    "budget_input_notes b = budget_input_notes b' + tx_input_note_count tx"
    "budget_output_notes b = budget_output_notes b' + tx_output_note_count tx"
  using assms by (auto simp: batch_check_then_subtract_def Let_def split: if_splits)

lemma block_check_WithinScope:
  "block_check_then_subtract b pb = (b', WithinScope) \<Longrightarrow> budget_batches b = Suc (budget_batches b')"
  by (auto simp: block_check_then_subtract_def split: if_splits)

lemma auth_tx_new_Inr:
  assumes "auth_tx_new tx inputs = Inr a"
  shows "tx_inner a = tx" "\<And>n. n \<in> set (ptx_nullifiers tx) \<Longrightarrow> \<not> spent_in_store inputs n"
    "tx_store_account_state a = ti_account_commitment inputs"
    "tx_authentication_height a = ti_current_block_height inputs"
  using assms by (auto simp: auth_tx_new_def Let_def filter_empty_conv split: if_splits)

section \<open>Sample transactions\<close>

text \<open>
  The transactions on which the theorems are exercised: a public account that starts and ends in the
  given states, spending nullifiers, consuming unauthenticated notes and creating partial notes.
\<close>

definition sample_tx ::
  "transaction_id \<Rightarrow> account_id \<Rightarrow> digest \<Rightarrow> digest \<Rightarrow> nullifier list \<Rightarrow> note_id list \<Rightarrow> note_id list \<Rightarrow> auth_tx" where
  "sample_tx t acc d0 d1 nulls unauth outs =
     \<lparr>tx_inner = \<lparr>ptx_id = t, ptx_account_id = acc, ptx_account_is_network = False, ptx_initial_state = d0,
        ptx_final_state = d1, ptx_details = PrivateUpdate, ptx_nullifiers = nulls, ptx_unauthenticated = unauth,
        ptx_num_input_notes = length nulls, ptx_output_notes = map PartialNote outs, ptx_ref_block = (5, 0),
        ptx_expiration = 100\<rparr>,
      tx_store_account_state = None, tx_notes_authenticated_by_store = {}, tx_authentication_height = 5\<rparr>"

lemma sample_tx_simps [simp]:
  "tx_id (sample_tx t acc d0 d1 nulls unauth outs) = t"
  "tx_account_id (sample_tx t acc d0 d1 nulls unauth outs) = acc"
  "tx_initial_state (sample_tx t acc d0 d1 nulls unauth outs) = d0"
  "tx_final_state (sample_tx t acc d0 d1 nulls unauth outs) = d1"
  "tx_nullifiers (sample_tx t acc d0 d1 nulls unauth outs) = nulls"
  "tx_output_note_ids (sample_tx t acc d0 d1 nulls unauth outs) = outs"
  "tx_unauthenticated_notes (sample_tx t acc d0 d1 nulls unauth outs) = unauth"
  "tx_expires_at (sample_tx t acc d0 d1 nulls unauth outs) = 100"
  "tx_authentication_height (sample_tx t acc d0 d1 nulls unauth outs) = 5"
  "tx_store_account_state (sample_tx t acc d0 d1 nulls unauth outs) = None"
  "tx_input_note_count (sample_tx t acc d0 d1 nulls unauth outs) = length nulls"
  "tx_output_note_count (sample_tx t acc d0 d1 nulls unauth outs) = length outs"
  by (simp_all add: sample_tx_def tx_id_def tx_account_id_def tx_initial_state_def tx_final_state_def
      tx_nullifiers_def tx_output_note_ids_def tx_unauthenticated_notes_def tx_expires_at_def comp_def
      tx_input_note_count_def tx_output_note_count_def)

text \<open>Two transactions of one account, the second consuming the note the first creates.\<close>

definition sample_first :: auth_tx where
  "sample_first = sample_tx 1 7 0 3 [9] [] [4]"

definition sample_second :: auth_tx where
  "sample_second = sample_tx 2 7 3 6 [8] [4] []"

end
