(* ===== verification/Account_State.thy ===== *)
theory Account_State
  imports Domain
begin

text \<open>
  The inflight states of one account
  (crates/block-producer/src/mempool/inflight_state/account_state.rs): a deque of state transitions
  from the oldest to the newest, split by the number of those that are committed. Every assertion
  and the subtraction \<open>states.len() - committed\<close> are panics of the model; under the invariant none
  of them happens.
\<close>

section \<open>Model\<close>

record inflight_account =
  ia_states :: "(digest \<times> transaction_id) list"
  ia_committed :: nat

datatype account_status = AccountEmpty | AccountNonEmpty

definition account_default :: inflight_account where
  "account_default = \<lparr>ia_states = [], ia_committed = 0\<rparr>"

text \<open>\<open>None\<close> is the subtraction underflowing.\<close>

definition uncommitted_count :: "inflight_account \<Rightarrow> nat option" where
  "uncommitted_count a =
     (if ia_committed a \<le> length (ia_states a) then Some (length (ia_states a) - ia_committed a) else None)"

definition emptiness :: "inflight_account \<Rightarrow> account_status" where
  "emptiness a = (if ia_states a = [] then AccountEmpty else AccountNonEmpty)"

definition status_is_empty :: "account_status \<Rightarrow> bool" where
  "status_is_empty s = (s = AccountEmpty)"

definition account_insert ::
  "inflight_account \<Rightarrow> digest \<Rightarrow> transaction_id \<Rightarrow> (inflight_account, 'e, transaction_id option) outcome" where
  "account_insert a state tx =
     (let parent = (if ia_states a = [] then None else Some (snd (last (ia_states a)))) in
      case uncommitted_count a of
        None \<Rightarrow> Panic
      | Some n \<Rightarrow> Ok (a\<lparr>ia_states := ia_states a @ [(state, tx)]\<rparr>) (if n = 0 then None else parent))"

definition account_current_state :: "inflight_account \<Rightarrow> digest option" where
  "account_current_state a = (if ia_states a = [] then None else Some (fst (last (ia_states a))))"

definition account_revert :: "inflight_account \<Rightarrow> nat \<Rightarrow> (inflight_account, 'e, account_status) outcome" where
  "account_revert a n =
     (case uncommitted_count a of
        None \<Rightarrow> Panic
      | Some uncommitted \<Rightarrow>
          if uncommitted \<ge> n
          then let a' = a\<lparr>ia_states := take (length (ia_states a) - n) (ia_states a)\<rparr> in Ok a' (emptiness a')
          else Panic)"

definition account_commit :: "inflight_account \<Rightarrow> nat \<Rightarrow> (inflight_account, 'e, unit) outcome" where
  "account_commit a n =
     (case uncommitted_count a of
        None \<Rightarrow> Panic
      | Some uncommitted \<Rightarrow>
          if uncommitted \<ge> n then Ok (a\<lparr>ia_committed := ia_committed a + n\<rparr>) () else Panic)"

definition account_prune_committed ::
  "inflight_account \<Rightarrow> nat \<Rightarrow> (inflight_account, 'e, account_status) outcome" where
  "account_prune_committed a n =
     (if ia_committed a \<ge> n \<and> n \<le> length (ia_states a)
      then let a' = a\<lparr>ia_committed := ia_committed a - n, ia_states := drop n (ia_states a)\<rparr>
           in Ok a' (emptiness a')
      else Panic)"

section \<open>Uncommitted transactions\<close>

definition wf_account :: "inflight_account \<Rightarrow> bool" where
  "wf_account a \<longleftrightarrow> ia_committed a \<le> length (ia_states a)"

text \<open>The transactions behind the uncommitted states, oldest first.\<close>

definition uncommitted :: "inflight_account \<Rightarrow> transaction_id list" where
  "uncommitted a = map snd (drop (ia_committed a) (ia_states a))"

lemma status_is_empty_emptiness [simp]: "status_is_empty (emptiness a) \<longleftrightarrow> ia_states a = []"
  by (simp add: status_is_empty_def emptiness_def)

lemma wf_account_default [simp]: "wf_account account_default"
  by (simp add: wf_account_def account_default_def)

lemma account_default_sel [simp]: "ia_states account_default = []" "ia_committed account_default = 0"
  by (simp_all add: account_default_def)

lemma uncommitted_default [simp]: "uncommitted account_default = []"
  by (simp add: uncommitted_def)

lemma length_uncommitted: "length (uncommitted a) = length (ia_states a) - ia_committed a"
  by (simp add: uncommitted_def)

lemma account_insert_Ok:
  assumes "wf_account a"
  shows "account_insert a d tx =
    Ok (a\<lparr>ia_states := ia_states a @ [(d, tx)]\<rparr>)
       (if uncommitted a = [] then None else Some (last (uncommitted a)))"
proof -
  have "uncommitted a = [] \<longleftrightarrow> length (ia_states a) = ia_committed a"
    using assms by (auto simp: uncommitted_def wf_account_def)
  moreover have "last (uncommitted a) = snd (last (ia_states a))" if "uncommitted a \<noteq> []"
    using that by (simp add: uncommitted_def last_map)
  ultimately show ?thesis
    using assms by (auto simp: account_insert_def uncommitted_count_def wf_account_def Let_def)
qed

lemma account_insert_effect:
  assumes "wf_account a"
  shows "wf_account (a\<lparr>ia_states := ia_states a @ [(d, tx)]\<rparr>)"
    "uncommitted (a\<lparr>ia_states := ia_states a @ [(d, tx)]\<rparr>) = uncommitted a @ [tx]"
  using assms by (auto simp: wf_account_def uncommitted_def)

lemma account_revert_Ok:
  assumes "wf_account a" and "n \<le> length (uncommitted a)"
  shows "account_revert a n =
    (let a' = a\<lparr>ia_states := take (length (ia_states a) - n) (ia_states a)\<rparr> in Ok a' (emptiness a'))"
    "wf_account (a\<lparr>ia_states := take (length (ia_states a) - n) (ia_states a)\<rparr>)"
    "uncommitted (a\<lparr>ia_states := take (length (ia_states a) - n) (ia_states a)\<rparr>) =
       take (length (uncommitted a) - n) (uncommitted a)"
  using assms by (auto simp: account_revert_def uncommitted_count_def wf_account_def length_uncommitted
      uncommitted_def take_map drop_take add.commute)

lemma account_commit_Ok:
  assumes "wf_account a" and "n \<le> length (uncommitted a)"
  shows "account_commit a n = Ok (a\<lparr>ia_committed := ia_committed a + n\<rparr>) ()"
    "wf_account (a\<lparr>ia_committed := ia_committed a + n\<rparr>)"
    "uncommitted (a\<lparr>ia_committed := ia_committed a + n\<rparr>) = drop n (uncommitted a)"
  using assms by (auto simp: account_commit_def uncommitted_count_def wf_account_def length_uncommitted
      uncommitted_def drop_map add.commute)

lemma account_prune_Ok:
  assumes "wf_account a" and "n \<le> ia_committed a"
  shows "account_prune_committed a n =
    (let a' = a\<lparr>ia_committed := ia_committed a - n, ia_states := drop n (ia_states a)\<rparr> in Ok a' (emptiness a'))"
    "wf_account (a\<lparr>ia_committed := ia_committed a - n, ia_states := drop n (ia_states a)\<rparr>)"
    "uncommitted (a\<lparr>ia_committed := ia_committed a - n, ia_states := drop n (ia_states a)\<rparr>) = uncommitted a"
  using assms by (auto simp: account_prune_committed_def wf_account_def uncommitted_def)

section \<open>Properties\<close>

text \<open>
  The specification is a log that forgets nothing it was told to keep: the transitions of the account in
  order, of which the first \<open>lg_committed\<close> are committed and the first \<open>lg_pruned\<close> of those forgotten.
  An operation that asks for more than there is has no result.
\<close>

record account_log =
  lg_entries :: "(digest \<times> transaction_id) list"
  lg_committed :: nat
  lg_pruned :: nat

definition log_empty :: account_log where
  "log_empty = \<lparr>lg_entries = [], lg_committed = 0, lg_pruned = 0\<rparr>"

datatype account_op = InsertState digest transaction_id | RevertStates nat | CommitStates nat | PruneStates nat

datatype account_answer = Parent "transaction_id option" | Remaining account_status | Done

definition log_answer :: "account_log \<Rightarrow> account_answer" where
  "log_answer l = Remaining (if lg_pruned l < length (lg_entries l) then AccountNonEmpty else AccountEmpty)"

fun log_op :: "account_log \<Rightarrow> account_op \<Rightarrow> (account_log \<times> account_answer) option" where
  "log_op l (InsertState d tx) =
     Some (l\<lparr>lg_entries := lg_entries l @ [(d, tx)]\<rparr>,
       Parent (if lg_committed l < length (lg_entries l) then Some (snd (last (lg_entries l))) else None))"
| "log_op l (RevertStates n) =
     (if lg_committed l + n \<le> length (lg_entries l)
      then let l' = l\<lparr>lg_entries := take (length (lg_entries l) - n) (lg_entries l)\<rparr> in Some (l', log_answer l')
      else None)"
| "log_op l (CommitStates n) =
     (if lg_committed l + n \<le> length (lg_entries l) then Some (l\<lparr>lg_committed := lg_committed l + n\<rparr>, Done) else None)"
| "log_op l (PruneStates n) =
     (if lg_pruned l + n \<le> lg_committed l
      then let l' = l\<lparr>lg_pruned := lg_pruned l + n\<rparr> in Some (l', log_answer l')
      else None)"

fun run_log :: "account_log \<Rightarrow> account_op list \<Rightarrow> (account_log \<times> account_answer list) option" where
  "run_log l [] = Some (l, [])"
| "run_log l (op # ops) =
     Option.bind (log_op l op) (\<lambda>(l, x). map_option (\<lambda>(l, xs). (l, x # xs)) (run_log l ops))"

fun apply_account_op :: "inflight_account \<Rightarrow> account_op \<Rightarrow> (inflight_account, unit, account_answer) outcome" where
  "apply_account_op a (InsertState d tx) = map_outcome id id Parent (account_insert a d tx)"
| "apply_account_op a (RevertStates n) = map_outcome id id Remaining (account_revert a n)"
| "apply_account_op a (CommitStates n) = map_outcome id id (\<lambda>_. Done) (account_commit a n)"
| "apply_account_op a (PruneStates n) = map_outcome id id Remaining (account_prune_committed a n)"

fun run_account :: "inflight_account \<Rightarrow> account_op list \<Rightarrow> (inflight_account, unit, account_answer list) outcome" where
  "run_account a [] = Ok a []"
| "run_account a (op # ops) =
     and_then (apply_account_op a op) (\<lambda>a x. and_then (run_account a ops) (\<lambda>a xs. Ok a (x # xs)))"

definition log_view :: "account_log \<Rightarrow> inflight_account" where
  "log_view l = \<lparr>ia_states = drop (lg_pruned l) (lg_entries l), ia_committed = lg_committed l - lg_pruned l\<rparr>"

definition log_ok :: "account_log \<Rightarrow> bool" where
  "log_ok l \<longleftrightarrow> lg_pruned l \<le> lg_committed l \<and> lg_committed l \<le> length (lg_entries l)"

lemma log_op_ok: "log_ok l \<Longrightarrow> log_op l op = Some (l', x) \<Longrightarrow> log_ok l'"
  by (cases op) (auto simp: log_ok_def Let_def split: if_splits)

lemma uncommitted_count_view: "log_ok l \<Longrightarrow> uncommitted_count (log_view l) = Some (length (lg_entries l) - lg_committed l)"
  by (auto simp: uncommitted_count_def log_view_def log_ok_def diff_le_mono)

lemma emptiness_view: "Remaining (emptiness (log_view l)) = log_answer l"
  by (simp add: emptiness_def log_view_def log_answer_def)

text \<open>One operation on the view is the operation on the log.\<close>

lemma apply_account_op_view:
  assumes "log_ok l"
  shows "apply_account_op (log_view l) op = (case log_op l op of None \<Rightarrow> Panic | Some (l', x) \<Rightarrow> Ok (log_view l') x)"
proof (cases op)
  case (InsertState d tx)
  have "lg_pruned l \<le> length (lg_entries l)" using assms by (simp add: log_ok_def)
  moreover have "drop (lg_pruned l) (lg_entries l) \<noteq> []" if "lg_committed l < length (lg_entries l)"
    using assms that by (simp add: log_ok_def)
  ultimately show ?thesis
    using uncommitted_count_view[OF assms]
    by (auto simp: InsertState account_insert_def Let_def log_view_def last_drop)
next
  case (RevertStates n)
  show ?thesis
  proof (cases "lg_committed l + n \<le> length (lg_entries l)")
    case True
    let ?l = "l\<lparr>lg_entries := take (length (lg_entries l) - n) (lg_entries l)\<rparr>"
    have "log_view l\<lparr>ia_states := take (length (ia_states (log_view l)) - n) (ia_states (log_view l))\<rparr> = log_view ?l"
      by (simp add: log_view_def drop_take add.commute)
    then show ?thesis
      using True uncommitted_count_view[OF assms] by (simp add: RevertStates account_revert_def Let_def emptiness_view)
  qed (use uncommitted_count_view[OF assms] assms in \<open>auto simp: RevertStates account_revert_def log_ok_def\<close>)
next
  case (CommitStates n)
  then show ?thesis
    using uncommitted_count_view[OF assms] assms by (auto simp: account_commit_def log_view_def log_ok_def)
next
  case (PruneStates n)
  show ?thesis
  proof (cases "lg_pruned l + n \<le> lg_committed l")
    case True
    let ?l = "l\<lparr>lg_pruned := lg_pruned l + n\<rparr>"
    have "log_view l\<lparr>ia_committed := ia_committed (log_view l) - n, ia_states := drop n (ia_states (log_view l))\<rparr> = log_view ?l"
      by (simp add: log_view_def add.commute)
    moreover have "n \<le> ia_committed (log_view l)" "n \<le> length (ia_states (log_view l))"
      using True assms by (simp_all add: log_view_def log_ok_def)
    ultimately show ?thesis using True by (simp add: PruneStates account_prune_committed_def Let_def emptiness_view)
  next
    case False
    then have "\<not> n \<le> ia_committed (log_view l)" using assms unfolding log_view_def log_ok_def inflight_account.simps by linarith
    with False show ?thesis by (simp add: PruneStates account_prune_committed_def)
  qed
qed

lemma run_account_view:
  "log_ok l \<Longrightarrow> run_account (log_view l) ops = (case run_log l ops of None \<Rightarrow> Panic | Some (l', xs) \<Rightarrow> Ok (log_view l') xs)"
proof (induction ops arbitrary: l)
  case (Cons op ops)
  show ?case
  proof (cases "log_op l op")
    case (Some r)
    obtain l1 x where r: "r = (l1, x)" by fastforce
    with Some Cons.IH[OF log_op_ok[OF Cons.prems]] show ?thesis
      by (auto simp: apply_account_op_view[OF Cons.prems] split: option.split)
  qed (simp add: apply_account_op_view[OF Cons.prems])
qed simp

text \<open>
  C36. The deque of an account, for every sequence of calls from the default: it holds the transitions of
  the log that are not pruned, with the committed ones first, it answers every insertion with the last
  uncommitted transaction as parent and every revert and prune with whether a transition is left, and it
  panics exactly at the first call that reverts or commits more than is uncommitted or prunes more than is
  committed.
\<close>

theorem account_refines_log:
  "run_account account_default ops =
     (case run_log log_empty ops of
        None \<Rightarrow> Panic
      | Some (l, answers) \<Rightarrow>
          Ok \<lparr>ia_states = drop (lg_pruned l) (lg_entries l), ia_committed = lg_committed l - lg_pruned l\<rparr> answers)"
proof -
  have empty: "log_view log_empty = account_default" by (simp add: log_view_def log_empty_def account_default_def)
  have "log_ok log_empty" by (simp add: log_ok_def log_empty_def)
  from run_account_view[OF this, of ops] show ?thesis unfolding empty by (simp only: log_view_def)
qed

end
