(* ===== verification/Inflight_State.thy ===== *)
theory Inflight_State
  imports Account_State
begin

text \<open>
  The inflight state of the mempool (crates/block-producer/src/mempool/inflight_state/mod.rs):
  accounts, nullifiers and output notes of the transactions that are in the mempool or in a recently
  committed block. Verification of a new transaction, its insertion, the reversal of a set of
  transactions, and the commit of a block with the pruning of the oldest one. The invariant ties the
  three indices to the deltas of the transactions; under it no assertion of the code can fail.
\<close>

section \<open>Model\<close>

record delta =
  d_account :: account_id
  d_nullifiers :: "nullifier set"
  d_output_notes :: "note_id set"

datatype output_note_state = NoteCommitted | NoteInflight transaction_id

record inflight_state =
  is_accounts :: "account_id \<rightharpoonup> inflight_account"
  is_nullifiers :: "nullifier set"
  is_output_notes :: "note_id \<rightharpoonup> output_note_state"
  is_deltas :: "transaction_id \<rightharpoonup> delta"
  is_committed_blocks :: "(transaction_id \<times> delta) list list"
  is_num_retained :: nat
  is_chain_tip :: block_number
  is_expiration_slack :: nat

definition delta_new :: "auth_tx \<Rightarrow> delta" where
  "delta_new tx = \<lparr>d_account = tx_account_id tx, d_nullifiers = set (tx_nullifiers tx),
     d_output_notes = set (tx_output_note_ids tx)\<rparr>"

definition note_state_transaction :: "output_note_state \<Rightarrow> transaction_id option" where
  "note_state_transaction n = (case n of NoteInflight t \<Rightarrow> Some t | NoteCommitted \<Rightarrow> None)"

definition inflight_new :: "block_number \<Rightarrow> nat \<Rightarrow> nat \<Rightarrow> inflight_state" where
  "inflight_new chain_tip num_retained expiration_slack =
     \<lparr>is_accounts = Map.empty, is_nullifiers = {}, is_output_notes = Map.empty, is_deltas = Map.empty,
      is_committed_blocks = [], is_num_retained = num_retained, is_chain_tip = chain_tip,
      is_expiration_slack = expiration_slack\<rparr>"

text \<open>\<open>None\<close> stands for the two \<open>expect\<close>s: a length beyond \<open>u32\<close>, or more blocks than the chain has.\<close>

definition oldest_committed_state :: "inflight_state \<Rightarrow> block_number option" where
  "oldest_committed_state s =
     (let committed_len = length (is_committed_blocks s) in
      if committed_len < 2 ^ 32 \<and> committed_len \<le> is_chain_tip s
      then Some (is_chain_tip s - committed_len) else None)"

definition current_account_state :: "inflight_state \<Rightarrow> auth_tx \<Rightarrow> digest option" where
  "current_account_state s tx =
     (case Option.bind (is_accounts s (tx_account_id tx)) account_current_state of
        Some d \<Rightarrow> Some d
      | None \<Rightarrow> tx_store_account_state tx)"

definition verify_transaction ::
  "inflight_state \<Rightarrow> auth_tx \<Rightarrow> (inflight_state, add_transaction_error, unit) outcome" where
  "verify_transaction s tx =
     (let limit = is_chain_tip s + is_expiration_slack s in
      if tx_expires_at tx \<le> limit then Err s (Expired (tx_expires_at tx) limit)
      else case oldest_committed_state s of None \<Rightarrow> Panic | Some stale_limit \<Rightarrow>
      if tx_authentication_height tx < stale_limit
        then Err s (StaleInputs (tx_authentication_height tx) stale_limit)
      else let current = current_account_state s tx; expected = tx_initial_state tx in
      if expected \<noteq> (case current of None \<Rightarrow> default_digest | Some d \<Rightarrow> d)
        then Err s (VerificationFailed (IncorrectAccountInitialCommitment expected current))
      else let double_spend = filter (\<lambda>n. n \<in> is_nullifiers s) (tx_nullifiers tx) in
      if double_spend \<noteq> [] then Err s (VerificationFailed (InputNotesAlreadyConsumed double_spend))
      else let duplicates = filter (contains_key (is_output_notes s)) (tx_output_note_ids tx) in
      if duplicates \<noteq> [] then Err s (VerificationFailed (OutputNotesAlreadyExist duplicates))
      else let missing = filter (\<lambda>n. \<not> contains_key (is_output_notes s) n) (tx_unauthenticated_notes tx) in
      if missing \<noteq> [] then Err s (VerificationFailed (UnauthenticatedNotesNotFound missing))
      else Ok s ())"

definition add_output_note :: "transaction_id \<Rightarrow> note_id \<Rightarrow> (note_id \<rightharpoonup> output_note_state) \<Rightarrow> (note_id \<rightharpoonup> output_note_state)" where
  "add_output_note tx n m = m(n \<mapsto> NoteInflight tx)"

definition note_parents :: "(note_id \<rightharpoonup> output_note_state) \<Rightarrow> note_id list \<Rightarrow> transaction_id list" where
  "note_parents m ns = List.map_filter (\<lambda>n. Option.bind (m n) note_state_transaction) ns"

definition insert_transaction ::
  "inflight_state \<Rightarrow> auth_tx \<Rightarrow> (inflight_state, add_transaction_error, transaction_id set) outcome" where
  "insert_transaction s tx =
     (let acc = (case is_accounts s (tx_account_id tx) of None \<Rightarrow> account_default | Some a \<Rightarrow> a) in
      case account_insert acc (tx_final_state tx) (tx_id tx) of
        Ok acc' account_parent \<Rightarrow>
          let notes = fold (add_output_note (tx_id tx)) (tx_output_note_ids tx) (is_output_notes s) in
          Ok (s\<lparr>is_deltas := (is_deltas s)(tx_id tx \<mapsto> delta_new tx),
                is_accounts := (is_accounts s)(tx_account_id tx \<mapsto> acc'),
                is_nullifiers := is_nullifiers s \<union> set (tx_nullifiers tx),
                is_output_notes := notes\<rparr>)
             (set_option account_parent \<union> set (note_parents notes (tx_unauthenticated_notes tx)))
      | Err acc' e \<Rightarrow> Err s e | Panic \<Rightarrow> Panic | Diverge \<Rightarrow> Diverge)"

definition inflight_add_transaction ::
  "inflight_state \<Rightarrow> auth_tx \<Rightarrow> (inflight_state, add_transaction_error, transaction_id set) outcome" where
  "inflight_add_transaction s tx = and_then (verify_transaction s tx) (\<lambda>s' _. insert_transaction s' tx)"

definition put_account :: "inflight_state \<Rightarrow> account_id \<Rightarrow> inflight_account \<Rightarrow> account_status \<Rightarrow> inflight_state" where
  "put_account s acc a status =
     s\<lparr>is_accounts := (is_accounts s)(acc := if status_is_empty status then None else Some a)\<rparr>"

definition revert_one :: "inflight_state \<Rightarrow> transaction_id \<Rightarrow> (inflight_state, 'e, unit) outcome" where
  "revert_one s tx =
     (case is_deltas s tx of None \<Rightarrow> Panic | Some d \<Rightarrow>
      case is_accounts s (d_account d) of None \<Rightarrow> Panic | Some a \<Rightarrow>
      case account_revert a 1 of
        Ok a' status \<Rightarrow>
          (case checked_remove (sorted_list_of_set (d_nullifiers d)) (is_nullifiers s) of None \<Rightarrow> Panic | Some ns \<Rightarrow>
           case checked_remove_keys (sorted_list_of_set (d_output_notes d)) (is_output_notes s) of None \<Rightarrow> Panic | Some ons \<Rightarrow>
           Ok (put_account (s\<lparr>is_deltas := (is_deltas s)(tx := None), is_nullifiers := ns, is_output_notes := ons\<rparr>)
                 (d_account d) a' status) ())
      | Err a' e \<Rightarrow> Err s e | Panic \<Rightarrow> Panic | Diverge \<Rightarrow> Diverge)"

fun revert_all :: "inflight_state \<Rightarrow> transaction_id list \<Rightarrow> (inflight_state, 'e, unit) outcome" where
  "revert_all s [] = Ok s ()"
| "revert_all s (t # ts) = and_then (revert_one s t) (\<lambda>s' _. revert_all s' ts)"

definition inflight_revert_transactions ::
  "inflight_state \<Rightarrow> transaction_id set \<Rightarrow> (inflight_state, 'e, unit) outcome" where
  "inflight_revert_transactions s txs = revert_all s (sorted_list_of_set txs)"

text \<open>\<open>get_mut(note).expect(..).commit()\<close> for each of the notes.\<close>

fun commit_notes :: "note_id list \<Rightarrow> (note_id \<rightharpoonup> output_note_state) \<Rightarrow> (note_id \<rightharpoonup> output_note_state) option" where
  "commit_notes [] m = Some m"
| "commit_notes (n # ns) m = (if contains_key m n then commit_notes ns (m(n \<mapsto> NoteCommitted)) else None)"

definition commit_one ::
  "inflight_state \<Rightarrow> transaction_id \<Rightarrow> (inflight_state, 'e, delta) outcome" where
  "commit_one s tx =
     (case is_deltas s tx of None \<Rightarrow> Panic | Some d \<Rightarrow>
      case is_accounts s (d_account d) of None \<Rightarrow> Panic | Some a \<Rightarrow>
      case account_commit a 1 of
        Ok a' _ \<Rightarrow>
          (case commit_notes (sorted_list_of_set (d_output_notes d)) (is_output_notes s) of None \<Rightarrow> Panic | Some ons \<Rightarrow>
           Ok (s\<lparr>is_deltas := (is_deltas s)(tx := None), is_accounts := (is_accounts s)(d_account d \<mapsto> a'),
                 is_output_notes := ons\<rparr>) d)
      | Err a' e \<Rightarrow> Err s e | Panic \<Rightarrow> Panic | Diverge \<Rightarrow> Diverge)"

fun commit_all ::
  "inflight_state \<Rightarrow> transaction_id list \<Rightarrow> (transaction_id \<times> delta) list \<Rightarrow>
     (inflight_state, 'e, (transaction_id \<times> delta) list) outcome" where
  "commit_all s [] block_deltas = Ok s block_deltas"
| "commit_all s (t # ts) block_deltas =
     and_then (commit_one s t) (\<lambda>s' d. commit_all s' ts (bt_insert t d block_deltas))"

definition prune_delta :: "inflight_state \<Rightarrow> delta \<Rightarrow> (inflight_state, 'e, unit) outcome" where
  "prune_delta s d =
     (case is_accounts s (d_account d) of None \<Rightarrow> Panic | Some a \<Rightarrow>
      case account_prune_committed a 1 of
        Ok a' status \<Rightarrow>
          Ok (put_account (s\<lparr>is_nullifiers := is_nullifiers s - d_nullifiers d,
                is_output_notes := is_output_notes s |` (- d_output_notes d)\<rparr>) (d_account d) a' status) ()
      | Err a' e \<Rightarrow> Err s e | Panic \<Rightarrow> Panic | Diverge \<Rightarrow> Diverge)"

fun prune_deltas :: "inflight_state \<Rightarrow> delta list \<Rightarrow> (inflight_state, 'e, unit) outcome" where
  "prune_deltas s [] = Ok s ()"
| "prune_deltas s (d # ds) = and_then (prune_delta s d) (\<lambda>s' _. prune_deltas s' ds)"

definition prune_block :: "inflight_state \<Rightarrow> (inflight_state, 'e, unit) outcome" where
  "prune_block s =
     (if length (is_committed_blocks s) \<le> is_num_retained s then Ok s ()
      else case is_committed_blocks s of
        [] \<Rightarrow> Panic
      | block # blocks \<Rightarrow> prune_deltas (s\<lparr>is_committed_blocks := blocks\<rparr>) (map snd block))"

definition inflight_commit_block :: "inflight_state \<Rightarrow> transaction_id list \<Rightarrow> (inflight_state, 'e, unit) outcome" where
  "inflight_commit_block s txs =
     and_then (commit_all s txs []) (\<lambda>s' block_deltas.
     and_then (prune_block (s'\<lparr>is_committed_blocks := is_committed_blocks s' @ [block_deltas]\<rparr>)) (\<lambda>s'' _.
     Ok (s''\<lparr>is_chain_tip := Suc (is_chain_tip s'')\<rparr>) ()))"

definition num_accounts :: "inflight_state \<Rightarrow> nat" where
  "num_accounts s = card (dom (is_accounts s))"

definition num_nullifiers :: "inflight_state \<Rightarrow> nat" where
  "num_nullifiers s = card (is_nullifiers s)"

definition num_notes_created :: "inflight_state \<Rightarrow> nat" where
  "num_notes_created s = card (dom (is_output_notes s))"

section \<open>The invariant\<close>

text \<open>The deltas of the retained blocks, oldest first, and the inflight transactions of an account.\<close>

definition committed_deltas :: "inflight_state \<Rightarrow> delta list" where
  "committed_deltas s = concat (map (map snd) (is_committed_blocks s))"

definition inflight_of :: "(transaction_id \<rightharpoonup> delta) \<Rightarrow> account_id \<Rightarrow> transaction_id set" where
  "inflight_of ds a = {t. \<exists>d. ds t = Some d \<and> d_account d = a}"

definition committed_of :: "delta list \<Rightarrow> account_id \<Rightarrow> nat" where
  "committed_of ds a = length (filter (\<lambda>d. d_account d = a) ds)"

definition account_ok :: "inflight_account option \<Rightarrow> nat \<Rightarrow> transaction_id set \<Rightarrow> bool" where
  "account_ok oa c T = (case oa of
     None \<Rightarrow> c = 0 \<and> T = {}
   | Some a \<Rightarrow> ia_states a \<noteq> [] \<and> wf_account a \<and> ia_committed a = c
       \<and> distinct (uncommitted a) \<and> set (uncommitted a) = T)"

text \<open>
  What the indices hold, for given deltas \<open>cds\<close> of committed blocks. No two transactions, inflight
  or committed, share a nullifier or an output note.
\<close>

definition exclusive :: "(delta \<Rightarrow> nat set) \<Rightarrow> (transaction_id \<rightharpoonup> delta) \<Rightarrow> delta list \<Rightarrow> bool" where
  "exclusive f ds cds \<longleftrightarrow>
     (\<forall>t t' d d'. ds t = Some d \<and> ds t' = Some d' \<and> t \<noteq> t' \<longrightarrow> f d \<inter> f d' = {})
     \<and> (\<forall>t d. ds t = Some d \<longrightarrow> (\<forall>e \<in> set cds. f d \<inter> f e = {}))
     \<and> disj_list (map f cds)"

definition finite_deltas :: "(transaction_id \<rightharpoonup> delta) \<Rightarrow> delta list \<Rightarrow> bool" where
  "finite_deltas ds cds \<longleftrightarrow> finite (dom ds)
     \<and> (\<forall>d \<in> ran ds \<union> set cds. finite (d_nullifiers d) \<and> finite (d_output_notes d))"

definition nullifiers_ok :: "nullifier set \<Rightarrow> (transaction_id \<rightharpoonup> delta) \<Rightarrow> delta list \<Rightarrow> bool" where
  "nullifiers_ok ns ds cds \<longleftrightarrow> ns = (\<Union>d \<in> ran ds. d_nullifiers d) \<union> (\<Union>d \<in> set cds. d_nullifiers d)"

definition notes_ok :: "(note_id \<rightharpoonup> output_note_state) \<Rightarrow> (transaction_id \<rightharpoonup> delta) \<Rightarrow> delta list \<Rightarrow> bool" where
  "notes_ok ons ds cds \<longleftrightarrow>
     (\<forall>n t. ons n = Some (NoteInflight t) \<longleftrightarrow> (\<exists>d. ds t = Some d \<and> n \<in> d_output_notes d))
     \<and> (\<forall>n. ons n = Some NoteCommitted \<longleftrightarrow> (\<exists>d \<in> set cds. n \<in> d_output_notes d))"

definition core_inv :: "inflight_state \<Rightarrow> delta list \<Rightarrow> bool" where
  "core_inv s cds \<longleftrightarrow>
     (\<forall>a. account_ok (is_accounts s a) (committed_of cds a) (inflight_of (is_deltas s) a))
     \<and> finite_deltas (is_deltas s) cds
     \<and> exclusive d_nullifiers (is_deltas s) cds \<and> exclusive d_output_notes (is_deltas s) cds
     \<and> nullifiers_ok (is_nullifiers s) (is_deltas s) cds
     \<and> notes_ok (is_output_notes s) (is_deltas s) cds"

definition inflight_inv :: "inflight_state \<Rightarrow> bool" where
  "inflight_inv s \<longleftrightarrow> core_inv s (committed_deltas s)
     \<and> is_num_retained s < 2 ^ 32
     \<and> length (is_committed_blocks s) \<le> is_num_retained s
     \<and> length (is_committed_blocks s) \<le> is_chain_tip s"

text \<open>
  A set of transactions can be reverted (committed) when in every account its members are the
  newest (oldest) uncommitted ones.
\<close>

definition revertible :: "inflight_state \<Rightarrow> transaction_id set \<Rightarrow> bool" where
  "revertible s R \<longleftrightarrow> R \<subseteq> dom (is_deltas s)
     \<and> (\<forall>acc a. is_accounts s acc = Some a \<longrightarrow> (\<exists>k. R \<inter> set (uncommitted a) = set (drop k (uncommitted a))))"

definition committable :: "inflight_state \<Rightarrow> transaction_id set \<Rightarrow> bool" where
  "committable s C \<longleftrightarrow> C \<subseteq> dom (is_deltas s)
     \<and> (\<forall>acc a. is_accounts s acc = Some a \<longrightarrow> (\<exists>k. C \<inter> set (uncommitted a) = set (take k (uncommitted a))))"

text \<open>The state after some transactions were reverted, or committed, in any order.\<close>

definition reverted_account :: "inflight_account option \<Rightarrow> nat \<Rightarrow> inflight_account option" where
  "reverted_account oa k = (case oa of None \<Rightarrow> None | Some a \<Rightarrow>
     if length (ia_states a) \<le> k then None
     else Some (a\<lparr>ia_states := take (length (ia_states a) - k) (ia_states a)\<rparr>))"

definition deltas_of :: "(delta \<Rightarrow> nat set) \<Rightarrow> (transaction_id \<rightharpoonup> delta) \<Rightarrow> transaction_id set \<Rightarrow> nat set" where
  "deltas_of f ds R = (\<Union>t \<in> R. case ds t of None \<Rightarrow> {} | Some d \<Rightarrow> f d)"

definition reverted :: "inflight_state \<Rightarrow> transaction_id set \<Rightarrow> inflight_state" where
  "reverted s R = s\<lparr>is_deltas := is_deltas s |` (- R),
     is_accounts := (\<lambda>acc. reverted_account (is_accounts s acc) (card (R \<inter> inflight_of (is_deltas s) acc))),
     is_nullifiers := is_nullifiers s - deltas_of d_nullifiers (is_deltas s) R,
     is_output_notes := is_output_notes s |` (- deltas_of d_output_notes (is_deltas s) R)\<rparr>"

definition committing :: "inflight_state \<Rightarrow> transaction_id set \<Rightarrow> inflight_state" where
  "committing s C = s\<lparr>is_deltas := is_deltas s |` (- C),
     is_accounts := (\<lambda>acc. map_option (\<lambda>a. a\<lparr>ia_committed := ia_committed a + card (C \<inter> inflight_of (is_deltas s) acc)\<rparr>)
        (is_accounts s acc)),
     is_output_notes := (\<lambda>n. if n \<in> deltas_of d_output_notes (is_deltas s) C then Some NoteCommitted
        else is_output_notes s n)\<rparr>"

section \<open>Accounts\<close>

lemma account_okD:
  assumes "account_ok (Some a) c T"
  shows "ia_states a \<noteq> []" "wf_account a" "ia_committed a = c" "distinct (uncommitted a)"
    "set (uncommitted a) = T" "finite T" "card T = length (uncommitted a)"
    "length (ia_states a) = c + length (uncommitted a)"
  using assms distinct_card[of "uncommitted a"]
  by (auto simp: account_ok_def length_uncommitted wf_account_def)

lemma account_ok_insert:
  assumes "account_ok oa c T" and "t \<notin> T"
  shows "account_ok (Some ((case oa of None \<Rightarrow> account_default | Some a \<Rightarrow> a)
    \<lparr>ia_states := ia_states (case oa of None \<Rightarrow> account_default | Some a \<Rightarrow> a) @ [(d, t)]\<rparr>)) c (insert t T)"
proof (cases oa)
  case None
  then show ?thesis using assms by (simp add: account_ok_def wf_account_def uncommitted_def)
next
  case (Some a)
  note ok = account_okD[OF assms(1)[unfolded Some]]
  show ?thesis using ok assms(2) account_insert_effect[OF ok(2), of d t]
    by (simp add: Some account_ok_def)
qed

lemma distinct_drop_card:
  assumes "distinct xs" and "R \<inter> set xs = set (drop k xs)"
  shows "take (length xs - card (R \<inter> set xs)) xs = take k xs" "set (take k xs) = set xs - R"
proof -
  have "card (R \<inter> set xs) = length (drop k xs)"
    using assms by (simp add: distinct_card)
  then show "take (length xs - card (R \<inter> set xs)) xs = take k xs" by (cases "k \<le> length xs") auto
  have "set (take k xs) \<inter> set (drop k xs) = {}"
    by (rule set_take_disj_set_drop_if_distinct[OF assms(1)]) simp
  moreover have "set (take k xs) \<union> set (drop k xs) = set xs" by (metis append_take_drop_id set_append)
  ultimately show "set (take k xs) = set xs - R" using assms(2) by auto
qed

lemma distinct_take_card:
  assumes "distinct xs" and "C \<inter> set xs = set (take k xs)"
  shows "drop (card (C \<inter> set xs)) xs = drop k xs" "set (drop k xs) = set xs - C"
proof -
  have "card (C \<inter> set xs) = min (length xs) k"
    using assms by (simp add: distinct_card)
  then show "drop (card (C \<inter> set xs)) xs = drop k xs" by (cases "k \<le> length xs") auto
  have "set (take k xs) \<inter> set (drop k xs) = {}"
    by (rule set_take_disj_set_drop_if_distinct[OF assms(1)]) simp
  moreover have "set (take k xs) \<union> set (drop k xs) = set xs" by (metis append_take_drop_id set_append)
  ultimately show "set (drop k xs) = set xs - C" using assms(2) by auto
qed

lemma account_ok_reverted:
  assumes ok: "account_ok oa c T"
    and suffix: "\<And>a. oa = Some a \<Longrightarrow> \<exists>k. R \<inter> set (uncommitted a) = set (drop k (uncommitted a))"
  shows "account_ok (reverted_account oa (card (R \<inter> T))) c (T - R)"
proof (cases oa)
  case None
  then show ?thesis using ok by (simp add: account_ok_def reverted_account_def)
next
  case (Some a)
  note okD = account_okD[OF ok[unfolded Some]]
  from suffix[OF Some] obtain k where k: "R \<inter> set (uncommitted a) = set (drop k (uncommitted a))" ..
  let ?n = "card (R \<inter> T)"
  have le: "?n \<le> length (uncommitted a)"
    using okD(6,7) card_mono[of T "R \<inter> T"] by simp
  note rv = account_revert_Ok[OF okD(2) le]
  have unc: "uncommitted (a\<lparr>ia_states := take (length (ia_states a) - ?n) (ia_states a)\<rparr>) = take k (uncommitted a)"
    using rv(3) distinct_drop_card(1)[OF okD(4) k] okD(5) by simp
  have T: "set (take k (uncommitted a)) = T - R" using distinct_drop_card(2)[OF okD(4) k] okD(5) by simp
  show ?thesis
  proof (cases "length (ia_states a) \<le> ?n")
    case True
    then have "c = 0" "?n = length (uncommitted a)" using le okD(8) by auto
    moreover have "T - R = {}"
      using calculation(2) okD(6,7) card_subset_eq[of T "R \<inter> T"] by auto
    ultimately show ?thesis using True Some by (simp add: account_ok_def reverted_account_def)
  next
    case False
    then show ?thesis
      using rv(2) unc T okD(1,3,4) Some by (simp add: account_ok_def reverted_account_def)
  qed
qed

lemma account_ok_committed:
  assumes ok: "account_ok oa c T"
    and prefix: "\<And>a. oa = Some a \<Longrightarrow> \<exists>k. C \<inter> set (uncommitted a) = set (take k (uncommitted a))"
  shows "account_ok (map_option (\<lambda>a. a\<lparr>ia_committed := ia_committed a + card (C \<inter> T)\<rparr>) oa)
    (c + card (C \<inter> T)) (T - C)"
proof (cases oa)
  case None
  then show ?thesis using ok by (simp add: account_ok_def)
next
  case (Some a)
  note okD = account_okD[OF ok[unfolded Some]]
  from prefix[OF Some] obtain k where k: "C \<inter> set (uncommitted a) = set (take k (uncommitted a))" ..
  have le: "card (C \<inter> T) \<le> length (uncommitted a)"
    using okD(6,7) card_mono[of T "C \<inter> T"] by simp
  note cm = account_commit_Ok[OF okD(2) le]
  show ?thesis
    using cm(2,3) distinct_take_card[OF okD(4) k] okD by (simp add: Some account_ok_def)
qed

lemma account_ok_pruned:
  assumes ok: "account_ok (Some a) (Suc c) T"
  shows "\<exists>a' st. account_prune_committed a 1 = Ok a' st
    \<and> account_ok (if status_is_empty st then None else Some a') c T \<and> uncommitted a' = uncommitted a"
proof -
  note okD = account_okD[OF ok]
  have "1 \<le> ia_committed a" using okD(3) by simp
  note pr = account_prune_Ok[OF okD(2) this]
  let ?a = "a\<lparr>ia_committed := ia_committed a - 1, ia_states := drop 1 (ia_states a)\<rparr>"
  have "c = 0 \<and> T = {}" if "ia_states ?a = []" using okD that by auto
  moreover have "ia_committed ?a = c" using okD(3) by simp
  ultimately have "account_ok (if status_is_empty (emptiness ?a) then None else Some ?a) c T"
    using pr(2,3) okD(4,5) unfolding status_is_empty_emptiness account_ok_def
    by (cases "ia_states ?a = []") simp_all
  with pr(1,3) show ?thesis unfolding Let_def by blast
qed

section \<open>Deltas\<close>

lemma inflight_of_upd:
  "ds t = None \<Longrightarrow> inflight_of (ds(t \<mapsto> d)) a = (if a = d_account d then insert t (inflight_of ds a) else inflight_of ds a)"
  by (auto simp: inflight_of_def)

lemma inflight_of_restrict: "inflight_of (ds |` (- R)) a = inflight_of ds a - R"
  by (auto simp: inflight_of_def restrict_map_def)

lemma inflight_of_mem: "ds t = Some d \<Longrightarrow> t \<in> inflight_of ds a \<longleftrightarrow> a = d_account d"
  by (auto simp: inflight_of_def)

lemma ran_restrict_subset: "ran (m |` A) \<subseteq> ran m"
  by (auto simp: ran_def restrict_map_def split: if_splits)

lemma finite_deltas_restrict: "finite_deltas ds cds \<Longrightarrow> finite_deltas (ds |` A) cds"
  using ran_restrict_subset[of ds A] by (auto simp: finite_deltas_def)

lemma deltas_of_insert: "ds t = Some d \<Longrightarrow> deltas_of f ds (insert t R) = f d \<union> deltas_of f ds R"
  by (simp add: deltas_of_def)

lemma exclusiveD:
  assumes "exclusive f ds cds" and "ds t = Some d"
  shows "ds u = Some e \<Longrightarrow> t \<noteq> u \<Longrightarrow> f d \<inter> f e = {}" "c \<in> set cds \<Longrightarrow> f d \<inter> f c = {}"
  using assms unfolding exclusive_def by blast+

lemma exclusive_deltas_of:
  assumes "exclusive f ds cds" and "ds t = Some d" and "t \<notin> R"
  shows "f d \<inter> deltas_of f ds R = {}"
  using assms by (auto simp: exclusive_def deltas_of_def split: option.splits) blast

lemma exclusive_restrict: "exclusive f ds cds \<Longrightarrow> exclusive f (ds |` A) cds"
  unfolding exclusive_def by (auto simp: restrict_map_def split: if_splits)

lemma core_invD:
  assumes "core_inv s cds"
  shows "account_ok (is_accounts s a) (committed_of cds a) (inflight_of (is_deltas s) a)"
    "finite_deltas (is_deltas s) cds" "exclusive d_nullifiers (is_deltas s) cds"
    "exclusive d_output_notes (is_deltas s) cds"
    "nullifiers_ok (is_nullifiers s) (is_deltas s) cds" "notes_ok (is_output_notes s) (is_deltas s) cds"
  using assms unfolding core_inv_def by blast+

lemma finite_delta:
  assumes "finite_deltas ds cds" and "ds t = Some d"
  shows "finite (d_nullifiers d)" "finite (d_output_notes d)"
  using assms by (auto simp: finite_deltas_def intro: ranI)

lemma notes_ok_dom:
  assumes "notes_ok ons ds cds" and "ds t = Some d"
  shows "d_output_notes d \<subseteq> dom ons"
  using assms by (fastforce simp: notes_ok_def)

lemma nullifiers_ok_sub:
  assumes "nullifiers_ok ns ds cds" and "ds t = Some d"
  shows "d_nullifiers d \<subseteq> ns"
  using assms by (auto simp: nullifiers_ok_def intro: ranI)

lemma restrict_map_compl: "(m |` (- R)) t = Some d \<longleftrightarrow> t \<notin> R \<and> m t = Some d"
  by (auto simp: restrict_map_def)

lemma in_UN_ran: "x \<in> (\<Union>d \<in> ran ds. f d) \<longleftrightarrow> (\<exists>t d. ds t = Some d \<and> x \<in> f d)"
  by (auto simp: ran_def)

lemma deltas_of_split:
  "(\<Union>d \<in> ran ds. f d) = deltas_of f ds R \<union> (\<Union>d \<in> ran (ds |` (- R)). f d)"
proof (rule set_eqI)
  fix x
  have "x \<in> deltas_of f ds R \<longleftrightarrow> (\<exists>t \<in> R. \<exists>d. ds t = Some d \<and> x \<in> f d)"
    by (auto simp: deltas_of_def split: option.splits)
  then show "x \<in> (\<Union>d \<in> ran ds. f d) \<longleftrightarrow> x \<in> deltas_of f ds R \<union> (\<Union>d \<in> ran (ds |` (- R)). f d)"
    unfolding Un_iff in_UN_ran restrict_map_compl by blast
qed

section \<open>Reverting\<close>

lemma reverted_account_revert:
  assumes ok: "account_ok (Some a) n T" and "finite R" and t: "t \<in> T" "t \<notin> R"
  shows "\<exists>b. reverted_account (Some a) (card (R \<inter> T)) = Some b \<and>
    (\<exists>b' st. account_revert b 1 = Ok b' st
      \<and> (if status_is_empty st then None else Some b') = reverted_account (Some a) (card (insert t R \<inter> T)))"
proof -
  note okD = account_okD[OF ok]
  let ?n = "card (R \<inter> T)"
  have card: "card (insert t R \<inter> T) = Suc ?n" using t okD(6) by simp
  moreover have "card (insert t R \<inter> T) \<le> card T" using okD(6) by (intro card_mono) auto
  ultimately have lt: "?n < length (uncommitted a)" using okD(7) by simp
  define b where "b = a\<lparr>ia_states := take (length (ia_states a) - ?n) (ia_states a)\<rparr>"
  define c where "c = a\<lparr>ia_states := take (length (ia_states a) - Suc ?n) (ia_states a)\<rparr>"
  note rv = account_revert_Ok[OF okD(2) less_imp_le[OF lt]]
  have len: "length (ia_states b) = length (ia_states a) - ?n" by (simp add: b_def)
  have b: "reverted_account (Some a) ?n = Some b" using lt okD(8) by (simp add: reverted_account_def b_def)
  have "1 \<le> length (uncommitted b)" using rv(3) lt by (simp add: b_def)
  then have "account_revert b 1 =
      (let b' = b\<lparr>ia_states := take (length (ia_states b) - 1) (ia_states b)\<rparr> in Ok b' (emptiness b'))"
    using account_revert_Ok(1)[of b 1] rv(2) by (simp add: b_def)
  moreover have "take (length (ia_states b) - 1) (ia_states b) = take (length (ia_states a) - Suc ?n) (ia_states a)"
    unfolding len by (simp add: b_def min_absorb1 diff_le_mono2)
  then have "b\<lparr>ia_states := take (length (ia_states b) - 1) (ia_states b)\<rparr> = c"
    by (simp add: b_def c_def)
  ultimately have rev: "account_revert b 1 = Ok c (emptiness c)" by (simp add: Let_def)
  have "(if status_is_empty (emptiness c) then None else Some c) = reverted_account (Some a) (card (insert t R \<inter> T))"
    using okD(1) by (auto simp: card reverted_account_def c_def)
  with b rev show ?thesis by blast
qed

lemma revert_one_reverted:
  assumes inv: "core_inv s cds" and t: "is_deltas s t = Some d" "t \<notin> R" and fin: "finite R"
  shows "revert_one (reverted s R) t = (Ok (reverted s (insert t R)) () :: (inflight_state, 'e, unit) outcome)"
proof -
  let ?ds = "is_deltas s" and ?acc = "d_account d"
  note invD = core_invD[OF inv]
  have tT: "t \<in> inflight_of ?ds ?acc" using t by (simp add: inflight_of_mem)
  then obtain a where a: "is_accounts s ?acc = Some a"
    using invD(1)[of ?acc] by (cases "is_accounts s ?acc") (auto simp: account_ok_def)
  obtain b b' st where b: "reverted_account (Some a) (card (R \<inter> inflight_of ?ds ?acc)) = Some b"
      "account_revert b 1 = (Ok b' st :: (inflight_account, 'e, account_status) outcome)"
      "(if status_is_empty st then None else Some b')
        = reverted_account (Some a) (card (insert t R \<inter> inflight_of ?ds ?acc))"
    using reverted_account_revert[of a _ "inflight_of ?ds ?acc" R t] invD(1)[of ?acc] a fin tT t(2) by metis
  have other: "card (insert t R \<inter> inflight_of ?ds x) = card (R \<inter> inflight_of ?ds x)" if "x \<noteq> ?acc" for x
    using that t by (simp add: inflight_of_mem)
  have accs: "(is_accounts (reverted s R))(?acc := if status_is_empty st then None else Some b')
      = is_accounts (reverted s (insert t R))"
    using b(3) a other by (auto simp: reverted_def fun_eq_iff)
  have sub: "d_nullifiers d \<subseteq> is_nullifiers s - deltas_of d_nullifiers ?ds R"
    using nullifiers_ok_sub[OF invD(5) t(1)] exclusive_deltas_of[OF invD(3) t] by blast
  have ns: "checked_remove (sorted_list_of_set (d_nullifiers d)) (is_nullifiers (reverted s R))
      = Some (is_nullifiers (reverted s (insert t R)))"
    using sub finite_delta(1)[OF invD(2) t(1)] deltas_of_insert[of ?ds t d d_nullifiers R] t(1)
    by (simp add: checked_remove_Some reverted_def Diff_eq) blast
  have sub: "d_output_notes d \<subseteq> dom (is_output_notes s) - deltas_of d_output_notes ?ds R"
    using notes_ok_dom[OF invD(6) t(1)] exclusive_deltas_of[OF invD(4) t] by blast
  have ons: "checked_remove_keys (sorted_list_of_set (d_output_notes d)) (is_output_notes (reverted s R))
      = Some (is_output_notes (reverted s (insert t R)))"
    using sub finite_delta(2)[OF invD(2) t(1)] deltas_of_insert[of ?ds t d d_output_notes R] t(1)
    by (subst checked_remove_keys_Some) (auto simp: reverted_def restrict_map_def fun_eq_iff)
  have "is_deltas (reverted s R) t = Some d" "is_accounts (reverted s R) ?acc = Some b"
    using t b(1) a by (simp_all add: reverted_def)
  moreover have "put_account ((reverted s R)\<lparr>is_deltas := (is_deltas (reverted s R))(t := None),
      is_nullifiers := is_nullifiers (reverted s (insert t R)),
      is_output_notes := is_output_notes (reverted s (insert t R))\<rparr>) ?acc b' st = reverted s (insert t R)"
    using accs by (simp add: put_account_def reverted_def restrict_map_def fun_eq_iff)
  ultimately show ?thesis using b(2) ns ons by (simp add: revert_one_def)
qed

lemma revert_all_reverted:
  assumes inv: "core_inv s cds"
  shows "distinct ts \<Longrightarrow> set ts \<inter> R = {} \<Longrightarrow> finite R \<Longrightarrow> set ts \<subseteq> dom (is_deltas s)
    \<Longrightarrow> revert_all (reverted s R) ts = Ok (reverted s (R \<union> set ts)) ()"
proof (induction ts arbitrary: R)
  case Nil
  then show ?case by simp
next
  case (Cons t ts)
  then obtain d where "is_deltas s t = Some d" by auto
  then show ?case
    using Cons.IH[of "insert t R"] Cons.prems by (simp add: revert_one_reverted[OF inv, of t d R])
qed

lemma reverted_empty:
  assumes "core_inv s cds"
  shows "reverted s {} = s"
proof -
  have "reverted_account (is_accounts s a) 0 = is_accounts s a" for a
    using core_invD(1)[OF assms, of a] by (auto simp: reverted_account_def account_ok_def split: option.splits)
  then show ?thesis by (simp add: reverted_def deltas_of_def restrict_map_def)
qed

lemma inflight_revert_Ok:
  assumes inv: "core_inv s cds" and R: "R \<subseteq> dom (is_deltas s)"
  shows "inflight_revert_transactions s R = Ok (reverted s R) ()"
proof -
  have "finite R" using R core_invD(2)[OF inv] by (auto simp: finite_deltas_def intro: finite_subset)
  then show ?thesis
    using revert_all_reverted[OF inv, of "sorted_list_of_set R" "{}"] R reverted_empty[OF inv]
    by (simp add: inflight_revert_transactions_def)
qed

lemma reverted_core_inv:
  assumes inv: "core_inv s cds" and R: "revertible s R"
  shows "core_inv (reverted s R) cds"
proof -
  note invD = core_invD[OF inv]
  let ?ds = "is_deltas s"
  have acc: "account_ok (is_accounts (reverted s R) a) (committed_of cds a) (inflight_of (is_deltas (reverted s R)) a)" for a
    using account_ok_reverted[OF invD(1)[of a], of R] R by (simp add: reverted_def revertible_def inflight_of_restrict)
  have cds: "deltas_of f ?ds R \<inter> f e = {}" if "exclusive f ?ds cds" "e \<in> set cds" for f e
    using that by (auto simp: deltas_of_def exclusive_def split: option.splits) blast
  have other: "deltas_of f ?ds R \<inter> f d = {}" if "exclusive f ?ds cds" "?ds t = Some d" "t \<notin> R" for f t d
    using exclusive_deltas_of[OF that] by blast
  have "nullifiers_ok (is_nullifiers (reverted s R)) (is_deltas (reverted s R)) cds"
  proof -
    have "(\<Union>d \<in> ran ?ds. d_nullifiers d) = deltas_of d_nullifiers ?ds R \<union> (\<Union>d \<in> ran (?ds |` (- R)). d_nullifiers d)"
      by (rule deltas_of_split)
    moreover have "deltas_of d_nullifiers ?ds R \<inter> (\<Union>d \<in> ran (?ds |` (- R)). d_nullifiers d) = {}"
      using other[OF invD(3)] by (auto simp: ran_def restrict_map_def split: if_splits)
    moreover have "deltas_of d_nullifiers ?ds R \<inter> (\<Union>d \<in> set cds. d_nullifiers d) = {}"
      using cds[OF invD(3)] by blast
    ultimately show ?thesis using invD(5) by (auto simp: nullifiers_ok_def reverted_def)
  qed
  moreover have "notes_ok (is_output_notes (reverted s R)) (is_deltas (reverted s R)) cds"
    using invD(6) cds[OF invD(4)] other[OF invD(4)] unfolding notes_ok_def reverted_def
    by (auto simp: restrict_map_def deltas_of_def split: option.splits if_splits) fastforce+
  ultimately show ?thesis
    using acc finite_deltas_restrict[OF invD(2)] exclusive_restrict[OF invD(3)] exclusive_restrict[OF invD(4)]
    by (simp add: core_inv_def reverted_def)
qed
section \<open>Verifying and inserting\<close>

lemma verify_transaction_Ok:
  assumes "verify_transaction s tx = Ok s' u"
  shows "s' = s" "is_chain_tip s + is_expiration_slack s < tx_expires_at tx"
    "tx_initial_state tx = (case current_account_state s tx of None \<Rightarrow> default_digest | Some d \<Rightarrow> d)"
    "set (tx_nullifiers tx) \<inter> is_nullifiers s = {}"
    "set (tx_output_note_ids tx) \<inter> dom (is_output_notes s) = {}"
    "set (tx_unauthenticated_notes tx) \<subseteq> dom (is_output_notes s)"
  using assms
  by (auto simp: verify_transaction_def Let_def filter_empty_conv split: if_splits option.splits)

lemma verify_transaction_total:
  assumes "inflight_inv s"
  shows "verify_transaction s tx = Ok s () \<or> (\<exists>e. verify_transaction s tx = Err s e)"
proof -
  have "oldest_committed_state s \<noteq> None"
    using assms by (auto simp: oldest_committed_state_def inflight_inv_def)
  then obtain l where l: "oldest_committed_state s = Some l" by blast
  have "verify_transaction s tx \<noteq> Panic" "verify_transaction s tx \<noteq> Diverge"
    by (simp_all add: verify_transaction_def Let_def l)
  moreover have "s' = s" if "verify_transaction s tx = Err s' e" for s' e
    using that by (auto simp: verify_transaction_def Let_def l split: if_splits)
  ultimately show ?thesis using verify_transaction_Ok(1)[of s tx]
    by (cases "verify_transaction s tx") auto
qed

lemma fold_add_output_note:
  "fold (add_output_note t) ns m n = (if n \<in> set ns then Some (NoteInflight t) else m n)"
  by (induction ns arbitrary: m) (auto simp: add_output_note_def)

lemma set_note_parents:
  "set (note_parents m ns) = {t. \<exists>n \<in> set ns. m n = Some (NoteInflight t)}"
proof -
  have "Option.bind (m n) note_state_transaction = Some t \<longleftrightarrow> m n = Some (NoteInflight t)" for n t
  proof (cases "m n")
    case (Some y)
    then show ?thesis by (cases y) (auto simp: note_state_transaction_def)
  qed simp
  then have "set (List.map_filter (\<lambda>n. Option.bind (m n) note_state_transaction) ns) =
      {t. \<exists>n \<in> set ns. m n = Some (NoteInflight t)}"
    by (induction ns)
      (auto simp: List.map_filter_simps note_state_transaction_def split: option.splits output_note_state.splits)
  then show ?thesis by (simp add: note_parents_def)
qed

text \<open>The state and the parents that a verified transaction yields.\<close>

lemma insert_transaction_Ok:
  fixes tx :: auth_tx
  assumes inv: "core_inv s cds"
  defines "acc \<equiv> (case is_accounts s (tx_account_id tx) of None \<Rightarrow> account_default | Some a \<Rightarrow> a)"
  shows "insert_transaction s tx =
    Ok (s\<lparr>is_deltas := (is_deltas s)(tx_id tx \<mapsto> delta_new tx),
          is_accounts := (is_accounts s)(tx_account_id tx \<mapsto> acc\<lparr>ia_states := ia_states acc @ [(tx_final_state tx, tx_id tx)]\<rparr>),
          is_nullifiers := is_nullifiers s \<union> set (tx_nullifiers tx),
          is_output_notes := fold (add_output_note (tx_id tx)) (tx_output_note_ids tx) (is_output_notes s)\<rparr>)
       ((if uncommitted acc = [] then {} else {last (uncommitted acc)})
        \<union> {t. \<exists>n \<in> set (tx_unauthenticated_notes tx).
            fold (add_output_note (tx_id tx)) (tx_output_note_ids tx) (is_output_notes s) n = Some (NoteInflight t)})"
proof -
  have "wf_account acc"
    using core_invD(1)[OF inv, of "tx_account_id tx"] by (auto simp: acc_def account_ok_def split: option.splits)
  then show ?thesis
    unfolding insert_transaction_def acc_def[symmetric] Let_def set_note_parents
    by (auto simp: account_insert_Ok)
qed

lemma inserted_core_inv:
  assumes inv: "core_inv s cds" and ver: "verify_transaction s tx = Ok s ()"
    and new: "tx_id tx \<notin> dom (is_deltas s)" and ins: "insert_transaction s tx = Ok s' ps"
  shows "core_inv s' cds" "ps \<subseteq> dom (is_deltas s)"
proof -
  note invD = core_invD[OF inv] and v = verify_transaction_Ok[OF ver]
  let ?ds = "is_deltas s" and ?t = "tx_id tx" and ?d = "delta_new tx"
  have none: "?ds ?t = None" using new by auto
  define acc where "acc = (case is_accounts s (tx_account_id tx) of None \<Rightarrow> account_default | Some a \<Rightarrow> a)"
  note ins' = insert_transaction_Ok[OF inv, of tx, folded acc_def, unfolded ins]
  have s': "s' = s\<lparr>is_deltas := ?ds(?t \<mapsto> ?d),
       is_accounts := (is_accounts s)(tx_account_id tx \<mapsto> acc\<lparr>ia_states := ia_states acc @ [(tx_final_state tx, ?t)]\<rparr>),
       is_nullifiers := is_nullifiers s \<union> set (tx_nullifiers tx),
       is_output_notes := fold (add_output_note ?t) (tx_output_note_ids tx) (is_output_notes s)\<rparr>"
    using ins' by simp
  have d: "d_account ?d = tx_account_id tx" "d_nullifiers ?d = set (tx_nullifiers tx)"
    "d_output_notes ?d = set (tx_output_note_ids tx)" by (simp_all add: delta_new_def)
  have fresh: "f ?d \<inter> f e = {}" if "e \<in> ran ?ds \<union> set cds" "f = d_nullifiers \<or> f = d_output_notes" for e f
  proof -
    have "d_nullifiers e \<subseteq> is_nullifiers s" using that(1) invD(5) by (auto simp: nullifiers_ok_def)
    moreover have "d_output_notes e \<subseteq> dom (is_output_notes s)"
      using that(1) invD(6) by (fastforce simp: notes_ok_def ran_def)
    ultimately show ?thesis using that(2) v(4,5) d by blast
  qed
  have excl: "exclusive f (?ds(?t \<mapsto> ?d)) cds"
    if f: "f = d_nullifiers \<or> f = d_output_notes" and old: "exclusive f ?ds cds" for f
    using old fresh[OF _ f] unfolding exclusive_def by (auto simp: ran_def)
  have notin: "?t \<notin> inflight_of ?ds (tx_account_id tx)" using none by (simp add: inflight_of_def)
  have "account_ok (is_accounts s' a) (committed_of cds a) (inflight_of (is_deltas s') a)" for a
    using invD(1)[of a] account_ok_insert[OF invD(1)[of "tx_account_id tx"] notin]
    by (simp add: s' acc_def inflight_of_upd[where ds = ?ds and t = ?t, OF none] d)
  moreover have "finite_deltas (is_deltas s') cds"
    using invD(2) none by (auto simp: s' finite_deltas_def d ran_map_upd)
  moreover have "exclusive d_nullifiers (is_deltas s') cds" "exclusive d_output_notes (is_deltas s') cds"
    using excl invD(3,4) by (simp_all add: s')
  moreover have "nullifiers_ok (is_nullifiers s') (is_deltas s') cds"
    using invD(5) none by (auto simp: s' nullifiers_ok_def d ran_map_upd)
  moreover have "notes_ok (is_output_notes s') (is_deltas s') cds"
  proof -
    have "is_output_notes s n = None" if "n \<in> set (tx_output_note_ids tx)" for n using that v(5) by blast
    then show ?thesis
      using invD(6) none unfolding notes_ok_def s' by (auto simp: fold_add_output_note d) force+
  qed
  ultimately show "core_inv s' cds" by (simp add: core_inv_def)
  show "ps \<subseteq> dom ?ds"
  proof
    fix p assume "p \<in> ps"
    then consider "uncommitted acc \<noteq> []" "p = last (uncommitted acc)"
      | n where "n \<in> set (tx_unauthenticated_notes tx)" "n \<notin> set (tx_output_note_ids tx)"
          "is_output_notes s n = Some (NoteInflight p)"
      using ins' v(5,6) by (auto simp: fold_add_output_note split: if_splits)
    then show "p \<in> dom ?ds"
    proof cases
      case 1
      then have "p \<in> set (uncommitted acc)" by simp
      then show ?thesis using invD(1)[of "tx_account_id tx"]
        by (auto simp: acc_def account_ok_def inflight_of_def split: option.splits)
    next
      case 2
      then show ?thesis using invD(6) by (auto simp: notes_ok_def)
    qed
  qed
qed

section \<open>Committing and pruning\<close>

lemma commit_notes_Some:
  "set ns \<subseteq> dom m \<Longrightarrow> commit_notes ns m = Some (\<lambda>n. if n \<in> set ns then Some NoteCommitted else m n)"
proof (induction ns arbitrary: m)
  case (Cons n ns)
  then have "set ns \<subseteq> dom (m(n \<mapsto> NoteCommitted))" by auto
  note Cons.IH[OF this]
  moreover have "(\<lambda>x. if x \<in> set ns then Some NoteCommitted else (m(n \<mapsto> NoteCommitted)) x)
      = (\<lambda>x. if x \<in> set (n # ns) then Some NoteCommitted else m x)" by auto
  ultimately have "commit_notes ns (m(n \<mapsto> NoteCommitted)) =
      Some (\<lambda>x. if x \<in> set (n # ns) then Some NoteCommitted else m x)" by (simp only:)
  with Cons.prems show ?case by simp
qed simp

lemma commit_one_committing:
  assumes inv: "core_inv s cds" and t: "is_deltas s t = Some d" "t \<notin> C" and fin: "finite C"
  shows "commit_one (committing s C) t = (Ok (committing s (insert t C)) d :: (inflight_state, 'e, delta) outcome)"
proof -
  let ?ds = "is_deltas s" and ?acc = "d_account d"
  note invD = core_invD[OF inv]
  have tT: "t \<in> inflight_of ?ds ?acc" using t by (simp add: inflight_of_mem)
  then obtain a where a: "is_accounts s ?acc = Some a"
    using invD(1)[of ?acc] by (cases "is_accounts s ?acc") (auto simp: account_ok_def)
  note okD = account_okD[OF invD(1)[of ?acc, unfolded a]]
  let ?T = "inflight_of ?ds ?acc"
  have card: "card (insert t C \<inter> ?T) = Suc (card (C \<inter> ?T))" using tT t okD(6) by simp
  moreover have "card (insert t C \<inter> ?T) \<le> card ?T" using okD(6) by (intro card_mono) auto
  ultimately have lt: "card (C \<inter> ?T) < length (uncommitted a)" using okD(7) by simp
  define b where "b = a\<lparr>ia_committed := ia_committed a + card (C \<inter> ?T)\<rparr>"
  note cm = account_commit_Ok[OF okD(2) less_imp_le[OF lt]]
  have "1 \<le> length (uncommitted b)" using cm(3) lt by (simp add: b_def)
  then have b: "account_commit b 1 = (Ok (b\<lparr>ia_committed := ia_committed b + 1\<rparr>) () :: (inflight_account, 'e, unit) outcome)"
    using account_commit_Ok(1)[of b 1] cm(2) by (simp add: b_def)
  have sub: "set (sorted_list_of_set (d_output_notes d)) \<subseteq> dom (is_output_notes (committing s C))"
    using notes_ok_dom[OF invD(6) t(1)] finite_delta(2)[OF invD(2) t(1)] by (auto simp: committing_def)
  have ons: "commit_notes (sorted_list_of_set (d_output_notes d)) (is_output_notes (committing s C))
      = Some (is_output_notes (committing s (insert t C)))"
    using commit_notes_Some[OF sub] finite_delta(2)[OF invD(2) t(1)] t(1)
    by (auto simp: committing_def deltas_of_insert fun_eq_iff)
  have other: "card (insert t C \<inter> inflight_of ?ds x) = card (C \<inter> inflight_of ?ds x)" if "x \<noteq> ?acc" for x
    using that t by (simp add: inflight_of_mem)
  have accs: "(is_accounts (committing s C))(?acc \<mapsto> b\<lparr>ia_committed := ia_committed b + 1\<rparr>)
      = is_accounts (committing s (insert t C))"
    using a other card by (auto simp: committing_def b_def fun_eq_iff)
  have "is_deltas (committing s C) t = Some d" "is_accounts (committing s C) ?acc = Some b"
    using t a by (simp_all add: committing_def b_def)
  moreover have "(committing s C)\<lparr>is_deltas := (is_deltas (committing s C))(t := None),
      is_accounts := is_accounts (committing s (insert t C)),
      is_output_notes := is_output_notes (committing s (insert t C))\<rparr> = committing s (insert t C)"
    by (simp add: committing_def restrict_map_def fun_eq_iff)
  ultimately show ?thesis using b ons accs by (simp add: commit_one_def)
qed

lemma commit_all_committing:
  assumes inv: "core_inv s cds"
  shows "distinct ts \<Longrightarrow> set ts \<inter> C = {} \<Longrightarrow> finite C \<Longrightarrow> set ts \<subseteq> dom (is_deltas s)
    \<Longrightarrow> fst ` set blk \<subseteq> C
    \<Longrightarrow> \<exists>blk'. commit_all (committing s C) ts blk = Ok (committing s (C \<union> set ts)) blk'
      \<and> mset (map snd blk') = mset (map snd blk) + mset (map (the \<circ> is_deltas s) ts)"
proof (induction ts arbitrary: C blk)
  case Nil
  then show ?case by simp
next
  case (Cons t ts)
  then obtain d where d: "is_deltas s t = Some d" by auto
  have "fst ` set (bt_insert t d blk) \<subseteq> insert t C" using Cons.prems by (auto simp: bt_insert_keys)
  moreover have "mset (map snd (bt_insert t d blk)) = add_mset d (mset (map snd blk))"
    using Cons.prems by (intro bt_insert_fresh) auto
  ultimately show ?case
    using Cons.IH[of "insert t C" "bt_insert t d blk"] Cons.prems d
    by (auto simp: commit_one_committing[OF inv d])
qed

lemma committing_empty: "committing s {} = s"
  by (simp add: committing_def deltas_of_def restrict_map_def option.map_ident)

lemma committed_of_mset: "mset xs = mset ys \<Longrightarrow> committed_of xs a = committed_of ys a"
  unfolding committed_of_def by (metis mset_filter size_mset)

lemma committed_of_append: "committed_of (xs @ ys) a = committed_of xs a + committed_of ys a"
  by (simp add: committed_of_def)

lemma committed_of_deltas:
  assumes "distinct ts" and "set ts \<subseteq> dom ds"
  shows "committed_of (map (the \<circ> ds) ts) a = card (set ts \<inter> inflight_of ds a)"
proof -
  have "filter (\<lambda>d. d_account d = a) (map (the \<circ> ds) ts) = map (the \<circ> ds) (filter (\<lambda>t. t \<in> inflight_of ds a) ts)"
    using assms(2) by (induction ts) (auto simp: inflight_of_def)
  moreover have "set ts \<inter> inflight_of ds a = set (filter (\<lambda>t. t \<in> inflight_of ds a) ts)" by auto
  moreover have "distinct (filter (\<lambda>t. t \<in> inflight_of ds a) ts)" using assms(1) by simp
  ultimately show ?thesis unfolding committed_of_def by (metis distinct_card length_map)
qed

lemma set_mset_map_deltas: "set (map (the \<circ> ds) ts) = (\<lambda>t. the (ds t)) ` set ts"
  by auto

lemma disj_list_deltas:
  assumes "exclusive f ds cds" and "distinct ts" and "set ts \<subseteq> dom ds"
  shows "disj_list (map f (map (the \<circ> ds) ts))"
  using assms(2,3)
proof (induction ts)
  case (Cons t ts)
  then obtain d where d: "ds t = Some d" by auto
  have "f d \<inter> f (the (ds u)) = {}" if u: "u \<in> set ts" for u
  proof -
    obtain e where "ds u = Some e" using u Cons.prems(2) by auto
    moreover have "t \<noteq> u" using u Cons.prems(1) by auto
    ultimately show ?thesis using exclusiveD(1)[OF assms(1) d] by simp
  qed
  with Cons d show ?case by auto
qed simp

lemma exclusive_committing:
  assumes ex: "exclusive f ds cds" and ts: "distinct ts" "set ts \<subseteq> dom ds"
    and m: "mset ns = mset (map (the \<circ> ds) ts)"
  shows "exclusive f (ds |` (- set ts)) (cds @ ns)"
proof -
  have ns: "set ns = (\<lambda>t. the (ds t)) ` set ts" using m by (metis set_mset_map_deltas mset_eq_setD)
  have "mset (map f ns) = mset (map f (map (the \<circ> ds) ts))" using m by (metis mset_map)
  then have "disj_list (map f ns)" using disj_list_deltas[OF ex ts] disj_list_perm by metis
  moreover have "f d \<inter> f e = {}" if e: "e \<in> set ns" and d: "d \<in> set cds" for d e
  proof -
    obtain u where "u \<in> set ts" "e = the (ds u)" using e ns by auto
    then have "ds u = Some e" using ts(2) by auto
    from exclusiveD(2)[OF ex this d] show ?thesis by blast
  qed
  moreover have other: "f d \<inter> f e = {}" if e: "e \<in> set ns" and d: "ds t = Some d" "t \<notin> set ts" for d e t
  proof -
    obtain u where "u \<in> set ts" "e = the (ds u)" using e ns by auto
    then have "ds u = Some e" "u \<noteq> t" using ts(2) d(2) by auto
    with exclusiveD(1)[OF ex d(1)] show ?thesis by blast
  qed
  moreover have "disj_list (map f cds)" using ex by (simp add: exclusive_def)
  ultimately have "disj_list (map f (cds @ ns))" by (auto simp: disj_list_append)
  moreover have "\<forall>e \<in> set (cds @ ns). f d \<inter> f e = {}" if "(ds |` (- set ts)) t = Some d" for t d
  proof -
    have "ds t = Some d" "t \<notin> set ts" using that by (auto simp: restrict_map_def split: if_splits)
    then show ?thesis using exclusiveD(2)[OF ex] other by (metis Un_iff set_append)
  qed
  moreover have "f d \<inter> f d' = {}"
    if "(ds |` (- set ts)) t = Some d" "(ds |` (- set ts)) t' = Some d'" "t \<noteq> t'" for t t' d d'
    using exclusiveD(1)[OF ex _ _ that(3)] that(1,2) by (simp add: restrict_map_def split: if_splits)
  ultimately show ?thesis unfolding exclusive_def by blast
qed

lemma committing_core_inv:
  assumes inv: "core_inv s cds" and C: "committable s (set ts)" and ts: "distinct ts"
    and m: "mset ns = mset (map (the \<circ> is_deltas s) ts)"
  shows "core_inv (committing s (set ts)) (cds @ ns)"
proof -
  note invD = core_invD[OF inv]
  let ?ds = "is_deltas s" and ?C = "set ts"
  have dom: "?C \<subseteq> dom ?ds" using C by (simp add: committable_def)
  have ns: "set ns = (\<lambda>t. the (?ds t)) ` ?C" using m by (metis set_mset_map_deltas mset_eq_setD)
  have of: "deltas_of f ?ds ?C = (\<Union>d \<in> set ns. f d)" for f :: "delta \<Rightarrow> nat set"
    using dom by (force simp: deltas_of_def ns split: option.splits)
  have "account_ok (is_accounts (committing s ?C) a) (committed_of (cds @ ns) a) (inflight_of (is_deltas (committing s ?C)) a)" for a
    using account_ok_committed[OF invD(1)[of a], of ?C] C committed_of_deltas[OF ts dom, of a] committed_of_mset[OF m, of a]
    by (simp add: committing_def committable_def inflight_of_restrict committed_of_append)
  moreover have "finite_deltas (is_deltas (committing s ?C)) (cds @ ns)"
  proof -
    have "set ns \<subseteq> ran ?ds" unfolding ns using dom by (force simp: ran_def)
    then show ?thesis
      using finite_deltas_restrict[OF invD(2), of "- ?C"] invD(2) by (auto simp: finite_deltas_def committing_def)
  qed
  moreover have "exclusive f (is_deltas (committing s ?C)) (cds @ ns)" if "exclusive f ?ds cds" for f
    using exclusive_committing[OF that ts dom m] by (simp add: committing_def)
  moreover have "nullifiers_ok (is_nullifiers (committing s ?C)) (is_deltas (committing s ?C)) (cds @ ns)"
    using invD(5) deltas_of_split[of d_nullifiers ?ds ?C] of[of d_nullifiers]
    by (auto simp: nullifiers_ok_def committing_def)
  moreover have "notes_ok (is_output_notes (committing s ?C)) (is_deltas (committing s ?C)) (cds @ ns)"
  proof -
    let ?D = "deltas_of d_output_notes ?ds ?C"
    have key: "n \<in> ?D \<longleftrightarrow> t \<in> ?C" if "?ds t = Some d" "n \<in> d_output_notes d" for n t d
      using exclusive_deltas_of[OF invD(4) that(1), of ?C] that
      by (auto simp: deltas_of_def intro: bexI[of _ t])
    have "is_output_notes (committing s ?C) n = Some (NoteInflight t)
        \<longleftrightarrow> (\<exists>d. (?ds |` (- ?C)) t = Some d \<and> n \<in> d_output_notes d)" for n t
      using invD(6) key[of t _ n] unfolding notes_ok_def by (auto simp: committing_def restrict_map_def)
    moreover have "is_output_notes (committing s ?C) n = Some NoteCommitted
        \<longleftrightarrow> (\<exists>d \<in> set (cds @ ns). n \<in> d_output_notes d)" for n
      using invD(6) of[of d_output_notes] unfolding notes_ok_def by (auto simp: committing_def)
    ultimately show ?thesis unfolding notes_ok_def by (simp add: committing_def)
  qed
  ultimately show ?thesis using invD(3,4) by (simp add: core_inv_def)
qed

lemma prune_delta_Ok:
  assumes inv: "core_inv s (d # cds)"
  shows "\<exists>s'. prune_delta s d = (Ok s' () :: (inflight_state, 'e, unit) outcome) \<and> core_inv s' cds
    \<and> is_deltas s' = is_deltas s \<and> is_committed_blocks s' = is_committed_blocks s
    \<and> is_num_retained s' = is_num_retained s \<and> is_chain_tip s' = is_chain_tip s
    \<and> is_expiration_slack s' = is_expiration_slack s
    \<and> (\<forall>acc a. is_accounts s' acc = Some a \<longrightarrow> (\<exists>b. is_accounts s acc = Some b \<and> uncommitted a = uncommitted b))"
proof -
  note invD = core_invD[OF inv]
  let ?acc = "d_account d"
  obtain a where a: "is_accounts s ?acc = Some a"
    using invD(1)[of ?acc] by (cases "is_accounts s ?acc") (auto simp: account_ok_def committed_of_def)
  have okS: "account_ok (Some a) (Suc (committed_of cds ?acc)) (inflight_of (is_deltas s) ?acc)"
    using invD(1)[of ?acc] by (simp add: a committed_of_def)
  obtain a' st where p: "account_prune_committed a 1 = (Ok a' st :: (inflight_account, 'e, account_status) outcome)"
    "account_ok (if status_is_empty st then None else Some a') (committed_of cds ?acc) (inflight_of (is_deltas s) ?acc)"
    and un: "uncommitted a' = uncommitted a"
    using account_ok_pruned[OF okS] by blast
  define s' where "s' = put_account (s\<lparr>is_nullifiers := is_nullifiers s - d_nullifiers d,
                is_output_notes := is_output_notes s |` (- d_output_notes d)\<rparr>) ?acc a' st"
  have sel: "is_deltas s' = is_deltas s" "is_nullifiers s' = is_nullifiers s - d_nullifiers d"
    "is_output_notes s' = is_output_notes s |` (- d_output_notes d)"
    by (simp_all add: s'_def put_account_def)
  have head: "f d \<inter> f e = {}" if "e \<in> ran (is_deltas s) \<union> set cds" "exclusive f (is_deltas s) (d # cds)" for e f
    using that unfolding exclusive_def by (auto simp: ran_def) blast
  have "account_ok (is_accounts s' x) (committed_of cds x) (inflight_of (is_deltas s) x)" for x
    using p(2) invD(1)[of x] by (auto simp: s'_def put_account_def committed_of_def)
  moreover have "exclusive f (is_deltas s) cds" if "exclusive f (is_deltas s) (d # cds)" for f
    using that by (auto simp: exclusive_def)
  moreover have "nullifiers_ok (is_nullifiers s') (is_deltas s) cds"
    using invD(5) head[OF _ invD(3)] unfolding nullifiers_ok_def sel by auto
  moreover have "notes_ok (is_output_notes s') (is_deltas s) cds"
    using invD(6) head[OF _ invD(4)] unfolding notes_ok_def sel
    by (auto simp: restrict_map_def ran_def split: if_splits)
  ultimately have "core_inv s' cds"
    using invD(2-4) by (auto simp: core_inv_def sel finite_deltas_def)
  moreover have "prune_delta s d = (Ok s' () :: (inflight_state, 'e, unit) outcome)"
    using a p(1) by (simp add: prune_delta_def s'_def)
  moreover have "\<exists>b. is_accounts s acc = Some b \<and> uncommitted x = uncommitted b" if "is_accounts s' acc = Some x" for acc x
    using that a un by (auto simp: s'_def put_account_def split: if_splits)
  ultimately show ?thesis using sel by (auto simp: s'_def put_account_def)
qed

lemma prune_deltas_Ok:
  assumes "core_inv s (ds @ cds)"
  shows "\<exists>s'. prune_deltas s ds = (Ok s' () :: (inflight_state, 'e, unit) outcome) \<and> core_inv s' cds
    \<and> is_deltas s' = is_deltas s \<and> is_committed_blocks s' = is_committed_blocks s
    \<and> is_num_retained s' = is_num_retained s \<and> is_chain_tip s' = is_chain_tip s
    \<and> is_expiration_slack s' = is_expiration_slack s
    \<and> (\<forall>acc a. is_accounts s' acc = Some a \<longrightarrow> (\<exists>b. is_accounts s acc = Some b \<and> uncommitted a = uncommitted b))"
  using assms
proof (induction ds arbitrary: s)
  case Nil
  then show ?case by auto
next
  case (Cons d ds)
  obtain s1 where s1: "prune_delta s d = (Ok s1 () :: (inflight_state, 'e, unit) outcome)" "core_inv s1 (ds @ cds)"
    "is_deltas s1 = is_deltas s" "is_committed_blocks s1 = is_committed_blocks s"
    "is_num_retained s1 = is_num_retained s" "is_chain_tip s1 = is_chain_tip s"
    "is_expiration_slack s1 = is_expiration_slack s"
    "\<forall>acc a. is_accounts s1 acc = Some a \<longrightarrow> (\<exists>b. is_accounts s acc = Some b \<and> uncommitted a = uncommitted b)"
    using prune_delta_Ok[of s d "ds @ cds"] Cons.prems by auto
  obtain s2 where s2: "prune_deltas s1 ds = (Ok s2 () :: (inflight_state, 'e, unit) outcome)" "core_inv s2 cds"
    "is_deltas s2 = is_deltas s" "is_committed_blocks s2 = is_committed_blocks s"
    "is_num_retained s2 = is_num_retained s" "is_chain_tip s2 = is_chain_tip s"
    "is_expiration_slack s2 = is_expiration_slack s"
    "\<forall>acc a. is_accounts s2 acc = Some a \<longrightarrow> (\<exists>b. is_accounts s1 acc = Some b \<and> uncommitted a = uncommitted b)"
    using Cons.IH[OF s1(2)] unfolding s1(3-7) by blast
  have "prune_deltas s (d # ds) = (Ok s2 () :: (inflight_state, 'e, unit) outcome)" using s1(1) s2(1) by simp
  moreover have "\<exists>b. is_accounts s acc = Some b \<and> uncommitted a = uncommitted b" if "is_accounts s2 acc = Some a" for acc a
    using s1(8) s2(8) that by metis
  ultimately show ?case using s2(2-7) by blast
qed
lemma inflight_commit_Ok:
  assumes inv: "inflight_inv s" and C: "committable s (set ts)" and ts: "distinct ts"
  shows "\<exists>s'. inflight_commit_block s ts = (Ok s' () :: (inflight_state, 'e, unit) outcome) \<and> inflight_inv s'
    \<and> is_deltas s' = is_deltas s |` (- set ts) \<and> is_chain_tip s' = Suc (is_chain_tip s)
    \<and> is_expiration_slack s' = is_expiration_slack s \<and> is_num_retained s' = is_num_retained s
    \<and> (\<forall>acc a. is_accounts s' acc = Some a \<longrightarrow> (\<exists>b. is_accounts s acc = Some b
        \<and> uncommitted a = filter (\<lambda>t. t \<notin> set ts) (uncommitted b)))"
proof -
  note invD = inv[unfolded inflight_inv_def]
  have core: "core_inv s (committed_deltas s)" using invD by simp
  have dom: "set ts \<subseteq> dom (is_deltas s)" using C by (simp add: committable_def)
  obtain blk where blk: "commit_all s ts [] = (Ok (committing s (set ts)) blk :: (inflight_state, 'e, _) outcome)"
    "mset (map snd blk) = mset (map (the \<circ> is_deltas s) ts)"
    using commit_all_committing[OF core ts, of "{}" "[]"] dom committing_empty[of s] by auto
  define s1 where "s1 = (committing s (set ts))\<lparr>is_committed_blocks := is_committed_blocks s @ [blk]\<rparr>"
  have sel: "is_committed_blocks s1 = is_committed_blocks s @ [blk]" "is_num_retained s1 = is_num_retained s"
    "is_chain_tip s1 = is_chain_tip s" "is_deltas s1 = is_deltas s |` (- set ts)"
    "is_expiration_slack s1 = is_expiration_slack s"
    by (simp_all add: s1_def committing_def)
  have core1: "core_inv s1 (committed_deltas s1)"
    using committing_core_inv[OF core C ts blk(2)]
    by (simp add: core_inv_def s1_def committed_deltas_def committing_def)
  have unc: "\<exists>b. is_accounts s acc = Some b \<and> uncommitted a = filter (\<lambda>t. t \<notin> set ts) (uncommitted b)"
    if "is_accounts s1 acc = Some a" for acc a
  proof -
    from that obtain b where b: "is_accounts s acc = Some b"
      and a: "a = b\<lparr>ia_committed := ia_committed b + card (set ts \<inter> inflight_of (is_deltas s) acc)\<rparr>"
      by (auto simp: s1_def committing_def)
    note okD = account_okD[OF core_invD(1)[OF core, of acc, unfolded b]]
    obtain k where k: "set ts \<inter> set (uncommitted b) = set (take k (uncommitted b))"
      using C b unfolding committable_def by blast
    have le: "card (set ts \<inter> inflight_of (is_deltas s) acc) \<le> length (uncommitted b)"
      using okD(6,7) card_mono[of "inflight_of (is_deltas s) acc" "set ts \<inter> inflight_of (is_deltas s) acc"] by simp
    have "uncommitted a = drop k (uncommitted b)"
      using account_commit_Ok(3)[OF okD(2) le] distinct_take_card(1)[OF okD(4) k] okD(5) by (simp add: a)
    also have "\<dots> = filter (\<lambda>t. t \<notin> set ts) (uncommitted b)"
    proof -
      have "filter (\<lambda>t. t \<notin> set ts) (take k (uncommitted b)) = []" using k by (auto simp: filter_empty_conv)
      moreover have "filter (\<lambda>t. t \<notin> set ts) (drop k (uncommitted b)) = drop k (uncommitted b)"
        using distinct_take_card(2)[OF okD(4) k] by (auto simp: filter_id_conv)
      ultimately show ?thesis by (metis append_Nil append_take_drop_id filter_append)
    qed
    finally show ?thesis using b by blast
  qed
  have "\<exists>s2. prune_block s1 = (Ok s2 () :: (inflight_state, 'e, unit) outcome) \<and> core_inv s2 (committed_deltas s2)
    \<and> is_deltas s2 = is_deltas s1 \<and> length (is_committed_blocks s2) \<le> is_num_retained s
    \<and> length (is_committed_blocks s2) \<le> Suc (is_chain_tip s)
    \<and> is_num_retained s2 = is_num_retained s \<and> is_chain_tip s2 = is_chain_tip s
    \<and> is_expiration_slack s2 = is_expiration_slack s
    \<and> (\<forall>acc a. is_accounts s2 acc = Some a \<longrightarrow> (\<exists>b. is_accounts s1 acc = Some b \<and> uncommitted a = uncommitted b))"
  proof (cases "length (is_committed_blocks s1) \<le> is_num_retained s1")
    case True
    then show ?thesis using core1 invD sel by (intro exI[of _ s1]) (auto simp: prune_block_def)
  next
    case False
    obtain b bs where bs: "is_committed_blocks s1 = b # bs" using sel(1) by (metis snoc_eq_iff_butlast neq_Nil_conv)
    have "core_inv (s1\<lparr>is_committed_blocks := bs\<rparr>) (map snd b @ concat (map (map snd) bs))"
      using core1 by (simp add: committed_deltas_def bs core_inv_def)
    from prune_deltas_Ok[OF this, where ?'e = 'e] obtain s2 where
      s2: "prune_deltas (s1\<lparr>is_committed_blocks := bs\<rparr>) (map snd b) = (Ok s2 () :: (inflight_state, 'e, unit) outcome)"
        "core_inv s2 (concat (map (map snd) bs))" "is_deltas s2 = is_deltas s1" "is_committed_blocks s2 = bs"
        "is_num_retained s2 = is_num_retained s1" "is_chain_tip s2 = is_chain_tip s1"
        "is_expiration_slack s2 = is_expiration_slack s1"
        "\<forall>acc a. is_accounts s2 acc = Some a \<longrightarrow> (\<exists>b. is_accounts s1 acc = Some b \<and> uncommitted a = uncommitted b)"
      by auto
    have "length bs = length (is_committed_blocks s)" using sel(1) bs by (metis length_append_singleton length_Cons nat.inject)
    moreover have "prune_block s1 = (Ok s2 () :: (inflight_state, 'e, unit) outcome)"
      using False s2(1) by (simp add: prune_block_def bs)
    ultimately show ?thesis using s2(2-) invD sel(2-)
      by (intro exI[of _ s2]) (simp add: committed_deltas_def)
  qed
  then obtain s2 where s2: "prune_block s1 = (Ok s2 () :: (inflight_state, 'e, unit) outcome)"
    "core_inv s2 (committed_deltas s2)" "is_deltas s2 = is_deltas s1"
    "length (is_committed_blocks s2) \<le> is_num_retained s" "length (is_committed_blocks s2) \<le> Suc (is_chain_tip s)"
    "is_num_retained s2 = is_num_retained s" "is_chain_tip s2 = is_chain_tip s"
    "is_expiration_slack s2 = is_expiration_slack s"
    "\<forall>acc a. is_accounts s2 acc = Some a \<longrightarrow> (\<exists>b. is_accounts s1 acc = Some b \<and> uncommitted a = uncommitted b)"
    by blast
  have "(committing s (set ts))\<lparr>is_committed_blocks := is_committed_blocks (committing s (set ts)) @ [blk]\<rparr> = s1"
    by (simp add: s1_def committing_def)
  then have "inflight_commit_block s ts = (Ok (s2\<lparr>is_chain_tip := Suc (is_chain_tip s2)\<rparr>) () :: (inflight_state, 'e, unit) outcome)"
    using blk(1) s2(1) by (simp add: inflight_commit_block_def)
  moreover have "inflight_inv (s2\<lparr>is_chain_tip := Suc (is_chain_tip s2)\<rparr>)"
    using s2 invD by (simp add: inflight_inv_def core_inv_def committed_deltas_def)
  moreover have "\<exists>b. is_accounts s acc = Some b \<and> uncommitted a = filter (\<lambda>t. t \<notin> set ts) (uncommitted b)"
    if "is_accounts s2 acc = Some a" for acc a using s2(9) unc that by metis
  ultimately show ?thesis
    using s2(3,6-8) sel(4) by (intro exI[of _ "s2\<lparr>is_chain_tip := Suc (is_chain_tip s2)\<rparr>"]) auto
qed

lemma inflight_revert_inv:
  assumes inv: "inflight_inv s" and R: "revertible s R"
  shows "inflight_revert_transactions s R = Ok (reverted s R) ()" "inflight_inv (reverted s R)"
proof -
  have core: "core_inv s (committed_deltas s)" using inv by (simp add: inflight_inv_def)
  have "R \<subseteq> dom (is_deltas s)" using R by (simp add: revertible_def)
  then show "inflight_revert_transactions s R = Ok (reverted s R) ()" by (rule inflight_revert_Ok[OF core])
  have "committed_deltas (reverted s R) = committed_deltas s" by (simp add: committed_deltas_def reverted_def)
  then show "inflight_inv (reverted s R)"
    using inv reverted_core_inv[OF core R] by (simp add: inflight_inv_def reverted_def)
qed

lemma inflight_add_cases:
  assumes inv: "inflight_inv s"
  shows "(\<exists>e. inflight_add_transaction s tx = Err s e) \<or>
    (verify_transaction s tx = Ok s () \<and> (\<exists>s' ps. inflight_add_transaction s tx = Ok s' ps
      \<and> insert_transaction s tx = Ok s' ps
      \<and> (tx_id tx \<notin> dom (is_deltas s) \<longrightarrow> inflight_inv s' \<and> ps \<subseteq> dom (is_deltas s))))"
proof (cases "verify_transaction s tx = Ok s ()")
  case True
  have core: "core_inv s (committed_deltas s)" using inv by (simp add: inflight_inv_def)
  obtain s' ps where ins: "insert_transaction s tx = Ok s' ps" using insert_transaction_Ok[OF core, of tx] by blast
  have sel: "committed_deltas s' = committed_deltas s" "is_committed_blocks s' = is_committed_blocks s"
    "is_num_retained s' = is_num_retained s" "is_chain_tip s' = is_chain_tip s"
    using ins insert_transaction_Ok[OF core, of tx] by (auto simp: committed_deltas_def)
  have "inflight_inv s' \<and> ps \<subseteq> dom (is_deltas s)" if "tx_id tx \<notin> dom (is_deltas s)"
    using inserted_core_inv[OF core True that ins] inv by (simp add: inflight_inv_def sel)
  then show ?thesis using True ins by (auto simp: inflight_add_transaction_def)
next
  case False
  then show ?thesis
    using verify_transaction_total[OF inv, of tx] by (auto simp: inflight_add_transaction_def)
qed

lemma inflight_new_inv:
  "num_retained < 2 ^ 32 \<Longrightarrow> inflight_inv (inflight_new tip num_retained slack)"
  by (auto simp: inflight_inv_def inflight_new_def core_inv_def committed_deltas_def account_ok_def
      committed_of_def inflight_of_def finite_deltas_def exclusive_def nullifiers_ok_def notes_ok_def)

end
