(* ===== verification/Inflight_Contract.thy ===== *)
theory Inflight_Contract
  imports Inflight_State
begin

text \<open>
  What the inflight state promises to the mempool: a transaction is accepted exactly when it is
  admissible with respect to the transactions that are inflight or recently committed, rejection
  leaves the state as it was, insertion is undone by reverting, and reverting or committing a set of
  transactions never fails an assertion.
\<close>

section \<open>Admissible transactions\<close>

text \<open>
  The specification speaks of the deltas of the known transactions, not of the indices that the code
  keeps: the transaction is not about to expire, was authenticated recently enough, starts from the
  account's current state, spends no known nullifier, creates no known note, and each of its
  unauthenticated notes is created by a known transaction.
\<close>

definition known_deltas :: "inflight_state \<Rightarrow> delta set" where
  "known_deltas s = ran (is_deltas s) \<union> set (committed_deltas s)"

definition admissible :: "inflight_state \<Rightarrow> auth_tx \<Rightarrow> bool" where
  "admissible s tx \<longleftrightarrow>
     is_chain_tip s + is_expiration_slack s < tx_expires_at tx
     \<and> is_chain_tip s \<le> tx_authentication_height tx + length (is_committed_blocks s)
     \<and> tx_initial_state tx = (case current_account_state s tx of None \<Rightarrow> default_digest | Some d \<Rightarrow> d)
     \<and> (\<forall>d \<in> known_deltas s. d_nullifiers d \<inter> set (tx_nullifiers tx) = {})
     \<and> (\<forall>d \<in> known_deltas s. d_output_notes d \<inter> set (tx_output_note_ids tx) = {})
     \<and> (\<forall>n \<in> set (tx_unauthenticated_notes tx). \<exists>d \<in> known_deltas s. n \<in> d_output_notes d)"

definition uncommitted_at :: "inflight_state \<Rightarrow> account_id \<Rightarrow> transaction_id list" where
  "uncommitted_at s acc = (case is_accounts s acc of None \<Rightarrow> [] | Some a \<Rightarrow> uncommitted a)"

text \<open>The transactions that a new one depends on.\<close>

definition tx_parents :: "inflight_state \<Rightarrow> auth_tx \<Rightarrow> transaction_id set" where
  "tx_parents s tx =
     (let us = uncommitted_at s (tx_account_id tx) in if us = [] then {} else {last us})
     \<union> {t. \<exists>d. is_deltas s t = Some d \<and> d_output_notes d \<inter> set (tx_unauthenticated_notes tx) \<noteq> {}}"

lemma known_nullifiers:
  assumes "inflight_inv s"
  shows "is_nullifiers s = (\<Union>d \<in> known_deltas s. d_nullifiers d)"
  using assms by (auto simp: inflight_inv_def core_inv_def nullifiers_ok_def known_deltas_def)

lemma known_notes:
  assumes "inflight_inv s"
  shows "dom (is_output_notes s) = (\<Union>d \<in> known_deltas s. d_output_notes d)"
proof -
  have ok: "notes_ok (is_output_notes s) (is_deltas s) (committed_deltas s)"
    using assms by (simp add: inflight_inv_def core_inv_def)
  have dom: "n \<in> dom (is_output_notes s) \<longleftrightarrow>
      (\<exists>t. is_output_notes s n = Some (NoteInflight t)) \<or> is_output_notes s n = Some NoteCommitted" for n
    by (metis domD domI output_note_state.exhaust)
  have infl: "is_output_notes s n = Some (NoteInflight t) \<longleftrightarrow> (\<exists>d. is_deltas s t = Some d \<and> n \<in> d_output_notes d)" for n t
    using ok unfolding notes_ok_def by blast
  have com: "is_output_notes s n = Some NoteCommitted \<longleftrightarrow> (\<exists>d \<in> set (committed_deltas s). n \<in> d_output_notes d)" for n
    using ok unfolding notes_ok_def by blast
  have mem: "n \<in> dom (is_output_notes s) \<longleftrightarrow> (\<exists>t d. is_deltas s t = Some d \<and> n \<in> d_output_notes d)
      \<or> (\<exists>d \<in> set (committed_deltas s). n \<in> d_output_notes d)" for n
    unfolding dom[of n] infl com ..
  show ?thesis by (rule set_eqI) (simp only: mem, auto simp: known_deltas_def ran_def)
qed

lemma verify_iff_admissible:
  assumes inv: "inflight_inv s"
  shows "verify_transaction s tx = Ok s () \<longleftrightarrow> admissible s tx"
proof -
  have old: "oldest_committed_state s = Some (is_chain_tip s - length (is_committed_blocks s))"
    using inv by (auto simp: oldest_committed_state_def inflight_inv_def)
  have stale: "(\<not> tx_authentication_height tx < is_chain_tip s - length (is_committed_blocks s)) \<longleftrightarrow>
      is_chain_tip s \<le> tx_authentication_height tx + length (is_committed_blocks s)" by auto
  have nul: "filter (\<lambda>n. n \<in> is_nullifiers s) (tx_nullifiers tx) = [] \<longleftrightarrow>
      (\<forall>d \<in> known_deltas s. d_nullifiers d \<inter> set (tx_nullifiers tx) = {})"
    unfolding known_nullifiers[OF inv] filter_empty_conv by blast
  have dup: "filter (contains_key (is_output_notes s)) (tx_output_note_ids tx) = [] \<longleftrightarrow>
      (\<forall>d \<in> known_deltas s. d_output_notes d \<inter> set (tx_output_note_ids tx) = {})"
    unfolding contains_key_iff known_notes[OF inv] filter_empty_conv by blast
  have miss: "filter (\<lambda>n. \<not> contains_key (is_output_notes s) n) (tx_unauthenticated_notes tx) = [] \<longleftrightarrow>
      (\<forall>n \<in> set (tx_unauthenticated_notes tx). \<exists>d \<in> known_deltas s. n \<in> d_output_notes d)"
    unfolding contains_key_iff known_notes[OF inv] filter_empty_conv by blast
  show ?thesis
    unfolding verify_transaction_def admissible_def old stale[symmetric] nul[symmetric] dup[symmetric] miss[symmetric]
    by (auto simp: Let_def)
qed

lemma insert_parents:
  assumes inv: "inflight_inv s" and ver: "verify_transaction s tx = Ok s ()"
    and ins: "insert_transaction s tx = Ok s' ps" and new: "tx_id tx \<notin> dom (is_deltas s)"
  shows "ps = tx_parents s tx" "is_deltas s' = (is_deltas s)(tx_id tx \<mapsto> delta_new tx)"
    "uncommitted_at s' = (uncommitted_at s)(tx_account_id tx := uncommitted_at s (tx_account_id tx) @ [tx_id tx])"
proof -
  have core: "core_inv s (committed_deltas s)" using inv by (simp add: inflight_inv_def)
  note v = verify_transaction_Ok[OF ver]
  define acc where "acc = (case is_accounts s (tx_account_id tx) of None \<Rightarrow> account_default | Some a \<Rightarrow> a)"
  note ins' = insert_transaction_Ok[OF core, of tx, folded acc_def, unfolded ins]
  have unc: "uncommitted acc = uncommitted_at s (tx_account_id tx)"
    by (simp add: acc_def uncommitted_at_def account_default_def uncommitted_def split: option.splits)
  have wf: "wf_account acc"
    using core_invD(1)[OF core, of "tx_account_id tx"] by (auto simp: acc_def account_ok_def split: option.splits)
  have "n \<notin> set (tx_output_note_ids tx)" if "n \<in> set (tx_unauthenticated_notes tx)" for n
    using that v(5,6) by blast
  then have "{t. \<exists>n \<in> set (tx_unauthenticated_notes tx).
            fold (add_output_note (tx_id tx)) (tx_output_note_ids tx) (is_output_notes s) n = Some (NoteInflight t)}
     = {t. \<exists>n \<in> set (tx_unauthenticated_notes tx). is_output_notes s n = Some (NoteInflight t)}"
    by (auto simp: fold_add_output_note)
  also have "\<dots> = {t. \<exists>d. is_deltas s t = Some d \<and> d_output_notes d \<inter> set (tx_unauthenticated_notes tx) \<noteq> {}}"
    using core_invD(6)[OF core] by (auto simp: notes_ok_def)
  finally show "ps = tx_parents s tx" using ins' by (auto simp: tx_parents_def unc Let_def)
  show "is_deltas s' = (is_deltas s)(tx_id tx \<mapsto> delta_new tx)" using ins' by simp
  show "uncommitted_at s' = (uncommitted_at s)(tx_account_id tx := uncommitted_at s (tx_account_id tx) @ [tx_id tx])"
    using ins' account_insert_effect(2)[OF wf, of "tx_final_state tx" "tx_id tx"] unc
    by (auto simp: uncommitted_at_def fun_eq_iff)
qed

lemma reverted_insert:
  assumes core: "core_inv s cds" and ver: "verify_transaction s tx = Ok s ()"
    and ins: "insert_transaction s tx = Ok s' ps" and new: "tx_id tx \<notin> dom (is_deltas s)"
  shows "reverted s' {tx_id tx} = s"
proof -
  note v = verify_transaction_Ok[OF ver]
  let ?t = "tx_id tx" and ?a = "tx_account_id tx"
  define acc where "acc = (case is_accounts s ?a of None \<Rightarrow> account_default | Some a \<Rightarrow> a)"
  note ins' = insert_transaction_Ok[OF core, of tx, folded acc_def, unfolded ins]
  have s': "s' = s\<lparr>is_deltas := (is_deltas s)(?t \<mapsto> delta_new tx),
       is_accounts := (is_accounts s)(?a \<mapsto> acc\<lparr>ia_states := ia_states acc @ [(tx_final_state tx, ?t)]\<rparr>),
       is_nullifiers := is_nullifiers s \<union> set (tx_nullifiers tx),
       is_output_notes := fold (add_output_note ?t) (tx_output_note_ids tx) (is_output_notes s)\<rparr>"
    using ins' by simp
  have none: "is_deltas s ?t = None" using new by auto
  have "is_deltas s' |` (- {?t}) = is_deltas s" using none by (auto simp: s' restrict_map_def fun_eq_iff)
  moreover have "is_nullifiers s' - deltas_of d_nullifiers (is_deltas s') {?t} = is_nullifiers s"
    using v(4) by (auto simp: s' deltas_of_def delta_new_def)
  moreover have "is_output_notes s' |` (- deltas_of d_output_notes (is_deltas s') {?t}) = is_output_notes s"
  proof -
    have "is_output_notes s n = None" if "n \<in> set (tx_output_note_ids tx)" for n using that v(5) by blast
    then show ?thesis
      by (auto simp: s' deltas_of_def delta_new_def restrict_map_def fold_add_output_note fun_eq_iff)
  qed
  moreover have "reverted_account (is_accounts s' b) (card ({?t} \<inter> inflight_of (is_deltas s') b)) = is_accounts s b" for b
  proof (cases "b = ?a")
    case True
    have "{?t} \<inter> inflight_of (is_deltas s') ?a = {?t}" by (auto simp: s' inflight_of_def delta_new_def)
    then show ?thesis using core_invD(1)[OF core, of ?a] True
      by (auto simp: s' acc_def reverted_account_def account_ok_def account_default_def split: option.splits)
  next
    case False
    then have "{?t} \<inter> inflight_of (is_deltas s') b = {}" by (auto simp: s' inflight_of_def delta_new_def)
    then show ?thesis using core_invD(1)[OF core, of b] False
      by (auto simp: s' reverted_account_def account_ok_def split: option.splits)
  qed
  ultimately show ?thesis unfolding reverted_def by (simp add: s')
qed

text \<open>An account's uncommitted transactions after others have left the inflight set.\<close>

lemma set_uncommitted_at:
  assumes "core_inv s cds"
  shows "set (uncommitted_at s acc) = inflight_of (is_deltas s) acc"
  using core_invD(1)[OF assms, of acc] by (auto simp: uncommitted_at_def account_ok_def split: option.splits)

lemma distinct_uncommitted_at:
  assumes "core_inv s cds"
  shows "distinct (uncommitted_at s acc)"
  using core_invD(1)[OF assms, of acc] by (auto simp: uncommitted_at_def account_ok_def split: option.splits)

lemma uncommitted_at_filter:
  assumes inv: "inflight_inv s" "inflight_inv s'" and ds: "is_deltas s' = is_deltas s |` (- R)"
    and acc: "\<forall>acc a. is_accounts s' acc = Some a \<longrightarrow> (\<exists>b. is_accounts s acc = Some b
        \<and> uncommitted a = filter (\<lambda>t. t \<notin> R) (uncommitted b))"
  shows "uncommitted_at s' acc = filter (\<lambda>t. t \<notin> R) (uncommitted_at s acc)"
proof (cases "is_accounts s' acc")
  case None
  then have "inflight_of (is_deltas s') acc = {}"
    using set_uncommitted_at[of s' _ acc] inv(2) by (auto simp: inflight_inv_def uncommitted_at_def)
  then have "set (uncommitted_at s acc) \<subseteq> R"
    using set_uncommitted_at[of s _ acc] inv(1) by (auto simp: inflight_inv_def ds inflight_of_restrict)
  then have "filter (\<lambda>t. t \<notin> R) (uncommitted_at s acc) = []" by (auto simp: filter_empty_conv)
  then show ?thesis using None by (simp add: uncommitted_at_def)
next
  case (Some a)
  then obtain b where "is_accounts s acc = Some b" "uncommitted a = filter (\<lambda>t. t \<notin> R) (uncommitted b)"
    using acc by blast
  then show ?thesis using Some by (simp add: uncommitted_at_def)
qed

lemma take_drop_filter:
  assumes "distinct xs" and "R \<inter> set xs = set (drop k xs)"
  shows "take (length xs - card (R \<inter> set xs)) xs = filter (\<lambda>t. t \<notin> R) xs"
proof -
  have "filter (\<lambda>t. t \<notin> R) (drop k xs) = []" using assms(2) by (auto simp: filter_empty_conv)
  moreover have "filter (\<lambda>t. t \<notin> R) (take k xs) = take k xs"
    using distinct_drop_card(2)[OF assms] by (auto simp: filter_id_conv)
  ultimately have "filter (\<lambda>t. t \<notin> R) xs = take k xs"
    by (metis append.right_neutral append_take_drop_id filter_append)
  then show ?thesis using distinct_drop_card(1)[OF assms] by simp
qed

lemma reverted_uncommitted_at:
  assumes core: "core_inv s cds" and R: "revertible s R"
  shows "uncommitted_at (reverted s R) acc = filter (\<lambda>t. t \<notin> R) (uncommitted_at s acc)"
proof (cases "is_accounts s acc")
  case (Some a)
  note okD = account_okD[OF core_invD(1)[OF core, of acc, unfolded Some]]
  obtain k where k: "R \<inter> set (uncommitted a) = set (drop k (uncommitted a))"
    using R Some unfolding revertible_def by blast
  let ?n = "card (R \<inter> inflight_of (is_deltas s) acc)"
  have le: "?n \<le> length (uncommitted a)"
    using okD(6,7) card_mono[of "inflight_of (is_deltas s) acc" "R \<inter> inflight_of (is_deltas s) acc"] by simp
  have f: "take (length (uncommitted a) - ?n) (uncommitted a) = filter (\<lambda>t. t \<notin> R) (uncommitted a)"
    using take_drop_filter[OF okD(4) k] okD(5) by simp
  show ?thesis
  proof (cases "length (ia_states a) \<le> ?n")
    case True
    then have "filter (\<lambda>t. t \<notin> R) (uncommitted a) = []" using f le okD(8) by simp
    with True Some show ?thesis by (simp add: reverted_def reverted_account_def uncommitted_at_def)
  next
    case False
    then show ?thesis
      using f Some account_revert_Ok(3)[OF okD(2) le, unfolded Let_def]
      by (simp add: reverted_def reverted_account_def uncommitted_at_def)
  qed
qed (simp add: reverted_def reverted_account_def uncommitted_at_def)

section \<open>A sample state\<close>

definition sample_inflight :: inflight_state where
  "sample_inflight = \<lparr>is_accounts = [7 \<mapsto> \<lparr>ia_states = [(3, 1)], ia_committed = 0\<rparr>], is_nullifiers = {9},
     is_output_notes = [4 \<mapsto> NoteInflight 1],
     is_deltas = [1 \<mapsto> \<lparr>d_account = 7, d_nullifiers = {9}, d_output_notes = {4}\<rparr>],
     is_committed_blocks = [], is_num_retained = 2, is_chain_tip = 5, is_expiration_slack = 1\<rparr>"

lemmas sample_eval = inflight_add_transaction_def verify_transaction_def insert_transaction_def
  oldest_committed_state_def current_account_state_def account_insert_def uncommitted_count_def
  account_default_def account_current_state_def add_output_note_def note_parents_def delta_new_def
  note_state_transaction_def List.map_filter_simps default_digest_def

lemma sample_first_added: "inflight_add_transaction (inflight_new 5 2 1) sample_first = Ok sample_inflight {}"
  by (simp add: sample_eval sample_first_def sample_inflight_def inflight_new_def)

lemma sample_inflight_inv: "inflight_inv sample_inflight"
proof -
  have "tx_id sample_first \<notin> dom (is_deltas (inflight_new 5 2 1))" by (simp add: inflight_new_def)
  with inflight_add_cases[OF inflight_new_inv[of 2 5 1], of sample_first] sample_first_added show ?thesis by auto
qed

section \<open>The contract\<close>

lemma inflight_add_spec:
  assumes inv: "inflight_inv s" and new: "tx_id tx \<notin> dom (is_deltas s)"
  shows "case inflight_add_transaction s tx of
      Ok s' ps \<Rightarrow> admissible s tx \<and> inflight_inv s' \<and> ps = tx_parents s tx \<and> ps \<subseteq> dom (is_deltas s)
        \<and> is_deltas s' = (is_deltas s)(tx_id tx \<mapsto> delta_new tx)
        \<and> uncommitted_at s' = (uncommitted_at s)(tx_account_id tx := uncommitted_at s (tx_account_id tx) @ [tx_id tx])
    | Err s' e \<Rightarrow> \<not> admissible s tx \<and> s' = s
    | _ \<Rightarrow> False"
  using inflight_add_cases[OF inv, of tx]
proof
  assume "\<exists>e. inflight_add_transaction s tx = Err s e"
  then obtain e where e: "inflight_add_transaction s tx = Err s e" ..
  have core: "core_inv s (committed_deltas s)" using inv by (simp add: inflight_inv_def)
  have "verify_transaction s tx \<noteq> Ok s ()"
    using e insert_transaction_Ok[OF core, of tx] by (auto simp: inflight_add_transaction_def)
  then show ?thesis using e verify_iff_admissible[OF inv] by simp
next
  assume A: "verify_transaction s tx = Ok s () \<and> (\<exists>s' ps. inflight_add_transaction s tx = Ok s' ps
      \<and> insert_transaction s tx = Ok s' ps
      \<and> (tx_id tx \<notin> dom (is_deltas s) \<longrightarrow> inflight_inv s' \<and> ps \<subseteq> dom (is_deltas s)))"
  then obtain s' ps where "inflight_add_transaction s tx = Ok s' ps" "insert_transaction s tx = Ok s' ps"
    "inflight_inv s'" "ps \<subseteq> dom (is_deltas s)" using new by blast
  with A new insert_parents[OF inv _ _ new, of s' ps] verify_iff_admissible[OF inv, of tx] show ?thesis by simp
qed

text \<open>
  C32. Adding a transaction that is not already inflight: it is accepted exactly when it is admissible
  with respect to the deltas of all inflight and retained committed transactions. An accepted
  transaction is recorded with its delta as the newest of its account, the parents returned are the
  previous newest transaction of the account and the creators of its unauthenticated notes, all of
  them inflight, and the invariant holds again. A rejection returns an error and changes nothing;
  there is no panic.
\<close>

theorem inflight_add_contract:
  assumes inv: "inflight_inv s" and new: "tx_id tx \<notin> dom (is_deltas s)"
  shows "case inflight_add_transaction s tx of
      Ok s' ps \<Rightarrow> admissible s tx \<and> inflight_inv s' \<and> ps = tx_parents s tx \<and> ps \<subseteq> dom (is_deltas s)
        \<and> is_deltas s' = (is_deltas s)(tx_id tx \<mapsto> delta_new tx)
        \<and> uncommitted_at s' = (uncommitted_at s)(tx_account_id tx := uncommitted_at s (tx_account_id tx) @ [tx_id tx])
    | Err s' e \<Rightarrow> \<not> admissible s tx \<and> s' = s
    | _ \<Rightarrow> False"
  using assms by (rule inflight_add_spec)

theorem inflight_add_contract_witness:
  "admissible sample_inflight sample_second \<and> (\<exists>s'. inflight_add_transaction sample_inflight sample_second = Ok s' {1}
     \<and> inflight_inv s' \<and> uncommitted_at s' 7 = [1, 2])"
proof -
  have "tx_id sample_second \<notin> dom (is_deltas sample_inflight)" by (simp add: sample_second_def sample_inflight_def)
  note c = inflight_add_contract[OF sample_inflight_inv this]
  have "\<exists>s'. inflight_add_transaction sample_inflight sample_second = Ok s' {1}"
    by (simp add: sample_eval sample_second_def sample_inflight_def)
  then obtain s' where s': "inflight_add_transaction sample_inflight sample_second = Ok s' {1}" ..
  have "uncommitted_at sample_inflight 7 = [1]" by (simp add: uncommitted_at_def sample_inflight_def uncommitted_def)
  with c show ?thesis unfolding s' by (simp add: sample_second_def)
qed

text \<open>
  Reverting the transaction just added restores the state before it, every index included.
\<close>

theorem inflight_add_revert:
  assumes inv: "inflight_inv s" and new: "tx_id tx \<notin> dom (is_deltas s)"
    and add: "inflight_add_transaction s tx = Ok s' ps"
  shows "inflight_revert_transactions s' {tx_id tx} = (Ok s () :: (inflight_state, 'e, unit) outcome)"
proof -
  have core: "core_inv s (committed_deltas s)" using inv by (simp add: inflight_inv_def)
  from add inflight_add_cases[OF inv, of tx] new
  have ver: "verify_transaction s tx = Ok s ()" and ins: "insert_transaction s tx = Ok s' ps" and inv': "inflight_inv s'"
    by auto
  have "{tx_id tx} \<subseteq> dom (is_deltas s')" using insert_parents(2)[OF inv ver ins new] by simp
  moreover have "core_inv s' (committed_deltas s')" using inv' by (simp add: inflight_inv_def)
  ultimately show ?thesis using inflight_revert_Ok reverted_insert[OF core ver ins new] by metis
qed

theorem inflight_add_revert_witness:
  "inflight_revert_transactions sample_inflight {1} = (Ok (inflight_new 5 2 1) () :: (inflight_state, unit, unit) outcome)"
proof -
  have "tx_id sample_first \<notin> dom (is_deltas (inflight_new 5 2 1))" by (simp add: inflight_new_def)
  from inflight_add_revert[OF inflight_new_inv this sample_first_added, where ?'e = unit]
  show ?thesis by (simp add: sample_first_def)
qed

text \<open>
  Reverting a set of inflight transactions that is a suffix of every account's uncommitted
  transactions (the mempool reverts descendants with their ancestors) never panics. Exactly their
  deltas disappear, with their nullifiers and output notes and nothing of the other transactions;
  the other transactions of each account keep their order, and the invariant holds again.
\<close>

theorem inflight_revert_contract:
  assumes inv: "inflight_inv s" and R: "revertible s R"
  shows "\<exists>s'. inflight_revert_transactions s R = (Ok s' () :: (inflight_state, 'e, unit) outcome)
    \<and> inflight_inv s' \<and> is_deltas s' = is_deltas s |` (- R)
    \<and> committed_deltas s' = committed_deltas s
    \<and> is_nullifiers s' = (\<Union>d \<in> known_deltas s'. d_nullifiers d)
    \<and> dom (is_output_notes s') = (\<Union>d \<in> known_deltas s'. d_output_notes d)
    \<and> (\<forall>acc. uncommitted_at s' acc = filter (\<lambda>t. t \<notin> R) (uncommitted_at s acc))"
proof -
  let ?s = "reverted s R"
  note rev = inflight_revert_inv[OF inv R]
  have core: "core_inv s (committed_deltas s)" using inv by (simp add: inflight_inv_def)
  have "uncommitted_at ?s acc = filter (\<lambda>t. t \<notin> R) (uncommitted_at s acc)" for acc
    by (rule reverted_uncommitted_at[OF core R])
  moreover have "is_deltas ?s = is_deltas s |` (- R)" "committed_deltas ?s = committed_deltas s"
    by (simp_all add: reverted_def committed_deltas_def)
  ultimately show ?thesis using rev known_nullifiers[OF rev(2)] known_notes[OF rev(2)] by blast
qed

theorem inflight_revert_contract_witness:
  "\<exists>s'. inflight_revert_transactions sample_inflight {1} = (Ok s' () :: (inflight_state, unit, unit) outcome)
     \<and> inflight_inv s' \<and> uncommitted_at s' 7 = []"
proof -
  have "revertible sample_inflight {1}"
    by (auto simp: revertible_def sample_inflight_def uncommitted_def intro!: exI[of _ 0] split: if_splits)
  from inflight_revert_contract[OF sample_inflight_inv this, where ?'e = unit] obtain s' where
    "inflight_revert_transactions sample_inflight {1} = (Ok s' () :: (inflight_state, unit, unit) outcome)"
    "inflight_inv s'" "uncommitted_at s' 7 = filter (\<lambda>t. t \<notin> {1}) (uncommitted_at sample_inflight 7)" by blast
  moreover have "uncommitted_at sample_inflight 7 = [1]"
    by (simp add: uncommitted_at_def sample_inflight_def uncommitted_def)
  ultimately show ?thesis by simp
qed

text \<open>
  Committing a block whose transactions are, in every account, the oldest uncommitted ones never
  panics, in any order of the transactions, and neither does the pruning of the oldest retained
  block. The transactions leave the inflight set, the chain tip advances by one, at most
  \<open>num_retained_blocks\<close> blocks are retained, and the invariant holds again.
\<close>

theorem inflight_commit_contract:
  assumes inv: "inflight_inv s" and C: "committable s (set ts)" and ts: "distinct ts"
  shows "\<exists>s'. inflight_commit_block s ts = (Ok s' () :: (inflight_state, 'e, unit) outcome)
    \<and> inflight_inv s' \<and> is_deltas s' = is_deltas s |` (- set ts)
    \<and> is_chain_tip s' = Suc (is_chain_tip s) \<and> length (is_committed_blocks s') \<le> is_num_retained s
    \<and> (\<forall>acc. uncommitted_at s' acc = filter (\<lambda>t. t \<notin> set ts) (uncommitted_at s acc))"
proof -
  from inflight_commit_Ok[OF inv C ts, where ?'e = 'e] obtain s' where
    s': "inflight_commit_block s ts = (Ok s' () :: (inflight_state, 'e, unit) outcome)" "inflight_inv s'"
      "is_deltas s' = is_deltas s |` (- set ts)" "is_chain_tip s' = Suc (is_chain_tip s)"
      "is_num_retained s' = is_num_retained s"
      "\<forall>acc a. is_accounts s' acc = Some a \<longrightarrow> (\<exists>b. is_accounts s acc = Some b
        \<and> uncommitted a = filter (\<lambda>t. t \<notin> set ts) (uncommitted b))" by blast
  have "uncommitted_at s' acc = filter (\<lambda>t. t \<notin> set ts) (uncommitted_at s acc)" for acc
    by (rule uncommitted_at_filter[OF inv s'(2,3,6)])
  moreover have "length (is_committed_blocks s') \<le> is_num_retained s" using s'(2,5) by (simp add: inflight_inv_def)
  ultimately show ?thesis using s' by blast
qed

theorem inflight_commit_contract_witness:
  "\<exists>s'. inflight_commit_block sample_inflight [1] = (Ok s' () :: (inflight_state, unit, unit) outcome)
     \<and> inflight_inv s' \<and> is_chain_tip s' = 6 \<and> is_deltas s' 1 = None"
proof -
  have "committable sample_inflight (set [1])"
    by (auto simp: committable_def sample_inflight_def uncommitted_def intro!: exI[of _ 1] split: if_splits)
  from inflight_commit_contract[OF sample_inflight_inv this, where ?'e = unit] obtain s' where
    "inflight_commit_block sample_inflight [1] = (Ok s' () :: (inflight_state, unit, unit) outcome)"
    "inflight_inv s'" "is_deltas s' = is_deltas sample_inflight |` (- set [1])"
    "is_chain_tip s' = Suc (is_chain_tip sample_inflight)" by auto
  then show ?thesis by (simp add: sample_inflight_def)
qed

end
