(* ===== verification/Tx_Expirations.thy ===== *)
theory Tx_Expirations
  imports Domain
begin

text \<open>
  The tracker of expiration heights (crates/block-producer/src/mempool/transaction_expiration.rs):
  a map from transactions to blocks and the inverse map to sets of transactions, which the
  invariant ties together.
\<close>

section \<open>Model\<close>

record tx_expirations =
  by_tx :: "transaction_id \<rightharpoonup> block_number"
  by_block :: "block_number \<rightharpoonup> transaction_id set"

definition expirations_default :: tx_expirations where
  "expirations_default = \<lparr>by_tx = Map.empty, by_block = Map.empty\<rparr>"

definition expirations_insert :: "tx_expirations \<Rightarrow> transaction_id \<Rightarrow> block_number \<Rightarrow> tx_expirations" where
  "expirations_insert e tx block =
     e\<lparr>by_tx := (by_tx e)(tx \<mapsto> block),
       by_block := (by_block e)(block \<mapsto> insert tx (set_or_default (by_block e) block))\<rparr>"

definition expirations_get :: "tx_expirations \<Rightarrow> block_number \<Rightarrow> transaction_id set" where
  "expirations_get e block = set_or_default (by_block e) block"

definition expirations_remove_one :: "tx_expirations \<Rightarrow> transaction_id \<Rightarrow> (tx_expirations, 'e, unit) outcome" where
  "expirations_remove_one e tx =
     (case by_tx e tx of
        None \<Rightarrow> Ok e ()
      | Some block \<Rightarrow>
          (case by_block e block of
             None \<Rightarrow> Panic
           | Some x \<Rightarrow>
               let entry = x - {tx} in
               Ok (e\<lparr>by_tx := (by_tx e)(tx := None),
                     by_block := (by_block e)(block := if entry = {} then None else Some entry)\<rparr>) ()))"

fun expirations_remove :: "tx_expirations \<Rightarrow> transaction_id list \<Rightarrow> (tx_expirations, 'e, unit) outcome" where
  "expirations_remove e [] = Ok e ()"
| "expirations_remove e (tx # txs) = and_then (expirations_remove_one e tx) (\<lambda>e' _. expirations_remove e' txs)"

section \<open>The invariant\<close>

definition expiring_at :: "(transaction_id \<rightharpoonup> block_number) \<Rightarrow> block_number \<Rightarrow> transaction_id set" where
  "expiring_at m block = {tx. m tx = Some block}"

definition expirations_ok :: "tx_expirations \<Rightarrow> bool" where
  "expirations_ok e \<longleftrightarrow> (\<forall>block. by_block e block =
     (let txs = expiring_at (by_tx e) block in if txs = {} then None else Some txs))"

lemma expirations_ok_get: "expirations_ok e \<Longrightarrow> expirations_get e block = expiring_at (by_tx e) block"
  by (simp add: expirations_get_def expirations_ok_def set_or_default_def Let_def split: option.splits)

lemma expirations_default_ok: "expirations_ok expirations_default"
  by (simp add: expirations_ok_def expirations_default_def expiring_at_def)

lemma expirations_insert_ok:
  assumes ok: "expirations_ok e" and new: "by_tx e tx = None"
  shows "expirations_ok (expirations_insert e tx block)"
proof -
  have "expiring_at ((by_tx e)(tx \<mapsto> block)) b =
      (if b = block then insert tx (expiring_at (by_tx e) b) else expiring_at (by_tx e) b)" for b
    using new by (auto simp: expiring_at_def)
  then show ?thesis using ok expirations_ok_get[OF ok, of block]
    by (auto simp: expirations_ok_def expirations_insert_def expirations_get_def Let_def)
qed

lemma expirations_remove_one_Ok:
  assumes ok: "expirations_ok e"
  shows "\<exists>e'. expirations_remove_one e tx = (Ok e' () :: (tx_expirations, 'e, unit) outcome)
    \<and> expirations_ok e' \<and> by_tx e' = (by_tx e)(tx := None)"
proof (cases "by_tx e tx")
  case None
  then show ?thesis using ok by (auto simp: expirations_remove_one_def)
next
  case (Some block)
  let ?T = "expiring_at (by_tx e) block"
  have "tx \<in> ?T" using Some by (simp add: expiring_at_def)
  then have b: "by_block e block = Some ?T" using ok by (auto simp: expirations_ok_def Let_def)
  have ex: "expiring_at ((by_tx e)(tx := None)) b = (if b = block then ?T - {tx} else expiring_at (by_tx e) b)" for b
    using Some by (auto simp: expiring_at_def)
  have "expirations_ok (e\<lparr>by_tx := (by_tx e)(tx := None),
      by_block := (by_block e)(block := if ?T - {tx} = {} then None else Some (?T - {tx}))\<rparr>)"
    using ok by (simp add: expirations_ok_def ex Let_def)
  then show ?thesis using Some b by (auto simp: expirations_remove_one_def Let_def)
qed

lemma expirations_remove_Ok:
  "expirations_ok e \<Longrightarrow> \<exists>e'. expirations_remove e txs = (Ok e' () :: (tx_expirations, 'e, unit) outcome)
    \<and> expirations_ok e' \<and> by_tx e' = by_tx e |` (- set txs)"
proof (induction txs arbitrary: e)
  case Nil
  then show ?case by (simp add: restrict_map_def)
next
  case (Cons tx txs)
  from expirations_remove_one_Ok[OF Cons.prems, of tx, where ?'e = 'e] obtain e1 where
    e1: "expirations_remove_one e tx = (Ok e1 () :: (tx_expirations, 'e, unit) outcome)"
      "expirations_ok e1" "by_tx e1 = (by_tx e)(tx := None)" by blast
  from Cons.IH[OF e1(2)] obtain e2 where
    e2: "expirations_remove e1 txs = (Ok e2 () :: (tx_expirations, 'e, unit) outcome)"
      "expirations_ok e2" "by_tx e2 = by_tx e1 |` (- set txs)" by blast
  have "by_tx e2 = by_tx e |` (- set (tx # txs))"
    by (auto simp: e1(3) e2(3) restrict_map_def fun_eq_iff)
  then show ?case using e1(1) e2 by auto
qed

text \<open>A canonical form: the second index is determined by the first.\<close>

lemma expirations_eqI:
  assumes "expirations_ok e" and "expirations_ok e'" and "by_tx e = by_tx e'"
  shows "e = e'"
proof -
  have "by_block e b = by_block e' b" for b
    using assms(1,2) unfolding expirations_ok_def assms(3) by metis
  then show ?thesis using assms(3) by (intro tx_expirations.equality) auto
qed

text \<open>
  The two indices stay inverse to each other: after tracking a new transaction or removing any
  transactions, known or not, \<open>get\<close> returns exactly the transactions tracked for the block, removal
  never reaches its panic, and tracking a transaction and removing it again gives back the original
  tracker, without an empty entry left behind.
\<close>

theorem expirations_bidirectional:
  assumes ok: "expirations_ok e" and new: "by_tx e tx = None"
  shows "expirations_ok (expirations_insert e tx block)
    \<and> expirations_get (expirations_insert e tx block) b =
        (if b = block then insert tx (expirations_get e b) else expirations_get e b)
    \<and> (\<exists>e'. expirations_remove e txs = (Ok e' () :: (tx_expirations, 'e, unit) outcome) \<and> expirations_ok e'
        \<and> (\<forall>b. expirations_get e' b = expirations_get e b - set txs))
    \<and> expirations_remove (expirations_insert e tx block) [tx] = (Ok e () :: (tx_expirations, 'e, unit) outcome)"
proof (intro conjI)
  show i: "expirations_ok (expirations_insert e tx block)" by (rule expirations_insert_ok[OF ok new])
  show "expirations_get (expirations_insert e tx block) b =
        (if b = block then insert tx (expirations_get e b) else expirations_get e b)"
    by (simp add: expirations_insert_def expirations_get_def set_or_default_def)
  from expirations_remove_Ok[OF ok, of txs, where ?'e = 'e] obtain e' where
    e': "expirations_remove e txs = (Ok e' () :: (tx_expirations, 'e, unit) outcome)" "expirations_ok e'"
      "by_tx e' = by_tx e |` (- set txs)" by blast
  have "expirations_get e' b = expirations_get e b - set txs" for b
    unfolding expirations_ok_get[OF ok] expirations_ok_get[OF e'(2)] e'(3)
    by (auto simp: expiring_at_def restrict_map_def split: if_splits)
  with e' show "\<exists>e'. expirations_remove e txs = (Ok e' () :: (tx_expirations, 'e, unit) outcome) \<and> expirations_ok e'
        \<and> (\<forall>b. expirations_get e' b = expirations_get e b - set txs)" by blast
  from expirations_remove_Ok[OF i, of "[tx]", where ?'e = 'e] obtain e'' where
    e'': "expirations_remove (expirations_insert e tx block) [tx] = (Ok e'' () :: (tx_expirations, 'e, unit) outcome)"
      "expirations_ok e''" "by_tx e'' = by_tx (expirations_insert e tx block) |` (- {tx})" by auto
  have "by_tx e'' = by_tx e"
    using new by (auto simp: e''(3) expirations_insert_def restrict_map_def fun_eq_iff)
  then have "e'' = e" by (rule expirations_eqI[OF e''(2) ok])
  with e''(1) show "expirations_remove (expirations_insert e tx block) [tx] = (Ok e () :: (tx_expirations, 'e, unit) outcome)"
    by simp
qed

theorem expirations_bidirectional_witness:
  "expirations_remove (expirations_insert expirations_default 4 123) [4]
     = (Ok expirations_default () :: (tx_expirations, unit, unit) outcome)
   \<and> expirations_get (expirations_insert expirations_default 4 123) 123 = {4}"
  using expirations_bidirectional[OF expirations_default_ok, of 4 123 123 "[]", where ?'e = unit]
  by (simp add: expirations_default_def expirations_get_def)

end
