(* ===== verification/Network_Domain.thy ===== *)
theory Network_Domain
  imports Domain
begin

text \<open>
  The network side of the protocol's domain types: the 30-bit prefix that identifies a network
  account (crates/proto/src/domain/account.rs), notes addressed to network accounts
  (crates/proto/src/domain/note.rs), the account updates that concern network accounts
  (crates/ntx-builder/src/state/account.rs) and the events the mempool emits
  (crates/proto/src/domain/mempool.rs).
\<close>

section \<open>Network account prefixes\<close>

datatype network_account_prefix = NetworkAccountPrefix (prefix_inner: "32 word")

datatype network_account_error =
    NotNetworkAccount account_ident
  | InvalidExecutionMode note_tag
  | InvalidPrefix "32 word"

definition prefix_try_from_u32 :: "32 word \<Rightarrow> network_account_error + network_account_prefix" where
  "prefix_try_from_u32 value =
     (if drop_bit 30 value \<noteq> 0 then Inl (InvalidPrefix value) else Inr (NetworkAccountPrefix value))"

definition get_account_id_tag_prefix :: "account_ident \<Rightarrow> 32 word" where
  "get_account_id_tag_prefix i = ucast (drop_bit 34 (ident_prefix i))"

definition prefix_try_from_account :: "account_ident \<Rightarrow> network_account_error + network_account_prefix" where
  "prefix_try_from_account i =
     (if \<not> ident_is_network i then Inl (NotNetworkAccount i)
      else Inr (NetworkAccountPrefix (get_account_id_tag_prefix i)))"

text \<open>\<open>None\<close> is the failed assertion on the two leading bits.\<close>

definition prefix_try_from_tag :: "note_tag \<Rightarrow> (network_account_error + network_account_prefix) option" where
  "prefix_try_from_tag tag =
     (if \<not> tag_network_execution tag \<or> \<not> tag_single_target tag then Some (Inl (InvalidExecutionMode tag))
      else if drop_bit 30 (tag_inner tag) \<noteq> 0 then None
      else Some (Inr (NetworkAccountPrefix (tag_inner tag))))"

section \<open>Network notes\<close>

datatype network_note = NetworkNote (nn_inner: protocol_note)

definition network_note_try_from :: "protocol_note \<Rightarrow> note_tag + network_note" where
  "network_note_try_from n = (if \<not> is_network_note n then Inl (note_tag_of n) else Inr (NetworkNote n))"

definition nn_nullifier :: "network_note \<Rightarrow> nullifier" where
  "nn_nullifier n = note_nullifier (nn_inner n)"

definition nn_id :: "network_note \<Rightarrow> note_id" where
  "nn_id n = note_id_of (nn_inner n)"

text \<open>\<open>None\<close> is the panic of \<open>unwrap\<close>.\<close>

definition nn_account_prefix :: "network_note \<Rightarrow> network_account_prefix option" where
  "nn_account_prefix n = (case prefix_try_from_tag (note_tag_of (nn_inner n)) of Some (Inr p) \<Rightarrow> Some p | _ \<Rightarrow> None)"

section \<open>Updates of network accounts\<close>

datatype network_account_update = NewNetworkAccount account | NetworkAccountDelta account_delta

fun update_account_id :: "network_account_update \<Rightarrow> account_ident" where
  "update_account_id (NewNetworkAccount a) = acc_ident a"
| "update_account_id (NetworkAccountDelta d) = delta_ident d"

fun update_from_protocol :: "account_update_details \<Rightarrow> network_account_update option" where
  "update_from_protocol PrivateUpdate = None"
| "update_from_protocol (NewAccount a) =
     (let u = NewNetworkAccount a in if ident_is_network (update_account_id u) then Some u else None)"
| "update_from_protocol (DeltaUpdate d) =
     (let u = NetworkAccountDelta d in if ident_is_network (update_account_id u) then Some u else None)"

definition update_prefix :: "network_account_update \<Rightarrow> network_account_prefix option" where
  "update_prefix u = (case prefix_try_from_account (update_account_id u) of Inr p \<Rightarrow> Some p | Inl e \<Rightarrow> None)"

section \<open>Events of the mempool\<close>

datatype mempool_event =
    TransactionAdded transaction_id "nullifier list" "network_note list" "account_update_details option"
  | BlockCommitted block_header "transaction_id list"
  | TransactionsReverted "transaction_id set"

section \<open>Facts\<close>

lemma account_prefix_bits: "drop_bit 30 (get_account_id_tag_prefix i) = 0"
  by (rule bit_word_eqI) (auto simp: get_account_id_tag_prefix_def bit_simps dest: bit_imp_le_length)

lemma update_from_protocol_prefix:
  "update_from_protocol d = Some u \<Longrightarrow>
     ident_is_network (update_account_id u)
     \<and> update_prefix u = Some (NetworkAccountPrefix (get_account_id_tag_prefix (update_account_id u)))"
  by (cases d) (auto simp: update_prefix_def prefix_try_from_account_def Let_def split: if_splits)

text \<open>
  Every prefix the three conversions produce fits 30 bits and converts from its raw value again,
  and the prefix of a network account is never rejected: the prefix of an account identifier is cut
  to 30 bits by its shift, raw values with either leading bit set are rejected, and tags are covered
  by the assertion.
\<close>

theorem prefixes_have_30_bits:
  "(prefix_try_from_account i = Inr p \<or> prefix_try_from_u32 w = Inr p \<or> prefix_try_from_tag tag = Some (Inr p)
      \<longrightarrow> unat (prefix_inner p) < 2 ^ 30 \<and> prefix_try_from_u32 (prefix_inner p) = Inr p)
   \<and> (update_from_protocol d = Some u \<longrightarrow> (\<exists>q. update_prefix u = Some q \<and> unat (prefix_inner q) < 2 ^ 30))"
proof -
  have small: "unat v < 2 ^ 30" if "drop_bit 30 v = 0" for v :: "32 word"
  proof -
    have "drop_bit 30 (unat v) = 0" using that by (simp flip: unat_drop_bit_eq)
    then show ?thesis by (simp add: drop_bit_eq_div div_eq_0_iff)
  qed
  have A: "unat (prefix_inner p) < 2 ^ 30 \<and> prefix_try_from_u32 (prefix_inner p) = Inr p"
    if "prefix_try_from_account i = Inr p \<or> prefix_try_from_u32 w = Inr p \<or> prefix_try_from_tag tag = Some (Inr p)"
  proof -
    have "drop_bit 30 (prefix_inner p) = 0"
      using that account_prefix_bits[of i]
      by (auto simp: prefix_try_from_account_def prefix_try_from_u32_def prefix_try_from_tag_def split: if_splits)
    then show ?thesis using small by (simp add: prefix_try_from_u32_def)
  qed
  moreover have "\<exists>q. update_prefix u = Some q \<and> unat (prefix_inner q) < 2 ^ 30" if "update_from_protocol d = Some u"
    using update_from_protocol_prefix[OF that] small[OF account_prefix_bits] by auto
  ultimately show ?thesis by blast
qed

theorem prefixes_have_30_bits_witness:
  "unat (prefix_inner (NetworkAccountPrefix 5)) < 2 ^ 30
   \<and> prefix_try_from_u32 (2 ^ 30) = Inl (InvalidPrefix (2 ^ 30))
   \<and> prefix_try_from_account \<lparr>ident_key = 1, ident_prefix = 2 ^ 34 * 5 + 7, ident_is_network = True\<rparr>
       = Inr (NetworkAccountPrefix 5)"
proof -
  let ?i = "\<lparr>ident_key = 1, ident_prefix = 2 ^ 34 * 5 + 7, ident_is_network = True\<rparr>"
  have p: "prefix_try_from_account ?i = Inr (NetworkAccountPrefix 5)"
    by (simp add: prefix_try_from_account_def get_account_id_tag_prefix_def)
  moreover have "prefix_try_from_u32 (2 ^ 30) = Inl (InvalidPrefix (2 ^ 30))"
    by (simp add: prefix_try_from_u32_def)
  moreover have "unat (prefix_inner (NetworkAccountPrefix 5)) < 2 ^ 30"
    using prefixes_have_30_bits[of ?i "NetworkAccountPrefix 5"] p by blast
  ultimately show ?thesis by blast
qed

end
