(* ===== verification/Subscription.thy ===== *)
theory Subscription
  imports Network_Domain
begin

text \<open>
  The subscription of the network transaction builder to the mempool's events
  (crates/block-producer/src/mempool/subscription.rs): the tracker of uncommitted transaction events,
  which a new subscriber is sent first, and the event channel. The specification is a list: the
  events of the inflight transactions in the order they were added.
\<close>

section \<open>The channel\<close>

text \<open>
  The sending half of a bounded \<open>tokio::sync::mpsc\<close> channel, with the events it has accepted.
  Whether \<open>try_send\<close> accepts another event depends on the receiver; that is the parameter
  \<open>accepts\<close> of the operations below.
\<close>

record sender =
  sn_capacity :: nat
  sn_sent :: "mempool_event list"

definition try_send :: "(sender \<Rightarrow> mempool_event \<Rightarrow> bool) \<Rightarrow> sender \<Rightarrow> mempool_event \<Rightarrow> sender option" where
  "try_send accepts s ev = (if accepts s ev then Some (s\<lparr>sn_sent := sn_sent s @ [ev]\<rparr>) else None)"

section \<open>The tracker of inflight transactions\<close>

record inflight_events =
  ie_txs :: "(nat \<times> mempool_event) list"
  ie_index :: "transaction_id \<rightharpoonup> nat"

definition events_default :: inflight_events where
  "events_default = \<lparr>ie_txs = [], ie_index = Map.empty\<rparr>"

text \<open>The key of the next event: one more than the last; it must fit 64 bits.\<close>

definition next_index :: "inflight_events \<Rightarrow> nat" where
  "next_index t = (if ie_txs t = [] then 0 else Suc (fst (last (ie_txs t))))"

definition events_insert :: "inflight_events \<Rightarrow> mempool_event \<Rightarrow> (inflight_events, 'e, unit) outcome" where
  "events_insert t ev =
     (case ev of
        TransactionAdded i ns nn d \<Rightarrow>
          (let idx = next_index t in
           if 2 ^ 64 \<le> idx then Panic
           else if contains_key (ie_index t) i then Panic
           else Ok (t\<lparr>ie_index := (ie_index t)(i \<mapsto> idx), ie_txs := bt_insert idx ev (ie_txs t)\<rparr>) ())
      | _ \<Rightarrow> Panic)"

definition events_remove :: "inflight_events \<Rightarrow> transaction_id \<Rightarrow> (inflight_events, 'e, unit) outcome" where
  "events_remove t tx =
     (case ie_index t tx of
        None \<Rightarrow> Panic
      | Some idx \<Rightarrow> Ok (t\<lparr>ie_index := (ie_index t)(tx := None),
                        ie_txs := filter (\<lambda>e. fst e \<noteq> idx) (ie_txs t)\<rparr>) ())"

fun events_remove_all :: "inflight_events \<Rightarrow> transaction_id list \<Rightarrow> (inflight_events, 'e, unit) outcome" where
  "events_remove_all t [] = Ok t ()"
| "events_remove_all t (tx # txs) = and_then (events_remove t tx) (\<lambda>t' _. events_remove_all t' txs)"

definition events_iter :: "inflight_events \<Rightarrow> mempool_event list" where
  "events_iter t = map snd (ie_txs t)"

definition events_len :: "inflight_events \<Rightarrow> nat" where
  "events_len t = length (ie_txs t)"

section \<open>The provider\<close>

record subscription_provider =
  sp_subscription :: "sender option"
  sp_chain_tip :: block_number
  sp_inflight_txs :: inflight_events

definition provider_new :: "block_number \<Rightarrow> subscription_provider" where
  "provider_new tip = \<lparr>sp_subscription = None, sp_chain_tip = tip, sp_inflight_txs = events_default\<rparr>"

definition send_event ::
  "(sender \<Rightarrow> mempool_event \<Rightarrow> bool) \<Rightarrow> sender option \<Rightarrow> mempool_event \<Rightarrow> sender option" where
  "send_event accepts sub ev =
     (case sub of None \<Rightarrow> None | Some s \<Rightarrow> (case try_send accepts s ev of None \<Rightarrow> None | Some s' \<Rightarrow> Some s'))"

text \<open>An error carries the provider's chain tip; a success returns the channel.\<close>

definition subscribe ::
  "(sender \<Rightarrow> mempool_event \<Rightarrow> bool) \<Rightarrow> subscription_provider \<Rightarrow> block_number \<Rightarrow>
     (subscription_provider, block_number, sender option) outcome" where
  "subscribe accepts p chain_tip =
     (if sp_chain_tip p \<noteq> chain_tip then Err p (sp_chain_tip p)
      else let capacity = max (events_len (sp_inflight_txs p) * 2) 1024;
               sub = foldl (send_event accepts) (Some \<lparr>sn_capacity = capacity, sn_sent = []\<rparr>)
                       (events_iter (sp_inflight_txs p))
           in Ok (p\<lparr>sp_subscription := sub\<rparr>) sub)"

definition full_network_note :: "output_note \<Rightarrow> network_note option" where
  "full_network_note n = (case n of
     FullNote inner \<Rightarrow> (case network_note_try_from inner of Inr nn \<Rightarrow> Some nn | Inl e \<Rightarrow> None)
   | _ \<Rightarrow> None)"

definition added_event :: "auth_tx \<Rightarrow> mempool_event" where
  "added_event tx = TransactionAdded (tx_id tx) (tx_nullifiers tx)
     (List.map_filter full_network_note (tx_output_notes tx))
     (if ptx_account_is_network (tx_inner tx) then Some (ptx_details (tx_inner tx)) else None)"

definition transaction_added ::
  "(sender \<Rightarrow> mempool_event \<Rightarrow> bool) \<Rightarrow> subscription_provider \<Rightarrow> auth_tx \<Rightarrow> (subscription_provider, 'e, unit) outcome" where
  "transaction_added accepts p tx =
     (let event = added_event tx in
      and_then (in_field (\<lambda>t. p\<lparr>sp_inflight_txs := t\<rparr>) (events_insert (sp_inflight_txs p) event))
        (\<lambda>p' _. Ok (p'\<lparr>sp_subscription := send_event accepts (sp_subscription p') event\<rparr>) ()))"

definition block_committed ::
  "(sender \<Rightarrow> mempool_event \<Rightarrow> bool) \<Rightarrow> subscription_provider \<Rightarrow> block_header \<Rightarrow> transaction_id list \<Rightarrow>
     (subscription_provider, 'e, unit) outcome" where
  "block_committed accepts p header txs =
     (let p1 = p\<lparr>sp_chain_tip := bh_block_num header\<rparr> in
      and_then (in_field (\<lambda>t. p1\<lparr>sp_inflight_txs := t\<rparr>) (events_remove_all (sp_inflight_txs p1) txs))
        (\<lambda>p' _. Ok (p'\<lparr>sp_subscription := send_event accepts (sp_subscription p') (BlockCommitted header txs)\<rparr>) ()))"

definition txs_reverted ::
  "(sender \<Rightarrow> mempool_event \<Rightarrow> bool) \<Rightarrow> subscription_provider \<Rightarrow> transaction_id set \<Rightarrow>
     (subscription_provider, 'e, unit) outcome" where
  "txs_reverted accepts p txs =
     and_then (in_field (\<lambda>t. p\<lparr>sp_inflight_txs := t\<rparr>) (events_remove_all (sp_inflight_txs p) (sorted_list_of_set txs)))
       (\<lambda>p' _. Ok (p'\<lparr>sp_subscription := send_event accepts (sp_subscription p') (TransactionsReverted txs)\<rparr>) ())"

section \<open>The tracker is a list of events\<close>

fun event_tx :: "mempool_event \<Rightarrow> transaction_id option" where
  "event_tx (TransactionAdded i ns nn d) = Some i"
| "event_tx (BlockCommitted h txs) = None"
| "event_tx (TransactionsReverted txs) = None"

definition events_ok :: "inflight_events \<Rightarrow> bool" where
  "events_ok t \<longleftrightarrow> sorted (map fst (ie_txs t)) \<and> distinct (map fst (ie_txs t))
     \<and> distinct (map event_tx (events_iter t)) \<and> None \<notin> event_tx ` set (events_iter t)
     \<and> (\<forall>tx k. ie_index t tx = Some k \<longleftrightarrow> (\<exists>ev. (k, ev) \<in> set (ie_txs t) \<and> event_tx ev = Some tx))"

lemma bt_insert_last: "\<forall>x \<in> fst ` set xs. x < k \<Longrightarrow> bt_insert k v xs = xs @ [(k, v)]"
  by (induction k v xs rule: bt_insert.induct) auto

lemma next_index_fresh: "events_ok t \<Longrightarrow> \<forall>x \<in> fst ` set (ie_txs t). x < next_index t"
proof
  fix x assume ok: "events_ok t" and x: "x \<in> fst ` set (ie_txs t)"
  then have "ie_txs t \<noteq> []" by auto
  then have e: "map fst (ie_txs t) = map fst (butlast (ie_txs t)) @ [fst (last (ie_txs t))]"
    by (metis append_butlast_last_id list.simps(8,9) map_append)
  have "sorted (map fst (ie_txs t))" using ok by (simp add: events_ok_def)
  moreover have "x \<in> set (map fst (ie_txs t))" using x by simp
  ultimately have "x \<le> fst (last (ie_txs t))" unfolding e by (auto simp: sorted_append)
  then show "x < next_index t" using \<open>ie_txs t \<noteq> []\<close> by (simp add: next_index_def)
qed

lemma events_index_dom: "events_ok t \<Longrightarrow> tx \<in> dom (ie_index t) \<longleftrightarrow> Some tx \<in> event_tx ` set (events_iter t)"
  unfolding events_ok_def events_iter_def by (force simp: dom_def image_iff)

lemma events_insert_Ok:
  assumes ok: "events_ok t" and new: "i \<notin> dom (ie_index t)" and room: "next_index t < 2 ^ 64"
  shows "\<exists>t'. events_insert t (TransactionAdded i ns nn d) = (Ok t' () :: (inflight_events, 'e, unit) outcome)
    \<and> events_ok t' \<and> events_iter t' = events_iter t @ [TransactionAdded i ns nn d]
    \<and> dom (ie_index t') = insert i (dom (ie_index t)) \<and> next_index t' = Suc (next_index t)"
proof -
  let ?ev = "TransactionAdded i ns nn d" and ?k = "next_index t"
  note fresh = next_index_fresh[OF ok]
  define t' where "t' = t\<lparr>ie_index := (ie_index t)(i \<mapsto> ?k), ie_txs := ie_txs t @ [(?k, ?ev)]\<rparr>"
  have run: "events_insert t ?ev = (Ok t' () :: (inflight_events, 'e, unit) outcome)"
    using new room by (simp add: events_insert_def bt_insert_last[OF fresh] t'_def Let_def)
  have it: "events_iter t' = events_iter t @ [?ev]" by (simp add: events_iter_def t'_def)
  have nid: "Some i \<notin> event_tx ` set (events_iter t)" using events_index_dom[OF ok] new by blast
  have ix: "ie_index t tx = Some k \<longleftrightarrow> (\<exists>ev. (k, ev) \<in> set (ie_txs t) \<and> event_tx ev = Some tx)" for tx k
    using ok by (simp add: events_ok_def)
  have "ie_index t' tx = Some k \<longleftrightarrow> (\<exists>ev. (k, ev) \<in> set (ie_txs t') \<and> event_tx ev = Some tx)" for tx k
    using ix[of tx k] nid by (auto simp: t'_def events_iter_def image_iff)
  moreover have "sorted (map fst (ie_txs t'))" "distinct (map fst (ie_txs t'))"
    using ok fresh by (auto simp: t'_def events_ok_def sorted_append less_imp_le)
  moreover have "distinct (map event_tx (events_iter t'))" "None \<notin> event_tx ` set (events_iter t')"
    using ok nid by (auto simp: it events_ok_def)
  ultimately have "events_ok t'" by (simp add: events_ok_def)
  with run it show ?thesis by (auto simp: t'_def next_index_def)
qed

lemma events_remove_Ok:
  assumes ok: "events_ok t" and known: "tx \<in> dom (ie_index t)"
  shows "\<exists>t'. events_remove t tx = (Ok t' () :: (inflight_events, 'e, unit) outcome)
    \<and> events_ok t' \<and> events_iter t' = filter (\<lambda>ev. event_tx ev \<noteq> Some tx) (events_iter t)
    \<and> dom (ie_index t') = dom (ie_index t) - {tx}"
proof -
  obtain k where k: "ie_index t tx = Some k" using known by blast
  define t' where "t' = t\<lparr>ie_index := (ie_index t)(tx := None), ie_txs := filter (\<lambda>e. fst e \<noteq> k) (ie_txs t)\<rparr>"
  have run: "events_remove t tx = (Ok t' () :: (inflight_events, 'e, unit) outcome)"
    by (simp add: events_remove_def k t'_def)
  have dk: "distinct (map fst (ie_txs t))" and srt: "sorted (map fst (ie_txs t))"
    and di: "distinct (map event_tx (events_iter t))" using ok by (simp_all add: events_ok_def)
  have ix: "ie_index t u = Some j \<longleftrightarrow> (\<exists>ev. (j, ev) \<in> set (ie_txs t) \<and> event_tx ev = Some u)" for u j
    using ok by (simp add: events_ok_def)
  have same: "fst e \<noteq> k \<longleftrightarrow> event_tx (snd e) \<noteq> Some tx" if e: "e \<in> set (ie_txs t)" for e
  proof
    assume "fst e \<noteq> k"
    then show "event_tx (snd e) \<noteq> Some tx" using ix[of tx "fst e"] e k by (metis option.inject prod.collapse)
  next
    assume n: "event_tx (snd e) \<noteq> Some tx"
    obtain ev where ev: "(k, ev) \<in> set (ie_txs t)" "event_tx ev = Some tx" using ix[of tx k] k by blast
    show "fst e \<noteq> k"
    proof
      assume "fst e = k"
      then have "e = (k, ev)" using dk e ev(1) by (metis eq_key_imp_eq_value prod.collapse)
      with n ev(2) show False by simp
    qed
  qed
  have fl: "ie_txs t' = filter (\<lambda>e. event_tx (snd e) \<noteq> Some tx) (ie_txs t)"
    using same by (simp add: t'_def cong: filter_cong)
  have it: "events_iter t' = filter (\<lambda>ev. event_tx ev \<noteq> Some tx) (events_iter t)"
    by (simp add: events_iter_def fl filter_map comp_def)
  have "ie_index t' u = Some j \<longleftrightarrow> (\<exists>ev. (j, ev) \<in> set (ie_txs t') \<and> event_tx ev = Some u)" for u j
    unfolding fl using ix[of u j] by (auto simp: t'_def)
  moreover have "sorted (map fst (ie_txs t'))" "distinct (map fst (ie_txs t'))"
    using srt dk by (auto simp: t'_def sorted_filter distinct_map_filter)
  moreover have "distinct (map event_tx (events_iter t'))" "None \<notin> event_tx ` set (events_iter t')"
    using ok by (auto simp: it events_ok_def distinct_map_filter)
  ultimately have "events_ok t'" by (simp add: events_ok_def)
  with run it show ?thesis by (auto simp: t'_def)
qed

lemma events_remove_all_Ok:
  "events_ok t \<Longrightarrow> distinct txs \<Longrightarrow> set txs \<subseteq> dom (ie_index t) \<Longrightarrow>
    \<exists>t'. events_remove_all t txs = (Ok t' () :: (inflight_events, 'e, unit) outcome)
      \<and> events_ok t' \<and> events_iter t' = filter (\<lambda>ev. event_tx ev \<notin> Some ` set txs) (events_iter t)
      \<and> dom (ie_index t') = dom (ie_index t) - set txs"
proof (induction txs arbitrary: t)
  case Nil
  then show ?case by simp
next
  case (Cons tx txs)
  from events_remove_Ok[OF Cons.prems(1), of tx, where ?'e = 'e] Cons.prems(3) obtain t1 where
    t1: "events_remove t tx = (Ok t1 () :: (inflight_events, 'e, unit) outcome)" "events_ok t1"
      "events_iter t1 = filter (\<lambda>ev. event_tx ev \<noteq> Some tx) (events_iter t)"
      "dom (ie_index t1) = dom (ie_index t) - {tx}" by auto
  have "set txs \<subseteq> dom (ie_index t1)" using Cons.prems t1(4) by auto
  from Cons.IH[OF t1(2) _ this] Cons.prems(2) obtain t2 where
    t2: "events_remove_all t1 txs = (Ok t2 () :: (inflight_events, 'e, unit) outcome)" "events_ok t2"
      "events_iter t2 = filter (\<lambda>ev. event_tx ev \<notin> Some ` set txs) (events_iter t1)"
      "dom (ie_index t2) = dom (ie_index t1) - set txs" by auto
  have "events_iter t2 = filter (\<lambda>ev. event_tx ev \<notin> Some ` set (tx # txs)) (events_iter t)"
    unfolding t2(3) t1(3) by (auto intro: filter_cong)
  moreover have "dom (ie_index t2) = dom (ie_index t) - set (tx # txs)" unfolding t2(4) t1(4) by auto
  ultimately show ?case using t1(1) t2 by (intro exI[of _ t2]) simp
qed

section \<open>What a subscriber sees\<close>

text \<open>
  A subscriber that keeps a list of the inflight transactions from the events alone. The provider is
  correct when a subscription that has not been cancelled has exactly this view of the tracker.
\<close>

fun observe :: "transaction_id list \<Rightarrow> mempool_event \<Rightarrow> transaction_id list" where
  "observe ids (TransactionAdded i ns nn d) = ids @ [i]"
| "observe ids (BlockCommitted h txs) = filter (\<lambda>t. t \<notin> set txs) ids"
| "observe ids (TransactionsReverted txs) = filter (\<lambda>t. t \<notin> txs) ids"

definition subscriber_view :: "mempool_event list \<Rightarrow> transaction_id list" where
  "subscriber_view evs = foldl observe [] evs"

definition tracked_ids :: "subscription_provider \<Rightarrow> transaction_id list" where
  "tracked_ids p = map (the \<circ> event_tx) (events_iter (sp_inflight_txs p))"

definition tracked_txs :: "subscription_provider \<Rightarrow> transaction_id set" where
  "tracked_txs p = dom (ie_index (sp_inflight_txs p))"

definition provider_ok :: "subscription_provider \<Rightarrow> bool" where
  "provider_ok p \<longleftrightarrow> events_ok (sp_inflight_txs p)
     \<and> (case sp_subscription p of None \<Rightarrow> True | Some s \<Rightarrow> subscriber_view (sn_sent s) = tracked_ids p)"

lemma events_default_ok: "events_ok events_default"
  by (simp add: events_ok_def events_default_def events_iter_def)

lemma provider_new_ok: "provider_ok (provider_new tip)" "tracked_txs (provider_new tip) = {}"
  by (simp_all add: provider_ok_def provider_new_def events_default_ok tracked_txs_def, simp add: events_default_def)

lemma subscriber_view_snoc: "subscriber_view (evs @ [ev]) = observe (subscriber_view evs) ev"
  by (simp add: subscriber_view_def)

lemma tracked_set: "events_ok (sp_inflight_txs p) \<Longrightarrow> set (tracked_ids p) = tracked_txs p"
proof -
  assume ok: "events_ok (sp_inflight_txs p)"
  have "None \<notin> event_tx ` set (events_iter (sp_inflight_txs p))" using ok by (simp add: events_ok_def)
  have "x \<in> set (tracked_ids p) \<longleftrightarrow> Some x \<in> event_tx ` set (events_iter (sp_inflight_txs p))" for x
  proof
    assume "x \<in> set (tracked_ids p)"
    then obtain ev where ev: "ev \<in> set (events_iter (sp_inflight_txs p))" "x = the (event_tx ev)"
      by (auto simp: tracked_ids_def)
    with \<open>None \<notin> _\<close> have "event_tx ev = Some x" by (cases "event_tx ev") force+
    with ev(1) show "Some x \<in> event_tx ` set (events_iter (sp_inflight_txs p))" by force
  next
    assume "Some x \<in> event_tx ` set (events_iter (sp_inflight_txs p))"
    then obtain ev where "ev \<in> set (events_iter (sp_inflight_txs p))" "event_tx ev = Some x" by auto
    then have "(the \<circ> event_tx) ev = x" by simp
    with \<open>ev \<in> _\<close> show "x \<in> set (tracked_ids p)" unfolding tracked_ids_def by (metis image_eqI set_map)
  qed
  then show ?thesis unfolding tracked_txs_def using events_index_dom[OF ok] by blast
qed

lemma tracked_filter:
  assumes "None \<notin> event_tx ` set evs"
  shows "map (the \<circ> event_tx) (filter (\<lambda>ev. event_tx ev \<notin> Some ` T) evs)
    = filter (\<lambda>t. t \<notin> T) (map (the \<circ> event_tx) evs)"
proof -
  have "event_tx ev \<notin> Some ` T \<longleftrightarrow> the (event_tx ev) \<notin> T" if "ev \<in> set evs" for ev
    using assms that by (cases "event_tx ev") (auto simp: image_iff)
  then show ?thesis by (induction evs) (auto simp: assms)
qed

lemma send_event_view:
  assumes "case sub of None \<Rightarrow> True | Some s \<Rightarrow> subscriber_view (sn_sent s) = ids"
  shows "case send_event accepts sub ev of None \<Rightarrow> True | Some s \<Rightarrow> subscriber_view (sn_sent s) = observe ids ev"
  using assms by (auto simp: send_event_def try_send_def subscriber_view_snoc split: option.splits)

lemma provider_okI:
  assumes "events_ok (sp_inflight_txs p)" and "tracked_ids p = ids"
    and "case sp_subscription p of None \<Rightarrow> True | Some s \<Rightarrow> subscriber_view (sn_sent s) = ids"
  shows "provider_ok p"
  using assms(1,3) unfolding provider_ok_def assms(2) by blast

lemma transaction_added_Ok:
  assumes ok: "provider_ok p" and new: "tx_id tx \<notin> tracked_txs p" and room: "next_index (sp_inflight_txs p) < 2 ^ 64"
  shows "\<exists>p'. transaction_added accepts p tx = (Ok p' () :: (subscription_provider, 'e, unit) outcome)
    \<and> provider_ok p' \<and> tracked_txs p' = insert (tx_id tx) (tracked_txs p)
    \<and> tracked_ids p' = tracked_ids p @ [tx_id tx] \<and> sp_chain_tip p' = sp_chain_tip p
    \<and> next_index (sp_inflight_txs p') = Suc (next_index (sp_inflight_txs p))"
proof -
  have "events_ok (sp_inflight_txs p)" using ok by (simp add: provider_ok_def)
  from events_insert_Ok[OF this new[unfolded tracked_txs_def] room, where ?'e = 'e] obtain t where
    t: "events_insert (sp_inflight_txs p) (added_event tx) = (Ok t () :: (inflight_events, 'e, unit) outcome)"
      "events_ok t" "events_iter t = events_iter (sp_inflight_txs p) @ [added_event tx]"
      "dom (ie_index t) = insert (tx_id tx) (dom (ie_index (sp_inflight_txs p)))"
      "next_index t = Suc (next_index (sp_inflight_txs p))"
    unfolding added_event_def by blast
  define p' where "p' = p\<lparr>sp_inflight_txs := t,
      sp_subscription := send_event accepts (sp_subscription p) (added_event tx)\<rparr>"
  have run: "transaction_added accepts p tx = (Ok p' () :: (subscription_provider, 'e, unit) outcome)"
    by (simp add: transaction_added_def Let_def t(1) p'_def)
  have ids: "tracked_ids p' = tracked_ids p @ [tx_id tx]"
    by (simp add: tracked_ids_def p'_def t(3)) (simp add: added_event_def)
  have "case sp_subscription p of None \<Rightarrow> True | Some s \<Rightarrow> subscriber_view (sn_sent s) = tracked_ids p"
    using ok by (simp add: provider_ok_def)
  from send_event_view[OF this, where accepts = accepts and ev = "added_event tx"]
  have "case send_event accepts (sp_subscription p) (added_event tx) of None \<Rightarrow> True
      | Some s \<Rightarrow> subscriber_view (sn_sent s) = tracked_ids p @ [tx_id tx]"
    by (simp only: added_event_def observe.simps)
  then have "provider_ok p'" using t(2) by (intro provider_okI[OF _ ids]) (simp_all add: p'_def)
  then show ?thesis using run ids t(4,5) by (intro exI[of _ p']) (simp add: p'_def tracked_txs_def)
qed

text \<open>Both ways for transactions to leave: the event that is sent removes them from the view.\<close>

lemma leave_Ok:
  assumes ok: "provider_ok p" and txs: "distinct txs" "set txs \<subseteq> tracked_txs p"
    and ev: "\<And>ids. observe ids ev = filter (\<lambda>t. t \<notin> set txs) ids"
  shows "\<exists>t. events_remove_all (sp_inflight_txs p) txs = (Ok t () :: (inflight_events, 'e, unit) outcome)
    \<and> provider_ok (p\<lparr>sp_chain_tip := tip, sp_inflight_txs := t, sp_subscription := send_event accepts (sp_subscription p) ev\<rparr>)
    \<and> dom (ie_index t) = tracked_txs p - set txs
    \<and> map (the \<circ> event_tx) (events_iter t) = filter (\<lambda>t. t \<notin> set txs) (tracked_ids p)"
proof -
  have eok: "events_ok (sp_inflight_txs p)" using ok by (simp add: provider_ok_def)
  from events_remove_all_Ok[OF eok txs(1) txs(2)[unfolded tracked_txs_def], where ?'e = 'e] obtain t where
    t: "events_remove_all (sp_inflight_txs p) txs = (Ok t () :: (inflight_events, 'e, unit) outcome)" "events_ok t"
      "events_iter t = filter (\<lambda>ev. event_tx ev \<notin> Some ` set txs) (events_iter (sp_inflight_txs p))"
      "dom (ie_index t) = dom (ie_index (sp_inflight_txs p)) - set txs" by blast
  have ids: "map (the \<circ> event_tx) (events_iter t) = filter (\<lambda>t. t \<notin> set txs) (tracked_ids p)"
    unfolding t(3) tracked_ids_def using eok by (intro tracked_filter) (simp add: events_ok_def)
  have "case sp_subscription p of None \<Rightarrow> True | Some s \<Rightarrow> subscriber_view (sn_sent s) = tracked_ids p"
    using ok by (simp add: provider_ok_def)
  from send_event_view[OF this, where accepts = accepts and ev = ev] ids t(2)
  have "provider_ok (p\<lparr>sp_chain_tip := tip, sp_inflight_txs := t, sp_subscription := send_event accepts (sp_subscription p) ev\<rparr>)"
    by (intro provider_okI[where ids = "observe (tracked_ids p) ev"]) (simp_all add: tracked_ids_def ev)
  then show ?thesis using t(1,4) ids by (auto simp: tracked_txs_def)
qed

lemma block_committed_Ok:
  assumes ok: "provider_ok p" and txs: "distinct txs" "set txs \<subseteq> tracked_txs p"
  shows "\<exists>p'. block_committed accepts p header txs = (Ok p' () :: (subscription_provider, 'e, unit) outcome)
    \<and> provider_ok p' \<and> tracked_txs p' = tracked_txs p - set txs \<and> sp_chain_tip p' = bh_block_num header
    \<and> tracked_ids p' = filter (\<lambda>t. t \<notin> set txs) (tracked_ids p)"
proof -
  have "observe ids (BlockCommitted header txs) = filter (\<lambda>t. t \<notin> set txs) ids" for ids by simp
  from leave_Ok[OF ok txs this, where tip = "bh_block_num header" and accepts = accepts and ?'e = 'e] obtain t where
    t: "events_remove_all (sp_inflight_txs p) txs = (Ok t () :: (inflight_events, 'e, unit) outcome)"
      "provider_ok (p\<lparr>sp_chain_tip := bh_block_num header, sp_inflight_txs := t,
         sp_subscription := send_event accepts (sp_subscription p) (BlockCommitted header txs)\<rparr>)"
      "dom (ie_index t) = tracked_txs p - set txs"
      "map (the \<circ> event_tx) (events_iter t) = filter (\<lambda>t. t \<notin> set txs) (tracked_ids p)" by blast
  then show ?thesis by (simp add: block_committed_def Let_def tracked_txs_def tracked_ids_def)
qed

lemma txs_reverted_Ok:
  assumes ok: "provider_ok p" and txs: "finite txs" "txs \<subseteq> tracked_txs p"
  shows "\<exists>p'. txs_reverted accepts p txs = (Ok p' () :: (subscription_provider, 'e, unit) outcome)
    \<and> provider_ok p' \<and> tracked_txs p' = tracked_txs p - txs \<and> sp_chain_tip p' = sp_chain_tip p
    \<and> tracked_ids p' = filter (\<lambda>t. t \<notin> txs) (tracked_ids p)"
proof -
  let ?ts = "sorted_list_of_set txs"
  have ts: "distinct ?ts" "set ?ts \<subseteq> tracked_txs p" "set ?ts = txs" using txs by auto
  have "observe ids (TransactionsReverted txs) = filter (\<lambda>t. t \<notin> set ?ts) ids" for ids using ts(3) by simp
  from leave_Ok[OF ok ts(1,2) this, where tip = "sp_chain_tip p" and accepts = accepts and ?'e = 'e] obtain t where
    t: "events_remove_all (sp_inflight_txs p) ?ts = (Ok t () :: (inflight_events, 'e, unit) outcome)"
      "provider_ok (p\<lparr>sp_chain_tip := sp_chain_tip p, sp_inflight_txs := t,
         sp_subscription := send_event accepts (sp_subscription p) (TransactionsReverted txs)\<rparr>)"
      "dom (ie_index t) = tracked_txs p - set ?ts"
      "map (the \<circ> event_tx) (events_iter t) = filter (\<lambda>t. t \<notin> set ?ts) (tracked_ids p)" by blast
  then show ?thesis by (simp add: txs_reverted_def tracked_txs_def tracked_ids_def ts(3))
qed

lemma replay_accepted:
  assumes "\<And>s ev. length (sn_sent s) < sn_capacity s \<Longrightarrow> accepts s ev"
    and "length (sn_sent s) + length evs \<le> sn_capacity s"
  shows "foldl (send_event accepts) (Some s) evs = Some (s\<lparr>sn_sent := sn_sent s @ evs\<rparr>)"
  using assms(2)
proof (induction evs arbitrary: s)
  case (Cons ev evs)
  then have "accepts s ev" using assms(1) by simp
  then show ?case using Cons by (simp add: send_event_def try_send_def)
qed simp

lemma replay_view:
  assumes "None \<notin> event_tx ` set evs"
  shows "subscriber_view evs = map (the \<circ> event_tx) evs"
  using assms
proof (induction evs rule: rev_induct)
  case Nil
  then show ?case by (simp add: subscriber_view_def)
next
  case (snoc ev evs)
  then show ?case by (cases ev) (auto simp: subscriber_view_snoc)
qed

lemma send_all_prefix:
  "foldl (send_event accepts) (Some s) evs = Some s' \<Longrightarrow> sn_sent s' = sn_sent s @ evs"
proof (induction evs arbitrary: s)
  case (Cons ev evs)
  have none: "foldl (send_event accepts) None es = None" for es by (induction es) (auto simp: send_event_def)
  show ?case
  proof (cases "accepts s ev")
    case True
    then have "send_event accepts (Some s) ev = Some (s\<lparr>sn_sent := sn_sent s @ [ev]\<rparr>)"
      by (simp add: send_event_def try_send_def)
    then show ?thesis using Cons.IH Cons.prems by simp
  next
    case False
    then have "send_event accepts (Some s) ev = None" by (simp add: send_event_def try_send_def)
    then show ?thesis using Cons.prems none by simp
  qed
qed simp

lemma subscribe_cases:
  assumes ok: "provider_ok p"
  shows "if sp_chain_tip p = tip
    then (\<exists>p' sub. subscribe accepts p tip = Ok p' sub \<and> provider_ok p' \<and> sp_subscription p' = sub
        \<and> sp_inflight_txs p' = sp_inflight_txs p \<and> sp_chain_tip p' = sp_chain_tip p
        \<and> (\<forall>s. sub = Some s \<longrightarrow> sn_sent s = events_iter (sp_inflight_txs p)))
    else subscribe accepts p tip = Err p (sp_chain_tip p)"
proof (cases "sp_chain_tip p = tip")
  case True
  have eok: "events_ok (sp_inflight_txs p)" using ok by (simp add: provider_ok_def)
  define c :: sender where "c = \<lparr>sn_capacity = max (events_len (sp_inflight_txs p) * 2) 1024, sn_sent = []\<rparr>"
  define sub where "sub = foldl (send_event accepts) (Some c) (events_iter (sp_inflight_txs p))"
  have sent: "sn_sent s = events_iter (sp_inflight_txs p)" if "sub = Some s" for s
    using send_all_prefix[of accepts c "events_iter (sp_inflight_txs p)" s] that by (simp add: sub_def c_def)
  have "None \<notin> event_tx ` set (events_iter (sp_inflight_txs p))" using eok by (simp add: events_ok_def)
  then have "provider_ok (p\<lparr>sp_subscription := sub\<rparr>)"
    using eok sent replay_view[of "events_iter (sp_inflight_txs p)"]
    by (auto simp: provider_ok_def tracked_ids_def split: option.splits)
  moreover have "subscribe accepts p tip = Ok (p\<lparr>sp_subscription := sub\<rparr>) sub"
    using True by (simp add: subscribe_def Let_def sub_def c_def)
  ultimately show ?thesis using True sent by auto
qed (simp add: subscribe_def)

section \<open>Properties\<close>

text \<open>
  C35. The event stream stays in step with the mempool: as long as a subscription is not cancelled,
  the transactions a subscriber considers inflight from its events alone are exactly the tracked ones,
  in the order they were added. Adding an untracked transaction, committing a block or reverting
  tracked transactions keeps this, whatever the channel accepts, and does not panic.
\<close>

theorem subscriber_in_step:
  assumes ok: "provider_ok p"
  shows "(tx_id tx \<notin> tracked_txs p \<and> next_index (sp_inflight_txs p) < 2 ^ 64 \<longrightarrow>
      (\<exists>p'. transaction_added accepts p tx = (Ok p' () :: (subscription_provider, 'e, unit) outcome)
        \<and> provider_ok p' \<and> tracked_ids p' = tracked_ids p @ [tx_id tx]))
    \<and> (distinct txs \<and> set txs \<subseteq> tracked_txs p \<longrightarrow>
      (\<exists>p'. block_committed accepts p header txs = (Ok p' () :: (subscription_provider, 'e, unit) outcome)
        \<and> provider_ok p' \<and> tracked_ids p' = filter (\<lambda>t. t \<notin> set txs) (tracked_ids p)
        \<and> sp_chain_tip p' = bh_block_num header)
      \<and> (\<exists>p'. txs_reverted accepts p (set txs) = (Ok p' () :: (subscription_provider, 'e, unit) outcome)
        \<and> provider_ok p' \<and> tracked_ids p' = filter (\<lambda>t. t \<notin> set txs) (tracked_ids p)))"
proof (intro conjI impI)
  assume "tx_id tx \<notin> tracked_txs p \<and> next_index (sp_inflight_txs p) < 2 ^ 64"
  then show "\<exists>p'. transaction_added accepts p tx = (Ok p' () :: (subscription_provider, 'e, unit) outcome)
      \<and> provider_ok p' \<and> tracked_ids p' = tracked_ids p @ [tx_id tx]"
    using transaction_added_Ok[OF ok, where ?'e = 'e] by blast
next
  assume txs: "distinct txs \<and> set txs \<subseteq> tracked_txs p"
  then show "\<exists>p'. block_committed accepts p header txs = (Ok p' () :: (subscription_provider, 'e, unit) outcome)
        \<and> provider_ok p' \<and> tracked_ids p' = filter (\<lambda>t. t \<notin> set txs) (tracked_ids p)
        \<and> sp_chain_tip p' = bh_block_num header"
    using block_committed_Ok[OF ok, where ?'e = 'e] by blast
  show "\<exists>p'. txs_reverted accepts p (set txs) = (Ok p' () :: (subscription_provider, 'e, unit) outcome)
        \<and> provider_ok p' \<and> tracked_ids p' = filter (\<lambda>t. t \<notin> set txs) (tracked_ids p)"
    using txs_reverted_Ok[OF ok List.finite_set, where ?'e = 'e] txs by blast
qed

theorem subscriber_in_step_witness:
  "\<exists>p'. transaction_added (\<lambda>s ev. True) (provider_new 5) sample_first
     = (Ok p' () :: (subscription_provider, unit, unit) outcome) \<and> provider_ok p' \<and> tracked_ids p' = [1]"
proof -
  have i: "tx_id sample_first = 1" by (simp add: sample_first_def)
  have "tx_id sample_first \<notin> tracked_txs (provider_new 5)" using provider_new_ok(2) by simp
  moreover have "next_index (sp_inflight_txs (provider_new 5)) < 2 ^ 64"
    by (simp add: provider_new_def next_index_def events_default_def)
  ultimately obtain p' where "transaction_added (\<lambda>s ev. True) (provider_new 5) sample_first
      = (Ok p' () :: (subscription_provider, unit, unit) outcome)" "provider_ok p'"
      "tracked_ids p' = tracked_ids (provider_new 5) @ [tx_id sample_first]"
    using subscriber_in_step[OF provider_new_ok(1)[of 5], where tx = sample_first and accepts = "\<lambda>s ev. True" and ?'e = unit] by blast
  then show ?thesis unfolding i by (auto simp: tracked_ids_def provider_new_def events_default_def events_iter_def)
qed

text \<open>
  A new subscription is sent the events of all inflight transactions, in the order they were
  added, and nothing else: the channel's capacity suffices for them, given that it accepts events as
  long as its buffer has room. A subscriber at another chain tip is refused with the provider's tip,
  and nothing changes.
\<close>

theorem subscribe_replays:
  assumes ok: "provider_ok p" and room: "\<And>s ev. length (sn_sent s) < sn_capacity s \<Longrightarrow> accepts s ev"
  shows "if sp_chain_tip p = tip
    then \<exists>p' s. subscribe accepts p tip = Ok p' (Some s) \<and> sp_subscription p' = Some s
        \<and> sn_sent s = events_iter (sp_inflight_txs p) \<and> length (sn_sent s) < sn_capacity s
        \<and> subscriber_view (sn_sent s) = tracked_ids p \<and> provider_ok p'
    else subscribe accepts p tip = Err p (sp_chain_tip p)"
proof (cases "sp_chain_tip p = tip")
  case True
  let ?evs = "events_iter (sp_inflight_txs p)"
  define c :: sender where "c = \<lparr>sn_capacity = max (events_len (sp_inflight_txs p) * 2) 1024, sn_sent = []\<rparr>"
  have len: "length ?evs = events_len (sp_inflight_txs p)" by (simp add: events_iter_def events_len_def)
  have sub: "foldl (send_event accepts) (Some c) ?evs = Some (c\<lparr>sn_sent := ?evs\<rparr>)"
    using replay_accepted[of accepts c ?evs, OF room] len by (simp add: c_def)
  have run: "subscribe accepts p tip = Ok (p\<lparr>sp_subscription := Some (c\<lparr>sn_sent := ?evs\<rparr>)\<rparr>) (Some (c\<lparr>sn_sent := ?evs\<rparr>))"
    using True sub by (simp add: subscribe_def Let_def c_def)
  have ok': "provider_ok (p\<lparr>sp_subscription := Some (c\<lparr>sn_sent := ?evs\<rparr>)\<rparr>)"
    using subscribe_cases[OF ok, of tip accepts] True run by auto
  then have "subscriber_view ?evs = tracked_ids p" by (simp add: provider_ok_def tracked_ids_def)
  moreover have "length ?evs < sn_capacity c" using len by (simp add: c_def)
  ultimately show ?thesis using True run ok' by auto
qed (simp add: subscribe_def)

theorem subscribe_replays_witness:
  "\<exists>p' s. subscribe (\<lambda>s ev. length (sn_sent s) < sn_capacity s) (provider_new 5) 5 = Ok p' (Some s) \<and> sn_sent s = []
     \<and> subscribe (\<lambda>s ev. length (sn_sent s) < sn_capacity s) (provider_new 5) 4 = Err (provider_new 5) 5"
  using subscribe_replays[OF provider_new_ok(1)[of 5], of "\<lambda>s ev. length (sn_sent s) < sn_capacity s" 5]
    subscribe_replays[OF provider_new_ok(1)[of 5], of "\<lambda>s ev. length (sn_sent s) < sn_capacity s" 4]
  by (auto simp: provider_new_def events_iter_def events_default_def)

end
