(* ===== verification/Dependency_Graph.thy ===== *)
theory Dependency_Graph
  imports Prelude
begin

text \<open>
  The dependency graph of the mempool (crates/block-producer/src/mempool/graph/mod.rs), over which
  both the transaction graph and the batch graph are built: its state, its errors and every
  operation; the invariant that the operations keep; what each operation computes, in terms of the
  descendants of a set of nodes; and that any sequence of calls starting from the empty graph
  neither panics nor runs forever.
\<close>

section \<open>State and errors\<close>

record ('k, 'v) dep_graph =
  pending :: "'k set"
  vertices :: "'k \<rightharpoonup> 'v"
  parents :: "'k \<rightharpoonup> 'k set"
  children :: "'k \<rightharpoonup> 'k set"
  roots :: "'k set"
  processed :: "'k set"

datatype 'k graph_error =
    DuplicateKey 'k
  | MissingParents "'k set"
  | UnknownNodes "'k set"
  | UnprocessedNodes "'k set"
  | DanglingNodes "'k set"
  | InvalidRootNode 'k
  | InvalidPendingNode 'k

definition graph_default :: "('k, 'v) dep_graph" where
  "graph_default = \<lparr>pending = {}, vertices = Map.empty, parents = Map.empty,
     children = Map.empty, roots = {}, processed = {}\<rparr>"

section \<open>Operations\<close>

text \<open>\<open>contains\<close>: pending or with a value.\<close>

definition graph_contains :: "('k, 'v) dep_graph \<Rightarrow> 'k \<Rightarrow> bool" where
  "graph_contains g key = (key \<in> pending g \<or> contains_key (vertices g) key)"

definition add_child :: "'k \<Rightarrow> 'k \<Rightarrow> ('k \<rightharpoonup> 'k set) \<Rightarrow> ('k \<rightharpoonup> 'k set)" where
  "add_child key parent ch = ch(parent \<mapsto> insert key (set_or_default ch parent))"

definition insert_pending ::
  "('k::linorder, 'v) dep_graph \<Rightarrow> 'k \<Rightarrow> 'k set \<Rightarrow> (('k, 'v) dep_graph, 'k graph_error, unit) outcome" where
  "insert_pending g key ps =
     (if graph_contains g key then Err g (DuplicateKey key)
      else let missing_parents = {p \<in> ps. \<not> graph_contains g p} in
        if missing_parents \<noteq> {} then Err g (MissingParents missing_parents)
        else Ok (g\<lparr>children := (fold (add_child key) (sorted_list_of_set ps) (children g))(key \<mapsto> {}),
                   pending := insert key (pending g),
                   parents := (parents g)(key \<mapsto> ps)\<rparr>) ())"

text \<open>
  The two debug assertions of \<open>try_make_root\<close> are panics of the model, so that a proof that the
  model does not panic covers builds with and without them.
\<close>

definition try_make_root ::
  "('k::linorder, 'v) dep_graph \<Rightarrow> 'k \<Rightarrow> (('k, 'v) dep_graph, 'k graph_error, unit) outcome" where
  "try_make_root g key =
     (if key \<in> pending g then Ok g ()
      else if \<not> contains_key (vertices g) key then Panic
      else if key \<in> processed g then Panic
      else if (\<forall>p \<in> set_or_default (parents g) key. p \<in> processed g)
        then Ok (g\<lparr>roots := insert key (roots g)\<rparr>) ()
        else Ok g ())"

fun try_make_roots ::
  "('k::linorder, 'v) dep_graph \<Rightarrow> 'k list \<Rightarrow> (('k, 'v) dep_graph, 'k graph_error, unit) outcome" where
  "try_make_roots g [] = Ok g ()"
| "try_make_roots g (k # ks) = and_then (try_make_root g k) (\<lambda>g' _. try_make_roots g' ks)"

definition promote_pending ::
  "('k::linorder, 'v) dep_graph \<Rightarrow> 'k \<Rightarrow> 'v \<Rightarrow> (('k, 'v) dep_graph, 'k graph_error, unit) outcome" where
  "promote_pending g key v =
     (if key \<notin> pending g then Err g (InvalidPendingNode key)
      else try_make_root (g\<lparr>pending := pending g - {key}, vertices := (vertices g)(key \<mapsto> v)\<rparr>) key)"

text \<open>
  The worklist of \<open>revert_subgraphs\<close>: the processed set, the nodes reverted so far and the nodes
  left to revert, of which the least is taken next.
\<close>

definition revert_step ::
  "('k::linorder, 'v) dep_graph \<Rightarrow> 'k set \<times> 'k set \<times> 'k set \<Rightarrow> 'k set \<times> 'k set \<times> 'k set" where
  "revert_step g = (\<lambda>(pr, reverted, to_revert).
     let key = Min to_revert;
         unprocessed_children =
           {c \<in> set_or_default (children g) key - reverted. contains_key (vertices g) c}
     in (pr - {key}, insert key reverted, (to_revert - {key}) \<union> unprocessed_children))"

definition revert_loop ::
  "('k::linorder, 'v) dep_graph \<Rightarrow> 'k set \<Rightarrow> ('k set \<times> 'k set \<times> 'k set) option" where
  "revert_loop g keys =
     while_option (\<lambda>(pr, reverted, to_revert). to_revert \<noteq> {}) (revert_step g) (processed g, {}, keys)"

definition revert_subgraphs ::
  "('k::linorder, 'v) dep_graph \<Rightarrow> 'k set \<Rightarrow> (('k, 'v) dep_graph, 'k graph_error, unit) outcome" where
  "revert_subgraphs g keys =
     (let missing_nodes = {k \<in> keys. \<not> contains_key (vertices g) k} in
      if missing_nodes \<noteq> {} then Err g (UnknownNodes missing_nodes)
      else let unprocessed = keys - processed g in
      if unprocessed \<noteq> {} then Err g (UnprocessedNodes unprocessed)
      else returned (revert_loop g keys) (\<lambda>(pr, reverted, to_revert).
        try_make_roots (g\<lparr>processed := pr, roots := {}\<rparr>)
          (sorted_list_of_set (roots g) @ sorted_list_of_set keys)))"

definition drop_parent :: "'k \<Rightarrow> 'k \<Rightarrow> ('k \<rightharpoonup> 'k set) \<Rightarrow> ('k \<rightharpoonup> 'k set)" where
  "drop_parent key child ps = ps(child := map_option (\<lambda>s. s - {key}) (ps child))"

text \<open>The body of the loop of \<open>prune_processed\<close>, for one key.\<close>

definition prune_key :: "('k::linorder, 'v) dep_graph \<Rightarrow> 'k \<Rightarrow> ('k, 'v) dep_graph" where
  "prune_key g key =
     g\<lparr>vertices := (vertices g)(key := None),
       processed := processed g - {key},
       children := (children g)(key := None),
       parents := fold (drop_parent key) (sorted_list_of_set (set_or_default (children g) key))
                    ((parents g)(key := None))\<rparr>"

fun prune_keys ::
  "('k::linorder, 'v) dep_graph \<Rightarrow> 'k list \<Rightarrow> 'v list \<Rightarrow> (('k, 'v) dep_graph, 'k graph_error, 'v list) outcome" where
  "prune_keys g [] pruned = Ok g pruned"
| "prune_keys g (k # ks) pruned =
     (case vertices g k of None \<Rightarrow> Panic | Some v \<Rightarrow> prune_keys (prune_key g k) ks (pruned @ [v]))"

definition prune_processed ::
  "('k::linorder, 'v) dep_graph \<Rightarrow> 'k set \<Rightarrow> (('k, 'v) dep_graph, 'k graph_error, 'v list) outcome" where
  "prune_processed g keys =
     (let missing_nodes = {k \<in> keys. \<not> graph_contains g k} in
      if missing_nodes \<noteq> {} then Err g (UnknownNodes missing_nodes)
      else let unprocessed = keys - processed g in
      if unprocessed \<noteq> {} then Err g (UnprocessedNodes unprocessed)
      else let dangling = {p \<in> (\<Union>k\<in>keys. set_or_default (parents g) k). p \<notin> keys} in
      if dangling \<noteq> {} then Err g (DanglingNodes dangling)
      else prune_keys g (sorted_list_of_set keys) [])"

text \<open>One round of \<open>purge_subgraphs\<close>; \<open>visited\<close> stays the initial set of keys, as in the code.\<close>

definition purge_key :: "('k::linorder, 'v) dep_graph \<Rightarrow> 'k \<Rightarrow> ('k, 'v) dep_graph" where
  "purge_key g key =
     g\<lparr>vertices := (vertices g)(key := None),
       pending := pending g - {key},
       processed := processed g - {key},
       roots := roots g - {key},
       parents := (parents g)(key := None),
       children := fold (drop_parent key) (sorted_list_of_set (set_or_default (parents g) key))
                     ((children g)(key := None))\<rparr>"

definition purge_step ::
  "'k set \<Rightarrow> ('k::linorder, 'v) dep_graph \<times> 'k set \<times> 'k set \<Rightarrow> ('k, 'v) dep_graph \<times> 'k set \<times> 'k set" where
  "purge_step visited = (\<lambda>(g, removed, to_remove).
     let key = Min to_remove in
     (purge_key g key, insert key removed,
      (to_remove - {key}) \<union> (set_or_default (children g) key - visited)))"

definition purge_subgraphs ::
  "('k::linorder, 'v) dep_graph \<Rightarrow> 'k set \<Rightarrow> (('k, 'v) dep_graph, 'k graph_error, 'k set) outcome" where
  "purge_subgraphs g keys =
     (let missing_nodes = {k \<in> keys. \<not> graph_contains g k} in
      if missing_nodes \<noteq> {} then Err g (UnknownNodes missing_nodes)
      else returned
        (while_option (\<lambda>(g, removed, to_remove). to_remove \<noteq> {}) (purge_step keys) (g, {}, keys))
        (\<lambda>(g', removed, to_remove). Ok g' removed))"

definition process_root ::
  "('k::linorder, 'v) dep_graph \<Rightarrow> 'k \<Rightarrow> (('k, 'v) dep_graph, 'k graph_error, unit) outcome" where
  "process_root g key =
     (if key \<notin> roots g then Err g (InvalidRootNode key)
      else try_make_roots (g\<lparr>roots := roots g - {key}, processed := insert key (processed g)\<rparr>)
             (sorted_list_of_set (set_or_default (children g) key)))"

definition graph_get :: "('k, 'v) dep_graph \<Rightarrow> 'k \<Rightarrow> 'v option" where
  "graph_get g key = vertices g key"

definition graph_parents :: "('k, 'v) dep_graph \<Rightarrow> 'k \<Rightarrow> 'k set option" where
  "graph_parents g key = parents g key"

definition num_pending :: "('k, 'v) dep_graph \<Rightarrow> nat" where
  "num_pending g = card (pending g)"

definition num_processed :: "('k, 'v) dep_graph \<Rightarrow> nat" where
  "num_processed g = card (processed g)"

definition graph_len :: "('k, 'v) dep_graph \<Rightarrow> nat" where
  "graph_len g = card (dom (vertices g))"

definition num_roots :: "('k, 'v) dep_graph \<Rightarrow> nat" where
  "num_roots g = card (roots g)"

section \<open>Nodes, edges and the invariant\<close>

definition nodes :: "('k, 'v) dep_graph \<Rightarrow> 'k set" where
  "nodes g = pending g \<union> dom (vertices g)"

abbreviation pars :: "('k, 'v) dep_graph \<Rightarrow> 'k \<Rightarrow> 'k set" where
  "pars g \<equiv> set_or_default (parents g)"

abbreviation chs :: "('k, 'v) dep_graph \<Rightarrow> 'k \<Rightarrow> 'k set" where
  "chs g \<equiv> set_or_default (children g)"

definition edges :: "('k, 'v) dep_graph \<Rightarrow> ('k \<times> 'k) set" where
  "edges g = {(p, c). p \<in> pars g c}"

text \<open>The descendants of a set of nodes, itself included.\<close>

definition descendants :: "('k, 'v) dep_graph \<Rightarrow> 'k set \<Rightarrow> 'k set" where
  "descendants g keys = (edges g)\<^sup>* `` keys"

text \<open>What the comment on \<open>roots\<close> promises: unprocessed, with every parent processed.\<close>

definition ready :: "('k, 'v) dep_graph \<Rightarrow> 'k set" where
  "ready g = {k \<in> dom (vertices g). k \<notin> processed g \<and> pars g k \<subseteq> processed g}"

text \<open>The shape of the graph: who is in it and how parents and children agree.\<close>

definition wf_shape :: "('k, 'v) dep_graph \<Rightarrow> bool" where
  "wf_shape g \<longleftrightarrow> finite (nodes g) \<and> pending g \<inter> dom (vertices g) = {}
     \<and> dom (parents g) = nodes g \<and> dom (children g) = nodes g
     \<and> (\<forall>p c. c \<in> chs g p \<longleftrightarrow> p \<in> pars g c)
     \<and> (\<forall>c. pars g c \<subseteq> nodes g) \<and> acyclic (edges g)"

definition wf_graph :: "('k, 'v) dep_graph \<Rightarrow> bool" where
  "wf_graph g \<longleftrightarrow> wf_shape g \<and> processed g \<subseteq> dom (vertices g)
     \<and> (\<forall>k \<in> processed g. pars g k \<subseteq> processed g) \<and> roots g = ready g"

section \<open>Graphs without some of their nodes\<close>

text \<open>
  The graph without the nodes \<open>R\<close> and the edges that touch them, which is what pruning and
  purging are meant to leave; and the two graphs in the middle of their loops, where the edges
  have been taken out of the children only (purging) or of the parents only (pruning).
\<close>

definition without_edges :: "'k set \<Rightarrow> ('k \<rightharpoonup> 'k set) \<Rightarrow> ('k \<rightharpoonup> 'k set)" where
  "without_edges R m = (\<lambda>x. if x \<in> R then None else map_option (\<lambda>s. s - R) (m x))"

definition delete_nodes :: "('k, 'v) dep_graph \<Rightarrow> 'k set \<Rightarrow> ('k, 'v) dep_graph" where
  "delete_nodes g R = \<lparr>pending = pending g - R, vertices = vertices g |` (- R),
     parents = without_edges R (parents g), children = without_edges R (children g),
     roots = roots g - R, processed = processed g - R\<rparr>"

definition purging :: "('k, 'v) dep_graph \<Rightarrow> 'k set \<Rightarrow> ('k, 'v) dep_graph" where
  "purging g R = \<lparr>pending = pending g - R, vertices = vertices g |` (- R),
     parents = parents g |` (- R), children = without_edges R (children g),
     roots = roots g - R, processed = processed g - R\<rparr>"

definition pruning :: "('k, 'v) dep_graph \<Rightarrow> 'k set \<Rightarrow> ('k, 'v) dep_graph" where
  "pruning g R = \<lparr>pending = pending g, vertices = vertices g |` (- R),
     parents = without_edges R (parents g), children = children g |` (- R),
     roots = roots g, processed = processed g - R\<rparr>"

text \<open>The graph in which the nodes \<open>R\<close> wait to be processed again.\<close>

definition requeued :: "('k, 'v) dep_graph \<Rightarrow> 'k set \<Rightarrow> ('k, 'v) dep_graph" where
  "requeued g R = (let h = g\<lparr>processed := processed g - R\<rparr> in h\<lparr>roots := ready h\<rparr>)"

section \<open>Sequences of calls\<close>

text \<open>The mutating methods as data, so that a theorem can range over all of them.\<close>

datatype ('k, 'v) graph_op =
    InsertPending 'k "'k set"
  | PromotePending 'k 'v
  | RevertSubgraphs "'k set"
  | PruneProcessed "'k set"
  | PurgeSubgraphs "'k set"
  | ProcessRoot 'k

fun run_graph_op ::
  "('k::linorder, 'v) dep_graph \<Rightarrow> ('k, 'v) graph_op \<Rightarrow> (('k, 'v) dep_graph, 'k graph_error, unit) outcome" where
  "run_graph_op g (InsertPending key ps) = insert_pending g key ps"
| "run_graph_op g (PromotePending key v) = promote_pending g key v"
| "run_graph_op g (RevertSubgraphs keys) = revert_subgraphs g keys"
| "run_graph_op g (PruneProcessed keys) = map_outcome id id (\<lambda>_. ()) (prune_processed g keys)"
| "run_graph_op g (PurgeSubgraphs keys) = map_outcome id id (\<lambda>_. ()) (purge_subgraphs g keys)"
| "run_graph_op g (ProcessRoot key) = process_root g key"

text \<open>The graphs that calls can reach from the empty graph; a caller may ignore an error.\<close>

inductive graph_reachable :: "('k::linorder, 'v) dep_graph \<Rightarrow> bool" where
  start: "graph_reachable graph_default"
| call: "graph_reachable g \<Longrightarrow> run_graph_op g op = Ok g' () \<or> run_graph_op g op = Err g' e
    \<Longrightarrow> graph_reachable g'"

section \<open>Lemmas on the shape\<close>

lemma edges_iff [simp]: "(p, c) \<in> edges g \<longleftrightarrow> p \<in> pars g c"
  by (simp add: edges_def)

lemma graph_contains_iff [simp]: "graph_contains g k \<longleftrightarrow> k \<in> nodes g"
  by (simp add: graph_contains_def nodes_def)

lemma subset_descendants: "keys \<subseteq> descendants g keys"
  by (auto simp: descendants_def)

lemma descendants_step: "p \<in> descendants g keys \<Longrightarrow> p \<in> pars g c \<Longrightarrow> c \<in> descendants g keys"
  unfolding descendants_def by (metis Image_iff edges_iff rtrancl.rtrancl_into_rtrancl)

lemma descendants_cases:
  assumes "c \<in> descendants g keys"
  obtains "c \<in> keys" | p where "p \<in> descendants g keys" "p \<in> pars g c"
proof -
  from assms obtain x where "x \<in> keys" "(x, c) \<in> (edges g)\<^sup>*" by (auto simp: descendants_def)
  from this(2) show ?thesis
  proof (cases rule: rtranclE)
    case base
    with \<open>x \<in> keys\<close> that(1) show ?thesis by simp
  next
    case (step y)
    with \<open>x \<in> keys\<close> have "y \<in> descendants g keys" by (auto simp: descendants_def)
    with step(2) that(2) show ?thesis by simp
  qed
qed

lemma descendants_closed:
  assumes "keys \<subseteq> S" and "\<And>p c. p \<in> S \<Longrightarrow> p \<in> pars g c \<Longrightarrow> c \<in> S"
  shows "descendants g keys \<subseteq> S"
  unfolding descendants_def by (rule rtrancl_Image_closed) (use assms in auto)

lemma wf_shapeD:
  assumes "wf_shape g"
  shows "finite (nodes g)" "pending g \<inter> dom (vertices g) = {}"
    "dom (parents g) = nodes g" "dom (children g) = nodes g"
    "c \<in> chs g p \<longleftrightarrow> p \<in> pars g c" "pars g c \<subseteq> nodes g" "acyclic (edges g)"
  using assms unfolding wf_shape_def by blast+

lemma wf_graphD:
  assumes "wf_graph g"
  shows "wf_shape g" "processed g \<subseteq> dom (vertices g)"
    "k \<in> processed g \<Longrightarrow> pars g k \<subseteq> processed g" "roots g = ready g"
  using assms unfolding wf_graph_def by blast+

lemma wf_pars_node: "wf_shape g \<Longrightarrow> p \<in> pars g c \<Longrightarrow> c \<in> nodes g \<and> p \<in> nodes g"
  using wf_shapeD(3,6) set_or_default_memD by fastforce

lemma wf_chs_nodes: "wf_shape g \<Longrightarrow> chs g p \<subseteq> nodes g"
  using wf_pars_node wf_shapeD(5) by fastforce

lemma wf_finite [simp]:
  assumes "wf_shape g"
  shows "finite (pars g k)" "finite (chs g k)" "finite (pending g)" "finite (dom (vertices g))"
  using finite_subset[OF wf_shapeD(6)[OF assms] wf_shapeD(1)[OF assms]]
    finite_subset[OF wf_chs_nodes[OF assms] wf_shapeD(1)[OF assms]] wf_shapeD(1)[OF assms]
  by (simp_all add: nodes_def)

lemma wf_no_self: "wf_shape g \<Longrightarrow> k \<notin> pars g k"
  using wf_shapeD(7) by (fastforce simp: acyclic_def)

lemma wf_descendants_nodes: "wf_shape g \<Longrightarrow> keys \<subseteq> nodes g \<Longrightarrow> descendants g keys \<subseteq> nodes g"
  by (rule descendants_closed) (auto dest: wf_pars_node)

lemma wf_chs_descendants:
  assumes sh: "wf_shape g" and k: "k \<in> descendants g keys"
  shows "chs g k \<subseteq> descendants g keys" "k \<notin> chs g k"
  using descendants_step[OF k] wf_shapeD(5)[OF sh, of _ k] wf_no_self[OF sh] by auto

lemma wf_graph_ready_sets:
  assumes "wf_graph g"
  shows "finite (processed g)" "finite (roots g)" "roots g \<subseteq> dom (vertices g)"
    "roots g \<inter> processed g = {}"
  using wf_graphD(2,4)[OF assms] wf_finite(4)[OF wf_graphD(1)[OF assms]]
  by (auto simp: ready_def intro: finite_subset)

text \<open>The shape does not mention the processed set or the roots.\<close>

lemma wf_shape_cong:
  assumes "pending g' = pending g" "vertices g' = vertices g" "parents g' = parents g" "children g' = children g"
  shows "nodes g' = nodes g" "edges g' = edges g" "wf_shape g' = wf_shape g"
  by (simp_all only: assms wf_shape_def nodes_def edges_def)

lemma shape_unaffected [simp]:
  "nodes (g\<lparr>processed := P, roots := R\<rparr>) = nodes g"
  "edges (g\<lparr>processed := P, roots := R\<rparr>) = edges g"
  "wf_shape (g\<lparr>processed := P, roots := R\<rparr>) = wf_shape g"
  by (rule wf_shape_cong; simp)+

lemma wf_graph_default: "wf_graph graph_default"
  by (auto simp: wf_graph_def wf_shape_def graph_default_def nodes_def ready_def edges_def
      set_or_default_def acyclic_def)

section \<open>Folds over neighbours\<close>

lemma fold_add_child:
  "set_or_default (fold (add_child key) xs ch) p =
     (if p \<in> set xs then insert key (set_or_default ch p) else set_or_default ch p)"
  "dom (fold (add_child key) xs ch) = dom ch \<union> set xs"
  by (induction xs arbitrary: ch) (auto simp: add_child_def set_or_default_upd)

lemma fold_drop_parent:
  "fold (drop_parent key) xs m = (\<lambda>x. if x \<in> set xs then map_option (\<lambda>s. s - {key}) (m x) else m x)"
proof (induction xs arbitrary: m)
  case Nil
  then show ?case by simp
next
  case (Cons y xs)
  have "map_option (\<lambda>s. s - {key}) (map_option (\<lambda>s. s - {key}) z) = map_option (\<lambda>s. s - {key}) z"
    for z by (cases z) auto
  then show ?case unfolding fold_simps Cons by (simp add: drop_parent_def fun_eq_iff)
qed

lemma try_make_roots_Ok:
  assumes "\<forall>k \<in> set ks. k \<in> pending g \<or> k \<in> dom (vertices g) \<and> k \<notin> processed g"
  shows "try_make_roots g ks =
    Ok (g\<lparr>roots := roots g \<union> {k \<in> set ks. k \<notin> pending g \<and> pars g k \<subseteq> processed g}\<rparr>) ()"
  using assms
proof (induction ks arbitrary: g)
  case Nil
  then show ?case by simp
next
  case (Cons k ks)
  then show ?case
    by (auto simp: try_make_root_def intro!: arg_cong[where f = "\<lambda>r. g\<lparr>roots := r\<rparr>"])
qed

section \<open>Insertion, promotion and processing\<close>

lemma insert_pending_Ok:
  "insert_pending g key ps = Ok g' () \<longleftrightarrow> key \<notin> nodes g \<and> ps \<subseteq> nodes g \<and>
     g' = g\<lparr>children := (fold (add_child key) (sorted_list_of_set ps) (children g))(key \<mapsto> {}),
            pending := insert key (pending g), parents := (parents g)(key \<mapsto> ps)\<rparr>"
  by (auto simp: insert_pending_def)

lemma insert_pending_shape:
  assumes "wf_shape g" and "insert_pending g key ps = Ok g' ()"
  shows "nodes g' = insert key (nodes g)" "pars g' = (pars g)(key := ps)"
    "chs g' = (\<lambda>p. if p \<in> ps then insert key (chs g p) else chs g p)"
    "dom (parents g') = insert key (nodes g)" "dom (children g') = insert key (nodes g)"
    "vertices g' = vertices g" "processed g' = processed g" "roots g' = roots g"
    "pending g' = insert key (pending g)" "edges g' = edges g \<union> ps \<times> {key}"
proof -
  from assms(2) have new: "key \<notin> nodes g" "ps \<subseteq> nodes g"
    and g': "g' = g\<lparr>children := (fold (add_child key) (sorted_list_of_set ps) (children g))(key \<mapsto> {}),
       pending := insert key (pending g), parents := (parents g)(key \<mapsto> ps)\<rparr>"
    by (simp_all add: insert_pending_Ok)
  have fin: "finite ps" using new(2) wf_shapeD(1)[OF assms(1)] by (rule finite_subset)
  have none: "pars g key = {}" "chs g key = {}"
    using new(1) wf_shapeD(3,4)[OF assms(1)] set_or_default_memD by fastforce+
  show "nodes g' = insert key (nodes g)" by (auto simp: g' nodes_def)
  show P: "pars g' = (pars g)(key := ps)" by (rule ext) (simp add: g' set_or_default_upd)
  show "chs g' = (\<lambda>p. if p \<in> ps then insert key (chs g p) else chs g p)"
    using new fin none by (intro ext) (auto simp: g' set_or_default_upd fold_add_child)
  show "dom (parents g') = insert key (nodes g)" "dom (children g') = insert key (nodes g)"
    using wf_shapeD(3,4)[OF assms(1)] new fin by (auto simp: g' fold_add_child)
  show "edges g' = edges g \<union> ps \<times> {key}" using P none by (auto simp: edges_def split: if_splits)
  show "vertices g' = vertices g" "processed g' = processed g" "roots g' = roots g"
    "pending g' = insert key (pending g)" by (simp_all add: g')
qed

lemma insert_pending_wf:
  assumes wf: "wf_graph g" and ins: "insert_pending g key ps = Ok g' ()"
  shows "wf_graph g'"
proof -
  note sh = wf_graphD(1)[OF wf]
  note g' = insert_pending_shape[OF sh ins]
  have new: "key \<notin> nodes g" "ps \<subseteq> nodes g" using ins by (simp_all add: insert_pending_Ok)
  have "acyclic (edges g')"
    unfolding g'(10)
    by (rule acyclic_add_sink) (use new wf_shapeD(7)[OF sh] wf_pars_node[OF sh] in auto)
  moreover have "c \<in> chs g' p \<longleftrightarrow> p \<in> pars g' c" for p c
    using wf_shapeD(5)[OF sh] new(1) wf_chs_nodes[OF sh] wf_pars_node[OF sh] by (auto simp: g'(2,3))
  moreover have "pars g' c \<subseteq> nodes g'" for c
    using new wf_shapeD(6)[OF sh] by (auto simp: g'(1,2))
  moreover have "pending g' \<inter> dom (vertices g') = {}"
    using wf_shapeD(2)[OF sh] new by (auto simp: g'(6,9) nodes_def)
  ultimately have "wf_shape g'" using g'(1,4,5) wf_shapeD(1)[OF sh] by (simp add: wf_shape_def)
  moreover have "key \<notin> dom (vertices g)" using new by (simp add: nodes_def)
  ultimately show ?thesis
    using wf_graphD[OF wf] unfolding wf_graph_def g'(6-8)
    by (auto simp: ready_def g'(2,6,7))
qed

lemma promote_pending_Ok:
  assumes wf: "wf_graph g" and key: "key \<in> pending g"
  shows "promote_pending g key v =
    Ok (g\<lparr>pending := pending g - {key}, vertices := (vertices g)(key \<mapsto> v),
          roots := roots g \<union> (if pars g key \<subseteq> processed g then {key} else {})\<rparr>) ()"
proof -
  have "key \<notin> processed g" using wf_shapeD(2) wf_graphD(1,2)[OF wf] key by blast
  then show ?thesis using key by (auto simp: promote_pending_def try_make_root_def)
qed

lemma promote_pending_wf:
  assumes wf: "wf_graph g" and pr: "promote_pending g key v = Ok g' ()"
  shows "wf_graph g'" "nodes g' = nodes g" "key \<in> pending g"
proof -
  note sh = wf_graphD(1)[OF wf]
  show key: "key \<in> pending g" using pr by (auto simp: promote_pending_def split: if_splits)
  with pr promote_pending_Ok[OF wf key, of v]
  have g': "g' = g\<lparr>pending := pending g - {key}, vertices := (vertices g)(key \<mapsto> v),
          roots := roots g \<union> (if pars g key \<subseteq> processed g then {key} else {})\<rparr>" by simp
  show nodes: "nodes g' = nodes g" using key by (auto simp: g' nodes_def)
  have "key \<notin> processed g" using wf_shapeD(2)[OF sh] wf_graphD(2)[OF wf] key by blast
  then have "roots g' = ready g'" using wf_graphD(4)[OF wf] by (auto simp: g' ready_def)
  moreover have "wf_shape g'"
    using sh nodes unfolding wf_shape_def edges_def by (auto simp: g')
  ultimately show "wf_graph g'" using wf_graphD(2,3)[OF wf] by (auto simp: wf_graph_def g')
qed

lemma process_root_Ok:
  assumes wf: "wf_graph g" and key: "key \<in> roots g"
  shows "process_root g key =
    Ok (g\<lparr>processed := insert key (processed g),
          roots := (roots g - {key}) \<union>
            {c \<in> chs g key. c \<notin> pending g \<and> pars g c \<subseteq> insert key (processed g)}\<rparr>) ()"
proof -
  note sh = wf_graphD(1)[OF wf]
  have "\<forall>c \<in> chs g key. c \<in> pending g \<or> c \<in> dom (vertices g) \<and> c \<noteq> key \<and> c \<notin> processed g"
  proof
    fix c assume c: "c \<in> chs g key"
    then have par: "key \<in> pars g c" using wf_shapeD(5)[OF sh] by simp
    have "key \<notin> processed g" using key wf_graph_ready_sets(4)[OF wf] by blast
    with par wf_graphD(3)[OF wf] have "c \<notin> processed g" by blast
    moreover have "c \<noteq> key" using par wf_no_self[OF sh] by blast
    moreover have "c \<in> nodes g" using c wf_chs_nodes[OF sh] by blast
    ultimately show "c \<in> pending g \<or> c \<in> dom (vertices g) \<and> c \<noteq> key \<and> c \<notin> processed g"
      by (auto simp: nodes_def)
  qed
  then show ?thesis using key sh by (simp add: process_root_def try_make_roots_Ok)
qed

lemma process_root_wf:
  assumes wf: "wf_graph g" and pr: "process_root g key = Ok g' ()"
  shows "wf_graph g'" "nodes g' = nodes g" "key \<in> roots g" "processed g' = insert key (processed g)"
    "vertices g' = vertices g" "parents g' = parents g" "pending g' = pending g" "children g' = children g"
proof -
  note sh = wf_graphD(1)[OF wf]
  show key: "key \<in> roots g" using pr by (auto simp: process_root_def split: if_splits)
  with pr process_root_Ok[OF wf key]
  have g': "g' = g\<lparr>processed := insert key (processed g),
          roots := (roots g - {key}) \<union>
            {c \<in> chs g key. c \<notin> pending g \<and> pars g c \<subseteq> insert key (processed g)}\<rparr>" by simp
  show "nodes g' = nodes g" "processed g' = insert key (processed g)" "vertices g' = vertices g"
    "parents g' = parents g" "pending g' = pending g" "children g' = children g"
    by (simp_all add: g' nodes_def)
  have kr: "key \<in> dom (vertices g)" "pars g key \<subseteq> processed g" "key \<notin> processed g"
    using key wf_graphD(4)[OF wf] by (auto simp: ready_def)
  have "roots g' = ready g'"
  proof (rule set_eqI)
    fix k
    have "k \<in> chs g key \<longleftrightarrow> key \<in> pars g k" using wf_shapeD(5)[OF sh] .
    moreover have "k \<in> chs g key \<Longrightarrow> k \<notin> pending g \<Longrightarrow> k \<in> dom (vertices g)"
      using wf_chs_nodes[OF sh] by (auto simp: nodes_def)
    moreover have "k \<in> chs g key \<Longrightarrow> k \<notin> processed g" "k \<in> chs g key \<Longrightarrow> k \<noteq> key"
      using calculation(1) wf_graphD(3)[OF wf] kr(3) wf_no_self[OF sh] by blast+
    moreover have "k \<in> dom (vertices g) \<Longrightarrow> k \<notin> pending g" using wf_shapeD(2)[OF sh] by blast
    moreover have "pars g k \<subseteq> insert key (processed g) \<longleftrightarrow> pars g k \<subseteq> processed g"
      if "key \<notin> pars g k" using that by blast
    ultimately show "k \<in> roots g' \<longleftrightarrow> k \<in> ready g'"
      unfolding g' wf_graphD(4)[OF wf] ready_def by (cases "k \<in> chs g key") auto
  qed
  moreover have "wf_shape g'" using sh by (simp add: g')
  moreover have "processed g' \<subseteq> dom (vertices g')" using wf_graphD(2)[OF wf] kr(1) by (simp add: g')
  moreover have "\<forall>k \<in> processed g'. pars g' k \<subseteq> processed g'"
    using wf_graphD(3)[OF wf] kr(2) by (simp add: g') blast
  ultimately show "wf_graph g'" by (simp add: wf_graph_def)
qed

section \<open>Deleting nodes\<close>

text \<open>Removing the edges on one side only, as the loops of the code do while they run.\<close>

lemma drop_keys_comp: "map_option (\<lambda>s. s - {k}) (map_option (\<lambda>s. s - R) z) = map_option (\<lambda>s. s - insert k R) z"
  by (cases z) auto

lemma without_edges_apply:
  "set_or_default (without_edges R m) x = (if x \<in> R then {} else set_or_default m x - R)"
  "dom (without_edges R m) = dom m - R"
  by (auto simp: without_edges_def set_or_default_def split: option.splits if_splits)

lemma without_edges_triv:
  assumes "\<And>x. x \<notin> R \<Longrightarrow> set_or_default m x \<inter> R = {}"
  shows "without_edges R m = m |` (- R)"
proof
  fix x
  show "without_edges R m x = (m |` (- R)) x"
    using assms[of x] by (cases "m x") (auto simp: without_edges_def restrict_map_def)
qed

lemma minus_insert: "A - R - {k} = A - insert k R" "- R - {k} = - insert k R"
  by blast+

lemma set_or_default_restrict [simp]:
  "set_or_default (m |` A) k = (if k \<in> A then set_or_default m k else {})"
  by (simp add: set_or_default_def restrict_map_def)

lemma without_edges_fold:
  assumes "k \<notin> R" and "finite A" and "\<And>x. x \<notin> A \<Longrightarrow> k \<notin> set_or_default m x"
  shows "fold (drop_parent k) (sorted_list_of_set A) ((without_edges R m)(k := None)) = without_edges (insert k R) m"
proof
  fix x
  have "k \<notin> s" if "x \<notin> A" "m x = Some s" for s using assms(3)[OF that(1)] that(2) by simp
  then show "fold (drop_parent k) (sorted_list_of_set A) ((without_edges R m)(k := None)) x
      = without_edges (insert k R) m x"
    using assms(1,2) by (cases "m x") (auto simp: fold_drop_parent without_edges_def drop_keys_comp)
qed

text \<open>Deleting a set closed under children, or a processed set closed under parents, keeps the invariant.\<close>

lemma delete_nodes_sel [simp]:
  "pending (delete_nodes g R) = pending g - R" "vertices (delete_nodes g R) = vertices g |` (- R)"
  "processed (delete_nodes g R) = processed g - R" "roots (delete_nodes g R) = roots g - R"
  "parents (delete_nodes g R) = without_edges R (parents g)"
  "children (delete_nodes g R) = without_edges R (children g)"
  by (simp_all add: delete_nodes_def)

lemma nodes_delete_nodes [simp]: "nodes (delete_nodes g R) = nodes g - R"
  by (auto simp: nodes_def)

lemma pars_delete_nodes: "pars (delete_nodes g R) x = (if x \<in> R then {} else pars g x - R)"
  by (simp add: without_edges_apply)

lemma delete_nodes_shape:
  assumes sh: "wf_shape g"
  shows "wf_shape (delete_nodes g R)"
proof -
  let ?h = "delete_nodes g R"
  have "edges ?h \<subseteq> edges g" by (auto simp: edges_def without_edges_apply split: if_splits)
  then have "acyclic (edges ?h)" using wf_shapeD(7)[OF sh] by (rule acyclic_subset[rotated])
  moreover have "c \<in> chs ?h p \<longleftrightarrow> p \<in> pars ?h c" for p c
    using wf_shapeD(5)[OF sh, of c p] by (auto simp: without_edges_apply)
  moreover have "pars ?h c \<subseteq> nodes ?h" for c
    using wf_shapeD(6)[OF sh, of c] by (auto simp: without_edges_apply)
  moreover have "pending ?h \<inter> dom (vertices ?h) = {}" using wf_shapeD(2)[OF sh] by auto
  ultimately show ?thesis using wf_shapeD(1,3,4)[OF sh] unfolding wf_shape_def
    by (simp add: without_edges_apply(2))
qed

lemma delete_descendants_wf:
  assumes wf: "wf_graph g" and closed: "\<And>p c. p \<in> R \<Longrightarrow> p \<in> pars g c \<Longrightarrow> c \<in> R"
  shows "wf_graph (delete_nodes g R)"
proof -
  have pars: "pars g c - R = pars g c" if "c \<notin> R" for c using that closed by blast
  have "roots g - R = ready (delete_nodes g R)"
    using wf_graphD(4)[OF wf] pars by (auto simp: ready_def without_edges_apply)
  moreover have "\<forall>k \<in> processed g - R. pars g k - R \<subseteq> processed g - R"
    using wf_graphD(3)[OF wf] by blast
  ultimately show ?thesis
    using wf_graphD(2)[OF wf] delete_nodes_shape[OF wf_graphD(1)[OF wf], of R]
    by (auto simp: wf_graph_def without_edges_apply)
qed

lemma delete_processed_wf:
  assumes wf: "wf_graph g" and sub: "R \<subseteq> processed g"
  shows "wf_graph (delete_nodes g R)"
proof -
  have "roots g - R = ready (delete_nodes g R)"
    using wf_graphD(4)[OF wf] sub by (auto simp: ready_def without_edges_apply)
  moreover have "\<forall>k \<in> processed g - R. pars g k - R \<subseteq> processed g - R"
    using wf_graphD(3)[OF wf] by blast
  ultimately show ?thesis
    using wf_graphD(2)[OF wf] delete_nodes_shape[OF wf_graphD(1)[OF wf], of R]
    by (auto simp: wf_graph_def without_edges_apply)
qed

section \<open>Purging\<close>

text \<open>The graph in the middle of a purge: only the children have been told.\<close>

lemma purging_sel [simp]:
  "pending (purging g R) = pending g - R" "vertices (purging g R) = vertices g |` (- R)"
  "processed (purging g R) = processed g - R" "roots (purging g R) = roots g - R"
  "parents (purging g R) = parents g |` (- R)" "children (purging g R) = without_edges R (children g)"
  by (simp_all add: purging_def)

lemma mid_loop_empty: "purging g {} = g" "pruning g {} = g"
  by (cases g; simp add: purging_def pruning_def without_edges_def restrict_map_def option.map_ident)+

lemma purge_key_purging:
  assumes sh: "wf_shape g" and "key \<notin> R"
  shows "purge_key (purging g R) key = purging g (insert key R)"
proof -
  have "fold (drop_parent key) (sorted_list_of_set (pars g key)) ((without_edges R (children g))(key := None))
      = without_edges (insert key R) (children g)"
    using assms by (intro without_edges_fold) (simp_all add: wf_shapeD(5))
  then show ?thesis
    using assms(2) by (simp add: purge_key_def purging_def minus_insert)
qed

lemma purging_closed:
  assumes sh: "wf_shape g" and closed: "\<And>p c. p \<in> R \<Longrightarrow> p \<in> pars g c \<Longrightarrow> c \<in> R"
  shows "purging g R = delete_nodes g R"
proof -
  have "without_edges R (parents g) = parents g |` (- R)"
    by (rule without_edges_triv) (use closed in blast)
  then show ?thesis by (simp add: purging_def delete_nodes_def)
qed

lemma purge_loop:
  assumes sh: "wf_shape g" and keys: "keys \<subseteq> nodes g"
  defines "D \<equiv> descendants g keys"
  shows "while_option (\<lambda>(g, removed, to_remove). to_remove \<noteq> {}) (purge_step keys) (g, {}, keys)
    = Some (delete_nodes g D, D, {})"
proof -
  let ?b = "\<lambda>(g, removed, to_remove). to_remove \<noteq> {}"
  let ?P = "\<lambda>(h, R, w). h = purging g R \<and> R \<union> w \<subseteq> D \<and> keys \<subseteq> R \<union> w \<and> R \<inter> w = {}
      \<and> (\<forall>p \<in> R. chs g p \<subseteq> R \<union> w)"
  let ?f = "\<lambda>(h, R, w). card (nodes g - R)"
  have D: "D \<subseteq> nodes g" unfolding D_def by (rule wf_descendants_nodes[OF sh keys])
  have start: "?P (g, {}, keys)"
    using subset_descendants[of keys g] by (simp add: D_def mid_loop_empty)
  have step: "?P (purge_step keys s) \<and> ?f (purge_step keys s) < ?f s" if P: "?P s" and b: "?b s" for s
  proof -
    obtain h R w where s: "s = (h, R, w)" by (cases s)
    have "w \<subseteq> nodes g" using P D unfolding s by auto
    then have "finite w" using wf_shapeD(1)[OF sh] by (rule finite_subset)
    then have k: "Min w \<in> w" using b unfolding s by auto
    define k where "k = Min w"
    have kR: "k \<in> w" "k \<notin> R" "k \<in> nodes g" using k P D unfolding s k_def by auto
    have kids: "chs h k = chs g k - R" using P kR unfolding s by (simp add: without_edges_apply)
    have "k \<in> D" using P kR unfolding s by auto
    then have "chs g k \<subseteq> D" "k \<notin> chs g k" unfolding D_def by (rule wf_chs_descendants[OF sh])+
    moreover have "card (nodes g - insert k R) < card (nodes g - R)"
      using kR wf_shapeD(1)[OF sh] by (intro psubset_card_mono) auto
    ultimately show ?thesis
      using P kR purge_key_purging[OF sh, of k R] kids
      unfolding s purge_step_def by (auto simp: k_def[symmetric] Let_def)
  qed
  obtain t where t: "while_option ?b (purge_step keys) (g, {}, keys) = Some t" "?P t" "\<not> ?b t"
    using while_option_total[where P = ?P and f = ?f, OF start step] by blast
  then obtain R where tR: "t = (purging g R, R, {})" by (cases t) auto
  have closed: "c \<in> R" if "p \<in> R" "p \<in> pars g c" for p c
    using t(2) that wf_shapeD(5)[OF sh] unfolding tR by fastforce
  moreover have "keys \<subseteq> R" using t(2) unfolding tR by simp
  ultimately have "D \<subseteq> R" unfolding D_def by (rule descendants_closed[rotated])
  with t(2) have "R = D" unfolding tR by auto
  with t(1) purging_closed[OF sh closed] show ?thesis unfolding tR by simp
qed

lemma purge_subgraphs_Ok:
  assumes "wf_shape g" and "keys \<subseteq> nodes g"
  shows "purge_subgraphs g keys = Ok (delete_nodes g (descendants g keys)) (descendants g keys)"
  using assms purge_loop[OF assms] by (auto simp: purge_subgraphs_def)

lemma purge_subgraphs_cases:
  "purge_subgraphs g keys = Ok g' R \<Longrightarrow> keys \<subseteq> nodes g"
  by (auto simp: purge_subgraphs_def split: if_splits)

lemma purge_subgraphs_wf:
  assumes "wf_graph g" and "keys \<subseteq> nodes g"
  shows "wf_graph (delete_nodes g (descendants g keys))"
  by (rule delete_descendants_wf[OF assms(1)]) (rule descendants_step)

section \<open>Pruning\<close>

text \<open>The graph in the middle of a prune: only the parents have been told.\<close>

lemma pruning_sel [simp]:
  "pending (pruning g R) = pending g" "vertices (pruning g R) = vertices g |` (- R)"
  "processed (pruning g R) = processed g - R" "roots (pruning g R) = roots g"
  "parents (pruning g R) = without_edges R (parents g)" "children (pruning g R) = children g |` (- R)"
  by (simp_all add: pruning_def)

lemma prune_key_pruning:
  assumes sh: "wf_shape g" and "key \<notin> R"
  shows "prune_key (pruning g R) key = pruning g (insert key R)"
proof -
  have "fold (drop_parent key) (sorted_list_of_set (chs g key)) ((without_edges R (parents g))(key := None))
      = without_edges (insert key R) (parents g)"
    using assms by (intro without_edges_fold) (simp_all add: wf_shapeD(5))
  then show ?thesis using assms(2) by (simp add: prune_key_def pruning_def minus_insert)
qed

lemma prune_keys_Ok:
  assumes "wf_shape g" and "distinct ks" and "set ks \<inter> R = {}" and "set ks \<subseteq> dom (vertices g)"
  shows "prune_keys (pruning g R) ks acc = Ok (pruning g (R \<union> set ks)) (acc @ map (the \<circ> vertices g) ks)"
  using assms(2-)
proof (induction ks arbitrary: R acc)
  case Nil
  then show ?case by simp
next
  case (Cons k ks)
  then obtain v where v: "vertices g k = Some v" by auto
  from Cons.prems have k: "k \<notin> R" by simp
  with v have "vertices (pruning g R) k = Some v" by simp
  then show ?case
    using Cons.IH[of "insert k R" "acc @ [v]"] Cons.prems prune_key_pruning[OF assms(1) k] v by simp
qed

lemma prune_processed_Ok:
  assumes wf: "wf_graph g" and keys: "keys \<subseteq> processed g" and closed: "\<And>k. k \<in> keys \<Longrightarrow> pars g k \<subseteq> keys"
  shows "prune_processed g keys = Ok (delete_nodes g keys) (map (the \<circ> vertices g) (sorted_list_of_set keys))"
proof -
  note sh = wf_graphD(1)[OF wf]
  have fin: "finite keys" using keys wf_graph_ready_sets(1)[OF wf] by (rule finite_subset)
  have dom: "keys \<subseteq> dom (vertices g)" using keys wf_graphD(2)[OF wf] by blast
  have "prune_keys g (sorted_list_of_set keys) [] =
      Ok (pruning g keys) (map (the \<circ> vertices g) (sorted_list_of_set keys))"
    using prune_keys_Ok[OF sh, of "sorted_list_of_set keys" "{}" "[]"] fin dom by (simp add: mid_loop_empty)
  moreover have "without_edges keys (children g) = children g |` (- keys)"
    using closed wf_shapeD(5)[OF sh] by (intro without_edges_triv) blast
  moreover have "pending g - keys = pending g" "roots g - keys = roots g"
    using dom keys wf_shapeD(2)[OF sh] wf_graph_ready_sets(4)[OF wf] by blast+
  ultimately have "prune_keys g (sorted_list_of_set keys) [] =
      Ok (delete_nodes g keys) (map (the \<circ> vertices g) (sorted_list_of_set keys))"
    by (simp add: pruning_def delete_nodes_def)
  moreover have "{k \<in> keys. \<not> graph_contains g k} = {}" using dom by (auto simp: nodes_def)
  moreover have "{p \<in> (\<Union>k\<in>keys. pars g k). p \<notin> keys} = {}" using closed by blast
  ultimately show ?thesis using keys by (simp add: prune_processed_def Let_def)
qed

lemma prune_processed_cases:
  assumes "prune_processed g keys = Ok g' vs"
  shows "keys \<subseteq> nodes g" "keys \<subseteq> processed g" "k \<in> keys \<Longrightarrow> pars g k \<subseteq> keys"
  using assms by (auto simp: prune_processed_def Let_def split: if_splits)

section \<open>Reverting\<close>

lemma revert_loop_Some:
  assumes wf: "wf_graph g" and keys: "keys \<subseteq> processed g"
  obtains rv where "revert_loop g keys = Some (processed g - descendants g keys, rv, {})"
proof -
  note sh = wf_graphD(1)[OF wf]
  let ?V = "dom (vertices g)" and ?D = "descendants g keys"
  let ?b = "\<lambda>(pr, reverted, to_revert). to_revert \<noteq> {}"
  let ?P = "\<lambda>(pr, R, w). pr = processed g - R \<and> R \<union> w \<subseteq> ?D \<inter> ?V \<and> keys \<subseteq> R \<union> w \<and> R \<inter> w = {}
      \<and> (\<forall>p \<in> R. chs g p \<inter> ?V \<subseteq> R \<union> w)"
  let ?f = "\<lambda>(pr, R, w). card (?V - R)"
  have start: "?P (processed g, {}, keys)"
    using subset_descendants[of keys g] keys wf_graphD(2)[OF wf] by auto
  have step: "?P (revert_step g s) \<and> ?f (revert_step g s) < ?f s" if P: "?P s" and b: "?b s" for s
  proof -
    obtain pr R w where s: "s = (pr, R, w)" by (cases s)
    have "w \<subseteq> ?V" using P unfolding s by simp
    then have "finite w" by (rule finite_subset) (simp add: sh)
    then have k: "Min w \<in> w" using b unfolding s by auto
    define k where "k = Min w"
    have kR: "k \<in> w" "k \<notin> R" "k \<in> ?V" "k \<in> ?D" using k P unfolding s k_def by auto
    have "chs g k \<subseteq> ?D" "k \<notin> chs g k" by (rule wf_chs_descendants[OF sh kR(4)])+
    define W where "W = (w - {k}) \<union> {c \<in> chs g k - R. c \<in> ?V}"
    have after: "revert_step g s = (pr - {k}, insert k R, W)"
      by (simp add: s revert_step_def k_def W_def Let_def)
    have old: "pr = processed g - R" "R \<union> w \<subseteq> ?D \<inter> ?V" "keys \<subseteq> R \<union> w" "R \<inter> w = {}"
      "\<forall>p \<in> R. chs g p \<inter> ?V \<subseteq> R \<union> w" using P unfolding s by simp_all
    have "card (?V - insert k R) < card (?V - R)"
      using kR wf_finite(4)[OF sh] by (intro psubset_card_mono) auto
    moreover have "pr - {k} = processed g - insert k R" using old(1) by blast
    moreover have "insert k R \<union> W \<subseteq> ?D \<inter> ?V"
      using old(2) kR(3,4) \<open>chs g k \<subseteq> ?D\<close> unfolding W_def by blast
    moreover have "keys \<subseteq> insert k R \<union> W" using old(3) unfolding W_def by blast
    moreover have "insert k R \<inter> W = {}" using old(4) \<open>k \<notin> chs g k\<close> unfolding W_def by blast
    moreover have "\<forall>p \<in> insert k R. chs g p \<inter> ?V \<subseteq> insert k R \<union> W"
      using old(5) unfolding W_def by blast
    ultimately show ?thesis unfolding after by (simp add: s)
  qed
  obtain t where t: "revert_loop g keys = Some t" "?P t" "\<not> ?b t"
    unfolding revert_loop_def
    using while_option_total[where P = ?P and f = ?f, OF start step] by blast
  then obtain R where tR: "t = (processed g - R, R, {})" by (cases t) auto
  have "d \<in> R" if "d \<in> ?D" "d \<in> processed g" for d
  proof -
    from that(1) obtain x where x: "x \<in> keys" "(x, d) \<in> (edges g)\<^sup>*" by (auto simp: descendants_def)
    from x(2) that(2) show ?thesis
    proof (induction rule: rtrancl_induct)
      case base
      then show ?case using x(1) t(2) unfolding tR by auto
    next
      case (step y z)
      then have "y \<in> R" using wf_graphD(3)[OF wf] by auto
      moreover have "z \<in> chs g y \<inter> ?V"
        using step wf_graphD(2)[OF wf] wf_shapeD(5)[OF sh] by auto
      ultimately show ?case using t(2) unfolding tR by blast
    qed
  qed
  then have "processed g - R = processed g - ?D" using t(2) unfolding tR by auto
  with t(1) that show ?thesis unfolding tR by simp
qed

lemma revert_subgraphs_Ok:
  assumes wf: "wf_graph g" and keys: "keys \<subseteq> processed g"
  shows "revert_subgraphs g keys = Ok (requeued g (descendants g keys)) ()"
proof -
  note sh = wf_graphD(1)[OF wf]
  let ?pr = "processed g - descendants g keys" and ?D = "descendants g keys"
  let ?ks = "sorted_list_of_set (roots g) @ sorted_list_of_set keys"
  have fin: "finite keys" using keys wf_graph_ready_sets(1)[OF wf] by (rule finite_subset)
  have dom: "keys \<subseteq> dom (vertices g)" using keys wf_graphD(2)[OF wf] by blast
  have ks: "set ?ks = roots g \<union> keys" using fin wf_graph_ready_sets(2)[OF wf] by simp
  have "try_make_roots (g\<lparr>processed := ?pr, roots := {}\<rparr>) ?ks =
      Ok (g\<lparr>processed := ?pr, roots := {k \<in> set ?ks. k \<notin> pending g \<and> pars g k \<subseteq> ?pr}\<rparr>) ()"
    using dom subset_descendants[of keys g] wf_graph_ready_sets(3,4)[OF wf] fin
      wf_graph_ready_sets(2)[OF wf]
    by (subst try_make_roots_Ok) auto
  moreover have "{k \<in> set ?ks. k \<notin> pending g \<and> pars g k \<subseteq> ?pr} = ready (g\<lparr>processed := ?pr\<rparr>)"
  proof (rule set_eqI)
    fix k
    have "k \<in> keys" if "k \<in> processed g" "k \<in> ?D" "pars g k \<subseteq> ?pr"
      using that by (auto elim: descendants_cases)
    moreover have "k \<notin> pending g" if "k \<in> dom (vertices g)" using that wf_shapeD(2)[OF sh] by blast
    ultimately show "k \<in> {k \<in> set ?ks. k \<notin> pending g \<and> pars g k \<subseteq> ?pr} \<longleftrightarrow>
        k \<in> ready (g\<lparr>processed := ?pr\<rparr>)"
      using dom subset_descendants[of keys g] wf_graphD(4)[OF wf] unfolding ks
      by (auto simp: ready_def)
  qed
  moreover obtain rv where "revert_loop g keys = Some (?pr, rv, {})"
    using revert_loop_Some[OF assms] by blast
  moreover have "{k \<in> keys. \<not> contains_key (vertices g) k} = {}" using dom by auto
  ultimately show ?thesis
    using keys by (simp add: revert_subgraphs_def requeued_def Let_def)
qed

lemma requeued_wf:
  assumes wf: "wf_graph g" and closed: "\<And>p c. p \<in> R \<Longrightarrow> p \<in> pars g c \<Longrightarrow> c \<in> R"
  shows "wf_graph (requeued g R)"
proof -
  have "\<forall>k \<in> processed g - R. pars g k \<subseteq> processed g - R"
    using wf_graphD(3)[OF wf] closed by blast
  then show ?thesis
    using wf_graphD(1,2)[OF wf] by (auto simp: wf_graph_def requeued_def ready_def)
qed

lemma revert_subgraphs_cases:
  assumes "revert_subgraphs g keys = Ok g' u"
  shows "keys \<subseteq> processed g"
  using assms by (auto simp: revert_subgraphs_def Let_def split: if_splits)

section \<open>All operations\<close>

text \<open>An operation that returns an error leaves the graph as it was.\<close>

lemma try_make_root_no_Err: "try_make_root g k \<noteq> Err h e"
  by (auto simp: try_make_root_def)

lemma try_make_roots_no_Err: "try_make_roots g ks \<noteq> Err h e"
proof (induction ks arbitrary: g)
  case (Cons k ks)
  then show ?case by (cases "try_make_root g k") (auto simp: try_make_root_no_Err)
qed simp

lemma prune_keys_no_Err: "prune_keys g ks acc \<noteq> Err h e"
  by (induction g ks acc rule: prune_keys.induct) (auto split: option.splits)

lemma graph_Err_unchanged:
  "insert_pending g key ps = Err h e \<Longrightarrow> h = g"
  "promote_pending g key v = Err h e \<Longrightarrow> h = g"
  "revert_subgraphs g keys = Err h e \<Longrightarrow> h = g"
  "prune_processed g keys = Err h e \<Longrightarrow> h = g"
  "purge_subgraphs g keys = Err h e \<Longrightarrow> h = g"
  "process_root g key = Err h e \<Longrightarrow> h = g"
  by (auto simp: insert_pending_def promote_pending_def revert_subgraphs_def prune_processed_def
      purge_subgraphs_def process_root_def returned_def Let_def try_make_root_no_Err
      try_make_roots_no_Err prune_keys_no_Err split: if_splits option.splits prod.splits)

lemma outcome_unit_cases:
  "insert_pending g key ps \<noteq> Panic" "insert_pending g key ps \<noteq> Diverge"
  "keys \<subseteq> nodes g \<or> (\<exists>e. purge_subgraphs g keys = Err g e)"
  "keys \<subseteq> processed g \<or> (\<exists>e. revert_subgraphs g keys = Err g e)"
  "key \<in> pending g \<or> (\<exists>e. promote_pending g key v = Err g e)"
  "key \<in> roots g \<or> (\<exists>e. process_root g key = Err g e)"
  "keys \<subseteq> processed g \<and> (\<forall>k \<in> keys. pars g k \<subseteq> keys) \<or> (\<exists>e. prune_processed g keys = Err g e)"
  by (auto simp: insert_pending_def purge_subgraphs_def revert_subgraphs_def promote_pending_def
      process_root_def prune_processed_def Let_def)

text \<open>One call: the invariant is kept, there is no panic, no loop runs forever, errors are atomic.\<close>

lemma run_graph_op_safe:
  assumes wf: "wf_graph g"
  shows "(\<exists>g'. run_graph_op g op = Ok g' () \<and> wf_graph g') \<or> (\<exists>e. run_graph_op g op = Err g e)"
proof (cases op)
  case (InsertPending key ps)
  then show ?thesis
    using insert_pending_wf[OF wf, of key ps] graph_Err_unchanged(1)[of g key ps]
      outcome_unit_cases(1,2)[of g key ps]
    by (cases "insert_pending g key ps") auto
next
  case (PromotePending key v)
  then show ?thesis
    using outcome_unit_cases(5)[of key g v] promote_pending_Ok[OF wf, of key v]
      promote_pending_wf(1)[OF wf, of key v] by auto
next
  case (RevertSubgraphs keys)
  have "wf_graph (requeued g (descendants g keys))"
    by (rule requeued_wf[OF wf]) (rule descendants_step)
  then show ?thesis
    using RevertSubgraphs outcome_unit_cases(4)[of keys g] revert_subgraphs_Ok[OF wf, of keys] by auto
next
  case (PruneProcessed keys)
  then show ?thesis
    using outcome_unit_cases(7)[of keys g] prune_processed_Ok[OF wf, of keys]
      delete_processed_wf[OF wf, of keys] by auto
next
  case (PurgeSubgraphs keys)
  then show ?thesis
    using outcome_unit_cases(3)[of keys g] purge_subgraphs_Ok[OF wf_graphD(1)[OF wf], of keys]
      purge_subgraphs_wf[OF wf, of keys] by auto
next
  case (ProcessRoot key)
  then show ?thesis
    using outcome_unit_cases(6)[of key g] process_root_Ok[OF wf, of key]
      process_root_wf(1)[OF wf, of key] by auto
qed

lemma graph_reachable_wf: "graph_reachable g \<Longrightarrow> wf_graph g"
proof (induction rule: graph_reachable.induct)
  case start
  show ?case by (rule wf_graph_default)
next
  case (call g op g')
  then show ?case using run_graph_op_safe[of g op] by auto
qed

text \<open>Every unprocessed node waits for a root or for a pending node.\<close>

lemma wf_blocked_ancestor:
  assumes wf: "wf_graph g" and k: "k \<in> nodes g - processed g"
  shows "\<exists>a. k \<in> descendants g {a} \<and> a \<in> roots g \<union> pending g"
proof -
  note sh = wf_graphD(1)[OF wf]
  let ?A = "{a \<in> nodes g - processed g. k \<in> descendants g {a}}"
  have "k \<in> ?A" using k by (simp add: descendants_def)
  moreover have "finite ?A" using wf_shapeD(1)[OF sh] by simp
  ultimately obtain a where a: "a \<in> ?A" "\<forall>y \<in> ?A. (y, a) \<notin> edges g"
    using finite_acyclic_minimal[OF _ _ wf_shapeD(7)[OF sh], of ?A] by blast
  have "pars g a \<subseteq> processed g"
  proof
    fix p assume p: "p \<in> pars g a"
    then have "k \<in> descendants g {p}" using a(1)
      by (auto simp: descendants_def intro: converse_rtrancl_into_rtrancl)
    then show "p \<in> processed g" using a(2) p wf_pars_node[OF sh p] by auto
  qed
  then have "a \<in> roots g \<union> pending g" using a(1) wf_graphD(4)[OF wf] by (auto simp: nodes_def ready_def)
  with a(1) show ?thesis by blast
qed

section \<open>Properties\<close>

text \<open>A small run: node 2 depends on node 1, both are promoted and node 1 is processed.\<close>

definition sample_graph :: "(nat, string) dep_graph" where
  "sample_graph = \<lparr>pending = {}, vertices = [1 \<mapsto> ''a'', 2 \<mapsto> ''b''],
     parents = [1 \<mapsto> {}, 2 \<mapsto> {1}], children = [1 \<mapsto> {2}, 2 \<mapsto> {}], roots = {2}, processed = {1}\<rparr>"

lemma sample_graph_reachable: "graph_reachable sample_graph"
proof -
  define g1 :: "(nat, string) dep_graph" where
    "g1 = \<lparr>pending = {1}, vertices = Map.empty, parents = [1 \<mapsto> {}], children = [1 \<mapsto> {}], roots = {}, processed = {}\<rparr>"
  define g2 :: "(nat, string) dep_graph" where
    "g2 = g1\<lparr>pending := {}, vertices := [1 \<mapsto> ''a''], roots := {1}\<rparr>"
  define g3 :: "(nat, string) dep_graph" where
    "g3 = g2\<lparr>pending := {2}, parents := [1 \<mapsto> {}, 2 \<mapsto> {1}], children := [1 \<mapsto> {2}, 2 \<mapsto> {}]\<rparr>"
  define g4 :: "(nat, string) dep_graph" where
    "g4 = g3\<lparr>pending := {}, vertices := [1 \<mapsto> ''a'', 2 \<mapsto> ''b'']\<rparr>"
  have "run_graph_op graph_default (InsertPending 1 {}) = Ok g1 ()"
    by (simp add: insert_pending_def graph_default_def graph_contains_def g1_def del: graph_contains_iff)
  with graph_reachable.start have "graph_reachable g1" by (rule graph_reachable.call[OF _ disjI1])
  moreover have "run_graph_op g1 (PromotePending 1 ''a'') = Ok g2 ()"
    by (simp add: promote_pending_def try_make_root_def g1_def g2_def)
  ultimately have "graph_reachable g2" by (rule graph_reachable.call[OF _ disjI1])
  moreover have "run_graph_op g2 (InsertPending 2 {1}) = Ok g3 ()"
    by (simp add: insert_pending_def graph_contains_def add_child_def g1_def g2_def g3_def
        del: graph_contains_iff)
  ultimately have "graph_reachable g3" by (rule graph_reachable.call[OF _ disjI1])
  moreover have "run_graph_op g3 (PromotePending 2 ''b'') = Ok g4 ()"
    by (simp add: promote_pending_def try_make_root_def g1_def g2_def g3_def g4_def)
  ultimately have "graph_reachable g4" by (rule graph_reachable.call[OF _ disjI1])
  moreover have "run_graph_op g4 (ProcessRoot 1) = Ok sample_graph ()"
    by (simp add: process_root_def try_make_root_def g1_def g2_def g3_def g4_def sample_graph_def)
  ultimately show ?thesis by (rule graph_reachable.call[OF _ disjI1])
qed

text \<open>
  C12. Whatever calls have been made on a dependency graph since it was created, the next call
  neither panics (the debug assertions of \<open>try_make_root\<close> and the \<open>expect\<close> of
  \<open>prune_processed\<close> included) nor runs forever. It either succeeds, and the invariant holds again,
  or returns an error and leaves the graph exactly as it was: every method is atomic.
\<close>

theorem graph_calls_safe:
  "graph_reachable g \<Longrightarrow>
     (\<exists>g'. run_graph_op g op = Ok g' () \<and> wf_graph g') \<or> (\<exists>e. run_graph_op g op = Err g e)"
  by (rule run_graph_op_safe[OF graph_reachable_wf])

theorem graph_calls_safe_witness:
  "(\<exists>g'. run_graph_op sample_graph (ProcessRoot 2) = Ok g' () \<and> wf_graph g') \<or>
   (\<exists>e. run_graph_op sample_graph (ProcessRoot 2) = Err sample_graph e)"
  using graph_calls_safe[OF sample_graph_reachable, of "ProcessRoot 2"] .

text \<open>
  In every reachable graph the roots are exactly what the comment on the field promises: the
  nodes with a value that are not processed and whose parents are all processed. Parents and
  children are inverse to each other and only name nodes of the graph.
\<close>

theorem roots_are_ready:
  "graph_reachable g \<Longrightarrow>
     roots g = {k. k \<in> dom (vertices g) \<and> k \<notin> processed g \<and> (\<forall>p \<in> pars g k. p \<in> processed g)}
     \<and> (\<forall>p c. c \<in> chs g p \<longleftrightarrow> p \<in> pars g c) \<and> (\<forall>k. pars g k \<union> chs g k \<subseteq> nodes g)"
proof -
  assume "graph_reachable g"
  then have wf: "wf_graph g" by (rule graph_reachable_wf)
  note sh = wf_graphD(1)[OF wf]
  have "roots g = {k. k \<in> dom (vertices g) \<and> k \<notin> processed g \<and> (\<forall>p \<in> pars g k. p \<in> processed g)}"
    unfolding wf_graphD(4)[OF wf] ready_def by blast
  then show ?thesis using wf_shapeD(5,6)[OF sh] wf_chs_nodes[OF sh] by simp
qed

theorem roots_are_ready_witness:
  "roots sample_graph = {k. k \<in> dom (vertices sample_graph) \<and> k \<notin> processed sample_graph
     \<and> (\<forall>p \<in> pars sample_graph k. p \<in> processed sample_graph)} \<and> roots sample_graph = {2}"
  using roots_are_ready[OF sample_graph_reachable] by (simp add: sample_graph_def)

text \<open>
  Purging a set of nodes of the graph returns exactly the set itself and everything that
  depends on it, directly or not, pending nodes included, and leaves the graph without those nodes
  and without the edges that touch them. The loop visits nodes in key order and never records the
  nodes it has seen beyond the initial keys; the theorem says that this is enough.
\<close>

theorem purge_removes_descendants:
  assumes "graph_reachable g" and "keys \<subseteq> nodes g"
  shows "purge_subgraphs g keys = Ok (delete_nodes g (descendants g keys)) (descendants g keys)
    \<and> wf_graph (delete_nodes g (descendants g keys))"
proof -
  have wf: "wf_graph g" using assms(1) by (rule graph_reachable_wf)
  then show ?thesis
    using purge_subgraphs_Ok[OF wf_graphD(1)[OF wf] assms(2)] purge_subgraphs_wf[OF wf assms(2)] by simp
qed

theorem purge_removes_descendants_witness:
  "purge_subgraphs sample_graph {1} =
     Ok (delete_nodes sample_graph (descendants sample_graph {1})) (descendants sample_graph {1})"
  using purge_removes_descendants[OF sample_graph_reachable, of "{1}"]
  by (simp add: nodes_def sample_graph_def)

text \<open>
  Reverting a set of processed nodes puts them and every node that depends on them back in the
  queue: the processed nodes afterwards are those that do not depend on the set, the roots are the
  nodes ready for processing in that graph, and nothing else changes.
\<close>

theorem revert_requeues_descendants:
  assumes "graph_reachable g" and "keys \<subseteq> processed g"
  shows "revert_subgraphs g keys = Ok (requeued g (descendants g keys)) ()
    \<and> processed (requeued g (descendants g keys)) = processed g - descendants g keys
    \<and> wf_graph (requeued g (descendants g keys))"
proof -
  have wf: "wf_graph g" using assms(1) by (rule graph_reachable_wf)
  have "wf_graph (requeued g (descendants g keys))"
    by (rule requeued_wf[OF wf]) (rule descendants_step)
  then show ?thesis using revert_subgraphs_Ok[OF wf assms(2)] by (simp add: requeued_def Let_def)
qed

theorem revert_requeues_descendants_witness:
  "revert_subgraphs sample_graph {1} = Ok (requeued sample_graph (descendants sample_graph {1})) ()"
  using revert_requeues_descendants[OF sample_graph_reachable, of "{1}"] by (simp add: sample_graph_def)

text \<open>
  Pruning succeeds exactly when every node of the set is processed and every parent of such a
  node is in the set too. It then removes exactly the set and returns the values in key order;
  otherwise it returns an error and the graph is unchanged.
\<close>

theorem prune_exact:
  assumes "graph_reachable g"
  shows "if keys \<subseteq> processed g \<and> (\<forall>k \<in> keys. pars g k \<subseteq> keys)
    then prune_processed g keys = Ok (delete_nodes g keys) (map (the \<circ> vertices g) (sorted_list_of_set keys))
      \<and> wf_graph (delete_nodes g keys)
    else (\<exists>e. prune_processed g keys = Err g e)"
proof -
  have wf: "wf_graph g" using assms(1) by (rule graph_reachable_wf)
  then show ?thesis
    using prune_processed_Ok[OF wf, of keys] delete_processed_wf[OF wf, of keys]
      outcome_unit_cases(7)[of keys g] by auto
qed

theorem prune_exact_witness:
  "prune_processed sample_graph {1} = Ok (delete_nodes sample_graph {1}) [''a'']
   \<and> (\<exists>e. prune_processed sample_graph {2} = Err sample_graph e)"
  using prune_exact[OF sample_graph_reachable, of "{1}"] prune_exact[OF sample_graph_reachable, of "{2}"]
  by (simp add: sample_graph_def)

text \<open>
  Nothing is ever stuck: a node that is not processed depends on a node that is available for
  processing now, or on one that is still pending. In a graph without pending nodes there is
  therefore a root as long as anything is left to process.
\<close>

theorem graph_progress:
  assumes "graph_reachable g" and "k \<in> nodes g" and "k \<notin> processed g"
  shows "\<exists>a \<in> roots g \<union> pending g. k \<in> descendants g {a}"
  using wf_blocked_ancestor[OF graph_reachable_wf[OF assms(1)], of k] assms(2,3) by blast

theorem graph_progress_witness:
  "\<exists>a \<in> roots sample_graph \<union> pending sample_graph. 2 \<in> descendants sample_graph {a}"
  using graph_progress[OF sample_graph_reachable, of 2] by (simp add: nodes_def sample_graph_def)

text \<open>
  \<open>len\<close> is documented as the total amount of nodes in the graph; it counts the nodes that have a
  value and so leaves the pending ones out.
\<close>

lemma graph_len_misses_pending:
  assumes "wf_graph g"
  shows "card (nodes g) = graph_len g + num_pending g"
  using wf_shapeD(2)[OF wf_graphD(1)[OF assms]] wf_finite(3,4)[OF wf_graphD(1)[OF assms]]
  by (simp add: nodes_def graph_len_def num_pending_def card_Un_disjoint Int_commute)

end
