(* ===== verification/Root_Selection.thy ===== *)
theory Root_Selection
  imports Dependency_Graph Domain
begin

text \<open>
  Selection by repeatedly processing the least root of a dependency graph until a budget is exceeded.
  The transaction graph fills batches this way and the batch graph fills blocks; both loops are
  instances of one interface, for which the properties of a selection are proved once.
\<close>

section \<open>What a selection is\<close>

text \<open>The budget that is left after some values, if all of them are within scope.\<close>

fun spend :: "('b \<Rightarrow> 'v \<Rightarrow> 'b \<times> budget_status) \<Rightarrow> 'b \<Rightarrow> 'v list \<Rightarrow> 'b option" where
  "spend check b [] = Some b"
| "spend check b (v # vs) = (case check b v of (b', st) \<Rightarrow> if st = WithinScope then spend check b' vs else None)"

definition values_of :: "('k, 'v) dep_graph \<Rightarrow> 'k list \<Rightarrow> 'v list" where
  "values_of g ks = map (the \<circ> vertices g) ks"

text \<open>Every node comes after its parents.\<close>

fun topological :: "('k, 'v) dep_graph \<Rightarrow> 'k set \<Rightarrow> 'k list \<Rightarrow> bool" where
  "topological g P [] = True"
| "topological g P (k # ks) = (pars g k \<subseteq> P \<and> topological g (insert k P) ks)"

text \<open>
  Selecting the nodes \<open>ks\<close>, in this order, takes \<open>g\<close> to \<open>g'\<close>: they were unprocessed and are
  processed now, nothing else changes, parents come first, the budget suffices for all of them, and
  the next root, if there is one, would exceed it.
\<close>

definition selection ::
  "('b \<Rightarrow> 'v \<Rightarrow> 'b \<times> budget_status) \<Rightarrow> ('k::linorder, 'v) dep_graph \<Rightarrow> 'b \<Rightarrow> 'k list \<Rightarrow> ('k, 'v) dep_graph \<Rightarrow> bool" where
  "selection check g b ks g' \<longleftrightarrow>
     distinct ks \<and> set ks \<subseteq> dom (vertices g) \<and> set ks \<inter> processed g = {}
     \<and> pending g' = pending g \<and> vertices g' = vertices g \<and> parents g' = parents g \<and> children g' = children g
     \<and> processed g' = processed g \<union> set ks \<and> wf_graph g'
     \<and> topological g (processed g) ks
     \<and> (\<exists>b'. spend check b (values_of g ks) = Some b' \<and>
         (roots g' = {} \<or> snd (check b' (the (vertices g (Min (roots g'))))) = Exceeded))"

lemma selection_values: "selection check g b ks g' \<Longrightarrow> k \<in> set ks \<Longrightarrow> \<exists>v. vertices g k = Some v"
  unfolding selection_def by blast

lemma topological_mono: "topological g P ks \<Longrightarrow> P \<subseteq> Q \<Longrightarrow> topological g Q ks"
  by (induction ks arbitrary: P Q) (auto, meson insert_mono)

lemma topological_pars:
  "topological g P (ks @ k # ls) \<Longrightarrow> pars g k \<subseteq> P \<union> set ks"
  by (induction ks arbitrary: P) auto

lemma topological_cong: "parents g' = parents g \<Longrightarrow> topological g' P ks = topological g P ks"
  by (induction ks arbitrary: P) auto

lemma selection_pars:
  assumes "selection check g b ks g'" and "k \<in> set ks"
  shows "pars g k \<subseteq> processed g \<union> set ks"
proof -
  obtain as bs where "ks = as @ k # bs" using assms(2) by (meson split_list)
  then show ?thesis using assms(1) topological_pars[of g "processed g" as k bs] by (auto simp: selection_def)
qed

section \<open>The interface of the selection loops\<close>

locale root_selection =
  fixes check :: "'b \<Rightarrow> 'v \<Rightarrow> 'b \<times> budget_status"
    and budget_size :: "'b \<Rightarrow> nat"
    and collect :: "'v \<Rightarrow> 'k::linorder set \<Rightarrow> 'a \<Rightarrow> 'a"
    and loop :: "('k, 'v) dep_graph \<Rightarrow> 'b \<Rightarrow> 'a \<Rightarrow> (('k, 'v) dep_graph, 'e, 'a) outcome"
  assumes within_scope: "check b v = (b', WithinScope) \<Longrightarrow> budget_size b' < budget_size b"
    and no_roots: "roots g = {} \<Longrightarrow> loop g b a = Ok g a"
    and exceeded: "roots g \<noteq> {} \<Longrightarrow> graph_get g (Min (roots g)) = Some v \<Longrightarrow> check b v = (b', Exceeded)
      \<Longrightarrow> loop g b a = Ok g a"
    and next_root: "roots g \<noteq> {} \<Longrightarrow> graph_get g (Min (roots g)) = Some v \<Longrightarrow> check b v = (b', WithinScope)
      \<Longrightarrow> process_root g (Min (roots g)) = Ok g' () \<Longrightarrow> graph_parents g' (Min (roots g)) = Some ps
      \<Longrightarrow> loop g b a = loop g' b' (collect v ps a)"
begin

lemma selects:
  "wf_graph g \<Longrightarrow> \<exists>ks g'. loop g b a = Ok g' (fold (\<lambda>k. collect (the (vertices g k)) (pars g k)) ks a)
     \<and> selection check g b ks g'"
proof (induction "budget_size b" arbitrary: g b a rule: less_induct)
  case less
  note wf = less.prems
  show ?case
  proof (cases "roots g = {}")
    case True
    then show ?thesis using no_roots wf by (intro exI[of _ "[]"] exI[of _ g]) (simp add: selection_def values_of_def)
  next
    case False
    let ?k = "Min (roots g)"
    have fin: "finite (roots g)" using wf by (rule wf_graph_ready_sets(2))
    then have root: "?k \<in> roots g" using False by simp
    then obtain v where v: "vertices g ?k = Some v" using wf_graph_ready_sets(3)[OF wf] by blast
    have get: "graph_get g ?k = Some v" using v by (simp add: graph_get_def)
    obtain b' st where chk: "check b v = (b', st)" by fastforce
    show ?thesis
    proof (cases st)
      case Exceeded
      then show ?thesis using exceeded[OF False get] chk wf v
        by (intro exI[of _ "[]"] exI[of _ g]) (simp add: selection_def values_of_def)
    next
      case WithinScope
      obtain g1 where g1: "process_root g ?k = Ok g1 ()" using process_root_Ok[OF wf root] by blast
      note pr = process_root_wf[OF wf g1]
      have "dom (parents g) = nodes g" by (rule wf_shapeD(3)[OF wf_graphD(1)[OF wf]])
      then obtain ps where ps: "parents g ?k = Some ps" using v by (auto simp: nodes_def)
      have gp: "graph_parents g1 ?k = Some ps" using ps pr(6) by (simp add: graph_parents_def)
      have chk': "check b v = (b', WithinScope)" using chk WithinScope by simp
      from less.hyps[OF within_scope[OF chk'] pr(1), of "collect v ps a"] obtain ks g' where
        ih: "loop g1 b' (collect v ps a) = Ok g' (fold (\<lambda>k. collect (the (vertices g1 k)) (pars g1 k)) ks (collect v ps a))"
          "selection check g1 b' ks g'" by blast
      have ready: "pars g ?k \<subseteq> processed g" "?k \<notin> processed g"
        using root wf_graphD(4)[OF wf] by (auto simp: ready_def)
      have "selection check g b (?k # ks) g'"
        using ih(2) pr ready v chk' unfolding selection_def
        by (auto simp: values_of_def topological_cong[OF pr(6)] intro: topological_mono)
      moreover have "loop g b a = Ok g' (fold (\<lambda>k. collect (the (vertices g k)) (pars g k)) (?k # ks) a)"
        using next_root[OF False get chk' g1 gp, of a] ih(1) v ps pr(5,6) by simp
      ultimately show ?thesis by blast
    qed
  qed
qed

end

end
