(* ===== verification/Transaction_Graph.thy ===== *)
theory Transaction_Graph
  imports Root_Selection
begin

text \<open>
  The transaction graph of the mempool (crates/block-producer/src/mempool/transaction_graph.rs): the
  dependency graph of inflight transactions, from which batches are selected. The wrapper struct has
  the graph as its only field and is identified with it.
\<close>

section \<open>Model\<close>

type_synonym transaction_graph = "(transaction_id, auth_tx) dep_graph"

definition tg_insert ::
  "transaction_graph \<Rightarrow> auth_tx \<Rightarrow> transaction_id set \<Rightarrow> (transaction_graph, transaction_id graph_error, unit) outcome" where
  "tg_insert g tx ps = and_then (insert_pending g (tx_id tx) ps) (\<lambda>g' _. promote_pending g' (tx_id tx) tx)"

text \<open>The two \<open>unwrap\<close>s on the root and the one on \<open>process_root\<close> are panics.\<close>

function select_batch_loop ::
  "transaction_graph \<Rightarrow> batch_budget \<Rightarrow> auth_tx list \<times> transaction_id set \<Rightarrow>
     (transaction_graph, 'e, auth_tx list \<times> transaction_id set) outcome" where
  "select_batch_loop g budget (batch, ps) =
     (if roots g = {} then Ok g (batch, ps)
      else let root = Min (roots g) in
        case graph_get g root of None \<Rightarrow> Panic | Some tx \<Rightarrow>
        case batch_check_then_subtract budget tx of (budget', status) \<Rightarrow>
        if status = Exceeded then Ok g (batch, ps)
        else case process_root g root of
            Ok g' _ \<Rightarrow>
              (case graph_parents g' root of None \<Rightarrow> Panic | Some tx_parents \<Rightarrow>
                 select_batch_loop g' budget' (batch @ [tx], ps \<union> tx_parents))
          | Err g' e \<Rightarrow> Panic | Panic \<Rightarrow> Panic | Diverge \<Rightarrow> Diverge)"
  by pat_completeness auto
termination
proof (relation "measure (\<lambda>(g, b, acc). budget_transactions b)")
  fix g :: transaction_graph and b b' :: batch_budget and tx st
  assume "(b', st) = batch_check_then_subtract b tx" and "st \<noteq> Exceeded"
  then have "batch_check_then_subtract b tx = (b', WithinScope)" by (cases st) auto
  from batch_check_WithinScope(1)[OF this]
  show "((g', b', acc'), g, b, acc) \<in> measure (\<lambda>(g, b, acc). budget_transactions b)" for g' acc' acc by simp
qed simp

definition tg_select_batch ::
  "transaction_graph \<Rightarrow> batch_budget \<Rightarrow> (transaction_graph, 'e, auth_tx list \<times> transaction_id set) outcome" where
  "tg_select_batch g budget = select_batch_loop g budget ([], {})"

definition requeue_transactions ::
  "transaction_graph \<Rightarrow> transaction_id set \<Rightarrow> (transaction_graph, transaction_id graph_error, unit) outcome" where
  "requeue_transactions g txs = revert_subgraphs g txs"

definition commit_transactions ::
  "transaction_graph \<Rightarrow> transaction_id list \<Rightarrow> (transaction_graph, transaction_id graph_error, unit) outcome" where
  "commit_transactions g txs = and_then (prune_processed g (set txs)) (\<lambda>g' _. Ok g' ())"

definition remove_transactions ::
  "transaction_graph \<Rightarrow> transaction_id list \<Rightarrow> (transaction_graph, transaction_id graph_error, transaction_id set) outcome" where
  "remove_transactions g txs = purge_subgraphs g (set txs)"

definition tg_len :: "transaction_graph \<Rightarrow> nat" where
  "tg_len g = graph_len g"

definition tg_num_roots :: "transaction_graph \<Rightarrow> nat" where
  "tg_num_roots g = num_roots g"

section \<open>The invariant and the operations\<close>

text \<open>Well-formed, without pending nodes, and every transaction is stored under its identifier.\<close>

definition tg_ok :: "transaction_graph \<Rightarrow> bool" where
  "tg_ok g \<longleftrightarrow> wf_graph g \<and> pending g = {} \<and> (\<forall>k tx. vertices g k = Some tx \<longrightarrow> tx_id tx = k)"

lemma tg_okD:
  assumes "tg_ok g"
  shows "wf_graph g" "pending g = {}" "vertices g k = Some tx \<Longrightarrow> tx_id tx = k" "nodes g = dom (vertices g)"
  using assms by (auto simp: tg_ok_def nodes_def)

lemma tg_default_ok: "tg_ok graph_default"
  by (simp add: tg_ok_def wf_graph_default) (simp add: graph_default_def)

lemma tg_insert_Ok:
  assumes ok: "tg_ok g" and new: "tx_id tx \<notin> dom (vertices g)" and ps: "ps \<subseteq> dom (vertices g)"
  shows "\<exists>g'. tg_insert g tx ps = Ok g' () \<and> tg_ok g' \<and> vertices g' = (vertices g)(tx_id tx \<mapsto> tx)
    \<and> pars g' = (pars g)(tx_id tx := ps) \<and> processed g' = processed g"
proof -
  note okD = tg_okD[OF ok]
  obtain g1 where ins: "insert_pending g (tx_id tx) ps = Ok g1 ()"
    using insert_pending_Ok[of g "tx_id tx" ps] new ps okD(4) by blast
  note sh = insert_pending_shape[OF wf_graphD(1)[OF okD(1)] ins] and wf1 = insert_pending_wf[OF okD(1) ins]
  have pend: "tx_id tx \<in> pending g1" using sh(9) by simp
  note pr = promote_pending_Ok[OF wf1 pend, of tx]
  then obtain g2 where g2: "promote_pending g1 (tx_id tx) tx = Ok g2 ()" by blast
  note wf2 = promote_pending_wf[OF wf1 g2]
  have "g2 = g1\<lparr>pending := pending g1 - {tx_id tx}, vertices := (vertices g1)(tx_id tx \<mapsto> tx),
          roots := roots g1 \<union> (if pars g1 (tx_id tx) \<subseteq> processed g1 then {tx_id tx} else {})\<rparr>"
    using pr g2 by simp
  then have sel: "pending g2 = {}" "vertices g2 = (vertices g)(tx_id tx \<mapsto> tx)" "pars g2 = (pars g)(tx_id tx := ps)"
    "processed g2 = processed g"
    using sh(2,6,7,9) okD(2) by auto
  have "tg_ok g2" using wf2(1) sel okD(3) by (auto simp: tg_ok_def split: if_splits)
  then show ?thesis using ins g2 sel by (simp add: tg_insert_def)
qed

lemma tg_delete_ok: "tg_ok g \<Longrightarrow> wf_graph (delete_nodes g R) \<Longrightarrow> tg_ok (delete_nodes g R)"
  by (auto simp: tg_ok_def restrict_map_def split: if_splits)

lemma remove_transactions_Ok:
  assumes ok: "tg_ok g" and txs: "set txs \<subseteq> dom (vertices g)"
  defines "R \<equiv> descendants g (set txs)"
  shows "remove_transactions g txs = Ok (delete_nodes g R) R" "tg_ok (delete_nodes g R)"
    "R \<subseteq> dom (vertices g)" "set txs \<subseteq> R"
proof -
  note okD = tg_okD[OF ok]
  have sub: "set txs \<subseteq> nodes g" using txs okD(4) by simp
  show "remove_transactions g txs = Ok (delete_nodes g R) R"
    using purge_subgraphs_Ok[OF wf_graphD(1)[OF okD(1)] sub] by (simp add: remove_transactions_def R_def)
  show "tg_ok (delete_nodes g R)"
    using tg_delete_ok[OF ok] purge_subgraphs_wf[OF okD(1) sub] by (simp add: R_def)
  show "R \<subseteq> dom (vertices g)"
    using wf_descendants_nodes[OF wf_graphD(1)[OF okD(1)] sub] okD(4) by (simp add: R_def)
  show "set txs \<subseteq> R" by (simp add: R_def subset_descendants)
qed

lemma commit_transactions_Ok:
  assumes ok: "tg_ok g" and txs: "set txs \<subseteq> processed g" "\<And>k. k \<in> set txs \<Longrightarrow> pars g k \<subseteq> set txs"
  shows "commit_transactions g txs = Ok (delete_nodes g (set txs)) ()" "tg_ok (delete_nodes g (set txs))"
  using prune_processed_Ok[OF tg_okD(1)[OF ok] txs] tg_delete_ok[OF ok] delete_processed_wf[OF tg_okD(1)[OF ok] txs(1)]
  by (simp_all add: commit_transactions_def)

lemma requeued_sel [simp]:
  "pending (requeued g R) = pending g" "vertices (requeued g R) = vertices g" "parents (requeued g R) = parents g"
  "children (requeued g R) = children g" "processed (requeued g R) = processed g - R"
  by (simp_all add: requeued_def Let_def)

lemma requeue_transactions_Ok:
  assumes ok: "tg_ok g" and txs: "txs \<subseteq> processed g"
  shows "requeue_transactions g txs = Ok (requeued g (descendants g txs)) ()" "tg_ok (requeued g (descendants g txs))"
proof -
  show "requeue_transactions g txs = Ok (requeued g (descendants g txs)) ()"
    unfolding requeue_transactions_def by (rule revert_subgraphs_Ok[OF tg_okD(1)[OF ok] txs])
  have "wf_graph (requeued g (descendants g txs))"
    by (rule requeued_wf[OF tg_okD(1)[OF ok] descendants_step])
  then show "tg_ok (requeued g (descendants g txs))" using ok by (simp add: tg_ok_def)
qed

section \<open>Batch selection\<close>

definition collect_tx :: "auth_tx \<Rightarrow> transaction_id set \<Rightarrow> auth_tx list \<times> transaction_id set \<Rightarrow> auth_tx list \<times> transaction_id set" where
  "collect_tx tx ps acc = (fst acc @ [tx], snd acc \<union> ps)"

interpretation batch_sel: root_selection batch_check_then_subtract budget_transactions collect_tx
  "select_batch_loop :: transaction_graph \<Rightarrow> batch_budget \<Rightarrow> auth_tx list \<times> transaction_id set \<Rightarrow>
     (transaction_graph, 'e, auth_tx list \<times> transaction_id set) outcome"
proof (unfold_locales, goal_cases)
  case (1 b v b')
  then show ?case using batch_check_WithinScope(1)[of b v b'] by simp
next
  case (2 g b a)
  then show ?case by (cases a) simp
next
  case (3 g v b b' a)
  then show ?case by (cases a) simp
next
  case (4 g v b b' g' ps a)
  then show ?case by (cases a) (simp add: collect_tx_def)
qed

lemma fold_collect_tx:
  "fold (\<lambda>k. collect_tx (the (vertices g k)) (pars g k)) ks acc = (fst acc @ values_of g ks, snd acc \<union> (\<Union>k \<in> set ks. pars g k))"
  by (induction ks arbitrary: acc) (auto simp: collect_tx_def values_of_def)

lemma tg_select_batch_Ok:
  assumes ok: "tg_ok g"
  shows "\<exists>ks g'. tg_select_batch g budget = (Ok g' (values_of g ks, \<Union>k \<in> set ks. pars g k)
      :: (transaction_graph, 'e, auth_tx list \<times> transaction_id set) outcome)
    \<and> selection batch_check_then_subtract g budget ks g' \<and> tg_ok g' \<and> map tx_id (values_of g ks) = ks"
proof -
  from batch_sel.selects[OF tg_okD(1)[OF ok], of budget "([], {})", where ?'e = 'e] obtain ks g' where
    s: "select_batch_loop g budget ([], {}) = (Ok g' (fold (\<lambda>k. collect_tx (the (vertices g k)) (pars g k)) ks ([], {}))
        :: (transaction_graph, 'e, auth_tx list \<times> transaction_id set) outcome)"
      "selection batch_check_then_subtract g budget ks g'" by blast
  have "tx_id (the (vertices g k)) = k" if "k \<in> set ks" for k
    using selection_values[OF s(2) that] tg_okD(3)[OF ok] by auto
  then have "map tx_id (values_of g ks) = ks" by (simp add: values_of_def comp_def map_idI)
  moreover have "tg_ok g'" using s(2) ok by (auto simp: selection_def tg_ok_def)
  ultimately show ?thesis using s by (auto simp: tg_select_batch_def fold_collect_tx)
qed

text \<open>What the batch budget allows, summed over the batch.\<close>

lemma spend_batch_bounds:
  "spend batch_check_then_subtract b txs = Some b' \<Longrightarrow>
     length txs + budget_transactions b' = budget_transactions b
     \<and> length txs + budget_accounts b' = budget_accounts b
     \<and> sum_list (map tx_input_note_count txs) + budget_input_notes b' = budget_input_notes b
     \<and> sum_list (map tx_output_note_count txs) + budget_output_notes b' = budget_output_notes b"
proof (induction txs arbitrary: b)
  case (Cons tx txs)
  obtain b1 st where c: "batch_check_then_subtract b tx = (b1, st)" by fastforce
  with Cons.prems have st: "st = WithinScope" and rest: "spend batch_check_then_subtract b1 txs = Some b'"
    by (auto split: if_splits)
  note w = batch_check_WithinScope[OF c[unfolded st]] and ih = Cons.IH[OF rest]
  show ?case using w ih by simp
qed simp

text \<open>The first sample transaction and the second, which depends on it.\<close>

definition sample_tx_graph :: transaction_graph where
  "sample_tx_graph = \<lparr>pending = {}, vertices = [1 \<mapsto> sample_first, 2 \<mapsto> sample_second],
     parents = [1 \<mapsto> {}, 2 \<mapsto> {1}], children = [1 \<mapsto> {2}, 2 \<mapsto> {}], roots = {1}, processed = {}\<rparr>"

lemma sample_tx_graph_inserted:
  "and_then (tg_insert graph_default sample_first {}) (\<lambda>g _. tg_insert g sample_second {1}) = Ok sample_tx_graph ()"
  by (simp add: tg_insert_def insert_pending_def promote_pending_def try_make_root_def graph_default_def
      graph_contains_def add_child_def sample_first_def sample_second_def sample_tx_graph_def Let_def
      set_or_default_def fun_eq_iff nodes_def)

lemma sample_tx_graph_ok: "tg_ok sample_tx_graph"
proof -
  obtain g1 where g1: "tg_insert graph_default sample_first {} = Ok g1 ()" "tg_ok g1"
      "vertices g1 = [1 \<mapsto> sample_first]"
    using tg_insert_Ok[OF tg_default_ok, of sample_first "{}"] by (auto simp: graph_default_def sample_first_def)
  have "tx_id sample_second \<notin> dom (vertices g1)" "{1} \<subseteq> dom (vertices g1)"
    by (simp_all add: g1(3) sample_second_def)
  from tg_insert_Ok[OF g1(2) this] sample_tx_graph_inserted show ?thesis by (auto simp: g1(1))
qed

text \<open>
  C33. Selecting a batch from a well-formed transaction graph never panics and always ends. The
  batch holds unprocessed transactions, each once and after all of its unprocessed parents, so it is
  in a valid execution order; the parents returned are exactly the parents of its members; the batch
  respects each of the four budgets; exactly its transactions become processed; and it is maximal:
  either no root is left or the next root exceeds the remaining budget.
\<close>

theorem select_batch_correct:
  assumes ok: "tg_ok g"
  shows "\<exists>g' batch ps b'. tg_select_batch g budget
      = (Ok g' (batch, ps) :: (transaction_graph, 'e, auth_tx list \<times> transaction_id set) outcome)
    \<and> tg_ok g' \<and> distinct (map tx_id batch) \<and> set batch \<subseteq> ran (vertices g)
    \<and> processed g' = processed g \<union> tx_id ` set batch \<and> tx_id ` set batch \<inter> processed g = {}
    \<and> vertices g' = vertices g \<and> parents g' = parents g
    \<and> topological g (processed g) (map tx_id batch) \<and> ps = (\<Union>tx \<in> set batch. pars g (tx_id tx))
    \<and> length batch \<le> budget_transactions budget \<and> length batch \<le> budget_accounts budget
    \<and> sum_list (map tx_input_note_count batch) \<le> budget_input_notes budget
    \<and> sum_list (map tx_output_note_count batch) \<le> budget_output_notes budget
    \<and> (roots g' = {} \<or> snd (batch_check_then_subtract b' (the (vertices g (Min (roots g'))))) = Exceeded)
    \<and> spend batch_check_then_subtract budget batch = Some b'"
proof -
  from tg_select_batch_Ok[OF ok, of budget, where ?'e = 'e] obtain ks g' where
    r: "tg_select_batch g budget = (Ok g' (values_of g ks, \<Union>k \<in> set ks. pars g k)
      :: (transaction_graph, 'e, auth_tx list \<times> transaction_id set) outcome)"
    and s: "selection batch_check_then_subtract g budget ks g'" and ok': "tg_ok g'"
    and ids: "map tx_id (values_of g ks) = ks" by blast
  note s' = s[unfolded selection_def]
  from s' obtain b' where b': "spend batch_check_then_subtract budget (values_of g ks) = Some b'"
    "roots g' = {} \<or> snd (batch_check_then_subtract b' (the (vertices g (Min (roots g'))))) = Exceeded" by blast
  note bounds = spend_batch_bounds[OF b'(1)]
  have img: "tx_id ` set (values_of g ks) = set ks" using ids by (metis set_map)
  have ran: "set (values_of g ks) \<subseteq> ran (vertices g)"
    using s' by (fastforce simp: values_of_def ran_def)
  have ps: "(\<Union>k \<in> set ks. pars g k) = (\<Union>tx \<in> set (values_of g ks). pars g (tx_id tx))"
    unfolding img[symmetric] by simp
  show ?thesis
    using r ok' s' ids img ran ps b' bounds
    by (intro exI[of _ g'] exI[of _ "values_of g ks"] exI[of _ "\<Union>k \<in> set ks. pars g k"] exI[of _ b']) simp
qed

theorem select_batch_correct_witness:
  "\<exists>g' ps. tg_select_batch sample_tx_graph \<lparr>budget_transactions = 2, budget_input_notes = 5, budget_output_notes = 5, budget_accounts = 5\<rparr>
     = (Ok g' ([sample_first, sample_second], ps) :: (transaction_graph, unit, auth_tx list \<times> transaction_id set) outcome)
   \<and> processed g' = {1, 2}"
proof -
  let ?b = "\<lparr>budget_transactions = 2, budget_input_notes = 5, budget_output_notes = 5, budget_accounts = 5\<rparr>"
  obtain g' batch ps where r: "tg_select_batch sample_tx_graph ?b
      = (Ok g' (batch, ps) :: (transaction_graph, unit, auth_tx list \<times> transaction_id set) outcome)"
    and p: "processed g' = processed sample_tx_graph \<union> tx_id ` set batch"
    using select_batch_correct[OF sample_tx_graph_ok, of ?b, where ?'e = unit] by blast
  have two: "{2, Suc 0} = {Suc 0, 2}" by blast
  have "tg_select_batch sample_tx_graph ?b
      = (Ok (sample_tx_graph\<lparr>processed := {1, 2}, roots := {}\<rparr>) ([sample_first, sample_second], {1})
        :: (transaction_graph, unit, auth_tx list \<times> transaction_id set) outcome)"
    by (simp add: tg_select_batch_def sample_tx_graph_def graph_get_def graph_parents_def process_root_def
        try_make_root_def set_or_default_def batch_check_then_subtract_def Let_def sample_first_def sample_second_def two)
  with r p show ?thesis by (auto simp: sample_tx_graph_def)
qed

end
