(* ===== verification/Batch_Graph.thy ===== *)
theory Batch_Graph
  imports Root_Selection
begin

text \<open>
  The batch graph of the mempool (crates/block-producer/src/mempool/batch_graph.rs): the dependency
  graph of inflight batches, with the two maps between batches and their transactions. The function
  that derives a batch's identifier from its transactions, \<open>BatchId::from_ids\<close> of the protocol
  library, is the parameter \<open>from_ids\<close>; it is a hash, so the properties take it to be injective.
\<close>

section \<open>Model\<close>

record batch_graph =
  bg_inner :: "(batch_id, proven_batch) dep_graph"
  bg_transactions :: "transaction_id \<rightharpoonup> batch_id"
  bg_batches :: "batch_id \<rightharpoonup> transaction_id list"

datatype batch_insert_error =
    DuplicateTransactions "transaction_id set"
  | UnknownParentTransaction transaction_id
  | GraphError "batch_id graph_error"

definition bg_default :: batch_graph where
  "bg_default = \<lparr>bg_inner = graph_default, bg_transactions = Map.empty, bg_batches = Map.empty\<rparr>"

text \<open>The lookup of the parents' batches stops at the first unknown transaction.\<close>

fun lookup_batches :: "(transaction_id \<rightharpoonup> batch_id) \<Rightarrow> transaction_id list \<Rightarrow> batch_insert_error + batch_id set" where
  "lookup_batches m [] = Inr {}"
| "lookup_batches m (tx # txs) = (case m tx of
     None \<Rightarrow> Inl (UnknownParentTransaction tx)
   | Some b \<Rightarrow> (case lookup_batches m txs of Inl e \<Rightarrow> Inl e | Inr bs \<Rightarrow> Inr (insert b bs)))"

definition assign_batch :: "batch_id \<Rightarrow> (transaction_id \<times> account_id) list \<Rightarrow> (transaction_id \<rightharpoonup> batch_id) \<Rightarrow> (transaction_id \<rightharpoonup> batch_id)" where
  "assign_batch i txs m = fold (\<lambda>(tx, _) m. m(tx \<mapsto> i)) txs m"

definition bg_insert ::
  "((transaction_id \<times> account_id) list \<Rightarrow> batch_id) \<Rightarrow> batch_graph \<Rightarrow> (transaction_id \<times> account_id) list \<Rightarrow>
     transaction_id set \<Rightarrow> (batch_graph, batch_insert_error, batch_id) outcome" where
  "bg_insert from_ids bg txs ps =
     (let duplicates = {tx \<in> fst ` set txs. contains_key (bg_transactions bg) tx} in
      if duplicates \<noteq> {} then Err bg (DuplicateTransactions duplicates)
      else let ps' = ps - fst ` set txs in
      case lookup_batches (bg_transactions bg) (sorted_list_of_set ps') of
        Inl e \<Rightarrow> Err bg e
      | Inr parent_batches \<Rightarrow>
          let i = from_ids txs in
          and_then (map_err GraphError (in_field (\<lambda>g. bg\<lparr>bg_inner := g\<rparr>) (insert_pending (bg_inner bg) i parent_batches)))
            (\<lambda>bg' _. Ok (bg'\<lparr>bg_transactions := assign_batch i txs (bg_transactions bg'),
                             bg_batches := (bg_batches bg')(i \<mapsto> map fst txs)\<rparr>) i))"

text \<open>\<open>batches.remove(id).expect(..)\<close> for each identifier, collected in an ordered map.\<close>

fun take_batches ::
  "batch_id list \<Rightarrow> (batch_id \<rightharpoonup> transaction_id list) \<Rightarrow>
     ((batch_id \<rightharpoonup> transaction_id list) \<times> (batch_id \<times> transaction_id list) list) option" where
  "take_batches [] m = Some (m, [])"
| "take_batches (b # bs) m = (case m b of
     None \<Rightarrow> None
   | Some txs \<Rightarrow> (case take_batches bs (m(b := None)) of None \<Rightarrow> None
       | Some (m', taken) \<Rightarrow> Some (m', (b, txs) # taken)))"

definition remove_batches ::
  "batch_graph \<Rightarrow> batch_id set \<Rightarrow> (batch_graph, batch_id graph_error, (batch_id \<times> transaction_id list) list) outcome" where
  "remove_batches bg batch_ids =
     and_then (in_field (\<lambda>g. bg\<lparr>bg_inner := g\<rparr>) (purge_subgraphs (bg_inner bg) batch_ids)) (\<lambda>bg' removed.
       case take_batches (sorted_list_of_set removed) (bg_batches bg') of
         None \<Rightarrow> Panic
       | Some (m, batches) \<Rightarrow>
           Ok (bg'\<lparr>bg_batches := m,
                   bg_transactions := remove_keys (concat (map snd batches)) (bg_transactions bg')\<rparr>) batches)"

definition remove_batches_with_transactions ::
  "batch_graph \<Rightarrow> transaction_id list \<Rightarrow> (batch_graph, 'e, (batch_id \<times> transaction_id list) list) outcome" where
  "remove_batches_with_transactions bg txs =
     (let batches = set (List.map_filter (bg_transactions bg) txs) in expect (remove_batches bg batches))"

text \<open>\<open>batches.remove(id)\<close> for each identifier, an absent one contributing nothing.\<close>

fun drain_batches ::
  "batch_id list \<Rightarrow> (batch_id \<rightharpoonup> transaction_id list) \<Rightarrow> (batch_id \<rightharpoonup> transaction_id list) \<times> transaction_id list" where
  "drain_batches [] m = (m, [])"
| "drain_batches (b # bs) m =
     (case drain_batches bs (m(b := None)) of (m', txs) \<Rightarrow> (m', (case m b of None \<Rightarrow> [] | Some ts \<Rightarrow> ts) @ txs))"

definition prune_committed ::
  "batch_graph \<Rightarrow> batch_id set \<Rightarrow> (batch_graph, batch_id graph_error, transaction_id list) outcome" where
  "prune_committed bg batch_ids =
     and_then (in_field (\<lambda>g. bg\<lparr>bg_inner := g\<rparr>) (prune_processed (bg_inner bg) batch_ids)) (\<lambda>bg' _.
       case drain_batches (sorted_list_of_set batch_ids) (bg_batches bg') of (m, transactions) \<Rightarrow>
         Ok (bg'\<lparr>bg_batches := m, bg_transactions := remove_keys transactions (bg_transactions bg')\<rparr>) transactions)"

definition submit_proof :: "batch_graph \<Rightarrow> proven_batch \<Rightarrow> (batch_graph, batch_id graph_error, unit) outcome" where
  "submit_proof bg batch = in_field (\<lambda>g. bg\<lparr>bg_inner := g\<rparr>) (promote_pending (bg_inner bg) (pb_id batch) batch)"

function select_block_loop ::
  "(batch_id, proven_batch) dep_graph \<Rightarrow> block_budget \<Rightarrow> proven_batch list \<Rightarrow>
     ((batch_id, proven_batch) dep_graph, 'e, proven_batch list) outcome" where
  "select_block_loop g budget batches =
     (if roots g = {} then Ok g batches
      else let batch_id = Min (roots g) in
        case graph_get g batch_id of None \<Rightarrow> Panic | Some batch \<Rightarrow>
        case block_check_then_subtract budget batch of (budget', status) \<Rightarrow>
        if status = Exceeded then Ok g batches
        else case process_root g batch_id of
            Ok g' _ \<Rightarrow> select_block_loop g' budget' (batches @ [batch])
          | Err g' e \<Rightarrow> Panic | Panic \<Rightarrow> Panic | Diverge \<Rightarrow> Diverge)"
  by pat_completeness auto
termination
proof (relation "measure (\<lambda>(g, b, acc). budget_batches b)")
  fix g :: "(batch_id, proven_batch) dep_graph" and b b' :: block_budget and batch st
  assume "(b', st) = block_check_then_subtract b batch" and "st \<noteq> Exceeded"
  then have "block_check_then_subtract b batch = (b', WithinScope)" by (cases st) auto
  from block_check_WithinScope[OF this]
  show "((g', b', acc'), g, b, acc) \<in> measure (\<lambda>(g, b, acc). budget_batches b)" for g' acc' acc by simp
qed simp

definition bg_select_block :: "batch_graph \<Rightarrow> block_budget \<Rightarrow> (batch_graph, 'e, proven_batch list) outcome" where
  "bg_select_block bg budget = in_field (\<lambda>g. bg\<lparr>bg_inner := g\<rparr>) (select_block_loop (bg_inner bg) budget [])"

definition bg_contains :: "batch_graph \<Rightarrow> batch_id \<Rightarrow> bool" where
  "bg_contains bg i = contains_key (bg_batches bg) i"

definition bg_get_transactions :: "batch_graph \<Rightarrow> batch_id \<Rightarrow> transaction_id list option" where
  "bg_get_transactions bg i = bg_batches bg i"

definition bg_num_pending :: "batch_graph \<Rightarrow> nat" where
  "bg_num_pending bg = num_pending (bg_inner bg)"

definition bg_num_proven :: "batch_graph \<Rightarrow> nat" where
  "bg_num_proven bg = num_processed (bg_inner bg)"

definition bg_len :: "batch_graph \<Rightarrow> nat" where
  "bg_len bg = graph_len (bg_inner bg)"

definition bg_num_roots :: "batch_graph \<Rightarrow> nat" where
  "bg_num_roots bg = num_roots (bg_inner bg)"

section \<open>The invariant\<close>

text \<open>
  The maps agree with the graph and with each other: the batches are the nodes, each transaction
  maps to the batch that lists it, and each proven batch is stored under its identifier.
\<close>

definition bg_ok :: "batch_graph \<Rightarrow> bool" where
  "bg_ok bg \<longleftrightarrow> wf_graph (bg_inner bg) \<and> dom (bg_batches bg) = nodes (bg_inner bg)
     \<and> (\<forall>tx b. bg_transactions bg tx = Some b \<longleftrightarrow> (\<exists>ts. bg_batches bg b = Some ts \<and> tx \<in> set ts))
     \<and> (\<forall>b ts. bg_batches bg b = Some ts \<longrightarrow> distinct ts)
     \<and> (\<forall>b v. vertices (bg_inner bg) b = Some v \<longrightarrow> pb_id v = b)"

text \<open>The transactions of some batches.\<close>

definition txs_of :: "batch_graph \<Rightarrow> batch_id set \<Rightarrow> transaction_id set" where
  "txs_of bg bs = {tx. \<exists>b \<in> bs. bg_transactions bg tx = Some b}"

definition bg_delete :: "batch_graph \<Rightarrow> batch_id set \<Rightarrow> batch_graph" where
  "bg_delete bg R = \<lparr>bg_inner = delete_nodes (bg_inner bg) R,
     bg_transactions = bg_transactions bg |` (- txs_of bg R), bg_batches = bg_batches bg |` (- R)\<rparr>"

lemma bg_okD:
  assumes "bg_ok bg"
  shows "wf_graph (bg_inner bg)" "dom (bg_batches bg) = nodes (bg_inner bg)"
    "bg_transactions bg tx = Some b \<longleftrightarrow> (\<exists>ts. bg_batches bg b = Some ts \<and> tx \<in> set ts)"
    "bg_batches bg b = Some ts \<Longrightarrow> distinct ts"
    "vertices (bg_inner bg) b = Some v \<Longrightarrow> pb_id v = b"
  using assms unfolding bg_ok_def by blast+

lemma bg_okI:
  assumes "wf_graph (bg_inner bg)" and "dom (bg_batches bg) = nodes (bg_inner bg)"
    and "\<And>tx b. bg_transactions bg tx = Some b \<longleftrightarrow> (\<exists>ts. bg_batches bg b = Some ts \<and> tx \<in> set ts)"
    and "\<And>b ts. bg_batches bg b = Some ts \<Longrightarrow> distinct ts"
    and "\<And>b v. vertices (bg_inner bg) b = Some v \<Longrightarrow> pb_id v = b"
  shows "bg_ok bg"
  unfolding bg_ok_def by (intro conjI allI impI) (rule assms | assumption)+

lemma bg_default_ok: "bg_ok bg_default"
  by (simp add: bg_ok_def bg_default_def wf_graph_default) (simp add: graph_default_def nodes_def)

lemma txs_of_batches:
  assumes "bg_ok bg" and "bs \<subseteq> nodes (bg_inner bg)"
  shows "txs_of bg bs = (\<Union>b \<in> bs. set (the (bg_batches bg b)))"
proof -
  have mem: "bg_transactions bg tx = Some b \<longleftrightarrow> tx \<in> set (the (bg_batches bg b))" if b: "b \<in> bs" for tx b
  proof -
    obtain ts where "bg_batches bg b = Some ts" using b assms(2) bg_okD(2)[OF assms(1)] by blast
    then show ?thesis using bg_okD(3)[OF assms(1), of tx b] by simp
  qed
  show ?thesis by (rule set_eqI) (simp add: txs_of_def mem)
qed

lemma bg_delete_ok:
  assumes ok: "bg_ok bg" and wf: "wf_graph (delete_nodes (bg_inner bg) R)"
  shows "bg_ok (bg_delete bg R)"
proof (rule bg_okI)
  note okD = bg_okD[OF ok]
  show "bg_transactions (bg_delete bg R) tx = Some b
      \<longleftrightarrow> (\<exists>ts. bg_batches (bg_delete bg R) b = Some ts \<and> tx \<in> set ts)" for tx b
    using okD(3)[of tx b] by (auto simp: bg_delete_def txs_of_def restrict_map_def)
  show "dom (bg_batches (bg_delete bg R)) = nodes (bg_inner (bg_delete bg R))"
    using okD(2) by (auto simp: bg_delete_def)
  show "bg_batches (bg_delete bg R) b = Some ts \<Longrightarrow> distinct ts" for b ts
    using okD(4)[of b ts] by (simp add: bg_delete_def restrict_map_def split: if_splits)
  show "vertices (bg_inner (bg_delete bg R)) b = Some v \<Longrightarrow> pb_id v = b" for b v
    using okD(5)[of b v] by (simp add: bg_delete_def restrict_map_def split: if_splits)
  show "wf_graph (bg_inner (bg_delete bg R))" using wf by (simp add: bg_delete_def)
qed

section \<open>The operations\<close>

lemma lookup_batches_Inr:
  "set txs \<subseteq> dom m \<Longrightarrow> lookup_batches m txs = Inr ((\<lambda>tx. the (m tx)) ` set txs)"
  by (induction txs) auto

lemma lookup_batches_Inl:
  "\<not> set txs \<subseteq> dom m \<Longrightarrow> \<exists>tx \<in> set txs. tx \<notin> dom m \<and> lookup_batches m txs = Inl (UnknownParentTransaction tx)"
proof (induction txs)
  case (Cons a txs)
  show ?case
  proof (cases "m a")
    case (Some b)
    then have "\<not> set txs \<subseteq> dom m" using Cons.prems by auto
    from Cons.IH[OF this] Some show ?thesis by auto
  qed auto
qed simp

lemma assign_batch_apply: "assign_batch i txs m tx = (if tx \<in> fst ` set txs then Some i else m tx)"
  unfolding assign_batch_def by (induction txs arbitrary: m) (auto simp: image_iff)

lemma bg_insert_Ok:
  assumes ok: "bg_ok bg" and new: "fst ` set txs \<inter> dom (bg_transactions bg) = {}" and dist: "distinct (map fst txs)"
    and ps: "finite ps" "ps - fst ` set txs \<subseteq> dom (bg_transactions bg)" and fresh: "from_ids txs \<notin> nodes (bg_inner bg)"
  defines "pb \<equiv> (\<lambda>tx. the (bg_transactions bg tx)) ` (ps - fst ` set txs)"
  shows "\<exists>bg'. bg_insert from_ids bg txs ps = Ok bg' (from_ids txs) \<and> bg_ok bg'
    \<and> bg_batches bg' = (bg_batches bg)(from_ids txs \<mapsto> map fst txs)
    \<and> bg_transactions bg' = assign_batch (from_ids txs) txs (bg_transactions bg)
    \<and> pars (bg_inner bg') = (pars (bg_inner bg))(from_ids txs := pb)
    \<and> pending (bg_inner bg') = insert (from_ids txs) (pending (bg_inner bg))
    \<and> vertices (bg_inner bg') = vertices (bg_inner bg) \<and> processed (bg_inner bg') = processed (bg_inner bg)"
proof -
  note okD = bg_okD[OF ok]
  let ?i = "from_ids txs" and ?g = "bg_inner bg"
  have none: "{tx \<in> fst ` set txs. contains_key (bg_transactions bg) tx} = {}" using new by auto
  have look: "lookup_batches (bg_transactions bg) (sorted_list_of_set (ps - fst ` set txs)) = Inr pb"
    using lookup_batches_Inr[of "sorted_list_of_set (ps - fst ` set txs)" "bg_transactions bg"] ps by (simp add: pb_def)
  have pbn: "pb \<subseteq> nodes ?g"
  proof
    fix b assume "b \<in> pb"
    then obtain tx where "bg_transactions bg tx = Some b" using ps(2) by (auto simp: pb_def)
    then show "b \<in> nodes ?g" using okD(2,3) by blast
  qed
  obtain g' where ins: "insert_pending ?g ?i pb = Ok g' ()"
    using insert_pending_Ok[of ?g ?i pb] fresh pbn by blast
  note sh = insert_pending_shape[OF wf_graphD(1)[OF okD(1)] ins]
  define bg' where "bg' = \<lparr>bg_inner = g', bg_transactions = assign_batch ?i txs (bg_transactions bg),
      bg_batches = (bg_batches bg)(?i \<mapsto> map fst txs)\<rparr>"
  have run: "bg_insert from_ids bg txs ps = Ok bg' ?i"
    using none look ins by (simp add: bg_insert_def Let_def bg'_def)
  have notb: "bg_batches bg ?i = None" using fresh okD(2) by blast
  have "bg_ok bg'"
    unfolding bg_ok_def
  proof (intro conjI allI impI)
    show "wf_graph (bg_inner bg')" using insert_pending_wf[OF okD(1) ins] by (simp add: bg'_def)
    show "dom (bg_batches bg') = nodes (bg_inner bg')" using okD(2) sh(1) by (auto simp: bg'_def)
    show "bg_transactions bg' tx = Some b \<longleftrightarrow> (\<exists>ts. bg_batches bg' b = Some ts \<and> tx \<in> set ts)" for tx b
      using okD(3)[of tx b] new notb by (auto simp: bg'_def assign_batch_apply)
    show "distinct ts" if "bg_batches bg' b = Some ts" for b ts
      using that okD(4) dist by (auto simp: bg'_def split: if_splits)
    show "pb_id v = b" if "vertices (bg_inner bg') b = Some v" for b v
      using that okD(5) sh(6) by (simp add: bg'_def)
  qed
  with run sh show ?thesis by (intro exI[of _ bg']) (simp add: bg'_def)
qed

lemma take_batches_Some:
  "distinct bs \<Longrightarrow> set bs \<subseteq> dom m \<Longrightarrow> take_batches bs m = Some (m |` (- set bs), map (\<lambda>b. (b, the (m b))) bs)"
proof (induction bs arbitrary: m)
  case Nil
  then show ?case by (simp add: restrict_map_def)
next
  case (Cons b bs)
  then obtain txs where b: "m b = Some txs" by auto
  have "set bs \<subseteq> dom (m(b := None))" using Cons.prems by auto
  with Cons have "take_batches bs (m(b := None)) = Some ((m(b := None)) |` (- set bs), map (\<lambda>c. (c, the ((m(b := None)) c))) bs)"
    by simp
  moreover have "(m(b := None)) |` (- set bs) = m |` (- set (b # bs))"
    by (auto simp: restrict_map_def fun_eq_iff)
  moreover have "map (\<lambda>c. (c, the ((m(b := None)) c))) bs = map (\<lambda>c. (c, the (m c))) bs"
    using Cons.prems(1) by auto
  ultimately show ?case using b by simp
qed

lemma drain_batches_eq:
  "distinct bs \<Longrightarrow> set bs \<subseteq> dom m \<Longrightarrow> drain_batches bs m = (m |` (- set bs), concat (map (\<lambda>b. the (m b)) bs))"
proof (induction bs arbitrary: m)
  case Nil
  then show ?case by (simp add: restrict_map_def)
next
  case (Cons b bs)
  then obtain txs where b: "m b = Some txs" by auto
  have "set bs \<subseteq> dom (m(b := None))" "distinct bs" using Cons.prems by auto
  note ih = Cons.IH[OF this(2,1)]
  have r: "(m(b := None)) |` (- set bs) = m |` (- set (b # bs))"
    by (auto simp: restrict_map_def fun_eq_iff)
  have "map (\<lambda>c. the ((m(b := None)) c)) bs = map (\<lambda>c. the (m c)) bs" using Cons.prems(1) by auto
  with ih have "drain_batches bs (m(b := None)) = (m |` (- set (b # bs)), concat (map (\<lambda>c. the (m c)) bs))"
    by (simp only: r)
  then show ?case using b by (simp only: drain_batches.simps prod.case option.case list.map concat.simps option.sel)
qed

lemma remove_batches_Ok:
  assumes ok: "bg_ok bg" and ids: "ids \<subseteq> nodes (bg_inner bg)"
  defines "R \<equiv> descendants (bg_inner bg) ids"
  shows "remove_batches bg ids = Ok (bg_delete bg R) (map (\<lambda>b. (b, the (bg_batches bg b))) (sorted_list_of_set R))"
    "bg_ok (bg_delete bg R)" "R \<subseteq> nodes (bg_inner bg)" "finite R"
    "set (concat (map snd (map (\<lambda>b. (b, the (bg_batches bg b))) (sorted_list_of_set R)))) = txs_of bg R"
proof -
  note okD = bg_okD[OF ok]
  have sh: "wf_shape (bg_inner bg)" by (rule wf_graphD(1)[OF okD(1)])
  show R: "R \<subseteq> nodes (bg_inner bg)" unfolding R_def by (rule wf_descendants_nodes[OF sh ids])
  show fin: "finite R" using R wf_shapeD(1)[OF sh] by (rule finite_subset)
  show "bg_ok (bg_delete bg R)" using bg_delete_ok[OF ok] purge_subgraphs_wf[OF okD(1) ids] by (simp add: R_def)
  have take: "take_batches (sorted_list_of_set R) (bg_batches bg)
      = Some (bg_batches bg |` (- R), map (\<lambda>b. (b, the (bg_batches bg b))) (sorted_list_of_set R))"
    using take_batches_Some[of "sorted_list_of_set R" "bg_batches bg"] R okD(2) fin by simp
  show txs: "set (concat (map snd (map (\<lambda>b. (b, the (bg_batches bg b))) (sorted_list_of_set R)))) = txs_of bg R"
    using fin by (simp add: txs_of_batches[OF ok R] comp_def)
  define taken where "taken = map (\<lambda>b. (b, the (bg_batches bg b))) (sorted_list_of_set R)"
  show "remove_batches bg ids = Ok (bg_delete bg R) (map (\<lambda>b. (b, the (bg_batches bg b))) (sorted_list_of_set R))"
  proof -
    have rk: "remove_keys (concat (map snd taken)) m = m |` (- txs_of bg R)" for m :: "transaction_id \<rightharpoonup> batch_id"
      by (simp only: remove_keys_eq txs[folded taken_def])
    show ?thesis
      using purge_subgraphs_Ok[OF sh ids, folded R_def] take[folded taken_def]
      unfolding taken_def[symmetric] remove_batches_def by (simp add: bg_delete_def rk)
  qed
qed

lemma distinct_concat_map:
  assumes "distinct xs" and "\<And>x. x \<in> set xs \<Longrightarrow> distinct (f x)"
    and "\<And>x y. x \<in> set xs \<Longrightarrow> y \<in> set xs \<Longrightarrow> x \<noteq> y \<Longrightarrow> set (f x) \<inter> set (f y) = {}"
  shows "distinct (concat (map f xs))"
  using assms
proof (induction xs)
  case (Cons x xs)
  have "set (f x) \<inter> set (f y) = {}" if "y \<in> set xs" for y
    using that Cons.prems(1) by (intro Cons.prems(3)) auto
  then have "set (f x) \<inter> set (concat (map f xs)) = {}" by auto
  moreover have "distinct (concat (map f xs))" using Cons by simp
  moreover have "distinct (f x)" using Cons.prems(2) by simp
  ultimately show ?case by simp
qed simp

lemma prune_committed_Ok:
  assumes ok: "bg_ok bg" and ids: "ids \<subseteq> processed (bg_inner bg)"
    and closed: "\<And>b. b \<in> ids \<Longrightarrow> pars (bg_inner bg) b \<subseteq> ids"
  defines "ts \<equiv> concat (map (\<lambda>b. the (bg_batches bg b)) (sorted_list_of_set ids))"
  shows "prune_committed bg ids = Ok (bg_delete bg ids) ts" "bg_ok (bg_delete bg ids)" "set ts = txs_of bg ids"
    "distinct ts"
proof -
  note okD = bg_okD[OF ok]
  have sub: "ids \<subseteq> nodes (bg_inner bg)" using ids wf_graphD(2)[OF okD(1)] by (auto simp: nodes_def)
  have fin: "finite ids" using ids wf_graph_ready_sets(1)[OF okD(1)] by (rule finite_subset)
  show "bg_ok (bg_delete bg ids)" using bg_delete_ok[OF ok delete_processed_wf[OF okD(1) ids]] .
  show set_ts: "set ts = txs_of bg ids" using fin by (simp add: ts_def txs_of_batches[OF ok sub])
  have drain: "drain_batches (sorted_list_of_set ids) (bg_batches bg) = (bg_batches bg |` (- ids), ts)"
    using drain_batches_eq[of "sorted_list_of_set ids" "bg_batches bg"] sub okD(2) fin by (simp add: ts_def)
  show "prune_committed bg ids = Ok (bg_delete bg ids) ts"
    using prune_processed_Ok[OF okD(1) ids closed] drain set_ts
    by (simp add: prune_committed_def bg_delete_def remove_keys_eq)
  have disj: "set (the (bg_batches bg b)) \<inter> set (the (bg_batches bg c)) = {}"
    if bc: "b \<in> ids" "c \<in> ids" "b \<noteq> c" for b c
  proof -
    obtain tb tc where t: "bg_batches bg b = Some tb" "bg_batches bg c = Some tc"
      using bc(1,2) sub okD(2) by blast
    show ?thesis
    proof (rule ccontr)
      assume "set (the (bg_batches bg b)) \<inter> set (the (bg_batches bg c)) \<noteq> {}"
      then obtain tx where "tx \<in> set tb" "tx \<in> set tc" using t by auto
      then have "bg_transactions bg tx = Some b" "bg_transactions bg tx = Some c"
        using okD(3)[of tx b] okD(3)[of tx c] t by auto
      with bc(3) show False by simp
    qed
  qed
  have dist: "distinct (the (bg_batches bg b))" if b: "b \<in> ids" for b
  proof -
    obtain tb where "bg_batches bg b = Some tb" using b sub okD(2) by blast
    then show ?thesis using okD(4)[of b tb] by simp
  qed
  show "distinct ts"
    unfolding ts_def by (rule distinct_concat_map) (use dist disj fin in \<open>simp_all only: set_sorted_list_of_set distinct_sorted_list_of_set\<close>)
qed

lemma submit_proof_Ok:
  assumes ok: "bg_ok bg" and pend: "pb_id batch \<in> pending (bg_inner bg)"
  shows "\<exists>bg'. submit_proof bg batch = Ok bg' () \<and> bg_ok bg' \<and> bg_batches bg' = bg_batches bg
    \<and> bg_transactions bg' = bg_transactions bg \<and> parents (bg_inner bg') = parents (bg_inner bg)
    \<and> pending (bg_inner bg') = pending (bg_inner bg) - {pb_id batch}
    \<and> vertices (bg_inner bg') = (vertices (bg_inner bg))(pb_id batch \<mapsto> batch)
    \<and> processed (bg_inner bg') = processed (bg_inner bg)"
proof -
  note okD = bg_okD[OF ok]
  note pr = promote_pending_Ok[OF okD(1) pend, of batch]
  then obtain g' where g': "promote_pending (bg_inner bg) (pb_id batch) batch = Ok g' ()" by blast
  note wf' = promote_pending_wf[OF okD(1) g']
  have sel: "vertices g' = (vertices (bg_inner bg))(pb_id batch \<mapsto> batch)"
      "pending g' = pending (bg_inner bg) - {pb_id batch}" "parents g' = parents (bg_inner bg)"
      "processed g' = processed (bg_inner bg)" using pr g' by auto
  have "pb_id v = b" if "vertices g' b = Some v" for b v
    using that okD(5)[of b v] by (simp add: sel(1) split: if_splits)
  then have "bg_ok (bg\<lparr>bg_inner := g'\<rparr>)"
    using okD(2,3,4) wf'(1,2) by (intro bg_okI) simp_all
  with g' sel show ?thesis by (simp add: submit_proof_def)
qed

section \<open>Block selection\<close>

definition collect_batch :: "proven_batch \<Rightarrow> batch_id set \<Rightarrow> proven_batch list \<Rightarrow> proven_batch list" where
  "collect_batch batch ps acc = acc @ [batch]"

interpretation block_sel: root_selection block_check_then_subtract budget_batches collect_batch
  "select_block_loop :: (batch_id, proven_batch) dep_graph \<Rightarrow> block_budget \<Rightarrow> proven_batch list \<Rightarrow>
     ((batch_id, proven_batch) dep_graph, 'e, proven_batch list) outcome"
proof (unfold_locales, goal_cases)
  case (1 b v b')
  then show ?case using block_check_WithinScope[of b v b'] by simp
next
  case (4 g v b b' g' ps a)
  then show ?case by (simp add: collect_batch_def)
qed simp_all

lemma fold_collect_batch:
  "fold (\<lambda>k. collect_batch (the (vertices g k)) (pars g k)) ks acc = acc @ values_of g ks"
  by (induction ks arbitrary: acc) (auto simp: collect_batch_def values_of_def)

lemma bg_select_block_Ok:
  assumes ok: "bg_ok bg"
  shows "\<exists>ks g'. bg_select_block bg budget = (Ok (bg\<lparr>bg_inner := g'\<rparr>) (values_of (bg_inner bg) ks)
      :: (batch_graph, 'e, proven_batch list) outcome)
    \<and> selection block_check_then_subtract (bg_inner bg) budget ks g' \<and> bg_ok (bg\<lparr>bg_inner := g'\<rparr>)
    \<and> map pb_id (values_of (bg_inner bg) ks) = ks"
proof -
  note okD = bg_okD[OF ok]
  from block_sel.selects[OF okD(1), of budget "[]", where ?'e = 'e] obtain ks g' where
    s: "select_block_loop (bg_inner bg) budget [] =
        (Ok g' (fold (\<lambda>k. collect_batch (the (vertices (bg_inner bg) k)) (pars (bg_inner bg) k)) ks [])
         :: (_, 'e, proven_batch list) outcome)"
      "selection block_check_then_subtract (bg_inner bg) budget ks g'" by blast
  have "pb_id (the (vertices (bg_inner bg) k)) = k" if "k \<in> set ks" for k
    using selection_values[OF s(2) that] okD(5) by auto
  then have "map pb_id (values_of (bg_inner bg) ks) = ks" by (simp add: values_of_def comp_def map_idI)
  moreover have "bg_ok (bg\<lparr>bg_inner := g'\<rparr>)"
    using s(2) okD unfolding bg_ok_def by (auto simp: selection_def nodes_def)
  ultimately show ?thesis using s by (auto simp: bg_select_block_def fold_collect_batch)
qed

lemma spend_block_bounds:
  "spend block_check_then_subtract b batches = Some b' \<Longrightarrow> length batches + budget_batches b' = budget_batches b"
proof (induction batches arbitrary: b)
  case (Cons x xs)
  obtain b1 st where c: "block_check_then_subtract b x = (b1, st)" by fastforce
  with Cons.prems have st: "st = WithinScope" and rest: "spend block_check_then_subtract b1 xs = Some b'"
    by (auto split: if_splits)
  show ?case using block_check_WithinScope[OF c[unfolded st]] Cons.IH[OF rest] by simp
qed simp

lemma remove_with_transactions_Ok:
  fixes txs :: "transaction_id list"
  assumes ok: "bg_ok bg"
  defines "R \<equiv> descendants (bg_inner bg) {b. \<exists>tx \<in> set txs. bg_transactions bg tx = Some b}"
  shows "remove_batches_with_transactions bg txs =
      Ok (bg_delete bg R) (map (\<lambda>b. (b, the (bg_batches bg b))) (sorted_list_of_set R))"
    "bg_ok (bg_delete bg R)" "R \<subseteq> nodes (bg_inner bg)" "finite R"
    "set (concat (map snd (map (\<lambda>b. (b, the (bg_batches bg b))) (sorted_list_of_set R)))) = txs_of bg R"
proof -
  let ?B = "{b. \<exists>tx \<in> set txs. bg_transactions bg tx = Some b}"
  have b: "set (List.map_filter (bg_transactions bg) txs) = ?B"
    by (induction txs) (auto simp: List.map_filter_simps split: option.splits)
  have sub: "?B \<subseteq> nodes (bg_inner bg)"
  proof
    fix b assume "b \<in> ?B"
    then obtain tx where "bg_transactions bg tx = Some b" by blast
    then obtain ts where "bg_batches bg b = Some ts" using bg_okD(3)[OF ok, of tx b] by blast
    then show "b \<in> nodes (bg_inner bg)" using bg_okD(2)[OF ok] by blast
  qed
  note r = remove_batches_Ok[OF ok sub, folded R_def]
  show "remove_batches_with_transactions bg txs =
      Ok (bg_delete bg R) (map (\<lambda>b. (b, the (bg_batches bg b))) (sorted_list_of_set R))"
    unfolding remove_batches_with_transactions_def b Let_def r(1) by simp
  show "bg_ok (bg_delete bg R)" "R \<subseteq> nodes (bg_inner bg)" "finite R"
    "set (concat (map snd (map (\<lambda>b. (b, the (bg_batches bg b))) (sorted_list_of_set R)))) = txs_of bg R"
    using r(2-5) by this+
qed

section \<open>Properties\<close>

text \<open>The inner graph is written only by the calls above, so the rest of the graph is unchanged.\<close>

definition sample_batch :: proven_batch where
  "sample_batch = \<lparr>pb_id = 10, pb_security_level = 96\<rparr>"

definition sample_ids :: "(transaction_id \<times> account_id) list \<Rightarrow> batch_id" where
  "sample_ids txs = (if txs = [] then 0 else 10 * fst (hd txs))"

definition sample_batch_graph :: batch_graph where
  "sample_batch_graph = \<lparr>bg_inner = \<lparr>pending = {}, vertices = [10 \<mapsto> sample_batch], parents = [10 \<mapsto> {}],
       children = [10 \<mapsto> {}], roots = {10}, processed = {}\<rparr>,
     bg_transactions = [1 \<mapsto> 10], bg_batches = [10 \<mapsto> [1]]\<rparr>"

lemma sample_batch_graph_ok: "bg_ok sample_batch_graph"
proof -
  obtain bg where bg: "bg_insert sample_ids bg_default [(1, 7)] {} = Ok bg 10" "bg_ok bg" "pending (bg_inner bg) = {10}"
    using bg_insert_Ok[OF bg_default_ok, of "[(1, 7)]" "{}" sample_ids]
    by (auto simp: bg_default_def graph_default_def nodes_def sample_ids_def)
  have "pb_id sample_batch \<in> pending (bg_inner bg)" by (simp add: bg(3) sample_batch_def)
  from submit_proof_Ok[OF bg(2) this] obtain bg' where bg': "submit_proof bg sample_batch = Ok bg' ()" "bg_ok bg'" by blast
  have "and_then (bg_insert sample_ids bg_default [(1, 7)] {}) (\<lambda>b _. map_err GraphError (submit_proof b sample_batch))
      = Ok sample_batch_graph ()"
    by (simp add: bg_insert_def bg_default_def graph_default_def insert_pending_def promote_pending_def submit_proof_def
        try_make_root_def nodes_def sample_ids_def sample_batch_def sample_batch_graph_def Let_def assign_batch_def
        set_or_default_def fun_eq_iff)
  with bg bg' show ?thesis by simp
qed

text \<open>
  Inserting a batch of distinct transactions into a well-formed batch graph: transactions already
  in a batch are rejected, exactly those being reported; else an external parent without a batch is
  rejected; else an identifier in use is rejected; and otherwise the batch is pending with the
  batches of its external parents as its parents, its own transactions being allowed as parents, and
  the maps are extended consistently. Errors change nothing, and nothing panics.
\<close>

theorem batch_insert_contract:
  assumes ok: "bg_ok bg" and dist: "distinct (map fst txs)" and fin: "finite ps"
  shows "let dups = fst ` set txs \<inter> dom (bg_transactions bg);
      ext = ps - fst ` set txs; unknown = ext - dom (bg_transactions bg); i = from_ids txs in
    if dups \<noteq> {} then bg_insert from_ids bg txs ps = Err bg (DuplicateTransactions dups)
    else if unknown \<noteq> {} then \<exists>tx \<in> unknown. bg_insert from_ids bg txs ps = Err bg (UnknownParentTransaction tx)
    else if i \<in> nodes (bg_inner bg) then bg_insert from_ids bg txs ps = Err bg (GraphError (DuplicateKey i))
    else \<exists>bg'. bg_insert from_ids bg txs ps = Ok bg' i \<and> bg_ok bg'
      \<and> bg_batches bg' = (bg_batches bg)(i \<mapsto> map fst txs)
      \<and> (\<forall>tx. bg_transactions bg' tx = (if tx \<in> fst ` set txs then Some i else bg_transactions bg tx))
      \<and> pars (bg_inner bg') i = {b. \<exists>tx \<in> ext. bg_transactions bg tx = Some b}
      \<and> pending (bg_inner bg') = insert i (pending (bg_inner bg))"
proof -
  let ?dups = "fst ` set txs \<inter> dom (bg_transactions bg)" and ?ext = "ps - fst ` set txs" and ?i = "from_ids txs"
  have dups: "{tx \<in> fst ` set txs. contains_key (bg_transactions bg) tx} = ?dups" by auto
  have fin': "finite ?ext" using fin by simp
  consider "?dups \<noteq> {}" | "?dups = {}" "\<not> ?ext \<subseteq> dom (bg_transactions bg)"
    | "?dups = {}" "?ext \<subseteq> dom (bg_transactions bg)" "?i \<in> nodes (bg_inner bg)"
    | "?dups = {}" "?ext \<subseteq> dom (bg_transactions bg)" "?i \<notin> nodes (bg_inner bg)" by blast
  then show ?thesis
  proof cases
    case 1
    then show ?thesis unfolding bg_insert_def dups Let_def by (simp only: simp_thms if_True if_False)
  next
    case 2
    then obtain tx where "tx \<in> ?ext" "tx \<notin> dom (bg_transactions bg)"
      "lookup_batches (bg_transactions bg) (sorted_list_of_set ?ext) = Inl (UnknownParentTransaction tx)"
      using lookup_batches_Inl[of "sorted_list_of_set ?ext" "bg_transactions bg"] fin' by auto
    note look = this(3) and mem = \<open>tx \<in> ?ext\<close> \<open>tx \<notin> dom (bg_transactions bg)\<close>
    have "bg_insert from_ids bg txs ps = Err bg (UnknownParentTransaction tx)"
      by (simp only: bg_insert_def dups Let_def 2(1) simp_thms if_False look sum.case)
    moreover have "tx \<in> ?ext - dom (bg_transactions bg)" using mem by blast
    moreover have "?ext - dom (bg_transactions bg) \<noteq> {}" using 2(2) by blast
    ultimately show ?thesis using 2(1) unfolding Let_def by auto
  next
    case 3
    have "lookup_batches (bg_transactions bg) (sorted_list_of_set ?ext) = Inr ((\<lambda>tx. the (bg_transactions bg tx)) ` ?ext)"
      using lookup_batches_Inr[of "sorted_list_of_set ?ext" "bg_transactions bg"] 3(2) fin' by simp
    then have "bg_insert from_ids bg txs ps = Err bg (GraphError (DuplicateKey ?i))"
      using 3 dups by (simp add: bg_insert_def insert_pending_def)
    moreover have "?ext - dom (bg_transactions bg) = {}" using 3(2) by blast
    ultimately show ?thesis using 3(1,3) unfolding Let_def by simp
  next
    case 4
    from bg_insert_Ok[OF ok 4(1) dist fin 4(2), of from_ids] 4(3) obtain bg' where
      bg': "bg_insert from_ids bg txs ps = Ok bg' ?i" "bg_ok bg'" "bg_batches bg' = (bg_batches bg)(?i \<mapsto> map fst txs)"
        "bg_transactions bg' = assign_batch ?i txs (bg_transactions bg)"
        "pars (bg_inner bg') = (pars (bg_inner bg))(?i := (\<lambda>tx. the (bg_transactions bg tx)) ` ?ext)"
        "pending (bg_inner bg') = insert ?i (pending (bg_inner bg))" by blast
    have "(\<lambda>tx. the (bg_transactions bg tx)) ` ?ext = {b. \<exists>tx \<in> ?ext. bg_transactions bg tx = Some b}"
      using 4(2) by force
    with bg' have "\<exists>bg'. bg_insert from_ids bg txs ps = Ok bg' ?i \<and> bg_ok bg'
      \<and> bg_batches bg' = (bg_batches bg)(?i \<mapsto> map fst txs)
      \<and> (\<forall>tx. bg_transactions bg' tx = (if tx \<in> fst ` set txs then Some ?i else bg_transactions bg tx))
      \<and> pars (bg_inner bg') ?i = {b. \<exists>tx \<in> ?ext. bg_transactions bg tx = Some b}
      \<and> pending (bg_inner bg') = insert ?i (pending (bg_inner bg))"
      by (intro exI[of _ bg']) (simp add: assign_batch_apply)
    moreover have "?ext - dom (bg_transactions bg) = {}" using 4(2) by blast
    ultimately show ?thesis using 4(1,3) unfolding Let_def by simp
  qed
qed

theorem batch_insert_contract_witness:
  "bg_insert sample_ids sample_batch_graph [(1, 7)] {} = Err sample_batch_graph (DuplicateTransactions {1})
   \<and> (\<exists>tx \<in> {3}. bg_insert sample_ids sample_batch_graph [(2, 7)] {3} = Err sample_batch_graph (UnknownParentTransaction tx))
   \<and> (\<exists>bg'. bg_insert sample_ids sample_batch_graph [(2, 7)] {1, 2} = Ok bg' 20 \<and> bg_ok bg'
        \<and> pars (bg_inner bg') 20 = {10})"
proof (intro conjI)
  have d: "dom (bg_transactions sample_batch_graph) = {1}" "nodes (bg_inner sample_batch_graph) = {10}"
    "bg_transactions sample_batch_graph 1 = Some 10"
    by (auto simp: sample_batch_graph_def nodes_def)
  show "bg_insert sample_ids sample_batch_graph [(1, 7)] {} = Err sample_batch_graph (DuplicateTransactions {1})"
    using batch_insert_contract[OF sample_batch_graph_ok, of "[(1, 7)]" "{}" sample_ids] by (simp add: d Let_def)
  show "\<exists>tx \<in> {3}. bg_insert sample_ids sample_batch_graph [(2, 7)] {3} = Err sample_batch_graph (UnknownParentTransaction tx)"
    using batch_insert_contract[OF sample_batch_graph_ok, of "[(2, 7)]" "{3}" sample_ids] by (simp add: d Let_def)
  have "{1, 2} - {2 :: nat} = {1}" by auto
  then show "\<exists>bg'. bg_insert sample_ids sample_batch_graph [(2, 7)] {1, 2} = Ok bg' 20 \<and> bg_ok bg'
        \<and> pars (bg_inner bg') 20 = {10}"
    using batch_insert_contract[OF sample_batch_graph_ok, of "[(2, 7)]" "{1, 2}" sample_ids]
    by (auto simp: d[simplified] Let_def sample_ids_def)
qed

text \<open>
  Removing the batches of some transactions never panics. It removes exactly the batches that
  hold one of them and the batches that depend on those, returns them in the order of their
  identifiers with all their transactions, and leaves every other batch, with its transactions, as
  it was; transactions without a batch have no effect.
\<close>

theorem batch_removal_exact:
  assumes ok: "bg_ok bg"
  shows "let R = descendants (bg_inner bg) {b. \<exists>tx \<in> set txs. bg_transactions bg tx = Some b} in
    \<exists>bg'. remove_batches_with_transactions bg txs
        = (Ok bg' (map (\<lambda>b. (b, the (bg_batches bg b))) (sorted_list_of_set R)) :: (batch_graph, 'e, _) outcome)
      \<and> bg_ok bg' \<and> nodes (bg_inner bg') = nodes (bg_inner bg) - R \<and> bg_batches bg' = bg_batches bg |` (- R)
      \<and> (\<forall>tx. bg_transactions bg' tx =
           (case bg_transactions bg tx of None \<Rightarrow> None | Some b \<Rightarrow> if b \<in> R then None else Some b))"
proof -
  note r = remove_with_transactions_Ok[OF ok, of txs]
  show ?thesis unfolding Let_def
    using r(1,2) by (intro exI[of _ "bg_delete bg (descendants (bg_inner bg) {b. \<exists>tx \<in> set txs. bg_transactions bg tx = Some b})"])
      (auto simp: bg_delete_def txs_of_def restrict_map_def split: option.splits)
qed

theorem batch_removal_exact_witness:
  "\<exists>bg'. remove_batches_with_transactions sample_batch_graph [1, 5]
     = (Ok bg' [(10, [1])] :: (batch_graph, unit, _) outcome) \<and> bg_transactions bg' 1 = None"
proof -
  let ?g = "bg_inner sample_batch_graph"
  have B: "{b. \<exists>tx \<in> set [1, 5]. bg_transactions sample_batch_graph tx = Some b} = {10}"
    by (auto simp: sample_batch_graph_def)
  have D: "descendants ?g {10} = {10}"
  proof
    show "descendants ?g {10} \<subseteq> {10}"
      by (rule descendants_closed) (auto simp: sample_batch_graph_def set_or_default_def split: if_splits)
  qed (rule subset_descendants)
  from batch_removal_exact[OF sample_batch_graph_ok, of "[1, 5]", where ?'e = unit, unfolded B D Let_def]
  obtain bg' where bg': "remove_batches_with_transactions sample_batch_graph [1, 5]
      = (Ok bg' (map (\<lambda>b. (b, the (bg_batches sample_batch_graph b))) (sorted_list_of_set {10})) :: (batch_graph, unit, _) outcome)"
    and tx: "\<And>tx. bg_transactions bg' tx = (case bg_transactions sample_batch_graph tx of None \<Rightarrow> None
        | Some b \<Rightarrow> if b \<in> {10} then None else Some b)" by blast
  have "map (\<lambda>b. (b, the (bg_batches sample_batch_graph b))) (sorted_list_of_set {10}) = [(10, [1])]"
    by (simp add: sample_batch_graph_def)
  moreover have "bg_transactions bg' 1 = None" unfolding tx by (simp add: sample_batch_graph_def)
  ultimately show ?thesis using bg' by simp
qed

text \<open>
  C34. Selecting a block from a well-formed batch graph never panics and always ends. The block holds
  proven batches that were not selected before, each once and after all of its parents that were not
  selected before; at most \<open>budget_batches\<close> of them, and fewer only when no batch is ready. Exactly
  its batches become selected, and the maps are untouched.
\<close>

theorem select_block_correct:
  assumes ok: "bg_ok bg"
  shows "\<exists>bg' batches. bg_select_block bg budget = (Ok bg' batches :: (batch_graph, 'e, proven_batch list) outcome)
    \<and> bg_ok bg' \<and> distinct (map pb_id batches) \<and> set batches \<subseteq> ran (vertices (bg_inner bg))
    \<and> processed (bg_inner bg') = processed (bg_inner bg) \<union> pb_id ` set batches
    \<and> pb_id ` set batches \<inter> processed (bg_inner bg) = {}
    \<and> topological (bg_inner bg) (processed (bg_inner bg)) (map pb_id batches)
    \<and> length batches \<le> budget_batches budget
    \<and> (length batches < budget_batches budget \<longrightarrow> roots (bg_inner bg') = {})
    \<and> bg_batches bg' = bg_batches bg \<and> bg_transactions bg' = bg_transactions bg"
proof -
  from bg_select_block_Ok[OF ok, of budget, where ?'e = 'e] obtain ks g' where
    r: "bg_select_block bg budget = (Ok (bg\<lparr>bg_inner := g'\<rparr>) (values_of (bg_inner bg) ks) :: (batch_graph, 'e, proven_batch list) outcome)"
    and s: "selection block_check_then_subtract (bg_inner bg) budget ks g'" and ok': "bg_ok (bg\<lparr>bg_inner := g'\<rparr>)"
    and ids: "map pb_id (values_of (bg_inner bg) ks) = ks" by blast
  note s' = s[unfolded selection_def]
  from s' obtain b' where b': "spend block_check_then_subtract budget (values_of (bg_inner bg) ks) = Some b'"
    "roots g' = {} \<or> snd (block_check_then_subtract b' (the (vertices (bg_inner bg) (Min (roots g'))))) = Exceeded" by blast
  note len = spend_block_bounds[OF b'(1)]
  have full: "roots g' = {}" if "length (values_of (bg_inner bg) ks) < budget_batches budget"
    using b'(2) that len by (auto simp: block_check_then_subtract_def split: if_splits)
  have img: "pb_id ` set (values_of (bg_inner bg) ks) = set ks" using ids by (metis set_map)
  have ran: "set (values_of (bg_inner bg) ks) \<subseteq> ran (vertices (bg_inner bg))"
    using s' by (fastforce simp: values_of_def ran_def)
  show ?thesis
    using r ok' s' ids img ran len full
    by (intro exI[of _ "bg\<lparr>bg_inner := g'\<rparr>"] exI[of _ "values_of (bg_inner bg) ks"]) simp
qed

theorem select_block_correct_witness:
  "\<exists>bg'. bg_select_block sample_batch_graph block_budget_default
     = (Ok bg' [sample_batch] :: (batch_graph, unit, proven_batch list) outcome) \<and> processed (bg_inner bg') = {10}"
proof -
  obtain bg' batches where r: "bg_select_block sample_batch_graph block_budget_default
      = (Ok bg' batches :: (batch_graph, unit, proven_batch list) outcome)"
    and p: "processed (bg_inner bg') = processed (bg_inner sample_batch_graph) \<union> pb_id ` set batches"
    using select_block_correct[OF sample_batch_graph_ok, of block_budget_default, where ?'e = unit] by blast
  have "bg_select_block sample_batch_graph block_budget_default
      = (Ok (sample_batch_graph\<lparr>bg_inner := (bg_inner sample_batch_graph)\<lparr>processed := {10}, roots := {}\<rparr>\<rparr>) [sample_batch]
        :: (batch_graph, unit, proven_batch list) outcome)"
    by (simp add: bg_select_block_def sample_batch_graph_def graph_get_def process_root_def block_budget_default_def
        server_max_batches_per_block_def try_make_root_def set_or_default_def block_check_then_subtract_def Let_def)
  with r p show ?thesis by (auto simp: sample_batch_graph_def sample_batch_def)
qed

end
