(* ===== verification/Mempool.thy ===== *)
theory Mempool
  imports Inflight_Contract Tx_Expirations Subscription Transaction_Graph Batch_Graph
begin

text \<open>
  The mempool (crates/block-producer/src/mempool/mod.rs): the inflight state, the graphs of
  transactions and batches, the expirations and the subscription, and the operations that the
  RPC, batch builder and block builder call while they hold the lock. Telemetry is left out: it only
  reads. The parameters are \<open>from_ids\<close>, the identifier of a batch, and \<open>accepts\<close>, what the event
  channel accepts during a call.
\<close>

section \<open>State\<close>

record mempool =
  mp_state :: inflight_state
  mp_transactions :: transaction_graph
  mp_expirations :: tx_expirations
  mp_batches :: batch_graph
  mp_chain_tip :: block_number
  mp_block_in_progress :: "batch_id set option"
  mp_block_budget :: block_budget
  mp_batch_budget :: batch_budget
  mp_subscription :: subscription_provider

definition mempool_new :: "block_number \<Rightarrow> batch_budget \<Rightarrow> block_budget \<Rightarrow> nat \<Rightarrow> nat \<Rightarrow> mempool" where
  "mempool_new chain_tip bat_budget blk_budget state_retention expiration_slack =
     \<lparr>mp_state = inflight_new chain_tip state_retention expiration_slack, mp_transactions = graph_default,
      mp_expirations = expirations_default, mp_batches = bg_default, mp_chain_tip = chain_tip,
      mp_block_in_progress = None, mp_block_budget = blk_budget, mp_batch_budget = bat_budget,
      mp_subscription = provider_new chain_tip\<rparr>"

section \<open>Operations\<close>

definition add_transaction ::
  "(sender \<Rightarrow> mempool_event \<Rightarrow> bool) \<Rightarrow> mempool \<Rightarrow> auth_tx \<Rightarrow> (mempool, add_transaction_error, block_number) outcome" where
  "add_transaction accepts m tx =
     and_then (in_field (\<lambda>s. m\<lparr>mp_state := s\<rparr>) (inflight_add_transaction (mp_state m) tx)) (\<lambda>m1 ps.
     and_then (in_field (\<lambda>p. m1\<lparr>mp_subscription := p\<rparr>) (transaction_added accepts (mp_subscription m1) tx)) (\<lambda>m2 _.
     let m3 = m2\<lparr>mp_expirations := expirations_insert (mp_expirations m2) (tx_id tx) (tx_expires_at tx)\<rparr> in
     and_then (expect (in_field (\<lambda>g. m3\<lparr>mp_transactions := g\<rparr>) (tg_insert (mp_transactions m3) tx ps))) (\<lambda>m4 _.
     Ok m4 (mp_chain_tip m4))))"

definition mp_select_batch ::
  "((transaction_id \<times> account_id) list \<Rightarrow> batch_id) \<Rightarrow> mempool \<Rightarrow> (mempool, 'e, (batch_id \<times> auth_tx list) option) outcome" where
  "mp_select_batch from_ids m =
     and_then (in_field (\<lambda>g. m\<lparr>mp_transactions := g\<rparr>) (tg_select_batch (mp_transactions m) (mp_batch_budget m)))
       (\<lambda>m1 (batch, ps).
        if batch = [] then Ok m1 None
        else let tx_ids = map (\<lambda>tx. (tx_id tx, tx_account_id tx)) batch in
          and_then (expect (in_field (\<lambda>b. m1\<lparr>mp_batches := b\<rparr>) (bg_insert from_ids (mp_batches m1) tx_ids ps)))
            (\<lambda>m2 i. Ok m2 (Some (i, batch))))"

definition rollback_batch :: "mempool \<Rightarrow> batch_id \<Rightarrow> (mempool, 'e, unit) outcome" where
  "rollback_batch m batch =
     (if \<not> bg_contains (mp_batches m) batch then Ok m ()
      else and_then (expect (in_field (\<lambda>b. m\<lparr>mp_batches := b\<rparr>) (remove_batches (mp_batches m) {batch})))
        (\<lambda>m1 removed_batches.
         let transactions = set (concat (map snd removed_batches)) in
         expect (in_field (\<lambda>g. m1\<lparr>mp_transactions := g\<rparr>) (requeue_transactions (mp_transactions m1) transactions))))"

definition commit_batch :: "mempool \<Rightarrow> proven_batch \<Rightarrow> (mempool, 'e, unit) outcome" where
  "commit_batch m batch =
     (if \<not> bg_contains (mp_batches m) (pb_id batch) then Ok m ()
      else expect (in_field (\<lambda>b. m\<lparr>mp_batches := b\<rparr>) (submit_proof (mp_batches m) batch)))"

definition mp_select_block :: "mempool \<Rightarrow> (mempool, 'e, block_number \<times> proven_batch list) outcome" where
  "mp_select_block m =
     (if mp_block_in_progress m \<noteq> None then Panic
      else and_then (in_field (\<lambda>b. m\<lparr>mp_batches := b\<rparr>) (bg_select_block (mp_batches m) (mp_block_budget m)))
        (\<lambda>m1 batches.
         Ok (m1\<lparr>mp_block_in_progress := Some (set (map pb_id batches))\<rparr>) (Suc (mp_chain_tip m1), batches)))"

text \<open>
  \<open>revert_transactions\<close>: the error is the unknown transactions. The batches of reverted transactions
  are removed with their descendants, and what they held besides goes back to the queue.
\<close>

definition revert_transactions ::
  "(sender \<Rightarrow> mempool_event \<Rightarrow> bool) \<Rightarrow> mempool \<Rightarrow> transaction_id list \<Rightarrow>
     (mempool, transaction_id graph_error, transaction_id set) outcome" where
  "revert_transactions accepts m txs =
     and_then (in_field (\<lambda>g. m\<lparr>mp_transactions := g\<rparr>) (remove_transactions (mp_transactions m) txs)) (\<lambda>m1 reverted.
     and_then (in_field (\<lambda>b. m1\<lparr>mp_batches := b\<rparr>)
         (remove_batches_with_transactions (mp_batches m1) (sorted_list_of_set reverted))) (\<lambda>m2 batches_reverted.
     let to_requeue = set (filter (\<lambda>tx. tx \<notin> reverted) (concat (map snd batches_reverted))) in
     and_then (expect (in_field (\<lambda>g. m2\<lparr>mp_transactions := g\<rparr>) (requeue_transactions (mp_transactions m2) to_requeue))) (\<lambda>m3 _.
     and_then (in_field (\<lambda>e. m3\<lparr>mp_expirations := e\<rparr>)
         (expirations_remove (mp_expirations m3) (sorted_list_of_set reverted))) (\<lambda>m4 _.
     and_then (in_field (\<lambda>s. m4\<lparr>mp_state := s\<rparr>) (inflight_revert_transactions (mp_state m4) reverted)) (\<lambda>m5 _.
     and_then (in_field (\<lambda>p. m5\<lparr>mp_subscription := p\<rparr>) (txs_reverted accepts (mp_subscription m5) reverted)) (\<lambda>m6 _.
     Ok m6 reverted))))))"

definition revert_expired_transactions ::
  "(sender \<Rightarrow> mempool_event \<Rightarrow> bool) \<Rightarrow> mempool \<Rightarrow> (mempool, 'e, transaction_id set) outcome" where
  "revert_expired_transactions accepts m =
     (let expired = expirations_get (mp_expirations m) (mp_chain_tip m) in
      and_then (expect (revert_transactions accepts m (sorted_list_of_set expired))) (\<lambda>m' _. Ok m' expired))"

definition commit_block ::
  "(sender \<Rightarrow> mempool_event \<Rightarrow> bool) \<Rightarrow> mempool \<Rightarrow> block_header \<Rightarrow> (mempool, 'e, unit) outcome" where
  "commit_block accepts m header =
     (case mp_block_in_progress m of
        None \<Rightarrow> Panic
      | Some batches \<Rightarrow>
          let m0 = m\<lparr>mp_block_in_progress := None\<rparr> in
          and_then (expect (in_field (\<lambda>b. m0\<lparr>mp_batches := b\<rparr>) (prune_committed (mp_batches m0) batches))) (\<lambda>m1 transactions.
          and_then (expect (in_field (\<lambda>g. m1\<lparr>mp_transactions := g\<rparr>)
              (commit_transactions (mp_transactions m1) transactions))) (\<lambda>m2 _.
          and_then (in_field (\<lambda>e. m2\<lparr>mp_expirations := e\<rparr>) (expirations_remove (mp_expirations m2) transactions)) (\<lambda>m3 _.
          and_then (in_field (\<lambda>s. m3\<lparr>mp_state := s\<rparr>) (inflight_commit_block (mp_state m3) transactions)) (\<lambda>m4 _.
          let m5 = m4\<lparr>mp_chain_tip := Suc (mp_chain_tip m4)\<rparr> in
          and_then (in_field (\<lambda>p. m5\<lparr>mp_subscription := p\<rparr>)
              (block_committed accepts (mp_subscription m5) header transactions)) (\<lambda>m6 _.
          and_then (revert_expired_transactions accepts m6) (\<lambda>m7 _. Ok m7 ())))))))"

text \<open>The transactions of the block's batches; \<open>None\<close> is the panic on a missing batch.\<close>

fun block_transactions :: "batch_graph \<Rightarrow> batch_id list \<Rightarrow> transaction_id list option" where
  "block_transactions bg [] = Some []"
| "block_transactions bg (b # bs) = (case bg_get_transactions bg b of
     None \<Rightarrow> None
   | Some ts \<Rightarrow> map_option (\<lambda>rest. ts @ rest) (block_transactions bg bs))"

definition rollback_block ::
  "(sender \<Rightarrow> mempool_event \<Rightarrow> bool) \<Rightarrow> mempool \<Rightarrow> (mempool, 'e, unit) outcome" where
  "rollback_block accepts m =
     (case mp_block_in_progress m of
        None \<Rightarrow> Panic
      | Some batches \<Rightarrow>
          let m0 = m\<lparr>mp_block_in_progress := None\<rparr> in
          (case block_transactions (mp_batches m0) (sorted_list_of_set batches) of
             None \<Rightarrow> Panic
           | Some txs \<Rightarrow> and_then (expect (revert_transactions accepts m0 txs)) (\<lambda>m1 _. Ok m1 ())))"

definition mp_subscribe ::
  "(sender \<Rightarrow> mempool_event \<Rightarrow> bool) \<Rightarrow> mempool \<Rightarrow> block_number \<Rightarrow> (mempool, block_number, sender option) outcome" where
  "mp_subscribe accepts m chain_tip =
     in_field (\<lambda>p. m\<lparr>mp_subscription := p\<rparr>) (subscribe accepts (mp_subscription m) chain_tip)"

end
