(* ===== verification/Mempool_Links.thy ===== *)
theory Mempool_Links
  imports Transaction_Graph Batch_Graph
begin

text \<open>
  How the transaction graph and the batch graph of the mempool fit together
  (crates/block-producer/src/mempool/mod.rs calls them in pairs): the selected transactions are the
  ones in batches, and a dependency between transactions of different batches is a dependency between
  the batches. Each pair of calls keeps this.
\<close>

section \<open>The link\<close>

definition linked :: "transaction_graph \<Rightarrow> batch_graph \<Rightarrow> bool" where
  "linked g B \<longleftrightarrow> tg_ok g \<and> bg_ok B \<and> processed g = dom (bg_transactions B)
     \<and> (\<forall>t b p. bg_transactions B t = Some b \<longrightarrow> p \<in> pars g t \<longrightarrow>
          (\<exists>c. bg_transactions B p = Some c \<and> (c = b \<or> c \<in> pars (bg_inner B) b)))
     \<and> (\<forall>b. bg_batches B b \<noteq> Some [])"

lemma linkedD:
  assumes "linked g B"
  shows "tg_ok g" "bg_ok B" "processed g = dom (bg_transactions B)"
    "bg_transactions B t = Some b \<Longrightarrow> p \<in> pars g t \<Longrightarrow>
       \<exists>c. bg_transactions B p = Some c \<and> (c = b \<or> c \<in> pars (bg_inner B) b)"
    "bg_batches B b \<noteq> Some []"
  using assms unfolding linked_def by blast+

lemma linkedI:
  assumes "tg_ok g" and "bg_ok B" and "processed g = dom (bg_transactions B)"
    and "\<And>t b p. bg_transactions B t = Some b \<Longrightarrow> p \<in> pars g t \<Longrightarrow>
       \<exists>c. bg_transactions B p = Some c \<and> (c = b \<or> c \<in> pars (bg_inner B) b)"
    and "\<And>b. bg_batches B b \<noteq> Some []"
  shows "linked g B"
  unfolding linked_def by (intro conjI allI impI) (rule assms | assumption)+

lemma linked_default: "linked graph_default bg_default"
  by (rule linkedI) (simp_all add: tg_default_ok bg_default_ok, simp_all add: graph_default_def bg_default_def)

lemma linked_dom: "linked g B \<Longrightarrow> processed g \<subseteq> dom (vertices g)"
  by (rule wf_graphD(2)[OF tg_okD(1)[OF linkedD(1)]])

lemma txs_of_sub: "txs_of B bs \<subseteq> dom (bg_transactions B)"
  by (auto simp: txs_of_def)

text \<open>A new transaction is in no batch and has no children.\<close>

lemma linked_insert:
  assumes L: "linked g B" and new: "tx_id tx \<notin> dom (vertices g)" and ps: "ps \<subseteq> dom (vertices g)"
  shows "\<exists>g'. tg_insert g tx ps = Ok g' () \<and> linked g' B \<and> vertices g' = (vertices g)(tx_id tx \<mapsto> tx)
    \<and> pars g' = (pars g)(tx_id tx := ps)"
proof -
  from tg_insert_Ok[OF linkedD(1)[OF L] new ps] obtain g' where
    g': "tg_insert g tx ps = Ok g' ()" "tg_ok g'" "vertices g' = (vertices g)(tx_id tx \<mapsto> tx)"
      "pars g' = (pars g)(tx_id tx := ps)" "processed g' = processed g" by blast
  have notin: "bg_transactions B (tx_id tx) = None" using linkedD(3)[OF L] linked_dom[OF L] new by blast
  have "linked g' B"
  proof (rule linkedI)
    fix t b p assume t: "bg_transactions B t = Some b" and p: "p \<in> pars g' t"
    have "t \<noteq> tx_id tx" using t notin by auto
    then show "\<exists>c. bg_transactions B p = Some c \<and> (c = b \<or> c \<in> pars (bg_inner B) b)"
      using linkedD(4)[OF L t] p by (simp add: g'(4))
  qed (use g' linkedD[OF L] in simp_all)
  with g' show ?thesis by blast
qed

text \<open>
  Reverting the transactions \<open>R\<close> and removing the batches \<open>D\<close>, both closed under descendants, every
  batch of a reverted transaction among \<open>D\<close>: the other transactions of \<open>D\<close> can be requeued.
\<close>

lemma linked_remove:
  assumes L: "linked g B" and R: "\<And>p c. p \<in> R \<Longrightarrow> p \<in> pars g c \<Longrightarrow> c \<in> R"
    and D: "\<And>b c. b \<in> D \<Longrightarrow> b \<in> pars (bg_inner B) c \<Longrightarrow> c \<in> D"
    and RD: "\<And>t b. t \<in> R \<Longrightarrow> bg_transactions B t = Some b \<Longrightarrow> b \<in> D"
  defines "g1 \<equiv> delete_nodes g R" and "Q \<equiv> txs_of B D - R"
  shows "requeue_transactions g1 Q = Ok (requeued g1 (descendants g1 Q)) ()"
    "linked (requeued g1 (descendants g1 Q)) (bg_delete B D)"
proof -
  note LD = linkedD[OF L]
  let ?E = "descendants g1 Q"
  have wf: "wf_graph g" by (rule tg_okD(1)[OF LD(1)])
  have wf1: "wf_graph g1" unfolding g1_def by (rule delete_descendants_wf[OF wf R])
  have ok1: "tg_ok g1" using tg_delete_ok[OF LD(1)] wf1 by (simp add: g1_def)
  have Q: "Q \<subseteq> processed g1" using LD(3) txs_of_sub[of B D] by (auto simp: g1_def Q_def)
  show "requeue_transactions g1 Q = Ok (requeued g1 ?E) ()" by (rule requeue_transactions_Ok(1)[OF ok1 Q])
  have child: "c \<in> txs_of B D" if pD: "p \<in> txs_of B D" and pc: "p \<in> pars g c" and cp: "c \<in> processed g" for p c
  proof -
    obtain bp where bp: "bp \<in> D" "bg_transactions B p = Some bp" using pD by (auto simp: txs_of_def)
    obtain bc where bc: "bg_transactions B c = Some bc" using cp LD(3) by blast
    from LD(4)[OF bc pc] bp have "bc = bp \<or> bp \<in> pars (bg_inner B) bc" by auto
    then have "bc \<in> D" using bp(1) D by blast
    then show ?thesis using bc by (auto simp: txs_of_def)
  qed
  have "?E \<subseteq> {t. t \<in> processed g \<longrightarrow> t \<in> txs_of B D}"
  proof (rule descendants_closed)
    show "Q \<subseteq> {t. t \<in> processed g \<longrightarrow> t \<in> txs_of B D}" by (auto simp: Q_def)
    fix p c assume p: "p \<in> {t. t \<in> processed g \<longrightarrow> t \<in> txs_of B D}" and "p \<in> pars g1 c"
    then have pc: "p \<in> pars g c" by (auto simp: g1_def without_edges_apply split: if_splits)
    show "c \<in> {t. t \<in> processed g \<longrightarrow> t \<in> txs_of B D}"
    proof (intro CollectI impI)
      assume c: "c \<in> processed g"
      then have "p \<in> processed g" using wf_graphD(3)[OF wf] pc by blast
      with p child[OF _ pc c] show "c \<in> txs_of B D" by blast
    qed
  qed
  moreover have "R \<inter> processed g \<subseteq> txs_of B D" using RD LD(3) by (fastforce simp: txs_of_def)
  moreover have "txs_of B D \<subseteq> R \<union> ?E" using subset_descendants[of Q g1] by (auto simp: Q_def)
  moreover have "txs_of B D \<subseteq> processed g" using LD(3) txs_of_sub[of B D] by simp
  ultimately have pr: "processed g - R - ?E = processed g - txs_of B D" by blast
  have keep: "b \<notin> D" if "bg_transactions (bg_delete B D) t = Some b" for t b
    using that by (auto simp: bg_delete_def txs_of_def restrict_map_def split: if_splits)
  show "linked (requeued g1 ?E) (bg_delete B D)"
  proof (rule linkedI)
    show "tg_ok (requeued g1 ?E)" by (rule requeue_transactions_Ok(2)[OF ok1 Q])
    have "wf_graph (delete_nodes (bg_inner B) D)"
      by (rule delete_descendants_wf[OF bg_okD(1)[OF LD(2)] D])
    then show "bg_ok (bg_delete B D)" by (rule bg_delete_ok[OF LD(2)])
    have "processed (requeued g1 ?E) = processed g - R - ?E" by (simp add: g1_def)
    also have "\<dots> = dom (bg_transactions (bg_delete B D))"
      unfolding pr using LD(3) by (auto simp: bg_delete_def)
    finally show "processed (requeued g1 ?E) = dom (bg_transactions (bg_delete B D))" .
    show "bg_batches (bg_delete B D) b \<noteq> Some []" for b
      using LD(5)[of b] by (simp add: bg_delete_def restrict_map_def)
    fix t b p assume t: "bg_transactions (bg_delete B D) t = Some b" and "p \<in> pars (requeued g1 ?E) t"
    then have p: "p \<in> pars g t" by (auto simp: g1_def without_edges_apply
          set_or_default_def without_edges_def split: if_splits option.splits)
    have t': "bg_transactions B t = Some b"
      using t by (auto simp: bg_delete_def restrict_map_def split: if_splits)
    from LD(4)[OF t' p] obtain c where c: "bg_transactions B p = Some c" "c = b \<or> c \<in> pars (bg_inner B) b" by blast
    have "c \<notin> D" using c(2) D keep[OF t] by blast
    then have "bg_transactions (bg_delete B D) p = Some c"
      using c(1) by (auto simp: bg_delete_def txs_of_def restrict_map_def)
    moreover have "c = b \<or> c \<in> pars (bg_inner (bg_delete B D)) b"
      using c(2) \<open>c \<notin> D\<close> keep[OF t] by (auto simp: bg_delete_def without_edges_apply)
    ultimately show "\<exists>c. bg_transactions (bg_delete B D) p = Some c \<and> (c = b \<or> c \<in> pars (bg_inner (bg_delete B D)) b)"
      by blast
  qed
qed

text \<open>Committing processed batches that are closed under parents.\<close>

lemma linked_commit:
  assumes L: "linked g B" and S: "S \<subseteq> processed (bg_inner B)"
    and closed: "\<And>b. b \<in> S \<Longrightarrow> pars (bg_inner B) b \<subseteq> S"
  defines "ts \<equiv> concat (map (\<lambda>b. the (bg_batches B b)) (sorted_list_of_set S))"
  shows "prune_committed B S = Ok (bg_delete B S) ts" "set ts = txs_of B S" "distinct ts"
    "commit_transactions g ts = Ok (delete_nodes g (set ts)) ()" "linked (delete_nodes g (set ts)) (bg_delete B S)"
    "set ts \<subseteq> processed g" "\<And>t p. t \<in> set ts \<Longrightarrow> p \<in> pars g t \<Longrightarrow> p \<in> set ts"
proof -
  note LD = linkedD[OF L] and pr = prune_committed_Ok[OF linkedD(2)[OF L] S closed, folded ts_def]
  show "prune_committed B S = Ok (bg_delete B S) ts" "set ts = txs_of B S" "distinct ts" using pr(1,3,4) by blast+
  show sub: "set ts \<subseteq> processed g" using txs_of_sub[of B S] pr(3) LD(3) by simp
  show par: "p \<in> set ts" if t: "t \<in> set ts" and p: "p \<in> pars g t" for t p
  proof -
    obtain b where b: "b \<in> S" "bg_transactions B t = Some b" using t by (auto simp: pr(3) txs_of_def)
    from LD(4)[OF b(2) p] obtain c where "bg_transactions B p = Some c" "c = b \<or> c \<in> pars (bg_inner B) b" by blast
    then show ?thesis using b(1) closed by (auto simp: pr(3) txs_of_def)
  qed
  show "commit_transactions g ts = Ok (delete_nodes g (set ts)) ()"
    by (rule commit_transactions_Ok(1)[OF LD(1) sub]) (use par in blast)
  have ok1: "tg_ok (delete_nodes g (set ts))"
    by (rule commit_transactions_Ok(2)[OF LD(1) sub]) (use par in blast)
  show "linked (delete_nodes g (set ts)) (bg_delete B S)"
  proof (rule linkedI)
    show "tg_ok (delete_nodes g (set ts))" by (rule ok1)
    show "bg_ok (bg_delete B S)" by (rule pr(2))
    show "processed (delete_nodes g (set ts)) = dom (bg_transactions (bg_delete B S))"
      using LD(3) pr(3) by (auto simp: bg_delete_def)
    show "bg_batches (bg_delete B S) b \<noteq> Some []" for b
      using LD(5)[of b] by (simp add: bg_delete_def restrict_map_def)
    fix t b p assume t: "bg_transactions (bg_delete B S) t = Some b" and p': "p \<in> pars (delete_nodes g (set ts)) t"
    have t': "bg_transactions B t = Some b" "b \<notin> S"
      using t by (auto simp: bg_delete_def txs_of_def restrict_map_def split: if_splits)
    have p: "p \<in> pars g t" "p \<notin> set ts" using p' by (auto simp: without_edges_apply split: if_splits)
    from LD(4)[OF t'(1) p(1)] obtain c where c: "bg_transactions B p = Some c" "c = b \<or> c \<in> pars (bg_inner B) b" by blast
    have "c \<notin> S" using p(2) c(1) by (auto simp: pr(3) txs_of_def)
    then show "\<exists>c. bg_transactions (bg_delete B S) p = Some c \<and> (c = b \<or> c \<in> pars (bg_inner (bg_delete B S)) b)"
      using c t'(2) by (auto simp: bg_delete_def txs_of_def restrict_map_def without_edges_apply)
  qed
qed

text \<open>A selected batch can be inserted: its external parents are in batches already.\<close>

lemma linked_select_batch:
  assumes L: "linked g B" and s: "selection check g budget ks g'" and ne: "ks \<noteq> []" and ok': "tg_ok g'"
    and txs: "map fst txs = ks" and fresh: "from_ids txs \<notin> nodes (bg_inner B)"
  shows "\<exists>B'. bg_insert from_ids B txs (\<Union>k \<in> set ks. pars g k) = Ok B' (from_ids txs) \<and> linked g' B'
    \<and> bg_batches B' = (bg_batches B)(from_ids txs \<mapsto> ks) \<and> processed (bg_inner B') = processed (bg_inner B)"
proof -
  note LD = linkedD[OF L]
  let ?ps = "\<Union>k \<in> set ks. pars g k" and ?i = "from_ids txs"
  note s' = s[unfolded selection_def]
  have keys: "fst ` set txs = set ks" using txs by (metis set_map)
  have sh: "wf_shape g" by (rule wf_graphD(1)[OF tg_okD(1)[OF LD(1)]])
  have fin: "finite ?ps" using wf_finite(1)[OF sh] by simp
  have ext: "?ps - fst ` set txs \<subseteq> dom (bg_transactions B)"
    using selection_pars[OF s] LD(3) unfolding keys by blast
  have new: "fst ` set txs \<inter> dom (bg_transactions B) = {}" using s' LD(3) unfolding keys by blast
  have dist: "distinct (map fst txs)" using s' txs by simp
  from bg_insert_Ok[where from_ids = from_ids, OF LD(2) new dist fin ext fresh] obtain B' where
    B': "bg_insert from_ids B txs ?ps = Ok B' ?i" "bg_ok B'" "bg_batches B' = (bg_batches B)(?i \<mapsto> map fst txs)"
      "bg_transactions B' = assign_batch ?i txs (bg_transactions B)"
      "pars (bg_inner B') = (pars (bg_inner B))(?i := (\<lambda>tx. the (bg_transactions B tx)) ` (?ps - fst ` set txs))"
      "processed (bg_inner B') = processed (bg_inner B)" by blast
  have tr: "bg_transactions B' t = (if t \<in> set ks then Some ?i else bg_transactions B t)" for t
    by (simp add: B'(4) assign_batch_apply keys)
  have "linked g' B'"
  proof (rule linkedI)
    show "tg_ok g'" "bg_ok B'" by fact+
    show "processed g' = dom (bg_transactions B')" using s' LD(3) by (auto simp: tr)
    show "bg_batches B' b \<noteq> Some []" for b using LD(5)[of b] ne txs by (simp add: B'(3))
    fix t b p assume t: "bg_transactions B' t = Some b" and p: "p \<in> pars g' t"
    have pg: "p \<in> pars g t" using p s' by simp
    show "\<exists>c. bg_transactions B' p = Some c \<and> (c = b \<or> c \<in> pars (bg_inner B') b)"
    proof (cases "t \<in> set ks")
      case True
      then have b: "b = ?i" using t by (simp add: tr)
      show ?thesis
      proof (cases "p \<in> set ks")
        case False
        then have "p \<in> ?ps - fst ` set txs" using pg True keys by blast
        with ext obtain c where "bg_transactions B p = Some c" by blast
        with False \<open>p \<in> ?ps - fst ` set txs\<close> show ?thesis by (force simp: tr b B'(5))
      qed (simp add: tr b)
    next
      case False
      then have tb: "bg_transactions B t = Some b" using t by (simp add: tr)
      from LD(4)[OF tb pg] obtain c where c: "bg_transactions B p = Some c" "c = b \<or> c \<in> pars (bg_inner B) b" by blast
      have "p \<notin> set ks" using c(1) new keys by blast
      moreover have "b \<noteq> ?i"
      proof
        assume "b = ?i"
        obtain ts where "bg_batches B b = Some ts" using bg_okD(3)[OF LD(2), of t b] tb by blast
        then have "b \<in> nodes (bg_inner B)" using bg_okD(2)[OF LD(2)] by blast
        with fresh \<open>b = ?i\<close> show False by simp
      qed
      ultimately show ?thesis using c by (simp add: tr B'(5))
    qed
  qed
  with B' show ?thesis using txs by auto
qed

lemma linked_inner:
  assumes L: "linked g B" and "bg_ok (B\<lparr>bg_inner := h\<rparr>)" and "parents h = parents (bg_inner B)"
  shows "linked g (B\<lparr>bg_inner := h\<rparr>)"
  by (rule linkedI) (use assms linkedD[OF L] in simp_all)

end
