(* ===== verification/Mempool_Tracking.thy ===== *)
theory Mempool_Tracking
  imports Mempool Mempool_Links
begin

text \<open>
  What the rest of the mempool knows about the transactions of the graph
  (crates/block-producer/src/mempool/mod.rs): the inflight state, the expirations and the event
  tracker hold exactly the graph's transactions, and the uncommitted transactions of an account are a
  path of the graph. A set that is closed under descendants is therefore a suffix of every account's
  transactions, and one that is closed under parents a prefix, which is what reverting and committing
  need.
\<close>

section \<open>Paths and closed sets\<close>

definition path :: "('k, 'v) dep_graph \<Rightarrow> 'k list \<Rightarrow> bool" where
  "path g xs = successively (\<lambda>u v. u \<in> pars g v) xs"

lemma path_simps [simp]:
  "path g []" "path g [x]" "path g (x # y # ys) \<longleftrightarrow> x \<in> pars g y \<and> path g (y # ys)"
  by (simp_all add: path_def)

lemma path_Cons: "path g (x # xs) \<Longrightarrow> path g xs"
  by (cases xs) auto

lemma path_append: "path g (xs @ ys) \<longleftrightarrow> path g xs \<and> path g ys \<and> (xs = [] \<or> ys = [] \<or> last xs \<in> pars g (hd ys))"
  by (simp add: path_def successively_append_iff)

lemma path_mono:
  assumes "path g xs" and "\<And>u v. u \<in> set xs \<Longrightarrow> v \<in> set xs \<Longrightarrow> u \<in> pars g v \<Longrightarrow> u \<in> pars h v"
  shows "path h xs"
  using assms unfolding path_def by (rule successively_mono)

definition closed_down :: "('k, 'v) dep_graph \<Rightarrow> 'k set \<Rightarrow> bool" where
  "closed_down g R \<longleftrightarrow> (\<forall>u v. u \<in> R \<longrightarrow> u \<in> pars g v \<longrightarrow> v \<in> R)"

definition closed_up :: "('k, 'v) dep_graph \<Rightarrow> 'k set \<Rightarrow> bool" where
  "closed_up g C \<longleftrightarrow> (\<forall>u v. v \<in> C \<longrightarrow> u \<in> pars g v \<longrightarrow> u \<in> C)"

lemma closed_down_Compl: "closed_up g C \<Longrightarrow> closed_down g (- C)"
  unfolding closed_up_def closed_down_def by blast

lemma path_closed_all:
  assumes "path g (x # xs)" and "x \<in> R" and "closed_down g R"
  shows "set (x # xs) \<subseteq> R"
  using assms(1,2)
proof (induction xs arbitrary: x)
  case (Cons y ys)
  then have "y \<in> R" using assms(3) by (auto simp: closed_down_def)
  moreover have "path g (y # ys)" using Cons.prems(1) by simp
  ultimately show ?case using Cons.IH Cons.prems(2) by auto
qed simp

lemma path_suffix:
  assumes "path g xs" and closed: "closed_down g R"
  shows "\<exists>k. R \<inter> set xs = set (drop k xs)"
  using assms(1)
proof (induction xs)
  case (Cons x xs)
  show ?case
  proof (cases "x \<in> R")
    case True
    then have "R \<inter> set (x # xs) = set (drop 0 (x # xs))"
      using path_closed_all[OF Cons.prems True closed] by auto
    then show ?thesis by blast
  next
    case False
    obtain k where "R \<inter> set xs = set (drop k xs)" using Cons.IH path_Cons[OF Cons.prems] by blast
    then have "R \<inter> set (x # xs) = set (drop (Suc k) (x # xs))" using False by auto
    then show ?thesis by blast
  qed
qed simp

lemma path_prefix:
  assumes "path g xs" and closed: "closed_up g C"
  shows "\<exists>k. C \<inter> set xs = set (take k xs)"
  using assms(1)
proof (induction xs)
  case (Cons x xs)
  show ?case
  proof (cases "x \<in> C")
    case True
    obtain k where "C \<inter> set xs = set (take k xs)" using Cons.IH path_Cons[OF Cons.prems] by blast
    then have "C \<inter> set (x # xs) = set (take (Suc k) (x # xs))" using True by auto
    then show ?thesis by blast
  next
    case False
    then have "x \<in> - C" by simp
    from path_closed_all[OF Cons.prems this closed_down_Compl[OF closed]] have "C \<inter> set (x # xs) = set (take 0 (x # xs))" by auto
    then show ?thesis by blast
  qed
qed simp

section \<open>Tracking\<close>

definition tracking ::
  "transaction_graph \<Rightarrow> inflight_state \<Rightarrow> tx_expirations \<Rightarrow> subscription_provider \<Rightarrow> block_number \<Rightarrow> bool" where
  "tracking g st e p tip \<longleftrightarrow> inflight_inv st \<and> is_deltas st = map_option delta_new \<circ> vertices g
     \<and> (\<forall>acc. path g (uncommitted_at st acc))
     \<and> expirations_ok e \<and> by_tx e = map_option tx_expires_at \<circ> vertices g
     \<and> provider_ok p \<and> tracked_txs p = dom (vertices g)
     \<and> is_chain_tip st = tip \<and> sp_chain_tip p = tip"

lemma trackingD:
  assumes "tracking g st e p tip"
  shows "inflight_inv st" "is_deltas st = map_option delta_new \<circ> vertices g" "path g (uncommitted_at st acc)"
    "expirations_ok e" "by_tx e = map_option tx_expires_at \<circ> vertices g" "provider_ok p"
    "tracked_txs p = dom (vertices g)" "is_chain_tip st = tip" "sp_chain_tip p = tip"
    "dom (is_deltas st) = dom (vertices g)" "core_inv st (committed_deltas st)"
  using assms unfolding tracking_def by (auto simp: inflight_inv_def)

lemma tracking_cong:
  "vertices h = vertices g \<Longrightarrow> parents h = parents g \<Longrightarrow> tracking h st e p tip = tracking g st e p tip"
  by (simp add: tracking_def path_def)

text \<open>An account's uncommitted transactions are its transactions in the graph.\<close>

lemma tracking_uncommitted:
  assumes "tracking g st e p tip"
  shows "set (uncommitted_at st acc) = {t. \<exists>tx. vertices g t = Some tx \<and> tx_account_id tx = acc}"
    "distinct (uncommitted_at st acc)"
  using set_uncommitted_at[OF trackingD(11)[OF assms], of acc] distinct_uncommitted_at[OF trackingD(11)[OF assms]]
  by (auto simp: trackingD(2)[OF assms] inflight_of_def delta_new_def)

lemma inflight_add_tip:
  assumes "core_inv st cds" and "inflight_add_transaction st tx = Ok st' ps"
  shows "is_chain_tip st' = is_chain_tip st" "is_expiration_slack st' = is_expiration_slack st"
    "is_chain_tip st + is_expiration_slack st < tx_expires_at tx"
proof -
  obtain s1 u where v: "verify_transaction st tx = Ok s1 u" and i: "insert_transaction s1 tx = Ok st' ps"
    using assms(2) by (auto simp: inflight_add_transaction_def and_then_eq_Ok)
  note vo = verify_transaction_Ok[OF v]
  show "is_chain_tip st' = is_chain_tip st" "is_expiration_slack st' = is_expiration_slack st"
    using i insert_transaction_Ok[OF assms(1), of tx] by (auto simp: vo(1))
  show "is_chain_tip st + is_expiration_slack st < tx_expires_at tx" by (rule vo(2))
qed

lemma tracking_add:
  assumes T: "tracking g st e p tip" and new: "tx_id tx \<notin> dom (vertices g)"
    and room: "next_index (sp_inflight_txs p) < 2 ^ 64"
    and add: "inflight_add_transaction st tx = Ok st' ps"
    and g': "vertices g' = (vertices g)(tx_id tx \<mapsto> tx)" "pars g' = (pars g)(tx_id tx := ps)"
  shows "\<exists>p'. transaction_added accepts p tx = (Ok p' () :: (subscription_provider, 'e, unit) outcome)
    \<and> tracking g' st' (expirations_insert e (tx_id tx) (tx_expires_at tx)) p' tip"
proof -
  note TD = trackingD[OF T]
  have newd: "tx_id tx \<notin> dom (is_deltas st)" using new TD(10) by simp
  from inflight_add_spec[OF TD(1) newd] add
  have c: "inflight_inv st'" "ps = tx_parents st tx" "is_deltas st' = (is_deltas st)(tx_id tx \<mapsto> delta_new tx)"
      "uncommitted_at st' = (uncommitted_at st)(tx_account_id tx := uncommitted_at st (tx_account_id tx) @ [tx_id tx])"
    by simp_all
  have tip': "is_chain_tip st' = tip"
    using inflight_add_tip[OF TD(11) add] TD(8) by simp
  have "tx_id tx \<notin> tracked_txs p" using new TD(7) by simp
  from transaction_added_Ok[OF TD(6) this room, where accepts = accepts and ?'e = 'e] obtain p' where
    p': "transaction_added accepts p tx = (Ok p' () :: (subscription_provider, 'e, unit) outcome)" "provider_ok p'"
      "tracked_txs p' = insert (tx_id tx) (tracked_txs p)" "sp_chain_tip p' = sp_chain_tip p" by blast
  have "path g' (uncommitted_at st' acc)" for acc
  proof -
    have old: "path g' (uncommitted_at st acc)"
    proof (rule path_mono[OF TD(3)])
      fix u v assume "v \<in> set (uncommitted_at st acc)" "u \<in> pars g v"
      then show "u \<in> pars g' v" using tracking_uncommitted(1)[OF T, of acc] new by (auto simp: g'(2))
    qed
    have "uncommitted_at st (tx_account_id tx) = [] \<or> last (uncommitted_at st (tx_account_id tx)) \<in> pars g' (tx_id tx)"
      by (simp add: g'(2) c(2) tx_parents_def Let_def)
    with old show ?thesis by (auto simp: c(4) path_append)
  qed
  moreover have "expirations_ok (expirations_insert e (tx_id tx) (tx_expires_at tx))"
    using new TD(5) by (intro expirations_insert_ok[OF TD(4)]) auto
  moreover have "by_tx (expirations_insert e (tx_id tx) (tx_expires_at tx)) = map_option tx_expires_at \<circ> vertices g'"
    by (auto simp: expirations_insert_def TD(5) g'(1))
  moreover have "is_deltas st' = map_option delta_new \<circ> vertices g'" by (auto simp: c(3) TD(2) g'(1))
  ultimately have "tracking g' st' (expirations_insert e (tx_id tx) (tx_expires_at tx)) p' tip"
    using c(1) p' TD(7,9) tip' g'(1) by (simp add: tracking_def)
  with p'(1) show ?thesis by blast
qed

lemma drop_uncommitted:
  assumes "path g xs" and "closed_down g R" and "distinct xs"
    and h: "\<And>u v. u \<notin> R \<Longrightarrow> v \<notin> R \<Longrightarrow> u \<in> pars g v \<Longrightarrow> u \<in> pars h v"
  shows "path h (filter (\<lambda>t. t \<notin> R) xs)"
proof -
  obtain k where k: "R \<inter> set xs = set (drop k xs)" using path_suffix[OF assms(1,2)] by blast
  have f: "filter (\<lambda>t. t \<notin> R) xs = take k xs"
    using take_drop_filter[OF assms(3) k] distinct_drop_card(1)[OF assms(3) k] by simp
  have "path g (take k xs)" using assms(1) path_append[of g "take k xs" "drop k xs"] by simp
  then have "path g (filter (\<lambda>t. t \<notin> R) xs)" by (simp add: f)
  then show ?thesis by (rule path_mono) (use h in auto)
qed

lemma tracking_remove:
  assumes T: "tracking g st e p tip" and R: "R \<subseteq> dom (vertices g)" "finite R"
    and closed: "closed_down g R"
    and g': "vertices g' = vertices g |` (- R)" "\<And>t. t \<notin> R \<Longrightarrow> pars g' t = pars g t - R"
  shows "\<exists>st' e' p'. expirations_remove e (sorted_list_of_set R) = (Ok e' () :: (tx_expirations, 'a, unit) outcome)
    \<and> inflight_revert_transactions st R = (Ok st' () :: (inflight_state, 'b, unit) outcome)
    \<and> txs_reverted accepts p R = (Ok p' () :: (subscription_provider, 'c, unit) outcome)
    \<and> tracking g' st' e' p' tip \<and> is_expiration_slack st' = is_expiration_slack st"
proof -
  note TD = trackingD[OF T]
  have rev: "revertible st R"
  proof -
    have "\<exists>k. R \<inter> set (uncommitted a) = set (drop k (uncommitted a))" if "is_accounts st acc = Some a" for acc a
      using path_suffix[OF TD(3)[of acc] closed] that by (simp add: uncommitted_at_def)
    then show ?thesis using R(1) TD(10) by (simp add: revertible_def)
  qed
  note r = inflight_revert_inv[OF TD(1) rev]
  have unc: "uncommitted_at (reverted st R) acc = filter (\<lambda>t. t \<notin> R) (uncommitted_at st acc)" for acc
    by (rule reverted_uncommitted_at[OF TD(11) rev])
  from expirations_remove_Ok[OF TD(4), of "sorted_list_of_set R", where ?'e = 'a] obtain e' where
    e': "expirations_remove e (sorted_list_of_set R) = (Ok e' () :: (tx_expirations, 'a, unit) outcome)"
      "expirations_ok e'" "by_tx e' = by_tx e |` (- R)" using R(2) by auto
  have "R \<subseteq> tracked_txs p" using R(1) TD(7) by simp
  from txs_reverted_Ok[OF TD(6) R(2) this, where accepts = accepts and ?'e = 'c] obtain p' where
    p': "txs_reverted accepts p R = (Ok p' () :: (subscription_provider, 'c, unit) outcome)" "provider_ok p'"
      "tracked_txs p' = tracked_txs p - R" "sp_chain_tip p' = sp_chain_tip p" by blast
  have "path g' (uncommitted_at (reverted st R) acc)" for acc
    unfolding unc
    by (rule drop_uncommitted[OF TD(3) closed tracking_uncommitted(2)[OF T]]) (use g'(2) in auto)
  moreover have "is_deltas (reverted st R) = map_option delta_new \<circ> vertices g'"
    by (auto simp: reverted_def TD(2) g'(1) restrict_map_def)
  moreover have "by_tx e' = map_option tx_expires_at \<circ> vertices g'"
    by (auto simp: e'(3) TD(5) g'(1) restrict_map_def)
  moreover have "tracked_txs p' = dom (vertices g')" using p'(3) TD(7) g'(1) by auto
  moreover have "is_chain_tip (reverted st R) = tip" "is_expiration_slack (reverted st R) = is_expiration_slack st"
    using TD(8) by (simp_all add: reverted_def)
  ultimately have "tracking g' (reverted st R) e' p' tip"
    using r(2) e'(2) p'(2,4) TD(9) by (simp add: tracking_def)
  then show ?thesis
    using e'(1) p'(1) r(1) \<open>is_expiration_slack (reverted st R) = is_expiration_slack st\<close> by blast
qed

lemma keep_uncommitted:
  assumes "path g xs" and "closed_up g C" and "distinct xs"
    and h: "\<And>u v. u \<notin> C \<Longrightarrow> v \<notin> C \<Longrightarrow> u \<in> pars g v \<Longrightarrow> u \<in> pars h v"
  shows "path h (filter (\<lambda>t. t \<notin> C) xs)"
proof -
  obtain k where k: "C \<inter> set xs = set (take k xs)" using path_prefix[OF assms(1,2)] by blast
  have "filter (\<lambda>t. t \<notin> C) (take k xs) = []" using k by (auto simp: filter_empty_conv)
  moreover have "filter (\<lambda>t. t \<notin> C) (drop k xs) = drop k xs"
    using distinct_take_card(2)[OF assms(3) k] by (auto simp: filter_id_conv)
  ultimately have f: "filter (\<lambda>t. t \<notin> C) xs = drop k xs" by (metis append_Nil append_take_drop_id filter_append)
  have "path g (drop k xs)" using assms(1) path_append[of g "take k xs" "drop k xs"] by simp
  then have "path g (filter (\<lambda>t. t \<notin> C) xs)" by (simp add: f)
  then show ?thesis by (rule path_mono) (use h in auto)
qed

lemma tracking_commit:
  assumes T: "tracking g st e p tip" and C: "set ts \<subseteq> dom (vertices g)" "distinct ts"
    and closed: "closed_up g (set ts)"
    and g': "vertices g' = vertices g |` (- set ts)" "\<And>t. t \<notin> set ts \<Longrightarrow> pars g' t = pars g t - set ts"
    and num: "bh_block_num header = Suc tip"
  shows "\<exists>st' e' p'. expirations_remove e ts = (Ok e' () :: (tx_expirations, 'a, unit) outcome)
    \<and> inflight_commit_block st ts = (Ok st' () :: (inflight_state, 'b, unit) outcome)
    \<and> block_committed accepts p header ts = (Ok p' () :: (subscription_provider, 'c, unit) outcome)
    \<and> tracking g' st' e' p' (Suc tip) \<and> is_expiration_slack st' = is_expiration_slack st"
proof -
  note TD = trackingD[OF T]
  have com: "committable st (set ts)"
  proof -
    have "\<exists>k. set ts \<inter> set (uncommitted a) = set (take k (uncommitted a))" if "is_accounts st acc = Some a" for acc a
      using path_prefix[OF TD(3)[of acc] closed] that by (simp add: uncommitted_at_def)
    then show ?thesis using C(1) TD(10) by (simp add: committable_def)
  qed
  from inflight_commit_Ok[OF TD(1) com C(2), where ?'e = 'b] obtain st' where
    st': "inflight_commit_block st ts = (Ok st' () :: (inflight_state, 'b, unit) outcome)" "inflight_inv st'"
      "is_deltas st' = is_deltas st |` (- set ts)" "is_chain_tip st' = Suc (is_chain_tip st)"
      "is_expiration_slack st' = is_expiration_slack st"
      "\<forall>acc a. is_accounts st' acc = Some a \<longrightarrow> (\<exists>b. is_accounts st acc = Some b
        \<and> uncommitted a = filter (\<lambda>t. t \<notin> set ts) (uncommitted b))" by blast
  have unc: "uncommitted_at st' acc = filter (\<lambda>t. t \<notin> set ts) (uncommitted_at st acc)" for acc
    by (rule uncommitted_at_filter[OF TD(1) st'(2,3,6)])
  from expirations_remove_Ok[OF TD(4), of ts, where ?'e = 'a] obtain e' where
    e': "expirations_remove e ts = (Ok e' () :: (tx_expirations, 'a, unit) outcome)"
      "expirations_ok e'" "by_tx e' = by_tx e |` (- set ts)" by blast
  have "set ts \<subseteq> tracked_txs p" using C(1) TD(7) by simp
  from block_committed_Ok[OF TD(6) C(2) this, where accepts = accepts and header = header and ?'e = 'c] obtain p' where
    p': "block_committed accepts p header ts = (Ok p' () :: (subscription_provider, 'c, unit) outcome)" "provider_ok p'"
      "tracked_txs p' = tracked_txs p - set ts" "sp_chain_tip p' = bh_block_num header" by blast
  have "path g' (uncommitted_at st' acc)" for acc
    unfolding unc
    by (rule keep_uncommitted[OF TD(3) closed tracking_uncommitted(2)[OF T]]) (use g'(2) in auto)
  moreover have "is_deltas st' = map_option delta_new \<circ> vertices g'"
    by (auto simp: st'(3) TD(2) g'(1) restrict_map_def)
  moreover have "by_tx e' = map_option tx_expires_at \<circ> vertices g'"
    by (auto simp: e'(3) TD(5) g'(1) restrict_map_def)
  moreover have "tracked_txs p' = dom (vertices g')" using p'(3) TD(7) g'(1) by auto
  ultimately have "tracking g' st' e' p' (Suc tip)"
    using st'(2,4) e'(2) p'(2,4) TD(8) num by (simp add: tracking_def)
  then show ?thesis using st'(1,5) e'(1) p'(1) by blast
qed

end
