(* ===== verification/Mempool_Safety.thy ===== *)
theory Mempool_Safety
  imports Mempool_Tracking
begin

text \<open>
  The mempool as a whole (crates/block-producer/src/mempool/mod.rs): the invariant that ties its
  components together, that every operation keeps it, and that under the calling protocol of the
  batch builder and the block builder no call panics. The protocol is what makes the \<open>expect\<close>s of the
  code hold; the last section shows what happens to a caller that breaks it.
\<close>

section \<open>The invariant\<close>

text \<open>Every batch is identified by its transactions.\<close>

definition ids_ok :: "((transaction_id \<times> account_id) list \<Rightarrow> batch_id) \<Rightarrow> batch_graph \<Rightarrow> bool" where
  "ids_ok from_ids B \<longleftrightarrow> (\<forall>b ts. bg_batches B b = Some ts \<longrightarrow> (\<exists>txs. map fst txs = ts \<and> from_ids txs = b))"

definition mempool_core ::
  "((transaction_id \<times> account_id) list \<Rightarrow> batch_id) \<Rightarrow> mempool \<Rightarrow> batch_id set \<Rightarrow> bool" where
  "mempool_core from_ids m sel \<longleftrightarrow> linked (mp_transactions m) (mp_batches m) \<and> processed (bg_inner (mp_batches m)) = sel
     \<and> ids_ok from_ids (mp_batches m)
     \<and> tracking (mp_transactions m) (mp_state m) (mp_expirations m) (mp_subscription m) (mp_chain_tip m)"

definition selected :: "mempool \<Rightarrow> batch_id set" where
  "selected m = (case mp_block_in_progress m of None \<Rightarrow> {} | Some bs \<Rightarrow> bs)"

definition unexpired :: "mempool \<Rightarrow> bool" where
  "unexpired m \<longleftrightarrow> (\<forall>t tx. vertices (mp_transactions m) t = Some tx \<longrightarrow> mp_chain_tip m < tx_expires_at tx)"

definition mempool_inv :: "((transaction_id \<times> account_id) list \<Rightarrow> batch_id) \<Rightarrow> mempool \<Rightarrow> bool" where
  "mempool_inv from_ids m \<longleftrightarrow> mempool_core from_ids m (selected m) \<and> unexpired m"

text \<open>The inflight transactions.\<close>

definition inflight_ids :: "mempool \<Rightarrow> transaction_id set" where
  "inflight_ids m = dom (vertices (mp_transactions m))"

lemma mempool_coreD:
  assumes "mempool_core from_ids m sel"
  shows "linked (mp_transactions m) (mp_batches m)" "processed (bg_inner (mp_batches m)) = sel" "ids_ok from_ids (mp_batches m)"
    "tracking (mp_transactions m) (mp_state m) (mp_expirations m) (mp_subscription m) (mp_chain_tip m)"
  using assms by (simp_all add: mempool_core_def)

lemma ids_ok_delete: "ids_ok from_ids B \<Longrightarrow> ids_ok from_ids (bg_delete B R)"
  by (auto simp: ids_ok_def bg_delete_def restrict_map_def)

lemma mempool_new_inv:
  assumes "retention < 2 ^ 32"
  shows "mempool_inv from_ids (mempool_new tip bb kb retention slack)"
proof -
  have "tracking graph_default (inflight_new tip retention slack) expirations_default (provider_new tip) tip"
    unfolding tracking_def
  proof (intro conjI allI)
    show "inflight_inv (inflight_new tip retention slack)" by (rule inflight_new_inv[OF assms])
    show "expirations_ok expirations_default" by (rule expirations_default_ok)
    show "provider_ok (provider_new tip)" by (rule provider_new_ok)
    show "tracked_txs (provider_new tip) = dom (vertices graph_default)"
      by (simp add: provider_new_ok graph_default_def)
  qed (simp_all add: graph_default_def inflight_new_def expirations_default_def provider_new_def uncommitted_at_def fun_eq_iff)
  then show ?thesis
    by (simp add: mempool_inv_def mempool_core_def mempool_new_def selected_def linked_default unexpired_def)
      (simp add: bg_default_def graph_default_def ids_ok_def)
qed

section \<open>Adding a transaction\<close>

text \<open>
  A transaction that is inflight may be submitted again: it is the same transaction, and it spends a
  nullifier or creates a note.
\<close>

definition may_add :: "mempool \<Rightarrow> auth_tx \<Rightarrow> bool" where
  "may_add m tx \<longleftrightarrow> next_index (sp_inflight_txs (mp_subscription m)) < 2 ^ 64
     \<and> (\<forall>tx'. vertices (mp_transactions m) (tx_id tx) = Some tx' \<longrightarrow>
          delta_new tx' = delta_new tx \<and> (tx_nullifiers tx \<noteq> [] \<or> tx_output_note_ids tx \<noteq> []))"

lemma resubmission_rejected:
  assumes T: "tracking g st e p tip" and v: "vertices g (tx_id tx) = Some tx'"
    and same: "delta_new tx' = delta_new tx" and ne: "tx_nullifiers tx \<noteq> [] \<or> tx_output_note_ids tx \<noteq> []"
  shows "\<not> admissible st tx"
proof
  assume A: "admissible st tx"
  have "is_deltas st (tx_id tx) = Some (delta_new tx)" using trackingD(2)[OF T] v same by simp
  then have "delta_new tx \<in> known_deltas st" by (auto simp: known_deltas_def intro: ranI)
  with A have "set (tx_nullifiers tx) = {}" "set (tx_output_note_ids tx) = {}"
    unfolding admissible_def by (force simp: delta_new_def)+
  with ne show False by simp
qed

lemma add_transaction_core:
  assumes core: "mempool_core from_ids m sel" and may: "may_add m tx"
  shows "case add_transaction accepts m tx of
      Ok m' tip \<Rightarrow> admissible (mp_state m) tx \<and> mempool_core from_ids m' sel \<and> tip = mp_chain_tip m
        \<and> vertices (mp_transactions m') = (vertices (mp_transactions m))(tx_id tx \<mapsto> tx)
        \<and> tx_id tx \<notin> inflight_ids m \<and> mp_chain_tip m' = mp_chain_tip m
        \<and> mp_block_in_progress m' = mp_block_in_progress m
    | Err m' e \<Rightarrow> \<not> admissible (mp_state m) tx \<and> m' = m
    | _ \<Rightarrow> False"
proof -
  note C = mempool_coreD[OF core]
  let ?g = "mp_transactions m"
  note TD = trackingD[OF C(4)]
  show ?thesis
  proof (cases "admissible (mp_state m) tx")
    case False
    then have "verify_transaction (mp_state m) tx \<noteq> Ok (mp_state m) ()" using verify_iff_admissible[OF TD(1)] by blast
    with inflight_add_cases[OF TD(1), of tx] obtain e where "inflight_add_transaction (mp_state m) tx = Err (mp_state m) e" by blast
    with False show ?thesis by (simp add: add_transaction_def)
  next
    case True
    have new: "tx_id tx \<notin> dom (vertices ?g)"
    proof
      assume "tx_id tx \<in> dom (vertices ?g)"
      then obtain tx' where "vertices ?g (tx_id tx) = Some tx'" by blast
      with resubmission_rejected[OF C(4) this] may True show False by (auto simp: may_add_def)
    qed
    have newd: "tx_id tx \<notin> dom (is_deltas (mp_state m))" using new TD(10) by simp
    obtain st' ps where
      add: "inflight_add_transaction (mp_state m) tx = Ok st' ps" and "ps \<subseteq> dom (is_deltas (mp_state m))"
      using inflight_add_spec[OF TD(1) newd] True by (cases "inflight_add_transaction (mp_state m) tx") auto
    then have ps: "ps \<subseteq> dom (vertices ?g)" using TD(10) by simp
    from linked_insert[OF C(1) new ps] obtain g' where
      g': "tg_insert ?g tx ps = Ok g' ()" "linked g' (mp_batches m)" "vertices g' = (vertices ?g)(tx_id tx \<mapsto> tx)"
        "pars g' = (pars ?g)(tx_id tx := ps)" by blast
    have room: "next_index (sp_inflight_txs (mp_subscription m)) < 2 ^ 64" using may by (simp add: may_add_def)
    from tracking_add[OF C(4) new room add g'(3,4), where accepts = accepts and ?'e = add_transaction_error] obtain p' where
      p': "transaction_added accepts (mp_subscription m) tx = (Ok p' () :: (subscription_provider, add_transaction_error, unit) outcome)"
        "tracking g' st' (expirations_insert (mp_expirations m) (tx_id tx) (tx_expires_at tx)) p' (mp_chain_tip m)" by blast
    have "add_transaction accepts m tx = Ok (m\<lparr>mp_state := st', mp_subscription := p',
        mp_expirations := expirations_insert (mp_expirations m) (tx_id tx) (tx_expires_at tx), mp_transactions := g'\<rparr>) (mp_chain_tip m)"
      using add p'(1) g'(1) by (simp add: add_transaction_def Let_def)
    then show ?thesis using True C(2,3) g'(2,3) p'(2) new by (simp add: mempool_core_def inflight_ids_def)
  qed
qed

section \<open>Batches\<close>

lemma linked_fresh:
  assumes L: "linked g B" and ids: "ids_ok from_ids B" and inj: "inj from_ids"
    and txs: "txs \<noteq> []" "fst ` set txs \<inter> processed g = {}"
  shows "from_ids txs \<notin> nodes (bg_inner B)"
proof
  assume "from_ids txs \<in> nodes (bg_inner B)"
  then obtain ts where ts: "bg_batches B (from_ids txs) = Some ts" using bg_okD(2)[OF linkedD(2)[OF L]] by blast
  then obtain txs' where "map fst txs' = ts" "from_ids txs' = from_ids txs" using ids unfolding ids_ok_def by blast
  then have tseq: "map fst txs = ts" using inj by (simp add: inj_eq)
  obtain t where t: "t \<in> set (map fst txs)" using txs(1) by (cases txs) auto
  then have "t \<in> set ts" by (simp only: tseq)
  then have "bg_transactions B t = Some (from_ids txs)" using bg_okD(3)[OF linkedD(2)[OF L]] ts by blast
  then have "t \<in> processed g" using linkedD(3)[OF L] by blast
  with t txs(2) show False by auto
qed

lemma select_batch_core:
  assumes core: "mempool_core from_ids m sel" and inj: "inj from_ids"
  shows "\<exists>m' r. mp_select_batch from_ids m = (Ok m' r :: (mempool, 'e, (batch_id \<times> auth_tx list) option) outcome)
    \<and> mempool_core from_ids m' sel \<and> vertices (mp_transactions m') = vertices (mp_transactions m)
    \<and> mp_chain_tip m' = mp_chain_tip m \<and> mp_block_in_progress m' = mp_block_in_progress m
    \<and> (case r of None \<Rightarrow> True
       | Some (i, batch) \<Rightarrow> batch \<noteq> [] \<and> bg_get_transactions (mp_batches m') i = Some (map tx_id batch)
           \<and> tx_id ` set batch \<inter> processed (mp_transactions m) = {} \<and> i \<notin> nodes (bg_inner (mp_batches m)))"
proof -
  note C = mempool_coreD[OF core]
  let ?g = "mp_transactions m"
  from tg_select_batch_Ok[OF linkedD(1)[OF C(1)], of "mp_batch_budget m", where ?'e = 'e] obtain ks g' where
    sel: "tg_select_batch ?g (mp_batch_budget m) = (Ok g' (values_of ?g ks, \<Union>k \<in> set ks. pars ?g k)
        :: (transaction_graph, 'e, auth_tx list \<times> transaction_id set) outcome)"
      "selection batch_check_then_subtract ?g (mp_batch_budget m) ks g'" "tg_ok g'" "map tx_id (values_of ?g ks) = ks" by blast
  have sel': "vertices g' = vertices ?g" "parents g' = parents ?g" using sel(2) by (simp_all add: selection_def)
  have track: "tracking g' (mp_state m) (mp_expirations m) (mp_subscription m) (mp_chain_tip m)"
    using C(4) by (simp add: tracking_cong[OF sel'])
  show ?thesis
  proof (cases "ks = []")
    case True
    have "processed g' = processed ?g" using sel(2) True by (simp add: selection_def)
    then have "linked g' (mp_batches m)"
      using linkedD[OF C(1)] sel(3) sel'(2) by (intro linkedI) simp_all
    then have "mempool_core from_ids (m\<lparr>mp_transactions := g'\<rparr>) sel" using C(2,3) track by (simp add: mempool_core_def)
    moreover have "mp_select_batch from_ids m
        = (Ok (m\<lparr>mp_transactions := g'\<rparr>) None :: (mempool, 'e, (batch_id \<times> auth_tx list) option) outcome)"
      using sel(1) True by (simp add: mp_select_batch_def values_of_def)
    ultimately show ?thesis using sel'(1) by (intro exI[of _ "m\<lparr>mp_transactions := g'\<rparr>"] exI[of _ None]) simp
  next
    case False
    define txs where "txs = map (\<lambda>tx. (tx_id tx, tx_account_id tx)) (values_of ?g ks)"
    have keys: "map fst txs = ks" using sel(4) by (simp add: txs_def comp_def)
    have ne: "txs \<noteq> []" using keys False by auto
    have dis: "fst ` set txs \<inter> processed ?g = {}"
      using sel(2) keys by (metis list.set_map selection_def)
    note fresh = linked_fresh[OF C(1,3) inj ne dis]
    from linked_select_batch[where from_ids = from_ids, OF C(1) sel(2) False sel(3) keys fresh] obtain B' where
      B': "bg_insert from_ids (mp_batches m) txs (\<Union>k \<in> set ks. pars ?g k) = Ok B' (from_ids txs)" "linked g' B'"
        "bg_batches B' = (bg_batches (mp_batches m))(from_ids txs \<mapsto> ks)"
        "processed (bg_inner B') = processed (bg_inner (mp_batches m))" by blast
    have "ids_ok from_ids B'" using C(3) keys by (auto simp: ids_ok_def B'(3))
    then have "mempool_core from_ids (m\<lparr>mp_transactions := g', mp_batches := B'\<rparr>) sel"
      using C(2) B'(2,4) track by (simp add: mempool_core_def)
    moreover have "mp_select_batch from_ids m = (Ok (m\<lparr>mp_transactions := g', mp_batches := B'\<rparr>)
        (Some (from_ids txs, values_of ?g ks)) :: (mempool, 'e, (batch_id \<times> auth_tx list) option) outcome)"
      using sel(1) B'(1) False by (simp add: mp_select_batch_def Let_def txs_def[symmetric]) (simp add: values_of_def)
    moreover have "tx_id ` set (values_of ?g ks) \<inter> processed ?g = {}"
      using sel(2,4) by (metis list.set_map selection_def)
    ultimately show ?thesis using sel' B'(3) sel(4) fresh False
      by (intro exI[of _ "m\<lparr>mp_transactions := g', mp_batches := B'\<rparr>"] exI[of _ "Some (from_ids txs, values_of ?g ks)"])
        (simp add: bg_get_transactions_def values_of_def)
  qed
qed

text \<open>Transactions of removed batches go back to the queue; nothing else changes.\<close>

lemma delete_no_nodes: "wf_shape g \<Longrightarrow> delete_nodes g {} = g"
proof -
  have "without_edges {} mm = mm" for mm :: "'a \<rightharpoonup> 'a set"
    by (rule ext) (simp add: without_edges_def option.map_ident)
  then show ?thesis by (simp add: delete_nodes_def restrict_map_def)
qed

lemma descendants_closed_down: "closed_down g (descendants g keys)"
  unfolding closed_down_def by (intro allI impI) (rule descendants_step)

lemma descendants_unprocessed:
  assumes wf: "wf_graph g" and "keys \<inter> processed g = {}"
  shows "descendants g keys \<inter> processed g = {}"
proof -
  have "descendants g keys \<subseteq> - processed g"
    by (rule descendants_closed) (use assms wf_graphD(3)[OF wf] in blast)+
  then show ?thesis by blast
qed

lemma rollback_batch_core:
  assumes core: "mempool_core from_ids m sel" and b: "b \<notin> sel"
  shows "\<exists>m'. rollback_batch m b = (Ok m' () :: (mempool, 'e, unit) outcome) \<and> mempool_core from_ids m' sel
    \<and> vertices (mp_transactions m') = vertices (mp_transactions m) \<and> parents (mp_transactions m') = parents (mp_transactions m)
    \<and> mp_chain_tip m' = mp_chain_tip m \<and> mp_block_in_progress m' = mp_block_in_progress m
    \<and> (let D = (if b \<in> nodes (bg_inner (mp_batches m)) then descendants (bg_inner (mp_batches m)) {b} else {}) in
        nodes (bg_inner (mp_batches m')) = nodes (bg_inner (mp_batches m)) - D
        \<and> processed (mp_transactions m') = processed (mp_transactions m) - txs_of (mp_batches m) D)"
proof (cases "bg_contains (mp_batches m) b")
  case False
  then have "b \<notin> nodes (bg_inner (mp_batches m))"
    using bg_okD(2)[OF linkedD(2)[OF mempool_coreD(1)[OF core]]] by (simp add: bg_contains_def)
  with False core show ?thesis
    by (intro exI[of _ m]) (simp add: rollback_batch_def txs_of_def)
next
  case True
  note C = mempool_coreD[OF core]
  let ?g = "mp_transactions m" and ?B = "mp_batches m"
  note bok = linkedD(2)[OF C(1)]
  define D where "D = descendants (bg_inner ?B) {b}"
  have bn: "b \<in> nodes (bg_inner ?B)" using True bg_okD(2)[OF bok] by (simp add: bg_contains_def)
  then have sub: "{b} \<subseteq> nodes (bg_inner ?B)" by simp
  note rm = remove_batches_Ok[OF bok sub, folded D_def]
  have cl: "\<And>x c. x \<in> D \<Longrightarrow> x \<in> pars (bg_inner ?B) c \<Longrightarrow> c \<in> D" unfolding D_def by (rule descendants_step)
  have wf: "wf_graph ?g" by (rule tg_okD(1)[OF linkedD(1)[OF C(1)]])
  note no = delete_no_nodes[OF wf_graphD(1)[OF wf]]
  define Q where "Q = txs_of ?B D"
  note lr = linked_remove[OF C(1), of "{}" D, unfolded no, OF _ cl, simplified, folded Q_def]
  let ?g2 = "requeued ?g (descendants ?g Q)"
  have D0: "D \<inter> sel = {}" using descendants_unprocessed[OF bg_okD(1)[OF bok], of "{b}"] C(2) b by (simp add: D_def)
  define taken where "taken = map (\<lambda>b. (b, the (bg_batches ?B b))) (sorted_list_of_set D)"
  have Qt: "set (concat (map snd taken)) = Q" using rm(5) by (simp only: taken_def Q_def)
  have run: "rollback_batch m b = (Ok (m\<lparr>mp_batches := bg_delete ?B D, mp_transactions := ?g2\<rparr>) () :: (mempool, 'e, unit) outcome)"
    using True rm(1)[folded taken_def] lr(1) unfolding rollback_batch_def by (simp add: Let_def Qt del: set_concat)
  have "processed (bg_inner (bg_delete ?B D)) = sel" using C(2) D0 by (auto simp: bg_delete_def)
  moreover have "tracking ?g2 (mp_state m) (mp_expirations m) (mp_subscription m) (mp_chain_tip m)"
    using C(4) by (simp add: tracking_cong[of ?g2 ?g])
  ultimately have "mempool_core from_ids (m\<lparr>mp_batches := bg_delete ?B D, mp_transactions := ?g2\<rparr>) sel"
    using lr(2) ids_ok_delete[OF C(3)] by (simp add: mempool_core_def)
  moreover have "processed ?g2 = processed ?g - Q"
    using linkedD(3)[OF lr(2)] linkedD(3)[OF C(1)] by (auto simp: bg_delete_def Q_def)
  moreover have "nodes (bg_inner (bg_delete ?B D)) = nodes (bg_inner ?B) - D" by (simp add: bg_delete_def)
  ultimately show ?thesis using run bn
    by (intro exI[of _ "m\<lparr>mp_batches := bg_delete ?B D, mp_transactions := ?g2\<rparr>"])
      (simp add: D_def[symmetric] Q_def[symmetric] Let_def)
qed

lemma commit_batch_core:
  assumes core: "mempool_core from_ids m sel"
    and pend: "pb_id batch \<in> nodes (bg_inner (mp_batches m)) \<Longrightarrow> pb_id batch \<in> pending (bg_inner (mp_batches m))"
  shows "\<exists>m'. commit_batch m batch = (Ok m' () :: (mempool, 'e, unit) outcome) \<and> mempool_core from_ids m' sel
    \<and> mp_transactions m' = mp_transactions m \<and> mp_chain_tip m' = mp_chain_tip m
    \<and> mp_block_in_progress m' = mp_block_in_progress m
    \<and> pending (bg_inner (mp_batches m')) = pending (bg_inner (mp_batches m)) - {pb_id batch}"
proof (cases "bg_contains (mp_batches m) (pb_id batch)")
  case False
  have "pb_id batch \<notin> nodes (bg_inner (mp_batches m))"
    using False bg_okD(2)[OF linkedD(2)[OF mempool_coreD(1)[OF core]]] by (simp add: bg_contains_def)
  then have "pb_id batch \<notin> pending (bg_inner (mp_batches m))" by (simp add: nodes_def)
  then show ?thesis using False core by (intro exI[of _ m]) (simp add: commit_batch_def)
next
  case True
  note C = mempool_coreD[OF core]
  let ?B = "mp_batches m"
  note bok = linkedD(2)[OF C(1)]
  have p: "pb_id batch \<in> pending (bg_inner ?B)" using True bg_okD(2)[OF bok] pend by (simp add: bg_contains_def)
  from submit_proof_Ok[OF bok p] obtain B' where
    B': "submit_proof ?B batch = Ok B' ()" "bg_ok B'" "bg_batches B' = bg_batches ?B" "bg_transactions B' = bg_transactions ?B"
      "parents (bg_inner B') = parents (bg_inner ?B)" "pending (bg_inner B') = pending (bg_inner ?B) - {pb_id batch}"
      "processed (bg_inner B') = processed (bg_inner ?B)" by blast
  have "linked (mp_transactions m) B'" by (rule linkedI) (use B' linkedD[OF C(1)] in simp_all)
  moreover have "ids_ok from_ids B'" using C(3) by (simp add: ids_ok_def B'(3))
  ultimately have "mempool_core from_ids (m\<lparr>mp_batches := B'\<rparr>) sel" using C(2,4) B'(7) by (simp add: mempool_core_def)
  then show ?thesis using True B'(1,6) by (intro exI[of _ "m\<lparr>mp_batches := B'\<rparr>"]) (simp add: commit_batch_def)
qed

lemma select_block_core:
  assumes core: "mempool_core from_ids m {}" and free: "mp_block_in_progress m = None"
  shows "\<exists>m' batches. mp_select_block m = (Ok m' (Suc (mp_chain_tip m), batches) :: (mempool, 'e, block_number \<times> proven_batch list) outcome)
    \<and> mempool_core from_ids m' (set (map pb_id batches)) \<and> mp_block_in_progress m' = Some (set (map pb_id batches))
    \<and> mp_transactions m' = mp_transactions m \<and> mp_chain_tip m' = mp_chain_tip m
    \<and> topological (bg_inner (mp_batches m)) {} (map pb_id batches)"
proof -
  note C = mempool_coreD[OF core]
  let ?B = "mp_batches m"
  note bok = linkedD(2)[OF C(1)]
  from bg_select_block_Ok[OF bok, of "mp_block_budget m", where ?'e = 'e] obtain ks h where
    s: "bg_select_block ?B (mp_block_budget m) = (Ok (?B\<lparr>bg_inner := h\<rparr>) (values_of (bg_inner ?B) ks)
        :: (batch_graph, 'e, proven_batch list) outcome)"
      "selection block_check_then_subtract (bg_inner ?B) (mp_block_budget m) ks h" "bg_ok (?B\<lparr>bg_inner := h\<rparr>)"
      "map pb_id (values_of (bg_inner ?B) ks) = ks" by blast
  note s2 = s(2)[unfolded selection_def]
  have L: "linked (mp_transactions m) (?B\<lparr>bg_inner := h\<rparr>)" by (rule linked_inner[OF C(1) s(3)]) (use s2 in simp)
  have "ids_ok from_ids (?B\<lparr>bg_inner := h\<rparr>)" using C(3) by (simp add: ids_ok_def)
  then have "mempool_core from_ids (m\<lparr>mp_batches := ?B\<lparr>bg_inner := h\<rparr>, mp_block_in_progress := Some (set ks)\<rparr>) (set ks)"
    using L C(2,4) s2 by (simp add: mempool_core_def)
  moreover have "topological (bg_inner ?B) {} ks" using s2 C(2) by simp
  moreover have "pb_id ` set (values_of (bg_inner ?B) ks) = set ks" using s(4) by (metis list.set_map)
  ultimately show ?thesis using s(1,4) free
    by (intro exI[of _ "m\<lparr>mp_batches := ?B\<lparr>bg_inner := h\<rparr>, mp_block_in_progress := Some (set ks)\<rparr>"]
        exI[of _ "values_of (bg_inner ?B) ks"]) (simp add: mp_select_block_def del: list.set_map)
qed

section \<open>Reverting and committing\<close>

lemma revert_transactions_core:
  assumes core: "mempool_core from_ids m sel" and txs: "set txs \<subseteq> inflight_ids m"
  defines "R \<equiv> descendants (mp_transactions m) (set txs)"
  defines "D \<equiv> descendants (bg_inner (mp_batches m)) {b. \<exists>tx \<in> R. bg_transactions (mp_batches m) tx = Some b}"
  shows "\<exists>m'. revert_transactions accepts m txs = Ok m' R \<and> mempool_core from_ids m' (sel - D)
    \<and> vertices (mp_transactions m') = vertices (mp_transactions m) |` (- R)
    \<and> processed (mp_transactions m') = processed (mp_transactions m) - R - txs_of (mp_batches m) D
    \<and> nodes (bg_inner (mp_batches m')) = nodes (bg_inner (mp_batches m)) - D
    \<and> mp_chain_tip m' = mp_chain_tip m \<and> mp_block_in_progress m' = mp_block_in_progress m"
proof -
  note C = mempool_coreD[OF core]
  let ?g = "mp_transactions m" and ?B = "mp_batches m"
  note ok = linkedD(1)[OF C(1)] and bok = linkedD(2)[OF C(1)]
  have sub: "set txs \<subseteq> dom (vertices ?g)" using txs by (simp add: inflight_ids_def)
  note rm = remove_transactions_Ok[OF ok sub, folded R_def]
  have fin: "finite R" using rm(3) wf_finite(4)[OF wf_graphD(1)[OF tg_okD(1)[OF ok]]] by (rule finite_subset)
  have D': "D = descendants (bg_inner ?B) {b. \<exists>tx \<in> set (sorted_list_of_set R). bg_transactions ?B tx = Some b}"
    using fin by (simp add: D_def)
  note rb = remove_with_transactions_Ok[OF bok, of "sorted_list_of_set R", folded D']
  have clR: "\<And>p c. p \<in> R \<Longrightarrow> p \<in> pars ?g c \<Longrightarrow> c \<in> R" unfolding R_def by (rule descendants_step)
  have clD: "\<And>p c. p \<in> D \<Longrightarrow> p \<in> pars (bg_inner ?B) c \<Longrightarrow> c \<in> D" unfolding D_def by (rule descendants_step)
  have RD: "\<And>t b. t \<in> R \<Longrightarrow> bg_transactions ?B t = Some b \<Longrightarrow> b \<in> D"
    unfolding D_def by (rule subsetD[OF subset_descendants]) blast
  define Q where "Q = txs_of ?B D - R"
  define g1 where "g1 = delete_nodes ?g R"
  note lr = linked_remove[OF C(1) clR clD RD, folded Q_def g1_def]
  let ?g2 = "requeued g1 (descendants g1 Q)"
  define taken where "taken = map (\<lambda>b. (b, the (bg_batches ?B b))) (sorted_list_of_set D)"
  have Qt: "set (filter (\<lambda>tx. tx \<notin> R) (concat (map snd taken))) = Q"
    using rb(5) unfolding set_filter taken_def[symmetric] by (auto simp: Q_def)
  have g2v: "vertices ?g2 = vertices ?g |` (- R)" by (simp add: g1_def)
  have g2p: "pars ?g2 t = pars ?g t - R" if "t \<notin> R" for t using that by (simp add: g1_def without_edges_apply)
  have cd: "closed_down ?g R" unfolding R_def by (rule descendants_closed_down)
  from tracking_remove[OF C(4) rm(3) fin cd g2v g2p, where accepts = accepts and ?'a = "transaction_id graph_error"
      and ?'b = "transaction_id graph_error" and ?'c = "transaction_id graph_error"] obtain st' e' p' where
    t: "expirations_remove (mp_expirations m) (sorted_list_of_set R) = (Ok e' () :: (tx_expirations, transaction_id graph_error, unit) outcome)"
      "inflight_revert_transactions (mp_state m) R = (Ok st' () :: (inflight_state, transaction_id graph_error, unit) outcome)"
      "txs_reverted accepts (mp_subscription m) R = (Ok p' () :: (subscription_provider, transaction_id graph_error, unit) outcome)"
      "tracking ?g2 st' e' p' (mp_chain_tip m)" by blast
  define m' where "m' = m\<lparr>mp_transactions := ?g2, mp_batches := bg_delete ?B D, mp_expirations := e', mp_state := st', mp_subscription := p'\<rparr>"
  have run: "revert_transactions accepts m txs = Ok m' R"
    using rm(1) rb(1)[folded taken_def, where ?'a = "transaction_id graph_error"] lr(1) t(1,2,3)
    unfolding revert_transactions_def by (simp add: Let_def Qt g1_def[symmetric] m'_def del: set_filter)
  have "processed (bg_inner (bg_delete ?B D)) = sel - D" using C(2) by (simp add: bg_delete_def)
  then have "mempool_core from_ids m' (sel - D)"
    using lr(2) ids_ok_delete[OF C(3)] t(4) by (simp add: mempool_core_def m'_def)
  moreover have "processed ?g2 = processed ?g - R - txs_of ?B D"
  proof -
    have "processed ?g2 = dom (bg_transactions (bg_delete ?B D))" by (rule linkedD(3)[OF lr(2)])
    also have "\<dots> = processed ?g - txs_of ?B D" using linkedD(3)[OF C(1)] by (auto simp: bg_delete_def)
    also have "\<dots> = processed ?g - R - txs_of ?B D"
      using RD linkedD(3)[OF C(1)] by (fastforce simp: txs_of_def)
    finally show ?thesis .
  qed
  moreover have "nodes (bg_inner (bg_delete ?B D)) = nodes (bg_inner ?B) - D" by (simp add: bg_delete_def)
  ultimately show ?thesis using run g2v by (intro exI[of _ m']) (simp add: m'_def)
qed

lemma revert_expired_core:
  assumes core: "mempool_core from_ids m {}" and due: "\<forall>t tx. vertices (mp_transactions m) t = Some tx \<longrightarrow> mp_chain_tip m \<le> tx_expires_at tx"
    and free: "mp_block_in_progress m = None"
  shows "\<exists>m'. revert_expired_transactions accepts m = (Ok m' {t. \<exists>tx. vertices (mp_transactions m) t = Some tx \<and> tx_expires_at tx = mp_chain_tip m}
      :: (mempool, 'e, transaction_id set) outcome)
    \<and> mempool_inv from_ids m' \<and> mp_chain_tip m' = mp_chain_tip m \<and> mp_block_in_progress m' = None
    \<and> vertices (mp_transactions m') = vertices (mp_transactions m) |` (- descendants (mp_transactions m)
        {t. \<exists>tx. vertices (mp_transactions m) t = Some tx \<and> tx_expires_at tx = mp_chain_tip m})"
proof -
  note C = mempool_coreD[OF core]
  note TD = trackingD[OF C(4)]
  let ?g = "mp_transactions m"
  define X where "X = {t. \<exists>tx. vertices ?g t = Some tx \<and> tx_expires_at tx = mp_chain_tip m}"
  have get: "expirations_get (mp_expirations m) (mp_chain_tip m) = X"
    using expirations_ok_get[OF TD(4)] TD(5) by (auto simp: X_def expiring_at_def)
  have sub: "X \<subseteq> inflight_ids m" by (auto simp: X_def inflight_ids_def)
  have "finite (dom (vertices ?g))" by (rule wf_finite(4)[OF wf_graphD(1)[OF tg_okD(1)[OF linkedD(1)[OF C(1)]]]])
  then have fin: "finite X" using sub by (auto simp: inflight_ids_def intro: finite_subset)
  have "set (sorted_list_of_set X) \<subseteq> inflight_ids m" using sub fin by simp
  from revert_transactions_core[OF core this, where accepts = accepts] fin obtain m' where
    r: "revert_transactions accepts m (sorted_list_of_set X) = Ok m' (descendants ?g X)"
      "mempool_core from_ids m' {}" "vertices (mp_transactions m') = vertices ?g |` (- descendants ?g X)"
      "mp_chain_tip m' = mp_chain_tip m" "mp_block_in_progress m' = None" using free by auto
  have "unexpired m'"
    unfolding unexpired_def
  proof (intro allI impI)
    fix t tx assume v: "vertices (mp_transactions m') t = Some tx"
    then have "vertices ?g t = Some tx" "t \<notin> descendants ?g X" by (simp_all add: r(3) restrict_map_def split: if_splits)
    then have "t \<notin> X" "mp_chain_tip m \<le> tx_expires_at tx" using subset_descendants[of X ?g] due by blast+
    with \<open>vertices ?g t = Some tx\<close> show "mp_chain_tip m' < tx_expires_at tx" by (auto simp: X_def r(4))
  qed
  with r(2,5) have "mempool_inv from_ids m'" by (simp add: mempool_inv_def selected_def)
  moreover have "revert_expired_transactions accepts m = (Ok m' X :: (mempool, 'e, transaction_id set) outcome)"
    using r(1) by (simp add: revert_expired_transactions_def get)
  ultimately show ?thesis using r(3,4,5) by (auto simp: X_def[symmetric])
qed

lemma commit_block_core:
  assumes inv: "mempool_inv from_ids m" and S: "mp_block_in_progress m = Some S"
    and num: "bh_block_num header = Suc (mp_chain_tip m)"
  defines "T \<equiv> txs_of (mp_batches m) S"
  defines "X \<equiv> {t. \<exists>tx. vertices (mp_transactions m) t = Some tx \<and> t \<notin> T \<and> tx_expires_at tx = Suc (mp_chain_tip m)}"
  shows "\<exists>m'. commit_block accepts m header = (Ok m' () :: (mempool, 'e, unit) outcome) \<and> mempool_inv from_ids m'
    \<and> mp_chain_tip m' = Suc (mp_chain_tip m) \<and> mp_block_in_progress m' = None
    \<and> vertices (mp_transactions m') =
        vertices (mp_transactions m) |` (- (T \<union> descendants (delete_nodes (mp_transactions m) T) X))"
proof -
  have core: "mempool_core from_ids m S" and unexp: "unexpired m" using inv S by (simp_all add: mempool_inv_def selected_def)
  note C = mempool_coreD[OF core]
  let ?g = "mp_transactions m" and ?B = "mp_batches m"
  have Ssub: "S \<subseteq> processed (bg_inner ?B)" using C(2) by simp
  have Scl: "\<And>b. b \<in> S \<Longrightarrow> pars (bg_inner ?B) b \<subseteq> S"
    using wf_graphD(3)[OF bg_okD(1)[OF linkedD(2)[OF C(1)]]] C(2) by blast
  define ts where "ts = concat (map (\<lambda>b. the (bg_batches ?B b)) (sorted_list_of_set S))"
  note lc = linked_commit[OF C(1) Ssub Scl, folded ts_def]
  have tsT: "set ts = T" unfolding T_def by (rule lc(2))
  have p: "prune_committed ?B S = Ok (bg_delete ?B S) ts" "set ts = T" "distinct ts"
      "commit_transactions ?g ts = Ok (delete_nodes ?g T) ()" "linked (delete_nodes ?g T) (bg_delete ?B S)"
      "T \<subseteq> processed ?g" "\<And>t p. t \<in> T \<Longrightarrow> p \<in> pars ?g t \<Longrightarrow> p \<in> T"
    using lc(1,3,4,5,6,7) tsT by simp_all
  have dom: "set ts \<subseteq> dom (vertices ?g)" using p(2,6) linked_dom[OF C(1)] by blast
  have cu: "closed_up ?g (set ts)" using p(7) by (auto simp: closed_up_def p(2))
  have g'v: "vertices (delete_nodes ?g T) = vertices ?g |` (- set ts)" by (simp add: p(2))
  have g'p: "pars (delete_nodes ?g T) t = pars ?g t - set ts" if "t \<notin> set ts" for t
    using that by (simp add: without_edges_apply p(2))
  from tracking_commit[OF C(4) dom p(3) cu g'v g'p num, where accepts = accepts and ?'a = 'e and ?'b = 'e and ?'c = 'e]
  obtain st' e' p' where t: "expirations_remove (mp_expirations m) ts = (Ok e' () :: (tx_expirations, 'e, unit) outcome)"
      "inflight_commit_block (mp_state m) ts = (Ok st' () :: (inflight_state, 'e, unit) outcome)"
      "block_committed accepts (mp_subscription m) header ts = (Ok p' () :: (subscription_provider, 'e, unit) outcome)"
      "tracking (delete_nodes ?g T) st' e' p' (Suc (mp_chain_tip m))" by blast
  define m1 where "m1 = m\<lparr>mp_block_in_progress := None, mp_batches := bg_delete ?B S, mp_transactions := delete_nodes ?g T,
      mp_expirations := e', mp_state := st', mp_chain_tip := Suc (mp_chain_tip m), mp_subscription := p'\<rparr>"
  have core1: "mempool_core from_ids m1 {}"
    using p(5) ids_ok_delete[OF C(3)] t(4) C(2) by (simp add: mempool_core_def m1_def) (simp add: bg_delete_def)
  have due: "\<forall>t tx. vertices (mp_transactions m1) t = Some tx \<longrightarrow> mp_chain_tip m1 \<le> tx_expires_at tx"
    using unexp by (auto simp: m1_def unexpired_def restrict_map_def Suc_le_eq split: if_splits)
  have X: "{t. \<exists>tx. vertices (mp_transactions m1) t = Some tx \<and> tx_expires_at tx = mp_chain_tip m1} = X"
    by (auto simp: m1_def X_def restrict_map_def)
  have "mp_block_in_progress m1 = None" by (simp add: m1_def)
  from revert_expired_core[OF core1 due this, where accepts = accepts and ?'e = 'e, unfolded X] obtain m' where
    m': "revert_expired_transactions accepts m1 = (Ok m' X :: (mempool, 'e, transaction_id set) outcome)" "mempool_inv from_ids m'"
      "mp_chain_tip m' = mp_chain_tip m1" "mp_block_in_progress m' = None"
      "vertices (mp_transactions m') = vertices (mp_transactions m1) |` (- descendants (mp_transactions m1) X)" by blast
  have "commit_block accepts m header = (Ok m' () :: (mempool, 'e, unit) outcome)"
    using S p(1,4) t(1,2,3) m'(1) by (simp add: commit_block_def Let_def m1_def)
  moreover have "vertices (mp_transactions m') = vertices ?g |` (- (T \<union> descendants (delete_nodes ?g T) X))"
    by (auto simp: m'(5) m1_def restrict_map_def fun_eq_iff)
  ultimately show ?thesis using m'(2-4) by (auto simp: m1_def)
qed

lemma block_transactions_Some:
  "set bs \<subseteq> dom (bg_batches bg) \<Longrightarrow> block_transactions bg bs = Some (concat (map (\<lambda>b. the (bg_batches bg b)) bs))"
  by (induction bs) (auto simp: bg_get_transactions_def)

lemma rollback_block_core:
  assumes inv: "mempool_inv from_ids m" and S: "mp_block_in_progress m = Some S"
  shows "\<exists>m'. rollback_block accepts m = (Ok m' () :: (mempool, 'e, unit) outcome) \<and> mempool_inv from_ids m'
    \<and> mp_chain_tip m' = mp_chain_tip m \<and> mp_block_in_progress m' = None
    \<and> vertices (mp_transactions m') = vertices (mp_transactions m) |` (- descendants (mp_transactions m) (txs_of (mp_batches m) S))"
proof -
  have core: "mempool_core from_ids m S" and unexp: "unexpired m" using inv S by (simp_all add: mempool_inv_def selected_def)
  note C = mempool_coreD[OF core]
  let ?g = "mp_transactions m" and ?B = "mp_batches m"
  note bok = linkedD(2)[OF C(1)]
  have wfB: "wf_graph (bg_inner ?B)" by (rule bg_okD(1)[OF bok])
  have Sn: "S \<subseteq> nodes (bg_inner ?B)" using C(2) wf_graphD(2)[OF wfB] by (auto simp: nodes_def)
  have fin: "finite S" using C(2) wf_graph_ready_sets(1)[OF wfB] by simp
  define ts where "ts = concat (map (\<lambda>b. the (bg_batches ?B b)) (sorted_list_of_set S))"
  have bt: "block_transactions ?B (sorted_list_of_set S) = Some ts"
    unfolding ts_def by (rule block_transactions_Some) (use Sn fin bg_okD(2)[OF bok] in simp)
  have set_ts: "set ts = txs_of ?B S" using fin by (simp add: ts_def txs_of_batches[OF bok Sn])
  have sub: "set ts \<subseteq> dom (vertices ?g)"
    using set_ts txs_of_sub[of ?B S] linkedD(3)[OF C(1)] linked_dom[OF C(1)] by blast
  let ?m0 = "m\<lparr>mp_block_in_progress := None\<rparr>"
  have core0: "mempool_core from_ids ?m0 S" using core by (simp add: mempool_core_def)
  have "set ts \<subseteq> inflight_ids ?m0" using sub by (simp add: inflight_ids_def)
  from revert_transactions_core[OF core0 this, where accepts = accepts] obtain m' D where
    r: "revert_transactions accepts ?m0 ts = Ok m' (descendants ?g (set ts))"
      "D = descendants (bg_inner ?B) {b. \<exists>tx \<in> descendants ?g (set ts). bg_transactions ?B tx = Some b}"
      "mempool_core from_ids m' (S - D)" "vertices (mp_transactions m') = vertices ?g |` (- descendants ?g (set ts))"
      "mp_chain_tip m' = mp_chain_tip m" "mp_block_in_progress m' = None" by auto
  have "S \<subseteq> D"
  proof
    fix b assume b: "b \<in> S"
    then obtain bts where bts: "bg_batches ?B b = Some bts" using Sn bg_okD(2)[OF bok] by blast
    with linkedD(5)[OF C(1), of b] obtain t where t: "t \<in> set bts" by (cases bts) auto
    then have tb: "bg_transactions ?B t = Some b" using bg_okD(3)[OF bok, of t b] bts by blast
    then have "t \<in> set ts" using b by (auto simp: set_ts txs_of_def)
    then have "t \<in> descendants ?g (set ts)" using subset_descendants[of "set ts" ?g] by blast
    then have "b \<in> {b. \<exists>tx \<in> descendants ?g (set ts). bg_transactions ?B tx = Some b}" using tb by blast
    then show "b \<in> D" unfolding r(2) by (rule subsetD[OF subset_descendants])
  qed
  then have SD: "S - D = {}" by blast
  have "mempool_core from_ids m' {}" by (rule r(3)[unfolded SD])
  moreover have "unexpired m'" using unexp by (auto simp: unexpired_def r(4,5) restrict_map_def)
  ultimately have "mempool_inv from_ids m'" using r(6) by (simp add: mempool_inv_def selected_def)
  moreover have "rollback_block accepts m = (Ok m' () :: (mempool, 'e, unit) outcome)"
    using S bt r(1) by (simp add: rollback_block_def)
  ultimately show ?thesis using r(4-6) by (auto simp: set_ts)
qed

end
