(* ===== verification/Mempool_Properties.thy ===== *)
theory Mempool_Properties
  imports Mempool_Safety "HOL-Library.Countable" "HOL-Library.Code_Target_Nat"
begin

text \<open>
  The mempool as its callers see it (crates/block-producer/src/mempool/mod.rs): a transition system
  whose steps are the calls the RPC, the batch builder and the block builder may make, the safety of
  those calls in every reachable state, what each operation does to the inflight transactions, and
  what happens to a caller that breaks the protocol.
\<close>

section \<open>Calls\<close>

datatype mempool_op =
    AddTransaction auth_tx
  | SelectBatch
  | RollbackBatch batch_id
  | CommitBatch proven_batch
  | SelectBlock
  | CommitBlock block_header
  | RollbackBlock
  | Subscribe block_number

abbreviation done_call :: "('s, 'e, 'a) outcome \<Rightarrow> ('s, unit, unit) outcome" where
  "done_call r \<equiv> map_outcome id (\<lambda>_. ()) (\<lambda>_. ()) r"

fun run_mempool_op ::
  "((transaction_id \<times> account_id) list \<Rightarrow> batch_id) \<Rightarrow> (sender \<Rightarrow> mempool_event \<Rightarrow> bool) \<Rightarrow> mempool \<Rightarrow> mempool_op \<Rightarrow>
     (mempool, unit, unit) outcome" where
  "run_mempool_op from_ids accepts m (AddTransaction tx) = done_call (add_transaction accepts m tx)"
| "run_mempool_op from_ids accepts m SelectBatch = done_call (mp_select_batch from_ids m :: (mempool, unit, _) outcome)"
| "run_mempool_op from_ids accepts m (RollbackBatch b) = rollback_batch m b"
| "run_mempool_op from_ids accepts m (CommitBatch batch) = commit_batch m batch"
| "run_mempool_op from_ids accepts m SelectBlock = done_call (mp_select_block m :: (mempool, unit, _) outcome)"
| "run_mempool_op from_ids accepts m (CommitBlock header) = commit_block accepts m header"
| "run_mempool_op from_ids accepts m RollbackBlock = rollback_block accepts m"
| "run_mempool_op from_ids accepts m (Subscribe tip) = done_call (mp_subscribe accepts m tip)"

text \<open>
  The protocol of the callers. A batch is proven once while it is in the mempool and rolled back only
  before it is selected for a block; a block is selected when none is in progress, and committed, as
  the chain's next block, or rolled back when one is. A transaction with the identifier of an inflight
  one is that transaction.
\<close>

fun allowed :: "mempool \<Rightarrow> mempool_op \<Rightarrow> bool" where
  "allowed m (AddTransaction tx) = may_add m tx"
| "allowed m SelectBatch = True"
| "allowed m (RollbackBatch b) = (b \<notin> selected m)"
| "allowed m (CommitBatch batch) =
     (bg_contains (mp_batches m) (pb_id batch) \<longrightarrow> pb_id batch \<in> pending (bg_inner (mp_batches m)))"
| "allowed m SelectBlock = (mp_block_in_progress m = None)"
| "allowed m (CommitBlock header) = (mp_block_in_progress m \<noteq> None \<and> bh_block_num header = Suc (mp_chain_tip m))"
| "allowed m RollbackBlock = (mp_block_in_progress m \<noteq> None)"
| "allowed m (Subscribe tip) = True"

text \<open>A step is an allowed call that returns, with a value or an error.\<close>

inductive mempool_step ::
  "((transaction_id \<times> account_id) list \<Rightarrow> batch_id) \<Rightarrow> mempool \<Rightarrow> mempool_op \<Rightarrow> mempool \<Rightarrow> bool"
  for from_ids where
  call_ok: "allowed m op \<Longrightarrow> run_mempool_op from_ids accepts m op = Ok m' () \<Longrightarrow> mempool_step from_ids m op m'"
| call_err: "allowed m op \<Longrightarrow> run_mempool_op from_ids accepts m op = Err m' () \<Longrightarrow> mempool_step from_ids m op m'"

inductive_cases mempool_stepE: "mempool_step from_ids m op m'"

inductive mempool_reachable :: "((transaction_id \<times> account_id) list \<Rightarrow> batch_id) \<Rightarrow> mempool \<Rightarrow> bool"
  for from_ids where
  start: "retention < 2 ^ 32 \<Longrightarrow> mempool_reachable from_ids (mempool_new tip bb kb retention slack)"
| step: "mempool_reachable from_ids m \<Longrightarrow> mempool_step from_ids m op m' \<Longrightarrow> mempool_reachable from_ids m'"

section \<open>Every allowed call is safe\<close>

lemma subscribe_core:
  assumes inv: "mempool_inv from_ids m"
  shows "(\<exists>m' s. mp_subscribe accepts m tip = Ok m' s \<and> mempool_inv from_ids m') \<or>
    (\<exists>n. mp_subscribe accepts m tip = Err m n)"
proof -
  have core: "mempool_core from_ids m (selected m)" using inv by (simp add: mempool_inv_def)
  note T = mempool_coreD(4)[OF core]
  note TD = trackingD[OF T]
  show ?thesis
  proof (cases "sp_chain_tip (mp_subscription m) = tip")
    case True
    with subscribe_cases[OF TD(6), of tip accepts] obtain p' sub where
      p': "subscribe accepts (mp_subscription m) tip = Ok p' sub" "provider_ok p'"
        "sp_inflight_txs p' = sp_inflight_txs (mp_subscription m)" "sp_chain_tip p' = sp_chain_tip (mp_subscription m)" by auto
    have "tracking (mp_transactions m) (mp_state m) (mp_expirations m) p' (mp_chain_tip m)"
      using T p'(2,3,4) by (simp add: tracking_def tracked_txs_def)
    then have "mempool_inv from_ids (m\<lparr>mp_subscription := p'\<rparr>)"
      using inv by (simp add: mempool_inv_def mempool_core_def selected_def unexpired_def)
    with p'(1) show ?thesis by (auto simp: mp_subscribe_def)
  qed (simp add: mp_subscribe_def subscribe_def)
qed

lemma mempool_inv_same:
  assumes "unexpired m" and "mempool_core from_ids m' (selected m)"
    and "mp_chain_tip m' = mp_chain_tip m" and "mp_block_in_progress m' = mp_block_in_progress m"
    and "vertices (mp_transactions m') = vertices (mp_transactions m)"
  shows "mempool_inv from_ids m'"
  using assms by (simp add: mempool_inv_def selected_def unexpired_def)

lemma run_mempool_op_safe:
  assumes inj: "inj from_ids" and inv: "mempool_inv from_ids m" and al: "allowed m op"
  shows "\<exists>m'. (run_mempool_op from_ids accepts m op = Ok m' () \<or> run_mempool_op from_ids accepts m op = Err m' ())
    \<and> mempool_inv from_ids m'"
proof -
  have core: "mempool_core from_ids m (selected m)" and un: "unexpired m" using inv by (simp_all add: mempool_inv_def)
  have bok: "bg_ok (mp_batches m)" by (rule linkedD(2)[OF mempool_coreD(1)[OF core]])
  show ?thesis
  proof (cases op)
    case (AddTransaction tx)
    have may: "may_add m tx" using al AddTransaction by simp
    note add = add_transaction_core[OF core may, of accepts]
    show ?thesis
    proof (cases "add_transaction accepts m tx")
      case (Ok m' tip)
      with add have a: "admissible (mp_state m) tx" "mempool_core from_ids m' (selected m)"
        "vertices (mp_transactions m') = (vertices (mp_transactions m))(tx_id tx \<mapsto> tx)"
        "mp_chain_tip m' = mp_chain_tip m" "mp_block_in_progress m' = mp_block_in_progress m" by simp_all
      have "is_chain_tip (mp_state m) = mp_chain_tip m" by (rule trackingD(8)[OF mempool_coreD(4)[OF core]])
      then have "mp_chain_tip m < tx_expires_at tx" using a(1) by (simp add: admissible_def)
      then have "mempool_inv from_ids m'" using a un by (auto simp: mempool_inv_def selected_def unexpired_def)
      then show ?thesis using Ok AddTransaction by simp
    qed (use add inv AddTransaction in simp_all)
  next
    case SelectBatch
    from select_batch_core[OF core inj, where ?'e = unit] obtain m' r where
      "mp_select_batch from_ids m = (Ok m' r :: (mempool, unit, (batch_id \<times> auth_tx list) option) outcome)"
      "mempool_core from_ids m' (selected m)" "vertices (mp_transactions m') = vertices (mp_transactions m)"
      "mp_chain_tip m' = mp_chain_tip m" "mp_block_in_progress m' = mp_block_in_progress m" by blast
    then show ?thesis using SelectBatch mempool_inv_same[OF un, of from_ids m'] by auto
  next
    case (RollbackBatch b)
    have "b \<notin> selected m" using al RollbackBatch by simp
    from rollback_batch_core[OF core this, where ?'e = unit] obtain m' where
      "rollback_batch m b = (Ok m' () :: (mempool, unit, unit) outcome)"
      "mempool_core from_ids m' (selected m)" "vertices (mp_transactions m') = vertices (mp_transactions m)"
      "mp_chain_tip m' = mp_chain_tip m" "mp_block_in_progress m' = mp_block_in_progress m" by blast
    then show ?thesis using RollbackBatch mempool_inv_same[OF un, of from_ids m'] by auto
  next
    case (CommitBatch batch)
    have "pb_id batch \<in> nodes (bg_inner (mp_batches m)) \<Longrightarrow> pb_id batch \<in> pending (bg_inner (mp_batches m))"
      using al CommitBatch bg_okD(2)[OF bok] by (simp add: bg_contains_def)
    from commit_batch_core[OF core this, where ?'e = unit] obtain m' where
      "commit_batch m batch = (Ok m' () :: (mempool, unit, unit) outcome)"
      "mempool_core from_ids m' (selected m)" "mp_transactions m' = mp_transactions m"
      "mp_chain_tip m' = mp_chain_tip m" "mp_block_in_progress m' = mp_block_in_progress m" by blast
    then show ?thesis using CommitBatch mempool_inv_same[OF un, of from_ids m'] by auto
  next
    case SelectBlock
    have free: "mp_block_in_progress m = None" using al SelectBlock by simp
    then have "mempool_core from_ids m {}" using core by (simp add: selected_def)
    from select_block_core[OF this free, where ?'e = unit] obtain m' batches where
      "mp_select_block m = (Ok m' (Suc (mp_chain_tip m), batches) :: (mempool, unit, block_number \<times> proven_batch list) outcome)"
      "mempool_core from_ids m' (set (map pb_id batches))" "mp_block_in_progress m' = Some (set (map pb_id batches))"
      "mp_transactions m' = mp_transactions m" "mp_chain_tip m' = mp_chain_tip m" by blast
    then show ?thesis using SelectBlock un by (auto simp: mempool_inv_def selected_def unexpired_def)
  next
    case (CommitBlock header)
    obtain S where S: "mp_block_in_progress m = Some S" and num: "bh_block_num header = Suc (mp_chain_tip m)"
      using al CommitBlock by auto
    from commit_block_core[OF inv S num, where accepts = accepts and ?'e = unit] CommitBlock show ?thesis by auto
  next
    case RollbackBlock
    obtain S where S: "mp_block_in_progress m = Some S" using al RollbackBlock by auto
    from rollback_block_core[OF inv S, where accepts = accepts and ?'e = unit] RollbackBlock show ?thesis by auto
  next
    case (Subscribe tip)
    then show ?thesis using subscribe_core[OF inv, of accepts tip] inv by auto
  qed
qed

lemma mempool_reachable_inv:
  assumes inj: "inj from_ids"
  shows "mempool_reachable from_ids m \<Longrightarrow> mempool_inv from_ids m"
proof (induction rule: mempool_reachable.induct)
  case (start retention tip bb kb slack)
  then show ?case by (rule mempool_new_inv)
next
  case (step m op m')
  from step.hyps(2) obtain accepts where "allowed m op"
    "run_mempool_op from_ids accepts m op = Ok m' () \<or> run_mempool_op from_ids accepts m op = Err m' ()"
    by (auto elim: mempool_stepE)
  with run_mempool_op_safe[OF inj step.IH, of op accepts] show ?case by auto
qed

section \<open>A sample run\<close>

text \<open>
  One transaction from submission to its block, with an injective identifier of batches. The states
  are written out, and each call is evaluated on the one before it.
\<close>

definition sample_hash :: "(transaction_id \<times> account_id) list \<Rightarrow> batch_id" where
  "sample_hash txs = list_encode (map prod_encode txs)"

lemma inj_sample_hash: "inj sample_hash"
proof -
  have "inj (list_encode \<circ> map prod_encode)"
    using inj_list_encode inj_prod_encode by (intro inj_compose) (auto simp: inj_mapI)
  then show ?thesis by (simp add: sample_hash_def[abs_def] comp_def)
qed

abbreviation accept_all :: "sender \<Rightarrow> mempool_event \<Rightarrow> bool" where
  "accept_all \<equiv> \<lambda>s ev. True"

definition sample_id :: batch_id where
  "sample_id = sample_hash [(1, 7)]"

definition sample_proof :: proven_batch where
  "sample_proof = \<lparr>pb_id = sample_id, pb_security_level = 96\<rparr>"

definition sample_pool0 :: mempool where
  "sample_pool0 = mempool_new 5 \<lparr>budget_transactions = 8, budget_input_notes = 10, budget_output_notes = 10, budget_accounts = 8\<rparr>
     block_budget_default 2 1"

definition sample_pool1 :: mempool where
  "sample_pool1 = sample_pool0\<lparr>mp_state := sample_inflight,
     mp_transactions := \<lparr>pending = {}, vertices = [1 \<mapsto> sample_first], parents = [1 \<mapsto> {}], children = [1 \<mapsto> {}],
       roots = {1}, processed = {}\<rparr>,
     mp_expirations := \<lparr>by_tx = [1 \<mapsto> 100], by_block = [100 \<mapsto> {1}]\<rparr>,
     mp_subscription := \<lparr>sp_subscription = None, sp_chain_tip = 5,
       sp_inflight_txs = \<lparr>ie_txs = [(0, added_event sample_first)], ie_index = [1 \<mapsto> 0]\<rparr>\<rparr>\<rparr>"

definition sample_pool2 :: mempool where
  "sample_pool2 = sample_pool1\<lparr>
     mp_transactions := (mp_transactions sample_pool1)\<lparr>roots := {}, processed := {1}\<rparr>,
     mp_batches := \<lparr>bg_inner = \<lparr>pending = {sample_id}, vertices = Map.empty, parents = [sample_id \<mapsto> {}],
         children = [sample_id \<mapsto> {}], roots = {}, processed = {}\<rparr>,
       bg_transactions = [1 \<mapsto> sample_id], bg_batches = [sample_id \<mapsto> [1]]\<rparr>\<rparr>"

definition sample_pool3 :: mempool where
  "sample_pool3 = sample_pool2\<lparr>mp_batches := (mp_batches sample_pool2)\<lparr>bg_inner := (bg_inner (mp_batches sample_pool2))
     \<lparr>pending := {}, vertices := [sample_id \<mapsto> sample_proof], roots := {sample_id}\<rparr>\<rparr>\<rparr>"

definition sample_pool4 :: mempool where
  "sample_pool4 = sample_pool3\<lparr>mp_block_in_progress := Some {sample_id},
     mp_batches := (mp_batches sample_pool3)\<lparr>bg_inner := (bg_inner (mp_batches sample_pool3))
     \<lparr>processed := {sample_id}, roots := {}\<rparr>\<rparr>\<rparr>"

lemma sample_first_key: "tx_id sample_first = 1" "tx_account_id sample_first = 7" "tx_expires_at sample_first = 100"
  by (simp_all add: sample_first_def)

lemma sample_step1: "run_mempool_op sample_hash accept_all sample_pool0 (AddTransaction sample_first) = Ok sample_pool1 ()"
proof -
  have 1: "inflight_add_transaction (mp_state sample_pool0) sample_first = Ok sample_inflight {}"
    by (simp add: sample_pool0_def mempool_new_def sample_first_added[simplified])
  have 2: "transaction_added accept_all (provider_new 5) sample_first =
      (Ok \<lparr>sp_subscription = None, sp_chain_tip = 5, sp_inflight_txs = \<lparr>ie_txs = [(0, added_event sample_first)], ie_index = [1 \<mapsto> 0]\<rparr>\<rparr> ()
       :: (subscription_provider, add_transaction_error, unit) outcome)"
    by (simp add: transaction_added_def provider_new_def events_insert_def added_event_def next_index_def
        events_default_def send_event_def Let_def) (simp add: sample_first_def)
  have 3: "tg_insert graph_default sample_first {} = Ok (mp_transactions sample_pool1) ()"
    by (simp add: tg_insert_def insert_pending_def promote_pending_def try_make_root_def graph_default_def
      sample_pool1_def sample_first_def Let_def set_or_default_def fun_eq_iff nodes_def)
  show ?thesis
    using 1 2 3 by (simp add: add_transaction_def Let_def sample_pool0_def mempool_new_def sample_pool1_def
        expirations_insert_def expirations_default_def sample_first_key)
qed

lemma sample_step2: "run_mempool_op sample_hash accept_all sample_pool1 SelectBatch = Ok sample_pool2 ()"
proof -
  let ?g = "mp_transactions sample_pool1"
  have 1: "tg_select_batch ?g (mp_batch_budget sample_pool1)
      = (Ok (?g\<lparr>roots := {}, processed := {1}\<rparr>) ([sample_first], {}) :: (transaction_graph, unit, auth_tx list \<times> transaction_id set) outcome)"
    by (simp add: tg_select_batch_def sample_pool1_def sample_pool0_def mempool_new_def graph_get_def graph_parents_def
        process_root_def set_or_default_def batch_check_then_subtract_def Let_def sample_first_def)
  have 2: "bg_insert sample_hash bg_default [(1, 7)] {} = Ok (mp_batches sample_pool2) sample_id"
    by (simp add: bg_insert_def bg_default_def graph_default_def insert_pending_def nodes_def Let_def sample_id_def
        assign_batch_def sample_pool2_def)
  have 3: "mp_batches sample_pool1 = bg_default" "tx_id sample_first = 1" "tx_account_id sample_first = 7"
    by (simp_all add: sample_pool1_def sample_pool0_def mempool_new_def sample_first_def)
  show ?thesis using 1 2 3 by (simp add: mp_select_batch_def Let_def sample_pool2_def)
qed

lemma sample_step3: "run_mempool_op sample_hash accept_all sample_pool2 (CommitBatch sample_proof) = Ok sample_pool3 ()"
  by (simp add: commit_batch_def bg_contains_def submit_proof_def promote_pending_def try_make_root_def
      sample_pool3_def sample_pool2_def sample_proof_def set_or_default_def)

lemma sample_step4: "run_mempool_op sample_hash accept_all sample_pool3 SelectBlock = Ok sample_pool4 ()"
  by (simp add: mp_select_block_def bg_select_block_def sample_pool4_def sample_pool3_def sample_pool2_def sample_pool1_def
      sample_pool0_def mempool_new_def graph_get_def process_root_def set_or_default_def block_budget_default_def
      server_max_batches_per_block_def block_check_then_subtract_def Let_def sample_proof_def)

lemma sample_allowed:
  "allowed sample_pool0 (AddTransaction sample_first)" "allowed sample_pool2 (CommitBatch sample_proof)"
  "allowed sample_pool3 SelectBlock"
  by (simp_all add: may_add_def sample_pool3_def sample_pool2_def sample_pool1_def sample_pool0_def mempool_new_def
      graph_default_def provider_new_def next_index_def events_default_def sample_proof_def)

lemma sample_reachable:
  "mempool_reachable sample_hash sample_pool0" "mempool_reachable sample_hash sample_pool1"
  "mempool_reachable sample_hash sample_pool2" "mempool_reachable sample_hash sample_pool3"
  "mempool_reachable sample_hash sample_pool4"
proof -
  show r0: "mempool_reachable sample_hash sample_pool0" unfolding sample_pool0_def by (rule start) simp
  show r1: "mempool_reachable sample_hash sample_pool1"
    by (rule mempool_reachable.step[OF r0 call_ok[OF sample_allowed(1) sample_step1]])
  show r2: "mempool_reachable sample_hash sample_pool2"
    by (rule mempool_reachable.step[OF r1 call_ok[OF _ sample_step2]]) simp
  show r3: "mempool_reachable sample_hash sample_pool3"
    by (rule mempool_reachable.step[OF r2 call_ok[OF sample_allowed(2) sample_step3]])
  show "mempool_reachable sample_hash sample_pool4"
    by (rule mempool_reachable.step[OF r3 call_ok[OF sample_allowed(3) sample_step4]])
qed

section \<open>Properties\<close>

text \<open>
  C3. No call that follows the protocol panics or runs forever in any reachable state of the mempool,
  whatever the event channel accepts: none of the \<open>expect\<close>s, assertions and checked subtractions of
  the mempool and its components fails, and the call leads to a reachable state again. Batch
  identifiers are assumed not to collide.
\<close>

theorem mempool_calls_safe:
  assumes "inj from_ids" and "mempool_reachable from_ids m" and "allowed m op"
  shows "\<exists>m'. (run_mempool_op from_ids accepts m op = Ok m' () \<or> run_mempool_op from_ids accepts m op = Err m' ())
    \<and> mempool_step from_ids m op m' \<and> mempool_reachable from_ids m'"
proof -
  from run_mempool_op_safe[OF assms(1) mempool_reachable_inv[OF assms(1,2)] assms(3), of accepts] obtain m' where
    m': "run_mempool_op from_ids accepts m op = Ok m' () \<or> run_mempool_op from_ids accepts m op = Err m' ()" by blast
  then have "mempool_step from_ids m op m'" using assms(3) call_ok call_err by metis
  with m' mempool_reachable.step[OF assms(2)] show ?thesis by blast
qed

theorem mempool_calls_safe_witness:
  "\<exists>m'. (run_mempool_op sample_hash accept_all sample_pool4 (CommitBlock \<lparr>bh_block_num = 6\<rparr>) = Ok m' ()
      \<or> run_mempool_op sample_hash accept_all sample_pool4 (CommitBlock \<lparr>bh_block_num = 6\<rparr>) = Err m' ())
    \<and> mempool_step sample_hash sample_pool4 (CommitBlock \<lparr>bh_block_num = 6\<rparr>) m' \<and> mempool_reachable sample_hash m'"
proof (rule mempool_calls_safe[OF inj_sample_hash sample_reachable(5)])
  show "allowed sample_pool4 (CommitBlock \<lparr>bh_block_num = 6\<rparr>)"
    by (simp add: sample_pool4_def sample_pool3_def sample_pool2_def sample_pool1_def sample_pool0_def mempool_new_def)
qed

text \<open>
  C4. The components of a reachable mempool agree. The inflight state, the expirations and the event
  tracker know exactly the transactions of the graph; the transactions in batches are exactly the
  selected ones; no two inflight transactions spend the same nullifier or create the same note; the
  dependencies of an inflight transaction are inflight, and those of a batched one are in its batch or
  in a parent of it; and no inflight transaction has expired.
\<close>

theorem mempool_consistent:
  assumes "inj from_ids" and "mempool_reachable from_ids m"
  shows "dom (is_deltas (mp_state m)) = inflight_ids m \<and> dom (by_tx (mp_expirations m)) = inflight_ids m
    \<and> tracked_txs (mp_subscription m) = inflight_ids m
    \<and> dom (bg_transactions (mp_batches m)) = processed (mp_transactions m)
    \<and> (\<forall>t u tx ux. vertices (mp_transactions m) t = Some tx \<and> vertices (mp_transactions m) u = Some ux \<and> t \<noteq> u \<longrightarrow>
         set (tx_nullifiers tx) \<inter> set (tx_nullifiers ux) = {} \<and> set (tx_output_note_ids tx) \<inter> set (tx_output_note_ids ux) = {})
    \<and> (\<forall>t. pars (mp_transactions m) t \<subseteq> inflight_ids m)
    \<and> (\<forall>t b p. bg_transactions (mp_batches m) t = Some b \<and> p \<in> pars (mp_transactions m) t \<longrightarrow>
         (\<exists>c. bg_transactions (mp_batches m) p = Some c \<and> (c = b \<or> c \<in> pars (bg_inner (mp_batches m)) b)))
    \<and> (\<forall>t tx. vertices (mp_transactions m) t = Some tx \<longrightarrow> mp_chain_tip m < tx_expires_at tx)"
proof -
  have inv: "mempool_inv from_ids m" by (rule mempool_reachable_inv[OF assms])
  then have core: "mempool_core from_ids m (selected m)" and un: "unexpired m" by (simp_all add: mempool_inv_def)
  note C = mempool_coreD[OF core]
  note TD = trackingD[OF C(4)] and L = linkedD[OF C(1)]
  let ?g = "mp_transactions m"
  have ex: "exclusive d_nullifiers (is_deltas (mp_state m)) (committed_deltas (mp_state m))"
    "exclusive d_output_notes (is_deltas (mp_state m)) (committed_deltas (mp_state m))"
    using core_invD(3,4)[OF TD(11)] by blast+
  have disjoint: "set (tx_nullifiers tx) \<inter> set (tx_nullifiers ux) = {} \<and> set (tx_output_note_ids tx) \<inter> set (tx_output_note_ids ux) = {}"
    if "vertices ?g t = Some tx" "vertices ?g u = Some ux" "t \<noteq> u" for t u tx ux
  proof -
    have "is_deltas (mp_state m) t = Some (delta_new tx)" "is_deltas (mp_state m) u = Some (delta_new ux)"
      using that(1,2) TD(2) by simp_all
    from exclusiveD(1)[OF ex(1) this that(3)] exclusiveD(1)[OF ex(2) this that(3)] show ?thesis by (simp add: delta_new_def)
  qed
  have "dom (by_tx (mp_expirations m)) = inflight_ids m" by (auto simp: TD(5) inflight_ids_def)
  moreover have "\<forall>t. pars ?g t \<subseteq> inflight_ids m"
    using wf_shapeD(6)[OF wf_graphD(1)[OF tg_okD(1)[OF L(1)]]] tg_okD(4)[OF L(1)] by (simp add: inflight_ids_def)
  moreover have "\<forall>t tx. vertices ?g t = Some tx \<longrightarrow> mp_chain_tip m < tx_expires_at tx" using un by (simp add: unexpired_def)
  moreover have "\<forall>t b p. bg_transactions (mp_batches m) t = Some b \<and> p \<in> pars ?g t \<longrightarrow>
         (\<exists>c. bg_transactions (mp_batches m) p = Some c \<and> (c = b \<or> c \<in> pars (bg_inner (mp_batches m)) b))"
    by (intro allI impI, elim conjE, rule L(4))
  moreover have "dom (is_deltas (mp_state m)) = inflight_ids m" "tracked_txs (mp_subscription m) = inflight_ids m"
    "dom (bg_transactions (mp_batches m)) = processed ?g"
    using TD(7,10) L(3) by (simp_all add: inflight_ids_def)
  moreover have "\<forall>t u tx ux. vertices ?g t = Some tx \<and> vertices ?g u = Some ux \<and> t \<noteq> u \<longrightarrow>
         set (tx_nullifiers tx) \<inter> set (tx_nullifiers ux) = {} \<and> set (tx_output_note_ids tx) \<inter> set (tx_output_note_ids ux) = {}"
    by (intro allI impI, elim conjE, rule disjoint)
  ultimately show ?thesis by - (intro conjI; assumption)
qed

theorem mempool_consistent_witness:
  "dom (bg_transactions (mp_batches sample_pool4)) = processed (mp_transactions sample_pool4)
   \<and> inflight_ids sample_pool4 = {1} \<and> dom (is_deltas (mp_state sample_pool4)) = inflight_ids sample_pool4"
  using mempool_consistent[OF inj_sample_hash sample_reachable(5)]
  by (simp add: inflight_ids_def sample_pool4_def sample_pool3_def sample_pool2_def sample_pool1_def)

text \<open>What an accepted transaction adds to each part of the mempool.\<close>

lemma add_transaction_parts:
  assumes core: "mempool_core from_ids m sel" and may: "may_add m tx" and new: "tx_id tx \<notin> inflight_ids m"
    and run: "add_transaction accepts m tx = Ok m' tip"
  shows "pars (mp_transactions m') = (pars (mp_transactions m))(tx_id tx := tx_parents (mp_state m) tx)"
    and "processed (mp_transactions m') = processed (mp_transactions m)"
    and "is_deltas (mp_state m') = (is_deltas (mp_state m))(tx_id tx \<mapsto> delta_new tx)"
    and "uncommitted_at (mp_state m') = (uncommitted_at (mp_state m))(tx_account_id tx := uncommitted_at (mp_state m) (tx_account_id tx) @ [tx_id tx])"
    and "expirations_get (mp_expirations m') b = expirations_get (mp_expirations m) b \<union> (if b = tx_expires_at tx then {tx_id tx} else {})"
    and "events_iter (sp_inflight_txs (mp_subscription m')) = events_iter (sp_inflight_txs (mp_subscription m)) @ [added_event tx]"
    and "sp_subscription (mp_subscription m') = send_event accepts (sp_subscription (mp_subscription m)) (added_event tx)"
    and "mp_batches m' = mp_batches m \<and> mp_block_in_progress m' = mp_block_in_progress m \<and> mp_chain_tip m' = mp_chain_tip m"
proof -
  note C = mempool_coreD[OF core] and TD = trackingD[OF mempool_coreD(4)[OF core]]
  from run obtain st ps p g where add: "inflight_add_transaction (mp_state m) tx = Ok st ps"
    and sub: "transaction_added accepts (mp_subscription m) tx = (Ok p () :: (subscription_provider, add_transaction_error, unit) outcome)"
    and ins: "tg_insert (mp_transactions m) tx ps = Ok g ()"
    and m': "m' = m\<lparr>mp_state := st, mp_subscription := p, mp_expirations := expirations_insert (mp_expirations m) (tx_id tx) (tx_expires_at tx),
      mp_transactions := g\<rparr>"
    by (auto simp: add_transaction_def Let_def outcome_Ok_iffs)
  have "tx_id tx \<notin> dom (is_deltas (mp_state m))" using new TD(10) by (simp add: inflight_ids_def)
  from inflight_add_spec[OF TD(1) this, unfolded add outcome.case]
  have st: "ps = tx_parents (mp_state m) tx" "ps \<subseteq> dom (is_deltas (mp_state m))" "is_deltas st = (is_deltas (mp_state m))(tx_id tx \<mapsto> delta_new tx)"
    "uncommitted_at st = (uncommitted_at (mp_state m))(tx_account_id tx := uncommitted_at (mp_state m) (tx_account_id tx) @ [tx_id tx])"
    by blast+
  from tg_insert_Ok[OF linkedD(1)[OF C(1)], of tx ps] new st(2) TD(10) ins
  have g: "pars g = (pars (mp_transactions m))(tx_id tx := ps)" "processed g = processed (mp_transactions m)"
    by (auto simp: inflight_ids_def)
  have "tx_id tx \<notin> dom (ie_index (sp_inflight_txs (mp_subscription m)))" using new TD(7) by (simp add: tracked_txs_def inflight_ids_def)
  moreover have "events_ok (sp_inflight_txs (mp_subscription m))" using TD(6) by (simp add: provider_ok_def)
  moreover have "next_index (sp_inflight_txs (mp_subscription m)) < 2 ^ 64" using may by (simp add: may_add_def)
  ultimately obtain t where "events_insert (sp_inflight_txs (mp_subscription m)) (added_event tx) = (Ok t () :: (inflight_events, add_transaction_error, unit) outcome)"
    "events_iter t = events_iter (sp_inflight_txs (mp_subscription m)) @ [added_event tx]"
    using events_insert_Ok[where ?'e = add_transaction_error] unfolding added_event_def by blast
  with sub have p: "events_iter (sp_inflight_txs p) = events_iter (sp_inflight_txs (mp_subscription m)) @ [added_event tx]"
    "sp_subscription p = send_event accepts (sp_subscription (mp_subscription m)) (added_event tx)"
    by (auto simp: transaction_added_def Let_def)
  show "expirations_get (mp_expirations m') b = expirations_get (mp_expirations m) b \<union> (if b = tx_expires_at tx then {tx_id tx} else {})"
    by (auto simp: m' expirations_get_def expirations_insert_def set_or_default_def)
  show "pars (mp_transactions m') = (pars (mp_transactions m))(tx_id tx := tx_parents (mp_state m) tx)"
    "processed (mp_transactions m') = processed (mp_transactions m)"
    "is_deltas (mp_state m') = (is_deltas (mp_state m))(tx_id tx \<mapsto> delta_new tx)"
    "uncommitted_at (mp_state m') = (uncommitted_at (mp_state m))(tx_account_id tx := uncommitted_at (mp_state m) (tx_account_id tx) @ [tx_id tx])"
    "events_iter (sp_inflight_txs (mp_subscription m')) = events_iter (sp_inflight_txs (mp_subscription m)) @ [added_event tx]"
    "sp_subscription (mp_subscription m') = send_event accepts (sp_subscription (mp_subscription m)) (added_event tx)"
    "mp_batches m' = mp_batches m \<and> mp_block_in_progress m' = mp_block_in_progress m \<and> mp_chain_tip m' = mp_chain_tip m"
    using g st p by (simp_all add: m')
qed

text \<open>
  C6. Submitting a transaction to the mempool: it is accepted exactly when it is admissible, and then tracked
  everywhere: the graph has it, unselected and with exactly the parents that the inflight state names, the
  inflight state has its delta, last in its account, it expires at its block and nowhere else, its event
  is the last of the tracker's and goes to the subscriber; the caller learns the chain tip, and batches and the
  block in progress are not touched.  A rejected transaction leaves the mempool, the event stream included, as
  it was, and a transaction that is inflight already is rejected.
\<close>

theorem add_transaction_exact:
  assumes "inj from_ids" and "mempool_reachable from_ids m" and "may_add m tx"
  shows "case add_transaction accepts m tx of
      Ok m' tip \<Rightarrow> admissible (mp_state m) tx \<and> tip = mp_chain_tip m \<and> tx_id tx \<notin> inflight_ids m
        \<and> vertices (mp_transactions m') = (vertices (mp_transactions m))(tx_id tx \<mapsto> tx)
        \<and> pars (mp_transactions m') = (pars (mp_transactions m))(tx_id tx := tx_parents (mp_state m) tx)
        \<and> processed (mp_transactions m') = processed (mp_transactions m)
        \<and> is_deltas (mp_state m') = (is_deltas (mp_state m))(tx_id tx \<mapsto> delta_new tx)
        \<and> uncommitted_at (mp_state m') =
            (uncommitted_at (mp_state m))(tx_account_id tx := uncommitted_at (mp_state m) (tx_account_id tx) @ [tx_id tx])
        \<and> (\<forall>b. expirations_get (mp_expirations m') b =
             expirations_get (mp_expirations m) b \<union> (if b = tx_expires_at tx then {tx_id tx} else {}))
        \<and> events_iter (sp_inflight_txs (mp_subscription m')) = events_iter (sp_inflight_txs (mp_subscription m)) @ [added_event tx]
        \<and> sp_subscription (mp_subscription m') = send_event accepts (sp_subscription (mp_subscription m)) (added_event tx)
        \<and> mp_batches m' = mp_batches m \<and> mp_block_in_progress m' = mp_block_in_progress m \<and> mp_chain_tip m' = mp_chain_tip m
    | Err m' e \<Rightarrow> \<not> admissible (mp_state m) tx \<and> m' = m
    | _ \<Rightarrow> False"
proof -
  have core: "mempool_core from_ids m (selected m)" using mempool_reachable_inv[OF assms(1,2)] by (simp add: mempool_inv_def)
  note exact = add_transaction_core[OF core assms(3), of accepts]
  show ?thesis
  proof (cases "add_transaction accepts m tx")
    case (Ok m' tip)
    with exact have ok: "admissible (mp_state m) tx" "tip = mp_chain_tip m" "tx_id tx \<notin> inflight_ids m"
      "vertices (mp_transactions m') = (vertices (mp_transactions m))(tx_id tx \<mapsto> tx)" by simp_all
    note P = add_transaction_parts[OF core assms(3) ok(3) Ok]
    show ?thesis unfolding Ok outcome.case
      by (intro conjI allI ok P(1-7) P(8)[THEN conjunct1] P(8)[THEN conjunct2, THEN conjunct1] P(8)[THEN conjunct2, THEN conjunct2])
  qed (use exact in simp_all)
qed

theorem add_transaction_exact_witness:
  "(case add_transaction accept_all sample_pool1 sample_first of Err m' e \<Rightarrow> m' = sample_pool1 | _ \<Rightarrow> False)
   \<and> add_transaction accept_all sample_pool0 sample_first = Ok sample_pool1 5
   \<and> expirations_get (mp_expirations sample_pool1) (tx_expires_at sample_first) = {1}"
proof (intro conjI)
  have may: "may_add sample_pool1 sample_first"
    by (simp add: may_add_def sample_pool1_def sample_first_def next_index_def)
  have "tx_id sample_first \<in> inflight_ids sample_pool1" by (simp add: inflight_ids_def sample_pool1_def sample_first_def)
  then show "case add_transaction accept_all sample_pool1 sample_first of Err m' e \<Rightarrow> m' = sample_pool1 | _ \<Rightarrow> False"
    using add_transaction_exact[OF inj_sample_hash sample_reachable(2) may, of accept_all] by (auto split: outcome.splits)
  have may0: "may_add sample_pool0 sample_first" using sample_allowed(1) by simp
  obtain u where u: "add_transaction accept_all sample_pool0 sample_first = Ok sample_pool1 u"
    using sample_step1 by (cases "add_transaction accept_all sample_pool0 sample_first") auto
  note exact = add_transaction_exact[OF inj_sample_hash sample_reachable(1) may0, of accept_all, unfolded u outcome.case]
  from exact u show "add_transaction accept_all sample_pool0 sample_first = Ok sample_pool1 5"
    by (simp add: sample_pool0_def mempool_new_def)
  from exact show "expirations_get (mp_expirations sample_pool1) (tx_expires_at sample_first) = {1}"
    by (simp add: sample_pool0_def mempool_new_def expirations_get_def expirations_default_def set_or_default_def sample_first_def)
qed

text \<open>
  C7. Rolling back a batch that is not in the block in progress removes exactly it and the batches that
  depend on it, and puts exactly their transactions back into the queue; no transaction is lost, and
  a batch that is gone already changes nothing.
\<close>

theorem rollback_batch_requeues:
  assumes "inj from_ids" and "mempool_reachable from_ids m" and "b \<notin> selected m"
  shows "let D = (if bg_contains (mp_batches m) b then descendants (bg_inner (mp_batches m)) {b} else {}) in
    \<exists>m'. rollback_batch m b = (Ok m' () :: (mempool, 'e, unit) outcome)
      \<and> vertices (mp_transactions m') = vertices (mp_transactions m)
      \<and> processed (mp_transactions m') = processed (mp_transactions m) - txs_of (mp_batches m) D
      \<and> nodes (bg_inner (mp_batches m')) = nodes (bg_inner (mp_batches m)) - D"
proof -
  have core: "mempool_core from_ids m (selected m)" using mempool_reachable_inv[OF assms(1,2)] by (simp add: mempool_inv_def)
  have "bg_contains (mp_batches m) b \<longleftrightarrow> b \<in> nodes (bg_inner (mp_batches m))"
    using bg_okD(2)[OF linkedD(2)[OF mempool_coreD(1)[OF core]]] by (simp add: bg_contains_def)
  with rollback_batch_core[OF core assms(3), where ?'e = 'e] show ?thesis unfolding Let_def by auto
qed

theorem rollback_batch_requeues_witness:
  "\<exists>m'. rollback_batch sample_pool2 sample_id = (Ok m' () :: (mempool, unit, unit) outcome)
     \<and> processed (mp_transactions m') = {} \<and> vertices (mp_transactions m') 1 = Some sample_first"
proof -
  let ?g = "bg_inner (mp_batches sample_pool2)"
  have "sample_id \<notin> selected sample_pool2"
    by (simp add: selected_def sample_pool2_def sample_pool1_def sample_pool0_def mempool_new_def)
  note r = rollback_batch_requeues[OF inj_sample_hash sample_reachable(3) this, where ?'e = unit]
  have "bg_contains (mp_batches sample_pool2) sample_id" by (simp add: bg_contains_def sample_pool2_def)
  with r obtain m' where m': "rollback_batch sample_pool2 sample_id = (Ok m' () :: (mempool, unit, unit) outcome)"
    "vertices (mp_transactions m') = vertices (mp_transactions sample_pool2)"
    "processed (mp_transactions m') = processed (mp_transactions sample_pool2) - txs_of (mp_batches sample_pool2) (descendants ?g {sample_id})"
    unfolding Let_def by auto
  have "sample_id \<in> descendants ?g {sample_id}" using subset_descendants[of "{sample_id}" ?g] by blast
  then have "1 \<in> txs_of (mp_batches sample_pool2) (descendants ?g {sample_id})" by (auto simp: txs_of_def sample_pool2_def)
  moreover have "processed (mp_transactions sample_pool2) = {1}" "vertices (mp_transactions sample_pool2) 1 = Some sample_first"
    by (simp_all add: sample_pool2_def sample_pool1_def)
  ultimately show ?thesis using m' by auto
qed

text \<open>
  C8. Committing the block in progress advances the chain tip by one, ends the block, and takes out of
  the mempool exactly the transactions of its batches and, of the others, those that expire at the new
  tip together with everything that depends on them.
\<close>

theorem commit_block_exact:
  assumes "inj from_ids" and "mempool_reachable from_ids m" and S: "mp_block_in_progress m = Some S"
    and "bh_block_num header = Suc (mp_chain_tip m)"
  shows "let T = txs_of (mp_batches m) S;
      X = {t. \<exists>tx. vertices (mp_transactions m) t = Some tx \<and> t \<notin> T \<and> tx_expires_at tx = Suc (mp_chain_tip m)} in
    \<exists>m'. commit_block accepts m header = (Ok m' () :: (mempool, 'e, unit) outcome)
      \<and> mp_chain_tip m' = Suc (mp_chain_tip m) \<and> mp_block_in_progress m' = None
      \<and> vertices (mp_transactions m') =
          vertices (mp_transactions m) |` (- (T \<union> descendants (delete_nodes (mp_transactions m) T) X))"
  unfolding Let_def
  using commit_block_core[OF mempool_reachable_inv[OF assms(1,2)] assms(3,4), where accepts = accepts and ?'e = 'e] by blast

theorem commit_block_exact_witness:
  "\<exists>m'. commit_block accept_all sample_pool4 \<lparr>bh_block_num = 6\<rparr> = (Ok m' () :: (mempool, unit, unit) outcome)
     \<and> mp_chain_tip m' = 6 \<and> vertices (mp_transactions m') 1 = None"
proof -
  have S: "mp_block_in_progress sample_pool4 = Some {sample_id}" by (simp add: sample_pool4_def)
  have tip: "mp_chain_tip sample_pool4 = 5"
    by (simp add: sample_pool4_def sample_pool3_def sample_pool2_def sample_pool1_def sample_pool0_def mempool_new_def)
  then have num: "bh_block_num \<lparr>bh_block_num = 6\<rparr> = Suc (mp_chain_tip sample_pool4)" by simp
  have T: "1 \<in> txs_of (mp_batches sample_pool4) {sample_id}"
    by (simp add: txs_of_def sample_pool4_def sample_pool3_def sample_pool2_def)
  show ?thesis
    using commit_block_exact[OF inj_sample_hash sample_reachable(5) S num, where accepts = accept_all and ?'e = unit] T tip
    unfolding Let_def by auto
qed

text \<open>
  C9. Rolling back the block in progress ends it, keeps the chain tip, and takes out of the mempool
  exactly the transactions of its batches and everything that depends on them.
\<close>

theorem rollback_block_exact:
  assumes "inj from_ids" and "mempool_reachable from_ids m" and "mp_block_in_progress m = Some S"
  shows "\<exists>m'. rollback_block accepts m = (Ok m' () :: (mempool, 'e, unit) outcome)
      \<and> mp_chain_tip m' = mp_chain_tip m \<and> mp_block_in_progress m' = None
      \<and> vertices (mp_transactions m') =
          vertices (mp_transactions m) |` (- descendants (mp_transactions m) (txs_of (mp_batches m) S))"
  using rollback_block_core[OF mempool_reachable_inv[OF assms(1,2)] assms(3), where accepts = accepts and ?'e = 'e] by blast

theorem rollback_block_exact_witness:
  "\<exists>m'. rollback_block accept_all sample_pool4 = (Ok m' () :: (mempool, unit, unit) outcome)
     \<and> mp_block_in_progress m' = None \<and> vertices (mp_transactions m') 1 = None"
proof -
  have S: "mp_block_in_progress sample_pool4 = Some {sample_id}" by (simp add: sample_pool4_def)
  have "1 \<in> txs_of (mp_batches sample_pool4) {sample_id}"
    by (simp add: txs_of_def sample_pool4_def sample_pool3_def sample_pool2_def)
  then have "1 \<in> descendants (mp_transactions sample_pool4) (txs_of (mp_batches sample_pool4) {sample_id})"
    by (rule subsetD[OF subset_descendants])
  then show ?thesis
    using rollback_block_exact[OF inj_sample_hash sample_reachable(5) S, where accepts = accept_all and ?'e = unit] by auto
qed

lemma topological_nth:
  "topological g P ks \<Longrightarrow> i < length ks \<Longrightarrow> pars g (ks ! i) \<subseteq> P \<union> set (take i ks)"
  using topological_pars[of g P "take i ks" "ks ! i" "drop (Suc i) ks"] id_take_nth_drop[of i ks] by simp

text \<open>
  The batches of a block come in an order in which their transactions can be executed: whatever a
  transaction of the block depends on, and is not committed yet, is in its own batch or in an earlier
  batch of the block.
\<close>

theorem block_order:
  assumes "inj from_ids" and "mempool_reachable from_ids m"
    and sel: "mp_select_block m = (Ok m' (n, batches) :: (mempool, 'e, block_number \<times> proven_batch list) outcome)"
  shows "n = Suc (mp_chain_tip m) \<and> mp_block_in_progress m' = Some (pb_id ` set batches) \<and>
    (\<forall>i < length batches. \<forall>t p. bg_transactions (mp_batches m) t = Some (pb_id (batches ! i)) \<and> p \<in> pars (mp_transactions m) t \<longrightarrow>
       (\<exists>j \<le> i. bg_transactions (mp_batches m) p = Some (pb_id (batches ! j))))"
proof -
  have inv: "mempool_inv from_ids m" by (rule mempool_reachable_inv[OF assms(1,2)])
  have free: "mp_block_in_progress m = None" using sel by (auto simp: mp_select_block_def split: if_splits)
  then have core: "mempool_core from_ids m {}" using inv by (simp add: mempool_inv_def selected_def)
  from select_block_core[OF core free, where ?'e = 'e] sel
  have r: "n = Suc (mp_chain_tip m)" "mp_block_in_progress m' = Some (set (map pb_id batches))"
    "topological (bg_inner (mp_batches m)) {} (map pb_id batches)" by auto
  have "\<exists>j \<le> i. bg_transactions (mp_batches m) p = Some (pb_id (batches ! j))"
    if i: "i < length batches" and t: "bg_transactions (mp_batches m) t = Some (pb_id (batches ! i))"
      and p: "p \<in> pars (mp_transactions m) t" for i t p
  proof -
    from linkedD(4)[OF mempool_coreD(1)[OF core] t p] obtain c where
      c: "bg_transactions (mp_batches m) p = Some c"
        "c = pb_id (batches ! i) \<or> c \<in> pars (bg_inner (mp_batches m)) (pb_id (batches ! i))" by blast
    from c(2) show ?thesis
    proof
      assume "c = pb_id (batches ! i)"
      then show ?thesis using c(1) by blast
    next
      assume "c \<in> pars (bg_inner (mp_batches m)) (pb_id (batches ! i))"
      then have "c \<in> set (take i (map pb_id batches))" using topological_nth[OF r(3), of i] i by auto
      then obtain j where "j < i" "pb_id (batches ! j) = c" using i by (auto simp: in_set_conv_nth)
      then show ?thesis using c(1) by (intro exI[of _ j]) simp
    qed
  qed
  with r(1,2) show ?thesis by auto
qed

theorem block_order_witness:
  "mp_block_in_progress sample_pool4 = Some {sample_id}
   \<and> (\<exists>batches. mp_select_block sample_pool3 = (Ok sample_pool4 (6, batches) :: (mempool, unit, block_number \<times> proven_batch list) outcome))"
proof -
  obtain n batches where s: "mp_select_block sample_pool3 = (Ok sample_pool4 (n, batches) :: (mempool, unit, block_number \<times> proven_batch list) outcome)"
    using sample_step4 by (cases "mp_select_block sample_pool3 :: (mempool, unit, block_number \<times> proven_batch list) outcome") auto
  have "mp_chain_tip sample_pool3 = 5"
    by (simp add: sample_pool3_def sample_pool2_def sample_pool1_def sample_pool0_def mempool_new_def)
  then have "n = 6" using block_order[OF inj_sample_hash sample_reachable(4) s, THEN conjunct1] by simp
  moreover have "mp_block_in_progress sample_pool4 = Some {sample_id}" by (simp add: sample_pool4_def)
  ultimately show ?thesis using s by blast
qed

section \<open>Callers that break the protocol\<close>

text \<open>
  Reporting a proof for a batch panics exactly when the batch is in the mempool and its proof was
  reported before. The check that the batch is still known does not protect from this.
\<close>

theorem commit_batch_panics_iff:
  assumes "inj from_ids" and "mempool_reachable from_ids m"
  shows "(commit_batch m batch :: (mempool, 'e, unit) outcome) = Panic \<longleftrightarrow>
    bg_contains (mp_batches m) (pb_id batch) \<and> pb_id batch \<notin> pending (bg_inner (mp_batches m))"
proof -
  have core: "mempool_core from_ids m (selected m)" using mempool_reachable_inv[OF assms] by (simp add: mempool_inv_def)
  have n: "bg_contains (mp_batches m) (pb_id batch) \<longleftrightarrow> pb_id batch \<in> nodes (bg_inner (mp_batches m))"
    using bg_okD(2)[OF linkedD(2)[OF mempool_coreD(1)[OF core]]] by (simp add: bg_contains_def)
  show ?thesis
  proof (cases "bg_contains (mp_batches m) (pb_id batch) \<and> pb_id batch \<notin> pending (bg_inner (mp_batches m))")
    case True
    then show ?thesis by (simp add: commit_batch_def submit_proof_def promote_pending_def)
  next
    case False
    then have "pb_id batch \<in> nodes (bg_inner (mp_batches m)) \<Longrightarrow> pb_id batch \<in> pending (bg_inner (mp_batches m))"
      using n by blast
    from commit_batch_core[OF core this, where ?'e = 'e] obtain m' where
      "commit_batch m batch = (Ok m' () :: (mempool, 'e, unit) outcome)" by blast
    then have "commit_batch m batch \<noteq> (Panic :: (mempool, 'e, unit) outcome)" by simp
    with False show ?thesis by blast
  qed
qed

theorem commit_batch_panics_iff_witness:
  "commit_batch sample_pool3 sample_proof = (Panic :: (mempool, unit, unit) outcome)
   \<and> commit_batch sample_pool2 sample_proof \<noteq> (Panic :: (mempool, unit, unit) outcome)"
  using commit_batch_panics_iff[OF inj_sample_hash sample_reachable(4), of sample_proof, where ?'e = unit]
    commit_batch_panics_iff[OF inj_sample_hash sample_reachable(3), of sample_proof, where ?'e = unit]
  by (simp add: bg_contains_def sample_pool3_def sample_pool2_def sample_proof_def)

end
