(* ===== verification/Ntx_Account.thy ===== *)
theory Ntx_Account
  imports Network_Domain
begin

text \<open>
  The network transaction builder's view of one network account
  (crates/ntx-builder/src/state/account.rs): the committed account, the inflight updates in the
  order they were made, and the notes addressed to it, split into those still available and those
  consumed by an inflight transaction.

  The two note maps are B-tree maps keyed by nullifier, as association lists in key order:
  \<open>notes\<close> iterates over the first.  \<open>apply_delta\<close> is the protocol library's, a parameter; \<open>None\<close> is
  its error.
\<close>

section \<open>Removal from an ordered map\<close>

definition bt_remove :: "'k \<Rightarrow> ('k \<times> 'v) list \<Rightarrow> ('k \<times> 'v) list" where
  "bt_remove k xs = filter (\<lambda>(k', v). k' \<noteq> k) xs"

lemma map_of_bt_insert [simp]: "map_of (bt_insert k v xs) = (map_of xs)(k \<mapsto> v)"
  by (induction k v xs rule: bt_insert.induct) auto

lemma map_of_bt_remove [simp]: "map_of (bt_remove k xs) = (map_of xs)(k := None)"
  unfolding bt_remove_def by (induction xs) auto

lemma bt_remove_sorted:
  "sorted (map fst xs) \<Longrightarrow> sorted (map fst (bt_remove k xs))"
  "distinct (map fst xs) \<Longrightarrow> distinct (map fst (bt_remove k xs))"
  unfolding bt_remove_def by (induction xs) auto

lemma bt_remove_keys: "fst ` set (bt_remove k xs) = fst ` set xs - {k}"
  unfolding bt_remove_def by force

lemma bt_insert_nonempty [simp]: "bt_insert k v xs \<noteq> []"
  by (cases xs) (auto split: if_splits)

section \<open>The account\<close>

record ntx_account =
  na_committed :: "account option"
  na_inflight :: "account list"
  na_available_notes :: "(nullifier \<times> network_note) list"
  na_nullified_notes :: "(nullifier \<times> network_note) list"

definition from_committed_account :: "account \<Rightarrow> ntx_account" where
  "from_committed_account a =
     \<lparr>na_committed = Some a, na_inflight = [], na_available_notes = [], na_nullified_notes = []\<rparr>"

definition from_uncommitted_account :: "account \<Rightarrow> ntx_account" where
  "from_uncommitted_account a =
     \<lparr>na_committed = None, na_inflight = [a], na_available_notes = [], na_nullified_notes = []\<rparr>"

text \<open>The latest state of the account; \<open>None\<close> is the panic of \<open>expect\<close>.\<close>

definition latest_account :: "ntx_account \<Rightarrow> account option" where
  "latest_account a = (if na_inflight a = [] then na_committed a else Some (last (na_inflight a)))"

definition add_delta :: "(account \<Rightarrow> account_delta \<Rightarrow> account option) \<Rightarrow> ntx_account \<Rightarrow> account_delta \<Rightarrow>
    (ntx_account, 'e, unit) outcome" where
  "add_delta apply_delta a d =
     (case Option.bind (latest_account a) (\<lambda>state. apply_delta state d) of
        None \<Rightarrow> Panic
      | Some state \<Rightarrow> Ok (a\<lparr>na_inflight := na_inflight a @ [state]\<rparr>) ())"

definition commit_delta :: "ntx_account \<Rightarrow> (ntx_account, 'e, unit) outcome" where
  "commit_delta a =
     (case na_inflight a of
        [] \<Rightarrow> Panic
      | state # states \<Rightarrow> Ok (a\<lparr>na_committed := Some state, na_inflight := states\<rparr>) ())"

text \<open>The result says that the creation of the account was reverted.\<close>

definition revert_delta :: "ntx_account \<Rightarrow> (ntx_account, 'e, bool) outcome" where
  "revert_delta a =
     (if na_inflight a = [] then Panic
      else let states = butlast (na_inflight a)
        in Ok (a\<lparr>na_inflight := states\<rparr>) (na_committed a = None \<and> states = []))"

definition add_note :: "ntx_account \<Rightarrow> network_note \<Rightarrow> ntx_account" where
  "add_note a n = a\<lparr>na_available_notes := bt_insert (nn_nullifier n) n (na_available_notes a)\<rparr>"

definition revert_note :: "ntx_account \<Rightarrow> nullifier \<Rightarrow> ntx_account" where
  "revert_note a k =
     a\<lparr>na_available_notes := bt_remove k (na_available_notes a),
       na_nullified_notes := bt_remove k (na_nullified_notes a)\<rparr>"

definition add_nullifier :: "ntx_account \<Rightarrow> nullifier \<Rightarrow> (ntx_account, 'e, unit) outcome" where
  "add_nullifier a k =
     (case map_of (na_available_notes a) k of
        None \<Rightarrow> Panic
      | Some n \<Rightarrow> Ok (a\<lparr>na_available_notes := bt_remove k (na_available_notes a),
                       na_nullified_notes := bt_insert k n (na_nullified_notes a)\<rparr>) ())"

definition commit_nullifier :: "ntx_account \<Rightarrow> nullifier \<Rightarrow> (ntx_account, 'e, unit) outcome" where
  "commit_nullifier a k =
     (if contains_key (map_of (na_nullified_notes a)) k
      then Ok (a\<lparr>na_nullified_notes := bt_remove k (na_nullified_notes a)\<rparr>) ()
      else Panic)"

definition revert_nullifier :: "ntx_account \<Rightarrow> nullifier \<Rightarrow> ntx_account" where
  "revert_nullifier a k =
     (case map_of (na_nullified_notes a) k of
        None \<Rightarrow> a
      | Some n \<Rightarrow> a\<lparr>na_nullified_notes := bt_remove k (na_nullified_notes a),
                    na_available_notes := bt_insert k n (na_available_notes a)\<rparr>)"

definition na_notes :: "ntx_account \<Rightarrow> network_note list" where
  "na_notes a = map snd (na_available_notes a)"

definition na_is_empty :: "ntx_account \<Rightarrow> bool" where
  "na_is_empty a \<longleftrightarrow> na_inflight a = [] \<and> na_available_notes a = [] \<and> na_nullified_notes a = []"

end
