(* ===== verification/Ntx_State.thy ===== *)
theory Ntx_State
  imports Ntx_Account
begin

text \<open>
  The state of the network transaction builder (crates/ntx-builder/src/state/mod.rs): the tracked
  network accounts, the rotating queue from which the next account is selected, the accounts with a
  transaction in progress, and the effects of inflight transactions, updated by the events of the
  mempool.

  The store client is a parameter: \<open>get_account\<close> answers \<open>get_network_account\<close> and \<open>get_notes\<close>
  answers \<open>get_unconsumed_network_notes\<close>.  The store may answer differently from call to call, so
  each reads and updates a state of the client, kept in its field.
\<close>

section \<open>The state\<close>

record tx_impact =
  im_account_delta :: "network_account_prefix option"
  im_notes :: "nullifier set"
  im_nullifiers :: "nullifier set"

definition impact_default :: tx_impact where
  "impact_default = \<lparr>im_account_delta = None, im_notes = {}, im_nullifiers = {}\<rparr>"

definition impact_is_empty :: "tx_impact \<Rightarrow> bool" where
  "impact_is_empty i \<longleftrightarrow> im_account_delta i = None \<and> im_notes i = {} \<and> im_nullifiers i = {}"

record 'w ntx_state =
  ns_accounts :: "network_account_prefix \<rightharpoonup> ntx_account"
  ns_queue :: "network_account_prefix list"
  ns_in_progress :: "network_account_prefix set"
  ns_inflight_txs :: "transaction_id \<rightharpoonup> tx_impact"
  ns_nullifier_idx :: "nullifier \<rightharpoonup> network_account_prefix"
  ns_store :: 'w

record tx_candidate =
  tc_account :: account
  tc_notes :: "network_note list"

text \<open>What a call of the store returns besides the client: an error or the answer.\<close>

type_synonym store_error = nat
type_synonym 'w account_query = "'w \<Rightarrow> network_account_prefix \<Rightarrow> 'w \<times> (store_error + account option)"
type_synonym 'w notes_query = "'w \<Rightarrow> 'w \<times> (store_error + network_note list)"

datatype ntx_error =
    FailedToLoadAccount store_error
  | DeltaAccountNotFound

section \<open>Loading accounts\<close>

text \<open>\<open>fetch_account\<close> returns a reference to the tracked account.\<close>

definition fetch_account :: "'w account_query \<Rightarrow> 'w ntx_state \<Rightarrow> network_account_prefix \<Rightarrow>
    ('w ntx_state, store_error, ntx_account option) outcome" where
  "fetch_account get_account s p =
     (case ns_accounts s p of
        Some a \<Rightarrow> Ok s (Some a)
      | None \<Rightarrow>
          (case get_account (ns_store s) p of
             (w, Inl e) \<Rightarrow> Err (s\<lparr>ns_store := w\<rparr>) e
           | (w, Inr None) \<Rightarrow> Ok (s\<lparr>ns_store := w\<rparr>) None
           | (w, Inr (Some acc)) \<Rightarrow>
               let a = from_committed_account acc in
               Ok (s\<lparr>ns_store := w, ns_queue := ns_queue s @ [p], ns_accounts := (ns_accounts s)(p \<mapsto> a)\<rparr>)
                 (Some a)))"

definition put_ntx_account :: "'w ntx_state \<Rightarrow> network_account_prefix \<Rightarrow> ntx_account \<Rightarrow> 'w ntx_state" where
  "put_ntx_account s p a = s\<lparr>ns_accounts := (ns_accounts s)(p \<mapsto> a)\<rparr>"

definition ntx_default :: "'w \<Rightarrow> 'w ntx_state" where
  "ntx_default w =
     \<lparr>ns_accounts = Map.empty, ns_queue = [], ns_in_progress = {}, ns_inflight_txs = Map.empty,
      ns_nullifier_idx = Map.empty, ns_store = w\<rparr>"

fun load_notes :: "'w account_query \<Rightarrow> 'w ntx_state \<Rightarrow> network_note list \<Rightarrow>
    ('w ntx_state, store_error, unit) outcome" where
  "load_notes get_account s [] = Ok s ()"
| "load_notes get_account s (n # ns) =
     (case nn_account_prefix n of
        None \<Rightarrow> Panic
      | Some p \<Rightarrow>
          and_then (fetch_account get_account s p) (\<lambda>s found.
            load_notes get_account
              (case found of None \<Rightarrow> s | Some a \<Rightarrow> put_ntx_account s p (add_note a n)) ns))"

definition load_state :: "'w account_query \<Rightarrow> 'w notes_query \<Rightarrow> 'w \<Rightarrow>
    ('w ntx_state, store_error, unit) outcome" where
  "load_state get_account get_notes w =
     (case get_notes w of
        (w', Inl e) \<Rightarrow> Err (ntx_default w') e
      | (w', Inr ns) \<Rightarrow> load_notes get_account (ntx_default w') ns)"

section \<open>Selection\<close>

text \<open>The bounded loop over the rotating queue; the first argument counts the remaining rounds.\<close>

fun select_candidate_loop :: "nat \<Rightarrow> nat \<Rightarrow> 'w ntx_state \<Rightarrow> ('w ntx_state, 'e, tx_candidate option) outcome" where
  "select_candidate_loop 0 limit s = Ok s None"
| "select_candidate_loop (Suc k) limit s =
     (case ns_queue s of
        [] \<Rightarrow> Panic
      | candidate # rest \<Rightarrow>
          let s = s\<lparr>ns_queue := rest @ [candidate]\<rparr> in
          if candidate \<in> ns_in_progress s then select_candidate_loop k limit s
          else (case ns_accounts s candidate of
              None \<Rightarrow> Panic
            | Some a \<Rightarrow>
                if na_is_empty a
                then select_candidate_loop k limit
                  (s\<lparr>ns_accounts := (ns_accounts s)(candidate := None), ns_queue := butlast (ns_queue s)\<rparr>)
                else let notes = take limit (na_notes a) in
                  if notes = [] then select_candidate_loop k limit s
                  else (case latest_account a of
                      None \<Rightarrow> Panic
                    | Some acc \<Rightarrow>
                        Ok (s\<lparr>ns_in_progress := insert candidate (ns_in_progress s)\<rparr>)
                          (Some \<lparr>tc_account = acc, tc_notes = notes\<rparr>))))"

definition select_candidate :: "'w ntx_state \<Rightarrow> nat \<Rightarrow> ('w ntx_state, 'e, tx_candidate option) outcome" where
  "select_candidate s limit = select_candidate_loop (length (ns_queue s)) limit s"

definition candidate_failed :: "'w ntx_state \<Rightarrow> network_account_prefix \<Rightarrow> 'w ntx_state" where
  "candidate_failed s candidate = s\<lparr>ns_in_progress := ns_in_progress s - {candidate}\<rparr>"

section \<open>Events of the mempool\<close>

text \<open>The account update of an added transaction; the result is the prefix it belongs to.\<close>

definition add_account_update :: "'w account_query \<Rightarrow> (account \<Rightarrow> account_delta \<Rightarrow> account option) \<Rightarrow>
    'w ntx_state \<Rightarrow> account_update_details option \<Rightarrow>
    ('w ntx_state, ntx_error, network_account_prefix option) outcome" where
  "add_account_update get_account apply_delta s details =
     (case Option.bind details update_from_protocol of
        None \<Rightarrow> Ok s None
      | Some u \<Rightarrow>
          (case update_prefix u of
             None \<Rightarrow> Panic
           | Some p \<Rightarrow>
               and_then
                 (case u of
                    NewNetworkAccount acc \<Rightarrow>
                      Ok (s\<lparr>ns_accounts := (ns_accounts s)(p \<mapsto> from_uncommitted_account acc),
                            ns_queue := ns_queue s @ [p]\<rparr>) ()
                  | NetworkAccountDelta d \<Rightarrow>
                      and_then (map_err FailedToLoadAccount (fetch_account get_account s p)) (\<lambda>s found.
                        case found of
                          None \<Rightarrow> Err s DeltaAccountNotFound
                        | Some a \<Rightarrow> in_field (put_ntx_account s p) (add_delta apply_delta a d)))
                 (\<lambda>s _. Ok (s\<lparr>ns_in_progress := ns_in_progress s - {p}\<rparr>) (Some p))))"

fun add_network_notes :: "'w account_query \<Rightarrow> 'w ntx_state \<Rightarrow> tx_impact \<Rightarrow> network_note list \<Rightarrow>
    ('w ntx_state, ntx_error, tx_impact) outcome" where
  "add_network_notes get_account s i [] = Ok s i"
| "add_network_notes get_account s i (n # ns) =
     (case nn_account_prefix n of
        None \<Rightarrow> Panic
      | Some p \<Rightarrow>
          let i = i\<lparr>im_notes := insert (nn_nullifier n) (im_notes i)\<rparr>;
              s = s\<lparr>ns_nullifier_idx := (ns_nullifier_idx s)(nn_nullifier n \<mapsto> p)\<rparr>
          in and_then (map_err FailedToLoadAccount (fetch_account get_account s p)) (\<lambda>s found.
               add_network_notes get_account
                 (case found of None \<Rightarrow> s | Some a \<Rightarrow> put_ntx_account s p (add_note a n)) i ns))"

fun add_nullifiers :: "'w ntx_state \<Rightarrow> tx_impact \<Rightarrow> nullifier list \<Rightarrow> ('w ntx_state, 'e, tx_impact) outcome" where
  "add_nullifiers s i [] = Ok s i"
| "add_nullifiers s i (k # ks) =
     (case ns_nullifier_idx s k of
        None \<Rightarrow> add_nullifiers s i ks
      | Some p \<Rightarrow>
          let i = i\<lparr>im_nullifiers := insert k (im_nullifiers i)\<rparr> in
          (case ns_accounts s p of
             None \<Rightarrow> Panic
           | Some a \<Rightarrow>
               and_then (in_field (put_ntx_account s p) (add_nullifier a k)) (\<lambda>s _. add_nullifiers s i ks)))"

definition ntx_add_transaction :: "'w account_query \<Rightarrow> (account \<Rightarrow> account_delta \<Rightarrow> account option) \<Rightarrow>
    'w ntx_state \<Rightarrow> transaction_id \<Rightarrow> nullifier list \<Rightarrow> network_note list \<Rightarrow> account_update_details option \<Rightarrow>
    ('w ntx_state, ntx_error, unit) outcome" where
  "ntx_add_transaction get_account apply_delta s t nullifiers notes details =
     (if contains_key (ns_inflight_txs s) t then Ok s ()
      else
        and_then (add_account_update get_account apply_delta s details) (\<lambda>s prefix.
        and_then (add_network_notes get_account s (impact_default\<lparr>im_account_delta := prefix\<rparr>) notes) (\<lambda>s i.
        and_then (add_nullifiers s i nullifiers) (\<lambda>s i.
          if impact_is_empty i then Ok s ()
          else Ok (s\<lparr>ns_inflight_txs := (ns_inflight_txs s)(t \<mapsto> i)\<rparr>) ()))))"

fun commit_nullifiers :: "'w ntx_state \<Rightarrow> nullifier list \<Rightarrow> ('w ntx_state, 'e, unit) outcome" where
  "commit_nullifiers s [] = Ok s ()"
| "commit_nullifiers s (k # ks) =
     (case ns_nullifier_idx s k of
        None \<Rightarrow> Panic
      | Some p \<Rightarrow>
          let s = s\<lparr>ns_nullifier_idx := (ns_nullifier_idx s)(k := None)\<rparr> in
          and_then
            (case ns_accounts s p of
               None \<Rightarrow> Ok s ()
             | Some a \<Rightarrow> in_field (put_ntx_account s p) (commit_nullifier a k))
            (\<lambda>s _. commit_nullifiers s ks))"

definition commit_transaction :: "'w ntx_state \<Rightarrow> transaction_id \<Rightarrow> ('w ntx_state, 'e, unit) outcome" where
  "commit_transaction s t =
     (case ns_inflight_txs s t of
        None \<Rightarrow> Ok s ()
      | Some i \<Rightarrow>
          let s = s\<lparr>ns_inflight_txs := (ns_inflight_txs s)(t := None)\<rparr> in
          and_then
            (case im_account_delta i of
               None \<Rightarrow> Ok s ()
             | Some p \<Rightarrow>
                 (case ns_accounts s p of
                    None \<Rightarrow> Panic
                  | Some a \<Rightarrow> in_field (put_ntx_account s p) (commit_delta a)))
            (\<lambda>s _. commit_nullifiers s (sorted_list_of_set (im_nullifiers i))))"

fun revert_notes :: "'w ntx_state \<Rightarrow> nullifier list \<Rightarrow> ('w ntx_state, 'e, unit) outcome" where
  "revert_notes s [] = Ok s ()"
| "revert_notes s (k # ks) =
     (case ns_nullifier_idx s k of
        None \<Rightarrow> Panic
      | Some p \<Rightarrow>
          let s = s\<lparr>ns_nullifier_idx := (ns_nullifier_idx s)(k := None)\<rparr> in
          revert_notes
            (case ns_accounts s p of None \<Rightarrow> s | Some a \<Rightarrow> put_ntx_account s p (revert_note a k)) ks)"

fun revert_nullifiers :: "'w ntx_state \<Rightarrow> nullifier list \<Rightarrow> ('w ntx_state, 'e, unit) outcome" where
  "revert_nullifiers s [] = Ok s ()"
| "revert_nullifiers s (k # ks) =
     (case ns_nullifier_idx s k of
        None \<Rightarrow> Panic
      | Some p \<Rightarrow>
          revert_nullifiers
            (case ns_accounts s p of None \<Rightarrow> s | Some a \<Rightarrow> put_ntx_account s p (revert_nullifier a k)) ks)"

definition revert_transaction :: "'w ntx_state \<Rightarrow> transaction_id \<Rightarrow> ('w ntx_state, 'e, unit) outcome" where
  "revert_transaction s t =
     (case ns_inflight_txs s t of
        None \<Rightarrow> Ok s ()
      | Some i \<Rightarrow>
          let s = s\<lparr>ns_inflight_txs := (ns_inflight_txs s)(t := None)\<rparr> in
          and_then
            (case im_account_delta i of
               None \<Rightarrow> Ok s ()
             | Some p \<Rightarrow>
                 (case ns_accounts s p of
                    None \<Rightarrow> Panic
                  | Some a \<Rightarrow>
                      (case revert_delta a of
                         Ok a' created \<Rightarrow>
                           Ok (let s = put_ntx_account s p a' in
                               if created then s\<lparr>ns_accounts := (ns_accounts s)(p := None)\<rparr> else s) ()
                       | Err _ e \<Rightarrow> Err s e
                       | Panic \<Rightarrow> Panic
                       | Diverge \<Rightarrow> Diverge)))
            (\<lambda>s _.
          and_then (revert_notes s (sorted_list_of_set (im_notes i))) (\<lambda>s _.
            revert_nullifiers s (sorted_list_of_set (im_nullifiers i)))))"

fun commit_transactions_of :: "'w ntx_state \<Rightarrow> transaction_id list \<Rightarrow> ('w ntx_state, 'e, unit) outcome" where
  "commit_transactions_of s [] = Ok s ()"
| "commit_transactions_of s (t # ts) = and_then (commit_transaction s t) (\<lambda>s _. commit_transactions_of s ts)"

fun revert_transactions_of :: "'w ntx_state \<Rightarrow> transaction_id list \<Rightarrow> ('w ntx_state, 'e, unit) outcome" where
  "revert_transactions_of s [] = Ok s ()"
| "revert_transactions_of s (t # ts) = and_then (revert_transaction s t) (\<lambda>s _. revert_transactions_of s ts)"

fun mempool_update :: "'w account_query \<Rightarrow> (account \<Rightarrow> account_delta \<Rightarrow> account option) \<Rightarrow>
    'w ntx_state \<Rightarrow> mempool_event \<Rightarrow> ('w ntx_state, ntx_error, unit) outcome" where
  "mempool_update get_account apply_delta s (TransactionAdded t nullifiers notes details) =
     ntx_add_transaction get_account apply_delta s t nullifiers notes details"
| "mempool_update get_account apply_delta s (BlockCommitted header txs) = commit_transactions_of s txs"
| "mempool_update get_account apply_delta s (TransactionsReverted txs) =
     revert_transactions_of s (sorted_list_of_set txs)"

end
