(* ===== verification/Ntx_Invariant.thy ===== *)
theory Ntx_Invariant
  imports Ntx_State
begin

text \<open>
  The consistency of the network transaction builder's state, and that every handler keeps it as
  long as events arrive in dependency order.  The invariant is stated for an explicit map of
  inflight transactions, so that it also holds in the middle of a handler, where the transaction
  at hand is only partly applied or undone.
\<close>

section \<open>One account\<close>

definition available :: "ntx_account \<Rightarrow> nullifier set" where
  "available a = fst ` set (na_available_notes a)"

definition nullified :: "ntx_account \<Rightarrow> nullifier set" where
  "nullified a = fst ` set (na_nullified_notes a)"

definition ntx_account_ok :: "ntx_account \<Rightarrow> bool" where
  "ntx_account_ok a \<longleftrightarrow>
     (na_committed a \<noteq> None \<or> na_inflight a \<noteq> [])
     \<and> sorted (map fst (na_available_notes a)) \<and> distinct (map fst (na_available_notes a))
     \<and> sorted (map fst (na_nullified_notes a)) \<and> distinct (map fst (na_nullified_notes a))
     \<and> available a \<inter> nullified a = {}"

lemmas note_sets = available_def nullified_def bt_insert_keys bt_remove_keys

lemma account_ok_new [simp]:
  "ntx_account_ok (from_committed_account acc)" "ntx_account_ok (from_uncommitted_account acc)"
  by (simp_all add: ntx_account_ok_def from_committed_account_def from_uncommitted_account_def note_sets)

lemma account_ok_latest: "ntx_account_ok a \<Longrightarrow> \<exists>acc. latest_account a = Some acc"
  by (auto simp: ntx_account_ok_def latest_account_def)

lemma add_note_effect:
  assumes "ntx_account_ok a" and "nn_nullifier n \<notin> nullified a"
  shows "ntx_account_ok (add_note a n)" "na_inflight (add_note a n) = na_inflight a"
    "nullified (add_note a n) = nullified a" "available (add_note a n) = insert (nn_nullifier n) (available a)"
  using assms by (simp_all add: ntx_account_ok_def add_note_def note_sets bt_insert_sorted)

lemma revert_note_effect:
  assumes "ntx_account_ok a"
  shows "ntx_account_ok (revert_note a k)" "na_inflight (revert_note a k) = na_inflight a"
    "nullified (revert_note a k) = nullified a - {k}" "available (revert_note a k) = available a - {k}"
  using assms by (auto simp: ntx_account_ok_def revert_note_def note_sets bt_remove_sorted)

lemma add_nullifier_Ok:
  assumes ok: "ntx_account_ok a" and k: "k \<in> available a"
  obtains a' where "add_nullifier a k = Ok a' ()" "ntx_account_ok a'" "na_inflight a' = na_inflight a"
    "nullified a' = insert k (nullified a)" "available a' = available a - {k}"
proof -
  from k obtain n where n: "map_of (na_available_notes a) k = Some n"
    unfolding available_def by (metis (no_types, lifting) map_of_eq_None_iff option.exhaust)
  let ?a = "a\<lparr>na_available_notes := bt_remove k (na_available_notes a),
    na_nullified_notes := bt_insert k n (na_nullified_notes a)\<rparr>"
  have "add_nullifier a k = Ok ?a ()" using n by (simp add: add_nullifier_def)
  moreover have "ntx_account_ok ?a"
    using ok by (auto simp: ntx_account_ok_def note_sets bt_insert_sorted bt_remove_sorted)
  moreover have "nullified ?a = insert k (nullified a)" "available ?a = available a - {k}"
    by (simp_all add: note_sets)
  ultimately show ?thesis using that[of ?a] by simp
qed

lemma commit_nullifier_Ok:
  assumes ok: "ntx_account_ok a" and k: "k \<in> nullified a"
  obtains a' where "commit_nullifier a k = Ok a' ()" "ntx_account_ok a'" "na_inflight a' = na_inflight a"
    "nullified a' = nullified a - {k}" "available a' = available a"
proof -
  let ?a = "a\<lparr>na_nullified_notes := bt_remove k (na_nullified_notes a)\<rparr>"
  have "commit_nullifier a k = Ok ?a ()"
    using k by (simp add: commit_nullifier_def nullified_def dom_map_of_conv_image_fst)
  moreover have "ntx_account_ok ?a"
    using ok by (auto simp: ntx_account_ok_def note_sets bt_remove_sorted)
  moreover have "nullified ?a = nullified a - {k}" "available ?a = available a"
    by (simp_all add: note_sets)
  ultimately show ?thesis using that[of ?a] by simp
qed

lemma revert_nullifier_effect:
  assumes ok: "ntx_account_ok a" and k: "k \<in> nullified a"
  shows "ntx_account_ok (revert_nullifier a k)" "na_inflight (revert_nullifier a k) = na_inflight a"
    "nullified (revert_nullifier a k) = nullified a - {k}" "available (revert_nullifier a k) = insert k (available a)"
proof -
  from k obtain n where n: "map_of (na_nullified_notes a) k = Some n"
    unfolding nullified_def by (metis (no_types, lifting) map_of_eq_None_iff option.exhaust)
  then have e: "revert_nullifier a k = a\<lparr>na_nullified_notes := bt_remove k (na_nullified_notes a),
    na_available_notes := bt_insert k n (na_available_notes a)\<rparr>"
    by (simp add: revert_nullifier_def)
  show "ntx_account_ok (revert_nullifier a k)"
    using ok unfolding e by (auto simp: ntx_account_ok_def note_sets bt_insert_sorted bt_remove_sorted)
  show "na_inflight (revert_nullifier a k) = na_inflight a" by (simp add: e)
  show "nullified (revert_nullifier a k) = nullified a - {k}" "available (revert_nullifier a k) = insert k (available a)"
    by (simp_all add: e note_sets)
qed

section \<open>The whole state\<close>

type_synonym inflight_map = "transaction_id \<rightharpoonup> tx_impact"

definition updates_of :: "inflight_map \<Rightarrow> network_account_prefix \<Rightarrow> transaction_id set" where
  "updates_of T p = {t. \<exists>i. T t = Some i \<and> im_account_delta i = Some p}"

definition num_updates :: "'w ntx_state \<Rightarrow> network_account_prefix \<Rightarrow> nat" where
  "num_updates s p = (case ns_accounts s p of None \<Rightarrow> 0 | Some a \<Rightarrow> length (na_inflight a))"

definition impact_ok :: "'w ntx_state \<Rightarrow> tx_impact \<Rightarrow> bool" where
  "impact_ok s i \<longleftrightarrow> finite (im_notes i) \<and> finite (im_nullifiers i)
     \<and> (\<forall>k \<in> im_notes i. ns_nullifier_idx s k \<noteq> None)
     \<and> (\<forall>k \<in> im_nullifiers i. \<exists>p a. ns_nullifier_idx s k = Some p \<and> ns_accounts s p = Some a \<and> k \<in> nullified a)"

definition impacts_disjoint :: "inflight_map \<Rightarrow> bool" where
  "impacts_disjoint T \<longleftrightarrow> (\<forall>t t' i i'. T t = Some i \<and> T t' = Some i' \<and> t \<noteq> t' \<longrightarrow>
     im_nullifiers i \<inter> im_nullifiers i' = {} \<and> im_notes i \<inter> im_notes i' = {})"

definition nullified_ok :: "'w ntx_state \<Rightarrow> inflight_map \<Rightarrow> bool" where
  "nullified_ok s T \<longleftrightarrow> (\<forall>p a k. ns_accounts s p = Some a \<and> k \<in> nullified a \<longrightarrow>
     ns_nullifier_idx s k = Some p \<and> (\<exists>t i. T t = Some i \<and> k \<in> im_nullifiers i))"

definition ntx_core :: "'w ntx_state \<Rightarrow> inflight_map \<Rightarrow> bool" where
  "ntx_core s T \<longleftrightarrow>
     distinct (ns_queue s) \<and> set (ns_queue s) = dom (ns_accounts s)
     \<and> (\<forall>p a. ns_accounts s p = Some a \<longrightarrow> ntx_account_ok a)
     \<and> finite (dom T) \<and> (\<forall>p. num_updates s p = card (updates_of T p))
     \<and> (\<forall>t i. T t = Some i \<longrightarrow> impact_ok s i)
     \<and> impacts_disjoint T \<and> nullified_ok s T"

definition ntx_inv :: "'w ntx_state \<Rightarrow> bool" where
  "ntx_inv s \<longleftrightarrow> ntx_core s (ns_inflight_txs s)"

lemma nullified_okD:
  "nullified_ok s T \<Longrightarrow> ns_accounts s p = Some a \<Longrightarrow> k \<in> nullified a \<Longrightarrow>
     ns_nullifier_idx s k = Some p \<and> (\<exists>t i. T t = Some i \<and> k \<in> im_nullifiers i)"
  by (simp add: nullified_ok_def)

lemma nullified_okI:
  "(\<And>p a k. ns_accounts s p = Some a \<Longrightarrow> k \<in> nullified a \<Longrightarrow>
     ns_nullifier_idx s k = Some p \<and> (\<exists>t i. T t = Some i \<and> k \<in> im_nullifiers i)) \<Longrightarrow> nullified_ok s T"
  unfolding nullified_ok_def by blast

lemma ntx_coreI:
  assumes "distinct (ns_queue s)" "set (ns_queue s) = dom (ns_accounts s)"
    "\<And>p a. ns_accounts s p = Some a \<Longrightarrow> ntx_account_ok a" "finite (dom T)"
    "\<And>p. num_updates s p = card (updates_of T p)" "\<And>t i. T t = Some i \<Longrightarrow> impact_ok s i"
    "impacts_disjoint T" "nullified_ok s T"
  shows "ntx_core s T"
  using assms by (simp add: ntx_core_def)

lemma ntx_coreD:
  assumes "ntx_core s T"
  shows "distinct (ns_queue s)" "set (ns_queue s) = dom (ns_accounts s)"
    "ns_accounts s p = Some a \<Longrightarrow> ntx_account_ok a" "finite (dom T)"
    "num_updates s p = card (updates_of T p)" "T t = Some i \<Longrightarrow> impact_ok s i"
    "impacts_disjoint T" "nullified_ok s T"
  using assms by (auto simp: ntx_core_def)

lemma finite_updates: "finite (dom T) \<Longrightarrow> finite (updates_of T p)"
  by (rule finite_subset[of _ "dom T"]) (auto simp: updates_of_def)

text \<open>Fields the invariant does not read.\<close>

lemma ntx_core_frame [simp]:
  "ntx_core (s\<lparr>ns_in_progress := x\<rparr>) T = ntx_core s T"
  "ntx_core (s\<lparr>ns_store := w\<rparr>) T = ntx_core s T"
  "ntx_core (s\<lparr>ns_inflight_txs := y\<rparr>) T = ntx_core s T"
  by (simp_all add: ntx_core_def num_updates_def impact_ok_def nullified_ok_def)

text \<open>A tracked account is replaced by one with the same number of updates and the same nullified notes.\<close>

lemma num_updates_put:
  "num_updates (put_ntx_account s p a) q = (if q = p then length (na_inflight a) else num_updates s q)"
  by (simp add: num_updates_def put_ntx_account_def)

lemma core_replace_account:
  assumes core: "ntx_core s T" and old: "ns_accounts s p = Some a" and ok: "ntx_account_ok a'"
    and same: "length (na_inflight a') = length (na_inflight a)" "nullified a' = nullified a"
  shows "ntx_core (put_ntx_account s p a') T"
proof (rule ntx_coreI)
  let ?s = "put_ntx_account s p a'"
  show "distinct (ns_queue ?s)" using ntx_coreD(1)[OF core] by (simp add: put_ntx_account_def)
  show "set (ns_queue ?s) = dom (ns_accounts ?s)" using ntx_coreD(2)[OF core] old by (auto simp: put_ntx_account_def)
  show "ntx_account_ok b" if "ns_accounts ?s q = Some b" for q b
    using that ok ntx_coreD(3)[OF core] by (auto simp: put_ntx_account_def split: if_splits)
  show "finite (dom T)" using core by (rule ntx_coreD)
  show "num_updates ?s q = card (updates_of T q)" for q
    using ntx_coreD(5)[OF core, of q] ntx_coreD(5)[OF core, of p] old same(1)
    unfolding num_updates_put by (simp add: num_updates_def)
  show "impact_ok ?s i" if "T t = Some i" for t i
    using ntx_coreD(6)[OF core that] old same(2) unfolding impact_ok_def put_ntx_account_def by fastforce
  show "impacts_disjoint T" using core by (rule ntx_coreD)
  show "nullified_ok ?s T"
    by (rule nullified_okI) (use nullified_okD[OF ntx_coreD(8)[OF core]] old same(2)
      in \<open>simp add: put_ntx_account_def split: if_splits; blast\<close>)
qed

text \<open>A new account without notes is tracked and put at the end of the queue.\<close>

lemma core_track_account:
  assumes core: "ntx_core s T" and new: "ns_accounts s p = None" and ok: "ntx_account_ok a"
    and none: "nullified a = {}"
    and upd: "length (na_inflight a) = card (updates_of T' p)" "\<And>q. q \<noteq> p \<Longrightarrow> updates_of T' q = updates_of T q"
    and T': "finite (dom T')" "impacts_disjoint T'"
      "\<And>t i. T' t = Some i \<Longrightarrow> impact_ok s i"
      "\<And>t i k. T t = Some i \<Longrightarrow> k \<in> im_nullifiers i \<Longrightarrow> \<exists>t i. T' t = Some i \<and> k \<in> im_nullifiers i"
  shows "ntx_core (s\<lparr>ns_accounts := (ns_accounts s)(p \<mapsto> a), ns_queue := ns_queue s @ [p]\<rparr>) T'"
proof (rule ntx_coreI)
  let ?s = "s\<lparr>ns_accounts := (ns_accounts s)(p \<mapsto> a), ns_queue := ns_queue s @ [p]\<rparr>"
  show "distinct (ns_queue ?s)" using ntx_coreD(1,2)[OF core] new by auto
  show "set (ns_queue ?s) = dom (ns_accounts ?s)" using ntx_coreD(2)[OF core] by auto
  show "ntx_account_ok b" if "ns_accounts ?s q = Some b" for q b
    using that ok ntx_coreD(3)[OF core] by (auto split: if_splits)
  show "finite (dom T')" "impacts_disjoint T'" by fact+
  show "num_updates ?s q = card (updates_of T' q)" for q
    using ntx_coreD(5)[OF core, of q] upd by (cases "q = p") (simp_all add: num_updates_def)
  show "impact_ok ?s i" if "T' t = Some i" for t i
    using T'(3)[OF that] new unfolding impact_ok_def by fastforce
  show "nullified_ok ?s T'"
  proof (rule nullified_okI)
    fix q b k assume b: "ns_accounts ?s q = Some b" "k \<in> nullified b"
    then have "q \<noteq> p" using none by (auto split: if_splits)
    with b have "ns_accounts s q = Some b" "k \<in> nullified b" by auto
    then obtain t i where "ns_nullifier_idx s k = Some q" "T t = Some i" "k \<in> im_nullifiers i"
      using nullified_okD[OF ntx_coreD(8)[OF core]] by blast
    with T'(4) show "ns_nullifier_idx ?s k = Some q \<and> (\<exists>t i. T' t = Some i \<and> k \<in> im_nullifiers i)"
      by simp
  qed
qed

section \<open>Single steps\<close>

text \<open>The impact of one transaction is weakened: an update or notes are forgotten.\<close>

lemma impacts_disjoint_weaken:
  assumes "impacts_disjoint T" and "\<And>t' i'. T' t' = Some i' \<Longrightarrow>
    \<exists>i. T t' = Some i \<and> im_nullifiers i' \<subseteq> im_nullifiers i \<and> im_notes i' \<subseteq> im_notes i"
  shows "impacts_disjoint T'"
  unfolding impacts_disjoint_def
proof (intro allI impI)
  fix t t' i i' assume a: "T' t = Some i \<and> T' t' = Some i' \<and> t \<noteq> t'"
  from a assms(2)[of t i] obtain j where j: "T t = Some j" "im_nullifiers i \<subseteq> im_nullifiers j" "im_notes i \<subseteq> im_notes j" by blast
  from a assms(2)[of t' i'] obtain j' where j': "T t' = Some j'" "im_nullifiers i' \<subseteq> im_nullifiers j'" "im_notes i' \<subseteq> im_notes j'" by blast
  from assms(1) a j(1) j'(1) have "im_nullifiers j \<inter> im_nullifiers j' = {} \<and> im_notes j \<inter> im_notes j' = {}"
    unfolding impacts_disjoint_def by blast
  with j j' show "im_nullifiers i \<inter> im_nullifiers i' = {} \<and> im_notes i \<inter> im_notes i' = {}" by blast
qed

lemma impacts_disjoint_upd:
  assumes T: "impacts_disjoint T" and t: "T t = Some i"
    and new: "\<And>u j k. T u = Some j \<Longrightarrow> u \<noteq> t \<Longrightarrow> k \<in> im_nullifiers i' \<Longrightarrow> k \<notin> im_nullifiers i \<Longrightarrow> k \<notin> im_nullifiers j"
      "\<And>u j k. T u = Some j \<Longrightarrow> u \<noteq> t \<Longrightarrow> k \<in> im_notes i' \<Longrightarrow> k \<notin> im_notes i \<Longrightarrow> k \<notin> im_notes j"
  shows "impacts_disjoint (T(t \<mapsto> i'))"
proof -
  have A: "im_nullifiers i' \<inter> im_nullifiers j = {} \<and> im_notes i' \<inter> im_notes j = {}" if "T u = Some j" "u \<noteq> t" for u j
    using T t that new[OF that] unfolding impacts_disjoint_def by blast
  show ?thesis
    unfolding impacts_disjoint_def
  proof (intro allI impI)
    fix u u' j j' assume a: "(T(t \<mapsto> i')) u = Some j \<and> (T(t \<mapsto> i')) u' = Some j' \<and> u \<noteq> u'"
    then consider "u = t" "j = i'" "T u' = Some j'" "u' \<noteq> t" | "u' = t" "j' = i'" "T u = Some j" "u \<noteq> t"
      | "T u = Some j" "T u' = Some j'" by (cases "u = t"; cases "u' = t") simp_all
    then show "im_nullifiers j \<inter> im_nullifiers j' = {} \<and> im_notes j \<inter> im_notes j' = {}"
    proof cases
      case 1
      with A show ?thesis by simp
    next
      case 2
      with A[of u j] show ?thesis by blast
    next
      case 3
      with a T show ?thesis unfolding impacts_disjoint_def by blast
    qed
  qed
qed

lemma core_drop_notes:
  assumes core: "ntx_core s T" and t: "T t = Some i"
    and i': "im_account_delta i' = im_account_delta i" "im_nullifiers i' = im_nullifiers i" "im_notes i' \<subseteq> im_notes i"
  shows "ntx_core s (T(t \<mapsto> i'))"
proof (rule ntx_coreI)
  show "distinct (ns_queue s)" "set (ns_queue s) = dom (ns_accounts s)"
    using core by (rule ntx_coreD)+
  show "ntx_account_ok a" if "ns_accounts s p = Some a" for p a using core that by (rule ntx_coreD)
  show "finite (dom (T(t \<mapsto> i')))" using ntx_coreD(4)[OF core] by simp
  have "updates_of (T(t \<mapsto> i')) p = updates_of T p" for p using t i'(1) by (auto simp: updates_of_def)
  then show "num_updates s p = card (updates_of (T(t \<mapsto> i')) p)" for p using ntx_coreD(5)[OF core] by simp
  show "impact_ok s j" if "(T(t \<mapsto> i')) u = Some j" for u j
    using that ntx_coreD(6)[OF core] ntx_coreD(6)[OF core t] i' finite_subset[OF i'(3)]
    by (auto simp: impact_ok_def split: if_splits)
  show "impacts_disjoint (T(t \<mapsto> i'))"
    by (rule impacts_disjoint_weaken[OF ntx_coreD(7)[OF core]]) (use t i' in \<open>auto split: if_splits\<close>)
  show "nullified_ok s (T(t \<mapsto> i'))"
  proof (rule nullified_okI)
    fix p a k assume "ns_accounts s p = Some a" "k \<in> nullified a"
    from nullified_okD[OF ntx_coreD(8)[OF core] this] obtain u j
      where "ns_nullifier_idx s k = Some p" "T u = Some j" "k \<in> im_nullifiers j" by blast
    moreover have "\<exists>j. (T(t \<mapsto> i')) u = Some j \<and> k \<in> im_nullifiers j" if "T u = Some j" "k \<in> im_nullifiers j" for u j
      using that t i'(2) by (cases "u = t") auto
    ultimately show "ns_nullifier_idx s k = Some p \<and> (\<exists>u j. (T(t \<mapsto> i')) u = Some j \<and> k \<in> im_nullifiers j)" by blast
  qed
qed

text \<open>A transaction without remaining impact is forgotten.\<close>

lemma core_forget:
  assumes core: "ntx_core s T" and t: "\<And>i. T t = Some i \<Longrightarrow> im_account_delta i = None \<and> im_nullifiers i = {}"
  shows "ntx_core s (T(t := None))"
proof (rule ntx_coreI)
  show "distinct (ns_queue s)" "set (ns_queue s) = dom (ns_accounts s)"
    using core by (rule ntx_coreD)+
  show "ntx_account_ok a" if "ns_accounts s p = Some a" for p a using core that by (rule ntx_coreD)
  show "finite (dom (T(t := None)))" using ntx_coreD(4)[OF core] by simp
  have "updates_of (T(t := None)) p = updates_of T p" for p using t by (auto simp: updates_of_def)
  then show "num_updates s p = card (updates_of (T(t := None)) p)" for p using ntx_coreD(5)[OF core] by simp
  show "impact_ok s j" if "(T(t := None)) u = Some j" for u j
    using that ntx_coreD(6)[OF core] by (auto split: if_splits)
  show "impacts_disjoint (T(t := None))"
    by (rule impacts_disjoint_weaken[OF ntx_coreD(7)[OF core]]) (auto split: if_splits)
  show "nullified_ok s (T(t := None))"
  proof (rule nullified_okI)
    fix p a k assume "ns_accounts s p = Some a" "k \<in> nullified a"
    from nullified_okD[OF ntx_coreD(8)[OF core] this] obtain u j
      where "ns_nullifier_idx s k = Some p" "T u = Some j" "k \<in> im_nullifiers j" by blast
    moreover from this t have "u \<noteq> t" by auto
    ultimately show "ns_nullifier_idx s k = Some p \<and> (\<exists>u j. (T(t := None)) u = Some j \<and> k \<in> im_nullifiers j)"
      by (intro conjI exI[of _ u] exI[of _ j]) simp_all
  qed
qed

text \<open>
  The steps below change the impact of one transaction \<open>t\<close> from \<open>i\<close> to \<open>i'\<close> in one respect, and the
  state accordingly.  First its account update, with the number of inflight states of the account.
\<close>

lemma core_change_update:
  assumes core: "ntx_core s T" and t: "T t = Some i" and old: "ns_accounts s p = Some a" and ok: "ntx_account_ok a'"
    and i': "im_nullifiers i' = im_nullifiers i" "im_notes i' = im_notes i"
    and null: "nullified a' = nullified a"
    and upd: "length (na_inflight a') = card (updates_of (T(t \<mapsto> i')) p)"
      "\<And>q. q \<noteq> p \<Longrightarrow> updates_of (T(t \<mapsto> i')) q = updates_of T q"
  shows "ntx_core (put_ntx_account s p a') (T(t \<mapsto> i'))"
proof (rule ntx_coreI)
  let ?s = "put_ntx_account s p a'" and ?T = "T(t \<mapsto> i')"
  show "distinct (ns_queue ?s)" using ntx_coreD(1)[OF core] by (simp add: put_ntx_account_def)
  show "set (ns_queue ?s) = dom (ns_accounts ?s)" using ntx_coreD(2)[OF core] old by (auto simp: put_ntx_account_def)
  show "ntx_account_ok b" if "ns_accounts ?s q = Some b" for q b
    using that ok ntx_coreD(3)[OF core] by (auto simp: put_ntx_account_def split: if_splits)
  show "finite (dom ?T)" using ntx_coreD(4)[OF core] by simp
  show "num_updates ?s q = card (updates_of ?T q)" for q
    using ntx_coreD(5)[OF core, of q] upd unfolding num_updates_put by simp
  have keep: "impact_ok ?s j" if "impact_ok s j" for j
    using that old null unfolding impact_ok_def put_ntx_account_def by fastforce
  have "impact_ok s i'" using ntx_coreD(6)[OF core t] i' by (simp add: impact_ok_def)
  then show "impact_ok ?s j" if "?T u = Some j" for u j
    using that keep ntx_coreD(6)[OF core] by (auto split: if_splits)
  show "impacts_disjoint ?T"
    by (rule impacts_disjoint_weaken[OF ntx_coreD(7)[OF core]]) (use t i' in \<open>auto split: if_splits\<close>)
  show "nullified_ok ?s ?T"
  proof (rule nullified_okI)
    fix q b k assume "ns_accounts ?s q = Some b" "k \<in> nullified b"
    then obtain c where "ns_accounts s q = Some c" "k \<in> nullified c"
      using old null by (auto simp: put_ntx_account_def split: if_splits)
    from nullified_okD[OF ntx_coreD(8)[OF core] this] obtain u j
      where u: "ns_nullifier_idx s k = Some q" "T u = Some j" "k \<in> im_nullifiers j" by blast
    then have "\<exists>j. ?T u = Some j \<and> k \<in> im_nullifiers j" using t i'(1) by (cases "u = t") auto
    moreover have "ns_nullifier_idx ?s k = Some q" using u(1) by (simp add: put_ntx_account_def)
    ultimately show "ns_nullifier_idx ?s k = Some q \<and> (\<exists>u j. ?T u = Some j \<and> k \<in> im_nullifiers j)" by blast
  qed
qed

text \<open>A nullifier \<open>k\<close> is added to the impact, or removed from it with or without its index entry.\<close>

lemma core_change_nullifier:
  assumes core: "ntx_core s T" and t: "T t = Some i"
    and k: "ns_nullifier_idx s k = Some p" and old: "ns_accounts s p = Some a" and ok: "ntx_account_ok a'"
    and i': "im_account_delta i' = im_account_delta i" "im_notes i' = im_notes i"
      "im_nullifiers i' - {k} = im_nullifiers i - {k}"
    and a': "na_inflight a' = na_inflight a" "nullified a' - {k} = nullified a - {k}"
      "k \<in> nullified a' \<longleftrightarrow> k \<in> im_nullifiers i'"
    and others: "\<And>u j. T u = Some j \<Longrightarrow> u \<noteq> t \<Longrightarrow> k \<notin> im_nullifiers j"
    and x: "x = Some p \<or> k \<notin> im_nullifiers i' \<and> (\<forall>u j. T u = Some j \<longrightarrow> k \<notin> im_notes j)"
  shows "ntx_core (put_ntx_account (s\<lparr>ns_nullifier_idx := (ns_nullifier_idx s)(k := x)\<rparr>) p a') (T(t \<mapsto> i'))"
proof (rule ntx_coreI)
  let ?s = "put_ntx_account (s\<lparr>ns_nullifier_idx := (ns_nullifier_idx s)(k := x)\<rparr>) p a'" and ?T = "T(t \<mapsto> i')"
  note put = put_ntx_account_def
  show "distinct (ns_queue ?s)" using ntx_coreD(1)[OF core] by (simp add: put)
  show "set (ns_queue ?s) = dom (ns_accounts ?s)" using ntx_coreD(2)[OF core] old by (auto simp: put)
  show "ntx_account_ok b" if "ns_accounts ?s q = Some b" for q b
    using that ok ntx_coreD(3)[OF core] by (auto simp: put split: if_splits)
  show "finite (dom ?T)" using ntx_coreD(4)[OF core] by simp
  have "updates_of ?T q = updates_of T q" for q using t i'(1) by (auto simp: updates_of_def)
  moreover have "num_updates ?s q = num_updates s q" for q using old a'(1) by (simp add: num_updates_def put)
  ultimately show "num_updates ?s q = card (updates_of ?T q)" for q using ntx_coreD(5)[OF core] by simp
  have null: "\<exists>p' b. ns_nullifier_idx ?s j = Some p' \<and> ns_accounts ?s p' = Some b \<and> j \<in> nullified b"
    if "\<exists>p b. ns_nullifier_idx s j = Some p \<and> ns_accounts s p = Some b \<and> j \<in> nullified b" "j \<noteq> k" for j
    using that old a'(2) by (fastforce simp: put)
  note iok = ntx_coreD(6)[OF core, unfolded impact_ok_def]
  show "impact_ok ?s j" if "?T u = Some j" for u j
  proof (cases "u = t")
    case True
    then have j: "j = i'" using that by simp
    have "finite (im_nullifiers i')" using iok[OF t] i'(3) by (metis finite_Diff2 finite.emptyI finite_insert)
    moreover have "ns_nullifier_idx ?s n \<noteq> None" if "n \<in> im_notes i'" for n
      using that iok[OF t] i'(2) x t by (auto simp: put)
    moreover have "\<exists>p b. ns_nullifier_idx ?s n = Some p \<and> ns_accounts ?s p = Some b \<and> n \<in> nullified b"
      if n: "n \<in> im_nullifiers i'" for n
    proof (cases "n = k")
      case True
      then show ?thesis using n x a'(3) by (simp add: put)
    next
      case False
      then have "n \<in> im_nullifiers i" using n i'(3) by blast
      then show ?thesis using null[OF _ False] iok[OF t] by blast
    qed
    ultimately show ?thesis using iok[OF t] i'(2) unfolding j impact_ok_def by simp
  next
    case False
    then have j: "T u = Some j" using that by simp
    have "\<forall>n \<in> im_nullifiers j. n \<noteq> k" using others[OF j False] by blast
    moreover have "ns_nullifier_idx ?s n \<noteq> None" if "n \<in> im_notes j" for n
      using that iok[OF j] x j by (auto simp: put)
    ultimately show ?thesis using iok[OF j] null unfolding impact_ok_def by blast
  qed
  show "impacts_disjoint ?T"
    by (rule impacts_disjoint_upd[OF ntx_coreD(7)[OF core] t]) (use i' others in blast)+
  show "nullified_ok ?s ?T"
  proof (rule nullified_okI)
    fix q b n assume b: "ns_accounts ?s q = Some b" "n \<in> nullified b"
    show "ns_nullifier_idx ?s n = Some q \<and> (\<exists>u j. ?T u = Some j \<and> n \<in> im_nullifiers j)"
    proof (cases "n = k")
      case True
      have "q = p"
      proof (rule ccontr)
        assume "q \<noteq> p"
        then have "ns_accounts s q = Some b" using b(1) by (simp add: put)
        with nullified_okD[OF ntx_coreD(8)[OF core] this b(2)] k True \<open>q \<noteq> p\<close> show False by simp
      qed
      with b True a'(3) have "k \<in> im_nullifiers i'" by (simp add: put)
      with x True \<open>q = p\<close> show ?thesis by (auto simp: put)
    next
      case False
      then obtain c where "ns_accounts s q = Some c" "n \<in> nullified c"
        using b old a'(2) by (cases "q = p") (auto simp: put)
      from nullified_okD[OF ntx_coreD(8)[OF core] this] obtain u j
        where u: "ns_nullifier_idx s n = Some q" "T u = Some j" "n \<in> im_nullifiers j" by blast
      then have "\<exists>j. ?T u = Some j \<and> n \<in> im_nullifiers j" using t i'(3) False by (cases "u = t") auto
      moreover have "ns_nullifier_idx ?s n = Some q" using u(1) False by (simp add: put)
      ultimately show ?thesis by blast
    qed
  qed
qed

text \<open>The index entry of a note that is not nullified is added or removed, and the note in the impact.\<close>

lemma core_change_note:
  assumes core: "ntx_core s T" and t: "T t = Some i"
    and i': "im_account_delta i' = im_account_delta i" "im_nullifiers i' = im_nullifiers i"
      "im_notes i' - {k} = im_notes i - {k}" "k \<in> im_notes i' \<longrightarrow> x \<noteq> None"
    and free: "\<And>u j. T u = Some j \<Longrightarrow> k \<notin> im_nullifiers j"
    and others: "\<And>u j. T u = Some j \<Longrightarrow> u \<noteq> t \<Longrightarrow> k \<notin> im_notes j"
  shows "ntx_core (s\<lparr>ns_nullifier_idx := (ns_nullifier_idx s)(k := x)\<rparr>) (T(t \<mapsto> i'))"
proof (rule ntx_coreI)
  let ?s = "s\<lparr>ns_nullifier_idx := (ns_nullifier_idx s)(k := x)\<rparr>" and ?T = "T(t \<mapsto> i')"
  show "distinct (ns_queue ?s)" "set (ns_queue ?s) = dom (ns_accounts ?s)"
    using ntx_coreD(1,2)[OF core] by simp_all
  show "ntx_account_ok b" if "ns_accounts ?s q = Some b" for q b
    using that ntx_coreD(3)[OF core] by simp
  show "finite (dom ?T)" using ntx_coreD(4)[OF core] by simp
  have "updates_of ?T q = updates_of T q" for q using t i'(1) by (auto simp: updates_of_def)
  then show "num_updates ?s q = card (updates_of ?T q)" for q
    using ntx_coreD(5)[OF core] by (simp add: num_updates_def)
  note iok = ntx_coreD(6)[OF core, unfolded impact_ok_def]
  have null: "\<forall>n \<in> im_nullifiers j. \<exists>p b. ns_nullifier_idx ?s n = Some p \<and> ns_accounts ?s p = Some b \<and> n \<in> nullified b"
    if "T u = Some j" for u j
    using iok[OF that] free[OF that] by fastforce
  show "impact_ok ?s j" if j: "?T u = Some j" for u j
  proof (cases "u = t")
    case True
    then have j: "j = i'" using j by simp
    have "finite (im_notes i')" using iok[OF t] i'(3) by (metis finite_Diff2 finite.emptyI finite_insert)
    moreover have "ns_nullifier_idx ?s n \<noteq> None" if "n \<in> im_notes i'" for n
      using that iok[OF t] i'(3,4) by (cases "n = k") auto
    ultimately show ?thesis using iok[OF t] null[OF t] i'(2) unfolding j impact_ok_def by simp
  next
    case False
    then have j: "T u = Some j" using j by simp
    then show ?thesis using iok[OF j] null[OF j] others[OF j False] unfolding impact_ok_def by fastforce
  qed
  show "impacts_disjoint ?T"
    by (rule impacts_disjoint_upd[OF ntx_coreD(7)[OF core] t]) (use i' others in blast)+
  show "nullified_ok ?s ?T"
  proof (rule nullified_okI)
    fix q b n assume b: "ns_accounts ?s q = Some b" "n \<in> nullified b"
    then have "ns_accounts s q = Some b" by simp
    from nullified_okD[OF ntx_coreD(8)[OF core] this b(2)] obtain u j
      where u: "ns_nullifier_idx s n = Some q" "T u = Some j" "n \<in> im_nullifiers j" by blast
    then have "n \<noteq> k" using free by blast
    moreover have "\<exists>j. ?T u = Some j \<and> n \<in> im_nullifiers j" using u t i'(2) by (cases "u = t") auto
    moreover from \<open>n \<noteq> k\<close> have "ns_nullifier_idx ?s n = Some q" using u(1) by simp
    ultimately show "ns_nullifier_idx ?s n = Some q \<and> (\<exists>u j. ?T u = Some j \<and> n \<in> im_nullifiers j)" by blast
  qed
qed

end
