(* ===== verification/Ntx_Safety.thy ===== *)
theory Ntx_Safety
  imports Ntx_Invariant
begin

text \<open>
  The handlers of the network transaction builder keep its state consistent: loading, the events of
  the mempool in dependency order, and the selection of a candidate, which is characterised exactly.
\<close>

section \<open>Outcomes without panics\<close>

definition ends_well :: "('s \<Rightarrow> 'a \<Rightarrow> bool) \<Rightarrow> ('s, 'e, 'a) outcome \<Rightarrow> bool" where
  "ends_well Q r = (case r of Ok s a \<Rightarrow> Q s a | Err s e \<Rightarrow> True | Panic \<Rightarrow> False | Diverge \<Rightarrow> False)"

lemma ends_well_simps [simp]:
  "ends_well Q (Ok s a) = Q s a" "ends_well Q (Err s e) = True"
  "ends_well Q Panic = False" "ends_well Q Diverge = False"
  by (simp_all add: ends_well_def)

lemma ends_well_and_then:
  assumes "ends_well P r" and "\<And>s a. P s a \<Longrightarrow> ends_well Q (f s a)"
  shows "ends_well Q (and_then r f)"
  using assms by (cases r) simp_all

lemma ends_well_map_err [simp]: "ends_well Q (map_err h r) = ends_well Q r"
  by (cases r) simp_all

lemma ends_well_mono: "ends_well P r \<Longrightarrow> (\<And>s a. P s a \<Longrightarrow> Q s a) \<Longrightarrow> ends_well Q r"
  by (cases r) simp_all

section \<open>Loading accounts\<close>

text \<open>What loading and adding notes leaves alone.\<close>

definition keeps :: "'w ntx_state \<Rightarrow> 'w ntx_state \<Rightarrow> bool" where
  "keeps s s' \<longleftrightarrow> ns_inflight_txs s' = ns_inflight_txs s
     \<and> (\<forall>p a. ns_accounts s p = Some a \<longrightarrow> (\<exists>a'. ns_accounts s' p = Some a' \<and> available a \<subseteq> available a'))"

lemma keeps_refl [simp]: "keeps s s"
  by (simp add: keeps_def)

lemma keeps_trans: "keeps s s' \<Longrightarrow> keeps s' s'' \<Longrightarrow> keeps s s''"
  unfolding keeps_def by (metis subset_trans)

lemma keepsD:
  "keeps s s' \<Longrightarrow> ns_accounts s p = Some a \<Longrightarrow> k \<in> available a \<Longrightarrow> \<exists>a'. ns_accounts s' p = Some a' \<and> k \<in> available a'"
  unfolding keeps_def by blast

lemma keeps_put:
  "ns_accounts s p = Some a \<Longrightarrow> available a \<subseteq> available a' \<Longrightarrow> keeps s (put_ntx_account s p a')"
  by (simp add: keeps_def put_ntx_account_def)

lemma untracked_updates:
  assumes "ntx_core s T" and "ns_accounts s p = None"
  shows "updates_of T p = {}"
  using ntx_coreD(5)[OF assms(1), of p] finite_updates[OF ntx_coreD(4)[OF assms(1)], of p] assms(2)
  by (simp add: num_updates_def)

lemma new_account_sets [simp]:
  "nullified (from_committed_account acc) = {}" "na_inflight (from_committed_account acc) = []"
  "nullified (from_uncommitted_account acc) = {}" "na_inflight (from_uncommitted_account acc) = [acc]"
  by (simp_all add: from_committed_account_def from_uncommitted_account_def note_sets)

lemma fetch_account_core:
  assumes core: "ntx_core s T"
  shows "ends_well (\<lambda>s' found. ntx_core s' T \<and> found = ns_accounts s' p \<and> keeps s s'
      \<and> ns_nullifier_idx s' = ns_nullifier_idx s) (fetch_account get_account s p)"
proof (cases "ns_accounts s p")
  case None
  obtain w r where q: "get_account (ns_store s) p = (w, r)" by (cases "get_account (ns_store s) p")
  show ?thesis
  proof (cases "\<exists>acc. r = Inr (Some acc)")
    case True
    then obtain acc where r: "r = Inr (Some acc)" by blast
    let ?a = "from_committed_account acc"
    have t: "ntx_core (s\<lparr>ns_accounts := (ns_accounts s)(p \<mapsto> ?a), ns_queue := ns_queue s @ [p]\<rparr>) T"
      by (rule core_track_account[OF core None])
        (use ntx_coreD[OF core] untracked_updates[OF core None] in auto)
    have e: "s\<lparr>ns_store := w, ns_queue := ns_queue s @ [p], ns_accounts := (ns_accounts s)(p \<mapsto> ?a)\<rparr> =
        (s\<lparr>ns_accounts := (ns_accounts s)(p \<mapsto> ?a), ns_queue := ns_queue s @ [p]\<rparr>)\<lparr>ns_store := w\<rparr>" by simp
    have "ntx_core (s\<lparr>ns_store := w, ns_queue := ns_queue s @ [p], ns_accounts := (ns_accounts s)(p \<mapsto> ?a)\<rparr>) T"
      unfolding e using t by (simp only: ntx_core_frame)
    then show ?thesis using None q r by (auto simp: fetch_account_def Let_def keeps_def)
  next
    case False
    then show ?thesis
      using None q core by (cases r) (auto simp: fetch_account_def keeps_def split: option.splits)
  qed
qed (simp add: fetch_account_def core)

lemma store_note_core:
  assumes core: "ntx_core s T" and free: "\<And>u j. T u = Some j \<Longrightarrow> nn_nullifier n \<notin> im_nullifiers j"
  shows "ntx_core (case ns_accounts s p of None \<Rightarrow> s | Some a \<Rightarrow> put_ntx_account s p (add_note a n)) T"
    and "keeps s (case ns_accounts s p of None \<Rightarrow> s | Some a \<Rightarrow> put_ntx_account s p (add_note a n))"
proof -
  have A: "nn_nullifier n \<notin> nullified a" if "ns_accounts s p = Some a" for a
    using nullified_okD[OF ntx_coreD(8)[OF core] that] free by blast
  note e = add_note_effect[OF ntx_coreD(3)[OF core] A]
  show "ntx_core (case ns_accounts s p of None \<Rightarrow> s | Some a \<Rightarrow> put_ntx_account s p (add_note a n)) T"
    using core core_replace_account[OF core] e by (auto split: option.split)
  show "keeps s (case ns_accounts s p of None \<Rightarrow> s | Some a \<Rightarrow> put_ntx_account s p (add_note a n))"
    by (cases "ns_accounts s p") (simp_all add: keeps_put e subset_insertI)
qed

lemma load_notes_core:
  assumes "ntx_core s (\<lambda>_. None)" and "\<forall>n \<in> set ns. nn_account_prefix n \<noteq> None"
  shows "ends_well (\<lambda>s' _. ntx_core s' (\<lambda>_. None) \<and> ns_inflight_txs s' = ns_inflight_txs s) (load_notes get_account s ns)"
  using assms
proof (induction ns arbitrary: s)
  case (Cons n ns)
  then obtain p where p: "nn_account_prefix n = Some p" by auto
  show ?case unfolding load_notes.simps p option.case
  proof (rule ends_well_and_then[OF fetch_account_core[OF Cons.prems(1), of p get_account]])
    fix s' found
    assume f: "ntx_core s' (\<lambda>_. None) \<and> found = ns_accounts s' p \<and> keeps s s' \<and> ns_nullifier_idx s' = ns_nullifier_idx s"
    let ?s = "case ns_accounts s' p of None \<Rightarrow> s' | Some a \<Rightarrow> put_ntx_account s' p (add_note a n)"
    from f have s': "ntx_core s' (\<lambda>_. None)" by blast
    have st: "ntx_core ?s (\<lambda>_. None)" "keeps s' ?s" by (rule store_note_core[OF s'], simp)+
    have "ends_well (\<lambda>s'' _. ntx_core s'' (\<lambda>_. None) \<and> ns_inflight_txs s'' = ns_inflight_txs ?s) (load_notes get_account ?s ns)"
      by (rule Cons.IH[OF st(1)]) (use Cons.prems(2) in simp)
    then show "ends_well (\<lambda>s' _. ntx_core s' (\<lambda>_. None) \<and> ns_inflight_txs s' = ns_inflight_txs s)
        (load_notes get_account (case found of None \<Rightarrow> s' | Some a \<Rightarrow> put_ntx_account s' p (add_note a n)) ns)"
      using f st(2) by (auto simp: keeps_def elim: ends_well_mono)
  qed
qed simp

section \<open>Added transactions\<close>

fun may_update :: "'w account_query \<Rightarrow> (account \<Rightarrow> account_delta \<Rightarrow> account option) \<Rightarrow> 'w ntx_state \<Rightarrow>
    network_account_update \<Rightarrow> network_account_prefix \<Rightarrow> bool" where
  "may_update get_account apply_delta s (NewNetworkAccount acc) p = (ns_accounts s p = None)"
| "may_update get_account apply_delta s (NetworkAccountDelta d) p =
     (case fetch_account get_account s p of
        Ok s' (Some a) \<Rightarrow> (case latest_account a of None \<Rightarrow> True | Some acc \<Rightarrow> apply_delta acc d \<noteq> None)
      | _ \<Rightarrow> True)"

text \<open>
  Every indexed note is held by the account it is addressed to: this is why a nullifier that is consumed is
  found there.
\<close>

definition held :: "ntx_account \<Rightarrow> nullifier set" where
  "held a = available a \<union> nullified a"

definition indexed :: "'w ntx_state \<Rightarrow> bool" where
  "indexed s \<longleftrightarrow> (\<forall>k p. ns_nullifier_idx s k = Some p \<longrightarrow> (\<exists>a. ns_accounts s p = Some a \<and> k \<in> held a))"

text \<open>
  What the event of an added transaction must satisfy.  Its account update creates an account that is not
  tracked, or applies to the latest state.  Its notes are new and addressed to accounts that are known: tracked,
  created by the same transaction, or in the store.  What it consumes is not consumed by an inflight
  transaction, nor created by itself.
\<close>

definition known_account :: "'w account_query \<Rightarrow> 'w ntx_state \<Rightarrow> account_update_details option \<Rightarrow>
    network_account_prefix \<Rightarrow> bool" where
  "known_account get_account s details p \<longleftrightarrow> p \<in> dom (ns_accounts s)
     \<or> p \<in> set_option (Option.bind (Option.bind details update_from_protocol) update_prefix)
     \<or> (\<forall>w w'. get_account w p \<noteq> (w', Inr None))"

definition may_add_tx :: "'w account_query \<Rightarrow> (account \<Rightarrow> account_delta \<Rightarrow> account option) \<Rightarrow> 'w ntx_state \<Rightarrow>
    transaction_id \<Rightarrow> nullifier list \<Rightarrow> network_note list \<Rightarrow> account_update_details option \<Rightarrow> bool" where
  "may_add_tx get_account apply_delta s t nullifiers notes details \<longleftrightarrow> t \<in> dom (ns_inflight_txs s) \<or>
     (case Option.bind details update_from_protocol of
        None \<Rightarrow> True
      | Some u \<Rightarrow> (case update_prefix u of None \<Rightarrow> True | Some p \<Rightarrow> may_update get_account apply_delta s u p))
     \<and> distinct (map nn_nullifier notes)
     \<and> (\<forall>n \<in> set notes. ns_nullifier_idx s (nn_nullifier n) = None
          \<and> (\<exists>p. nn_account_prefix n = Some p \<and> known_account get_account s details p))
     \<and> distinct nullifiers \<and> set nullifiers \<inter> nn_nullifier ` set notes = {}
     \<and> (\<forall>k \<in> set nullifiers. \<forall>u i. ns_inflight_txs s u = Some i \<longrightarrow> k \<notin> im_nullifiers i)"

lemma updates_add:
  assumes "finite (dom T)" and "T t = None" and "im_account_delta i = Some p"
  shows "card (updates_of (T(t \<mapsto> i)) p) = Suc (card (updates_of T p))"
    and "q \<noteq> p \<Longrightarrow> updates_of (T(t \<mapsto> i)) q = updates_of T q"
proof -
  have "updates_of (T(t \<mapsto> i)) p = insert t (updates_of T p)" using assms(3) by (auto simp: updates_of_def)
  moreover have "t \<notin> updates_of T p" using assms(2) by (simp add: updates_of_def)
  ultimately show "card (updates_of (T(t \<mapsto> i)) p) = Suc (card (updates_of T p))"
    using finite_updates[OF assms(1)] by simp
  show "q \<noteq> p \<Longrightarrow> updates_of (T(t \<mapsto> i)) q = updates_of T q"
    using assms(2,3) by (auto simp: updates_of_def)
qed

lemma core_start:
  assumes core: "ntx_core s T" and t: "T t = None"
  shows "ntx_core s (T(t \<mapsto> impact_default))"
proof (rule ntx_coreI)
  let ?T = "T(t \<mapsto> impact_default)"
  show "distinct (ns_queue s)" "set (ns_queue s) = dom (ns_accounts s)" using core by (rule ntx_coreD)+
  show "ntx_account_ok a" if "ns_accounts s p = Some a" for p a using core that by (rule ntx_coreD)
  show "finite (dom ?T)" using ntx_coreD(4)[OF core] by simp
  have "updates_of ?T p = updates_of T p" for p using t by (auto simp: updates_of_def impact_default_def)
  then show "num_updates s p = card (updates_of ?T p)" for p using ntx_coreD(5)[OF core] by simp
  show "impact_ok s j" if "?T u = Some j" for u j
    using that ntx_coreD(6)[OF core] by (auto simp: impact_ok_def impact_default_def split: if_splits)
  show "impacts_disjoint ?T"
    using ntx_coreD(7)[OF core] by (simp add: impacts_disjoint_def impact_default_def)
  show "nullified_ok s ?T"
  proof (rule nullified_okI)
    fix p a k assume "ns_accounts s p = Some a" "k \<in> nullified a"
    from nullified_okD[OF ntx_coreD(8)[OF core] this] obtain u j
      where "ns_nullifier_idx s k = Some p" "T u = Some j" "k \<in> im_nullifiers j" by blast
    moreover from this t have "u \<noteq> t" by auto
    ultimately show "ns_nullifier_idx s k = Some p \<and> (\<exists>u j. ?T u = Some j \<and> k \<in> im_nullifiers j)"
      by (intro conjI exI[of _ u] exI[of _ j]) simp_all
  qed
qed

lemma update_prefix_Some: "update_from_protocol d = Some u \<Longrightarrow> \<exists>p. update_prefix u = Some p"
  using update_from_protocol_prefix by blast

lemma add_delta_Ok:
  assumes "ntx_account_ok a" and "\<And>acc. latest_account a = Some acc \<Longrightarrow> apply_delta acc d \<noteq> None"
  obtains a' where "add_delta apply_delta a d = Ok a' ()" "ntx_account_ok a'" "nullified a' = nullified a"
    "available a' = available a" "length (na_inflight a') = Suc (length (na_inflight a))"
proof -
  from account_ok_latest[OF assms(1)] obtain acc where acc: "latest_account a = Some acc" by blast
  with assms(2) obtain st where st: "apply_delta acc d = Some st" by blast
  let ?a = "a\<lparr>na_inflight := na_inflight a @ [st]\<rparr>"
  have "add_delta apply_delta a d = Ok ?a ()" using acc st by (simp add: add_delta_def)
  moreover have "ntx_account_ok ?a" using assms(1) by (simp add: ntx_account_ok_def note_sets)
  ultimately show ?thesis using that[of ?a] by (simp add: note_sets)
qed

lemma add_account_update_core:
  assumes core: "ntx_core s T" and t: "T t = None"
    and may: "case Option.bind details update_from_protocol of None \<Rightarrow> True
      | Some u \<Rightarrow> (case update_prefix u of None \<Rightarrow> True | Some p \<Rightarrow> may_update get_account apply_delta s u p)"
  shows "ends_well (\<lambda>s' prefix. ntx_core s' (T(t \<mapsto> impact_default\<lparr>im_account_delta := prefix\<rparr>)) \<and> keeps s s'
      \<and> ns_nullifier_idx s' = ns_nullifier_idx s) (add_account_update get_account apply_delta s details)"
proof (cases "Option.bind details update_from_protocol")
  case None
  moreover have "impact_default\<lparr>im_account_delta := None\<rparr> = impact_default" by (simp add: impact_default_def)
  ultimately show ?thesis using core_start[OF core t] by (simp add: add_account_update_def)
next
  case (Some u)
  then have "\<exists>d. update_from_protocol d = Some u" by (cases details) auto
  then obtain p where p: "update_prefix u = Some p" using update_prefix_Some by blast
  let ?i = "impact_default\<lparr>im_account_delta := Some p\<rparr>"
  note up = updates_add[OF ntx_coreD(4)[OF core] t, of ?i p, simplified]
  have may': "may_update get_account apply_delta s u p" using may Some p by simp
  show ?thesis
  proof (cases u)
    case (NewNetworkAccount acc)
    then have un: "ns_accounts s p = None" using may' by simp
    note start = core_start[OF core t]
    have "impacts_disjoint (T(t \<mapsto> ?i))"
      by (rule impacts_disjoint_upd[OF ntx_coreD(7)[OF start], of t impact_default ?i, simplified])
    moreover have "impact_ok s j" if "(T(t \<mapsto> ?i)) v = Some j" for v j
      using that ntx_coreD(6)[OF core] by (auto simp: impact_ok_def impact_default_def split: if_splits)
    moreover have "\<exists>u j. (T(t \<mapsto> ?i)) u = Some j \<and> k \<in> im_nullifiers j" if "T v = Some j" "k \<in> im_nullifiers j" for v j k
      using that t by (intro exI[of _ v] exI[of _ j]) auto
    ultimately have "ntx_core (s\<lparr>ns_accounts := (ns_accounts s)(p \<mapsto> from_uncommitted_account acc), ns_queue := ns_queue s @ [p]\<rparr>) (T(t \<mapsto> ?i))"
      using ntx_coreD(4)[OF core] up untracked_updates[OF core un]
      by (intro core_track_account[OF core un]) simp_all
    then show ?thesis using Some p NewNetworkAccount un
      by (simp add: add_account_update_def keeps_def)
  next
    case (NetworkAccountDelta d)
    have "ends_well (\<lambda>s' r. ntx_core s' (T(t \<mapsto> ?i)) \<and> keeps s s' \<and> ns_nullifier_idx s' = ns_nullifier_idx s)
      (and_then (map_err FailedToLoadAccount (fetch_account get_account s p)) (\<lambda>s found. case found of
         None \<Rightarrow> Err s DeltaAccountNotFound | Some a \<Rightarrow> in_field (put_ntx_account s p) (add_delta apply_delta a d)))"
    proof (cases "fetch_account get_account s p")
      case (Ok s' found)
      from fetch_account_core[OF core, of p get_account] Ok
      have f: "ntx_core s' T" "found = ns_accounts s' p" "keeps s s'" "ns_nullifier_idx s' = ns_nullifier_idx s" by simp_all
      show ?thesis
      proof (cases found)
        case (Some a)
        then have a: "ns_accounts s' p = Some a" using f by simp
        have "\<And>acc. latest_account a = Some acc \<Longrightarrow> apply_delta acc d \<noteq> None"
          using may' NetworkAccountDelta Ok Some by simp
        from add_delta_Ok[of a apply_delta d, OF ntx_coreD(3)[OF f(1) a] this] obtain a' where a':
          "add_delta apply_delta a d = (Ok a' () :: (ntx_account, ntx_error, unit) outcome)" "ntx_account_ok a'" "nullified a' = nullified a"
          "available a' = available a" "length (na_inflight a') = Suc (length (na_inflight a))" by blast
        have "ntx_core s' (T(t \<mapsto> impact_default))" by (rule core_start[OF f(1) t])
        then have "ntx_core (put_ntx_account s' p a') (T(t \<mapsto> impact_default, t \<mapsto> ?i))"
        proof (rule core_change_update[OF _ _ a a'(2), where i = impact_default])
          have "updates_of (T(t \<mapsto> impact_default)) q = updates_of T q" for q
            using t by (auto simp: updates_of_def impact_default_def)
          then show "q \<noteq> p \<Longrightarrow> updates_of (T(t \<mapsto> impact_default, t \<mapsto> ?i)) q = updates_of (T(t \<mapsto> impact_default)) q" for q
            using up(2) by simp
          have "card (updates_of T p) = length (na_inflight a)"
            using ntx_coreD(5)[OF f(1), of p] a by (simp add: num_updates_def)
          then show "length (na_inflight a') = card (updates_of (T(t \<mapsto> impact_default, t \<mapsto> ?i)) p)"
            using up(1) a'(5) by simp
        qed (simp_all add: a' impact_default_def)
        moreover have "keeps s (put_ntx_account s' p a')"
          by (rule keeps_trans[OF f(3) keeps_put[OF a]]) (simp add: a')
        ultimately show ?thesis using Ok Some a' f(4) by (simp add: put_ntx_account_def)
      qed (simp add: Ok)
    qed (use fetch_account_core[OF core, of p get_account] in simp_all)
    then have "ends_well (\<lambda>s' prefix. ntx_core s' (T(t \<mapsto> impact_default\<lparr>im_account_delta := prefix\<rparr>)) \<and> keeps s s'
      \<and> ns_nullifier_idx s' = ns_nullifier_idx s)
      (and_then (and_then (map_err FailedToLoadAccount (fetch_account get_account s p)) (\<lambda>s found. case found of
         None \<Rightarrow> Err s DeltaAccountNotFound | Some a \<Rightarrow> in_field (put_ntx_account s p) (add_delta apply_delta a d)))
        (\<lambda>s _. Ok (s\<lparr>ns_in_progress := ns_in_progress s - {p}\<rparr>) (Some p)))"
      by (rule ends_well_and_then) (simp add: keeps_def)
    then show ?thesis using Some p NetworkAccountDelta by (simp add: add_account_update_def)
  qed
qed

lemma add_network_notes_core:
  assumes "ntx_core s (T(t \<mapsto> i))" and "distinct (map nn_nullifier ns)"
    and "\<forall>n \<in> set ns. nn_account_prefix n \<noteq> None \<and> ns_nullifier_idx s (nn_nullifier n) = None"
  shows "ends_well (\<lambda>s' i'. ntx_core s' (T(t \<mapsto> i')) \<and> keeps s s' \<and> im_nullifiers i' = im_nullifiers i
      \<and> (\<forall>k. k \<notin> nn_nullifier ` set ns \<longrightarrow> ns_nullifier_idx s' k = ns_nullifier_idx s k))
    (add_network_notes get_account s i ns)"
  using assms
proof (induction ns arbitrary: s i)
  case (Cons n ns)
  let ?k = "nn_nullifier n" and ?T = "T(t \<mapsto> i)"
  from Cons.prems(3) obtain p where p: "nn_account_prefix n = Some p" and none: "ns_nullifier_idx s ?k = None" by auto
  let ?i = "i\<lparr>im_notes := insert ?k (im_notes i)\<rparr>" and ?s = "s\<lparr>ns_nullifier_idx := (ns_nullifier_idx s)(?k \<mapsto> p)\<rparr>"
  note iok = ntx_coreD(6)[OF Cons.prems(1), unfolded impact_ok_def]
  have free: "?k \<notin> im_nullifiers j" "?k \<notin> im_notes j" if "?T u = Some j" for u j
    using iok[OF that] none by auto
  have "ntx_core ?s (?T(t \<mapsto> ?i))"
  proof (rule core_change_note[OF Cons.prems(1)])
    show "?T u = Some j \<Longrightarrow> ?k \<notin> im_nullifiers j" "?T u = Some j \<Longrightarrow> u \<noteq> t \<Longrightarrow> ?k \<notin> im_notes j" for u j
      using free by blast+
  qed simp_all
  then have core: "ntx_core ?s (T(t \<mapsto> ?i))" by simp
  have free': "?k \<notin> im_nullifiers j" if "(T(t \<mapsto> ?i)) u = Some j" for u j
    using free(1)[of u] free(1)[of t i] that by (cases "u = t") auto
  show ?case unfolding add_network_notes.simps p option.case Let_def
  proof (rule ends_well_and_then)
    show "ends_well (\<lambda>s' found. ntx_core s' (T(t \<mapsto> ?i)) \<and> found = ns_accounts s' p \<and> keeps ?s s'
      \<and> ns_nullifier_idx s' = ns_nullifier_idx ?s) (map_err FailedToLoadAccount (fetch_account get_account ?s p))"
      using fetch_account_core[OF core, of p get_account] by simp
  next
    fix s' found
    assume f: "ntx_core s' (T(t \<mapsto> ?i)) \<and> found = ns_accounts s' p \<and> keeps ?s s' \<and> ns_nullifier_idx s' = ns_nullifier_idx ?s"
    then have s': "ntx_core s' (T(t \<mapsto> ?i))" by blast
    let ?s2 = "case ns_accounts s' p of None \<Rightarrow> s' | Some a \<Rightarrow> put_ntx_account s' p (add_note a n)"
    note st = store_note_core[OF s', where n = n and p = p, OF free']
    have idx: "ns_nullifier_idx ?s2 = (ns_nullifier_idx s)(?k \<mapsto> p)"
      using f by (simp add: put_ntx_account_def split: option.split)
    have "?k \<notin> nn_nullifier ` set ns" using Cons.prems(2) by simp
    then have fresh: "nn_nullifier m \<noteq> ?k" if "m \<in> set ns" for m using that by (metis imageI)
    have "keeps s ?s2"
      using f st(2) keeps_trans[of ?s s' ?s2] by (simp add: keeps_def)
    moreover have "ends_well (\<lambda>s'' i'. ntx_core s'' (T(t \<mapsto> i')) \<and> keeps ?s2 s'' \<and> im_nullifiers i' = im_nullifiers ?i
      \<and> (\<forall>k. k \<notin> nn_nullifier ` set ns \<longrightarrow> ns_nullifier_idx s'' k = ns_nullifier_idx ?s2 k)) (add_network_notes get_account ?s2 ?i ns)"
      by (rule Cons.IH[OF st(1)]) (use Cons.prems(2,3) idx fresh in simp_all)
    ultimately show "ends_well (\<lambda>s' i'. ntx_core s' (T(t \<mapsto> i')) \<and> keeps s s' \<and> im_nullifiers i' = im_nullifiers i
      \<and> (\<forall>k. k \<notin> nn_nullifier ` set (n # ns) \<longrightarrow> ns_nullifier_idx s' k = ns_nullifier_idx s k))
      (add_network_notes get_account (case found of None \<Rightarrow> s' | Some a \<Rightarrow> put_ntx_account s' p (add_note a n)) ?i ns)"
      using f idx by (auto elim!: ends_well_mono intro: keeps_trans)
  qed
qed simp

lemma add_nullifiers_core:
  assumes "ntx_core s (T(t \<mapsto> i))" and "distinct ks" and "set ks \<inter> im_nullifiers i = {}"
    and "\<forall>k \<in> set ks. \<forall>p. ns_nullifier_idx s k = Some p \<longrightarrow> (\<exists>a. ns_accounts s p = Some a \<and> k \<in> available a)"
  shows "ends_well (\<lambda>s' i'. ntx_core s' (T(t \<mapsto> i')) \<and> ns_inflight_txs s' = ns_inflight_txs s)
    (add_nullifiers s i ks :: ('w ntx_state, 'e, tx_impact) outcome)"
  using assms
proof (induction ks arbitrary: s i)
  case (Cons k ks)
  let ?T = "T(t \<mapsto> i)" and ?i = "i\<lparr>im_nullifiers := insert k (im_nullifiers i)\<rparr>"
  note core = Cons.prems(1)
  show ?case
  proof (cases "ns_nullifier_idx s k")
    case None
    then show ?thesis using Cons.IH[OF core] Cons.prems by simp
  next
    case (Some p)
    with Cons.prems(4) obtain a where a: "ns_accounts s p = Some a" "k \<in> available a" by auto
    from add_nullifier_Ok[OF ntx_coreD(3)[OF core a(1)] a(2)] obtain a' where a':
      "add_nullifier a k = (Ok a' () :: (ntx_account, 'e, unit) outcome)" "ntx_account_ok a'" "na_inflight a' = na_inflight a"
      "nullified a' = insert k (nullified a)" "available a' = available a - {k}" by blast
    have "k \<notin> nullified a" using ntx_coreD(3)[OF core a(1)] a(2) by (auto simp: ntx_account_ok_def)
    then have free: "k \<notin> im_nullifiers j" if "?T u = Some j" for u j
      using ntx_coreD(6)[OF core that] Some a(1) by (force simp: impact_ok_def)
    have "ntx_core (put_ntx_account (s\<lparr>ns_nullifier_idx := (ns_nullifier_idx s)(k := Some p)\<rparr>) p a') (?T(t \<mapsto> ?i))"
    proof (rule core_change_nullifier[OF core _ Some a(1) a'(2), where i = i])
      show "?T u = Some j \<Longrightarrow> u \<noteq> t \<Longrightarrow> k \<notin> im_nullifiers j" for u j using free by blast
    qed (simp_all add: a')
    moreover have "(ns_nullifier_idx s)(k := Some p) = ns_nullifier_idx s" using Some by auto
    ultimately have core': "ntx_core (put_ntx_account s p a') (T(t \<mapsto> ?i))" by simp
    have rest: "\<exists>b. ns_accounts (put_ntx_account s p a') q = Some b \<and> n \<in> available b"
      if "n \<in> set ks" "ns_nullifier_idx s n = Some q" for n q
      using Cons.prems(2,4) that a a'(5) by (cases "q = p") (auto simp: put_ntx_account_def)
    have "ends_well (\<lambda>s' i'. ntx_core s' (T(t \<mapsto> i')) \<and> ns_inflight_txs s' = ns_inflight_txs (put_ntx_account s p a'))
      (add_nullifiers (put_ntx_account s p a') ?i ks :: ('w ntx_state, 'e, tx_impact) outcome)"
      by (rule Cons.IH[OF core']) (use Cons.prems(2,3) rest in \<open>auto simp: put_ntx_account_def\<close>)
    then show ?thesis using Some a(1) a'(1) by (simp add: put_ntx_account_def del: fun_upd_apply)
  qed
qed simp

lemma ntx_add_transaction_inv:
  assumes inv: "ntx_inv s" "indexed s" and may: "may_add_tx get_account apply_delta s t nullifiers notes details"
  shows "ends_well (\<lambda>s' _. ntx_inv s') (ntx_add_transaction get_account apply_delta s t nullifiers notes details)"
proof (cases "t \<in> dom (ns_inflight_txs s)")
  case False
  let ?T = "ns_inflight_txs s"
  from False have t: "?T t = None" by auto
  note may' = may[unfolded may_add_tx_def] False
  have core: "ntx_core s ?T" using inv by (simp add: ntx_inv_def)
  have "ends_well (\<lambda>s' _. ntx_inv s')
    (and_then (add_account_update get_account apply_delta s details) (\<lambda>s prefix.
     and_then (add_network_notes get_account s (impact_default\<lparr>im_account_delta := prefix\<rparr>) notes) (\<lambda>s i.
     and_then (add_nullifiers s i nullifiers) (\<lambda>s i.
       if impact_is_empty i then Ok s ()
       else Ok (s\<lparr>ns_inflight_txs := (ns_inflight_txs s)(t \<mapsto> i)\<rparr>) ()))))"
  proof (rule ends_well_and_then[OF add_account_update_core[OF core t]])
    show "case Option.bind details update_from_protocol of None \<Rightarrow> True
      | Some u \<Rightarrow> (case update_prefix u of None \<Rightarrow> True | Some p \<Rightarrow> may_update get_account apply_delta s u p)"
      using may' by blast
  next
    fix s1 prefix
    let ?i = "impact_default\<lparr>im_account_delta := prefix\<rparr>"
    assume s1: "ntx_core s1 (?T(t \<mapsto> ?i)) \<and> keeps s s1 \<and> ns_nullifier_idx s1 = ns_nullifier_idx s"
    then have core1: "ntx_core s1 (?T(t \<mapsto> ?i))" by blast
    show "ends_well (\<lambda>s' _. ntx_inv s') (and_then (add_network_notes get_account s1 ?i notes) (\<lambda>s i.
     and_then (add_nullifiers s i nullifiers) (\<lambda>s i.
       if impact_is_empty i then Ok s () else Ok (s\<lparr>ns_inflight_txs := (ns_inflight_txs s)(t \<mapsto> i)\<rparr>) ())))"
    proof (rule ends_well_and_then[OF add_network_notes_core[OF core1]])
      show "distinct (map nn_nullifier notes)"
        "\<forall>n \<in> set notes. nn_account_prefix n \<noteq> None \<and> ns_nullifier_idx s1 (nn_nullifier n) = None"
        using may' s1 by fastforce+
    next
      fix s2 i
      assume s2: "ntx_core s2 (?T(t \<mapsto> i)) \<and> keeps s1 s2 \<and> im_nullifiers i = im_nullifiers ?i
        \<and> (\<forall>k. k \<notin> nn_nullifier ` set notes \<longrightarrow> ns_nullifier_idx s2 k = ns_nullifier_idx s1 k)"
      then have core2: "ntx_core s2 (?T(t \<mapsto> i))" by blast
      have keeps: "keeps s s2" using s1 s2 keeps_trans by blast
      have have_notes: "\<exists>a. ns_accounts s2 p = Some a \<and> k \<in> available a"
        if k: "k \<in> set nullifiers" and p: "ns_nullifier_idx s2 k = Some p" for k p
      proof -
        have "k \<notin> nn_nullifier ` set notes" using may' k by blast
        then have "ns_nullifier_idx s k = Some p" using s1 s2 p by simp
        with inv(2) obtain a where a: "ns_accounts s p = Some a" "k \<in> held a" by (auto simp: indexed_def)
        have "\<forall>u j. ?T u = Some j \<longrightarrow> k \<notin> im_nullifiers j" using may' k by blast
        then have "k \<notin> nullified a" using nullified_okD[OF ntx_coreD(8)[OF core] a(1)] by meson
        with a have "ns_accounts s p = Some a" "k \<in> available a" by (simp_all add: held_def)
        then show ?thesis by (rule keepsD[OF keeps])
      qed
      show "ends_well (\<lambda>s' _. ntx_inv s') (and_then (add_nullifiers s2 i nullifiers) (\<lambda>s i.
         if impact_is_empty i then Ok s () else Ok (s\<lparr>ns_inflight_txs := (ns_inflight_txs s)(t \<mapsto> i)\<rparr>) ()))"
      proof (rule ends_well_and_then[OF add_nullifiers_core[OF core2]])
        show "distinct nullifiers" "set nullifiers \<inter> im_nullifiers i = {}"
          using may' s2 by (auto simp: impact_default_def)
      next
        fix s3 i' assume s3: "ntx_core s3 (?T(t \<mapsto> i')) \<and> ns_inflight_txs s3 = ns_inflight_txs s2"
        have T: "ns_inflight_txs s3 = ?T" using s3 keeps by (simp add: keeps_def)
        from s3 have core3: "ntx_core s3 (?T(t \<mapsto> i'))" by blast
        have "ntx_core s3 ((?T(t \<mapsto> i'))(t := None))" if "impact_is_empty i'"
          using core3 that by (intro core_forget) (simp_all add: impact_is_empty_def)
        moreover have "?T(t := None) = ?T" using t by auto
        ultimately show "ends_well (\<lambda>s' _. ntx_inv s') (if impact_is_empty i' then Ok s3 ()
          else Ok (s3\<lparr>ns_inflight_txs := (ns_inflight_txs s3)(t \<mapsto> i')\<rparr>) ())"
          using core3 by (simp add: ntx_inv_def T)
      qed (use have_notes in blast)
    qed
  qed
  then show ?thesis using False by (simp add: ntx_add_transaction_def)
qed (simp add: ntx_add_transaction_def inv)

section \<open>Committed and reverted transactions\<close>

definition may_commit :: "'w ntx_state \<Rightarrow> transaction_id \<Rightarrow> bool" where
  "may_commit s t \<longleftrightarrow> (\<forall>i u j. ns_inflight_txs s t = Some i \<and> u \<noteq> t \<and> ns_inflight_txs s u = Some j \<longrightarrow>
     im_notes j \<inter> im_nullifiers i = {})"

definition may_revert :: "'w ntx_state \<Rightarrow> transaction_id \<Rightarrow> bool" where
  "may_revert s t \<longleftrightarrow> (\<forall>i. ns_inflight_txs s t = Some i \<longrightarrow>
     (\<forall>u j. ns_inflight_txs s u = Some j \<longrightarrow> im_notes i \<inter> im_nullifiers j = {})
     \<and> (\<forall>p a. im_account_delta i = Some p \<and> ns_accounts s p = Some a \<longrightarrow>
          na_committed a \<noteq> None \<or> length (na_inflight a) > 1))"

lemma updates_drop:
  assumes "finite (dom T)" and "T t = Some i" and "im_account_delta i = Some p" and "im_account_delta i' = None"
  shows "card (updates_of T p) = Suc (card (updates_of (T(t \<mapsto> i')) p))"
    and "q \<noteq> p \<Longrightarrow> updates_of (T(t \<mapsto> i')) q = updates_of T q"
proof -
  have "updates_of T p = insert t (updates_of (T(t \<mapsto> i')) p)" using assms(2-4) by (auto simp: updates_of_def)
  moreover have "t \<notin> updates_of (T(t \<mapsto> i')) p" using assms(4) by (simp add: updates_of_def)
  moreover have "finite (updates_of (T(t \<mapsto> i')) p)" using assms(1) by (intro finite_updates) simp
  ultimately show "card (updates_of T p) = Suc (card (updates_of (T(t \<mapsto> i')) p))" by simp
  show "q \<noteq> p \<Longrightarrow> updates_of (T(t \<mapsto> i')) q = updates_of T q"
    using assms(2-4) by (auto simp: updates_of_def)
qed

text \<open>The account of a pending update is tracked and has an inflight state.\<close>

lemma update_tracked:
  assumes core: "ntx_core s T" and t: "T t = Some i" "im_account_delta i = Some p"
  obtains a where "ns_accounts s p = Some a" "na_inflight a \<noteq> []" "ntx_account_ok a"
proof -
  have "t \<in> updates_of T p" using t by (simp add: updates_of_def)
  then have "card (updates_of T p) \<noteq> 0" using finite_updates[OF ntx_coreD(4)[OF core]] by auto
  then have "num_updates s p \<noteq> 0" using ntx_coreD(5)[OF core] by simp
  then obtain a where a: "ns_accounts s p = Some a" "na_inflight a \<noteq> []"
    by (auto simp: num_updates_def split: option.splits)
  with ntx_coreD(3)[OF core a(1)] show ?thesis by (intro that)
qed

text \<open>The oldest or the newest inflight state of the account goes.\<close>

lemma core_drop_update:
  assumes core: "ntx_core s T" and t: "T t = Some i" "im_account_delta i = Some p" and a: "ns_accounts s p = Some a"
    and a': "ntx_account_ok a'" "nullified a' = nullified a" "length (na_inflight a) = Suc (length (na_inflight a'))"
  shows "ntx_core (put_ntx_account s p a') (T(t \<mapsto> i\<lparr>im_account_delta := None\<rparr>))"
proof (rule core_change_update[OF core t(1) a a'(1)])
  note up = updates_drop[OF ntx_coreD(4)[OF core] t, of "i\<lparr>im_account_delta := None\<rparr>", simplified]
  show "length (na_inflight a') = card (updates_of (T(t \<mapsto> i\<lparr>im_account_delta := None\<rparr>)) p)"
    using up(1) ntx_coreD(5)[OF core, of p] a a'(3) by (simp add: num_updates_def)
  show "q \<noteq> p \<Longrightarrow> updates_of (T(t \<mapsto> i\<lparr>im_account_delta := None\<rparr>)) q = updates_of T q" for q
    using up(2) by simp
qed (simp_all add: a')

lemma commit_nullifiers_core:
  assumes "ntx_core s (T(t \<mapsto> i))" and "distinct ks" and "im_nullifiers i = set ks"
    and "\<And>u j. (T(t \<mapsto> i)) u = Some j \<Longrightarrow> im_notes j \<inter> set ks = {}"
  shows "ends_well (\<lambda>s' _. ntx_core s' (T(t \<mapsto> i\<lparr>im_nullifiers := {}\<rparr>)) \<and> ns_inflight_txs s' = ns_inflight_txs s)
    (commit_nullifiers s ks :: ('w ntx_state, 'e, unit) outcome)"
  using assms
proof (induction ks arbitrary: s i)
  case Nil
  then have e: "i\<lparr>im_nullifiers := {}\<rparr> = i" by simp
  show ?case using Nil.prems(1) by (simp only: e commit_nullifiers.simps ends_well_simps simp_thms)
next
  case (Cons k ks)
  let ?T = "T(t \<mapsto> i)" and ?i = "i\<lparr>im_nullifiers := set ks\<rparr>"
  note core = Cons.prems(1)
  have k: "k \<in> im_nullifiers i" "k \<notin> set ks" using Cons.prems(2,3) by auto
  then obtain p a where p: "ns_nullifier_idx s k = Some p" and a: "ns_accounts s p = Some a" "k \<in> nullified a"
    using ntx_coreD(6)[OF core, of t i] unfolding impact_ok_def by auto
  from commit_nullifier_Ok[OF ntx_coreD(3)[OF core a(1)] a(2)] obtain a' where a':
    "commit_nullifier a k = (Ok a' () :: (ntx_account, 'e, unit) outcome)" "ntx_account_ok a'" "na_inflight a' = na_inflight a"
    "nullified a' = nullified a - {k}" "available a' = available a" by blast
  let ?s = "put_ntx_account (s\<lparr>ns_nullifier_idx := (ns_nullifier_idx s)(k := None)\<rparr>) p a'"
  have others: "k \<notin> im_nullifiers j" if "?T u = Some j" "u \<noteq> t" for u j
  proof -
    have "im_nullifiers i \<inter> im_nullifiers j = {}"
      using ntx_coreD(7)[OF core] that unfolding impacts_disjoint_def by (metis fun_upd_same)
    then show ?thesis using k(1) by blast
  qed
  have "ntx_core ?s (?T(t \<mapsto> ?i))"
  proof (rule core_change_nullifier[OF core _ p a(1) a'(2), where i = i])
    show "im_nullifiers ?i - {k} = im_nullifiers i - {k}" using Cons.prems(3) by simp
    show "None = Some p \<or> k \<notin> im_nullifiers ?i \<and> (\<forall>u j. ?T u = Some j \<longrightarrow> k \<notin> im_notes j)"
      using k Cons.prems(4) by fastforce
  qed (use others k in \<open>simp_all add: a'\<close>)
  then have core': "ntx_core ?s (T(t \<mapsto> ?i))" by simp
  have "ends_well (\<lambda>s' _. ntx_core s' (T(t \<mapsto> ?i\<lparr>im_nullifiers := {}\<rparr>)) \<and> ns_inflight_txs s' = ns_inflight_txs ?s)
    (commit_nullifiers ?s ks :: ('w ntx_state, 'e, unit) outcome)"
  proof (rule Cons.IH[OF core'])
    show "im_notes j \<inter> set ks = {}" if "(T(t \<mapsto> ?i)) u = Some j" for u j
      using Cons.prems(4)[of u] Cons.prems(4)[of t i] that by (cases "u = t") auto
  qed (use Cons.prems(2) in simp_all)
  then show ?case using p a(1) a'(1) by (simp add: put_ntx_account_def del: fun_upd_apply)
qed

lemma commit_transaction_inv:
  fixes s :: "'w ntx_state"
  assumes inv: "ntx_inv s" and may: "may_commit s t"
  shows "ends_well (\<lambda>s' _. ntx_inv s') (commit_transaction s t :: ('w ntx_state, 'e, unit) outcome)"
proof (cases "ns_inflight_txs s t")
  case (Some i)
  let ?T = "ns_inflight_txs s"
  let ?ks = "sorted_list_of_set (im_nullifiers i)" and ?s = "s\<lparr>ns_inflight_txs := ?T(t := None)\<rparr>"
  have core: "ntx_core s ?T" using inv by (simp add: ntx_inv_def)
  then have core_s: "ntx_core ?s ?T" by simp
  have fin: "finite (im_nullifiers i)" using ntx_coreD(6)[OF core Some] by (simp add: impact_ok_def)
  have step: "ends_well (\<lambda>s' _. ntx_core s' (?T(t \<mapsto> i\<lparr>im_account_delta := None\<rparr>)) \<and> ns_inflight_txs s' = ?T(t := None))
    ((case im_account_delta i of None \<Rightarrow> Ok ?s () | Some p \<Rightarrow> (case ns_accounts ?s p of None \<Rightarrow> Panic
      | Some a \<Rightarrow> in_field (put_ntx_account ?s p) (commit_delta a))) :: ('w ntx_state, 'e, unit) outcome)"
  proof (cases "im_account_delta i")
    case None
    then have "?T(t \<mapsto> i\<lparr>im_account_delta := None\<rparr>) = ?T" using Some by auto
    then show ?thesis using None core_s by simp
  next
    case (Some p)
    from update_tracked[OF core \<open>?T t = _\<close> Some] obtain a where a: "ns_accounts s p = Some a" "na_inflight a \<noteq> []" "ntx_account_ok a" .
    let ?a = "a\<lparr>na_committed := Some (hd (na_inflight a)), na_inflight := tl (na_inflight a)\<rparr>"
    have "ntx_core (put_ntx_account ?s p ?a) (?T(t \<mapsto> i\<lparr>im_account_delta := None\<rparr>))"
      by (rule core_drop_update[OF core_s \<open>?T t = _\<close> Some, of a]) (use a in \<open>simp_all add: ntx_account_ok_def note_sets\<close>)
    moreover have "commit_delta a = (Ok ?a () :: (ntx_account, 'e, unit) outcome)"
      using a(2) by (cases "na_inflight a") (simp_all add: commit_delta_def)
    ultimately show ?thesis using Some a(1) by (simp add: put_ntx_account_def)
  qed
  show ?thesis unfolding commit_transaction_def Some option.case Let_def
  proof (rule ends_well_and_then[OF step])
    fix s1 :: "'w ntx_state" and u assume s1: "ntx_core s1 (?T(t \<mapsto> i\<lparr>im_account_delta := None\<rparr>)) \<and> ns_inflight_txs s1 = ?T(t := None)"
    let ?j = "i\<lparr>im_account_delta := None, im_notes := {}\<rparr>"
    from s1 have c: "ntx_core s1 (?T(t \<mapsto> i\<lparr>im_account_delta := None\<rparr>))" by blast
    have "ntx_core s1 ((?T(t \<mapsto> i\<lparr>im_account_delta := None\<rparr>))(t \<mapsto> ?j))"
      by (rule core_drop_notes[OF c, where i = "i\<lparr>im_account_delta := None\<rparr>"]) simp_all
    then have core1: "ntx_core s1 (?T(t \<mapsto> ?j))" by simp
    have "ends_well (\<lambda>s' _. ntx_core s' (?T(t \<mapsto> ?j\<lparr>im_nullifiers := {}\<rparr>)) \<and> ns_inflight_txs s' = ns_inflight_txs s1)
      (commit_nullifiers s1 ?ks :: ('w ntx_state, 'e, unit) outcome)"
    proof (rule commit_nullifiers_core[OF core1])
      show "im_notes j \<inter> set ?ks = {}" if "(?T(t \<mapsto> ?j)) u = Some j" for u j
        using that may Some fin by (cases "u = t") (auto simp: may_commit_def)
    qed (use fin in simp_all)
    then show "ends_well (\<lambda>s' _. ntx_inv s') (commit_nullifiers s1 ?ks :: ('w ntx_state, 'e, unit) outcome)"
    proof (rule ends_well_mono)
      fix s2 :: "'w ntx_state" and v assume s2: "ntx_core s2 (?T(t \<mapsto> ?j\<lparr>im_nullifiers := {}\<rparr>)) \<and> ns_inflight_txs s2 = ns_inflight_txs s1"
      then have "ntx_core s2 ((?T(t \<mapsto> ?j\<lparr>im_nullifiers := {}\<rparr>))(t := None))" by (intro core_forget) auto
      then show "ntx_inv s2" using s1 s2 by (simp add: ntx_inv_def)
    qed
  qed
qed (simp add: commit_transaction_def inv)

lemma revert_notes_core:
  assumes "ntx_core s (T(t \<mapsto> i))" and "distinct ks" and "im_notes i = set ks"
    and "\<And>u j. (T(t \<mapsto> i)) u = Some j \<Longrightarrow> im_nullifiers j \<inter> set ks = {}"
  shows "ends_well (\<lambda>s' _. ntx_core s' (T(t \<mapsto> i\<lparr>im_notes := {}\<rparr>)) \<and> ns_inflight_txs s' = ns_inflight_txs s)
    (revert_notes s ks :: ('w ntx_state, 'e, unit) outcome)"
  using assms
proof (induction ks arbitrary: s i)
  case Nil
  then have e: "i\<lparr>im_notes := {}\<rparr> = i" by simp
  show ?case using Nil.prems(1) by (simp only: e revert_notes.simps ends_well_simps simp_thms)
next
  case (Cons k ks)
  let ?T = "T(t \<mapsto> i)" and ?i = "i\<lparr>im_notes := set ks\<rparr>"
  note core = Cons.prems(1)
  have k: "k \<in> im_notes i" "k \<notin> set ks" using Cons.prems(2,3) by auto
  then obtain p where p: "ns_nullifier_idx s k = Some p"
    using ntx_coreD(6)[OF core, of t i] unfolding impact_ok_def by auto
  let ?s = "s\<lparr>ns_nullifier_idx := (ns_nullifier_idx s)(k := None)\<rparr>"
  have free: "k \<notin> im_nullifiers j" if "?T u = Some j" for u j using Cons.prems(4)[OF that] by auto
  have "ntx_core ?s (?T(t \<mapsto> ?i))"
  proof (rule core_change_note[OF core, where i = i])
    show "im_notes ?i - {k} = im_notes i - {k}" using Cons.prems(3) by simp
    show "k \<notin> im_notes j" if "?T u = Some j" "u \<noteq> t" for u j
    proof -
      have "im_notes i \<inter> im_notes j = {}"
        using ntx_coreD(7)[OF core] that unfolding impacts_disjoint_def by (metis fun_upd_same)
      then show ?thesis using k(1) by blast
    qed
  qed (use free k in \<open>simp_all\<close>)
  then have c: "ntx_core ?s (T(t \<mapsto> ?i))" by simp
  let ?s2 = "case ns_accounts ?s p of None \<Rightarrow> ?s | Some a \<Rightarrow> put_ntx_account ?s p (revert_note a k)"
  have core': "ntx_core ?s2 (T(t \<mapsto> ?i))"
  proof (cases "ns_accounts s p")
    case (Some a)
    then have a: "ns_accounts ?s p = Some a" by simp
    have "k \<notin> nullified a" using nullified_okD[OF ntx_coreD(8)[OF core] Some] free by blast
    then show ?thesis using core_replace_account[OF c a] revert_note_effect[OF ntx_coreD(3)[OF core Some], of k] Some by simp
  qed (use c in simp)
  have "ends_well (\<lambda>s' _. ntx_core s' (T(t \<mapsto> ?i\<lparr>im_notes := {}\<rparr>)) \<and> ns_inflight_txs s' = ns_inflight_txs ?s2)
    (revert_notes ?s2 ks :: ('w ntx_state, 'e, unit) outcome)"
  proof (rule Cons.IH[OF core'])
    show "im_nullifiers j \<inter> set ks = {}" if "(T(t \<mapsto> ?i)) u = Some j" for u j
      using Cons.prems(4)[of u] Cons.prems(4)[of t i] that by (cases "u = t") auto
  qed (use Cons.prems(2) in simp_all)
  moreover have "ns_inflight_txs ?s2 = ns_inflight_txs s" by (simp add: put_ntx_account_def split: option.split)
  ultimately show ?case using p by (simp add: Let_def del: fun_upd_apply)
qed

lemma revert_nullifiers_core:
  assumes "ntx_core s (T(t \<mapsto> i))" and "distinct ks" and "im_nullifiers i = set ks"
  shows "ends_well (\<lambda>s' _. ntx_core s' (T(t \<mapsto> i\<lparr>im_nullifiers := {}\<rparr>)) \<and> ns_inflight_txs s' = ns_inflight_txs s)
    (revert_nullifiers s ks :: ('w ntx_state, 'e, unit) outcome)"
  using assms
proof (induction ks arbitrary: s i)
  case Nil
  then have e: "i\<lparr>im_nullifiers := {}\<rparr> = i" by simp
  show ?case using Nil.prems(1) by (simp only: e revert_nullifiers.simps ends_well_simps simp_thms)
next
  case (Cons k ks)
  let ?T = "T(t \<mapsto> i)" and ?i = "i\<lparr>im_nullifiers := set ks\<rparr>"
  note core = Cons.prems(1)
  have k: "k \<in> im_nullifiers i" "k \<notin> set ks" using Cons.prems(2,3) by auto
  then obtain p a where p: "ns_nullifier_idx s k = Some p" and a: "ns_accounts s p = Some a" "k \<in> nullified a"
    using ntx_coreD(6)[OF core, of t i] unfolding impact_ok_def by auto
  note e = revert_nullifier_effect[OF ntx_coreD(3)[OF core a(1)] a(2)]
  have others: "k \<notin> im_nullifiers j" if "?T u = Some j" "u \<noteq> t" for u j
  proof -
    have "im_nullifiers i \<inter> im_nullifiers j = {}"
      using ntx_coreD(7)[OF core] that unfolding impacts_disjoint_def by (metis fun_upd_same)
    then show ?thesis using k(1) by blast
  qed
  have "ntx_core (put_ntx_account (s\<lparr>ns_nullifier_idx := (ns_nullifier_idx s)(k := Some p)\<rparr>) p (revert_nullifier a k)) (?T(t \<mapsto> ?i))"
  proof (rule core_change_nullifier[OF core _ p a(1) e(1), where i = i])
    show "im_nullifiers ?i - {k} = im_nullifiers i - {k}" using Cons.prems(3) by simp
  qed (use others k in \<open>simp_all add: e\<close>)
  moreover have "(ns_nullifier_idx s)(k := Some p) = ns_nullifier_idx s" using p by auto
  ultimately have core': "ntx_core (put_ntx_account s p (revert_nullifier a k)) (T(t \<mapsto> ?i))" by simp
  have "ends_well (\<lambda>s' _. ntx_core s' (T(t \<mapsto> ?i\<lparr>im_nullifiers := {}\<rparr>))
      \<and> ns_inflight_txs s' = ns_inflight_txs (put_ntx_account s p (revert_nullifier a k)))
    (revert_nullifiers (put_ntx_account s p (revert_nullifier a k)) ks :: ('w ntx_state, 'e, unit) outcome)"
    by (rule Cons.IH[OF core']) (use Cons.prems(2) in simp_all)
  then show ?case using p a(1) by (simp add: put_ntx_account_def del: fun_upd_apply)
qed

lemma revert_transaction_inv:
  fixes s :: "'w ntx_state"
  assumes inv: "ntx_inv s" and may: "may_revert s t"
  shows "ends_well (\<lambda>s' _. ntx_inv s') (revert_transaction s t :: ('w ntx_state, 'e, unit) outcome)"
proof (cases "ns_inflight_txs s t")
  case (Some i)
  let ?T = "ns_inflight_txs s" and ?s = "s\<lparr>ns_inflight_txs := (ns_inflight_txs s)(t := None)\<rparr>"
  let ?ns = "sorted_list_of_set (im_notes i)" and ?ks = "sorted_list_of_set (im_nullifiers i)"
  note T = \<open>ns_inflight_txs s t = Some i\<close>
  have core: "ntx_core s ?T" using inv by (simp add: ntx_inv_def)
  then have core_s: "ntx_core ?s ?T" by simp
  have fin: "finite (im_notes i)" "finite (im_nullifiers i)" using ntx_coreD(6)[OF core Some] by (simp_all add: impact_ok_def)
  let ?upd = "(case im_account_delta i of None \<Rightarrow> Ok ?s () | Some p \<Rightarrow> (case ns_accounts ?s p of None \<Rightarrow> Panic
    | Some a \<Rightarrow> (case revert_delta a of
        Ok a' created \<Rightarrow> Ok (let s = put_ntx_account ?s p a' in
          if created then s\<lparr>ns_accounts := (ns_accounts s)(p := None)\<rparr> else s) ()
      | Err _ e \<Rightarrow> Err ?s e | Panic \<Rightarrow> Panic | Diverge \<Rightarrow> Diverge)))"
  have step: "ends_well (\<lambda>s' _. ntx_core s' (?T(t \<mapsto> i\<lparr>im_account_delta := None\<rparr>)) \<and> ns_inflight_txs s' = ?T(t := None))
    (?upd :: ('w ntx_state, 'e, unit) outcome)"
  proof (cases "im_account_delta i")
    case None
    then have "?T(t \<mapsto> i\<lparr>im_account_delta := None\<rparr>) = ?T" using T by auto
    then show ?thesis using None core_s by simp
  next
    case (Some p)
    from update_tracked[OF core T Some] obtain a where a: "ns_accounts s p = Some a" "na_inflight a \<noteq> []" "ntx_account_ok a" .
    let ?a = "a\<lparr>na_inflight := butlast (na_inflight a)\<rparr>"
    have kept: "na_committed a \<noteq> None \<or> length (na_inflight a) > 1" using may T Some a(1) by (simp add: may_revert_def)
    then have more: "na_committed a \<noteq> None \<or> butlast (na_inflight a) \<noteq> []"
      by (metis One_nat_def diff_is_0_eq length_butlast linorder_not_le list.size(3))
    have "ntx_core (put_ntx_account ?s p ?a) (?T(t \<mapsto> i\<lparr>im_account_delta := None\<rparr>))"
      by (rule core_drop_update[OF core_s T Some, of a]) (use a more in \<open>simp_all add: ntx_account_ok_def note_sets\<close>)
    moreover have "revert_delta a = (Ok ?a False :: (ntx_account, 'e, bool) outcome)"
      using a(2) more by (auto simp: revert_delta_def Let_def)
    ultimately show ?thesis using Some a(1) by (simp add: put_ntx_account_def)
  qed
  show ?thesis unfolding revert_transaction_def T option.case Let_def[of ?s]
  proof (rule ends_well_and_then[OF step])
    fix s1 :: "'w ntx_state" and u assume s1: "ntx_core s1 (?T(t \<mapsto> i\<lparr>im_account_delta := None\<rparr>)) \<and> ns_inflight_txs s1 = ?T(t := None)"
    let ?j = "i\<lparr>im_account_delta := None\<rparr>"
    from s1 have core1: "ntx_core s1 (?T(t \<mapsto> ?j))" by blast
    have "ends_well (\<lambda>s' _. ntx_core s' (?T(t \<mapsto> ?j\<lparr>im_notes := {}\<rparr>)) \<and> ns_inflight_txs s' = ns_inflight_txs s1)
      (revert_notes s1 ?ns :: ('w ntx_state, 'e, unit) outcome)"
    proof (rule revert_notes_core[OF core1])
      show "im_nullifiers j \<inter> set ?ns = {}" if "(?T(t \<mapsto> ?j)) u = Some j" for u j
        using that may T fin(1) by (cases "u = t") (fastforce simp: may_revert_def)+
    qed (use fin in simp_all)
    then show "ends_well (\<lambda>s' _. ntx_inv s') (and_then (revert_notes s1 ?ns) (\<lambda>s _. revert_nullifiers s ?ks)
      :: ('w ntx_state, 'e, unit) outcome)"
    proof (rule ends_well_and_then)
      fix s2 :: "'w ntx_state" and v assume s2: "ntx_core s2 (?T(t \<mapsto> ?j\<lparr>im_notes := {}\<rparr>)) \<and> ns_inflight_txs s2 = ns_inflight_txs s1"
      then have core2: "ntx_core s2 (?T(t \<mapsto> ?j\<lparr>im_notes := {}\<rparr>))" by blast
      have "ends_well (\<lambda>s' _. ntx_core s' (?T(t \<mapsto> ?j\<lparr>im_notes := {}, im_nullifiers := {}\<rparr>)) \<and> ns_inflight_txs s' = ns_inflight_txs s2)
        (revert_nullifiers s2 ?ks :: ('w ntx_state, 'e, unit) outcome)"
        by (rule revert_nullifiers_core[OF core2]) (use fin in simp_all)
      then show "ends_well (\<lambda>s' _. ntx_inv s') (revert_nullifiers s2 ?ks :: ('w ntx_state, 'e, unit) outcome)"
      proof (rule ends_well_mono)
        fix s3 :: "'w ntx_state" and x assume s3: "ntx_core s3 (?T(t \<mapsto> ?j\<lparr>im_notes := {}, im_nullifiers := {}\<rparr>)) \<and> ns_inflight_txs s3 = ns_inflight_txs s2"
        then have "ntx_core s3 ((?T(t \<mapsto> ?j\<lparr>im_notes := {}, im_nullifiers := {}\<rparr>))(t := None))" by (intro core_forget) auto
        then show "ntx_inv s3" using s1 s2 s3 by (simp add: ntx_inv_def)
      qed
    qed
  qed
qed (simp add: revert_transaction_def inv)

end
