(* ===== verification/Ntx_Index.thy ===== *)
theory Ntx_Index
  imports Ntx_Safety
begin

text \<open>
  The nullifier index of the network transaction builder's state: every handler keeps it so that an indexed
  note is held by its account, available or consumed by an inflight transaction.
\<close>

section \<open>Notes that stay\<close>

text \<open>Nothing is indexed anew, and what stays indexed stays with the account that holds it.\<close>

definition retains :: "'w ntx_state \<Rightarrow> 'w ntx_state \<Rightarrow> bool" where
  "retains s s' \<longleftrightarrow> (\<forall>k p. ns_nullifier_idx s' k = Some p \<longrightarrow> ns_nullifier_idx s k = Some p)
     \<and> (\<forall>p a k. ns_accounts s p = Some a \<and> k \<in> held a \<and> ns_nullifier_idx s' k \<noteq> None \<longrightarrow>
          (\<exists>a'. ns_accounts s' p = Some a' \<and> k \<in> held a'))"

lemma retainsI:
  assumes "\<And>k p. ns_nullifier_idx s' k = Some p \<Longrightarrow> ns_nullifier_idx s k = Some p"
    and "\<And>p a k. ns_accounts s p = Some a \<Longrightarrow> k \<in> held a \<Longrightarrow> ns_nullifier_idx s' k \<noteq> None \<Longrightarrow>
      \<exists>a'. ns_accounts s' p = Some a' \<and> k \<in> held a'"
  shows "retains s s'"
  using assms unfolding retains_def by blast

lemma retains_refl [simp]: "retains s s"
  by (simp add: retains_def)

lemma retains_trans:
  assumes "retains s s'" and "retains s' s''"
  shows "retains s s''"
proof (rule retainsI)
  show "ns_nullifier_idx s k = Some p" if "ns_nullifier_idx s'' k = Some p" for k p
    using assms that unfolding retains_def by blast
  show "\<exists>a'. ns_accounts s'' p = Some a' \<and> k \<in> held a'"
    if "ns_accounts s p = Some a" "k \<in> held a" "ns_nullifier_idx s'' k \<noteq> None" for p a k
  proof -
    from that(3) assms(2) have "ns_nullifier_idx s' k \<noteq> None" unfolding retains_def by (metis option.exhaust)
    with that assms(1) obtain a' where "ns_accounts s' p = Some a'" "k \<in> held a'" unfolding retains_def by blast
    with that(3) assms(2) show ?thesis unfolding retains_def by blast
  qed
qed

lemma retains_indexed: "retains s s' \<Longrightarrow> indexed s \<Longrightarrow> indexed s'"
  unfolding retains_def indexed_def by (metis option.distinct(1))

lemma retains_frame:
  "ns_accounts s' = ns_accounts s \<Longrightarrow> ns_nullifier_idx s' = ns_nullifier_idx s \<Longrightarrow> retains s s'"
  by (simp add: retains_def)

lemma retains_put:
  "ns_accounts s p = Some a \<Longrightarrow> held a \<subseteq> held a' \<Longrightarrow> retains s (put_ntx_account s p a')"
  by (auto simp: retains_def put_ntx_account_def)

lemma retains_put_drop:
  "ns_accounts s p = Some a \<Longrightarrow> held a - {k} \<subseteq> held a' \<Longrightarrow>
     retains s (put_ntx_account (s\<lparr>ns_nullifier_idx := (ns_nullifier_idx s)(k := None)\<rparr>) p a')"
  by (auto simp: retains_def put_ntx_account_def)

lemma retains_drop: "retains s (s\<lparr>ns_nullifier_idx := (ns_nullifier_idx s)(k := None)\<rparr>)"
  by (simp add: retains_def)

section \<open>What the operations of an account hold\<close>

lemma held_notes:
  "add_delta apply_delta a d = (Ok a' () :: (ntx_account, 'e, unit) outcome) \<Longrightarrow> held a' = held a"
  "commit_delta a = (Ok a' () :: (ntx_account, 'e, unit) outcome) \<Longrightarrow> held a' = held a"
  "revert_delta a = (Ok a' created :: (ntx_account, 'e, bool) outcome) \<Longrightarrow> held a' = held a"
  "add_nullifier a k = (Ok a' () :: (ntx_account, 'e, unit) outcome) \<Longrightarrow> held a' = insert k (held a)"
  "commit_nullifier a k = (Ok a' () :: (ntx_account, 'e, unit) outcome) \<Longrightarrow> held a - {k} \<subseteq> held a'"
  "held (add_note a n) = insert (nn_nullifier n) (held a)" "held (revert_note a k) = held a - {k}"
  "held a \<subseteq> held (revert_nullifier a k)"
proof -
  have dom: "held b = dom (map_of (na_available_notes b)) \<union> dom (map_of (na_nullified_notes b))" for b
    by (simp add: held_def note_sets dom_map_of_conv_image_fst)
  show "add_delta apply_delta a d = (Ok a' () :: (ntx_account, 'e, unit) outcome) \<Longrightarrow> held a' = held a"
    "commit_delta a = (Ok a' () :: (ntx_account, 'e, unit) outcome) \<Longrightarrow> held a' = held a"
    "revert_delta a = (Ok a' created :: (ntx_account, 'e, bool) outcome) \<Longrightarrow> held a' = held a"
    "add_nullifier a k = (Ok a' () :: (ntx_account, 'e, unit) outcome) \<Longrightarrow> held a' = insert k (held a)"
    "commit_nullifier a k = (Ok a' () :: (ntx_account, 'e, unit) outcome) \<Longrightarrow> held a - {k} \<subseteq> held a'"
    "held (add_note a n) = insert (nn_nullifier n) (held a)" "held (revert_note a k) = held a - {k}"
    "held a \<subseteq> held (revert_nullifier a k)"
    unfolding dom by (auto simp: add_delta_def commit_delta_def revert_delta_def add_nullifier_def commit_nullifier_def
        add_note_def revert_note_def revert_nullifier_def Let_def split: option.splits list.splits if_splits)
qed

section \<open>The handlers\<close>

lemma fetch_account_retains:
  assumes "fetch_account get_account s p = Ok s' found"
  shows "retains s s'" "found = ns_accounts s' p" "dom (ns_accounts s) \<subseteq> dom (ns_accounts s')"
    "\<forall>w w'. get_account w p \<noteq> (w', Inr None) \<Longrightarrow> found \<noteq> None"
proof -
  show "retains s s'" "found = ns_accounts s' p" "dom (ns_accounts s) \<subseteq> dom (ns_accounts s')"
    using assms
    by (auto simp: fetch_account_def Let_def retains_def split: option.splits prod.splits sum.splits if_splits)
  show "\<forall>w w'. get_account w p \<noteq> (w', Inr None) \<Longrightarrow> found \<noteq> None"
    using assms by (cases "get_account (ns_store s) p"; cases "ns_accounts s p") (auto simp: fetch_account_def Let_def split: option.splits sum.splits dest: sym)
qed

lemma load_notes_unindexed:
  "load_notes get_account s ns = Ok s' r \<Longrightarrow> ns_nullifier_idx s' = ns_nullifier_idx s"
proof (induction ns arbitrary: s)
  case (Cons n ns)
  then obtain p s1 found where f: "fetch_account get_account s p = Ok s1 found" and
    l: "load_notes get_account (case found of None \<Rightarrow> s1 | Some a \<Rightarrow> put_ntx_account s1 p (add_note a n)) ns = Ok s' r"
    by (auto simp: and_then_eq_Ok split: option.splits)
  have "ns_nullifier_idx s1 = ns_nullifier_idx s"
    using f by (auto simp: fetch_account_def Let_def split: option.splits prod.splits sum.splits)
  with Cons.IH[OF l] show ?case by (simp add: put_ntx_account_def split: option.splits)
qed simp

lemma add_account_update_retains:
  assumes may: "case Option.bind details update_from_protocol of None \<Rightarrow> True
      | Some u \<Rightarrow> (case update_prefix u of None \<Rightarrow> True | Some p \<Rightarrow> may_update get_account apply_delta s u p)"
    and r: "add_account_update get_account apply_delta s details = Ok s' r"
  shows "retains s s' \<and> dom (ns_accounts s) \<union> set_option (Option.bind (Option.bind details update_from_protocol) update_prefix) \<subseteq> dom (ns_accounts s')"
proof (cases "Option.bind details update_from_protocol")
  case (Some u)
  with r obtain p where p: "update_prefix u = Some p" by (auto simp: add_account_update_def split: option.splits)
  have "retains s s' \<and> insert p (dom (ns_accounts s)) \<subseteq> dom (ns_accounts s')"
  proof (cases u)
    case (NewNetworkAccount acc)
    with may Some p have "ns_accounts s p = None" by simp
    with NewNetworkAccount r Some p show ?thesis by (auto simp: add_account_update_def retains_def)
  next
    case (NetworkAccountDelta d)
    with r Some p obtain s1 a where f: "fetch_account get_account s p = Ok s1 (Some a)" and
      d: "and_then (in_field (put_ntx_account s1 p) (add_delta apply_delta a d :: (ntx_account, ntx_error, unit) outcome))
        (\<lambda>s _. Ok (s\<lparr>ns_in_progress := ns_in_progress s - {p}\<rparr>) (Some p)) = Ok s' r"
      by (cases "fetch_account get_account s p") (auto simp: add_account_update_def split: option.splits)
    from d obtain a' where a': "add_delta apply_delta a d = (Ok a' () :: (ntx_account, ntx_error, unit) outcome)"
      and s': "s' = put_ntx_account s1 p a'\<lparr>ns_in_progress := ns_in_progress (put_ntx_account s1 p a') - {p}\<rparr>"
      by (auto simp: outcome_Ok_iffs)
    note f = fetch_account_retains[OF f]
    have "retains s1 (put_ntx_account s1 p a')" by (rule retains_put[OF f(2)[symmetric]]) (simp add: held_notes(1)[OF a'])
    moreover have "retains (put_ntx_account s1 p a') s'" unfolding s' by (rule retains_frame) simp_all
    ultimately have "retains s s'" using f(1) by (blast intro: retains_trans)
    moreover have "insert p (dom (ns_accounts s)) \<subseteq> dom (ns_accounts s')" unfolding s' using f(3) by (auto simp: put_ntx_account_def)
    ultimately show ?thesis by blast
  qed
  with Some p show ?thesis by simp
qed (use r in \<open>simp add: add_account_update_def\<close>)

text \<open>A new note is indexed, and held by its account because the account is known.\<close>

lemma add_network_notes_indexed:
  assumes "indexed s" and "\<And>n. n \<in> set ns \<Longrightarrow> \<exists>p. nn_account_prefix n = Some p
      \<and> (p \<in> dom (ns_accounts s) \<or> (\<forall>w w'. get_account w p \<noteq> (w', Inr None)))"
    and "distinct (map nn_nullifier ns)" and "\<forall>n \<in> set ns. ns_nullifier_idx s (nn_nullifier n) = None"
    and "add_network_notes get_account s i ns = Ok s' r"
  shows "indexed s'"
  using assms
proof (induction ns arbitrary: s i)
  case (Cons n ns)
  let ?k = "nn_nullifier n"
  from Cons.prems(2)[of n] obtain p where p: "nn_account_prefix n = Some p"
    "p \<in> dom (ns_accounts s) \<or> (\<forall>w w'. get_account w p \<noteq> (w', Inr None))" by auto
  let ?s = "s\<lparr>ns_nullifier_idx := (ns_nullifier_idx s)(?k \<mapsto> p)\<rparr>"
  from Cons.prems(5) p(1) obtain s1 found where f: "fetch_account get_account ?s p = Ok s1 found" and
    l: "add_network_notes get_account (case found of None \<Rightarrow> s1 | Some a \<Rightarrow> put_ntx_account s1 p (add_note a n))
      (i\<lparr>im_notes := insert ?k (im_notes i)\<rparr>) ns = Ok s' r"
    by (cases "fetch_account get_account ?s p") (auto simp: Let_def)
  have idx: "ns_nullifier_idx s1 = (ns_nullifier_idx s)(?k \<mapsto> p)"
    using f by (auto simp: fetch_account_def Let_def split: option.splits prod.splits sum.splits)
  note f = fetch_account_retains[OF f]
  have "found \<noteq> None" using f p(2) by auto
  then obtain a where a: "found = Some a" "ns_accounts s1 p = Some a" using f(2) by auto
  let ?s2 = "put_ntx_account s1 p (add_note a n)"
  have "indexed ?s2" unfolding indexed_def
  proof (intro allI impI)
    fix k q assume q: "ns_nullifier_idx ?s2 k = Some q"
    show "\<exists>a. ns_accounts ?s2 q = Some a \<and> k \<in> held a"
    proof (cases "k = ?k")
      case True
      with q idx show ?thesis by (simp add: put_ntx_account_def held_notes)
    next
      case False
      with q idx have "ns_nullifier_idx s k = Some q" by (simp add: put_ntx_account_def)
      moreover from this Cons.prems(1) obtain b where b: "ns_accounts s q = Some b" "k \<in> held b" by (auto simp: indexed_def)
      ultimately have "\<exists>a. ns_accounts s1 q = Some a \<and> k \<in> held a" using f(1) idx False unfolding retains_def by simp
      then show ?thesis using a(2) by (auto simp: put_ntx_account_def held_notes)
    qed
  qed
  moreover have "\<exists>p. nn_account_prefix m = Some p
      \<and> (p \<in> dom (ns_accounts ?s2) \<or> (\<forall>w w'. get_account w p \<noteq> (w', Inr None)))" if "m \<in> set ns" for m
    using Cons.prems(2)[of m] that f(3) by (auto simp: put_ntx_account_def)
  moreover have "\<forall>m \<in> set ns. ns_nullifier_idx ?s2 (nn_nullifier m) = None"
    using Cons.prems(3,4) by (auto simp: put_ntx_account_def idx image_iff)
  ultimately show ?case using Cons.IH Cons.prems(3) l a(1) by simp
qed simp

lemma add_nullifiers_retains:
  "(add_nullifiers s i ks :: ('w ntx_state, 'e, tx_impact) outcome) = Ok s' r \<Longrightarrow> retains s s'"
proof (induction ks arbitrary: s i)
  case (Cons k ks)
  show ?case
  proof (cases "ns_nullifier_idx s k")
    case (Some p)
    with Cons.prems obtain a a' where a: "ns_accounts s p = Some a" "add_nullifier a k = (Ok a' () :: (ntx_account, 'e, unit) outcome)"
      and l: "(add_nullifiers (put_ntx_account s p a') (i\<lparr>im_nullifiers := insert k (im_nullifiers i)\<rparr>) ks :: ('w ntx_state, 'e, tx_impact) outcome) = Ok s' r"
      by (auto simp: outcome_Ok_iffs split: option.splits)
    have "retains s (put_ntx_account s p a')" by (rule retains_put[OF a(1)]) (use held_notes(4)[OF a(2)] in blast)
    with Cons.IH[OF l] show ?thesis by (blast intro: retains_trans)
  qed (use Cons in simp)
qed simp

lemma commit_nullifiers_retains:
  "(commit_nullifiers s ks :: ('w ntx_state, 'e, unit) outcome) = Ok s' r \<Longrightarrow> retains s s'"
proof (induction ks arbitrary: s)
  case (Cons k ks)
  then obtain p where p: "ns_nullifier_idx s k = Some p" by (auto split: option.splits)
  let ?s = "s\<lparr>ns_nullifier_idx := (ns_nullifier_idx s)(k := None)\<rparr>"
  show ?case
  proof (cases "ns_accounts s p")
    case (Some a)
    with Cons.prems p obtain a' where a: "commit_nullifier a k = (Ok a' () :: (ntx_account, 'e, unit) outcome)"
      and l: "(commit_nullifiers (put_ntx_account ?s p a') ks :: ('w ntx_state, 'e, unit) outcome) = Ok s' r"
      by (auto simp: outcome_Ok_iffs Let_def)
    have "retains s (put_ntx_account ?s p a')" by (rule retains_put_drop[OF Some]) (rule held_notes(5)[OF a])
    with Cons.IH[OF l] show ?thesis by (blast intro: retains_trans)
  next
    case None
    with Cons.prems p have "(commit_nullifiers ?s ks :: ('w ntx_state, 'e, unit) outcome) = Ok s' r" by (simp add: Let_def)
    with retains_drop Cons.IH show ?thesis by (blast intro: retains_trans)
  qed
qed simp

lemma revert_loops_retain:
  fixes s s' :: "'w ntx_state"
  shows "(revert_notes s ks :: ('w ntx_state, 'e, unit) outcome) = Ok s' r \<Longrightarrow> retains s s'"
    and "(revert_nullifiers s ks :: ('w ntx_state, 'e, unit) outcome) = Ok s' r \<Longrightarrow> retains s s'"
proof -
  show "(revert_notes s ks :: ('w ntx_state, 'e, unit) outcome) = Ok s' r \<Longrightarrow> retains s s'"
  proof (induction ks arbitrary: s)
    case (Cons k ks)
    then obtain p where p: "ns_nullifier_idx s k = Some p" by (auto split: option.splits)
    let ?s = "s\<lparr>ns_nullifier_idx := (ns_nullifier_idx s)(k := None)\<rparr>"
    let ?t = "case ns_accounts ?s p of None \<Rightarrow> ?s | Some a \<Rightarrow> put_ntx_account ?s p (revert_note a k)"
    have "retains s ?t" by (auto intro: retains_drop retains_put_drop simp: held_notes split: option.split)
    moreover from Cons.prems p have "(revert_notes ?t ks :: ('w ntx_state, 'e, unit) outcome) = Ok s' r" by (simp add: Let_def)
    ultimately show ?case using Cons.IH by (blast intro: retains_trans)
  qed simp
  show "(revert_nullifiers s ks :: ('w ntx_state, 'e, unit) outcome) = Ok s' r \<Longrightarrow> retains s s'"
  proof (induction ks arbitrary: s)
    case (Cons k ks)
    then obtain p where p: "ns_nullifier_idx s k = Some p" by (auto split: option.splits)
    let ?t = "case ns_accounts s p of None \<Rightarrow> s | Some a \<Rightarrow> put_ntx_account s p (revert_nullifier a k)"
    have "retains s ?t" using retains_put[OF _ held_notes(8)] by (auto split: option.split)
    moreover from Cons.prems p have "(revert_nullifiers ?t ks :: ('w ntx_state, 'e, unit) outcome) = Ok s' r" by simp
    ultimately show ?case using Cons.IH by (blast intro: retains_trans)
  qed simp
qed

section \<open>Transactions\<close>

lemma ntx_add_transaction_indexed:
  fixes s s' :: "'w ntx_state"
  assumes ix: "indexed s" and may: "may_add_tx get_account apply_delta s t nullifiers notes details"
    and r: "ntx_add_transaction get_account apply_delta s t nullifiers notes details = Ok s' r"
  shows "indexed s'"
proof (cases "ns_inflight_txs s t")
  case None
  with r obtain s1 prefix s2 i s3 i' where
    1: "add_account_update get_account apply_delta s details = Ok s1 prefix" and
    2: "add_network_notes get_account s1 (impact_default\<lparr>im_account_delta := prefix\<rparr>) notes = Ok s2 i" and
    3: "add_nullifiers s2 i nullifiers = (Ok s3 i' :: ('w ntx_state, ntx_error, tx_impact) outcome)" and
    4: "(if impact_is_empty i' then Ok s3 () else Ok (s3\<lparr>ns_inflight_txs := (ns_inflight_txs s3)(t \<mapsto> i')\<rparr>) ()) = (Ok s' r :: ('w ntx_state, ntx_error, unit) outcome)"
    by (auto simp: ntx_add_transaction_def and_then_eq_Ok domIff)
  note m = may[unfolded may_add_tx_def] None
  from add_account_update_retains[OF _ 1] m
  have s1: "retains s s1" "dom (ns_accounts s) \<union> set_option (Option.bind (Option.bind details update_from_protocol) update_prefix) \<subseteq> dom (ns_accounts s1)"
    by (simp_all add: domIff)
  have "indexed s2"
  proof (rule add_network_notes_indexed[OF retains_indexed[OF s1(1) ix] _ _ _ 2])
    show "distinct (map nn_nullifier notes)" using m by (simp add: domIff)
    show "\<forall>n \<in> set notes. ns_nullifier_idx s1 (nn_nullifier n) = None"
      using m s1(1) unfolding retains_def by (simp add: domIff) (metis option.exhaust option.distinct(1))
    show "\<exists>p. nn_account_prefix n = Some p \<and> (p \<in> dom (ns_accounts s1) \<or> (\<forall>w w'. get_account w p \<noteq> (w', Inr None)))"
      if "n \<in> set notes" for n
    proof -
      from m that obtain p where p: "nn_account_prefix n = Some p" "known_account get_account s details p" by (auto simp: domIff)
      then show ?thesis using s1(2) unfolding known_account_def by blast
    qed
  qed
  then have "indexed s3" by (rule retains_indexed[OF add_nullifiers_retains[OF 3]])
  moreover have "retains s3 s'" using 4 by (auto split: if_splits intro: retains_frame)
  ultimately show ?thesis using retains_indexed by blast
qed (use r ix in \<open>auto simp: ntx_add_transaction_def domIff split: if_splits\<close>)

lemma commit_transaction_retains:
  fixes s s' :: "'w ntx_state"
  assumes r: "(commit_transaction s t :: ('w ntx_state, 'e, unit) outcome) = Ok s' r"
  shows "retains s s'"
proof (cases "ns_inflight_txs s t")
  case (Some i)
  let ?s = "s\<lparr>ns_inflight_txs := (ns_inflight_txs s)(t := None)\<rparr>"
  from r Some obtain s1 where
    1: "(case im_account_delta i of None \<Rightarrow> Ok ?s () | Some p \<Rightarrow> (case ns_accounts ?s p of None \<Rightarrow> Panic
      | Some a \<Rightarrow> in_field (put_ntx_account ?s p) (commit_delta a))) = (Ok s1 () :: ('w ntx_state, 'e, unit) outcome)" and
    2: "commit_nullifiers s1 (sorted_list_of_set (im_nullifiers i)) = (Ok s' r :: ('w ntx_state, 'e, unit) outcome)"
    by (auto simp: commit_transaction_def Let_def and_then_eq_Ok)
  have s: "retains s ?s" by (rule retains_frame) simp_all
  have "retains ?s s1"
  proof (cases "im_account_delta i")
    case (Some p)
    with 1 obtain a a' where a: "ns_accounts ?s p = Some a" "commit_delta a = (Ok a' () :: (ntx_account, 'e, unit) outcome)"
      "s1 = put_ntx_account ?s p a'" by (auto simp: outcome_Ok_iffs split: option.splits)
    show ?thesis unfolding a(3) by (rule retains_put[OF a(1)]) (simp add: held_notes(2)[OF a(2)])
  qed (use 1 in simp)
  with s commit_nullifiers_retains[OF 2] show ?thesis by (blast intro: retains_trans)
qed (use r in \<open>simp add: commit_transaction_def\<close>)

lemma revert_transaction_retains:
  fixes s s' :: "'w ntx_state"
  assumes r: "(revert_transaction s t :: ('w ntx_state, 'e, unit) outcome) = Ok s' r" and may: "may_revert s t"
  shows "retains s s'"
proof (cases "ns_inflight_txs s t")
  case (Some i)
  let ?s = "s\<lparr>ns_inflight_txs := (ns_inflight_txs s)(t := None)\<rparr>"
  from r Some obtain s1 s2 where
    1: "(case im_account_delta i of None \<Rightarrow> Ok ?s () | Some p \<Rightarrow> (case ns_accounts ?s p of None \<Rightarrow> Panic
      | Some a \<Rightarrow> (case revert_delta a of
           Ok a' created \<Rightarrow> Ok (let s = put_ntx_account ?s p a' in if created then s\<lparr>ns_accounts := (ns_accounts s)(p := None)\<rparr> else s) ()
         | Err _ e \<Rightarrow> Err ?s e | Panic \<Rightarrow> Panic | Diverge \<Rightarrow> Diverge))) = (Ok s1 () :: ('w ntx_state, 'e, unit) outcome)" and
    2: "revert_notes s1 (sorted_list_of_set (im_notes i)) = (Ok s2 () :: ('w ntx_state, 'e, unit) outcome)" and
    3: "revert_nullifiers s2 (sorted_list_of_set (im_nullifiers i)) = (Ok s' r :: ('w ntx_state, 'e, unit) outcome)"
    by (auto simp: revert_transaction_def Let_def and_then_eq_Ok)
  have s: "retains s ?s" by (rule retains_frame) simp_all
  have "retains ?s s1"
  proof (cases "im_account_delta i")
    case (Some p)
    with 1 obtain a a' created where a: "ns_accounts ?s p = Some a" "revert_delta a = (Ok a' created :: (ntx_account, 'e, bool) outcome)"
      "s1 = (let s = put_ntx_account ?s p a' in if created then s\<lparr>ns_accounts := (ns_accounts s)(p := None)\<rparr> else s)"
      by (auto split: option.splits outcome.splits)
    have "na_committed a \<noteq> None \<or> length (na_inflight a) > 1"
      using may \<open>ns_inflight_txs s t = Some i\<close> Some a(1) by (simp add: may_revert_def)
    then have "\<not> created" using a(2) by (cases "na_inflight a") (auto simp: revert_delta_def Let_def split: if_splits)
    then have s1: "s1 = put_ntx_account ?s p a'" using a(3) by simp
    show ?thesis unfolding s1 by (rule retains_put[OF a(1)]) (simp add: held_notes(3)[OF a(2)])
  qed (use 1 in simp)
  with s revert_loops_retain(1)[OF 2] revert_loops_retain(2)[OF 3] show ?thesis by (blast intro: retains_trans)
qed (use r in \<open>simp add: revert_transaction_def\<close>)

end
