(* ===== verification/Ntx_Properties.thy ===== *)
theory Ntx_Properties
  imports Ntx_Index
begin

text \<open>
  The network transaction builder as a whole: what a selection does, the builder's steps from the
  loaded state, and its properties.
\<close>

section \<open>Selection\<close>

definition selectable :: "'w ntx_state \<Rightarrow> network_account_prefix \<Rightarrow> bool" where
  "selectable s p \<longleftrightarrow> p \<notin> ns_in_progress s
     \<and> (case ns_accounts s p of None \<Rightarrow> False | Some a \<Rightarrow> na_available_notes a \<noteq> [])"

definition prunable :: "'w ntx_state \<Rightarrow> network_account_prefix \<Rightarrow> bool" where
  "prunable s p \<longleftrightarrow> p \<notin> ns_in_progress s
     \<and> (case ns_accounts s p of None \<Rightarrow> False | Some a \<Rightarrow> na_is_empty a)"

text \<open>The accounts of a list that are empty and not in progress are dropped; the rest stays.\<close>

definition pruned :: "'w ntx_state \<Rightarrow> network_account_prefix list \<Rightarrow> network_account_prefix \<rightharpoonup> ntx_account" where
  "pruned s ps = (\<lambda>p. if p \<in> set ps \<and> prunable s p then None else ns_accounts s p)"

lemma pruned_Nil [simp]: "pruned s [] = ns_accounts s"
  by (simp add: pruned_def)

lemma selectable_cong:
  "ns_in_progress s' = ns_in_progress s \<Longrightarrow> ns_accounts s' p = ns_accounts s p \<Longrightarrow>
     selectable s' p = selectable s p \<and> prunable s' p = prunable s p"
  by (simp add: selectable_def prunable_def)

lemma select_loop_skips:
  fixes s :: "'w ntx_state"
  assumes "ns_queue s = before @ rest" and "distinct (before @ rest)" and "set before \<subseteq> dom (ns_accounts s)"
    and "\<forall>q \<in> set before. \<not> selectable s q" and "limit > 0"
  shows "(select_candidate_loop (length before + k) limit s :: ('w ntx_state, 'e, tx_candidate option) outcome) =
    select_candidate_loop k limit
      (s\<lparr>ns_accounts := pruned s before, ns_queue := rest @ filter (\<lambda>q. \<not> prunable s q) before\<rparr>)"
  using assms
proof (induction before arbitrary: s rest)
  case (Cons c before)
  then obtain a where a: "ns_accounts s c = Some a" by auto
  let ?s1 = "s\<lparr>ns_queue := (before @ rest) @ [c]\<rparr>"
  have q: "ns_queue s = c # before @ rest" using Cons.prems(1) by simp
  have not_sel: "\<not> selectable s c" using Cons.prems(4) by simp
  have c: "c \<notin> set before" "c \<notin> set rest" "distinct (before @ rest)" using Cons.prems(2) by auto
  show ?case
  proof (cases "prunable s c")
    case True
    let ?s = "?s1\<lparr>ns_accounts := (ns_accounts s)(c := None), ns_queue := before @ rest\<rparr>"
    have "(select_candidate_loop (Suc (length before + k)) limit s :: ('w ntx_state, 'e, tx_candidate option) outcome) = select_candidate_loop (length before + k) limit ?s"
      using True q a by (simp add: prunable_def Let_def)
    also have "\<dots> = select_candidate_loop k limit
      (?s\<lparr>ns_accounts := pruned ?s before, ns_queue := rest @ filter (\<lambda>q. \<not> prunable ?s q) before\<rparr>)"
    proof (rule Cons.IH)
      show "\<forall>q \<in> set before. \<not> selectable ?s q"
      proof
        fix q assume q: "q \<in> set before"
        with c(1) have "ns_accounts ?s q = ns_accounts s q" by auto
        then have "selectable ?s q = selectable s q" by (intro selectable_cong[THEN conjunct1]) simp_all
        with q Cons.prems(4) show "\<not> selectable ?s q" by simp
      qed
    qed (use Cons.prems(3,5) c in auto)
    also have "?s\<lparr>ns_accounts := pruned ?s before, ns_queue := rest @ filter (\<lambda>q. \<not> prunable ?s q) before\<rparr> =
      s\<lparr>ns_accounts := pruned s (c # before), ns_queue := rest @ filter (\<lambda>q. \<not> prunable s q) (c # before)\<rparr>"
    proof -
      have "prunable ?s q = prunable s q" if "q \<in> set before" for q
        using that c(1) by (intro selectable_cong[THEN conjunct2]) auto
      then have "filter (\<lambda>q. \<not> prunable ?s q) before = filter (\<lambda>q. \<not> prunable s q) before"
        "pruned ?s before = pruned s (c # before)"
        using True by (auto intro: filter_cong simp: pruned_def fun_eq_iff)
      then show ?thesis using True by simp
    qed
    finally show ?thesis by simp
  next
    case False
    let ?s = "s\<lparr>ns_queue := before @ (rest @ [c])\<rparr>"
    have same: "selectable ?s q = selectable s q" "prunable ?s q = prunable s q" for q
      by (simp_all add: selectable_def prunable_def)
    have "(select_candidate_loop (Suc (length before + k)) limit s :: ('w ntx_state, 'e, tx_candidate option) outcome) = select_candidate_loop (length before + k) limit ?s"
      using False not_sel q a \<open>limit > 0\<close> by (auto simp: prunable_def selectable_def na_notes_def Let_def)
    also have "\<dots> = select_candidate_loop k limit
      (?s\<lparr>ns_accounts := pruned ?s before, ns_queue := (rest @ [c]) @ filter (\<lambda>q. \<not> prunable ?s q) before\<rparr>)"
      by (rule Cons.IH) (use Cons.prems c same in auto)
    also have "?s\<lparr>ns_accounts := pruned ?s before, ns_queue := (rest @ [c]) @ filter (\<lambda>q. \<not> prunable ?s q) before\<rparr> =
      s\<lparr>ns_accounts := pruned s (c # before), ns_queue := rest @ filter (\<lambda>q. \<not> prunable s q) (c # before)\<rparr>"
      using False by (auto simp: same pruned_def fun_eq_iff)
    finally show ?thesis by simp
  qed
qed (simp add: pruned_def)

lemma select_candidate_None:
  assumes "ntx_inv s" and "limit > 0" and "\<forall>q \<in> set (ns_queue s). \<not> selectable s q"
  shows "select_candidate s limit =
    Ok (s\<lparr>ns_accounts := pruned s (ns_queue s), ns_queue := filter (\<lambda>q. \<not> prunable s q) (ns_queue s)\<rparr>) None"
  using select_loop_skips[of s "ns_queue s" "[]" limit 0] assms ntx_coreD(1,2)[of s "ns_inflight_txs s"]
  by (simp add: ntx_inv_def select_candidate_def)

lemma select_candidate_Some:
  fixes s :: "'w ntx_state"
  assumes inv: "ntx_inv s" and limit: "limit > 0"
    and q: "ns_queue s = before @ p # rest" "\<forall>q \<in> set before. \<not> selectable s q" "selectable s p"
    and a: "ns_accounts s p = Some a"
  obtains acc where "latest_account a = Some acc"
    and "(select_candidate s limit :: ('w ntx_state, 'e, tx_candidate option) outcome) = Ok (s\<lparr>ns_accounts := pruned s before,
        ns_queue := rest @ filter (\<lambda>q. \<not> prunable s q) before @ [p], ns_in_progress := insert p (ns_in_progress s)\<rparr>)
      (Some \<lparr>tc_account = acc, tc_notes = take limit (na_notes a)\<rparr>)"
proof -
  have core: "ntx_core s (ns_inflight_txs s)" using inv by (simp add: ntx_inv_def)
  note Q = ntx_coreD(1,2)[OF core]
  from account_ok_latest[OF ntx_coreD(3)[OF core a]] obtain acc where acc: "latest_account a = Some acc" by blast
  let ?s = "s\<lparr>ns_accounts := pruned s before, ns_queue := (p # rest) @ filter (\<lambda>q. \<not> prunable s q) before\<rparr>"
  have "(select_candidate s limit :: ('w ntx_state, 'e, tx_candidate option) outcome) = select_candidate_loop (length before + Suc (length rest)) limit s"
    using q(1) by (simp add: select_candidate_def)
  also have "\<dots> = select_candidate_loop (Suc (length rest)) limit ?s"
    by (rule select_loop_skips[OF q(1)]) (use Q q limit in auto)
  also have "\<dots> = Ok (s\<lparr>ns_accounts := pruned s before,
        ns_queue := rest @ filter (\<lambda>q. \<not> prunable s q) before @ [p], ns_in_progress := insert p (ns_in_progress s)\<rparr>)
      (Some \<lparr>tc_account = acc, tc_notes = take limit (na_notes a)\<rparr>)"
  proof -
    have "p \<notin> set before" using Q(1) q(1) by simp
    then have "ns_accounts ?s p = Some a" using a by (simp add: pruned_def)
    moreover have "p \<notin> ns_in_progress s" "na_available_notes a \<noteq> []" using q(3) a by (simp_all add: selectable_def)
    moreover from this(2) limit have "take limit (na_notes a) \<noteq> []" "\<not> na_is_empty a" by (auto simp: na_notes_def na_is_empty_def)
    ultimately show ?thesis using acc by (simp add: Let_def)
  qed
  finally show ?thesis using acc that by blast
qed

lemma select_candidate_inv:
  fixes s :: "'w ntx_state"
  assumes inv: "ntx_inv s" and limit: "limit > 0"
  shows "ends_well (\<lambda>s' _. ntx_inv s') (select_candidate s limit :: ('w ntx_state, 'e, tx_candidate option) outcome)"
proof -
  let ?T = "ns_inflight_txs s"
  have core: "ntx_core s ?T" using inv by (simp add: ntx_inv_def)
  have empty: "num_updates s p = 0 \<and> nullified a = {}" if "ns_accounts s p = Some a" "prunable s p" for p a
    using that by (simp add: prunable_def na_is_empty_def num_updates_def nullified_def)
  have keep: "ntx_core (s\<lparr>ns_accounts := pruned s ps, ns_queue := qs\<rparr>) ?T"
    if ps: "set ps \<subseteq> set (ns_queue s)" and qs: "distinct qs" "set qs = dom (pruned s ps)" for ps qs
  proof (rule ntx_coreI)
    let ?s = "s\<lparr>ns_accounts := pruned s ps, ns_queue := qs\<rparr>"
    show "distinct (ns_queue ?s)" "set (ns_queue ?s) = dom (ns_accounts ?s)" using qs by simp_all
    have old: "ns_accounts s p = Some a" if "ns_accounts ?s p = Some a" for p a
      using that by (simp add: pruned_def split: if_splits)
    show "ntx_account_ok a" if "ns_accounts ?s p = Some a" for p a using ntx_coreD(3)[OF core old[OF that]] .
    show "finite (dom ?T)" "impacts_disjoint ?T" using core by (rule ntx_coreD)+
    show "num_updates ?s p = card (updates_of ?T p)" for p
      using ntx_coreD(5)[OF core, of p] empty by (cases "ns_accounts s p") (auto simp: num_updates_def pruned_def)
    show "impact_ok ?s i" if "?T t = Some i" for t i
      unfolding impact_ok_def
    proof (intro conjI ballI)
      note iok = ntx_coreD(6)[OF core that, unfolded impact_ok_def]
      show "finite (im_notes i)" "finite (im_nullifiers i)" using iok by simp_all
      show "ns_nullifier_idx ?s k \<noteq> None" if "k \<in> im_notes i" for k using iok that by simp
      fix k assume "k \<in> im_nullifiers i"
      with iok obtain p a where "ns_nullifier_idx s k = Some p" "ns_accounts s p = Some a" "k \<in> nullified a" by blast
      with empty[of p a] show "\<exists>p a. ns_nullifier_idx ?s k = Some p \<and> ns_accounts ?s p = Some a \<and> k \<in> nullified a"
        by (intro exI[of _ p] exI[of _ a]) (auto simp: pruned_def)
    qed
    show "nullified_ok ?s ?T"
    proof (rule nullified_okI)
      fix p a k assume "ns_accounts ?s p = Some a" "k \<in> nullified a"
      from nullified_okD[OF ntx_coreD(8)[OF core] old[OF this(1)] this(2)]
      show "ns_nullifier_idx ?s k = Some p \<and> (\<exists>t i. ?T t = Some i \<and> k \<in> im_nullifiers i)" by simp
    qed
  qed
  note Q = ntx_coreD(1,2)[OF core]
  show ?thesis
  proof (cases "\<exists>p \<in> set (ns_queue s). selectable s p")
    case True
    then obtain before p rest where q: "ns_queue s = before @ p # rest" "selectable s p" "\<forall>q \<in> set before. \<not> selectable s q"
      by (rule split_list_first_propE) blast
    obtain a where a: "ns_accounts s p = Some a" using q(2) by (auto simp: selectable_def split: option.splits)
    from select_candidate_Some[OF inv limit q(1,3,2) a] obtain acc where sel:
      "(select_candidate s limit :: ('w ntx_state, 'e, tx_candidate option) outcome) = Ok (s\<lparr>ns_accounts := pruned s before,
        ns_queue := rest @ filter (\<lambda>q. \<not> prunable s q) before @ [p], ns_in_progress := insert p (ns_in_progress s)\<rparr>)
       (Some \<lparr>tc_account = acc, tc_notes = take limit (na_notes a)\<rparr>)" by blast
    have "ntx_core (s\<lparr>ns_accounts := pruned s before, ns_queue := rest @ filter (\<lambda>q. \<not> prunable s q) before @ [p]\<rparr>) ?T"
    proof (rule keep)
      show "set (rest @ filter (\<lambda>q. \<not> prunable s q) before @ [p]) = dom (pruned s before)"
        using Q q(1) by (auto simp: pruned_def dom_def split: if_splits)
    qed (use Q q(1) in auto)
    then have "ntx_core (s\<lparr>ns_accounts := pruned s before, ns_queue := rest @ filter (\<lambda>q. \<not> prunable s q) before @ [p]\<rparr>
        \<lparr>ns_in_progress := insert p (ns_in_progress s)\<rparr>) ?T" by (simp only: ntx_core_frame)
    then show ?thesis by (simp add: sel ntx_inv_def)
  next
    case False
    have "ntx_core (s\<lparr>ns_accounts := pruned s (ns_queue s), ns_queue := filter (\<lambda>q. \<not> prunable s q) (ns_queue s)\<rparr>) ?T"
    proof (rule keep)
      show "set (filter (\<lambda>q. \<not> prunable s q) (ns_queue s)) = dom (pruned s (ns_queue s))"
        using Q by (auto simp: pruned_def dom_def split: if_splits)
    qed (use Q in auto)
    then show ?thesis using False by (simp add: select_candidate_None[OF inv limit] ntx_inv_def)
  qed
qed

lemma select_candidate_retains:
  fixes s :: "'w ntx_state"
  assumes inv: "ntx_inv s" and limit: "limit > 0"
    and r: "(select_candidate s limit :: ('w ntx_state, 'e, tx_candidate option) outcome) = Ok s' r"
  shows "retains s s'"
proof -
  have keep: "retains s (s\<lparr>ns_accounts := pruned s ps, ns_queue := qs, ns_in_progress := ip\<rparr>)" for ps qs ip
  proof (rule retainsI)
    fix p a k assume a: "ns_accounts s p = Some a" "k \<in> held a"
    then have "\<not> prunable s p" by (auto simp: prunable_def na_is_empty_def held_def note_sets)
    with a show "\<exists>a'. ns_accounts (s\<lparr>ns_accounts := pruned s ps, ns_queue := qs, ns_in_progress := ip\<rparr>) p = Some a' \<and> k \<in> held a'"
      by (simp add: pruned_def)
  qed simp
  show ?thesis
  proof (cases "\<exists>p \<in> set (ns_queue s). selectable s p")
    case True
    then obtain before p rest where q: "ns_queue s = before @ p # rest" "selectable s p" "\<forall>q \<in> set before. \<not> selectable s q"
      by (rule split_list_first_propE) blast
    then obtain a where a: "ns_accounts s p = Some a" by (auto simp: selectable_def split: option.splits)
    from select_candidate_Some[OF inv limit q(1,3,2) a, where ?'e = 'e] r keep show ?thesis by (metis outcome.inject(1))
  next
    case False
    then have "(select_candidate s limit :: ('w ntx_state, 'e, tx_candidate option) outcome) =
      Ok (s\<lparr>ns_accounts := pruned s (ns_queue s), ns_queue := filter (\<lambda>q. \<not> prunable s q) (ns_queue s)\<rparr>) None"
      by (intro select_candidate_None[OF inv limit]) blast
    with r have "s' = s\<lparr>ns_accounts := pruned s (ns_queue s), ns_queue := filter (\<lambda>q. \<not> prunable s q) (ns_queue s)\<rparr>" by simp
    then have "s' = s\<lparr>ns_accounts := pruned s (ns_queue s), ns_queue := filter (\<lambda>q. \<not> prunable s q) (ns_queue s),
      ns_in_progress := ns_in_progress s\<rparr>" by simp
    then show ?thesis by (simp only: keep)
  qed
qed

section \<open>The steps of the builder\<close>

text \<open>
  A step is a call the builder's loop makes (crates/ntx-builder/src/builder/mod.rs): an event of the
  mempool, the selection of a candidate, or the failure of its transaction.
\<close>

datatype ntx_op = MempoolEvent mempool_event | SelectCandidate nat | CandidateFailed network_account_prefix

fun run_ntx_op :: "'w account_query \<Rightarrow> (account \<Rightarrow> account_delta \<Rightarrow> account option) \<Rightarrow> 'w ntx_state \<Rightarrow> ntx_op \<Rightarrow>
    ('w ntx_state, ntx_error, tx_candidate option) outcome" where
  "run_ntx_op get_account apply_delta s (MempoolEvent ev) =
     and_then (mempool_update get_account apply_delta s ev) (\<lambda>s _. Ok s None)"
| "run_ntx_op get_account apply_delta s (SelectCandidate limit) = select_candidate s limit"
| "run_ntx_op get_account apply_delta s (CandidateFailed p) = Ok (candidate_failed s p) None"

text \<open>
  What is asked of the events, besides \<open>may_add_tx\<close> for an added transaction: a transaction is committed after
  the transactions that created the notes it consumes, and reverted before them; and not all updates of an
  account that was never committed are reverted, that is, its creation is not taken back.
\<close>

fun commits_in_order :: "'w ntx_state \<Rightarrow> transaction_id list \<Rightarrow> bool" where
  "commits_in_order s [] = True"
| "commits_in_order s (t # ts) \<longleftrightarrow> may_commit s t
     \<and> (case commit_transaction s t :: ('w ntx_state, ntx_error, unit) outcome of Ok s' _ \<Rightarrow> commits_in_order s' ts | _ \<Rightarrow> True)"

fun reverts_in_order :: "'w ntx_state \<Rightarrow> transaction_id list \<Rightarrow> bool" where
  "reverts_in_order s [] = True"
| "reverts_in_order s (t # ts) \<longleftrightarrow> may_revert s t
     \<and> (case revert_transaction s t :: ('w ntx_state, ntx_error, unit) outcome of Ok s' _ \<Rightarrow> reverts_in_order s' ts | _ \<Rightarrow> True)"

fun in_order :: "'w account_query \<Rightarrow> (account \<Rightarrow> account_delta \<Rightarrow> account option) \<Rightarrow> 'w ntx_state \<Rightarrow> ntx_op \<Rightarrow> bool" where
  "in_order get_account apply_delta s (MempoolEvent (TransactionAdded t nullifiers notes details)) =
     may_add_tx get_account apply_delta s t nullifiers notes details"
| "in_order get_account apply_delta s (MempoolEvent (BlockCommitted header txs)) = commits_in_order s txs"
| "in_order get_account apply_delta s (MempoolEvent (TransactionsReverted txs)) =
     reverts_in_order s (sorted_list_of_set txs)"
| "in_order get_account apply_delta s (SelectCandidate limit) \<longleftrightarrow> limit > 0"
| "in_order get_account apply_delta s (CandidateFailed p) = True"

inductive ntx_reachable :: "'w account_query \<Rightarrow> 'w notes_query \<Rightarrow> (account \<Rightarrow> account_delta \<Rightarrow> account option) \<Rightarrow>
    'w ntx_state \<Rightarrow> bool"
  for get_account get_notes apply_delta where
  loaded: "load_state get_account get_notes w = Ok s () \<Longrightarrow> ntx_reachable get_account get_notes apply_delta s"
| step: "ntx_reachable get_account get_notes apply_delta s \<Longrightarrow> in_order get_account apply_delta s op \<Longrightarrow>
    run_ntx_op get_account apply_delta s op = Ok s' r \<Longrightarrow> ntx_reachable get_account get_notes apply_delta s'"

text \<open>Every note the store returns is addressed to a network account.\<close>

definition network_notes_only :: "'w notes_query \<Rightarrow> bool" where
  "network_notes_only get_notes \<longleftrightarrow>
     (\<forall>w w' ns. get_notes w = (w', Inr ns) \<longrightarrow> (\<forall>n \<in> set ns. nn_account_prefix n \<noteq> None))"

lemma ntx_default_core: "ntx_core (ntx_default w) (\<lambda>_. None)"
  by (rule ntx_coreI)
    (simp_all add: ntx_default_def num_updates_def updates_of_def impacts_disjoint_def nullified_ok_def)

lemma load_state_inv:
  assumes "network_notes_only get_notes"
  shows "ends_well (\<lambda>s _. ntx_inv s) (load_state get_account get_notes w)"
proof (cases "get_notes w")
  case (Pair w' r)
  show ?thesis
  proof (cases r)
    case (Inr ns)
    have "ends_well (\<lambda>s' _. ntx_core s' (\<lambda>_. None) \<and> ns_inflight_txs s' = ns_inflight_txs (ntx_default w'))
      (load_notes get_account (ntx_default w') ns)"
      by (rule load_notes_core[OF ntx_default_core]) (use assms Pair Inr in \<open>auto simp: network_notes_only_def\<close>)
    then show ?thesis
      using Pair Inr by (auto simp: load_state_def ntx_inv_def ntx_default_def elim!: ends_well_mono)
  qed (simp add: load_state_def Pair)
qed

text \<open>The consistency of the state, with its index.\<close>

definition ntx_safe :: "'w ntx_state \<Rightarrow> bool" where
  "ntx_safe s \<longleftrightarrow> ntx_inv s \<and> indexed s"

lemma ends_well_safe:
  assumes "ends_well (\<lambda>s' _. ntx_inv s') r" and "\<And>s' a. r = Ok s' a \<Longrightarrow> retains s s'" and "indexed s"
  shows "ends_well (\<lambda>s' _. ntx_safe s') r"
  using assms by (cases r) (auto simp: ntx_safe_def intro: retains_indexed)

lemma load_state_safe:
  assumes "network_notes_only get_notes"
  shows "ends_well (\<lambda>s _. ntx_safe s) (load_state get_account get_notes w)"
proof (cases "load_state get_account get_notes w")
  case (Ok s r)
  then obtain w' ns where "load_notes get_account (ntx_default w') ns = Ok s r"
    by (auto simp: load_state_def split: prod.splits sum.splits)
  from load_notes_unindexed[OF this] have "indexed s" by (simp add: indexed_def ntx_default_def)
  with Ok load_state_inv[OF assms, of get_account w] show ?thesis by (simp add: ntx_safe_def)
qed (use load_state_inv[OF assms, of get_account w] in simp_all)

lemma commits_safe:
  fixes s :: "'w ntx_state"
  shows "ntx_safe s \<Longrightarrow> commits_in_order s ts \<Longrightarrow>
    ends_well (\<lambda>s' _. ntx_safe s') (commit_transactions_of s ts :: ('w ntx_state, ntx_error, unit) outcome)"
proof (induction ts arbitrary: s)
  case (Cons t ts)
  then have "ends_well (\<lambda>s' _. ntx_inv s') (commit_transaction s t :: ('w ntx_state, ntx_error, unit) outcome)"
    by (intro commit_transaction_inv) (simp_all add: ntx_safe_def)
  with Cons show ?case
    by (cases "commit_transaction s t :: ('w ntx_state, ntx_error, unit) outcome")
      (auto simp: ntx_safe_def dest!: commit_transaction_retains retains_indexed)
qed simp

lemma reverts_safe:
  fixes s :: "'w ntx_state"
  shows "ntx_safe s \<Longrightarrow> reverts_in_order s ts \<Longrightarrow>
    ends_well (\<lambda>s' _. ntx_safe s') (revert_transactions_of s ts :: ('w ntx_state, ntx_error, unit) outcome)"
proof (induction ts arbitrary: s)
  case (Cons t ts)
  then have "ends_well (\<lambda>s' _. ntx_inv s') (revert_transaction s t :: ('w ntx_state, ntx_error, unit) outcome)"
    by (intro revert_transaction_inv) (simp_all add: ntx_safe_def)
  with Cons show ?case
    by (cases "revert_transaction s t :: ('w ntx_state, ntx_error, unit) outcome")
      (auto simp: ntx_safe_def dest!: revert_transaction_retains retains_indexed)
qed simp

lemma add_safe:
  assumes "ntx_safe s" and "may_add_tx get_account apply_delta s t nullifiers notes details"
  shows "ends_well (\<lambda>s' _. ntx_safe s') (ntx_add_transaction get_account apply_delta s t nullifiers notes details)"
  using ntx_add_transaction_inv[OF _ _ assms(2)] ntx_add_transaction_indexed[OF _ assms(2)] assms(1)
  by (cases "ntx_add_transaction get_account apply_delta s t nullifiers notes details") (auto simp: ntx_safe_def)

lemma run_ntx_op_safe:
  assumes safe: "ntx_safe s" and ord: "in_order get_account apply_delta s op"
  shows "ends_well (\<lambda>s' _. ntx_safe s') (run_ntx_op get_account apply_delta s op)"
proof (cases op)
  case (MempoolEvent ev)
  have "ends_well (\<lambda>s' _. ntx_safe s') (mempool_update get_account apply_delta s ev)"
    using safe ord MempoolEvent
    by (cases ev) (auto intro: add_safe commits_safe reverts_safe)
  then show ?thesis unfolding MempoolEvent run_ntx_op.simps by (rule ends_well_and_then) simp
next
  case (SelectCandidate limit)
  with safe ord have s: "ntx_inv s" "limit > 0" "indexed s" by (simp_all add: ntx_safe_def)
  show ?thesis unfolding SelectCandidate run_ntx_op.simps
  proof (rule ends_well_safe)
    show "ends_well (\<lambda>s' _. ntx_inv s') (select_candidate s limit :: ('a ntx_state, ntx_error, tx_candidate option) outcome)"
      by (rule select_candidate_inv[OF s(1,2)])
    show "retains s s'" if "(select_candidate s limit :: ('a ntx_state, ntx_error, tx_candidate option) outcome) = Ok s' r" for s' r
      by (rule select_candidate_retains[OF s(1,2) that])
  qed (rule s(3))
next
  case (CandidateFailed p)
  then show ?thesis using safe by (simp add: candidate_failed_def ntx_safe_def ntx_inv_def indexed_def)
qed

lemma ntx_reachable_safe:
  assumes "network_notes_only get_notes"
  shows "ntx_reachable get_account get_notes apply_delta s \<Longrightarrow> ntx_safe s"
proof (induction rule: ntx_reachable.induct)
  case (loaded w s)
  with load_state_safe[OF assms, of get_account w] show ?case by simp
next
  case (step s op s' r)
  with run_ntx_op_safe[of s get_account apply_delta op] show ?case by simp
qed

text \<open>Only the store makes a handler fail, and only when a transaction is added.\<close>

definition infallible :: "('s, 'e, 'a) outcome \<Rightarrow> bool" where
  "infallible r = (case r of Ok s a \<Rightarrow> True | Err s e \<Rightarrow> False | Panic \<Rightarrow> True | Diverge \<Rightarrow> True)"

lemma infallible_simps [simp]:
  "infallible (Ok s a)" "\<not> infallible (Err s e)" "infallible Panic" "infallible Diverge"
  by (simp_all add: infallible_def)

lemma infallible_and_then: "infallible r \<Longrightarrow> (\<And>s a. infallible (f s a)) \<Longrightarrow> infallible (and_then r f)"
  by (cases r) simp_all

lemma infallible_loops:
  "infallible (commit_nullifiers s ks)" "infallible (revert_notes s ks)" "infallible (revert_nullifiers s ks)"
proof -
  show "infallible (commit_nullifiers s ks)"
    by (induction ks arbitrary: s)
      (auto simp: Let_def commit_nullifier_def intro!: infallible_and_then split: option.split)
  show "infallible (revert_notes s ks)" "infallible (revert_nullifiers s ks)"
    by (induction ks arbitrary: s) (auto simp: Let_def split: option.split)
qed

lemma infallible_handlers:
  fixes s :: "'w ntx_state"
  shows "infallible (commit_transactions_of s ts :: ('w ntx_state, 'e, unit) outcome)"
    "infallible (revert_transactions_of s ts :: ('w ntx_state, 'e, unit) outcome)"
    "infallible (select_candidate s limit :: ('w ntx_state, 'e, tx_candidate option) outcome)"
proof -
  have c: "infallible (commit_transaction s t :: ('w ntx_state, 'e, unit) outcome)" for s :: "'w ntx_state" and t
    by (auto simp: commit_transaction_def Let_def commit_delta_def
        intro!: infallible_and_then infallible_loops split: option.split list.split)
  have r: "infallible (revert_transaction s t :: ('w ntx_state, 'e, unit) outcome)" for s :: "'w ntx_state" and t
    by (auto simp: revert_transaction_def Let_def revert_delta_def
        intro!: infallible_and_then infallible_loops split: option.split)
  have l: "infallible (select_candidate_loop k limit s :: ('w ntx_state, 'e, tx_candidate option) outcome)" for k
    by (induction k limit s rule: select_candidate_loop.induct) (auto simp: Let_def split: list.split option.split)
  show "infallible (commit_transactions_of s ts :: ('w ntx_state, 'e, unit) outcome)"
    by (induction ts arbitrary: s) (auto intro!: infallible_and_then c)
  show "infallible (revert_transactions_of s ts :: ('w ntx_state, 'e, unit) outcome)"
    by (induction ts arbitrary: s) (auto intro!: infallible_and_then r)
  show "infallible (select_candidate s limit :: ('w ntx_state, 'e, tx_candidate option) outcome)" unfolding select_candidate_def by (rule l)
qed

section \<open>Properties\<close>

text \<open>A store with one network account, and a note addressed to it.\<close>

definition sample_network_account :: "nat \<Rightarrow> account" where
  "sample_network_account content =
     \<lparr>acc_ident = \<lparr>ident_key = 1, ident_prefix = push_bit 34 5, ident_is_network = True\<rparr>, acc_content = content\<rparr>"

definition sample_get_account :: "unit account_query" where
  "sample_get_account w p = (w, Inr (if prefix_inner p = 5 then Some (sample_network_account 0) else None))"

definition sample_get_notes :: "unit notes_query" where
  "sample_get_notes w = (w, Inr [])"

definition sample_apply :: "account \<Rightarrow> account_delta \<Rightarrow> account option" where
  "sample_apply a d = Some (a\<lparr>acc_content := delta_content d\<rparr>)"

definition sample_network_note :: network_note where
  "sample_network_note = NetworkNote \<lparr>note_id_of = 70, note_nullifier = 80,
     note_tag_of = \<lparr>tag_inner = 5, tag_network_execution = True, tag_single_target = True\<rparr>, is_network_note = True\<rparr>"

fun run_ntx_ops :: "'w account_query \<Rightarrow> (account \<Rightarrow> account_delta \<Rightarrow> account option) \<Rightarrow> 'w ntx_state \<Rightarrow> ntx_op list \<Rightarrow>
    ('w ntx_state, ntx_error, unit) outcome" where
  "run_ntx_ops get_account apply_delta s [] = Ok s ()"
| "run_ntx_ops get_account apply_delta s (op # ops) =
     and_then (run_ntx_op get_account apply_delta s op) (\<lambda>s _. run_ntx_ops get_account apply_delta s ops)"

text \<open>
  C13. No step of the network transaction builder panics, and only the store makes one fail, in runs where the
  events satisfy: an added transaction creates an account that is not tracked or has a delta that applies to
  the latest state, announces notes that are new and addressed to known accounts, and consumes what no
  inflight transaction consumes; transactions are committed after, and reverted before, those whose notes they
  consume; and the creation of an account is not reverted.  Each step keeps the queue a permutation of the
  tracked accounts, the number of an account's inflight states equal to the number of inflight transactions
  that updated it, its nullified notes exactly those consumed by inflight transactions, and each indexed note
  with its account.  What happens in other runs is shown by \<open>reverted_creation_panics\<close>,
  \<open>revert_out_of_order_panics\<close> and \<open>unknown_account_panics\<close>.
\<close>

theorem ntx_builder_safe:
  assumes answers: "network_notes_only get_notes" and s: "ntx_reachable get_account get_notes apply_delta s"
    and ord: "in_order get_account apply_delta s op"
  shows "case run_ntx_op get_account apply_delta s op of
      Ok s' r \<Rightarrow> distinct (ns_queue s') \<and> set (ns_queue s') = dom (ns_accounts s')
        \<and> (\<forall>p a. ns_accounts s' p = Some a \<longrightarrow> length (na_inflight a) = card (updates_of (ns_inflight_txs s') p)
            \<and> nullified a = {k. ns_nullifier_idx s' k = Some p \<and> (\<exists>t i. ns_inflight_txs s' t = Some i \<and> k \<in> im_nullifiers i)})
        \<and> (\<forall>k p. ns_nullifier_idx s' k = Some p \<longrightarrow> (\<exists>a. ns_accounts s' p = Some a \<and> k \<in> available a \<union> nullified a))
    | Err s' e \<Rightarrow> (\<exists>t ks ns d. op = MempoolEvent (TransactionAdded t ks ns d))
    | _ \<Rightarrow> False"
proof -
  have safe: "ntx_safe s" by (rule ntx_reachable_safe[OF answers s])
  have run: "ends_well (\<lambda>s' _. ntx_safe s') (run_ntx_op get_account apply_delta s op)" by (rule run_ntx_op_safe[OF safe ord])
  show ?thesis
  proof (cases "run_ntx_op get_account apply_delta s op")
    case (Ok s' r)
    with run have core: "ntx_core s' (ns_inflight_txs s')" and ix: "indexed s'" by (simp_all add: ntx_safe_def ntx_inv_def)
    have "length (na_inflight a) = card (updates_of (ns_inflight_txs s') p)
      \<and> nullified a = {k. ns_nullifier_idx s' k = Some p \<and> (\<exists>t i. ns_inflight_txs s' t = Some i \<and> k \<in> im_nullifiers i)}"
      if a: "ns_accounts s' p = Some a" for p a
    proof
      show "length (na_inflight a) = card (updates_of (ns_inflight_txs s') p)"
        using ntx_coreD(5)[OF core, of p] a by (simp add: num_updates_def)
      show "nullified a = {k. ns_nullifier_idx s' k = Some p \<and> (\<exists>t i. ns_inflight_txs s' t = Some i \<and> k \<in> im_nullifiers i)}"
      proof (intro set_eqI iffI)
        fix k assume "k \<in> nullified a"
        with nullified_okD[OF ntx_coreD(8)[OF core] a] show "k \<in> {k. ns_nullifier_idx s' k = Some p
          \<and> (\<exists>t i. ns_inflight_txs s' t = Some i \<and> k \<in> im_nullifiers i)}" by blast
      next
        fix k assume "k \<in> {k. ns_nullifier_idx s' k = Some p \<and> (\<exists>t i. ns_inflight_txs s' t = Some i \<and> k \<in> im_nullifiers i)}"
        then obtain t i where k: "ns_nullifier_idx s' k = Some p" "ns_inflight_txs s' t = Some i" "k \<in> im_nullifiers i" by blast
        with ntx_coreD(6)[OF core k(2)] a show "k \<in> nullified a" by (auto simp: impact_ok_def)
      qed
    qed
    moreover have "\<exists>a. ns_accounts s' p = Some a \<and> k \<in> available a \<union> nullified a" if "ns_nullifier_idx s' k = Some p" for k p
      using ix that by (auto simp: indexed_def held_def)
    ultimately show ?thesis using Ok ntx_coreD(1,2)[OF core] by simp
  next
    case (Err s' e)
    then have "\<exists>t ks ns d. op = MempoolEvent (TransactionAdded t ks ns d)"
    proof (cases op)
      case (MempoolEvent ev)
      with Err have e: "mempool_update get_account apply_delta s ev = Err s' e"
        by (cases "mempool_update get_account apply_delta s ev") simp_all
      have "\<not> infallible (mempool_update get_account apply_delta s ev)" by (simp add: e)
      with MempoolEvent show ?thesis by (cases ev) (auto simp: infallible_handlers)
    next
      case (SelectCandidate limit)
      with Err infallible_handlers(3)[of s limit, where ?'e = ntx_error] show ?thesis by simp
    qed simp
    with Err show ?thesis by simp
  qed (use run in simp_all)
qed

lemma sample_load: "load_state sample_get_account sample_get_notes () = Ok (ntx_default ()) ()"
  by (simp add: load_state_def sample_get_notes_def)

lemma sample_note_prefix: "nn_account_prefix sample_network_note = Some (NetworkAccountPrefix 5)"
  by (simp add: nn_account_prefix_def prefix_try_from_tag_def sample_network_note_def)

lemma sample_note_nullifier: "nn_nullifier sample_network_note = 80"
  by (simp add: nn_nullifier_def sample_network_note_def)

theorem ntx_builder_safe_witness:
  "\<exists>s' a. run_ntx_op sample_get_account sample_apply (ntx_default ())
       (MempoolEvent (TransactionAdded 1 [] [sample_network_note] None)) = Ok s' None
     \<and> set (ns_queue s') = {NetworkAccountPrefix 5} \<and> ns_accounts s' (NetworkAccountPrefix 5) = Some a \<and> nullified a = {}"
proof -
  let ?op = "MempoolEvent (TransactionAdded 1 [] [sample_network_note] None)"
  have "network_notes_only sample_get_notes" by (simp add: network_notes_only_def sample_get_notes_def)
  moreover have "ntx_reachable sample_get_account sample_get_notes sample_apply (ntx_default ())"
    by (rule ntx_reachable.loaded) (rule sample_load)
  moreover have "in_order sample_get_account sample_apply (ntx_default ()) ?op"
    by (simp add: may_add_tx_def ntx_default_def sample_note_prefix known_account_def sample_get_account_def)
  ultimately have safe: "case run_ntx_op sample_get_account sample_apply (ntx_default ()) ?op of
      Ok s' r \<Rightarrow> distinct (ns_queue s') \<and> set (ns_queue s') = dom (ns_accounts s')
        \<and> (\<forall>p a. ns_accounts s' p = Some a \<longrightarrow> length (na_inflight a) = card (updates_of (ns_inflight_txs s') p)
            \<and> nullified a = {k. ns_nullifier_idx s' k = Some p \<and> (\<exists>t i. ns_inflight_txs s' t = Some i \<and> k \<in> im_nullifiers i)})
        \<and> (\<forall>k p. ns_nullifier_idx s' k = Some p \<longrightarrow> (\<exists>a. ns_accounts s' p = Some a \<and> k \<in> available a \<union> nullified a))
    | Err s' e \<Rightarrow> (\<exists>t ks ns d. ?op = MempoolEvent (TransactionAdded t ks ns d))
    | _ \<Rightarrow> False"
    by (rule ntx_builder_safe)
  have run: "\<exists>s' a. run_ntx_op sample_get_account sample_apply (ntx_default ()) ?op = Ok s' None
    \<and> ns_accounts s' = [NetworkAccountPrefix 5 \<mapsto> a]
    \<and> ns_inflight_txs s' = [1 \<mapsto> \<lparr>im_account_delta = None, im_notes = {80}, im_nullifiers = {}\<rparr>]"
    by (simp add: ntx_add_transaction_def ntx_default_def add_account_update_def sample_note_prefix
        fetch_account_def sample_get_account_def impact_is_empty_def impact_default_def put_ntx_account_def
        sample_note_nullifier Let_def, rule exI, rule refl)
  then obtain s' a where r: "run_ntx_op sample_get_account sample_apply (ntx_default ()) ?op = Ok s' None"
    "ns_accounts s' = [NetworkAccountPrefix 5 \<mapsto> a]"
    "ns_inflight_txs s' = [1 \<mapsto> \<lparr>im_account_delta = None, im_notes = {80}, im_nullifiers = {}\<rparr>]" by blast
  with safe have "set (ns_queue s') = {NetworkAccountPrefix 5}" "nullified a = {}" by (simp_all split: if_splits)
  with r show ?thesis by auto
qed

text \<open>
  C14. Selecting a candidate goes once through the queue and takes the first account that is not in
  progress and has available notes: the candidate holds the account's latest state and its first notes
  up to the limit, the account is locked and moved to the back of the queue. The accounts passed over
  are kept behind it in their order, except those that are empty and not in progress, which are dropped.
  Without such an account nothing is selected and only the pruning happens.
\<close>

theorem select_candidate_exact:
  assumes inv: "ntx_inv s" and limit: "limit > 0"
  shows "((\<forall>q \<in> set (ns_queue s). \<not> selectable s q) \<longrightarrow>
      select_candidate s limit = (Ok (s\<lparr>ns_accounts := pruned s (ns_queue s),
        ns_queue := filter (\<lambda>q. \<not> prunable s q) (ns_queue s)\<rparr>) None :: ('w ntx_state, 'e, tx_candidate option) outcome))
    \<and> (ns_queue s = before @ p # rest \<and> (\<forall>q \<in> set before. \<not> selectable s q) \<and> selectable s p \<longrightarrow>
      (\<exists>a acc. ns_accounts s p = Some a \<and> latest_account a = Some acc
        \<and> select_candidate s limit = (Ok (s\<lparr>ns_accounts := pruned s before,
            ns_queue := rest @ filter (\<lambda>q. \<not> prunable s q) before @ [p], ns_in_progress := insert p (ns_in_progress s)\<rparr>)
          (Some \<lparr>tc_account = acc, tc_notes = take limit (na_notes a)\<rparr>) :: ('w ntx_state, 'e, tx_candidate option) outcome)))"
proof (intro conjI impI)
  assume "\<forall>q \<in> set (ns_queue s). \<not> selectable s q"
  with inv limit show "select_candidate s limit = (Ok (s\<lparr>ns_accounts := pruned s (ns_queue s),
        ns_queue := filter (\<lambda>q. \<not> prunable s q) (ns_queue s)\<rparr>) None :: ('w ntx_state, 'e, tx_candidate option) outcome)"
    by (rule select_candidate_None)
next
  assume q: "ns_queue s = before @ p # rest \<and> (\<forall>q \<in> set before. \<not> selectable s q) \<and> selectable s p"
  then obtain a where a: "ns_accounts s p = Some a" by (auto simp: selectable_def split: option.splits)
  from q have "ns_queue s = before @ p # rest" "\<forall>q \<in> set before. \<not> selectable s q" "selectable s p" by simp_all
  from select_candidate_Some[OF inv limit this a, where ?'e = 'e] obtain acc where "latest_account a = Some acc"
    "select_candidate s limit = (Ok (s\<lparr>ns_accounts := pruned s before,
            ns_queue := rest @ filter (\<lambda>q. \<not> prunable s q) before @ [p], ns_in_progress := insert p (ns_in_progress s)\<rparr>)
          (Some \<lparr>tc_account = acc, tc_notes = take limit (na_notes a)\<rparr>) :: ('w ntx_state, 'e, tx_candidate option) outcome)" .
  with a show "\<exists>a acc. ns_accounts s p = Some a \<and> latest_account a = Some acc
        \<and> select_candidate s limit = (Ok (s\<lparr>ns_accounts := pruned s before,
            ns_queue := rest @ filter (\<lambda>q. \<not> prunable s q) before @ [p], ns_in_progress := insert p (ns_in_progress s)\<rparr>)
          (Some \<lparr>tc_account = acc, tc_notes = take limit (na_notes a)\<rparr>) :: ('w ntx_state, 'e, tx_candidate option) outcome)"
    by (intro exI[of _ a] exI[of _ acc] conjI)
qed

text \<open>A state with two tracked accounts: the first has no notes, the second has one.\<close>

definition sample_queue_state :: "unit ntx_state" where
  "sample_queue_state = (ntx_default ())\<lparr>
     ns_accounts := [NetworkAccountPrefix 4 \<mapsto> from_committed_account (sample_network_account 0),
       NetworkAccountPrefix 5 \<mapsto> add_note (from_committed_account (sample_network_account 0)) sample_network_note],
     ns_queue := [NetworkAccountPrefix 4, NetworkAccountPrefix 5]\<rparr>"

lemma sample_queue_inv: "ntx_inv sample_queue_state"
  unfolding ntx_inv_def
proof (rule ntx_coreI)
  let ?s = sample_queue_state
  show "set (ns_queue ?s) = dom (ns_accounts ?s)" by (auto simp: sample_queue_state_def)
  show "ntx_account_ok a" if "ns_accounts ?s p = Some a" for p a
    using that by (auto simp: sample_queue_state_def add_note_effect split: if_splits)
  show "num_updates ?s p = card (updates_of (ns_inflight_txs ?s) p)" for p
    by (simp add: num_updates_def updates_of_def sample_queue_state_def ntx_default_def add_note_def)
  show "nullified_ok ?s (ns_inflight_txs ?s)"
    by (rule nullified_okI) (auto simp: sample_queue_state_def add_note_effect split: if_splits)
qed (simp_all add: sample_queue_state_def ntx_default_def impacts_disjoint_def)

theorem select_candidate_exact_witness:
  "\<exists>s'. select_candidate sample_queue_state 20 = (Ok s' (Some \<lparr>tc_account = sample_network_account 0, tc_notes = [sample_network_note]\<rparr>)
       :: (unit ntx_state, unit, tx_candidate option) outcome)
     \<and> ns_queue s' = [NetworkAccountPrefix 5] \<and> ns_in_progress s' = {NetworkAccountPrefix 5}
     \<and> ns_accounts s' (NetworkAccountPrefix 4) = None"
proof -
  let ?s = sample_queue_state and ?p = "NetworkAccountPrefix 4" and ?q = "NetworkAccountPrefix 5"
  have acc: "ns_accounts ?s ?p = Some (from_committed_account (sample_network_account 0))"
    "ns_accounts ?s ?q = Some (add_note (from_committed_account (sample_network_account 0)) sample_network_note)"
    "ns_in_progress ?s = {}" by (simp_all add: sample_queue_state_def ntx_default_def)
  have "\<not> selectable ?s ?p" "prunable ?s ?p" "selectable ?s ?q"
    by (simp_all add: selectable_def prunable_def acc na_is_empty_def) (simp_all add: from_committed_account_def add_note_def)
  moreover have "ns_queue ?s = [?p] @ ?q # []" by (simp add: sample_queue_state_def)
  ultimately obtain a acc' where "ns_accounts ?s ?q = Some a" "latest_account a = Some acc'"
    "select_candidate ?s 20 = (Ok (?s\<lparr>ns_accounts := pruned ?s [?p], ns_queue := [?q], ns_in_progress := {?q}\<rparr>)
      (Some \<lparr>tc_account = acc', tc_notes = take 20 (na_notes a)\<rparr>) :: (unit ntx_state, unit, tx_candidate option) outcome)"
    using select_candidate_exact[OF sample_queue_inv, of 20 "[?p]" ?q "[]", where ?'e = unit] acc(3) by auto
  moreover from this(1,2) acc(2) have "acc' = sample_network_account 0" "na_notes a = [sample_network_note]"
    by (auto simp: latest_account_def na_notes_def add_note_def from_committed_account_def)
  ultimately show ?thesis using \<open>prunable ?s ?p\<close> by (simp add: pruned_def)
qed

text \<open>
  Reverting the transaction that created an account leaves its prefix in the queue: the next
  selection that reaches it panics.
\<close>

theorem reverted_creation_panics:
  "\<not> ends_well (\<lambda>s r. True) (run_ntx_ops sample_get_account sample_apply (ntx_default ())
     [MempoolEvent (TransactionAdded 1 [] [] (Some (NewAccount (sample_network_account 0)))),
      MempoolEvent (TransactionsReverted {1}),
      SelectCandidate 20])"
  by code_simp

text \<open>
  A note for an account that is not known is indexed without an account: when the account was created
  meanwhile, consuming the note panics.
\<close>

theorem unknown_account_panics:
  "let unknown = (\<lambda>w p. (w, Inr None)) in
   ends_well (\<lambda>s r. True) (run_ntx_ops unknown sample_apply (ntx_default ())
     [MempoolEvent (TransactionAdded 1 [] [sample_network_note] None),
      MempoolEvent (TransactionAdded 2 [] [] (Some (NewAccount (sample_network_account 0))))])
   \<and> \<not> ends_well (\<lambda>s r. True) (run_ntx_ops unknown sample_apply (ntx_default ())
     [MempoolEvent (TransactionAdded 1 [] [sample_network_note] None),
      MempoolEvent (TransactionAdded 2 [] [] (Some (NewAccount (sample_network_account 0)))),
      MempoolEvent (TransactionAdded 3 [80] [] None)])"
  by code_simp

text \<open>
  Reverting a transaction that created a note together with one that consumed it panics when the
  creating transaction comes first, although the comments allow any order: here the identifiers of the
  two transactions, by which the set is iterated, are in the order of their dependency.
\<close>

theorem revert_out_of_order_panics:
  "ends_well (\<lambda>s r. True) (run_ntx_ops sample_get_account sample_apply (ntx_default ())
     [MempoolEvent (TransactionAdded 1 [] [sample_network_note] None),
      MempoolEvent (TransactionAdded 2 [80] [] None)])
   \<and> \<not> ends_well (\<lambda>s r. True) (run_ntx_ops sample_get_account sample_apply (ntx_default ())
     [MempoolEvent (TransactionAdded 1 [] [sample_network_note] None),
      MempoolEvent (TransactionAdded 2 [80] [] None),
      MempoolEvent (TransactionsReverted {1, 2})])"
  by code_simp

end
