(* ===== verification/Ntx_Transaction.thy ===== *)
theory Ntx_Transaction
  imports Ntx_Properties
begin

text \<open>
  The execution of a network transaction (crates/ntx-builder/src/transaction.rs): the notes of a
  candidate are shuffled, checked and filtered, the transaction is executed against the candidate's
  account at genesis, proven, and submitted.  The virtual machine, the provers and the random generator
  are fields of a record; the data source that the machine reads from is the code's.
\<close>

section \<open>Errors\<close>

type_synonym lib_error = string

datatype ntx_tx_error =
    InputNotesFailed lib_error
  | NoteFilter lib_error
  | NoViableNotes
  | Execution lib_error
  | Proving lib_error
  | Submission lib_error
  | PanicInTask

datatype data_store_error = DataAccountNotFound account_ident | DataBlockNotFound block_number | NoReferenceBlock

section \<open>The data store\<close>

text \<open>
  \<open>NtxDataStore\<close> without the cache of the account's code.  An answer carries no account seed and no
  chain beyond genesis; \<open>last\<close> of a B-tree set is its greatest element.
\<close>

record ntx_data_store =
  ds_account :: account
  ds_genesis_header :: block_header

record data_answer =
  an_account :: account
  an_seed :: "digest option"
  an_header :: block_header
  an_chain :: "block_header list"

type_synonym data_source = "account_ident \<Rightarrow> block_number set \<Rightarrow> data_store_error + data_answer"

definition data_store_inputs :: "ntx_data_store \<Rightarrow> data_source" where
  "data_store_inputs D account_id ref_blocks =
     (if acc_ident (ds_account D) \<noteq> account_id then Inl (DataAccountNotFound account_id)
      else if ref_blocks = {} then Inl NoReferenceBlock
      else if Max ref_blocks \<noteq> 0 then Inl (DataBlockNotFound (Max ref_blocks))
      else Inr \<lparr>an_account = ds_account D, an_seed = None, an_header = ds_genesis_header D, an_chain = []\<rparr>)"

section \<open>The pipeline\<close>

text \<open>The answer of \<open>check_notes_consumability\<close>, and the libraries.\<close>

datatype note_account_execution = AllSucceed | SomeFail "note_id list" "lib_error option"

record 'x ntx_vm =
  vm_shuffle :: "protocol_note list \<Rightarrow> protocol_note list"
  vm_input_notes :: "protocol_note list \<Rightarrow> lib_error + protocol_note list"
  vm_check :: "data_source \<Rightarrow> account_ident \<Rightarrow> block_number \<Rightarrow> protocol_note list \<Rightarrow> lib_error + note_account_execution"
  vm_execute :: "data_source \<Rightarrow> account_ident \<Rightarrow> block_number \<Rightarrow> protocol_note list \<Rightarrow> lib_error + 'x"
  vm_prove :: "'x \<Rightarrow> lib_error + proven_tx"

record 'x ntx_context =
  cx_prover :: "('x \<Rightarrow> lib_error + proven_tx) option"
  cx_genesis_header :: block_header

text \<open>\<open>None\<close> is the panic on an identifier that none of the notes has.\<close>

definition filter_notes :: "'x ntx_vm \<Rightarrow> ntx_data_store \<Rightarrow> protocol_note list \<Rightarrow> (ntx_tx_error + protocol_note list) option" where
  "filter_notes V D notes =
     map_option
       (\<lambda>r. bind_res r (\<lambda>viable. if viable = [] then Inl NoViableNotes else Inr viable))
       (case vm_check V (data_store_inputs D) (acc_ident (ds_account D)) 0 notes of
          Inr AllSucceed \<Rightarrow> Some (Inr notes)
        | Inr (SomeFail successful_notes e) \<Rightarrow>
            map_option Inr (those (map (\<lambda>i. find (\<lambda>note. note_id_of note = i) notes) successful_notes))
        | Inl e \<Rightarrow> Some (Inl (NoteFilter e)))"

definition execute_notes :: "'x ntx_vm \<Rightarrow> ntx_data_store \<Rightarrow> protocol_note list \<Rightarrow> ntx_tx_error + 'x" where
  "execute_notes V D notes =
     map_fail Execution (vm_execute V (data_store_inputs D) (acc_ident (ds_account D)) 0 notes)"

definition prove_executed :: "'x ntx_vm \<Rightarrow> 'x ntx_context \<Rightarrow> 'x \<Rightarrow> ntx_tx_error + proven_tx" where
  "prove_executed V C tx =
     map_fail Proving (case cx_prover C of Some remote \<Rightarrow> remote tx | None \<Rightarrow> vm_prove V tx)"

text \<open>What a task does before it reaches the block producer, and all of it; a panic is caught where the task is joined.\<close>

definition prepare_transaction :: "'x ntx_vm \<Rightarrow> 'x ntx_context \<Rightarrow> tx_candidate \<Rightarrow> ntx_tx_error + proven_tx" where
  "prepare_transaction V C cand =
     bind_res (map_fail InputNotesFailed (vm_input_notes V (vm_shuffle V (map nn_inner (tc_notes cand))))) (\<lambda>notes.
     let D = \<lparr>ds_account = tc_account cand, ds_genesis_header = cx_genesis_header C\<rparr> in
     bind_res (case filter_notes V D notes of None \<Rightarrow> Inl PanicInTask | Some r \<Rightarrow> r) (\<lambda>notes.
     bind_res (execute_notes V D notes) (prove_executed V C)))"

definition execute_transaction ::
  "'x ntx_vm \<Rightarrow> 'x ntx_context \<Rightarrow> (proven_tx \<Rightarrow> lib_error + unit) \<Rightarrow> tx_candidate \<Rightarrow> ntx_tx_error + unit" where
  "execute_transaction V C submit cand =
     bind_res (prepare_transaction V C cand) (\<lambda>tx. map_fail Submission (submit tx))"

section \<open>What the libraries promise\<close>

text \<open>
  A shuffle permutes; \<open>InputNotes::new\<close> keeps the notes it accepts, which have different identifiers; the
  checker names notes that it was given.
\<close>

definition vm_ok :: "'x ntx_vm \<Rightarrow> bool" where
  "vm_ok V \<longleftrightarrow> (\<forall>ns. mset (vm_shuffle V ns) = mset ns)
     \<and> (\<forall>ns ms. vm_input_notes V ns = Inr ms \<longrightarrow> ms = ns \<and> distinct (map note_id_of ns))
     \<and> (\<forall>S i b ns ids e. vm_check V S i b ns = Inr (SomeFail ids e) \<longrightarrow> distinct ids \<and> set ids \<subseteq> note_id_of ` set ns)"

lemma vm_okD:
  assumes "vm_ok V"
  shows "mset (vm_shuffle V ns) = mset ns"
    "vm_input_notes V ns = Inr ms \<Longrightarrow> ms = ns \<and> distinct (map note_id_of ns)"
    "vm_check V S i b ns = Inr (SomeFail ids e) \<Longrightarrow> distinct ids \<and> set ids \<subseteq> note_id_of ` set ns"
  using assms unfolding vm_ok_def by blast+

text \<open>The data store answers for its account at genesis, and for nothing else.\<close>

lemma data_store_inputs_Inr:
  assumes "finite ref_blocks"
  shows "data_store_inputs D account_id ref_blocks = Inr a \<longleftrightarrow>
     account_id = acc_ident (ds_account D) \<and> ref_blocks = {0}
     \<and> a = \<lparr>an_account = ds_account D, an_seed = None, an_header = ds_genesis_header D, an_chain = []\<rparr>"
proof -
  have "ref_blocks = {0}" if "ref_blocks \<noteq> {}" "Max ref_blocks = 0"
    using that Max_ge[OF assms] by fastforce
  then show ?thesis by (auto simp: data_store_inputs_def)
qed

section \<open>The notes that are executed\<close>

lemma find_by_id:
  assumes "distinct (map note_id_of ns)" and "n \<in> set ns"
  shows "find (\<lambda>note. note_id_of note = note_id_of n) ns = Some n"
  using assms by (induction ns) (auto simp: inj_on_def image_iff)

lemma those_find:
  assumes "distinct (map note_id_of ns)" and "set ids \<subseteq> note_id_of ` set ns"
  obtains viable where "those (map (\<lambda>i. find (\<lambda>note. note_id_of note = i) ns) ids) = Some viable"
    and "map note_id_of viable = ids" and "set viable \<subseteq> set ns"
  using assms(2)
proof (induction ids arbitrary: thesis)
  case (Cons i ids)
  from Cons.prems(2) obtain n where n: "n \<in> set ns" "i = note_id_of n" by auto
  from Cons.IH Cons.prems(2) obtain viable where v: "those (map (\<lambda>i. find (\<lambda>note. note_id_of note = i) ns) ids) = Some viable"
    "map note_id_of viable = ids" "set viable \<subseteq> set ns" by auto
  from find_by_id[OF assms(1) n(1)] v n show ?case by (intro Cons.prems(1)[of "n # viable"]) simp_all
qed simp

text \<open>The notes the checker takes for viable: all of them, or those it names.\<close>

definition viable_ids :: "'x ntx_vm \<Rightarrow> ntx_data_store \<Rightarrow> protocol_note list \<Rightarrow> lib_error + note_id list" where
  "viable_ids V D notes =
     bind_res (vm_check V (data_store_inputs D) (acc_ident (ds_account D)) 0 notes)
       (\<lambda>r. Inr (case r of AllSucceed \<Rightarrow> map note_id_of notes | SomeFail ids e \<Rightarrow> ids))"

lemma filter_notes_exact:
  assumes ok: "vm_ok V" and d: "distinct (map note_id_of notes)"
  shows "\<exists>r. filter_notes V D notes = Some r \<and>
    (case viable_ids V D notes of
       Inl e \<Rightarrow> r = Inl (NoteFilter e)
     | Inr [] \<Rightarrow> r = Inl NoViableNotes
     | Inr ids \<Rightarrow> (\<exists>viable. r = Inr viable \<and> map note_id_of viable = ids \<and> set viable \<subseteq> set notes))"
proof (cases "vm_check V (data_store_inputs D) (acc_ident (ds_account D)) 0 notes")
  case (Inr x)
  show ?thesis
  proof (cases x)
    case AllSucceed
    then show ?thesis using Inr by (cases "notes") (simp_all add: filter_notes_def viable_ids_def)
  next
    case (SomeFail ids e)
    with vm_okD(3)[OF ok] Inr have "set ids \<subseteq> note_id_of ` set notes" by blast
    from those_find[OF d this] obtain viable where
      "those (map (\<lambda>i. find (\<lambda>note. note_id_of note = i) notes) ids) = Some viable"
      "map note_id_of viable = ids" "set viable \<subseteq> set notes" .
    then show ?thesis using Inr SomeFail
      by (cases viable) (auto simp: filter_notes_def viable_ids_def)
  qed
qed (simp add: filter_notes_def viable_ids_def)


section \<open>The whole execution\<close>

definition candidate_store :: "'x ntx_context \<Rightarrow> tx_candidate \<Rightarrow> ntx_data_store" where
  "candidate_store C cand = \<lparr>ds_account = tc_account cand, ds_genesis_header = cx_genesis_header C\<rparr>"

text \<open>What a task prepares from the notes that are viable: the errors of the machine and of the prover.\<close>

lemma execute_and_prove:
  assumes "r = bind_res (execute_notes V D viable) (prove_executed V C)"
  shows "case vm_execute V (data_store_inputs D) (acc_ident (ds_account D)) 0 viable of
      Inl e \<Rightarrow> r = Inl (Execution e)
    | Inr x \<Rightarrow> (case (case cx_prover C of Some remote \<Rightarrow> remote x | None \<Rightarrow> vm_prove V x) of
          Inl e \<Rightarrow> r = Inl (Proving e)
        | Inr tx \<Rightarrow> r = Inr tx)"
  using assms by (auto simp: execute_notes_def prove_executed_def split: sum.split)

text \<open>
  C16. A network transaction executes exactly the notes of its candidate that the checker takes for
  viable, against the candidate's account at genesis, with the remote prover if there is one.  The first
  stage that fails gives the error with the library's message: the notes, the check (no viable note being
  \<open>NoViableNotes\<close>), the execution, the proof, the submission.  Only a proven transaction is submitted,
  success means that the block producer accepted it, and the task never panics.
\<close>

theorem network_transaction_exact:
  fixes V :: "'x ntx_vm"
  assumes ok: "vm_ok V"
  shows "(case vm_input_notes V (vm_shuffle V (map nn_inner (tc_notes cand))) of
         Inl e \<Rightarrow> prepare_transaction V C cand = Inl (InputNotesFailed e)
       | Inr given \<Rightarrow>
           (case viable_ids V (candidate_store C cand) given of
              Inl e \<Rightarrow> prepare_transaction V C cand = Inl (NoteFilter e)
            | Inr [] \<Rightarrow> prepare_transaction V C cand = Inl NoViableNotes
            | Inr ids \<Rightarrow> (\<exists>viable. map note_id_of viable = ids \<and> set viable \<subseteq> nn_inner ` set (tc_notes cand)
                \<and> (case vm_execute V (data_store_inputs (candidate_store C cand)) (acc_ident (tc_account cand)) 0 viable of
                     Inl e \<Rightarrow> prepare_transaction V C cand = Inl (Execution e)
                   | Inr x \<Rightarrow> (case (case cx_prover C of Some remote \<Rightarrow> remote x | None \<Rightarrow> vm_prove V x) of
                         Inl e \<Rightarrow> prepare_transaction V C cand = Inl (Proving e)
                       | Inr tx \<Rightarrow> prepare_transaction V C cand = Inr tx)))))
    \<and> (case prepare_transaction V C cand of
         Inl e \<Rightarrow> execute_transaction V C submit cand = Inl e
       | Inr tx \<Rightarrow> (case submit tx of
             Inl e \<Rightarrow> execute_transaction V C submit cand = Inl (Submission e)
           | Inr u \<Rightarrow> execute_transaction V C submit cand = Inr ()))
    \<and> execute_transaction V C submit cand \<noteq> Inl PanicInTask"
proof -
  let ?D = "candidate_store C cand" and ?ns = "vm_shuffle V (map nn_inner (tc_notes cand))"
  let ?p = "prepare_transaction V C cand"
  have main: "?p \<noteq> Inl PanicInTask
    \<and> (case vm_input_notes V ?ns of Inl e \<Rightarrow> ?p = Inl (InputNotesFailed e)
       | Inr given \<Rightarrow> (case viable_ids V ?D given of
              Inl e \<Rightarrow> ?p = Inl (NoteFilter e)
            | Inr [] \<Rightarrow> ?p = Inl NoViableNotes
            | Inr ids \<Rightarrow> (\<exists>viable. map note_id_of viable = ids \<and> set viable \<subseteq> nn_inner ` set (tc_notes cand)
                \<and> (case vm_execute V (data_store_inputs ?D) (acc_ident (tc_account cand)) 0 viable of
                     Inl e \<Rightarrow> ?p = Inl (Execution e)
                   | Inr x \<Rightarrow> (case (case cx_prover C of Some remote \<Rightarrow> remote x | None \<Rightarrow> vm_prove V x) of
                         Inl e \<Rightarrow> ?p = Inl (Proving e) | Inr tx \<Rightarrow> ?p = Inr tx)))))"
  proof (cases "vm_input_notes V ?ns")
    case (Inr given)
    from vm_okD(2)[OF ok Inr] have given: "given = ?ns" "distinct (map note_id_of given)" by simp_all
    have same: "set given = nn_inner ` set (tc_notes cand)"
      using arg_cong[OF vm_okD(1)[OF ok, of "map nn_inner (tc_notes cand)"], of set_mset] given(1) by simp
    from filter_notes_exact[OF ok given(2), of ?D] obtain r where r: "filter_notes V ?D given = Some r" and
      cases: "case viable_ids V ?D given of Inl e \<Rightarrow> r = Inl (NoteFilter e) | Inr [] \<Rightarrow> r = Inl NoViableNotes
        | Inr ids \<Rightarrow> (\<exists>viable. r = Inr viable \<and> map note_id_of viable = ids \<and> set viable \<subseteq> set given)" by blast
    have p: "?p = bind_res r (\<lambda>notes. bind_res (execute_notes V ?D notes) (prove_executed V C))"
      using Inr r by (simp add: prepare_transaction_def candidate_store_def)
    show ?thesis
    proof (cases "viable_ids V ?D given")
      case (Inr ids)
      show ?thesis
      proof (cases ids)
        case (Cons i rest)
        with cases Inr obtain viable where v: "r = Inr viable" "map note_id_of viable = ids" "set viable \<subseteq> set given" by auto
        then have "?p = bind_res (execute_notes V ?D viable) (prove_executed V C)" by (simp add: p)
        from execute_and_prove[OF this]
        have run: "case vm_execute V (data_store_inputs ?D) (acc_ident (tc_account cand)) 0 viable of
            Inl e \<Rightarrow> ?p = Inl (Execution e)
          | Inr x \<Rightarrow> (case (case cx_prover C of Some remote \<Rightarrow> remote x | None \<Rightarrow> vm_prove V x) of
                Inl e \<Rightarrow> ?p = Inl (Proving e) | Inr tx \<Rightarrow> ?p = Inr tx)" by (simp add: candidate_store_def)
        then have "?p \<noteq> Inl PanicInTask" by (auto split: sum.splits)
        moreover have "map note_id_of viable = i # rest" "set viable \<subseteq> nn_inner ` set (tc_notes cand)" using v same Cons by simp_all
        ultimately show ?thesis unfolding \<open>vm_input_notes V ?ns = Inr given\<close> Inr Cons sum.case list.case
          by (intro conjI exI[of _ viable] run)
      qed (use cases Inr \<open>vm_input_notes V ?ns = Inr given\<close> in \<open>simp add: p\<close>)
    qed (use cases \<open>vm_input_notes V ?ns = Inr given\<close> in \<open>simp add: p\<close>)
  qed (simp add: prepare_transaction_def)
  moreover have "case ?p of
         Inl e \<Rightarrow> execute_transaction V C submit cand = Inl e
       | Inr tx \<Rightarrow> (case submit tx of
             Inl e \<Rightarrow> execute_transaction V C submit cand = Inl (Submission e)
           | Inr u \<Rightarrow> execute_transaction V C submit cand = Inr ())"
    by (simp add: execute_transaction_def split: sum.split)
  moreover from this main have "execute_transaction V C submit cand \<noteq> Inl PanicInTask" by (auto split: sum.splits)
  ultimately show ?thesis by blast
qed

text \<open>A machine for which the second of two notes is viable, and a prover of its transaction.\<close>

definition sample_note :: "nat \<Rightarrow> network_note" where
  "sample_note i = NetworkNote \<lparr>note_id_of = 70 + i, note_nullifier = 80 + i,
     note_tag_of = \<lparr>tag_inner = 5, tag_network_execution = True, tag_single_target = True\<rparr>, is_network_note = True\<rparr>"

definition sample_candidate :: tx_candidate where
  "sample_candidate = \<lparr>tc_account = sample_network_account 0, tc_notes = [sample_note 0, sample_note 1]\<rparr>"

definition sample_vm :: "note_id list ntx_vm" where
  "sample_vm = \<lparr>vm_shuffle = rev,
     vm_input_notes = (\<lambda>ns. if distinct (map note_id_of ns) then Inr ns else Inl ''duplicate''),
     vm_check = (\<lambda>S i b ns. Inr (SomeFail (filter (\<lambda>n. n = 71) (remdups (map note_id_of ns))) None)),
     vm_execute = (\<lambda>S i b ns. case S i {b} of Inl e \<Rightarrow> Inl ''data'' | Inr _ \<Rightarrow> Inr (map note_id_of ns)),
     vm_prove = (\<lambda>ids. Inr \<lparr>ptx_id = 1, ptx_account_id = 1, ptx_account_is_network = True, ptx_initial_state = 0, ptx_final_state = 1,
        ptx_details = DeltaUpdate \<lparr>delta_ident = acc_ident (sample_network_account 0), delta_content = 1\<rparr>,
        ptx_nullifiers = map (\<lambda>i. i + 10) ids, ptx_unauthenticated = ids, ptx_num_input_notes = length ids,
        ptx_output_notes = [], ptx_ref_block = (0, 0), ptx_expiration = 100\<rparr>)\<rparr>"

lemma sample_vm_ok: "vm_ok sample_vm"
  unfolding vm_ok_def by (auto simp: sample_vm_def split: if_splits)

definition sample_context :: "note_id list ntx_context" where
  "sample_context = \<lparr>cx_prover = None, cx_genesis_header = \<lparr>bh_block_num = 0\<rparr>\<rparr>"

theorem network_transaction_exact_witness:
  "\<exists>tx. prepare_transaction sample_vm sample_context sample_candidate = Inr tx \<and> ptx_nullifiers tx = [81]
     \<and> execute_transaction sample_vm sample_context (\<lambda>_. Inl ''refused'') sample_candidate = Inl (Submission ''refused'')"
proof -
  obtain tx where tx: "prepare_transaction sample_vm sample_context sample_candidate = Inr tx \<and> ptx_nullifiers tx = [81]"
    by (simp add: prepare_transaction_def sample_vm_def sample_context_def sample_candidate_def sample_note_def
        filter_notes_def execute_notes_def prove_executed_def data_store_inputs_def Let_def)
  then have "execute_transaction sample_vm sample_context (\<lambda>_. Inl ''refused'') sample_candidate = Inl (Submission ''refused'')"
    using network_transaction_exact[OF sample_vm_ok, of sample_context sample_candidate "\<lambda>_. Inl ''refused''"] by simp
  with tx show ?thesis by blast
qed

end
