(* ===== verification/Guarded_Runs.thy ===== *)
theory Guarded_Runs
  imports Main
begin

text \<open>
  Runs of a system of interleaved tasks: a relation of steps, each with the event that causes it, and a
  predicate that says which events a theorem lets the world produce.  The locale collects what every
  proof by invariant over such runs shares.
\<close>

inductive guarded_run :: "('s \<Rightarrow> 'ev \<Rightarrow> 's \<Rightarrow> bool) \<Rightarrow> ('s \<Rightarrow> 'ev \<Rightarrow> bool) \<Rightarrow> 's \<Rightarrow> 's \<Rightarrow> bool" for steps ok where
  stay: "guarded_run steps ok s s"
| extend: "guarded_run steps ok s t \<Longrightarrow> ok t ev \<Longrightarrow> steps t ev u \<Longrightarrow> guarded_run steps ok s u"

lemma guarded_run_trans: "guarded_run steps ok t u \<Longrightarrow> guarded_run steps ok s t \<Longrightarrow> guarded_run steps ok s u"
  by (induction rule: guarded_run.induct) (auto intro: guarded_run.extend)

lemma guarded_run_mono:
  assumes "guarded_run steps ok s t" and "\<And>s ev. ok s ev \<Longrightarrow> ok' s ev"
  shows "guarded_run steps ok' s t"
  using assms(1) by (induction rule: guarded_run.induct) (auto intro: guarded_run.intros assms(2))

locale run_invariant =
  fixes steps :: "'s \<Rightarrow> 'ev \<Rightarrow> 's \<Rightarrow> bool"
    and ok :: "'s \<Rightarrow> 'ev \<Rightarrow> bool"
    and inv :: "'s \<Rightarrow> bool"
  assumes kept: "inv s \<Longrightarrow> ok s ev \<Longrightarrow> steps s ev t \<Longrightarrow> inv t"
begin

lemma reached: "guarded_run steps ok s t \<Longrightarrow> inv s \<Longrightarrow> inv t"
  by (induction rule: guarded_run.induct) (auto intro: kept)

end

end
