(* ===== verification/Retry.thy ===== *)
theory Retry
  imports Main
begin

text \<open>
  The loop by which the components wait for each other at their start: a call that fails in a way that may
  pass is repeated after a delay that doubles up to thirty seconds.  The block producer's server and both
  clients of the network transaction builder have it.
\<close>

text \<open>
  The delay in milliseconds.  The shift of a 32-bit one by the number of failures panics when the build
  checks for overflows (\<open>None\<close>) and otherwise takes the number modulo 32.
\<close>

definition retry_backoff :: "bool \<Rightarrow> nat \<Rightarrow> nat option" where
  "retry_backoff overflow_checks retry_counter =
     (if overflow_checks \<and> 32 \<le> retry_counter then None else Some (min (500 * 2 ^ (retry_counter mod 32)) 30000))"

text \<open>The loop over the answers; \<open>Retrying\<close> has the delays so far, when the answers end.\<close>

datatype ('e, 'a) retried = Answered 'a | Refused 'e | Retrying "nat list" | RetryPanics

fun with_retry :: "bool \<Rightarrow> ('e \<Rightarrow> bool) \<Rightarrow> nat \<Rightarrow> nat list \<Rightarrow> ('e + 'a) list \<Rightarrow> ('e, 'a) retried" where
  "with_retry overflow_checks transient retry_counter delays [] = Retrying delays"
| "with_retry overflow_checks transient retry_counter delays (Inr a # answers) = Answered a"
| "with_retry overflow_checks transient retry_counter delays (Inl e # answers) =
     (if transient e
      then (case retry_backoff overflow_checks retry_counter of
              None \<Rightarrow> RetryPanics
            | Some backoff \<Rightarrow> with_retry overflow_checks transient (Suc retry_counter) (delays @ [backoff]) answers)
      else Refused e)"

lemma retry_backoff_bounds: "retry_backoff overflow_checks r = Some d \<Longrightarrow> 500 \<le> d \<and> d \<le> 30000"
  by (auto simp: retry_backoff_def split: if_splits)

lemma with_retry_transient:
  assumes "\<forall>e \<in> set es. transient e" and "r + length es \<le> 32 \<or> \<not> overflow_checks"
  shows "\<exists>ds. length ds = length es \<and> (\<forall>d \<in> set ds. 500 \<le> d \<and> d \<le> 30000)
    \<and> with_retry overflow_checks transient r delays (map Inl es @ answers)
      = with_retry overflow_checks transient (r + length es) (delays @ ds) answers"
  using assms
proof (induction es arbitrary: r delays)
  case (Cons e es)
  from Cons.prems(2) obtain d where d: "retry_backoff overflow_checks r = Some d" by (auto simp: retry_backoff_def)
  from Cons.IH[of "Suc r" "delays @ [d]"] Cons.prems obtain ds where ds: "length ds = length es"
    "\<forall>d \<in> set ds. 500 \<le> d \<and> d \<le> 30000"
    "with_retry overflow_checks transient (Suc r) (delays @ [d]) (map Inl es @ answers)
      = with_retry overflow_checks transient (Suc r + length es) (delays @ [d] @ ds) answers" by auto
  then show ?case using d Cons.prems(1) retry_backoff_bounds[OF d] by (intro exI[of _ "d # ds"]) simp
qed simp

text \<open>With overflow checks, the call after the thirty-third failure is never made; up to then an answer is passed on.\<close>

lemma retry_answered:
  "\<forall>e \<in> set es. transient e \<Longrightarrow> length es \<le> 32 \<or> \<not> overflow_checks \<Longrightarrow>
     with_retry overflow_checks transient 0 [] (map Inl es @ Inr a # answers) = Answered a"
  using with_retry_transient[of es transient 0 overflow_checks "[]" "Inr a # answers"] by auto

lemma retry_overflows:
  assumes "\<forall>e \<in> set es. transient e" and "32 < length es"
  shows "with_retry True transient 0 [] (map Inl es @ answers) = RetryPanics"
proof -
  let ?a = "take 32 es" and ?rest = "map Inl (drop 33 es) @ answers"
  have "es = ?a @ es ! 32 # drop 33 es" using id_take_nth_drop[OF assms(2)] by simp
  then have "map Inl es @ answers = map Inl ?a @ Inl (es ! 32) # ?rest" by (metis Cons_eq_appendI append_assoc list.simps(9) map_append)
  moreover have "\<forall>e \<in> set ?a. transient e" using assms(1) by (auto dest: in_set_takeD)
  then obtain ds where "with_retry True transient 0 [] (map Inl ?a @ Inl (es ! 32) # ?rest)
      = with_retry True transient 32 ds (Inl (es ! 32) # ?rest)"
    using with_retry_transient[of ?a transient 0 True "[]" "Inl (es ! 32) # ?rest"] assms(2) by auto
  moreover have "transient (es ! 32)" using assms by simp
  ultimately show ?thesis by (simp add: retry_backoff_def)
qed

end
