(* ===== verification/Ntx_Builder.thy ===== *)
theory Ntx_Builder
  imports Ntx_Transaction Guarded_Runs Retry Subscription
begin

text \<open>
  The loop of the network transaction builder (crates/ntx-builder/src/builder/mod.rs): a ticker selects
  candidates and starts a task for each, tasks are joined when they end, and the events of the mempool
  update the state.  The tasks run by themselves between the rounds of the loop; a task's transaction
  reaches the mempool before the reply to its submission, and the mempool's event of it waits in the
  channel until the loop receives it.
\<close>

section \<open>The state\<close>

definition max_notes_per_tx :: nat where
  "max_notes_per_tx = 50"

definition max_in_progress_txs :: nat where
  "max_in_progress_txs = 4"

text \<open>How a task ends: \<open>Joined\<close> with its result, or \<open>JoinFailed\<close> when it panicked.\<close>

datatype task_end = Joined "ntx_tx_error + unit" | JoinFailed

datatype ntx_task =
    Preparing tx_candidate
  | Proven proven_tx
  | Accepted proven_tx
  | Ended task_end

text \<open>\<open>nb_tasks\<close> is the join set, \<open>nb_idx\<close> the accounts of its tasks, \<open>nb_events\<close> the events not yet received.\<close>

record 'w ntx_builder =
  nb_state :: "'w ntx_state"
  nb_tasks :: "(nat \<times> ntx_task) list"
  nb_idx :: "nat \<rightharpoonup> network_account_prefix"
  nb_events :: "mempool_event list"

datatype ntx_serve_error =
    GenesisFetchFailed lib_error
  | LoadFailed store_error
  | TipFetchFailed lib_error
  | NoChainTip
  | SubscribeFailed lib_error
  | StreamEnded
  | StreamFailed lib_error
  | UpdateFailed ntx_error

definition set_task :: "nat \<Rightarrow> ntx_task \<Rightarrow> (nat \<times> ntx_task) list \<Rightarrow> (nat \<times> ntx_task) list" where
  "set_task i t ts = map (\<lambda>(j, u). (j, if j = i then t else u)) ts"

definition remove_task :: "nat \<Rightarrow> (nat \<times> ntx_task) list \<Rightarrow> (nat \<times> ntx_task) list" where
  "remove_task i ts = filter (\<lambda>(j, u). j \<noteq> i) ts"

section \<open>Starting\<close>

text \<open>
  \<open>StoreError\<close> of the client, without the sources, and the codes of a status as far as they are told apart.
  The two loops that wait for the other servers (store.rs, block_producer.rs).
\<close>

datatype store_client_error = GrpcClientFailed | ResponseMalformed | ResponseUnreadable

datatype status_code = Unavailable | OtherCode

definition genesis_header_with_retry :: "bool \<Rightarrow> (store_client_error + block_header) list \<Rightarrow> (store_client_error, block_header) retried" where
  "genesis_header_with_retry overflow_checks answers = with_retry overflow_checks (\<lambda>e. e = GrpcClientFailed) 0 [] answers"

definition subscribe_to_mempool_with_retry :: "bool \<Rightarrow> (status_code + mempool_event list) list \<Rightarrow> (status_code, mempool_event list) retried" where
  "subscribe_to_mempool_with_retry overflow_checks answers = with_retry overflow_checks (\<lambda>e. e = Unavailable) 0 [] answers"

text \<open>Each gets through up to 32 failures, and panics with overflow checks at the next.\<close>

lemma startup_retries:
  "n \<le> 32 \<Longrightarrow> genesis_header_with_retry True (replicate n (Inl GrpcClientFailed) @ Inr header # rest) = Answered header"
  "32 < n \<Longrightarrow> genesis_header_with_retry True (replicate n (Inl GrpcClientFailed) @ rest) = RetryPanics"
  "n \<le> 32 \<Longrightarrow> subscribe_to_mempool_with_retry True (replicate n (Inl Unavailable) @ Inr events # others) = Answered events"
  "32 < n \<Longrightarrow> subscribe_to_mempool_with_retry True (replicate n (Inl Unavailable) @ others) = RetryPanics"
  using retry_answered[of "replicate n GrpcClientFailed" "\<lambda>e. e = GrpcClientFailed"] retry_overflows[of "replicate n GrpcClientFailed" "\<lambda>e. e = GrpcClientFailed"]
    retry_answered[of "replicate n Unavailable" "\<lambda>e. e = Unavailable"] retry_overflows[of "replicate n Unavailable" "\<lambda>e. e = Unavailable"]
  by (auto simp: genesis_header_with_retry_def subscribe_to_mempool_with_retry_def)

text \<open>
  \<open>serve_new\<close> up to its loop, with the answers of the store and of the block producer: the genesis header,
  the chain tip, and the events that a subscription at a tip is sent.
\<close>

definition ntx_serve :: "'w account_query \<Rightarrow> 'w notes_query \<Rightarrow> 'w \<Rightarrow> lib_error + block_header \<Rightarrow> lib_error + block_header option \<Rightarrow>
    (block_number \<Rightarrow> lib_error + mempool_event list) \<Rightarrow> ('w ntx_state, ntx_serve_error, block_header \<times> 'w ntx_builder) outcome" where
  "ntx_serve get_account get_notes w genesis chain_tip subscribe_at =
     (case genesis of
        Inl e \<Rightarrow> Err (ntx_default w) (GenesisFetchFailed e)
      | Inr genesis_header \<Rightarrow>
          and_then (map_err LoadFailed (load_state get_account get_notes w)) (\<lambda>s _.
          (case chain_tip of
             Inl e \<Rightarrow> Err s (TipFetchFailed e)
           | Inr None \<Rightarrow> Err s NoChainTip
           | Inr (Some tip) \<Rightarrow>
               (case subscribe_at (bh_block_num tip) of
                  Inl e \<Rightarrow> Err s (SubscribeFailed e)
                | Inr events \<Rightarrow>
                    Ok s (genesis_header, \<lparr>nb_state = s, nb_tasks = [], nb_idx = Map.empty, nb_events = events\<rparr>)))))"

section \<open>The steps\<close>

text \<open>
  Three steps are branches of the loop: \<open>Tick\<close> with the identifier of the task it may start, \<open>Receive\<close>, and
  \<open>Join\<close>.  A task prepares its transaction, submits it, and gets the reply; it may panic while it prepares.
  \<open>Emit\<close> is an event of the mempool about somebody else's transaction or a block.
\<close>

datatype 'x ntx_event =
    Tick nat
  | Receive
  | StreamEnds
  | StreamFails lib_error
  | Join nat
  | Prepare nat "'x ntx_vm"
  | Submit nat "lib_error option"
  | Reply nat "lib_error option"
  | Abort nat
  | Emit mempool_event

definition on_tick :: "nat \<Rightarrow> 'w ntx_builder \<Rightarrow> ('w ntx_builder, ntx_serve_error, unit) outcome" where
  "on_tick i b =
     (if length (nb_tasks b) > max_in_progress_txs then Ok b ()
      else and_then (in_field (\<lambda>s. b\<lparr>nb_state := s\<rparr>) (select_candidate (nb_state b) max_notes_per_tx)) (\<lambda>b selected.
        case selected of
          None \<Rightarrow> Ok b ()
        | Some candidate \<Rightarrow>
            (case prefix_try_from_account (acc_ident (tc_account candidate)) of
               Inl e \<Rightarrow> Panic
             | Inr p \<Rightarrow> Ok (b\<lparr>nb_tasks := nb_tasks b @ [(i, Preparing candidate)], nb_idx := (nb_idx b)(i \<mapsto> p)\<rparr>) ())))"

definition on_event :: "'w account_query \<Rightarrow> (account \<Rightarrow> account_delta \<Rightarrow> account option) \<Rightarrow> 'w ntx_builder \<Rightarrow>
    ('w ntx_builder, ntx_serve_error, unit) outcome" where
  "on_event get_account apply_delta b =
     (case nb_events b of
        [] \<Rightarrow> Ok b ()
      | ev # events \<Rightarrow>
          map_err UpdateFailed (in_field (\<lambda>s. b\<lparr>nb_state := s, nb_events := events\<rparr>)
            (mempool_update get_account apply_delta (nb_state b) ev)))"

definition on_join :: "nat \<Rightarrow> 'w ntx_builder \<Rightarrow> ('w ntx_builder, ntx_serve_error, unit) outcome" where
  "on_join i b =
     (case map_of (nb_tasks b) i of
        Some (Ended completed) \<Rightarrow>
          (case nb_idx b i of
             None \<Rightarrow> Panic
           | Some candidate \<Rightarrow>
               let b = b\<lparr>nb_tasks := remove_task i (nb_tasks b), nb_idx := (nb_idx b)(i := None)\<rparr> in
               (case completed of
                  Joined (Inr _) \<Rightarrow> Ok b ()
                | Joined (Inl err) \<Rightarrow> Ok (b\<lparr>nb_state := candidate_failed (nb_state b) candidate\<rparr>) ()
                | JoinFailed \<Rightarrow> Ok (b\<lparr>nb_state := candidate_failed (nb_state b) candidate\<rparr>) ()))
      | _ \<Rightarrow> Ok b ())"

text \<open>The event that the mempool emits for an accepted transaction depends on the transaction alone.\<close>

definition submitted_event :: "proven_tx \<Rightarrow> mempool_event" where
  "submitted_event tx = added_event \<lparr>tx_inner = tx, tx_store_account_state = None,
     tx_notes_authenticated_by_store = {}, tx_authentication_height = 0\<rparr>"

lemma submitted_event_of: "added_event atx = submitted_event (tx_inner atx)"
  by (simp add: submitted_event_def added_event_def tx_id_def tx_nullifiers_def tx_output_notes_def)

text \<open>A task that is not where the step expects it stays as it is.\<close>

definition move_task :: "nat \<Rightarrow> (ntx_task \<Rightarrow> (ntx_task \<times> mempool_event list) option) \<Rightarrow> 'w ntx_builder \<Rightarrow> 'w ntx_builder" where
  "move_task i f b =
     (case Option.bind (map_of (nb_tasks b) i) f of
        None \<Rightarrow> b
      | Some (t, events) \<Rightarrow> b\<lparr>nb_tasks := set_task i t (nb_tasks b), nb_events := nb_events b @ events\<rparr>)"

fun task_prepares :: "'x ntx_vm \<Rightarrow> 'x ntx_context \<Rightarrow> ntx_task \<Rightarrow> (ntx_task \<times> mempool_event list) option" where
  "task_prepares V C (Preparing cand) =
     Some (case prepare_transaction V C cand of Inl e \<Rightarrow> Ended (Joined (Inl e)) | Inr tx \<Rightarrow> Proven tx, [])"
| "task_prepares V C t = None"

fun task_submits :: "lib_error option \<Rightarrow> ntx_task \<Rightarrow> (ntx_task \<times> mempool_event list) option" where
  "task_submits refused (Proven tx) =
     Some (case refused of Some e \<Rightarrow> (Ended (Joined (Inl (Submission e))), []) | None \<Rightarrow> (Accepted tx, [submitted_event tx]))"
| "task_submits refused t = None"

fun task_gets_reply :: "lib_error option \<Rightarrow> ntx_task \<Rightarrow> (ntx_task \<times> mempool_event list) option" where
  "task_gets_reply lost (Accepted tx) =
     Some (Ended (Joined (case lost of Some e \<Rightarrow> Inl (Submission e) | None \<Rightarrow> Inr ())), [])"
| "task_gets_reply lost t = None"

fun task_aborts :: "ntx_task \<Rightarrow> (ntx_task \<times> mempool_event list) option" where
  "task_aborts (Preparing cand) = Some (Ended JoinFailed, [])"
| "task_aborts t = None"

fun ntx_step :: "'w account_query \<Rightarrow> (account \<Rightarrow> account_delta \<Rightarrow> account option) \<Rightarrow> 'x ntx_context \<Rightarrow> 'w ntx_builder \<Rightarrow>
    'x ntx_event \<Rightarrow> ('w ntx_builder, ntx_serve_error, unit) outcome" where
  "ntx_step get_account apply_delta C b (Tick i) = on_tick i b"
| "ntx_step get_account apply_delta C b Receive = on_event get_account apply_delta b"
| "ntx_step get_account apply_delta C b StreamEnds = Err b StreamEnded"
| "ntx_step get_account apply_delta C b (StreamFails e) = Err b (StreamFailed e)"
| "ntx_step get_account apply_delta C b (Join i) = on_join i b"
| "ntx_step get_account apply_delta C b (Prepare i V) = Ok (move_task i (task_prepares V C) b) ()"
| "ntx_step get_account apply_delta C b (Submit i refused) = Ok (move_task i (task_submits refused) b) ()"
| "ntx_step get_account apply_delta C b (Reply i lost) = Ok (move_task i (task_gets_reply lost) b) ()"
| "ntx_step get_account apply_delta C b (Abort i) = Ok (move_task i task_aborts b) ()"
| "ntx_step get_account apply_delta C b (Emit ev) = Ok (b\<lparr>nb_events := nb_events b @ [ev]\<rparr>) ()"

definition ntx_next :: "'w account_query \<Rightarrow> (account \<Rightarrow> account_delta \<Rightarrow> account option) \<Rightarrow> 'x ntx_context \<Rightarrow> 'w ntx_builder \<Rightarrow>
    'x ntx_event \<Rightarrow> 'w ntx_builder \<Rightarrow> bool" where
  "ntx_next get_account apply_delta C b ev b' \<longleftrightarrow> ntx_step get_account apply_delta C b ev = Ok b' ()"

fun run_ntx_steps :: "'w account_query \<Rightarrow> (account \<Rightarrow> account_delta \<Rightarrow> account option) \<Rightarrow> 'x ntx_context \<Rightarrow> 'w ntx_builder \<Rightarrow>
    'x ntx_event list \<Rightarrow> ('w ntx_builder, ntx_serve_error, unit) outcome" where
  "run_ntx_steps get_account apply_delta C b [] = Ok b ()"
| "run_ntx_steps get_account apply_delta C b (ev # evs) =
     and_then (ntx_step get_account apply_delta C b ev) (\<lambda>b _. run_ntx_steps get_account apply_delta C b evs)"

text \<open>The task of the model is the code's: prepared, submitted and answered, it ends as \<open>execute_transaction\<close> does.\<close>

lemma task_ends_as_executed:
  assumes "task_prepares V C (Preparing cand) = Some (t, [])"
  shows "case t of
      Ended e \<Rightarrow> e = Joined (execute_transaction V C submit cand)
    | Proven tx \<Rightarrow> execute_transaction V C submit cand = map_fail Submission (submit tx)
    | _ \<Rightarrow> False"
  using assms by (auto simp: execute_transaction_def split: sum.splits)

end
