(* ===== verification/Ntx_Builder_Safety.thy ===== *)
theory Ntx_Builder_Safety
  imports Ntx_Builder
begin

text \<open>
  The loop of the network transaction builder keeps its bookkeeping: in every run its index has exactly the running
  tasks, and in a run that nobody disturbs an account is locked exactly while one task works on it or
  the event of its accepted transaction is on its way.
\<close>

section \<open>What the handlers do to the tracked accounts\<close>

text \<open>Every state of a tracked account belongs to the prefix it is tracked under.\<close>

definition account_matches :: "network_account_prefix \<Rightarrow> ntx_account \<Rightarrow> bool" where
  "account_matches p a \<longleftrightarrow> (\<forall>acc. na_committed a = Some acc \<or> acc \<in> set (na_inflight a) \<longrightarrow>
     prefix_try_from_account (acc_ident acc) = Inr p)"

definition accounts_match :: "'w ntx_state \<Rightarrow> bool" where
  "accounts_match s \<longleftrightarrow> (\<forall>p a. ns_accounts s p = Some a \<longrightarrow> account_matches p a)"

text \<open>
  The store answers with the account that was asked for, and a delta keeps an account's identity.
\<close>

definition answers_match :: "'w account_query \<Rightarrow> bool" where
  "answers_match get_account \<longleftrightarrow> (\<forall>w p w' acc. get_account w p = (w', Inr (Some acc)) \<longrightarrow>
     prefix_try_from_account (acc_ident acc) = Inr p)"

definition keeps_identity :: "(account \<Rightarrow> account_delta \<Rightarrow> account option) \<Rightarrow> bool" where
  "keeps_identity apply_delta \<longleftrightarrow> (\<forall>acc d acc'. apply_delta acc d = Some acc' \<longrightarrow> acc_ident acc' = acc_ident acc)"

text \<open>A handler releases the accounts \<open>R\<close> and no other, tracks what it tracked, and keeps the match.\<close>

definition tracks :: "network_account_prefix set \<Rightarrow> 'w ntx_state \<Rightarrow> 'w ntx_state \<Rightarrow> bool" where
  "tracks R s s' \<longleftrightarrow> ns_in_progress s' = ns_in_progress s - R
     \<and> dom (ns_accounts s) \<subseteq> dom (ns_accounts s') \<and> (accounts_match s \<longrightarrow> accounts_match s')"

lemma tracks_refl [simp]: "tracks {} s s"
  by (simp add: tracks_def)

lemma tracks_trans: "tracks R s s' \<Longrightarrow> tracks {} s' s'' \<Longrightarrow> tracks R s s''" "tracks {} s s' \<Longrightarrow> tracks R s' s'' \<Longrightarrow> tracks R s s''"
  unfolding tracks_def by (metis Diff_empty subset_trans)+

lemma tracks_frame:
  "ns_in_progress s' = ns_in_progress s \<Longrightarrow> ns_accounts s' = ns_accounts s \<Longrightarrow> tracks {} s s'"
  by (simp add: tracks_def accounts_match_def)

lemma tracks_put:
  "ns_accounts s p = Some a \<Longrightarrow> (account_matches p a \<Longrightarrow> account_matches p a') \<Longrightarrow> tracks {} s (put_ntx_account s p a')"
  by (auto simp: tracks_def put_ntx_account_def accounts_match_def)

lemma account_matches_frame:
  "na_committed a' = na_committed a \<Longrightarrow> na_inflight a' = na_inflight a \<Longrightarrow> account_matches p a' = account_matches p a"
  by (simp add: account_matches_def)

lemma note_ops_match [simp]:
  "account_matches p (add_note a n) = account_matches p a"
  "account_matches p (revert_note a k) = account_matches p a"
  "account_matches p (revert_nullifier a k) = account_matches p a"
  by (rule account_matches_frame; simp add: add_note_def revert_note_def revert_nullifier_def split: option.split)+

lemma add_nullifier_matches: "add_nullifier a k = Ok a' r \<Longrightarrow> account_matches p a \<Longrightarrow> account_matches p a'"
  by (auto simp: add_nullifier_def account_matches_def split: option.splits)

lemma commit_nullifier_matches: "commit_nullifier a k = Ok a' r \<Longrightarrow> account_matches p a \<Longrightarrow> account_matches p a'"
  by (auto simp: commit_nullifier_def account_matches_def split: if_splits)

lemma commit_delta_matches: "commit_delta a = Ok a' r \<Longrightarrow> account_matches p a \<Longrightarrow> account_matches p a'"
  by (auto simp: commit_delta_def account_matches_def split: list.splits)

lemma revert_delta_matches: "revert_delta a = Ok a' r \<Longrightarrow> account_matches p a \<Longrightarrow> account_matches p a'"
  by (auto simp: revert_delta_def account_matches_def Let_def split: if_splits) (blast dest: in_set_butlastD)+

lemma latest_matches: "account_matches p a \<Longrightarrow> latest_account a = Some acc \<Longrightarrow> prefix_try_from_account (acc_ident acc) = Inr p"
  by (auto simp: account_matches_def latest_account_def split: if_splits)

lemma add_delta_matches:
  assumes "keeps_identity apply_delta" and "add_delta apply_delta a d = Ok a' r" and "account_matches p a"
  shows "account_matches p a'"
proof -
  from assms(2) obtain acc acc' where "latest_account a = Some acc" "apply_delta acc d = Some acc'"
    "a' = a\<lparr>na_inflight := na_inflight a @ [acc']\<rparr>"
    by (auto simp: add_delta_def bind_eq_Some_conv split: option.splits)
  moreover from this assms(1) latest_matches[OF assms(3)] have "prefix_try_from_account (acc_ident acc') = Inr p"
    unfolding keeps_identity_def by metis
  ultimately show ?thesis using assms(3) by (auto simp: account_matches_def)
qed

section \<open>The handlers\<close>

lemma fetch_account_tracks:
  assumes "answers_match get_account" and "fetch_account get_account s p = Ok s' found"
  shows "tracks {} s s'" and "found = ns_accounts s' p"
proof -
  have m: "account_matches p (from_committed_account acc)" if "get_account (ns_store s) p = (w, Inr (Some acc))" for w acc
    using assms(1) that by (simp add: account_matches_def answers_match_def from_committed_account_def)
  show "tracks {} s s'" "found = ns_accounts s' p"
    using assms(2) m
    by (auto simp: fetch_account_def Let_def tracks_def accounts_match_def split: option.splits prod.splits sum.splits if_splits)
qed

lemma load_notes_tracks:
  assumes "answers_match get_account"
  shows "load_notes get_account s ns = Ok s' r \<Longrightarrow> tracks {} s s'"
proof (induction ns arbitrary: s)
  case (Cons n ns)
  then obtain p s1 found where f: "fetch_account get_account s p = Ok s1 found" and
    l: "load_notes get_account (case found of None \<Rightarrow> s1 | Some a \<Rightarrow> put_ntx_account s1 p (add_note a n)) ns = Ok s' r"
    by (auto simp: and_then_eq_Ok split: option.splits)
  note f = fetch_account_tracks[OF assms f]
  have "tracks {} s1 (case found of None \<Rightarrow> s1 | Some a \<Rightarrow> put_ntx_account s1 p (add_note a n))"
    using f(2) by (auto intro: tracks_put split: option.split)
  with f(1) Cons.IH[OF l] show ?case by (blast intro: tracks_trans)
qed simp

lemma add_network_notes_tracks:
  assumes "answers_match get_account"
  shows "add_network_notes get_account s i ns = Ok s' r \<Longrightarrow> tracks {} s s'"
proof (induction ns arbitrary: s i)
  case (Cons n ns)
  from Cons.prems obtain p where p: "nn_account_prefix n = Some p" by (auto split: option.splits)
  let ?s = "s\<lparr>ns_nullifier_idx := (ns_nullifier_idx s)(nn_nullifier n \<mapsto> p)\<rparr>"
  from Cons.prems p obtain s1 found where f: "fetch_account get_account ?s p = Ok s1 found" and
    l: "add_network_notes get_account (case found of None \<Rightarrow> s1 | Some a \<Rightarrow> put_ntx_account s1 p (add_note a n))
      (i\<lparr>im_notes := insert (nn_nullifier n) (im_notes i)\<rparr>) ns = Ok s' r"
    by (cases "fetch_account get_account ?s p") (auto simp: Let_def)
  note f = fetch_account_tracks[OF assms f]
  have "tracks {} s1 (case found of None \<Rightarrow> s1 | Some a \<Rightarrow> put_ntx_account s1 p (add_note a n))"
    using f(2) by (auto intro: tracks_put split: option.split)
  moreover have "tracks {} s ?s" by (rule tracks_frame) simp_all
  ultimately show ?case using f(1) Cons.IH[OF l] by (blast intro: tracks_trans)
qed simp

lemma add_nullifiers_tracks:
  "(add_nullifiers s i ks :: ('w ntx_state, 'e, tx_impact) outcome) = Ok s' r \<Longrightarrow> tracks {} s s'"
proof (induction ks arbitrary: s i)
  case (Cons k ks)
  show ?case
  proof (cases "ns_nullifier_idx s k")
    case (Some p)
    with Cons.prems obtain a a' where a: "ns_accounts s p = Some a" "add_nullifier a k = (Ok a' () :: (ntx_account, 'e, unit) outcome)"
      and l: "(add_nullifiers (put_ntx_account s p a') (i\<lparr>im_nullifiers := insert k (im_nullifiers i)\<rparr>) ks :: ('w ntx_state, 'e, tx_impact) outcome) = Ok s' r"
      by (auto simp: outcome_Ok_iffs split: option.splits)
    have "tracks {} s (put_ntx_account s p a')" by (rule tracks_put[OF a(1)]) (rule add_nullifier_matches[OF a(2)])
    with Cons.IH[OF l] show ?thesis by (blast intro: tracks_trans)
  qed (use Cons in simp)
qed simp

lemma commit_nullifiers_tracks:
  "(commit_nullifiers s ks :: ('w ntx_state, 'e, unit) outcome) = Ok s' r \<Longrightarrow> tracks {} s s'"
proof (induction ks arbitrary: s)
  case (Cons k ks)
  then obtain p where p: "ns_nullifier_idx s k = Some p" by (auto split: option.splits)
  let ?s = "s\<lparr>ns_nullifier_idx := (ns_nullifier_idx s)(k := None)\<rparr>"
  have s: "tracks {} s ?s" by (rule tracks_frame) simp_all
  show ?case
  proof (cases "ns_accounts s p")
    case (Some a)
    with Cons.prems p obtain a' where a: "commit_nullifier a k = (Ok a' () :: (ntx_account, 'e, unit) outcome)"
      and l: "(commit_nullifiers (put_ntx_account ?s p a') ks :: ('w ntx_state, 'e, unit) outcome) = Ok s' r" by (auto simp: outcome_Ok_iffs Let_def)
    have "tracks {} ?s (put_ntx_account ?s p a')" by (rule tracks_put) (use Some in simp, rule commit_nullifier_matches[OF a])
    with s Cons.IH[OF l] show ?thesis by (blast intro: tracks_trans)
  next
    case None
    with Cons.prems p have "(commit_nullifiers ?s ks :: ('w ntx_state, 'e, unit) outcome) = Ok s' r" by (simp add: Let_def)
    with s Cons.IH show ?thesis by (blast intro: tracks_trans)
  qed
qed simp

lemma revert_loops_track:
  fixes s s' :: "'w ntx_state"
  shows "(revert_notes s ks :: ('w ntx_state, 'e, unit) outcome) = Ok s' r \<Longrightarrow> tracks {} s s'"
    and "(revert_nullifiers s ks :: ('w ntx_state, 'e, unit) outcome) = Ok s' r \<Longrightarrow> tracks {} s s'"
proof -
  have put: "tracks {} s (case ns_accounts s p of None \<Rightarrow> s | Some a \<Rightarrow> put_ntx_account s p (f a))"
    if "\<And>a. account_matches p a \<Longrightarrow> account_matches p (f a)" for s :: "'w ntx_state" and p f
    using that by (auto intro: tracks_put split: option.split)
  show "(revert_notes s ks :: ('w ntx_state, 'e, unit) outcome) = Ok s' r \<Longrightarrow> tracks {} s s'"
  proof (induction ks arbitrary: s)
    case (Cons k ks)
    then obtain p where p: "ns_nullifier_idx s k = Some p" by (auto split: option.splits)
    let ?s = "s\<lparr>ns_nullifier_idx := (ns_nullifier_idx s)(k := None)\<rparr>"
    let ?t = "case ns_accounts ?s p of None \<Rightarrow> ?s | Some a \<Rightarrow> put_ntx_account ?s p (revert_note a k)"
    have "tracks {} s ?s" by (rule tracks_frame) simp_all
    moreover have "tracks {} ?s ?t" by (rule put) simp
    moreover from Cons.prems p have "(revert_notes ?t ks :: ('w ntx_state, 'e, unit) outcome) = Ok s' r" by (simp add: Let_def)
    ultimately show ?case using Cons.IH by (blast intro: tracks_trans)
  qed simp
  show "(revert_nullifiers s ks :: ('w ntx_state, 'e, unit) outcome) = Ok s' r \<Longrightarrow> tracks {} s s'"
  proof (induction ks arbitrary: s)
    case (Cons k ks)
    then obtain p where p: "ns_nullifier_idx s k = Some p" by (auto split: option.splits)
    let ?t = "case ns_accounts s p of None \<Rightarrow> s | Some a \<Rightarrow> put_ntx_account s p (revert_nullifier a k)"
    have "tracks {} s ?t" by (rule put) simp
    moreover from Cons.prems p have "(revert_nullifiers ?t ks :: ('w ntx_state, 'e, unit) outcome) = Ok s' r" by simp
    ultimately show ?case using Cons.IH by (blast intro: tracks_trans)
  qed simp
qed


text \<open>The account that an event releases.\<close>

fun released :: "mempool_event \<Rightarrow> network_account_prefix set" where
  "released (TransactionAdded t nullifiers notes details) =
     set_option (Option.bind (Option.bind details update_from_protocol) update_prefix)"
| "released (BlockCommitted header txs) = {}"
| "released (TransactionsReverted txs) = {}"

lemma tracks_release: "tracks {} s s' \<Longrightarrow> tracks {p} s (s'\<lparr>ns_in_progress := ns_in_progress s' - {p}\<rparr>)"
  by (auto simp: tracks_def accounts_match_def)

lemma add_account_update_tracks:
  assumes lib: "answers_match get_account" "keeps_identity apply_delta"
    and r: "add_account_update get_account apply_delta s details = Ok s' r"
  shows "tracks (set_option (Option.bind (Option.bind details update_from_protocol) update_prefix)) s s'"
proof (cases "Option.bind details update_from_protocol")
  case (Some u)
  with r obtain p where p: "update_prefix u = Some p" by (auto simp: add_account_update_def split: option.splits)
  have "tracks {p} s s'"
  proof (cases u)
    case (NewNetworkAccount acc)
    let ?s = "s\<lparr>ns_accounts := (ns_accounts s)(p \<mapsto> from_uncommitted_account acc), ns_queue := ns_queue s @ [p]\<rparr>"
    from NewNetworkAccount r Some p have s': "s' = ?s\<lparr>ns_in_progress := ns_in_progress ?s - {p}\<rparr>"
      by (simp add: add_account_update_def)
    from NewNetworkAccount p have "prefix_try_from_account (acc_ident acc) = Inr p"
      by (auto simp: update_prefix_def split: sum.splits)
    then have "tracks {} s ?s" by (auto simp: tracks_def accounts_match_def account_matches_def from_uncommitted_account_def)
    then show ?thesis unfolding s' by (rule tracks_release)
  next
    case (NetworkAccountDelta d)
    with r Some p obtain s1 a where f: "fetch_account get_account s p = Ok s1 (Some a)" and
      d: "and_then (in_field (put_ntx_account s1 p) (add_delta apply_delta a d :: (ntx_account, ntx_error, unit) outcome))
        (\<lambda>s _. Ok (s\<lparr>ns_in_progress := ns_in_progress s - {p}\<rparr>) (Some p)) = Ok s' r"
      by (cases "fetch_account get_account s p") (auto simp: add_account_update_def split: option.splits)
    from d obtain a' where a': "add_delta apply_delta a d = (Ok a' () :: (ntx_account, ntx_error, unit) outcome)"
      and s': "s' = put_ntx_account s1 p a'\<lparr>ns_in_progress := ns_in_progress (put_ntx_account s1 p a') - {p}\<rparr>"
      by (auto simp: outcome_Ok_iffs)
    note f = fetch_account_tracks[OF lib(1) f]
    have "tracks {} s1 (put_ntx_account s1 p a')"
      by (rule tracks_put[OF f(2)[symmetric]]) (rule add_delta_matches[OF lib(2) a'])
    then show ?thesis unfolding s' using f(1) by (intro tracks_release) (rule tracks_trans)
  qed
  with Some p show ?thesis by simp
qed (use r in \<open>simp add: add_account_update_def\<close>)

lemma ntx_add_transaction_tracks:
  fixes s s' :: "'w ntx_state"
  assumes lib: "answers_match get_account" "keeps_identity apply_delta" and new: "ns_inflight_txs s t = None"
    and r: "ntx_add_transaction get_account apply_delta s t nullifiers notes details = Ok s' r"
  shows "tracks (set_option (Option.bind (Option.bind details update_from_protocol) update_prefix)) s s'"
proof -
  from r new obtain s1 prefix s2 i s3 i' where
    1: "add_account_update get_account apply_delta s details = Ok s1 prefix" and
    2: "add_network_notes get_account s1 (impact_default\<lparr>im_account_delta := prefix\<rparr>) notes = Ok s2 i" and
    3: "add_nullifiers s2 i nullifiers = (Ok s3 i' :: ('w ntx_state, ntx_error, tx_impact) outcome)" and
    4: "(if impact_is_empty i' then Ok s3 () else Ok (s3\<lparr>ns_inflight_txs := (ns_inflight_txs s3)(t \<mapsto> i')\<rparr>) ()) = (Ok s' r :: ('w ntx_state, ntx_error, unit) outcome)"
    by (auto simp: ntx_add_transaction_def and_then_eq_Ok domIff)
  have "tracks {} s3 s'" using 4 by (auto split: if_splits intro: tracks_frame)
  with add_account_update_tracks[OF lib 1] add_network_notes_tracks[OF lib(1) 2] add_nullifiers_tracks[OF 3]
  show ?thesis by (blast intro: tracks_trans)
qed

lemma commit_transaction_tracks:
  fixes s s' :: "'w ntx_state"
  assumes r: "(commit_transaction s t :: ('w ntx_state, 'e, unit) outcome) = Ok s' r"
  shows "tracks {} s s'"
proof (cases "ns_inflight_txs s t")
  case (Some i)
  let ?s = "s\<lparr>ns_inflight_txs := (ns_inflight_txs s)(t := None)\<rparr>"
  from r Some obtain s1 where
    1: "(case im_account_delta i of None \<Rightarrow> Ok ?s () | Some p \<Rightarrow> (case ns_accounts ?s p of None \<Rightarrow> Panic
      | Some a \<Rightarrow> in_field (put_ntx_account ?s p) (commit_delta a))) = (Ok s1 () :: ('w ntx_state, 'e, unit) outcome)" and
    2: "commit_nullifiers s1 (sorted_list_of_set (im_nullifiers i)) = (Ok s' r :: ('w ntx_state, 'e, unit) outcome)"
    by (auto simp: commit_transaction_def Let_def and_then_eq_Ok)
  have s: "tracks {} s ?s" by (rule tracks_frame) simp_all
  have "tracks {} ?s s1"
  proof (cases "im_account_delta i")
    case (Some p)
    with 1 obtain a a' where a: "ns_accounts ?s p = Some a" "commit_delta a = (Ok a' () :: (ntx_account, 'e, unit) outcome)"
      "s1 = put_ntx_account ?s p a'" by (auto simp: outcome_Ok_iffs split: option.splits)
    show ?thesis unfolding a(3) by (rule tracks_put[OF a(1)]) (rule commit_delta_matches[OF a(2)])
  qed (use 1 in simp)
  with s commit_nullifiers_tracks[OF 2] show ?thesis by (blast intro: tracks_trans)
qed (use r in \<open>simp add: commit_transaction_def\<close>)

lemma revert_transaction_tracks:
  fixes s s' :: "'w ntx_state"
  assumes r: "(revert_transaction s t :: ('w ntx_state, 'e, unit) outcome) = Ok s' r" and may: "may_revert s t"
  shows "tracks {} s s'"
proof (cases "ns_inflight_txs s t")
  case (Some i)
  let ?s = "s\<lparr>ns_inflight_txs := (ns_inflight_txs s)(t := None)\<rparr>"
  from r Some obtain s1 s2 where
    1: "(case im_account_delta i of None \<Rightarrow> Ok ?s () | Some p \<Rightarrow> (case ns_accounts ?s p of None \<Rightarrow> Panic
      | Some a \<Rightarrow> (case revert_delta a of
           Ok a' created \<Rightarrow> Ok (let s = put_ntx_account ?s p a' in if created then s\<lparr>ns_accounts := (ns_accounts s)(p := None)\<rparr> else s) ()
         | Err _ e \<Rightarrow> Err ?s e | Panic \<Rightarrow> Panic | Diverge \<Rightarrow> Diverge))) = (Ok s1 () :: ('w ntx_state, 'e, unit) outcome)" and
    2: "revert_notes s1 (sorted_list_of_set (im_notes i)) = (Ok s2 () :: ('w ntx_state, 'e, unit) outcome)" and
    3: "revert_nullifiers s2 (sorted_list_of_set (im_nullifiers i)) = (Ok s' r :: ('w ntx_state, 'e, unit) outcome)"
    by (auto simp: revert_transaction_def Let_def and_then_eq_Ok)
  have s: "tracks {} s ?s" by (rule tracks_frame) simp_all
  have "tracks {} ?s s1"
  proof (cases "im_account_delta i")
    case (Some p)
    with 1 obtain a a' created where a: "ns_accounts ?s p = Some a" "revert_delta a = (Ok a' created :: (ntx_account, 'e, bool) outcome)"
      "s1 = (let s = put_ntx_account ?s p a' in if created then s\<lparr>ns_accounts := (ns_accounts s)(p := None)\<rparr> else s)"
      by (auto split: option.splits outcome.splits)
    have "na_committed a \<noteq> None \<or> length (na_inflight a) > 1"
      using may \<open>ns_inflight_txs s t = Some i\<close> Some a(1) by (simp add: may_revert_def)
    then have "\<not> created" using a(2) by (cases "na_inflight a") (auto simp: revert_delta_def Let_def split: if_splits)
    then have s1: "s1 = put_ntx_account ?s p a'" using a(3) by simp
    show ?thesis unfolding s1 by (rule tracks_put[OF a(1)]) (rule revert_delta_matches[OF a(2)])
  qed (use 1 in simp)
  with s revert_loops_track(1)[OF 2] revert_loops_track(2)[OF 3] show ?thesis by (blast intro: tracks_trans)
qed (use r in \<open>simp add: revert_transaction_def\<close>)

lemma commits_track:
  "(commit_transactions_of s ts :: ('w ntx_state, 'e, unit) outcome) = Ok s' r \<Longrightarrow> tracks {} s s'"
proof (induction ts arbitrary: s)
  case (Cons t ts)
  then obtain s1 where "commit_transaction s t = (Ok s1 () :: ('w ntx_state, 'e, unit) outcome)"
    "commit_transactions_of s1 ts = (Ok s' r :: ('w ntx_state, 'e, unit) outcome)" by (auto simp: and_then_eq_Ok)
  with commit_transaction_tracks[OF this(1)] Cons.IH show ?case by (blast intro: tracks_trans)
qed simp

lemma reverts_track:
  "(revert_transactions_of s ts :: ('w ntx_state, ntx_error, unit) outcome) = Ok s' r \<Longrightarrow> reverts_in_order s ts \<Longrightarrow> tracks {} s s'"
proof (induction ts arbitrary: s)
  case (Cons t ts)
  then obtain s1 where 1: "revert_transaction s t = (Ok s1 () :: ('w ntx_state, ntx_error, unit) outcome)" and
    2: "revert_transactions_of s1 ts = (Ok s' r :: ('w ntx_state, ntx_error, unit) outcome)" by (auto simp: and_then_eq_Ok)
  with Cons.prems have "may_revert s t" "reverts_in_order s1 ts" by simp_all
  with revert_transaction_tracks[OF 1] Cons.IH[OF 2] show ?case by (blast intro: tracks_trans)
qed simp

fun fresh_event :: "'w ntx_state \<Rightarrow> mempool_event \<Rightarrow> bool" where
  "fresh_event s (TransactionAdded t nullifiers notes details) \<longleftrightarrow> ns_inflight_txs s t = None"
| "fresh_event s (BlockCommitted header txs) = True"
| "fresh_event s (TransactionsReverted txs) = True"

lemma mempool_update_tracks:
  assumes "answers_match get_account" "keeps_identity apply_delta" "fresh_event s ev"
    and "in_order get_account apply_delta s (MempoolEvent ev)" and "mempool_update get_account apply_delta s ev = Ok s' r"
  shows "tracks (released ev) s s'"
  using assms by (cases ev) (auto simp del: set_bind_option Option.bind_assoc intro: ntx_add_transaction_tracks commits_track reverts_track)


section \<open>The invariant of the loop\<close>

text \<open>A task that has not reached the mempool keeps its account locked; so does one that failed, until it is joined.\<close>

fun holds_lock :: "ntx_task \<Rightarrow> bool" where
  "holds_lock (Preparing candidate) = True"
| "holds_lock (Proven tx) = True"
| "holds_lock (Accepted tx) = False"
| "holds_lock (Ended (Joined (Inl e))) = True"
| "holds_lock (Ended (Joined (Inr u))) = False"
| "holds_lock (Ended JoinFailed) = True"

text \<open>The event that a transaction changed the account.\<close>

fun updates_account :: "network_account_prefix \<Rightarrow> mempool_event \<Rightarrow> bool" where
  "updates_account p (TransactionAdded t nullifiers notes (Some (DeltaUpdate d))) \<longleftrightarrow> prefix_try_from_account (delta_ident d) = Inr p"
| "updates_account p ev = False"

definition num_working :: "'w ntx_builder \<Rightarrow> network_account_prefix \<Rightarrow> nat" where
  "num_working b p = length (filter (\<lambda>(i, t). nb_idx b i = Some p \<and> holds_lock t) (nb_tasks b))"

definition num_awaited :: "'w ntx_builder \<Rightarrow> network_account_prefix \<Rightarrow> nat" where
  "num_awaited b p = length (filter (updates_account p) (nb_events b))"

fun task_ok :: "network_account_prefix \<Rightarrow> ntx_task \<Rightarrow> bool" where
  "task_ok p (Preparing candidate) \<longleftrightarrow> prefix_try_from_account (acc_ident (tc_account candidate)) = Inr p"
| "task_ok p (Proven tx) \<longleftrightarrow> ptx_account_is_network tx
     \<and> (\<exists>d. ptx_details tx = DeltaUpdate d \<and> prefix_try_from_account (delta_ident d) = Inr p)"
| "task_ok p t \<longleftrightarrow> True"

text \<open>What holds in every run, and with the locks counted.\<close>

definition builder_base :: "'w ntx_builder \<Rightarrow> bool" where
  "builder_base b \<longleftrightarrow> ntx_safe (nb_state b) \<and> accounts_match (nb_state b)
     \<and> ns_in_progress (nb_state b) \<subseteq> dom (ns_accounts (nb_state b))
     \<and> distinct (map fst (nb_tasks b)) \<and> set (map fst (nb_tasks b)) = dom (nb_idx b)
     \<and> length (nb_tasks b) \<le> Suc max_in_progress_txs
     \<and> (\<forall>i cand p. (i, Preparing cand) \<in> set (nb_tasks b) \<longrightarrow> nb_idx b i = Some p \<longrightarrow> task_ok p (Preparing cand))"

definition builder_ok :: "'w ntx_builder \<Rightarrow> bool" where
  "builder_ok b \<longleftrightarrow> builder_base b
     \<and> (\<forall>i t p. (i, t) \<in> set (nb_tasks b) \<longrightarrow> nb_idx b i = Some p \<longrightarrow> task_ok p t)
     \<and> (\<forall>p. num_working b p + num_awaited b p = of_bool (p \<in> ns_in_progress (nb_state b)))"

lemma builder_baseI:
  assumes "ntx_safe (nb_state b)" "accounts_match (nb_state b)" "ns_in_progress (nb_state b) \<subseteq> dom (ns_accounts (nb_state b))"
    "distinct (map fst (nb_tasks b))" "set (map fst (nb_tasks b)) = dom (nb_idx b)" "length (nb_tasks b) \<le> Suc max_in_progress_txs"
    "\<And>i cand p. (i, Preparing cand) \<in> set (nb_tasks b) \<Longrightarrow> nb_idx b i = Some p \<Longrightarrow> task_ok p (Preparing cand)"
  shows "builder_base b"
  using assms unfolding builder_base_def by blast

lemma builder_baseD:
  assumes "builder_base b"
  shows "ntx_safe (nb_state b)" "accounts_match (nb_state b)" "ns_in_progress (nb_state b) \<subseteq> dom (ns_accounts (nb_state b))"
    "distinct (map fst (nb_tasks b))" "set (map fst (nb_tasks b)) = dom (nb_idx b)" "length (nb_tasks b) \<le> Suc max_in_progress_txs"
    "(i, Preparing cand) \<in> set (nb_tasks b) \<Longrightarrow> nb_idx b i = Some p \<Longrightarrow> task_ok p (Preparing cand)"
  using assms unfolding builder_base_def by blast+

lemma builder_okI:
  assumes "builder_base b"
    "\<And>i t p. (i, t) \<in> set (nb_tasks b) \<Longrightarrow> nb_idx b i = Some p \<Longrightarrow> task_ok p t"
    "\<And>p. num_working b p + num_awaited b p = of_bool (p \<in> ns_in_progress (nb_state b))"
  shows "builder_ok b"
  using assms unfolding builder_ok_def by blast

lemma builder_ok_base: "builder_ok b \<Longrightarrow> builder_base b"
  by (simp add: builder_ok_def)

lemma builder_okD:
  assumes "builder_ok b"
  shows "ntx_safe (nb_state b)" "accounts_match (nb_state b)" "ns_in_progress (nb_state b) \<subseteq> dom (ns_accounts (nb_state b))"
    "distinct (map fst (nb_tasks b))" "set (map fst (nb_tasks b)) = dom (nb_idx b)" "length (nb_tasks b) \<le> Suc max_in_progress_txs"
    "(i, t) \<in> set (nb_tasks b) \<Longrightarrow> nb_idx b i = Some p \<Longrightarrow> task_ok p t"
    "num_working b p + num_awaited b p = of_bool (p \<in> ns_in_progress (nb_state b))"
proof -
  note B = builder_baseD[OF builder_ok_base[OF assms]]
  show "ntx_safe (nb_state b)" "accounts_match (nb_state b)" "ns_in_progress (nb_state b) \<subseteq> dom (ns_accounts (nb_state b))"
    "distinct (map fst (nb_tasks b))" "set (map fst (nb_tasks b)) = dom (nb_idx b)" "length (nb_tasks b) \<le> Suc max_in_progress_txs"
    by (rule B)+
  show "(i, t) \<in> set (nb_tasks b) \<Longrightarrow> nb_idx b i = Some p \<Longrightarrow> task_ok p t"
    "num_working b p + num_awaited b p = of_bool (p \<in> ns_in_progress (nb_state b))"
    using assms unfolding builder_ok_def by blast+
qed

section \<open>Tasks move\<close>

lemma set_task_ids [simp]: "map fst (set_task i t ts) = map fst ts" "length (set_task i t ts) = length ts"
  by (simp_all add: set_task_def comp_def case_prod_beta)

lemma in_set_task: "(j, u) \<in> set (set_task i t ts) \<Longrightarrow> (j = i \<and> u = t) \<or> (j \<noteq> i \<and> (j, u) \<in> set ts)"
  by (auto simp: set_task_def split: if_splits)

lemma set_task_other: "i \<notin> fst ` set ts \<Longrightarrow> set_task i t ts = ts"
  unfolding set_task_def by (induction ts) auto

lemma remove_task_other: "i \<notin> fst ` set ts \<Longrightarrow> remove_task i ts = ts"
  unfolding remove_task_def by (induction ts) auto

lemma count_set_task:
  assumes "distinct (map fst ts)" and "map_of ts i = Some u"
  shows "length (filter P (set_task i t ts)) + of_bool (P (i, u)) = length (filter P ts) + of_bool (P (i, t))"
  using assms
proof (induction ts)
  case (Cons x ts)
  obtain j v where x: "x = (j, v)" by fastforce
  have cons: "set_task i t ((j, v) # ts) = (j, if j = i then t else v) # set_task i t ts" by (simp add: set_task_def)
  show ?case
  proof (cases "j = i")
    case True
    with Cons.prems x have "v = u" "i \<notin> fst ` set ts" by auto
    with True show ?thesis unfolding x cons by (simp add: set_task_other)
  next
    case False
    with Cons x show ?thesis unfolding x cons by auto
  qed
qed simp

lemma count_remove_task:
  assumes "distinct (map fst ts)" and "map_of ts i = Some u"
  shows "length (filter P (remove_task i ts)) + of_bool (P (i, u)) = length (filter P ts)"
  using assms
proof (induction ts)
  case (Cons x ts)
  obtain j v where x: "x = (j, v)" by fastforce
  have cons: "remove_task i ((j, v) # ts) = (if j = i then remove_task i ts else (j, v) # remove_task i ts)"
    by (simp add: remove_task_def)
  show ?case
  proof (cases "j = i")
    case True
    with Cons.prems x have "v = u" "i \<notin> fst ` set ts" by auto
    with True show ?thesis unfolding x cons by (simp add: remove_task_other)
  next
    case False
    with Cons x show ?thesis unfolding x cons by auto
  qed
qed simp

lemma move_task_base:
  assumes b: "builder_base b"
    and move: "\<And>u t events. map_of (nb_tasks b) i = Some u \<Longrightarrow> f u = Some (t, events) \<Longrightarrow> \<forall>cand. t \<noteq> Preparing cand"
  shows "builder_base (move_task i f b)"
proof (cases "Option.bind (map_of (nb_tasks b) i) f")
  case (Some x)
  then obtain u t events where u: "map_of (nb_tasks b) i = Some u" "f u = Some (t, events)" "x = (t, events)"
    by (cases x) (auto simp: bind_eq_Some_conv)
  then have eq: "move_task i f b = b\<lparr>nb_tasks := set_task i t (nb_tasks b), nb_events := nb_events b @ events\<rparr>"
    by (simp add: move_task_def)
  show ?thesis unfolding eq
  proof (rule builder_baseI)
    fix j cand p
    assume "(j, Preparing cand) \<in> set (nb_tasks (b\<lparr>nb_tasks := set_task i t (nb_tasks b), nb_events := nb_events b @ events\<rparr>))"
      and p: "nb_idx (b\<lparr>nb_tasks := set_task i t (nb_tasks b), nb_events := nb_events b @ events\<rparr>) j = Some p"
    then have "(j, Preparing cand) \<in> set (nb_tasks b)" using in_set_task move[OF u(1,2)] by fastforce
    then show "task_ok p (Preparing cand)" using builder_baseD(7)[OF b] p by simp
  qed (use builder_baseD[OF b] in simp_all)
qed (use b in \<open>simp add: move_task_def\<close>)

text \<open>The steps of a task leave no task preparing that was not.\<close>

lemma task_moves:
  "task_prepares V C u = Some (t, events) \<Longrightarrow> \<forall>cand. t \<noteq> Preparing cand"
  "task_submits refused u = Some (t, events) \<Longrightarrow> \<forall>cand. t \<noteq> Preparing cand"
  "task_gets_reply lost u = Some (t, events) \<Longrightarrow> \<forall>cand. t \<noteq> Preparing cand"
  "task_aborts u = Some (t, events) \<Longrightarrow> \<forall>cand. t \<noteq> Preparing cand"
  by (cases u; auto split: sum.splits option.splits)+

text \<open>A move keeps the count of each account: a lock that a task gives up is an event on its way.\<close>

lemma move_task_ok:
  assumes b: "builder_ok b" and prep: "\<And>u t events. f u = Some (t, events) \<Longrightarrow> \<forall>cand. t \<noteq> Preparing cand"
    and move: "\<And>u t events p. map_of (nb_tasks b) i = Some u \<Longrightarrow> f u = Some (t, events) \<Longrightarrow> task_ok p u \<Longrightarrow> task_ok p t
      \<and> (\<forall>q. of_bool (q = p \<and> holds_lock t) + length (filter (updates_account q) events) = (of_bool (q = p \<and> holds_lock u) :: nat))"
  shows "builder_ok (move_task i f b)"
proof (cases "Option.bind (map_of (nb_tasks b) i) f")
  case (Some x)
  then obtain u t events where u: "map_of (nb_tasks b) i = Some u" and f: "f u = Some (t, events)"
    by (cases x) (auto simp: bind_eq_Some_conv)
  from u have mem: "(i, u) \<in> set (nb_tasks b)" by (rule map_of_SomeD)
  then have "i \<in> dom (nb_idx b)" using builder_okD(5)[OF b] by force
  then obtain p where p: "nb_idx b i = Some p" by blast
  note m = move[OF u f builder_okD(7)[OF b mem p]]
  let ?b = "b\<lparr>nb_tasks := set_task i t (nb_tasks b), nb_events := nb_events b @ events\<rparr>"
  have eq: "move_task i f b = ?b" using u f by (simp add: move_task_def)
  have count: "num_working ?b q + num_awaited ?b q = num_working b q + num_awaited b q" for q
  proof -
    have "num_working ?b q + of_bool (q = p \<and> holds_lock u) = num_working b q + of_bool (q = p \<and> holds_lock t)"
      using count_set_task[OF builder_okD(4)[OF b] u, of "\<lambda>(j, v). nb_idx b j = Some q \<and> holds_lock v" t] p
      by (simp add: num_working_def eq_commute)
    moreover have "num_awaited ?b q = num_awaited b q + length (filter (updates_account q) events)"
      by (simp add: num_awaited_def)
    ultimately show ?thesis using conjunct2[OF m, rule_format, of q] by linarith
  qed
  have "builder_base ?b" unfolding eq[symmetric] by (rule move_task_base[OF builder_ok_base[OF b] prep])
  then show ?thesis unfolding eq
  proof (rule builder_okI)
    show "task_ok q v" if "(j, v) \<in> set (nb_tasks ?b)" "nb_idx ?b j = Some q" for j v q
    proof -
      from that have q: "nb_idx b j = Some q" "(j, v) \<in> set (set_task i t (nb_tasks b))" by simp_all
      from in_set_task[OF q(2)] show ?thesis using q(1) m p builder_okD(7)[OF b, of j v q] by auto
    qed
    show "num_working ?b q + num_awaited ?b q = of_bool (q \<in> ns_in_progress (nb_state ?b))" for q
      using count builder_okD(8)[OF b] by simp
  qed
qed (use b in \<open>simp add: move_task_def\<close>)


lemma task_steps_ok:
  assumes b: "builder_ok b"
  shows "(\<And>cand tx. map_of (nb_tasks b) i = Some (Preparing cand) \<Longrightarrow> prepare_transaction V C cand = Inr tx \<Longrightarrow>
        ptx_account_is_network tx \<and> (\<exists>d. ptx_details tx = DeltaUpdate d \<and> delta_ident d = acc_ident (tc_account cand)))
      \<Longrightarrow> builder_ok (move_task i (task_prepares V C) b)"
    and "builder_ok (move_task i (task_submits refused) b)"
    and "builder_ok (move_task i (task_gets_reply None) b)"
    and "builder_ok (move_task i task_aborts b)"
proof -
  assume honest: "\<And>cand tx. map_of (nb_tasks b) i = Some (Preparing cand) \<Longrightarrow> prepare_transaction V C cand = Inr tx \<Longrightarrow>
        ptx_account_is_network tx \<and> (\<exists>d. ptx_details tx = DeltaUpdate d \<and> delta_ident d = acc_ident (tc_account cand))"
  show "builder_ok (move_task i (task_prepares V C) b)"
  proof (rule move_task_ok[OF b task_moves(1)])
    fix u t events p
    assume u: "map_of (nb_tasks b) i = Some u" and f: "task_prepares V C u = Some (t, events)" and ok: "task_ok p u"
    from f obtain cand where cand: "u = Preparing cand" by (cases u) auto
    show "task_ok p t
      \<and> (\<forall>q. of_bool (q = p \<and> holds_lock t) + length (filter (updates_account q) events) = (of_bool (q = p \<and> holds_lock u) :: nat))"
    proof (cases "prepare_transaction V C cand")
      case (Inr tx)
      from honest[OF u[unfolded cand] this] obtain d where "ptx_account_is_network tx" "ptx_details tx = DeltaUpdate d"
        "delta_ident d = acc_ident (tc_account cand)" by blast
      with ok cand have "task_ok p (Proven tx)" by simp
      with f[unfolded cand] Inr cand show ?thesis by auto
    qed (use f[unfolded cand] cand in auto)
  qed
next
  show "builder_ok (move_task i (task_submits refused) b)"
  proof (rule move_task_ok[OF b task_moves(2)])
    fix u t events p
    assume u: "map_of (nb_tasks b) i = Some u" and f: "task_submits refused u = Some (t, events)" and ok: "task_ok p u"
    from f obtain tx where tx: "u = Proven tx" by (cases u) auto
    with ok obtain d where "ptx_account_is_network tx" "ptx_details tx = DeltaUpdate d" "prefix_try_from_account (delta_ident d) = Inr p"
      by auto
    then have ev: "updates_account q (submitted_event tx) = (q = p)" for q
      by (auto simp: submitted_event_def added_event_def)
    show "task_ok p t
      \<and> (\<forall>q. of_bool (q = p \<and> holds_lock t) + length (filter (updates_account q) events) = (of_bool (q = p \<and> holds_lock u) :: nat))"
      using f[unfolded tx] by (cases refused) (auto simp: tx ev)
  qed
  show "builder_ok (move_task i (task_gets_reply None) b)"
  proof (rule move_task_ok[OF b task_moves(3)])
    fix u t events p
    assume "task_gets_reply None u = Some (t, events)"
    then show "task_ok p t
      \<and> (\<forall>q. of_bool (q = p \<and> holds_lock t) + length (filter (updates_account q) events) = (of_bool (q = p \<and> holds_lock u) :: nat))"
      by (cases u) auto
  qed
  show "builder_ok (move_task i task_aborts b)"
  proof (rule move_task_ok[OF b task_moves(4)])
    fix u t events p
    assume "task_aborts u = Some (t, events)"
    then show "task_ok p t
      \<and> (\<forall>q. of_bool (q = p \<and> holds_lock t) + length (filter (updates_account q) events) = (of_bool (q = p \<and> holds_lock u) :: nat))"
      by (cases u) auto
  qed
qed

section \<open>The branches of the loop\<close>

lemma select_cases:
  assumes inv: "ntx_inv s" and limit: "limit > 0" and acc: "accounts_match s" and prog: "ns_in_progress s \<subseteq> dom (ns_accounts s)"
  obtains (none) s' where "(select_candidate s limit :: ('w ntx_state, 'e, tx_candidate option) outcome) = Ok s' None"
      "accounts_match s'" "ns_in_progress s' = ns_in_progress s" "ns_in_progress s' \<subseteq> dom (ns_accounts s')"
    | (some) s' cand p where "(select_candidate s limit :: ('w ntx_state, 'e, tx_candidate option) outcome) = Ok s' (Some cand)"
      "accounts_match s'" "ns_in_progress s' = insert p (ns_in_progress s)" "p \<notin> ns_in_progress s"
      "ns_in_progress s' \<subseteq> dom (ns_accounts s')" "prefix_try_from_account (acc_ident (tc_account cand)) = Inr p"
      "tc_notes cand \<noteq> []" "length (tc_notes cand) \<le> limit"
proof (cases "\<exists>q \<in> set (ns_queue s). selectable s q")
  case True
  then obtain before p rest where q: "ns_queue s = before @ p # rest" "selectable s p" "\<forall>q \<in> set before. \<not> selectable s q"
    by (rule split_list_first_propE) blast
  then obtain a where a: "ns_accounts s p = Some a" "na_available_notes a \<noteq> []" "p \<notin> ns_in_progress s"
    by (auto simp: selectable_def split: option.splits)
  from select_candidate_Some[OF inv limit q(1,3,2) a(1), where ?'e = 'e] obtain acc' where l: "latest_account a = Some acc'" and
    sel: "(select_candidate s limit :: ('w ntx_state, 'e, tx_candidate option) outcome) = Ok (s\<lparr>ns_accounts := pruned s before,
        ns_queue := rest @ filter (\<lambda>q. \<not> prunable s q) before @ [p], ns_in_progress := insert p (ns_in_progress s)\<rparr>)
      (Some \<lparr>tc_account = acc', tc_notes = take limit (na_notes a)\<rparr>)" by blast
  have "p \<notin> set before" using q by blast
  with a prog have "insert p (ns_in_progress s) \<subseteq> dom (pruned s before)" by (auto simp: pruned_def prunable_def)
  moreover have "accounts_match (s\<lparr>ns_accounts := pruned s before,
        ns_queue := rest @ filter (\<lambda>q. \<not> prunable s q) before @ [p], ns_in_progress := insert p (ns_in_progress s)\<rparr>)"
    using acc by (auto simp: accounts_match_def pruned_def split: if_splits)
  moreover have "prefix_try_from_account (acc_ident acc') = Inr p"
    by (rule latest_matches[OF _ l]) (use acc a(1) in \<open>simp add: accounts_match_def\<close>)
  ultimately show ?thesis by (intro some[OF sel, of p]) (use a limit in \<open>simp_all add: na_notes_def\<close>)
next
  case False
  with select_candidate_None[OF inv limit, where ?'b = 'e] have
    sel: "(select_candidate s limit :: ('w ntx_state, 'e, tx_candidate option) outcome) =
      Ok (s\<lparr>ns_accounts := pruned s (ns_queue s), ns_queue := filter (\<lambda>q. \<not> prunable s q) (ns_queue s)\<rparr>) None" by blast
  show ?thesis
    by (rule none[OF sel]) (use acc prog in \<open>auto simp: accounts_match_def pruned_def prunable_def split: if_splits\<close>)
qed


lemma on_tick_base:
  assumes b: "builder_base b" and fresh: "i \<notin> fst ` set (nb_tasks b)"
  shows "ends_well (\<lambda>b' _. builder_base b') (on_tick i b)"
proof (cases "length (nb_tasks b) > max_in_progress_txs")
  case False
  note B = builder_baseD[OF b]
  let ?s = "nb_state b"
  have limit: "max_notes_per_tx > 0" by (simp add: max_notes_per_tx_def)
  have B1: "ntx_inv ?s" "indexed ?s" using B(1) by (simp_all add: ntx_safe_def)
  have inv: "ntx_safe s'" if "(select_candidate ?s max_notes_per_tx :: ('a ntx_state, ntx_serve_error, tx_candidate option) outcome) = Ok s' r" for s' r
    using select_candidate_inv[OF B1(1) limit, where ?'e = ntx_serve_error] retains_indexed[OF select_candidate_retains[OF B1(1) limit that] B1(2)] that
    by (simp add: ntx_safe_def)
  from B1(1) limit B(2,3) show ?thesis
  proof (cases rule: select_cases[where ?'e = ntx_serve_error])
    case (none s')
    have "builder_base (b\<lparr>nb_state := s'\<rparr>)"
      by (rule builder_baseI) (use B none inv[OF none(1)] in simp_all)
    then show ?thesis using False none(1) by (simp add: on_tick_def)
  next
    case (some s' cand p)
    let ?b = "b\<lparr>nb_state := s', nb_tasks := nb_tasks b @ [(i, Preparing cand)], nb_idx := (nb_idx b)(i \<mapsto> p)\<rparr>"
    have "builder_base ?b"
    proof (rule builder_baseI)
      show "task_ok q (Preparing c)" if "(j, Preparing c) \<in> set (nb_tasks ?b)" "nb_idx ?b j = Some q" for j c q
      proof (cases "j = i")
        case True
        with that(1) fresh have "c = cand" by force
        with True that(2) some(6) show ?thesis by simp
      qed (use that B(7)[of j c q] in auto)
    qed (use B some inv[OF some(1)] fresh False in auto)
    then show ?thesis using False some(1) some(6) by (simp add: on_tick_def)
  qed
qed (use b in \<open>simp add: on_tick_def\<close>)

lemma on_tick_ok:
  assumes b: "builder_ok b" and fresh: "i \<notin> fst ` set (nb_tasks b)"
  shows "ends_well (\<lambda>b' _. builder_ok b') (on_tick i b)"
proof (cases "length (nb_tasks b) > max_in_progress_txs")
  case False
  note B = builder_okD[OF b] and base = on_tick_base[OF builder_ok_base[OF b] fresh]
  let ?s = "nb_state b"
  have limit: "max_notes_per_tx > 0" by (simp add: max_notes_per_tx_def)
  from B(1) have "ntx_inv ?s" by (simp add: ntx_safe_def)
  from this limit B(2,3) show ?thesis
  proof (cases rule: select_cases[where ?'e = ntx_serve_error])
    case (none s')
    let ?b = "b\<lparr>nb_state := s'\<rparr>"
    have r: "on_tick i b = Ok ?b ()" using False none(1) by (simp add: on_tick_def)
    have "builder_ok ?b"
    proof (rule builder_okI)
      show "num_working ?b p + num_awaited ?b p = of_bool (p \<in> ns_in_progress (nb_state ?b))" for p
        using B(8)[of p] none(3) by (simp add: num_working_def num_awaited_def)
    qed (use B base r in simp_all)
    then show ?thesis by (simp add: r)
  next
    case (some s' cand p)
    let ?b = "b\<lparr>nb_state := s', nb_tasks := nb_tasks b @ [(i, Preparing cand)], nb_idx := (nb_idx b)(i \<mapsto> p)\<rparr>"
    have r: "on_tick i b = Ok ?b ()" using False some(1) some(6) by (simp add: on_tick_def)
    have "builder_ok ?b"
    proof (rule builder_okI)
      show "num_working ?b q + num_awaited ?b q = of_bool (q \<in> ns_in_progress (nb_state ?b))" for q
      proof -
        have "filter (\<lambda>(j, t). ((nb_idx b)(i \<mapsto> p)) j = Some q \<and> holds_lock t) (nb_tasks b)
            = filter (\<lambda>(j, t). nb_idx b j = Some q \<and> holds_lock t) (nb_tasks b)"
          using fresh by (intro filter_cong) force+
        then have "num_working ?b q = num_working b q + of_bool (q = p)"
          by (simp add: num_working_def)
        moreover have "num_awaited ?b q = num_awaited b q" by (simp add: num_awaited_def)
        ultimately show ?thesis using B(8)[of q] some(3,4) by auto
      qed
      show "task_ok q t" if "(j, t) \<in> set (nb_tasks ?b)" "nb_idx ?b j = Some q" for j t q
      proof (cases "j = i")
        case True
        with that(1) fresh have "t = Preparing cand" by force
        with True that(2) some(6) show ?thesis by simp
      qed (use that B(7)[of j t q] in auto)
    qed (use base r in simp)
    then show ?thesis by (simp add: r)
  qed
qed (use b in \<open>simp add: on_tick_def\<close>)

lemma released_updates:
  "updates_account p ev \<Longrightarrow> released ev = {p}"
  "p \<in> released ev \<Longrightarrow> \<not> updates_account p ev \<Longrightarrow> in_order get_account apply_delta s (MempoolEvent ev) \<Longrightarrow>
     fresh_event s ev \<Longrightarrow> ns_accounts s p = None"
proof -
  show "updates_account p ev \<Longrightarrow> released ev = {p}"
    by (induction p ev rule: updates_account.induct)
      (auto simp: update_prefix_def prefix_try_from_account_def Let_def split: if_splits)
  show "p \<in> released ev \<Longrightarrow> \<not> updates_account p ev \<Longrightarrow> in_order get_account apply_delta s (MempoolEvent ev) \<Longrightarrow>
     fresh_event s ev \<Longrightarrow> ns_accounts s p = None"
  proof -
    assume r: "p \<in> released ev" "\<not> updates_account p ev" "in_order get_account apply_delta s (MempoolEvent ev)" "fresh_event s ev"
    then obtain t ks ns details where ev: "ev = TransactionAdded t ks ns details" by (cases ev) auto
    with r(1) obtain dt u where d: "details = Some dt" "update_from_protocol dt = Some u" "update_prefix u = Some p"
      by (auto simp: bind_eq_Some_conv)
    show "ns_accounts s p = None"
    proof (cases u)
      case (NewNetworkAccount acc)
      then show ?thesis using r(3,4) ev d by (simp add: may_add_tx_def domIff)
    next
      case (NetworkAccountDelta dl)
      with d(2) have "dt = DeltaUpdate dl" by (cases dt) (auto simp: Let_def split: if_splits)
      with d(3) NetworkAccountDelta r(2) ev d(1) show ?thesis by (auto simp: update_prefix_def split: sum.splits)
    qed
  qed
qed

lemma on_event_base:
  assumes b: "builder_base b" and lib: "answers_match get_account" "keeps_identity apply_delta"
    and ev: "\<And>ev rest. nb_events b = ev # rest \<Longrightarrow> in_order get_account apply_delta (nb_state b) (MempoolEvent ev)"
  shows "ends_well (\<lambda>b' _. builder_base b') (on_event get_account apply_delta b)"
proof (cases "nb_events b")
  case (Cons ev rest)
  note B = builder_baseD[OF b] and e = ev[OF Cons]
  have run: "ends_well (\<lambda>s' _. ntx_safe s') (mempool_update get_account apply_delta (nb_state b) ev)"
    using run_ntx_op_safe[OF B(1), of get_account apply_delta "MempoolEvent ev"] e
    by (cases "mempool_update get_account apply_delta (nb_state b) ev") simp_all
  show ?thesis
  proof (cases "mempool_update get_account apply_delta (nb_state b) ev")
    case (Ok s' r)
    obtain R where t: "tracks R (nb_state b) s'"
    proof (cases "fresh_event (nb_state b) ev")
      case True
      with mempool_update_tracks[OF lib _ _ Ok] e show ?thesis by (blast intro: that)
    next
      case False
      then have "s' = nb_state b" using Ok by (cases ev) (auto simp: ntx_add_transaction_def domIff split: if_splits)
      then show ?thesis by (intro that[of "{}"]) (simp add: tracks_frame)
    qed
    have "builder_base (b\<lparr>nb_state := s', nb_events := rest\<rparr>)"
    proof (rule builder_baseI)
      let ?b = "b\<lparr>nb_state := s', nb_events := rest\<rparr>"
      show "ns_in_progress (nb_state ?b) \<subseteq> dom (ns_accounts (nb_state ?b))" using B(3) t unfolding tracks_def by fastforce
      show "ntx_safe (nb_state ?b)" using run Ok by simp
      show "accounts_match (nb_state ?b)" using B(2) t by (simp add: tracks_def)
    qed (use B in simp_all)
    then show ?thesis using Ok by (simp add: on_event_def Cons)
  qed (use run in \<open>simp_all add: on_event_def Cons\<close>)
qed (use b in \<open>simp add: on_event_def\<close>)

lemma on_event_ok:
  assumes b: "builder_ok b" and lib: "answers_match get_account" "keeps_identity apply_delta"
    and ev: "\<And>ev rest. nb_events b = ev # rest \<Longrightarrow> in_order get_account apply_delta (nb_state b) (MempoolEvent ev) \<and> fresh_event (nb_state b) ev"
  shows "ends_well (\<lambda>b' _. builder_ok b') (on_event get_account apply_delta b)"
proof (cases "nb_events b")
  case (Cons ev rest)
  note B = builder_okD[OF b] and e = ev[OF Cons]
  have base: "ends_well (\<lambda>b' _. builder_base b') (on_event get_account apply_delta b)"
    by (rule on_event_base[OF builder_ok_base[OF b] lib]) (use assms(4) in blast)
  show ?thesis
  proof (cases "mempool_update get_account apply_delta (nb_state b) ev")
    case (Ok s' r)
    from mempool_update_tracks[OF lib _ _ this] e have t: "tracks (released ev) (nb_state b) s'" by blast
    let ?b = "b\<lparr>nb_state := s', nb_events := rest\<rparr>"
    have res: "on_event get_account apply_delta b = Ok ?b ()" using Ok by (simp add: on_event_def Cons)
    have "builder_ok ?b"
    proof (rule builder_okI)
      show "num_working ?b p + num_awaited ?b p = of_bool (p \<in> ns_in_progress (nb_state ?b))" for p
      proof -
        have n: "num_working ?b p = num_working b p" "num_awaited b p = of_bool (updates_account p ev) + num_awaited ?b p"
          by (simp_all add: num_working_def num_awaited_def Cons)
        show ?thesis
        proof (cases "updates_account p ev")
          case True
          then show ?thesis using B(8)[of p] n t released_updates(1)[OF True]
            by (cases "p \<in> ns_in_progress (nb_state b)") (auto simp: tracks_def)
        next
          case False
          have "p \<notin> ns_in_progress (nb_state b)" if "p \<in> released ev"
            using released_updates(2)[OF that False] e B(3) by blast
          then have "p \<in> ns_in_progress s' \<longleftrightarrow> p \<in> ns_in_progress (nb_state b)" using t by (auto simp: tracks_def)
          then show ?thesis using B(8)[of p] n False by simp
        qed
      qed
    qed (use B base res in simp_all)
    then show ?thesis by (simp add: res)
  qed (use base in \<open>simp_all add: on_event_def Cons\<close>)
qed (use b in \<open>simp add: on_event_def\<close>)

lemma candidate_failed_state [simp]:
  "ntx_safe (candidate_failed s p) = ntx_safe s" "accounts_match (candidate_failed s p) = accounts_match s"
  "ns_accounts (candidate_failed s p) = ns_accounts s" "ns_in_progress (candidate_failed s p) = ns_in_progress s - {p}"
  by (simp_all add: candidate_failed_def ntx_safe_def ntx_inv_def indexed_def accounts_match_def)

lemma on_join_cases:
  assumes b: "builder_base b"
  obtains "on_join i b = Ok b ()"
    | completed p where "map_of (nb_tasks b) i = Some (Ended completed)" "nb_idx b i = Some p"
      "on_join i b = Ok (b\<lparr>nb_tasks := remove_task i (nb_tasks b), nb_idx := (nb_idx b)(i := None),
        nb_state := if holds_lock (Ended completed) then candidate_failed (nb_state b) p else nb_state b\<rparr>) ()"
proof (cases "\<exists>completed. map_of (nb_tasks b) i = Some (Ended completed)")
  case True
  then obtain completed where u: "map_of (nb_tasks b) i = Some (Ended completed)" by blast
  then have "(i, Ended completed) \<in> set (nb_tasks b)" by (rule map_of_SomeD)
  then have "i \<in> dom (nb_idx b)" using builder_baseD(5)[OF b] by force
  then obtain p where p: "nb_idx b i = Some p" by blast
  show ?thesis
    by (rule that(2)[OF u p]) (use u p in \<open>auto simp: on_join_def Let_def split: task_end.split sum.split\<close>)
next
  case False
  then have "on_join i b = Ok b ()" by (auto simp: on_join_def split: option.split ntx_task.split)
  then show ?thesis by (rule that(1))
qed

lemma on_join_base:
  assumes b: "builder_base b"
  shows "ends_well (\<lambda>b' _. builder_base b') (on_join i b)"
  using b
proof (cases rule: on_join_cases[of b i])
  case (2 completed p)
  let ?b = "b\<lparr>nb_tasks := remove_task i (nb_tasks b), nb_idx := (nb_idx b)(i := None),
    nb_state := if holds_lock (Ended completed) then candidate_failed (nb_state b) p else nb_state b\<rparr>"
  note B = builder_baseD[OF b]
  have "builder_base ?b"
  proof (rule builder_baseI)
    have ids: "map fst (remove_task i ts) = filter (\<lambda>j. j \<noteq> i) (map fst ts)" for ts :: "(nat \<times> ntx_task) list"
      by (induction ts) (auto simp: remove_task_def)
    show "distinct (map fst (nb_tasks ?b))" using B(4) by (simp add: ids)
    have "set (map fst (nb_tasks ?b)) = set (map fst (nb_tasks b)) - {i}" by (auto simp: ids)
    then show "set (map fst (nb_tasks ?b)) = dom (nb_idx ?b)" using B(5) by simp
    show "length (nb_tasks ?b) \<le> Suc max_in_progress_txs"
      using le_trans[OF length_filter_le B(6)] by (simp add: remove_task_def)
    show "task_ok q (Preparing c)" if "(j, Preparing c) \<in> set (nb_tasks ?b)" "nb_idx ?b j = Some q" for j c q
      using that B(7)[of j c q] by (auto simp: remove_task_def split: if_splits)
  qed (use B in auto)
  then show ?thesis using 2 by simp
qed (use b in simp)

lemma on_join_ok:
  assumes b: "builder_ok b"
  shows "ends_well (\<lambda>b' _. builder_ok b') (on_join i b)"
  using builder_ok_base[OF b]
proof (cases rule: on_join_cases[of b i])
  case (2 completed p)
  let ?b = "b\<lparr>nb_tasks := remove_task i (nb_tasks b), nb_idx := (nb_idx b)(i := None),
    nb_state := if holds_lock (Ended completed) then candidate_failed (nb_state b) p else nb_state b\<rparr>"
  note B = builder_okD[OF b]
  have "builder_ok ?b"
  proof (rule builder_okI)
    show "builder_base ?b" using on_join_base[OF builder_ok_base[OF b], of i] 2 by simp
    show "num_working ?b q + num_awaited ?b q = of_bool (q \<in> ns_in_progress (nb_state ?b))" for q
    proof -
      have "filter (\<lambda>(j, t). ((nb_idx b)(i := None)) j = Some q \<and> holds_lock t) (remove_task i (nb_tasks b))
          = filter (\<lambda>(j, t). nb_idx b j = Some q \<and> holds_lock t) (remove_task i (nb_tasks b))"
        by (intro filter_cong) (auto simp: remove_task_def)
      then have "num_working ?b q + of_bool (q = p \<and> holds_lock (Ended completed)) = num_working b q"
        using count_remove_task[OF B(4) 2(1), of "\<lambda>(j, t). nb_idx b j = Some q \<and> holds_lock t"] 2(2)
        by (simp add: num_working_def eq_commute)
      moreover have "num_awaited ?b q = num_awaited b q" by (simp add: num_awaited_def)
      ultimately show ?thesis using B(8)[of q]
        by (cases "q = p"; cases "q \<in> ns_in_progress (nb_state b)") (auto split: if_splits)
    qed
    show "task_ok q t" if "(j, t) \<in> set (nb_tasks ?b)" "nb_idx ?b j = Some q" for j t q
      using that B(7)[of j t q] by (auto simp: remove_task_def split: if_splits)
  qed
  then show ?thesis using 2 by simp
qed (use b in simp)

section \<open>Runs\<close>

text \<open>
  Two conditions on what the world does.  In every run: the task identifiers of the join set are new, and the
  events received are those that \<open>in_order\<close> asks for.  In an undisturbed run besides: the machine proves a
  transaction of the candidate's account, replies to submissions arrive, nobody else updates a network account
  (the RPC server refuses it), and no event is received twice.
\<close>

fun ntx_world :: "'w account_query \<Rightarrow> (account \<Rightarrow> account_delta \<Rightarrow> account option) \<Rightarrow> 'x ntx_context \<Rightarrow> 'w ntx_builder \<Rightarrow>
    'x ntx_event \<Rightarrow> bool" where
  "ntx_world get_account apply_delta C b (Tick i) \<longleftrightarrow> i \<notin> fst ` set (nb_tasks b)"
| "ntx_world get_account apply_delta C b Receive \<longleftrightarrow>
     (\<forall>ev rest. nb_events b = ev # rest \<longrightarrow> in_order get_account apply_delta (nb_state b) (MempoolEvent ev))"
| "ntx_world get_account apply_delta C b ev \<longleftrightarrow> True"

fun undisturbed :: "'x ntx_context \<Rightarrow> 'w ntx_builder \<Rightarrow> 'x ntx_event \<Rightarrow> bool" where
  "undisturbed C b (Prepare i V) \<longleftrightarrow>
     (\<forall>cand tx. map_of (nb_tasks b) i = Some (Preparing cand) \<and> prepare_transaction V C cand = Inr tx \<longrightarrow>
        ptx_account_is_network tx \<and> (\<exists>d. ptx_details tx = DeltaUpdate d \<and> delta_ident d = acc_ident (tc_account cand)))"
| "undisturbed C b (Reply i lost) \<longleftrightarrow> lost = None"
| "undisturbed C b (Emit ev) \<longleftrightarrow> (\<forall>p. \<not> updates_account p ev)"
| "undisturbed C b Receive \<longleftrightarrow> (\<forall>ev rest. nb_events b = ev # rest \<longrightarrow> fresh_event (nb_state b) ev)"
| "undisturbed C b ev \<longleftrightarrow> True"

definition ntx_sound :: "'w account_query \<Rightarrow> (account \<Rightarrow> account_delta \<Rightarrow> account option) \<Rightarrow> 'x ntx_context \<Rightarrow> 'w ntx_builder \<Rightarrow>
    'x ntx_event \<Rightarrow> bool" where
  "ntx_sound get_account apply_delta C b ev \<longleftrightarrow> ntx_world get_account apply_delta C b ev \<and> undisturbed C b ev"

lemma ntx_step_base:
  assumes lib: "answers_match get_account" "keeps_identity apply_delta"
    and b: "builder_base b" and ev: "ntx_world get_account apply_delta C b ev"
  shows "ends_well (\<lambda>b' _. builder_base b') (ntx_step get_account apply_delta C b ev)"
proof (cases ev)
  case Receive
  then show ?thesis using on_event_base[OF b lib] ev by simp
next
  case (Emit e)
  have "builder_base (b\<lparr>nb_events := nb_events b @ [e]\<rparr>)" by (rule builder_baseI) (use builder_baseD[OF b] in simp_all)
  then show ?thesis by (simp add: Emit)
qed (use ev on_tick_base[OF b] on_join_base[OF b] move_task_base[OF b task_moves(1)] move_task_base[OF b task_moves(2)]
    move_task_base[OF b task_moves(3)] move_task_base[OF b task_moves(4)] in simp_all)

lemma emit_ok:
  assumes b: "builder_ok b" and ev: "\<And>p. \<not> updates_account p ev"
  shows "builder_ok (b\<lparr>nb_events := nb_events b @ [ev]\<rparr>)"
proof (rule builder_okI)
  show "builder_base (b\<lparr>nb_events := nb_events b @ [ev]\<rparr>)"
    by (rule builder_baseI) (use builder_baseD[OF builder_ok_base[OF b]] in simp_all)
  show "num_working (b\<lparr>nb_events := nb_events b @ [ev]\<rparr>) p + num_awaited (b\<lparr>nb_events := nb_events b @ [ev]\<rparr>) p =
      of_bool (p \<in> ns_in_progress (nb_state (b\<lparr>nb_events := nb_events b @ [ev]\<rparr>)))" for p
    using builder_okD(8)[OF b, of p] ev[of p] by (simp add: num_working_def num_awaited_def)
qed (use builder_okD[OF b] in simp_all)

lemma ntx_step_ok:
  assumes lib: "answers_match get_account" "keeps_identity apply_delta"
    and b: "builder_ok b" and ev: "ntx_sound get_account apply_delta C b ev"
  shows "ends_well (\<lambda>b' _. builder_ok b') (ntx_step get_account apply_delta C b ev)"
proof (cases ev)
  case (Prepare i V)
  have "builder_ok (move_task i (task_prepares V C) b)"
    by (rule task_steps_ok(1)[OF b]) (use ev Prepare in \<open>auto simp: ntx_sound_def\<close>)
  then show ?thesis by (simp add: Prepare)
next
  case Receive
  then show ?thesis using on_event_ok[OF b lib] ev by (simp add: ntx_sound_def)
next
  case (Reply i lost)
  then show ?thesis using task_steps_ok(3)[OF b] ev by (simp add: ntx_sound_def)
next
  case (Emit e)
  then show ?thesis using emit_ok[OF b] ev by (simp add: ntx_sound_def)
qed (use ev[unfolded ntx_sound_def] on_tick_ok[OF b] on_join_ok[OF b] task_steps_ok(2,4)[OF b] in simp_all)

text \<open>The state of a builder that has just subscribed; if no events about network accounts are waiting, its locks count.\<close>

lemma ntx_serve_base:
  assumes lib: "answers_match get_account" "network_notes_only get_notes"
    and r: "ntx_serve get_account get_notes w genesis chain_tip subscribe_at = Ok s (header, b)"
  shows "builder_base b"
    and "(\<And>tip events ev p. subscribe_at tip = Inr events \<Longrightarrow> ev \<in> set events \<Longrightarrow> \<not> updates_account p ev) \<Longrightarrow> builder_ok b"
proof -
  from r obtain tip events where l: "load_state get_account get_notes w = Ok s ()"
    and e: "subscribe_at tip = Inr events" and b: "b = \<lparr>nb_state = s, nb_tasks = [], nb_idx = Map.empty, nb_events = events\<rparr>"
    by (cases "load_state get_account get_notes w") (auto simp: ntx_serve_def split: sum.splits option.splits)
  have inv: "ntx_safe s" using load_state_safe[OF lib(2), of get_account w] l by simp
  from l obtain w' ns where "load_notes get_account (ntx_default w') ns = Ok s ()"
    by (auto simp: load_state_def split: prod.splits sum.splits)
  from load_notes_tracks[OF lib(1) this] have t: "tracks {} (ntx_default w') s" .
  then have prog: "ns_in_progress s = {}" by (simp add: tracks_def ntx_default_def)
  have "accounts_match s" using t by (simp add: tracks_def accounts_match_def ntx_default_def)
  with inv prog show base: "builder_base b" by (intro builder_baseI) (simp_all add: b)
  show "builder_ok b" if "\<And>tip events ev p. subscribe_at tip = Inr events \<Longrightarrow> ev \<in> set events \<Longrightarrow> \<not> updates_account p ev"
  proof (rule builder_okI[OF base])
    have "num_awaited b p = 0" for p
      using that[OF e] by (auto simp: num_awaited_def b filter_empty_conv)
    then show "num_working b p + num_awaited b p = of_bool (p \<in> ns_in_progress (nb_state b))" for p
      using prog by (simp add: b num_working_def)
  qed (simp add: b)
qed

text \<open>The interface of runs, on the loop.\<close>

interpretation ntx_world_runs: run_invariant "ntx_next get_account apply_delta C" "ntx_world get_account apply_delta C"
    "\<lambda>b. answers_match get_account \<and> keeps_identity apply_delta \<and> builder_base b" for get_account apply_delta C
proof (unfold_locales, elim conjE)
  fix b ev b'
  assume lib: "answers_match get_account" "keeps_identity apply_delta" and b: "builder_base b"
    and ev: "ntx_world get_account apply_delta C b ev" and n: "ntx_next get_account apply_delta C b ev b'"
  from ntx_step_base[OF lib b ev] n have "builder_base b'" by (simp add: ntx_next_def)
  with lib show "answers_match get_account \<and> keeps_identity apply_delta \<and> builder_base b'" by blast
qed

interpretation ntx_runs: run_invariant "ntx_next get_account apply_delta C" "ntx_sound get_account apply_delta C"
    "\<lambda>b. answers_match get_account \<and> keeps_identity apply_delta \<and> builder_ok b" for get_account apply_delta C
proof (unfold_locales, elim conjE)
  fix b ev b'
  assume lib: "answers_match get_account" "keeps_identity apply_delta" and b: "builder_ok b"
    and ev: "ntx_sound get_account apply_delta C b ev" and n: "ntx_next get_account apply_delta C b ev b'"
  from ntx_step_ok[OF lib b ev] n have "builder_ok b'" by (simp add: ntx_next_def)
  with lib show "answers_match get_account \<and> keeps_identity apply_delta \<and> builder_ok b'" by blast
qed

end
