(* ===== verification/Ntx_Builder_Properties.thy ===== *)
theory Ntx_Builder_Properties
  imports Ntx_Builder_Safety
begin

text \<open>
  What the loop of the network transaction builder guarantees in every run and in an undisturbed one, and what
  it does when the reply to a submission is lost, or when more accounts are waiting than it should work on.
\<close>

section \<open>At most one task per account\<close>

lemma working_unique:
  assumes b: "builder_ok b" and t: "(i, t) \<in> set (nb_tasks b)" "nb_idx b i = Some p" "holds_lock t"
    and u: "(j, u) \<in> set (nb_tasks b)" "nb_idx b j = Some p" "holds_lock u"
  shows "i = j"
proof (rule ccontr)
  assume "i \<noteq> j"
  let ?F = "filter (\<lambda>(i, t). nb_idx b i = Some p \<and> holds_lock t) (nb_tasks b)"
  have "distinct ?F" using builder_okD(4)[OF b] by (simp add: distinct_map)
  then have "card (set ?F) = length ?F" by (rule distinct_card)
  moreover have "card {(i, t), (j, u)} \<le> card (set ?F)" using t u by (intro card_mono) auto
  moreover have "card {(i, t), (j, u)} = 2" using \<open>i \<noteq> j\<close> by simp
  ultimately have "2 \<le> num_working b p" by (simp add: num_working_def)
  with builder_okD(8)[OF b, of p] show False by (cases "p \<in> ns_in_progress (nb_state b)") simp_all
qed

text \<open>
  C15. The loop of the network transaction builder, whatever the replies to its submissions, the updates of
  others and the transactions that its machine proves: as long as the events it receives satisfy what
  \<open>ntx_builder_safe\<close> asks for, no step panics, its index has exactly the tasks of the join set, at most five tasks run, and each
  prepares a transaction for the account it is indexed under.  If besides the run is undisturbed (replies
  arrive, the machine proves transactions of the candidate, nobody else updates a network account, no event
  comes twice), then an account is locked if and only if exactly one task works on it or exactly one event
  of a transaction that it submitted is waiting, and no two tasks that have not reached the mempool work on
  the same account.  What a lost reply does is shown by \<open>lost_reply_doubles_work\<close>.
\<close>

theorem ntx_loop_safe:
  assumes lib: "answers_match get_account" "keeps_identity apply_delta" "network_notes_only get_notes"
    and start: "ntx_serve get_account get_notes w genesis chain_tip subscribe_at = Ok s (header, b0)"
    and run: "guarded_run (ntx_next get_account apply_delta C) (ntx_world get_account apply_delta C) b0 b"
  shows "(\<forall>ev. ntx_world get_account apply_delta C b ev \<longrightarrow>
      (case ntx_step get_account apply_delta C b ev of Ok b' _ \<Rightarrow> True | Err b' e \<Rightarrow> True | Panic \<Rightarrow> False | Diverge \<Rightarrow> False))
    \<and> fst ` set (nb_tasks b) = dom (nb_idx b) \<and> length (nb_tasks b) \<le> 5
    \<and> (\<forall>i cand p. (i, Preparing cand) \<in> set (nb_tasks b) \<and> nb_idx b i = Some p \<longrightarrow>
         prefix_try_from_account (acc_ident (tc_account cand)) = Inr p)
    \<and> ((\<forall>tip events ev p. subscribe_at tip = Inr events \<and> ev \<in> set events \<longrightarrow> \<not> updates_account p ev)
       \<and> guarded_run (ntx_next get_account apply_delta C) (ntx_sound get_account apply_delta C) b0 b \<longrightarrow>
         (\<forall>p. num_working b p + num_awaited b p = (if p \<in> ns_in_progress (nb_state b) then 1 else 0))
         \<and> (\<forall>i t j u p. (i, t) \<in> set (nb_tasks b) \<and> (j, u) \<in> set (nb_tasks b) \<and> holds_lock t \<and> holds_lock u
              \<and> nb_idx b i = Some p \<and> nb_idx b j = Some p \<longrightarrow> i = j))"
proof -
  have "builder_base b0" by (rule ntx_serve_base(1)[OF lib(1,3) start])
  with ntx_world_runs.reached[OF run] lib have b: "builder_base b" by blast
  note B = builder_baseD[OF b]
  have "case ntx_step get_account apply_delta C b ev of Ok b' _ \<Rightarrow> True | Err b' e \<Rightarrow> True | Panic \<Rightarrow> False | Diverge \<Rightarrow> False"
    if "ntx_world get_account apply_delta C b ev" for ev
    using ntx_step_base[OF lib(1,2) b that] by (cases "ntx_step get_account apply_delta C b ev") simp_all
  moreover have "length (nb_tasks b) \<le> 5" using B(6) by (simp add: max_in_progress_txs_def)
  moreover have "fst ` set (nb_tasks b) = dom (nb_idx b)" using B(5) by simp
  moreover have "(\<forall>p. num_working b p + num_awaited b p = (if p \<in> ns_in_progress (nb_state b) then 1 else 0))
         \<and> (\<forall>i t j u p. (i, t) \<in> set (nb_tasks b) \<and> (j, u) \<in> set (nb_tasks b) \<and> holds_lock t \<and> holds_lock u
              \<and> nb_idx b i = Some p \<and> nb_idx b j = Some p \<longrightarrow> i = j)"
    if "\<forall>tip events ev p. subscribe_at tip = Inr events \<and> ev \<in> set events \<longrightarrow> \<not> updates_account p ev"
      and sound: "guarded_run (ntx_next get_account apply_delta C) (ntx_sound get_account apply_delta C) b0 b"
  proof -
    have "builder_ok b0" by (rule ntx_serve_base(2)[OF lib(1,3) start]) (use that in blast)
    with ntx_runs.reached[OF sound] lib have "builder_ok b" by blast
    with builder_okD(8)[OF this] working_unique[OF this] show ?thesis by fastforce
  qed
  ultimately show ?thesis using B(7) by fastforce
qed

section \<open>Lost replies\<close>

lemma task_list_ends:
  "map_of (set_task i t ts) i = map_option (\<lambda>_. t) (map_of ts i)"
  "remove_task i (set_task i t ts) = remove_task i ts"
  by (induction ts) (auto simp: set_task_def remove_task_def)

lemma run_ntx_steps_append:
  "run_ntx_steps get_account apply_delta C b (evs @ evs') =
     and_then (run_ntx_steps get_account apply_delta C b evs) (\<lambda>b _. run_ntx_steps get_account apply_delta C b evs')"
proof (induction evs arbitrary: b)
  case (Cons ev evs)
  then show ?case by (cases "ntx_step get_account apply_delta C b ev") simp_all
qed simp

text \<open>An accepted task gets its reply, or an error in its place, and is joined.\<close>

lemma reply_and_join:
  assumes b: "builder_ok b" and task: "(i, Accepted tx) \<in> set (nb_tasks b)" "nb_idx b i = Some p"
  shows "run_ntx_steps get_account apply_delta C b [Reply i lost, Join i] =
    Ok (b\<lparr>nb_tasks := remove_task i (nb_tasks b), nb_idx := (nb_idx b)(i := None),
      nb_state := if lost = None then nb_state b else candidate_failed (nb_state b) p\<rparr>) ()"
proof -
  have "map_of (nb_tasks b) i = Some (Accepted tx)" using task(1) builder_okD(4)[OF b] by simp
  then show ?thesis using task(2)
    by (cases lost) (simp_all add: move_task_def on_join_def task_list_ends Let_def)
qed

text \<open>The event of an update unlocks its account, whatever task works on it.\<close>

lemma receive_unlocks:
  assumes lib: "answers_match get_account" "keeps_identity apply_delta"
    and ev: "nb_events b = ev # evs" "updates_account p ev" "fresh_event (nb_state b) ev"
    and r: "ntx_step get_account apply_delta C b Receive = Ok b' ()"
  shows "p \<notin> ns_in_progress (nb_state b') \<and> num_working b' p = num_working b p"
proof -
  from ev(2) obtain t ks ns d where e: "ev = TransactionAdded t ks ns (Some (DeltaUpdate d))"
    by (cases "(p, ev)" rule: updates_account.cases) auto
  from r ev(1) obtain s' where s': "mempool_update get_account apply_delta (nb_state b) ev = Ok s' ()"
    and b': "b' = b\<lparr>nb_state := s', nb_events := evs\<rparr>"
    by (cases "mempool_update get_account apply_delta (nb_state b) ev") (auto simp: on_event_def)
  have "tracks (released ev) (nb_state b) s'"
    using ntx_add_transaction_tracks[OF lib, of "nb_state b" t ks ns "Some (DeltaUpdate d)" s' "()"] ev(3) s' e by simp
  then have "p \<notin> ns_in_progress s'" using released_updates(1)[OF ev(2)] by (simp add: tracks_def)
  then show ?thesis by (simp add: b' num_working_def)
qed

text \<open>
  C30. When the reply to a submission is lost, the builder takes an accepted transaction for a failed one: with
  the account next in the queue and notes available, it unlocks the account and starts another task for it, from
  the state before the transaction, while the transaction's event is still awaited.  Receiving that event
  unlocks the account although the second task works on it, so that a third can start.  With the reply, the
  account stays locked and no task works on it until the event is received.
\<close>

theorem lost_reply_doubles_work:
  assumes lib: "answers_match get_account" "keeps_identity apply_delta"
    and b: "builder_ok b" and task: "(i, Accepted tx) \<in> set (nb_tasks b)" "nb_idx b i = Some p" and wait: "num_awaited b p = 1"
    and acc: "ns_accounts (nb_state b) p = Some a" "na_available_notes a \<noteq> []"
    and queue: "ns_queue (nb_state b) = before @ p # rest" "\<forall>q \<in> set before. \<not> selectable (nb_state b) q"
    and new: "j \<notin> fst ` set (nb_tasks b)"
  shows "(\<exists>old b'. latest_account a = Some old
      \<and> run_ntx_steps get_account apply_delta C b [Reply i (Some e), Join i, Tick j] = Ok b' ()
      \<and> (j, Preparing \<lparr>tc_account = old, tc_notes = take 50 (na_notes a)\<rparr>) \<in> set (nb_tasks b')
      \<and> nb_idx b' j = Some p \<and> num_working b' p = 1 \<and> num_awaited b' p = 1
      \<and> (\<forall>ev evs b''. nb_events b = ev # evs \<and> updates_account p ev \<and> fresh_event (nb_state b') ev
           \<and> ntx_step get_account apply_delta C b' Receive = Ok b'' () \<longrightarrow>
             p \<notin> ns_in_progress (nb_state b'') \<and> num_working b'' p = 1))
    \<and> (\<exists>b'. run_ntx_steps get_account apply_delta C b [Reply i None, Join i] = Ok b' ()
      \<and> p \<in> ns_in_progress (nb_state b') \<and> num_working b' p = 0 \<and> num_awaited b' p = 1)"
proof -
  note B = builder_okD[OF b]
  let ?s = "candidate_failed (nb_state b) p" and ?ts = "remove_task i (nb_tasks b)"
  have locked: "num_working b p = 0" "p \<in> ns_in_progress (nb_state b)"
    using B(8)[of p] wait by (cases "p \<in> ns_in_progress (nb_state b)"; simp)+
  have u: "map_of (nb_tasks b) i = Some (Accepted tx)" using task(1) B(4) by simp
  have ids: "k \<noteq> i \<and> k \<noteq> j" if "(k, t) \<in> set ?ts" for k t using that new by (force simp: remove_task_def)
  have idle: "filter (\<lambda>(k, t). idx k = Some p \<and> holds_lock t) ?ts = []" if "\<And>k. k \<noteq> i \<Longrightarrow> k \<noteq> j \<Longrightarrow> idx k = nb_idx b k" for idx
  proof -
    have "filter (\<lambda>(k, t). nb_idx b k = Some p \<and> holds_lock t) ?ts = []"
      using locked(1) by (auto simp: num_working_def filter_empty_conv remove_task_def)
    moreover have "filter (\<lambda>(k, t). idx k = Some p \<and> holds_lock t) ?ts = filter (\<lambda>(k, t). nb_idx b k = Some p \<and> holds_lock t) ?ts"
      by (intro filter_cong) (use ids that in \<open>auto split: prod.splits\<close>)
    ultimately show ?thesis by simp
  qed
  have inv: "ntx_inv ?s" using B(1) by (simp add: candidate_failed_def ntx_safe_def ntx_inv_def)
  have "distinct (before @ p # rest)" using ntx_coreD(1)[OF inv[unfolded ntx_inv_def]] queue(1) by (simp add: candidate_failed_def)
  then have before: "\<forall>q \<in> set before. \<not> selectable ?s q" using queue(2) by (auto simp: selectable_def candidate_failed_def)
  have s: "ns_queue ?s = before @ p # rest" "selectable ?s p" "ns_accounts ?s p = Some a"
    using queue(1) acc by (simp_all add: selectable_def candidate_failed_def)
  have limit: "max_notes_per_tx > 0" by (simp add: max_notes_per_tx_def)
  from select_candidate_Some[OF inv limit s(1) before s(2,3), where ?'e = ntx_serve_error] obtain old where
    old: "latest_account a = Some old" and sel: "(select_candidate ?s max_notes_per_tx :: ('a ntx_state, ntx_serve_error, tx_candidate option) outcome) =
      Ok (?s\<lparr>ns_accounts := pruned ?s before, ns_queue := rest @ filter (\<lambda>q. \<not> prunable ?s q) before @ [p],
        ns_in_progress := insert p (ns_in_progress ?s)\<rparr>) (Some \<lparr>tc_account = old, tc_notes = take max_notes_per_tx (na_notes a)\<rparr>)" by blast
  have prefix: "prefix_try_from_account (acc_ident old) = Inr p"
    by (rule latest_matches[OF _ old]) (use B(2) acc(1) in \<open>simp add: accounts_match_def\<close>)
  have room: "\<not> length ?ts > max_in_progress_txs"
    using count_remove_task[OF B(4) u, of "\<lambda>_. True"] B(6) by simp
  let ?cand = "\<lparr>tc_account = old, tc_notes = take 50 (na_notes a)\<rparr>"
  let ?b = "b\<lparr>nb_tasks := ?ts @ [(j, Preparing ?cand)], nb_idx := (nb_idx b)(i := None, j \<mapsto> p),
    nb_state := ?s\<lparr>ns_accounts := pruned ?s before, ns_queue := rest @ filter (\<lambda>q. \<not> prunable ?s q) before @ [p],
        ns_in_progress := insert p (ns_in_progress ?s)\<rparr>\<rparr>"
  have run: "run_ntx_steps get_account apply_delta C b [Reply i (Some e), Join i, Tick j] = Ok ?b ()"
  proof -
    have "run_ntx_steps get_account apply_delta C b ([Reply i (Some e), Join i] @ [Tick j]) =
      and_then (run_ntx_steps get_account apply_delta C b [Reply i (Some e), Join i]) (\<lambda>b _. run_ntx_steps get_account apply_delta C b [Tick j])"
      by (rule run_ntx_steps_append)
    then show ?thesis unfolding reply_and_join[OF b task]
      using room sel prefix by (simp add: on_tick_def max_notes_per_tx_def)
  qed
  have work: "num_working ?b p = 1" using idle[of "(nb_idx b)(i := None, j \<mapsto> p)"] by (simp add: num_working_def)
  have after: "p \<notin> ns_in_progress (nb_state b'') \<and> num_working b'' p = 1"
    if "nb_events b = ev # evs" "updates_account p ev" "fresh_event (nb_state ?b) ev"
      "ntx_step get_account apply_delta C ?b Receive = Ok b'' ()" for ev evs b''
    using receive_unlocks[OF lib _ that(2,3,4)] that(1) work by simp
  let ?c = "b\<lparr>nb_tasks := ?ts, nb_idx := (nb_idx b)(i := None)\<rparr>"
  have kept: "run_ntx_steps get_account apply_delta C b [Reply i None, Join i] = Ok ?c ()"
    "p \<in> ns_in_progress (nb_state ?c)" "num_working ?c p = 0"
    using reply_and_join[OF b task, of get_account apply_delta C None] locked(2) idle[of "(nb_idx b)(i := None)"]
    by (simp_all add: num_working_def del: run_ntx_steps.simps)
  have awaited: "num_awaited ?b p = 1" "num_awaited ?c p = 1" using wait by (simp_all add: num_awaited_def)
  have new_task: "(j, Preparing ?cand) \<in> set (nb_tasks ?b)" "nb_idx ?b j = Some p" by simp_all
  show ?thesis
  proof (rule conjI)
    show "\<exists>old b'. latest_account a = Some old
      \<and> run_ntx_steps get_account apply_delta C b [Reply i (Some e), Join i, Tick j] = Ok b' ()
      \<and> (j, Preparing \<lparr>tc_account = old, tc_notes = take 50 (na_notes a)\<rparr>) \<in> set (nb_tasks b')
      \<and> nb_idx b' j = Some p \<and> num_working b' p = 1 \<and> num_awaited b' p = 1
      \<and> (\<forall>ev evs b''. nb_events b = ev # evs \<and> updates_account p ev \<and> fresh_event (nb_state b') ev
           \<and> ntx_step get_account apply_delta C b' Receive = Ok b'' () \<longrightarrow>
             p \<notin> ns_in_progress (nb_state b'') \<and> num_working b'' p = 1)"
      using after by (intro exI[of _ old] exI[of _ ?b] conjI old run new_task work awaited allI impI) (elim conjE; blast)+
    show "\<exists>b'. run_ntx_steps get_account apply_delta C b [Reply i None, Join i] = Ok b' ()
      \<and> p \<in> ns_in_progress (nb_state b') \<and> num_working b' p = 0 \<and> num_awaited b' p = 1"
      by (intro exI[of _ ?c] conjI kept awaited)
  qed
qed

section \<open>Sample runs\<close>

text \<open>What the store and the block producer answer at the start, and two notes for one network account.\<close>

definition sample_serve :: "network_note list \<Rightarrow> (unit ntx_state, ntx_serve_error, block_header \<times> unit ntx_builder) outcome" where
  "sample_serve stored = ntx_serve sample_get_account (\<lambda>w. (w, Inr stored)) () (Inr \<lparr>bh_block_num = 0\<rparr>)
     (Inr (Some \<lparr>bh_block_num = 7\<rparr>)) (\<lambda>tip. Inr [])"

definition sample_run :: "network_note list \<Rightarrow> note_id list ntx_event list \<Rightarrow> (unit ntx_builder, ntx_serve_error, unit) outcome" where
  "sample_run stored evs = (case sample_serve stored of
     Ok s (header, b) \<Rightarrow> run_ntx_steps sample_get_account sample_apply sample_context b evs
   | _ \<Rightarrow> Diverge)"

definition two_notes_added :: mempool_event where
  "two_notes_added = TransactionAdded 50 [] [sample_note 0, sample_note 1] None"

text \<open>What the tasks of a builder work with: the state of the account and the notes.\<close>

fun task_input :: "ntx_task \<Rightarrow> (nat \<times> note_id list) option" where
  "task_input (Preparing cand) = Some (acc_content (tc_account cand), map nn_id (tc_notes cand))"
| "task_input t = None"

text \<open>
  Three runs: with the reply one task runs, from the new state; without it two, one from the old state; and
  a note that was loaded at the start is given to the next task again, one that was announced is not.
\<close>

lemma sample_runs:
  "ends_well (\<lambda>b _. num_working b (NetworkAccountPrefix 5) = 1
       \<and> map (task_input \<circ> snd) (nb_tasks b) = [Some (1, [70])])
     (sample_run [] [Emit two_notes_added, Receive, Tick 0, Prepare 0 sample_vm, Submit 0 None, Reply 0 None,
        Join 0, Tick 1, Receive, Tick 2])"
  "ends_well (\<lambda>b _. num_working b (NetworkAccountPrefix 5) = 2
       \<and> map (task_input \<circ> snd) (nb_tasks b) = [Some (0, [70, 71]), Some (1, [70])])
     (sample_run [] [Emit two_notes_added, Receive, Tick 0, Prepare 0 sample_vm, Submit 0 None, Reply 0 (Some ''connection lost''),
        Join 0, Tick 1, Receive, Tick 2])"
  "ends_well (\<lambda>b _. map (task_input \<circ> snd) (nb_tasks b) = [Some (1, [70, 71])])
     (sample_run [sample_note 0, sample_note 1] [Tick 0, Prepare 0 sample_vm, Submit 0 None, Reply 0 None, Join 0, Receive, Tick 1])"
  by code_simp+


text \<open>One task of a run without incident: its account stays locked until the event of its transaction is received.\<close>

lemma sample_lib: "answers_match sample_get_account" "keeps_identity sample_apply"
  "network_notes_only (\<lambda>w. (w, Inr [sample_note 0, sample_note 1]))"
proof -
  show "answers_match sample_get_account"
    by (auto simp: answers_match_def sample_get_account_def sample_network_account_def prefix_try_from_account_def
        get_account_id_tag_prefix_def intro: network_account_prefix.expand split: if_splits)
  show "keeps_identity sample_apply" by (auto simp: keeps_identity_def sample_apply_def)
  show "network_notes_only (\<lambda>w. (w, Inr [sample_note 0, sample_note 1]))"
    by (auto simp: network_notes_only_def sample_note_def nn_account_prefix_def prefix_try_from_tag_def)
qed

lemma sample_start:
  obtains s header b0 b1 a where "sample_serve [sample_note 0, sample_note 1] = Ok s (header, b0)" and "nb_tasks b0 = []"
    and "on_tick 0 b0 = Ok b1 ()"
    and "nb_tasks b1 = [(0, Preparing sample_candidate)]" and "nb_events b1 = []" and "nb_idx b1 0 = Some (NetworkAccountPrefix 5)"
    and "ns_queue (nb_state b1) = [NetworkAccountPrefix 5]" and "ns_accounts (nb_state b1) (NetworkAccountPrefix 5) = Some a"
    and "na_available_notes a \<noteq> []"
proof -
  have "case sample_serve [sample_note 0, sample_note 1] of
      Ok s (header, b0) \<Rightarrow> nb_tasks b0 = [] \<and>
        (case on_tick 0 b0 of
           Ok b1 _ \<Rightarrow> nb_tasks b1 = [(0, Preparing sample_candidate)] \<and> nb_events b1 = [] \<and> nb_idx b1 0 = Some (NetworkAccountPrefix 5)
             \<and> ns_queue (nb_state b1) = [NetworkAccountPrefix 5]
             \<and> (case ns_accounts (nb_state b1) (NetworkAccountPrefix 5) of Some a \<Rightarrow> na_available_notes a \<noteq> [] | None \<Rightarrow> False)
         | _ \<Rightarrow> False)
    | _ \<Rightarrow> False"
    by code_simp
  then obtain s header b0 where "sample_serve [sample_note 0, sample_note 1] = Ok s (header, b0)" "nb_tasks b0 = []"
    "case on_tick 0 b0 of
       Ok b1 _ \<Rightarrow> nb_tasks b1 = [(0, Preparing sample_candidate)] \<and> nb_events b1 = [] \<and> nb_idx b1 0 = Some (NetworkAccountPrefix 5)
             \<and> ns_queue (nb_state b1) = [NetworkAccountPrefix 5]
             \<and> (case ns_accounts (nb_state b1) (NetworkAccountPrefix 5) of Some a \<Rightarrow> na_available_notes a \<noteq> [] | None \<Rightarrow> False)
     | _ \<Rightarrow> False" by (cases "sample_serve [sample_note 0, sample_note 1]") auto
  then show ?thesis by (cases "on_tick 0 b0") (auto intro: that split: option.splits)
qed

lemma sample_prepared:
  obtains tx d where "prepare_transaction sample_vm sample_context sample_candidate = Inr tx" and "ptx_account_is_network tx"
    and "ptx_details tx = DeltaUpdate d" and "delta_ident d = acc_ident (tc_account sample_candidate)"
proof -
  have "case prepare_transaction sample_vm sample_context sample_candidate of
      Inr tx \<Rightarrow> ptx_account_is_network tx \<and> (case ptx_details tx of DeltaUpdate d \<Rightarrow> delta_ident d = acc_ident (tc_account sample_candidate) | _ \<Rightarrow> False)
    | Inl e \<Rightarrow> False"
    by code_simp
  then show ?thesis by (auto intro: that split: sum.splits account_update_details.splits)
qed

text \<open>The run until the transaction is accepted.\<close>

lemma sample_awaited:
  obtains s header b0 b tx a where "sample_serve [sample_note 0, sample_note 1] = Ok s (header, b0)"
    and "guarded_run (ntx_next sample_get_account sample_apply sample_context) (ntx_sound sample_get_account sample_apply sample_context) b0 b"
    and "nb_tasks b = [(0, Accepted tx)]" and "nb_events b = [submitted_event tx]" and "nb_idx b 0 = Some (NetworkAccountPrefix 5)"
    and "num_awaited b (NetworkAccountPrefix 5) = 1" and "ns_queue (nb_state b) = [NetworkAccountPrefix 5]"
    and "ns_accounts (nb_state b) (NetworkAccountPrefix 5) = Some a" and "na_available_notes a \<noteq> []"
proof -
  let ?ga = sample_get_account and ?ad = sample_apply and ?C = sample_context
  obtain s header b0 b1 a where start: "sample_serve [sample_note 0, sample_note 1] = Ok s (header, b0)" "nb_tasks b0 = []" and
    s1: "on_tick 0 b0 = Ok b1 ()" "nb_tasks b1 = [(0, Preparing sample_candidate)]" "nb_events b1 = []"
      "nb_idx b1 0 = Some (NetworkAccountPrefix 5)" and
    acc: "ns_queue (nb_state b1) = [NetworkAccountPrefix 5]" "ns_accounts (nb_state b1) (NetworkAccountPrefix 5) = Some a"
      "na_available_notes a \<noteq> []" by (rule sample_start)
  obtain tx d where tx: "prepare_transaction sample_vm ?C sample_candidate = Inr tx" "ptx_account_is_network tx"
    "ptx_details tx = DeltaUpdate d" "delta_ident d = acc_ident (tc_account sample_candidate)" by (rule sample_prepared)
  let ?b2 = "move_task 0 (task_prepares sample_vm ?C) b1"
  let ?b3 = "move_task 0 (task_submits None) ?b2"
  have b2: "?b2 = b1\<lparr>nb_tasks := [(0, Proven tx)]\<rparr>" using s1 tx by (simp add: move_task_def set_task_def)
  have b3: "?b3 = b1\<lparr>nb_tasks := [(0, Accepted tx)], nb_events := [submitted_event tx]\<rparr>"
    using s1 unfolding b2 by (simp add: move_task_def set_task_def)
  have "guarded_run (ntx_next ?ga ?ad ?C) (ntx_sound ?ga ?ad ?C) b0 b1"
    using guarded_run.extend[where steps = "ntx_next ?ga ?ad ?C" and ok = "ntx_sound ?ga ?ad ?C", OF guarded_run.stay, of b0 "Tick 0" b1]
      start s1 by (simp add: ntx_next_def ntx_sound_def)
  then have "guarded_run (ntx_next ?ga ?ad ?C) (ntx_sound ?ga ?ad ?C) b0 ?b2"
    by (rule guarded_run.extend[where ev = "Prepare 0 sample_vm"]) (use s1 tx in \<open>auto simp: ntx_next_def ntx_sound_def\<close>)
  then have run: "guarded_run (ntx_next ?ga ?ad ?C) (ntx_sound ?ga ?ad ?C) b0 ?b3"
    by (rule guarded_run.extend[where ev = "Submit 0 None"]) (simp_all add: ntx_next_def ntx_sound_def)
  have "updates_account (NetworkAccountPrefix 5) (submitted_event tx)"
    using tx by (simp add: submitted_event_def added_event_def sample_candidate_def sample_network_account_def
        prefix_try_from_account_def get_account_id_tag_prefix_def)
  then have "num_awaited ?b3 (NetworkAccountPrefix 5) = 1" unfolding b3 by (simp add: num_awaited_def)
  with start(1) run s1(4) acc show ?thesis unfolding b3
    by (intro that[of s header b0 "b1\<lparr>nb_tasks := [(0, Accepted tx)], nb_events := [submitted_event tx]\<rparr>" tx a]) simp_all
qed

theorem ntx_loop_safe_witness:
  "\<exists>s header b0 b tx. sample_serve [sample_note 0, sample_note 1] = Ok s (header, b0)
     \<and> guarded_run (ntx_next sample_get_account sample_apply sample_context) (ntx_sound sample_get_account sample_apply sample_context) b0 b
     \<and> nb_tasks b = [(0, Accepted tx)] \<and> nb_events b = [submitted_event tx]
     \<and> NetworkAccountPrefix 5 \<in> ns_in_progress (nb_state b)"
proof (rule sample_awaited)
  let ?ga = sample_get_account and ?ad = sample_apply and ?C = sample_context
  fix s header b0 b tx a
  assume start: "sample_serve [sample_note 0, sample_note 1] = Ok s (header, b0)"
    and run: "guarded_run (ntx_next ?ga ?ad ?C) (ntx_sound ?ga ?ad ?C) b0 b"
    and b: "nb_tasks b = [(0, Accepted tx)]" "nb_events b = [submitted_event tx]" "num_awaited b (NetworkAccountPrefix 5) = 1"
  have world: "guarded_run (ntx_next ?ga ?ad ?C) (ntx_world ?ga ?ad ?C) b0 b"
    by (rule guarded_run_mono[OF run]) (simp add: ntx_sound_def)
  have "num_working b p + num_awaited b p = (if p \<in> ns_in_progress (nb_state b) then 1 else 0)" for p
    using ntx_loop_safe[OF sample_lib start[unfolded sample_serve_def] world] run by simp
  from this[of "NetworkAccountPrefix 5"] b(3) have "NetworkAccountPrefix 5 \<in> ns_in_progress (nb_state b)"
    by (simp split: if_splits)
  with start run b(1,2) show ?thesis by blast
qed

theorem lost_reply_doubles_work_witness:
  "\<exists>b b' b'' tx cand. nb_tasks b = [(0, Accepted tx)] \<and> nb_events b = [submitted_event tx]
     \<and> run_ntx_steps sample_get_account sample_apply sample_context b [Reply 0 (Some ''connection lost''), Join 0, Tick 1] = Ok b' ()
     \<and> (1, Preparing cand) \<in> set (nb_tasks b') \<and> num_working b' (NetworkAccountPrefix 5) = 1
     \<and> num_awaited b' (NetworkAccountPrefix 5) = 1
     \<and> run_ntx_steps sample_get_account sample_apply sample_context b [Reply 0 None, Join 0] = Ok b'' ()
     \<and> num_working b'' (NetworkAccountPrefix 5) = 0"
proof (rule sample_awaited)
  let ?ga = sample_get_account and ?ad = sample_apply and ?C = sample_context
  fix s header b0 b tx a
  assume start: "sample_serve [sample_note 0, sample_note 1] = Ok s (header, b0)"
    and run: "guarded_run (ntx_next ?ga ?ad ?C) (ntx_sound ?ga ?ad ?C) b0 b"
    and b: "nb_tasks b = [(0, Accepted tx)]" "nb_events b = [submitted_event tx]" "nb_idx b 0 = Some (NetworkAccountPrefix 5)"
      "num_awaited b (NetworkAccountPrefix 5) = 1" "ns_queue (nb_state b) = [NetworkAccountPrefix 5]"
    and a: "ns_accounts (nb_state b) (NetworkAccountPrefix 5) = Some a" "na_available_notes a \<noteq> []"
  have "builder_ok b0" by (rule ntx_serve_base(2)[OF sample_lib(1,3) start[unfolded sample_serve_def]]) simp
  with ntx_runs.reached[OF run] sample_lib have ok: "builder_ok b" by blast
  from b have b': "(0, Accepted tx) \<in> set (nb_tasks b)" "ns_queue (nb_state b) = [] @ NetworkAccountPrefix 5 # []"
    "1 \<notin> fst ` set (nb_tasks b)" by simp_all
  from lost_reply_doubles_work[OF sample_lib(1,2) ok b'(1) b(3,4) a b'(2) _ b'(3), of ?C "''connection lost''"]
  show ?thesis using b(1,2) by (simp del: run_ntx_steps.simps) blast
qed

text \<open>Five accounts with a note each: the builder works on all of them at once, one more than its maximum.\<close>

definition account_of_prefix :: "unit account_query" where
  "account_of_prefix w p = (w, Inr (Some \<lparr>acc_ident = \<lparr>ident_key = unat (prefix_inner p),
     ident_prefix = push_bit 34 (ucast (prefix_inner p)), ident_is_network = True\<rparr>, acc_content = 0\<rparr>))"

definition note_for :: "nat \<Rightarrow> network_note" where
  "note_for i = NetworkNote \<lparr>note_id_of = 70 + i, note_nullifier = 80 + i,
     note_tag_of = \<lparr>tag_inner = of_nat i, tag_network_execution = True, tag_single_target = True\<rparr>, is_network_note = True\<rparr>"

lemma maximum_exceeded:
  "case ntx_serve account_of_prefix (\<lambda>w. (w, Inr (map note_for [1, 2, 3, 4, 5, 6]))) () (Inr \<lparr>bh_block_num = 0\<rparr>)
       (Inr (Some \<lparr>bh_block_num = 7\<rparr>)) (\<lambda>tip. Inr []) of
     Ok s (header, b) \<Rightarrow>
       ends_well (\<lambda>b _. length (nb_tasks b) = Suc max_in_progress_txs)
         (run_ntx_steps account_of_prefix sample_apply sample_context b [Tick 0, Tick 1, Tick 2, Tick 3, Tick 4, Tick 5])
   | _ \<Rightarrow> False"
  by code_simp

end
