(* ===== verification/Ntx_Loaded.thy ===== *)
theory Ntx_Loaded
  imports Ntx_Properties Guarded_Runs
begin

text \<open>
  Notes that the network transaction builder loads from the store at its start: they are not indexed, so no
  event of the mempool takes them away.
\<close>

section \<open>A note that stays\<close>

text \<open>The note with nullifier \<open>k\<close> is available to the account \<open>p\<close>, which is committed, and not indexed.\<close>

definition unmarked :: "nullifier \<Rightarrow> network_account_prefix \<Rightarrow> 'w ntx_state \<Rightarrow> bool" where
  "unmarked k p s \<longleftrightarrow> ns_nullifier_idx s k = None
     \<and> (\<exists>a n. ns_accounts s p = Some a \<and> na_committed a \<noteq> None
          \<and> map_of (na_available_notes a) k = Some n \<and> nn_nullifier n = k)"

definition offers :: "nullifier \<Rightarrow> ntx_account \<Rightarrow> bool" where
  "offers k a \<longleftrightarrow> na_committed a \<noteq> None \<and> (\<exists>n. map_of (na_available_notes a) k = Some n \<and> nn_nullifier n = k)"

lemma unmarked_iff:
  "unmarked k p s \<longleftrightarrow> ns_nullifier_idx s k = None \<and> (\<exists>a. ns_accounts s p = Some a \<and> offers k a)"
  by (auto simp: unmarked_def offers_def)

lemma offers_kept:
  "add_delta apply_delta a d = (Ok a' () :: (ntx_account, 'e, unit) outcome) \<Longrightarrow> offers k a \<Longrightarrow> offers k a'"
  "commit_delta a = (Ok a' () :: (ntx_account, 'e, unit) outcome) \<Longrightarrow> offers k a \<Longrightarrow> offers k a'"
  "revert_delta a = (Ok a' created :: (ntx_account, 'e, bool) outcome) \<Longrightarrow> offers k a \<Longrightarrow> offers k a' \<and> \<not> created"
  "add_nullifier a j = (Ok a' () :: (ntx_account, 'e, unit) outcome) \<Longrightarrow> j \<noteq> k \<Longrightarrow> offers k a \<Longrightarrow> offers k a'"
  "commit_nullifier a j = (Ok a' () :: (ntx_account, 'e, unit) outcome) \<Longrightarrow> offers k a \<Longrightarrow> offers k a'"
  "offers k a \<Longrightarrow> offers k (add_note a n)" "j \<noteq> k \<Longrightarrow> offers k a \<Longrightarrow> offers k (revert_note a j)"
  "j \<noteq> k \<Longrightarrow> offers k a \<Longrightarrow> offers k (revert_nullifier a j)"
  by (auto simp: offers_def add_delta_def commit_delta_def revert_delta_def add_nullifier_def commit_nullifier_def
      add_note_def revert_note_def revert_nullifier_def Let_def split: option.splits list.splits if_splits)

lemma unmarked_put:
  "unmarked k p s \<Longrightarrow> ns_accounts s q = Some a \<Longrightarrow> (offers k a \<Longrightarrow> offers k a') \<Longrightarrow> unmarked k p (put_ntx_account s q a')"
  by (auto simp: unmarked_iff put_ntx_account_def)

lemma unmarked_frame:
  "unmarked k p s \<Longrightarrow> ns_accounts s' = ns_accounts s \<Longrightarrow> ns_nullifier_idx s' k = ns_nullifier_idx s k \<Longrightarrow> unmarked k p s'"
  by (simp add: unmarked_iff)

section \<open>Loading\<close>

lemma fetch_account_unmarked:
  assumes "fetch_account get_account s q = Ok s' found"
  shows "unmarked k p s \<Longrightarrow> unmarked k p s'"
  using assms by (auto simp: fetch_account_def unmarked_iff Let_def split: option.splits prod.splits sum.splits)

lemma load_notes_unmarked:
  "load_notes get_account s ns = Ok s' r \<Longrightarrow> unmarked k p s \<Longrightarrow> unmarked k p s'"
proof (induction ns arbitrary: s)
  case (Cons n ns)
  then obtain q s1 found where f: "fetch_account get_account s q = Ok s1 found" and
    l: "load_notes get_account (case found of None \<Rightarrow> s1 | Some a \<Rightarrow> put_ntx_account s1 q (add_note a n)) ns = Ok s' r"
    by (auto simp: and_then_eq_Ok split: option.splits)
  have "unmarked k p (case found of None \<Rightarrow> s1 | Some a \<Rightarrow> put_ntx_account s1 q (add_note a n))"
    using fetch_account_unmarked[OF f Cons.prems(2)] fetch_account_retains(2)[OF f]
    by (auto intro: unmarked_put offers_kept(6) split: option.split)
  with Cons.IH[OF l] show ?case .
qed simp

text \<open>All tracked accounts are committed while the notes are loaded.\<close>

lemma load_notes_loads:
  assumes "load_notes get_account s ns = Ok s' r" and "n \<in> set ns" and "nn_account_prefix n = Some p"
    and "\<forall>w w'. get_account w p \<noteq> (w', Inr None)"
    and "ns_nullifier_idx s = Map.empty" and "\<forall>q a. ns_accounts s q = Some a \<longrightarrow> na_committed a \<noteq> None"
  shows "unmarked (nn_nullifier n) p s'"
  using assms
proof (induction ns arbitrary: s)
  case (Cons m ns)
  then obtain q s1 found where q: "nn_account_prefix m = Some q" and f: "fetch_account get_account s q = Ok s1 found" and
    l: "load_notes get_account (case found of None \<Rightarrow> s1 | Some a \<Rightarrow> put_ntx_account s1 q (add_note a m)) ns = Ok s' r"
    by (auto simp: and_then_eq_Ok split: option.splits)
  let ?s = "case found of None \<Rightarrow> s1 | Some a \<Rightarrow> put_ntx_account s1 q (add_note a m)"
  have s1: "ns_nullifier_idx s1 = Map.empty" "\<forall>q a. ns_accounts s1 q = Some a \<longrightarrow> na_committed a \<noteq> None"
    using f Cons.prems(5,6) by (auto simp: fetch_account_def from_committed_account_def Let_def
        split: option.splits prod.splits sum.splits if_splits)
  note f = fetch_account_retains[OF f]
  show ?case
  proof (cases "n = m")
    case True
    then have "p = q" using q Cons.prems(3) by simp
    with f(2,4) Cons.prems(4) obtain a where a: "found = Some a" "ns_accounts s1 p = Some a" by auto
    with True s1 \<open>p = q\<close> have "unmarked (nn_nullifier n) p ?s"
      by (auto simp: unmarked_iff offers_def put_ntx_account_def add_note_def)
    then show ?thesis by (rule load_notes_unmarked[OF l])
  next
    case False
    then have "n \<in> set ns" using Cons.prems(2) by simp
    moreover have "ns_nullifier_idx ?s = Map.empty" using s1(1) by (simp add: put_ntx_account_def split: option.split)
    moreover have "\<forall>q a. ns_accounts ?s q = Some a \<longrightarrow> na_committed a \<noteq> None"
    proof (cases found)
      case (Some a)
      with f(2) s1(2) have "na_committed a \<noteq> None" by metis
      with Some s1(2) show ?thesis by (auto simp: put_ntx_account_def add_note_def)
    qed (use s1(2) in simp)
    ultimately show ?thesis using Cons.IH[OF l] Cons.prems(3,4) by blast
  qed
qed simp

section \<open>Events\<close>

text \<open>The note is not announced, and the account not created, by the call.\<close>

fun leaves_alone :: "nullifier \<Rightarrow> network_account_prefix \<Rightarrow> ntx_op \<Rightarrow> bool" where
  "leaves_alone k p (MempoolEvent (TransactionAdded t nullifiers notes details)) \<longleftrightarrow>
     k \<notin> nn_nullifier ` set notes
     \<and> (\<forall>acc. Option.bind details update_from_protocol = Some (NewNetworkAccount acc) \<longrightarrow>
          update_prefix (NewNetworkAccount acc) \<noteq> Some p)"
| "leaves_alone k p op \<longleftrightarrow> True"

lemma add_account_update_unmarked:
  assumes u: "unmarked k p s" and r: "add_account_update get_account apply_delta s details = Ok s' r"
    and other: "\<forall>acc. Option.bind details update_from_protocol = Some (NewNetworkAccount acc) \<longrightarrow>
          update_prefix (NewNetworkAccount acc) \<noteq> Some p"
  shows "unmarked k p s'"
proof (cases "Option.bind details update_from_protocol")
  case (Some v)
  with r obtain q where q: "update_prefix v = Some q" by (auto simp: add_account_update_def split: option.splits)
  show ?thesis
  proof (cases v)
    case (NewNetworkAccount acc)
    with Some q other have "q \<noteq> p" by auto
    then show ?thesis using NewNetworkAccount r Some q u by (auto simp: add_account_update_def unmarked_iff)
  next
    case (NetworkAccountDelta d)
    with r Some q obtain s1 a where f: "fetch_account get_account s q = Ok s1 (Some a)" and
      d: "and_then (in_field (put_ntx_account s1 q) (add_delta apply_delta a d :: (ntx_account, ntx_error, unit) outcome))
        (\<lambda>s _. Ok (s\<lparr>ns_in_progress := ns_in_progress s - {q}\<rparr>) (Some q)) = Ok s' r"
      by (cases "fetch_account get_account s q") (auto simp: add_account_update_def split: option.splits)
    from d obtain a' where a': "add_delta apply_delta a d = (Ok a' () :: (ntx_account, ntx_error, unit) outcome)"
      and s': "s' = put_ntx_account s1 q a'\<lparr>ns_in_progress := ns_in_progress (put_ntx_account s1 q a') - {q}\<rparr>"
      by (auto simp: outcome_Ok_iffs)
    have "unmarked k p (put_ntx_account s1 q a')"
      by (rule unmarked_put[OF fetch_account_unmarked[OF f u] fetch_account_retains(2)[OF f, symmetric]])
        (rule offers_kept(1)[OF a'])
    then show ?thesis unfolding s' by (rule unmarked_frame) simp_all
  qed
qed (use u r in \<open>simp add: add_account_update_def\<close>)

lemma add_network_notes_unmarked:
  "add_network_notes get_account s i ns = Ok s' r \<Longrightarrow> k \<notin> nn_nullifier ` set ns \<Longrightarrow> unmarked k p s \<Longrightarrow> unmarked k p s'"
proof (induction ns arbitrary: s i)
  case (Cons n ns)
  from Cons.prems obtain q where q: "nn_account_prefix n = Some q" by (auto split: option.splits)
  let ?s = "s\<lparr>ns_nullifier_idx := (ns_nullifier_idx s)(nn_nullifier n \<mapsto> q)\<rparr>"
  from Cons.prems q obtain s1 found where f: "fetch_account get_account ?s q = Ok s1 found" and
    l: "add_network_notes get_account (case found of None \<Rightarrow> s1 | Some a \<Rightarrow> put_ntx_account s1 q (add_note a n))
      (i\<lparr>im_notes := insert (nn_nullifier n) (im_notes i)\<rparr>) ns = Ok s' r"
    by (cases "fetch_account get_account ?s q") (auto simp: Let_def)
  have "unmarked k p ?s" by (rule unmarked_frame[OF Cons.prems(3)]) (use Cons.prems(2) in auto)
  then have "unmarked k p (case found of None \<Rightarrow> s1 | Some a \<Rightarrow> put_ntx_account s1 q (add_note a n))"
    using fetch_account_unmarked[OF f] fetch_account_retains(2)[OF f]
    by (auto intro: unmarked_put offers_kept(6) split: option.split)
  with Cons.IH[OF l] Cons.prems(2) show ?case by simp
qed simp

lemma nullifier_loops_unmarked:
  fixes s s' :: "'w ntx_state"
  shows "(add_nullifiers s i ks :: ('w ntx_state, 'e, tx_impact) outcome) = Ok s' x \<Longrightarrow> unmarked k p s \<Longrightarrow> unmarked k p s'"
    and "(commit_nullifiers s ks :: ('w ntx_state, 'e, unit) outcome) = Ok s' r \<Longrightarrow> unmarked k p s \<Longrightarrow> unmarked k p s'"
    and "(revert_notes s ks :: ('w ntx_state, 'e, unit) outcome) = Ok s' r \<Longrightarrow> unmarked k p s \<Longrightarrow> unmarked k p s'"
    and "(revert_nullifiers s ks :: ('w ntx_state, 'e, unit) outcome) = Ok s' r \<Longrightarrow> unmarked k p s \<Longrightarrow> unmarked k p s'"
proof -
  have other: "j \<noteq> k" if "unmarked k p s" "ns_nullifier_idx s j = Some q" for s :: "'w ntx_state" and j q
    using that by (auto simp: unmarked_iff)
  have drop: "unmarked k p (s\<lparr>ns_nullifier_idx := (ns_nullifier_idx s)(j := None)\<rparr>)" if "unmarked k p s" for s :: "'w ntx_state" and j
    using that by (simp add: unmarked_iff)
  show "(add_nullifiers s i ks :: ('w ntx_state, 'e, tx_impact) outcome) = Ok s' x \<Longrightarrow> unmarked k p s \<Longrightarrow> unmarked k p s'"
  proof (induction ks arbitrary: s i)
    case (Cons j ks)
    show ?case
    proof (cases "ns_nullifier_idx s j")
      case (Some q)
      with Cons.prems obtain a a' where a: "ns_accounts s q = Some a" "add_nullifier a j = (Ok a' () :: (ntx_account, 'e, unit) outcome)"
        and l: "(add_nullifiers (put_ntx_account s q a') (i\<lparr>im_nullifiers := insert j (im_nullifiers i)\<rparr>) ks :: ('w ntx_state, 'e, tx_impact) outcome) = Ok s' x"
        by (auto simp: outcome_Ok_iffs split: option.splits)
      have "unmarked k p (put_ntx_account s q a')"
        by (rule unmarked_put[OF Cons.prems(2) a(1)]) (rule offers_kept(4)[OF a(2) other[OF Cons.prems(2) Some]])
      with Cons.IH[OF l] show ?thesis .
    qed (use Cons in simp)
  qed simp
  show "(commit_nullifiers s ks :: ('w ntx_state, 'e, unit) outcome) = Ok s' r \<Longrightarrow> unmarked k p s \<Longrightarrow> unmarked k p s'"
  proof (induction ks arbitrary: s)
    case (Cons j ks)
    then obtain q where q: "ns_nullifier_idx s j = Some q" by (auto split: option.splits)
    let ?s = "s\<lparr>ns_nullifier_idx := (ns_nullifier_idx s)(j := None)\<rparr>"
    show ?case
    proof (cases "ns_accounts s q")
      case (Some a)
      with Cons.prems q obtain a' where a: "commit_nullifier a j = (Ok a' () :: (ntx_account, 'e, unit) outcome)"
        and l: "(commit_nullifiers (put_ntx_account ?s q a') ks :: ('w ntx_state, 'e, unit) outcome) = Ok s' r"
        by (auto simp: outcome_Ok_iffs Let_def)
      have "unmarked k p (put_ntx_account ?s q a')"
        by (rule unmarked_put[OF drop[OF Cons.prems(2)]]) (use Some in simp, rule offers_kept(5)[OF a])
      with Cons.IH[OF l] show ?thesis .
    next
      case None
      with Cons.prems q have "(commit_nullifiers ?s ks :: ('w ntx_state, 'e, unit) outcome) = Ok s' r" by (simp add: Let_def)
      from Cons.IH[OF this drop[OF Cons.prems(2)]] show ?thesis .
    qed
  qed simp
  show "(revert_notes s ks :: ('w ntx_state, 'e, unit) outcome) = Ok s' r \<Longrightarrow> unmarked k p s \<Longrightarrow> unmarked k p s'"
  proof (induction ks arbitrary: s)
    case (Cons j ks)
    then obtain q where q: "ns_nullifier_idx s j = Some q" by (auto split: option.splits)
    let ?s = "s\<lparr>ns_nullifier_idx := (ns_nullifier_idx s)(j := None)\<rparr>"
    let ?t = "case ns_accounts ?s q of None \<Rightarrow> ?s | Some a \<Rightarrow> put_ntx_account ?s q (revert_note a j)"
    have "unmarked k p ?t" using drop[OF Cons.prems(2), of j] offers_kept(7)[OF other[OF Cons.prems(2) q]]
      by (auto intro: unmarked_put split: option.split)
    moreover from Cons.prems q have "(revert_notes ?t ks :: ('w ntx_state, 'e, unit) outcome) = Ok s' r" by (simp add: Let_def)
    ultimately show ?case using Cons.IH by blast
  qed simp
  show "(revert_nullifiers s ks :: ('w ntx_state, 'e, unit) outcome) = Ok s' r \<Longrightarrow> unmarked k p s \<Longrightarrow> unmarked k p s'"
  proof (induction ks arbitrary: s)
    case (Cons j ks)
    then obtain q where q: "ns_nullifier_idx s j = Some q" by (auto split: option.splits)
    let ?t = "case ns_accounts s q of None \<Rightarrow> s | Some a \<Rightarrow> put_ntx_account s q (revert_nullifier a j)"
    have "unmarked k p ?t" using Cons.prems(2) offers_kept(8)[OF other[OF Cons.prems(2) q]]
      by (auto intro: unmarked_put split: option.split)
    moreover from Cons.prems q have "(revert_nullifiers ?t ks :: ('w ntx_state, 'e, unit) outcome) = Ok s' r" by simp
    ultimately show ?case using Cons.IH by blast
  qed simp
qed

lemma commit_transaction_unmarked:
  fixes s s' :: "'w ntx_state"
  assumes r: "(commit_transaction s t :: ('w ntx_state, 'e, unit) outcome) = Ok s' r" and u: "unmarked k p s"
  shows "unmarked k p s'"
proof (cases "ns_inflight_txs s t")
  case (Some i)
  let ?s = "s\<lparr>ns_inflight_txs := (ns_inflight_txs s)(t := None)\<rparr>"
  from r Some obtain s1 where
    1: "(case im_account_delta i of None \<Rightarrow> Ok ?s () | Some p \<Rightarrow> (case ns_accounts ?s p of None \<Rightarrow> Panic
      | Some a \<Rightarrow> in_field (put_ntx_account ?s p) (commit_delta a))) = (Ok s1 () :: ('w ntx_state, 'e, unit) outcome)" and
    2: "commit_nullifiers s1 (sorted_list_of_set (im_nullifiers i)) = (Ok s' r :: ('w ntx_state, 'e, unit) outcome)"
    by (auto simp: commit_transaction_def Let_def and_then_eq_Ok)
  have us: "unmarked k p ?s" by (rule unmarked_frame[OF u]) simp_all
  have "unmarked k p s1"
  proof (cases "im_account_delta i")
    case (Some q)
    with 1 obtain a a' where a: "ns_accounts ?s q = Some a" "commit_delta a = (Ok a' () :: (ntx_account, 'e, unit) outcome)"
      "s1 = put_ntx_account ?s q a'" by (auto simp: outcome_Ok_iffs split: option.splits)
    show ?thesis unfolding a(3) by (rule unmarked_put[OF us a(1)]) (rule offers_kept(2)[OF a(2)])
  qed (use 1 us in simp)
  then show ?thesis by (rule nullifier_loops_unmarked(2)[OF 2])
qed (use r u in \<open>simp add: commit_transaction_def\<close>)

lemma revert_transaction_unmarked:
  fixes s s' :: "'w ntx_state"
  assumes r: "(revert_transaction s t :: ('w ntx_state, 'e, unit) outcome) = Ok s' r" and u: "unmarked k p s"
  shows "unmarked k p s'"
proof (cases "ns_inflight_txs s t")
  case (Some i)
  let ?s = "s\<lparr>ns_inflight_txs := (ns_inflight_txs s)(t := None)\<rparr>"
  from r Some obtain s1 s2 where
    1: "(case im_account_delta i of None \<Rightarrow> Ok ?s () | Some p \<Rightarrow> (case ns_accounts ?s p of None \<Rightarrow> Panic
      | Some a \<Rightarrow> (case revert_delta a of
           Ok a' created \<Rightarrow> Ok (let s = put_ntx_account ?s p a' in if created then s\<lparr>ns_accounts := (ns_accounts s)(p := None)\<rparr> else s) ()
         | Err _ e \<Rightarrow> Err ?s e | Panic \<Rightarrow> Panic | Diverge \<Rightarrow> Diverge))) = (Ok s1 () :: ('w ntx_state, 'e, unit) outcome)" and
    2: "revert_notes s1 (sorted_list_of_set (im_notes i)) = (Ok s2 () :: ('w ntx_state, 'e, unit) outcome)" and
    3: "revert_nullifiers s2 (sorted_list_of_set (im_nullifiers i)) = (Ok s' r :: ('w ntx_state, 'e, unit) outcome)"
    by (auto simp: revert_transaction_def Let_def and_then_eq_Ok)
  have us: "unmarked k p ?s" by (rule unmarked_frame[OF u]) simp_all
  have "unmarked k p s1"
  proof (cases "im_account_delta i")
    case (Some q)
    with 1 obtain a a' created where a: "ns_accounts ?s q = Some a" "revert_delta a = (Ok a' created :: (ntx_account, 'e, bool) outcome)"
      "s1 = (let s = put_ntx_account ?s q a' in if created then s\<lparr>ns_accounts := (ns_accounts s)(q := None)\<rparr> else s)"
      by (auto split: option.splits outcome.splits)
    note kept = offers_kept(3)[OF a(2), of k]
    have put: "unmarked k p (put_ntx_account ?s q a')" by (rule unmarked_put[OF us a(1)]) (use kept in blast)
    show ?thesis
    proof (cases created)
      case True
      with kept have "\<not> offers k a" by blast
      then have "q \<noteq> p" using us a(1) by (auto simp: unmarked_iff)
      with put True show ?thesis unfolding a(3) by (auto simp: unmarked_iff Let_def)
    qed (use put a(3) in simp)
  qed (use 1 us in simp)
  then show ?thesis by (rule nullifier_loops_unmarked(4)[OF 3 nullifier_loops_unmarked(3)[OF 2]])
qed (use r u in \<open>simp add: revert_transaction_def\<close>)

lemma ntx_add_transaction_unmarked:
  fixes s s' :: "'w ntx_state"
  assumes r: "ntx_add_transaction get_account apply_delta s t nullifiers notes details = Ok s' r"
    and alone: "leaves_alone k p (MempoolEvent (TransactionAdded t nullifiers notes details))" and u: "unmarked k p s"
  shows "unmarked k p s'"
proof (cases "ns_inflight_txs s t")
  case None
  with r obtain s1 prefix s2 i s3 i' where
    1: "add_account_update get_account apply_delta s details = Ok s1 prefix" and
    2: "add_network_notes get_account s1 (impact_default\<lparr>im_account_delta := prefix\<rparr>) notes = Ok s2 i" and
    3: "add_nullifiers s2 i nullifiers = (Ok s3 i' :: ('w ntx_state, ntx_error, tx_impact) outcome)" and
    4: "(if impact_is_empty i' then Ok s3 () else Ok (s3\<lparr>ns_inflight_txs := (ns_inflight_txs s3)(t \<mapsto> i')\<rparr>) ()) = (Ok s' r :: ('w ntx_state, ntx_error, unit) outcome)"
    by (auto simp: ntx_add_transaction_def and_then_eq_Ok domIff)
  have "unmarked k p s1" using alone by (intro add_account_update_unmarked[OF u 1]) simp
  then have "unmarked k p s2" using alone by (intro add_network_notes_unmarked[OF 2]) simp_all
  then have "unmarked k p s3" by (rule nullifier_loops_unmarked(1)[OF 3])
  with 4 show ?thesis by (auto intro: unmarked_frame split: if_splits)
qed (use r u in \<open>auto simp: ntx_add_transaction_def domIff split: if_splits\<close>)

section \<open>Selection\<close>

lemma select_loop_unmarked:
  "(select_candidate_loop m limit s :: ('w ntx_state, 'e, tx_candidate option) outcome) = Ok s' r \<Longrightarrow> unmarked k p s \<Longrightarrow>
     unmarked k p s' \<and> (\<forall>cand. r = Some cand \<longrightarrow> (\<exists>c a. ns_accounts s c = Some a \<and> c \<notin> ns_in_progress s
       \<and> ns_in_progress s' = insert c (ns_in_progress s) \<and> tc_notes cand = take limit (na_notes a)))"
proof (induction m arbitrary: s)
  case (Suc m)
  then obtain c rest where q: "ns_queue s = c # rest" by (auto split: list.splits)
  let ?s = "s\<lparr>ns_queue := rest @ [c]\<rparr>"
  have u: "unmarked k p ?s" by (rule unmarked_frame[OF Suc.prems(2)]) simp_all
  show ?case
  proof (cases "c \<in> ns_in_progress s")
    case True
    with Suc.prems(1) q have "(select_candidate_loop m limit ?s :: ('w ntx_state, 'e, tx_candidate option) outcome) = Ok s' r"
      by (simp add: Let_def)
    from Suc.IH[OF this u] show ?thesis by simp
  next
    case False
    with Suc.prems(1) q obtain a where a: "ns_accounts s c = Some a" by (auto simp: Let_def split: option.splits)
    let ?e = "?s\<lparr>ns_accounts := (ns_accounts s)(c := None), ns_queue := rest\<rparr>"
    consider "na_is_empty a" "(select_candidate_loop m limit ?e :: ('w ntx_state, 'e, tx_candidate option) outcome) = Ok s' r"
      | "(select_candidate_loop m limit ?s :: ('w ntx_state, 'e, tx_candidate option) outcome) = Ok s' r"
      | cand where "r = Some cand" "tc_notes cand = take limit (na_notes a)" "s' = ?s\<lparr>ns_in_progress := insert c (ns_in_progress s)\<rparr>"
      using Suc.prems(1) q False a by (auto simp: Let_def split: if_splits option.splits)
    then show ?thesis
    proof cases
      case 1
      then have "\<not> offers k a" by (simp add: na_is_empty_def offers_def)
      then have "c \<noteq> p" using Suc.prems(2) a by (auto simp: unmarked_iff)
      then have "unmarked k p ?e" using Suc.prems(2) by (auto simp: unmarked_iff)
      from Suc.IH[OF 1(2) this] show ?thesis by (auto split: if_splits; blast)
    next
      case 2
      from Suc.IH[OF this u] show ?thesis by simp
    next
      case 3
      have "unmarked k p s'" unfolding 3(3) by (rule unmarked_frame[OF Suc.prems(2)]) simp_all
      then show ?thesis using 3 a False by auto
    qed
  qed
qed simp

section \<open>Calls\<close>

lemma unmarked_step:
  assumes r: "run_ntx_op get_account apply_delta s op = Ok s' r" and alone: "leaves_alone k p op" and u: "unmarked k p s"
  shows "unmarked k p s'"
proof (cases op)
  case (MempoolEvent ev)
  have commits: "(commit_transactions_of s ts :: ('a ntx_state, ntx_error, unit) outcome) = Ok s' v \<Longrightarrow> unmarked k p s \<Longrightarrow> unmarked k p s'"
    for s s' :: "'a ntx_state" and ts v
    by (induction ts arbitrary: s) (auto simp: and_then_eq_Ok intro: commit_transaction_unmarked)
  have reverts: "(revert_transactions_of s ts :: ('a ntx_state, ntx_error, unit) outcome) = Ok s' v \<Longrightarrow> unmarked k p s \<Longrightarrow> unmarked k p s'"
    for s s' :: "'a ntx_state" and ts v
    by (induction ts arbitrary: s) (auto simp: and_then_eq_Ok intro: revert_transaction_unmarked)
  from r MempoolEvent have e: "mempool_update get_account apply_delta s ev = Ok s' ()" by (auto simp: and_then_eq_Ok)
  show ?thesis
  proof (cases ev)
    case (TransactionAdded t ks ns d)
    with e alone MempoolEvent u show ?thesis by (auto intro: ntx_add_transaction_unmarked simp del: leaves_alone.simps)
  qed (use e commits reverts u in \<open>auto\<close>)
next
  case (SelectCandidate limit)
  with r have "(select_candidate_loop (length (ns_queue s)) limit s :: ('a ntx_state, ntx_error, tx_candidate option) outcome) = Ok s' r" by (simp add: select_candidate_def)
  from select_loop_unmarked[OF this u] show ?thesis by blast
next
  case (CandidateFailed q)
  with r have "s' = candidate_failed s q" by simp
  with u show ?thesis by (auto simp: candidate_failed_def intro: unmarked_frame)
qed

definition ntx_op_next :: "'w account_query \<Rightarrow> (account \<Rightarrow> account_delta \<Rightarrow> account option) \<Rightarrow> 'w ntx_state \<Rightarrow> ntx_op \<Rightarrow>
    'w ntx_state \<Rightarrow> bool" where
  "ntx_op_next get_account apply_delta s op s' \<longleftrightarrow>
     (case run_ntx_op get_account apply_delta s op of Ok t r \<Rightarrow> s' = t | _ \<Rightarrow> False)"

interpretation unmarked_runs: run_invariant "ntx_op_next get_account apply_delta" "\<lambda>s. leaves_alone k p" "unmarked k p"
  for get_account apply_delta k p
proof unfold_locales
  fix s op s' assume "unmarked k p s" "leaves_alone k p op" "ntx_op_next get_account apply_delta s op s'"
  then show "unmarked k p s'" by (auto simp: ntx_op_next_def intro: unmarked_step split: outcome.splits)
qed

text \<open>
  C31. A note that the builder loaded from the store at its start, for an account that the store knows, is never
  marked as consumed: whatever calls succeed afterwards, the events of transactions that consume the
  note and the commits of those transactions included, the note is still available to its account, unless the
  note is announced once more or its account created once more.  Each time the account is selected with
  room for all its available notes, its task is given the note again.
\<close>

theorem loaded_note_is_consumed_twice:
  assumes stored: "get_notes w = (w', Inr stored)" "n \<in> set stored" "nn_account_prefix n = Some p"
    and known: "\<forall>w w'. get_account w p \<noteq> (w', Inr None)"
    and load: "load_state get_account get_notes w = Ok s0 ()"
    and run: "guarded_run (ntx_op_next get_account apply_delta) (\<lambda>s. leaves_alone (nn_nullifier n) p) s0 s"
  shows "ns_nullifier_idx s (nn_nullifier n) = None
    \<and> (\<exists>a. ns_accounts s p = Some a \<and> nn_nullifier n \<in> available a
        \<and> (\<forall>limit s' cand. select_candidate s limit = (Ok s' (Some cand) :: ('w ntx_state, ntx_error, tx_candidate option) outcome)
             \<and> p \<in> ns_in_progress s' - ns_in_progress s \<and> length (na_available_notes a) \<le> limit \<longrightarrow>
               nn_nullifier n \<in> nn_nullifier ` set (tc_notes cand)))"
proof -
  let ?k = "nn_nullifier n"
  from load stored(1) have "load_notes get_account (ntx_default w') stored = Ok s0 ()" by (simp add: load_state_def)
  then have "unmarked ?k p s0"
    using load_notes_loads[of get_account "ntx_default w'" stored s0 "()" n p] stored(2,3) known by (simp add: ntx_default_def)
  from unmarked_runs.reached[OF run this] have u: "unmarked ?k p s" .
  then obtain a m where a: "ns_nullifier_idx s ?k = None" "ns_accounts s p = Some a"
    "map_of (na_available_notes a) ?k = Some m" "nn_nullifier m = ?k" by (auto simp: unmarked_def)
  then have m: "(?k, m) \<in> set (na_available_notes a)" by (simp add: map_of_SomeD)
  have again: "?k \<in> nn_nullifier ` set (tc_notes cand)"
    if sel: "select_candidate s limit = (Ok s' (Some cand) :: ('w ntx_state, ntx_error, tx_candidate option) outcome)"
      and new: "p \<in> ns_in_progress s' - ns_in_progress s" and room: "length (na_available_notes a) \<le> limit" for limit s' cand
  proof -
    from select_loop_unmarked[OF sel[unfolded select_candidate_def] u] obtain c b where
      c: "ns_accounts s c = Some b" "ns_in_progress s' = insert c (ns_in_progress s)" "tc_notes cand = take limit (na_notes b)" by blast
    with new have "c = p" by auto
    with c a(2) room have "tc_notes cand = na_notes a" by (simp add: na_notes_def)
    then have "m \<in> set (tc_notes cand)" using m unfolding na_notes_def by (metis image_eqI list.set_map snd_conv)
    with a(4) show ?thesis by (metis imageI)
  qed
  from m have "?k \<in> available a" by (force simp: available_def)
  with a again show ?thesis by blast
qed

text \<open>A loaded note, consumed by a transaction that is committed, and given to the next task again.\<close>

theorem loaded_note_is_consumed_twice_witness:
  "\<exists>s0 s a. load_state sample_get_account (\<lambda>w. (w, Inr [sample_network_note])) () = Ok s0 ()
     \<and> run_ntx_ops sample_get_account sample_apply s0
         [MempoolEvent (TransactionAdded 9 [80] [] (Some (DeltaUpdate \<lparr>delta_ident = acc_ident (sample_network_account 0), delta_content = 1\<rparr>))),
          MempoolEvent (BlockCommitted \<lparr>bh_block_num = 8\<rparr> [9])] = Ok s ()
     \<and> ns_accounts s (NetworkAccountPrefix 5) = Some a \<and> 80 \<in> available a"
proof -
  let ?ga = sample_get_account and ?p = "NetworkAccountPrefix 5"
  let ?ops = "[MempoolEvent (TransactionAdded 9 [80] [] (Some (DeltaUpdate \<lparr>delta_ident = acc_ident (sample_network_account 0), delta_content = 1\<rparr>))),
          MempoolEvent (BlockCommitted \<lparr>bh_block_num = 8\<rparr> [9])]"
  have "case load_state ?ga (\<lambda>w. (w, Inr [sample_network_note])) () of
      Ok s0 _ \<Rightarrow> (case run_ntx_op ?ga sample_apply s0 (?ops ! 0) of
          Ok s1 _ \<Rightarrow> (case run_ntx_op ?ga sample_apply s1 (?ops ! 1) of Ok s _ \<Rightarrow> True | _ \<Rightarrow> False)
        | _ \<Rightarrow> False)
    | _ \<Rightarrow> False"
    by code_simp
  then obtain s0 s1 s r1 r2 where l: "load_state ?ga (\<lambda>w. (w, Inr [sample_network_note])) () = Ok s0 ()"
    and 1: "run_ntx_op ?ga sample_apply s0 (?ops ! 0) = Ok s1 r1" and 2: "run_ntx_op ?ga sample_apply s1 (?ops ! 1) = Ok s r2"
    by (auto split: outcome.splits)
  have "guarded_run (ntx_op_next ?ga sample_apply) (\<lambda>s. leaves_alone 80 ?p) s0 s1"
    by (rule guarded_run.extend[OF guarded_run.stay, where ev = "?ops ! 0"]) (use 1 in \<open>simp_all add: ntx_op_next_def\<close>)
  then have run: "guarded_run (ntx_op_next ?ga sample_apply) (\<lambda>s. leaves_alone 80 ?p) s0 s"
    by (rule guarded_run.extend[where ev = "?ops ! 1"]) (use 2 in \<open>simp_all add: ntx_op_next_def\<close>)
  have "\<exists>a. ns_accounts s ?p = Some a \<and> 80 \<in> available a"
    using loaded_note_is_consumed_twice[of "\<lambda>w. (w, Inr [sample_network_note])" "()" "()" "[sample_network_note]" sample_network_note ?p ?ga s0 sample_apply s]
      l run by (auto simp: sample_note_prefix sample_note_nullifier sample_get_account_def)
  moreover have "run_ntx_ops ?ga sample_apply s0 ?ops = Ok s ()" using 1 2 by simp
  ultimately show ?thesis using l by blast
qed

end
