(* ===== verification/Store_Tables.thy ===== *)
theory Store_Tables
  imports Network_Domain
begin

text \<open>
  The store's database: the tables of src/crates/store/src/db/migrations/001-init.sql as lists of
  rows, the records the queries return (crates/store/src/db/mod.rs), the errors
  (crates/store/src/errors.rs), the limits on query parameters (crates/utils/src/limiter.rs) and the
  conversions between Rust and SQL values (crates/store/src/db/sql/utils.rs).

  A blob column holds the value it serializes: the store only reads what it has written.  The
  conversions that can fail or change a value, between \<open>u64\<close> and SQLite's signed integers, are
  written out.  Rows are kept in the order of insertion; where a query leaves the order of rows open,
  no theorem depends on it.
\<close>

section \<open>What is read of the protocol library\<close>

record store_header =
  sh_block_num :: block_number
  sh_prev_commitment :: digest
  sh_chain_commitment :: digest
  sh_account_root :: digest
  sh_nullifier_root :: digest
  sh_note_root :: digest
  sh_tx_commitment :: digest
  sh_commitment :: digest

datatype nf_action = NfAdd | NfRemove

record db_delta =
  dd_nonce :: nat
  dd_values :: "(nat \<times> digest) list"
  dd_maps :: "(nat \<times> (digest \<times> digest) list) list"
  dd_fungible :: "(account_ident \<times> int) list"
  dd_non_fungible :: "(digest \<times> nf_action) list"

datatype storage_slot = ValueSlot digest | MapSlot "(digest \<times> digest) list"

datatype asset = Fungible account_ident nat | NonFungible digest

record db_account =
  da_ident :: account_ident
  da_commitment :: digest
  da_nonce :: nat
  da_storage :: "storage_slot list"
  da_vault :: "asset list"

datatype block_account_details = PrivateAccount | NewPublic db_account | PublicDelta db_delta

record block_account_update =
  bu_account_id :: account_ident
  bu_final_commitment :: digest
  bu_details :: block_account_details

record tx_header =
  th_id :: transaction_id
  th_account_id :: account_ident

record note_metadata =
  nm_sender :: account_ident
  nm_note_type :: nat
  nm_tag :: "32 word"
  nm_network :: bool
  nm_aux :: "64 word"
  nm_execution_hint :: "64 word"

record note_details =
  nd_assets :: nat
  nd_inputs :: nat
  nd_script_root :: digest
  nd_script :: nat
  nd_serial_num :: digest

section \<open>Records of the store\<close>

record nullifier_info =
  ni_nullifier :: nullifier
  ni_block_num :: block_number

record transaction_summary =
  ts_account_id :: account_ident
  ts_block_num :: block_number
  ts_transaction_id :: transaction_id

record account_summary =
  as_account_id :: account_ident
  as_commitment :: digest
  as_block_num :: block_number

record account_info =
  ai_summary :: account_summary
  ai_details :: "db_account option"

record note_record =
  no_block_num :: block_number
  no_note_index :: "nat \<times> nat"
  no_note_id :: note_id
  no_metadata :: note_metadata
  no_details :: "note_details option"
  no_merkle_path :: nat

record note_sync_record =
  ny_block_num :: block_number
  ny_note_index :: "nat \<times> nat"
  ny_note_id :: note_id
  ny_metadata :: note_metadata
  ny_merkle_path :: nat

definition note_sync_of :: "note_record \<Rightarrow> note_sync_record" where
  "note_sync_of n =
     \<lparr>ny_block_num = no_block_num n, ny_note_index = no_note_index n, ny_note_id = no_note_id n,
      ny_metadata = no_metadata n, ny_merkle_path = no_merkle_path n\<rparr>"

section \<open>Errors\<close>

datatype db_error =
    SqliteConstraint
  | SqliteOutOfRange int
  | SqliteIntegerOverflow
  | QueryParamLimitExceeded string nat nat
  | AccountCommitmentsMismatch digest digest
  | AccountNotFoundInDb account_ident
  | AccountsNotFoundInDb "account_ident set"
  | AccountNotPublic account_ident
  | AccountDeltaError
  | DbNetworkAccountError network_account_error
  | StorageSlotNotMap nat
  | DataCorrupted

datatype db_status = StatusNotFound db_error | StatusInternal db_error

fun db_error_status :: "db_error \<Rightarrow> db_status" where
  "db_error_status (AccountNotFoundInDb a) = StatusNotFound (AccountNotFoundInDb a)"
| "db_error_status (AccountsNotFoundInDb a) = StatusNotFound (AccountsNotFoundInDb a)"
| "db_error_status (AccountNotPublic a) = StatusNotFound (AccountNotPublic a)"
| "db_error_status e = StatusInternal e"

section \<open>Limits on query parameters\<close>

definition limit_check :: "string \<Rightarrow> nat \<Rightarrow> nat \<Rightarrow> db_error + unit" where
  "limit_check which limit n = (if n > limit then Inl (QueryParamLimitExceeded which n limit) else Inr ())"

definition account_id_limit :: "nat \<Rightarrow> db_error + unit" where
  "account_id_limit = limit_check ''account_id'' 1000"

definition nullifier_prefix_limit :: "nat \<Rightarrow> db_error + unit" where
  "nullifier_prefix_limit = limit_check ''nullifier_prefix'' 1000"

definition nullifier_limit :: "nat \<Rightarrow> db_error + unit" where
  "nullifier_limit = limit_check ''nullifier'' 1000"

definition note_tag_limit :: "nat \<Rightarrow> db_error + unit" where
  "note_tag_limit = limit_check ''note_tag'' 1000"

definition note_id_limit :: "nat \<Rightarrow> db_error + unit" where
  "note_id_limit = limit_check ''note_id'' 1000"

definition block_limit :: "nat \<Rightarrow> db_error + unit" where
  "block_limit = limit_check ''block_header'' 1000"

section \<open>Conversions of integers\<close>

text \<open>
  \<open>u64_to_value\<close> and \<open>column_value_as_u64\<close> reinterpret the 64 bits; \<open>row.get::<u64>\<close> of the SQLite
  binding fails on a negative integer.
\<close>

definition u64_to_value :: "64 word \<Rightarrow> int" where
  "u64_to_value v = sint v"

definition column_value_as_u64 :: "int \<Rightarrow> 64 word" where
  "column_value_as_u64 i = word_of_int i"

definition row_get_u64 :: "int \<Rightarrow> db_error + 64 word" where
  "row_get_u64 i = (if i < 0 then Inl (SqliteOutOfRange i) else Inr (word_of_int i))"

text \<open>The aggregate \<open>SUM\<close> of SQLite, an error when it leaves the 64-bit integers.\<close>

definition sql_add :: "int \<Rightarrow> int \<Rightarrow> db_error + int" where
  "sql_add x acc = (if - (2 ^ 63) \<le> acc + x \<and> acc + x < 2 ^ 63 then Inr (acc + x) else Inl SqliteIntegerOverflow)"

definition sql_sum :: "int list \<Rightarrow> db_error + int" where
  "sql_sum xs = fold_res sql_add xs 0"

lemma sql_add_Inr: "sql_add x b = Inr c \<Longrightarrow> c = b + x"
  by (simp add: sql_add_def split: if_splits)

lemma sql_sum_acc: "fold_res sql_add xs b = Inr c \<Longrightarrow> c = b + sum_list xs"
proof (induction xs arbitrary: b)
  case (Cons x xs)
  then obtain b' where "sql_add x b = Inr b'" "fold_res sql_add xs b' = Inr c" by (auto simp: bind_res_eq_Inr)
  with Cons.IH[of b'] sql_add_Inr[of x b b'] show ?case by simp
qed simp

lemma sql_sum_Inr: "sql_sum xs = Inr c \<Longrightarrow> c = sum_list xs"
  unfolding sql_sum_def by (drule sql_sum_acc) simp
text \<open>The high 16 bits of a nullifier, given the answer of \<open>Nullifier::most_significant_felt\<close>.\<close>

definition get_nullifier_prefix :: "(nullifier \<Rightarrow> 64 word) \<Rightarrow> nullifier \<Rightarrow> 32 word" where
  "get_nullifier_prefix most_significant_felt n = ucast (drop_bit 48 (most_significant_felt n))"

section \<open>Tables\<close>

record account_row =
  ar_account_id :: account_ident
  ar_network_prefix :: "32 word option"
  ar_commitment :: digest
  ar_block_num :: block_number
  ar_details :: "db_account option"

record note_row =
  nr_rowid :: nat
  nr_block_num :: block_number
  nr_batch_index :: nat
  nr_note_index :: nat
  nr_note_id :: note_id
  nr_note_type :: nat
  nr_sender :: account_ident
  nr_tag :: "32 word"
  nr_execution_mode :: nat
  nr_aux :: int
  nr_execution_hint :: int
  nr_merkle_path :: nat
  nr_consumed :: bool
  nr_nullifier :: "nullifier option"
  nr_assets :: "nat option"
  nr_inputs :: "nat option"
  nr_script_root :: "digest option"
  nr_serial_num :: "digest option"

record nullifier_row =
  ur_nullifier :: nullifier
  ur_prefix :: "32 word"
  ur_block_num :: block_number

record tx_row =
  tr_transaction_id :: transaction_id
  tr_account_id :: account_ident
  tr_block_num :: block_number

record delta_row =
  dr_account_id :: account_ident
  dr_block_num :: block_number
  dr_nonce :: nat

record slot_row =
  sr_account_id :: account_ident
  sr_block_num :: block_number
  sr_slot :: nat
  sr_value :: digest

record map_row =
  mr_account_id :: account_ident
  mr_block_num :: block_number
  mr_slot :: nat
  mr_key :: digest
  mr_value :: digest

record fungible_row =
  fr_account_id :: account_ident
  fr_block_num :: block_number
  fr_faucet_id :: account_ident
  fr_delta :: int

record non_fungible_row =
  kr_account_id :: account_ident
  kr_block_num :: block_number
  kr_vault_key :: digest
  kr_is_remove :: nat

record db =
  db_block_headers :: "store_header list"
  db_accounts :: "account_row list"
  db_notes :: "note_row list"
  db_note_scripts :: "(digest \<times> nat) list"
  db_account_deltas :: "delta_row list"
  db_slot_updates :: "slot_row list"
  db_map_updates :: "map_row list"
  db_fungible_deltas :: "fungible_row list"
  db_non_fungible_updates :: "non_fungible_row list"
  db_nullifiers :: "nullifier_row list"
  db_transactions :: "tx_row list"

definition db_empty :: db where
  "db_empty =
     \<lparr>db_block_headers = [], db_accounts = [], db_notes = [], db_note_scripts = [], db_account_deltas = [],
      db_slot_updates = [], db_map_updates = [], db_fungible_deltas = [], db_non_fungible_updates = [],
      db_nullifiers = [], db_transactions = []\<rparr>"

text \<open>\<open>INSERT\<close>: a row with the same primary key is a constraint error.\<close>

definition insert_row :: "('r \<Rightarrow> 'k) \<Rightarrow> 'r \<Rightarrow> 'r list \<Rightarrow> db_error + 'r list" where
  "insert_row key r rows = (if key r \<in> set (map key rows) then Inl SqliteConstraint else Inr (rows @ [r]))"

text \<open>\<open>INSERT OR REPLACE\<close>: the row with the same primary key is deleted first.\<close>

definition replace_row :: "('r \<Rightarrow> 'k) \<Rightarrow> 'r \<Rightarrow> 'r list \<Rightarrow> 'r list" where
  "replace_row key r rows = filter (\<lambda>r'. key r' \<noteq> key r) rows @ [r]"

text \<open>\<open>INSERT OR IGNORE\<close>.\<close>

definition insert_row_or_ignore :: "('r \<Rightarrow> 'k) \<Rightarrow> 'r \<Rightarrow> 'r list \<Rightarrow> 'r list \<times> nat" where
  "insert_row_or_ignore key r rows = (if key r \<in> set (map key rows) then (rows, 0) else (rows @ [r], 1))"

text \<open>A foreign key: the parent row must exist at the end of the statement.\<close>

definition references :: "'k \<Rightarrow> ('r \<Rightarrow> 'k) \<Rightarrow> 'r list \<Rightarrow> db_error + unit" where
  "references k key rows = (if k \<in> set (map key rows) then Inr () else Inl SqliteConstraint)"

text \<open>The rowid SQLite gives a new row: one more than the largest in use.\<close>

definition next_rowid :: "note_row list \<Rightarrow> nat" where
  "next_rowid rows = Suc (Max (insert 0 (nr_rowid ` set rows)))"

end
