(* ===== verification/Store_Writes.thy ===== *)
theory Store_Writes
  imports Store_Tables
begin

text \<open>
  The statements that write a block into the database (crates/store/src/db/sql/mod.rs): one
  definition per function, in a transaction that is rolled back when a function returns an error
  (crates/store/src/db/mod.rs), so that a function maps a database to an error or to the new
  database and the number of affected rows.

  Parameters of the protocol library: \<open>apply_delta\<close> (\<open>Account::apply_delta\<close>, \<open>None\<close> for its error),
  \<open>delta_ok\<close> (whether the constructors of an account delta accept its parts) and
  \<open>most_significant_felt\<close>.
\<close>

type_synonym statement = "db \<Rightarrow> db_error + db \<times> nat"

text \<open>Consecutive statements, whose affected rows are added up, and a loop of them.\<close>

definition and_write :: "db_error + db \<times> nat \<Rightarrow> statement \<Rightarrow> db_error + db \<times> nat" where
  "and_write r f = bind_res r (\<lambda>(d, n). bind_res (f d) (\<lambda>(d', m). Inr (d', n + m)))"

fun write_each :: "('a \<Rightarrow> statement) \<Rightarrow> 'a list \<Rightarrow> statement" where
  "write_each f [] d = Inr (d, 0)"
| "write_each f (x # xs) d = and_write (f x d) (write_each f xs)"

section \<open>Block headers and transactions\<close>

definition insert_block_header :: "store_header \<Rightarrow> statement" where
  "insert_block_header h d =
     bind_res (insert_row sh_block_num h (db_block_headers d)) (\<lambda>rows. Inr (d\<lparr>db_block_headers := rows\<rparr>, 1))"

definition has_block :: "block_number \<Rightarrow> db \<Rightarrow> db_error + unit" where
  "has_block n d = references n sh_block_num (db_block_headers d)"

definition has_account :: "account_ident \<Rightarrow> db \<Rightarrow> db_error + unit" where
  "has_account a d = references a ar_account_id (db_accounts d)"

definition insert_transaction_row :: "block_number \<Rightarrow> tx_header \<Rightarrow> statement" where
  "insert_transaction_row n tx d =
     bind_res (insert_row tr_transaction_id
         \<lparr>tr_transaction_id = th_id tx, tr_account_id = th_account_id tx, tr_block_num = n\<rparr> (db_transactions d)) (\<lambda>rows.
     bind_res (has_account (th_account_id tx) d) (\<lambda>_.
     bind_res (has_block n d) (\<lambda>_. Inr (d\<lparr>db_transactions := rows\<rparr>, 1))))"

definition insert_transactions :: "block_number \<Rightarrow> tx_header list \<Rightarrow> statement" where
  "insert_transactions n txs = write_each (insert_transaction_row n) txs"

section \<open>Accounts\<close>

text \<open>The storage of a new account by kind of slot, and its assets.\<close>

fun value_slots :: "nat \<Rightarrow> storage_slot list \<Rightarrow> (nat \<times> digest) list" where
  "value_slots i [] = []"
| "value_slots i (ValueSlot v # slots) = (i, v) # value_slots (Suc i) slots"
| "value_slots i (MapSlot m # slots) = value_slots (Suc i) slots"

fun map_slots :: "nat \<Rightarrow> storage_slot list \<Rightarrow> (nat \<times> (digest \<times> digest) list) list" where
  "map_slots i [] = []"
| "map_slots i (ValueSlot v # slots) = map_slots (Suc i) slots"
| "map_slots i (MapSlot m # slots) = (i, m) # map_slots (Suc i) slots"

fun fungible_assets :: "asset list \<Rightarrow> (account_ident \<times> int) list" where
  "fungible_assets [] = []"
| "fungible_assets (Fungible faucet amount # assets) = (faucet, int amount) # fungible_assets assets"
| "fungible_assets (NonFungible a # assets) = fungible_assets assets"

fun non_fungible_assets :: "asset list \<Rightarrow> (digest \<times> nf_action) list" where
  "non_fungible_assets [] = []"
| "non_fungible_assets (Fungible faucet amount # assets) = non_fungible_assets assets"
| "non_fungible_assets (NonFungible a # assets) = (a, NfAdd) # non_fungible_assets assets"

definition build_insert_delta :: "(db_delta \<Rightarrow> bool) \<Rightarrow> db_account \<Rightarrow> db_error + db_delta" where
  "build_insert_delta delta_ok a =
     (let d = \<lparr>dd_nonce = da_nonce a, dd_values = value_slots 0 (da_storage a), dd_maps = map_slots 0 (da_storage a),
               dd_fungible = fungible_assets (da_vault a), dd_non_fungible = non_fungible_assets (da_vault a)\<rparr>
      in if delta_ok d then Inr d else Inl AccountDeltaError)"

text \<open>The delta tables have the row of \<open>account_deltas\<close> as their parent, which is inserted first.\<close>

definition has_delta :: "account_ident \<Rightarrow> block_number \<Rightarrow> db \<Rightarrow> db_error + unit" where
  "has_delta a n d = references (a, n) (\<lambda>r. (dr_account_id r, dr_block_num r)) (db_account_deltas d)"

definition insert_delta_row :: "account_ident \<Rightarrow> block_number \<Rightarrow> nat \<Rightarrow> statement" where
  "insert_delta_row a n nonce d =
     (if nonce \<ge> 2 ^ 63 then Inl (SqliteOutOfRange (int nonce))
      else bind_res (insert_row (\<lambda>r. (dr_account_id r, dr_block_num r))
          \<lparr>dr_account_id = a, dr_block_num = n, dr_nonce = nonce\<rparr> (db_account_deltas d)) (\<lambda>rows.
        bind_res (has_account a d) (\<lambda>_.
        bind_res (has_block n d) (\<lambda>_. Inr (d\<lparr>db_account_deltas := rows\<rparr>, 1)))))"

definition insert_slot_update :: "account_ident \<Rightarrow> block_number \<Rightarrow> nat \<times> digest \<Rightarrow> statement" where
  "insert_slot_update a n = (\<lambda>(slot, value) d.
     bind_res (insert_row (\<lambda>r. (sr_account_id r, sr_block_num r, sr_slot r))
         \<lparr>sr_account_id = a, sr_block_num = n, sr_slot = slot, sr_value = value\<rparr> (db_slot_updates d)) (\<lambda>rows.
     bind_res (has_delta a n d) (\<lambda>_. Inr (d\<lparr>db_slot_updates := rows\<rparr>, 1))))"

definition insert_map_update :: "account_ident \<Rightarrow> block_number \<Rightarrow> nat \<Rightarrow> digest \<times> digest \<Rightarrow> statement" where
  "insert_map_update a n slot = (\<lambda>(k, value) d.
     bind_res (insert_row (\<lambda>r. (mr_account_id r, mr_block_num r, mr_slot r, mr_key r))
         \<lparr>mr_account_id = a, mr_block_num = n, mr_slot = slot, mr_key = k, mr_value = value\<rparr> (db_map_updates d)) (\<lambda>rows.
     bind_res (has_delta a n d) (\<lambda>_. Inr (d\<lparr>db_map_updates := rows\<rparr>, 1))))"

definition insert_fungible_delta :: "account_ident \<Rightarrow> block_number \<Rightarrow> account_ident \<times> int \<Rightarrow> statement" where
  "insert_fungible_delta a n = (\<lambda>(faucet, amount) d.
     bind_res (insert_row (\<lambda>r. (fr_account_id r, fr_block_num r, fr_faucet_id r))
         \<lparr>fr_account_id = a, fr_block_num = n, fr_faucet_id = faucet, fr_delta = amount\<rparr> (db_fungible_deltas d)) (\<lambda>rows.
     bind_res (has_delta a n d) (\<lambda>_. Inr (d\<lparr>db_fungible_deltas := rows\<rparr>, 1))))"

definition insert_non_fungible_update :: "account_ident \<Rightarrow> block_number \<Rightarrow> digest \<times> nf_action \<Rightarrow> statement" where
  "insert_non_fungible_update a n = (\<lambda>(asset, action) d.
     bind_res (insert_row (\<lambda>r. (kr_account_id r, kr_block_num r, kr_vault_key r))
         \<lparr>kr_account_id = a, kr_block_num = n, kr_vault_key = asset,
          kr_is_remove = (case action of NfAdd \<Rightarrow> 0 | NfRemove \<Rightarrow> 1)\<rparr> (db_non_fungible_updates d)) (\<lambda>rows.
     bind_res (has_delta a n d) (\<lambda>_. Inr (d\<lparr>db_non_fungible_updates := rows\<rparr>, 1))))"

definition insert_account_delta :: "account_ident \<Rightarrow> block_number \<Rightarrow> db_delta \<Rightarrow> statement" where
  "insert_account_delta a n delta d =
     and_write (and_write (and_write (and_write
       (insert_delta_row a n (dd_nonce delta) d)
       (write_each (insert_slot_update a n) (dd_values delta)))
       (write_each (\<lambda>(slot, entries). write_each (insert_map_update a n slot) entries) (dd_maps delta)))
       (write_each (insert_fungible_delta a n) (dd_fungible delta)))
       (write_each (insert_non_fungible_update a n) (dd_non_fungible delta))"

text \<open>\<open>utils::apply_delta\<close>: the stored account with the delta, checked against the expected commitment.\<close>

definition db_apply_delta :: "(db_account \<Rightarrow> db_delta \<Rightarrow> db_account option) \<Rightarrow> account_ident \<Rightarrow> db_account option \<Rightarrow>
    db_delta \<Rightarrow> digest \<Rightarrow> db_error + db_account" where
  "db_apply_delta apply_delta a stored delta final =
     (case stored of
        None \<Rightarrow> Inl (AccountNotPublic a)
      | Some acc \<Rightarrow> (case apply_delta acc delta of
          None \<Rightarrow> Inl AccountDeltaError
        | Some acc' \<Rightarrow>
            if da_commitment acc' \<noteq> final then Inl (AccountCommitmentsMismatch final (da_commitment acc')) else Inr acc'))"

definition account_update_details :: "(db_account \<Rightarrow> db_delta \<Rightarrow> db_account option) \<Rightarrow> (db_delta \<Rightarrow> bool) \<Rightarrow>
    block_account_update \<Rightarrow> db \<Rightarrow> db_error + db_account option \<times> db_delta option" where
  "account_update_details apply_delta delta_ok u d =
     (case bu_details u of
        PrivateAccount \<Rightarrow> Inr (None, None)
      | NewPublic acc \<Rightarrow>
          if da_commitment acc \<noteq> bu_final_commitment u
          then Inl (AccountCommitmentsMismatch (bu_final_commitment u) (da_commitment acc))
          else bind_res (build_insert_delta delta_ok acc) (\<lambda>delta. Inr (Some acc, Some delta))
      | PublicDelta delta \<Rightarrow>
          (case filter (\<lambda>r. ar_account_id r = bu_account_id u) (db_accounts d) of
             [] \<Rightarrow> Inl (AccountNotFoundInDb (bu_account_id u))
           | r # _ \<Rightarrow>
               bind_res (db_apply_delta apply_delta (bu_account_id u) (ar_details r) delta (bu_final_commitment u))
                 (\<lambda>acc. Inr (Some acc, Some delta))))"

definition upsert_account :: "(db_account \<Rightarrow> db_delta \<Rightarrow> db_account option) \<Rightarrow> (db_delta \<Rightarrow> bool) \<Rightarrow>
    block_number \<Rightarrow> block_account_update \<Rightarrow> statement" where
  "upsert_account apply_delta delta_ok n u d =
     bind_res
       (if ident_is_network (bu_account_id u)
        then (case prefix_try_from_account (bu_account_id u) of
                Inl e \<Rightarrow> Inl (DbNetworkAccountError e) | Inr p \<Rightarrow> Inr (Some (prefix_inner p)))
        else Inr None) (\<lambda>prefix.
     bind_res (account_update_details apply_delta delta_ok u d) (\<lambda>(full_account, insert_delta).
     bind_res (has_block n d) (\<lambda>_.
       let d = d\<lparr>db_accounts := replace_row ar_account_id
           \<lparr>ar_account_id = bu_account_id u, ar_network_prefix = prefix, ar_commitment = bu_final_commitment u,
            ar_block_num = n, ar_details = full_account\<rparr> (db_accounts d)\<rparr>
       in bind_res (case insert_delta of None \<Rightarrow> Inr (d, 0) | Some delta \<Rightarrow> insert_account_delta (bu_account_id u) n delta d)
            (\<lambda>(d, _). Inr (d, 1)))))"

definition upsert_accounts :: "(db_account \<Rightarrow> db_delta \<Rightarrow> db_account option) \<Rightarrow> (db_delta \<Rightarrow> bool) \<Rightarrow>
    block_account_update list \<Rightarrow> block_number \<Rightarrow> statement" where
  "upsert_accounts apply_delta delta_ok updates n = write_each (upsert_account apply_delta delta_ok n) updates"

section \<open>Nullifiers\<close>

definition mark_consumed :: "nullifier list \<Rightarrow> statement" where
  "mark_consumed ns d =
     (let hit = (\<lambda>r. \<exists>n \<in> set ns. nr_nullifier r = Some n)
      in Inr (d\<lparr>db_notes := map (\<lambda>r. if hit r then r\<lparr>nr_consumed := True\<rparr> else r) (db_notes d)\<rparr>,
              length (filter hit (db_notes d))))"

definition insert_nullifier_row :: "(nullifier \<Rightarrow> 64 word) \<Rightarrow> block_number \<Rightarrow> nullifier \<Rightarrow> statement" where
  "insert_nullifier_row most_significant_felt n k d =
     (let prefix = get_nullifier_prefix most_significant_felt k in
      if prefix > 0xFFFF then Inl SqliteConstraint
      else bind_res (insert_row ur_nullifier \<lparr>ur_nullifier = k, ur_prefix = prefix, ur_block_num = n\<rparr> (db_nullifiers d)) (\<lambda>rows.
        bind_res (has_block n d) (\<lambda>_. Inr (d\<lparr>db_nullifiers := rows\<rparr>, 1))))"

definition insert_nullifiers_for_block :: "(nullifier \<Rightarrow> 64 word) \<Rightarrow> nullifier list \<Rightarrow> block_number \<Rightarrow> statement" where
  "insert_nullifiers_for_block most_significant_felt ns n d =
     bind_res (nullifier_limit (length ns)) (\<lambda>_.
       and_write (mark_consumed ns d) (write_each (insert_nullifier_row most_significant_felt n) ns))"

section \<open>Notes\<close>

definition note_row_of :: "note_record \<Rightarrow> nullifier option \<Rightarrow> nat \<Rightarrow> note_row" where
  "note_row_of note k rowid =
     \<lparr>nr_rowid = rowid, nr_block_num = no_block_num note, nr_batch_index = fst (no_note_index note),
      nr_note_index = snd (no_note_index note), nr_note_id = no_note_id note,
      nr_note_type = nm_note_type (no_metadata note), nr_sender = nm_sender (no_metadata note),
      nr_tag = nm_tag (no_metadata note), nr_execution_mode = (if nm_network (no_metadata note) then 0 else 1),
      nr_aux = u64_to_value (nm_aux (no_metadata note)),
      nr_execution_hint = u64_to_value (nm_execution_hint (no_metadata note)),
      nr_merkle_path = no_merkle_path note, nr_consumed = False, nr_nullifier = k,
      nr_assets = map_option nd_assets (no_details note), nr_inputs = map_option nd_inputs (no_details note),
      nr_script_root = map_option nd_script_root (no_details note),
      nr_serial_num = map_option nd_serial_num (no_details note)\<rparr>"

definition note_key :: "note_row \<Rightarrow> block_number \<times> nat \<times> nat" where
  "note_key r = (nr_block_num r, nr_batch_index r, nr_note_index r)"

definition insert_note :: "note_record \<times> nullifier option \<Rightarrow> statement" where
  "insert_note = (\<lambda>(note, k) d.
     (let r = note_row_of note k (next_rowid (db_notes d)) in
      if nr_note_type r \<notin> {1..3} then Inl SqliteConstraint
      else bind_res (insert_row note_key r (db_notes d)) (\<lambda>rows.
        bind_res (has_block (nr_block_num r) d) (\<lambda>_.
        bind_res (has_account (nr_sender r) d) (\<lambda>_.
        bind_res (case nr_script_root r of None \<Rightarrow> Inr () | Some root \<Rightarrow> references root fst (db_note_scripts d)) (\<lambda>_.
          Inr (d\<lparr>db_notes := rows\<rparr>, 1)))))))"

definition insert_notes :: "(note_record \<times> nullifier option) list \<Rightarrow> statement" where
  "insert_notes notes = write_each insert_note notes"

definition insert_script :: "note_record \<Rightarrow> statement" where
  "insert_script note d =
     (case no_details note of
        None \<Rightarrow> Inr (d, 0)
      | Some nd \<Rightarrow>
          (case insert_row_or_ignore fst (nd_script_root nd, nd_script nd) (db_note_scripts d) of
             (rows, n) \<Rightarrow> Inr (d\<lparr>db_note_scripts := rows\<rparr>, n)))"

definition insert_scripts :: "note_record list \<Rightarrow> statement" where
  "insert_scripts notes = write_each insert_script notes"

section \<open>A block\<close>

definition sql_apply_block :: "(db_account \<Rightarrow> db_delta \<Rightarrow> db_account option) \<Rightarrow> (db_delta \<Rightarrow> bool) \<Rightarrow> (nullifier \<Rightarrow> 64 word) \<Rightarrow>
    store_header \<Rightarrow> (note_record \<times> nullifier option) list \<Rightarrow> nullifier list \<Rightarrow> block_account_update list \<Rightarrow> tx_header list \<Rightarrow> statement" where
  "sql_apply_block apply_delta delta_ok most_significant_felt h notes nullifiers accounts txs d =
     and_write (and_write (and_write (and_write (and_write
       (insert_block_header h d)
       (upsert_accounts apply_delta delta_ok accounts (sh_block_num h)))
       (insert_scripts (map fst notes)))
       (insert_notes notes))
       (insert_transactions (sh_block_num h) txs))
       (insert_nullifiers_for_block most_significant_felt nullifiers (sh_block_num h))"

text \<open>\<open>Db::transact\<close>: the transaction is committed, or rolled back when the query fails.\<close>

definition transact :: "statement \<Rightarrow> db \<Rightarrow> db \<times> (db_error + nat)" where
  "transact query d = (case query d of Inl e \<Rightarrow> (d, Inl e) | Inr (d', n) \<Rightarrow> (d', Inr n))"

end
