(* ===== verification/Store_Queries.thy ===== *)
theory Store_Queries
  imports Store_Writes
begin

text \<open>
  The queries of the store (crates/store/src/db/sql/mod.rs and queries/*.sql): selection over the
  lists of rows, \<open>ORDER BY\<close> as a stable sort, \<open>IN rarray(..)\<close> as membership, and the reading of rows.
\<close>

section \<open>Accounts\<close>

definition account_summary_from_row :: "account_row \<Rightarrow> account_summary" where
  "account_summary_from_row r =
     \<lparr>as_account_id = ar_account_id r, as_commitment = ar_commitment r, as_block_num = ar_block_num r\<rparr>"

definition account_info_from_row :: "account_row \<Rightarrow> account_info" where
  "account_info_from_row r = \<lparr>ai_summary = account_summary_from_row r, ai_details = ar_details r\<rparr>"

definition select_all_account_commitments :: "db \<Rightarrow> (account_ident \<times> digest) list" where
  "select_all_account_commitments d =
     map (\<lambda>r. (ar_account_id r, ar_commitment r)) (sort_key ar_block_num (db_accounts d))"

definition select_accounts_by_block_range :: "db \<Rightarrow> block_number \<Rightarrow> block_number \<Rightarrow> account_ident list \<Rightarrow>
    db_error + account_summary list" where
  "select_accounts_by_block_range d block_start block_end ids =
     bind_res (account_id_limit (length ids)) (\<lambda>_.
       Inr (map account_summary_from_row (sort_key ar_block_num
         (filter (\<lambda>r. ar_block_num r > block_start \<and> ar_block_num r \<le> block_end \<and> ar_account_id r \<in> set ids)
           (db_accounts d)))))"

definition select_account :: "db \<Rightarrow> account_ident \<Rightarrow> db_error + account_info" where
  "select_account d a =
     (case filter (\<lambda>r. ar_account_id r = a) (db_accounts d) of
        [] \<Rightarrow> Inl (AccountNotFoundInDb a)
      | r # _ \<Rightarrow> Inr (account_info_from_row r))"

definition select_network_account_by_prefix :: "db \<Rightarrow> 32 word \<Rightarrow> account_info option" where
  "select_network_account_by_prefix d prefix =
     (case filter (\<lambda>r. ar_network_prefix r = Some prefix) (db_accounts d) of
        [] \<Rightarrow> None
      | r # _ \<Rightarrow> Some (account_info_from_row r))"

definition select_accounts_by_ids :: "db \<Rightarrow> account_ident list \<Rightarrow> db_error + account_info list" where
  "select_accounts_by_ids d ids =
     bind_res (account_id_limit (length ids)) (\<lambda>_.
       Inr (map account_info_from_row (filter (\<lambda>r. ar_account_id r \<in> set ids) (db_accounts d))))"

section \<open>Account deltas\<close>

definition in_range :: "block_number \<Rightarrow> block_number \<Rightarrow> block_number \<Rightarrow> bool" where
  "in_range block_start block_end n \<longleftrightarrow> n > block_start \<and> n \<le> block_end"

definition select_nonce :: "db \<Rightarrow> account_ident \<Rightarrow> block_number \<Rightarrow> block_number \<Rightarrow> db_error + nat option" where
  "select_nonce d a block_start block_end =
     (let rows = filter (\<lambda>r. dr_account_id r = a \<and> in_range block_start block_end (dr_block_num r)) (db_account_deltas d)
      in if rows = [] then Inr None
         else bind_res (sql_sum (map (\<lambda>r. int (dr_nonce r)) rows)) (\<lambda>nonce. Inr (Some (nat nonce))))"

definition select_slot_updates :: "db \<Rightarrow> account_ident \<Rightarrow> block_number \<Rightarrow> block_number \<Rightarrow> (nat \<times> digest) list" where
  "select_slot_updates d a block_start block_end =
     map (\<lambda>r. (sr_slot r, sr_value r))
       (filter (\<lambda>r. sr_account_id r = a \<and> in_range block_start block_end (sr_block_num r)
          \<and> \<not> (\<exists>b \<in> set (db_slot_updates d). sr_account_id b = a \<and> sr_slot r = sr_slot b
                \<and> sr_block_num r < sr_block_num b \<and> sr_block_num b \<le> block_end))
         (db_slot_updates d))"

definition select_map_updates :: "db \<Rightarrow> account_ident \<Rightarrow> block_number \<Rightarrow> block_number \<Rightarrow> ((nat \<times> digest) \<times> digest) list" where
  "select_map_updates d a block_start block_end =
     map (\<lambda>r. ((mr_slot r, mr_key r), mr_value r))
       (filter (\<lambda>r. mr_account_id r = a \<and> in_range block_start block_end (mr_block_num r)
          \<and> \<not> (\<exists>b \<in> set (db_map_updates d). mr_account_id b = a \<and> mr_slot r = mr_slot b \<and> mr_key r = mr_key b
                \<and> mr_block_num r < mr_block_num b \<and> mr_block_num b \<le> block_end))
         (db_map_updates d))"

definition select_fungible_deltas :: "db \<Rightarrow> account_ident \<Rightarrow> block_number \<Rightarrow> block_number \<Rightarrow>
    db_error + (account_ident \<times> int) list" where
  "select_fungible_deltas d a block_start block_end =
     (let rows = filter (\<lambda>r. fr_account_id r = a \<and> in_range block_start block_end (fr_block_num r)) (db_fungible_deltas d)
      in collect_res (\<lambda>faucet. bind_res (sql_sum (map fr_delta (filter (\<lambda>r. fr_faucet_id r = faucet) rows))) (\<lambda>v. Inr (faucet, v)))
           (remdups (map fr_faucet_id rows)))"

definition select_non_fungible_updates :: "db \<Rightarrow> account_ident \<Rightarrow> block_number \<Rightarrow> block_number \<Rightarrow> (digest \<times> nat) list" where
  "select_non_fungible_updates d a block_start block_end =
     map (\<lambda>r. (kr_vault_key r, kr_is_remove r)) (sort_key kr_block_num
       (filter (\<lambda>r. kr_account_id r = a \<and> in_range block_start block_end (kr_block_num r)) (db_non_fungible_updates d)))"

text \<open>
  The merged delta of a block range, with the storage slots, the map entries and the fungible assets
  as maps.  \<open>nf_apply\<close> is \<open>NonFungibleAssetDelta::add\<close> and \<open>remove\<close>, which fail on a repeated
  action, and \<open>merged_ok\<close> is the check of the library's constructors.
\<close>

record merged_delta =
  md_nonce :: nat
  md_values :: "nat \<rightharpoonup> digest"
  md_maps :: "nat \<times> digest \<rightharpoonup> digest"
  md_fungible :: "account_ident \<rightharpoonup> int"
  md_non_fungible :: "(digest \<times> nf_action) list"

fun merge_non_fungible :: "(nf_action \<Rightarrow> digest \<Rightarrow> (digest \<times> nf_action) list \<Rightarrow> (digest \<times> nf_action) list option) \<Rightarrow>
    (digest \<times> nat) list \<Rightarrow> (digest \<times> nf_action) list \<Rightarrow> db_error + (digest \<times> nf_action) list" where
  "merge_non_fungible nf_apply [] acc = Inr acc"
| "merge_non_fungible nf_apply ((asset, action) # rows) acc =
     (if action = 0 then (case nf_apply NfAdd asset acc of None \<Rightarrow> Inl AccountDeltaError | Some acc \<Rightarrow> merge_non_fungible nf_apply rows acc)
      else if action = 1 then (case nf_apply NfRemove asset acc of None \<Rightarrow> Inl AccountDeltaError | Some acc \<Rightarrow> merge_non_fungible nf_apply rows acc)
      else Inl DataCorrupted)"

definition map_of_rows :: "('k \<times> 'v) list \<Rightarrow> 'k \<rightharpoonup> 'v" where
  "map_of_rows rows = fold (\<lambda>(k, v) m. m(k \<mapsto> v)) rows Map.empty"

definition select_account_delta :: "(nf_action \<Rightarrow> digest \<Rightarrow> (digest \<times> nf_action) list \<Rightarrow> (digest \<times> nf_action) list option) \<Rightarrow>
    (merged_delta \<Rightarrow> bool) \<Rightarrow> db \<Rightarrow> account_ident \<Rightarrow> block_number \<Rightarrow> block_number \<Rightarrow> db_error + merged_delta option" where
  "select_account_delta nf_apply merged_ok d a block_start block_end =
     bind_res (select_nonce d a block_start block_end) (\<lambda>found.
       case found of
         None \<Rightarrow> Inr None
       | Some nonce \<Rightarrow>
           bind_res (select_fungible_deltas d a block_start block_end) (\<lambda>fungible.
           bind_res (merge_non_fungible nf_apply (select_non_fungible_updates d a block_start block_end) []) (\<lambda>non_fungible.
           let m = \<lparr>md_nonce = nonce, md_values = map_of_rows (select_slot_updates d a block_start block_end),
                    md_maps = map_of_rows (select_map_updates d a block_start block_end),
                    md_fungible = map_of_rows fungible, md_non_fungible = non_fungible\<rparr>
           in if merged_ok m then Inr (Some m) else Inl AccountDeltaError)))"

section \<open>Nullifiers\<close>

definition nullifier_info_from_row :: "nullifier_row \<Rightarrow> nullifier_info" where
  "nullifier_info_from_row r = \<lparr>ni_nullifier = ur_nullifier r, ni_block_num = ur_block_num r\<rparr>"

definition select_all_nullifiers :: "db \<Rightarrow> nullifier_info list" where
  "select_all_nullifiers d = map nullifier_info_from_row (sort_key ur_block_num (db_nullifiers d))"

text \<open>\<open>None\<close> is the failed assertion on the length of the prefixes.\<close>

definition select_nullifiers_by_prefix :: "db \<Rightarrow> nat \<Rightarrow> 32 word list \<Rightarrow> block_number \<Rightarrow> (db_error + nullifier_info list) option" where
  "select_nullifiers_by_prefix d prefix_len prefixes n =
     (if prefix_len \<noteq> 16 then None
      else Some (bind_res (nullifier_prefix_limit (length prefixes)) (\<lambda>_.
        Inr (map nullifier_info_from_row (sort_key ur_block_num
          (filter (\<lambda>r. ur_prefix r \<in> set prefixes \<and> ur_block_num r \<ge> n) (db_nullifiers d)))))))"

section \<open>Notes\<close>

definition metadata_from_row :: "note_row \<Rightarrow> db_error + note_metadata" where
  "metadata_from_row r =
     bind_res (row_get_u64 (nr_aux r)) (\<lambda>aux.
       Inr \<lparr>nm_sender = nr_sender r, nm_note_type = nr_note_type r, nm_tag = nr_tag r,
            nm_network = (nr_execution_mode r = 0), nm_aux = aux,
            nm_execution_hint = column_value_as_u64 (nr_execution_hint r)\<rparr>)"

definition details_from_row :: "(digest \<times> nat) list \<Rightarrow> note_row \<Rightarrow> note_details option" where
  "details_from_row scripts r =
     (case (nr_assets r, nr_inputs r, nr_script_root r, Option.bind (nr_script_root r) (map_of scripts), nr_serial_num r) of
        (Some assets, Some inputs, Some root, Some script, Some serial) \<Rightarrow>
          Some \<lparr>nd_assets = assets, nd_inputs = inputs, nd_script_root = root, nd_script = script, nd_serial_num = serial\<rparr>
      | _ \<Rightarrow> None)"

definition note_from_row :: "db \<Rightarrow> note_row \<Rightarrow> db_error + note_record" where
  "note_from_row d r =
     bind_res (metadata_from_row r) (\<lambda>metadata.
       Inr \<lparr>no_block_num = nr_block_num r, no_note_index = (nr_batch_index r, nr_note_index r), no_note_id = nr_note_id r,
            no_metadata = metadata, no_details = details_from_row (db_note_scripts d) r, no_merkle_path = nr_merkle_path r\<rparr>)"

definition note_sync_from_row :: "note_row \<Rightarrow> db_error + note_sync_record" where
  "note_sync_from_row r =
     bind_res (metadata_from_row r) (\<lambda>metadata.
       Inr \<lparr>ny_block_num = nr_block_num r, ny_note_index = (nr_batch_index r, nr_note_index r), ny_note_id = nr_note_id r,
            ny_metadata = metadata, ny_merkle_path = nr_merkle_path r\<rparr>)"

definition note_matches :: "32 word list \<Rightarrow> account_ident list \<Rightarrow> note_row \<Rightarrow> bool" where
  "note_matches tags ids r \<longleftrightarrow> nr_tag r \<in> set tags \<or> nr_sender r \<in> set ids"

text \<open>The inner query: the next block with a matching note.\<close>

definition next_matching_block :: "db \<Rightarrow> 32 word list \<Rightarrow> account_ident list \<Rightarrow> block_number \<Rightarrow> block_number option" where
  "next_matching_block d tags ids n =
     (case sort_key nr_block_num (filter (\<lambda>r. note_matches tags ids r \<and> nr_block_num r > n) (db_notes d)) of
        [] \<Rightarrow> None | r # _ \<Rightarrow> Some (nr_block_num r))"

definition select_notes_since_block_by_tag_and_sender :: "db \<Rightarrow> 32 word list \<Rightarrow> account_ident list \<Rightarrow> block_number \<Rightarrow>
    db_error + note_sync_record list" where
  "select_notes_since_block_by_tag_and_sender d tags ids n =
     bind_res (account_id_limit (length ids)) (\<lambda>_.
     bind_res (note_tag_limit (length tags)) (\<lambda>_.
       collect_res note_sync_from_row
         (filter (\<lambda>r. Some (nr_block_num r) = next_matching_block d tags ids n \<and> note_matches tags ids r) (db_notes d))))"

definition select_notes_by_id :: "db \<Rightarrow> note_id list \<Rightarrow> db_error + note_record list" where
  "select_notes_by_id d ids =
     bind_res (note_id_limit (length ids)) (\<lambda>_.
       collect_res (note_from_row d) (filter (\<lambda>r. nr_note_id r \<in> set ids) (db_notes d)))"

definition select_note_ids :: "db \<Rightarrow> note_id list \<Rightarrow> db_error + note_id set" where
  "select_note_ids d ids = bind_res (select_notes_by_id d ids) (\<lambda>notes. Inr (set (map no_note_id notes)))"

record inclusion_proof =
  ip_block_num :: block_number
  ip_note_index :: "nat \<times> nat"
  ip_merkle_path :: nat

definition select_note_inclusion_proofs :: "db \<Rightarrow> note_id list \<Rightarrow> db_error + (note_id \<rightharpoonup> inclusion_proof)" where
  "select_note_inclusion_proofs d ids =
     bind_res (note_id_limit (length ids)) (\<lambda>_.
       Inr (map_of_rows (map (\<lambda>r. (nr_note_id r,
             \<lparr>ip_block_num = nr_block_num r, ip_note_index = (nr_batch_index r, nr_note_index r), ip_merkle_path = nr_merkle_path r\<rparr>))
           (sort_key nr_block_num (filter (\<lambda>r. nr_note_id r \<in> set ids) (db_notes d))))))"

text \<open>A page of unconsumed network notes and the token of the next page.\<close>

definition unconsumed_network_notes :: "db \<Rightarrow> nat option \<Rightarrow> nat \<Rightarrow> db_error + note_record list \<times> nat option" where
  "unconsumed_network_notes d token page_size =
     (let rows = take (page_size + 1) (sort_key nr_rowid
           (filter (\<lambda>r. nr_execution_mode r = 0 \<and> \<not> nr_consumed r \<and> nr_rowid r \<ge> (case token of None \<Rightarrow> 0 | Some t \<Rightarrow> t)) (db_notes d)))
      in bind_res (collect_res (note_from_row d) (take page_size rows)) (\<lambda>notes.
           Inr (notes, if length rows > page_size then Some (nr_rowid (rows ! page_size)) else None)))"

section \<open>Block headers and transactions\<close>

definition select_block_header_by_block_num :: "db \<Rightarrow> block_number option \<Rightarrow> store_header option" where
  "select_block_header_by_block_num d block =
     (let rows = (case block of
          Some n \<Rightarrow> filter (\<lambda>h. sh_block_num h = n) (db_block_headers d)
        | None \<Rightarrow> rev (sort_key sh_block_num (db_block_headers d)))
      in case rows of [] \<Rightarrow> None | h # _ \<Rightarrow> Some h)"

definition select_block_headers :: "db \<Rightarrow> block_number list \<Rightarrow> nat \<Rightarrow> db_error + store_header list" where
  "select_block_headers d blocks size_hint =
     bind_res (block_limit size_hint) (\<lambda>_. Inr (filter (\<lambda>h. sh_block_num h \<in> set blocks) (db_block_headers d)))"

definition select_all_block_headers :: "db \<Rightarrow> store_header list" where
  "select_all_block_headers d = sort_key sh_block_num (db_block_headers d)"

definition select_transactions_by_accounts_and_block_range :: "db \<Rightarrow> block_number \<Rightarrow> block_number \<Rightarrow> account_ident list \<Rightarrow>
    db_error + transaction_summary list" where
  "select_transactions_by_accounts_and_block_range d block_start block_end ids =
     bind_res (account_id_limit (length ids)) (\<lambda>_.
       Inr (map (\<lambda>r. \<lparr>ts_account_id = tr_account_id r, ts_block_num = tr_block_num r, ts_transaction_id = tr_transaction_id r\<rparr>)
         (sort_key tr_transaction_id
           (filter (\<lambda>r. tr_block_num r > block_start \<and> tr_block_num r \<le> block_end \<and> tr_account_id r \<in> set ids)
             (db_transactions d)))))"

section \<open>Synchronization\<close>

record state_sync_update =
  su_notes :: "note_sync_record list"
  su_block_header :: store_header
  su_account_updates :: "account_summary list"
  su_transactions :: "transaction_summary list"

record note_sync_update =
  nu_notes :: "note_sync_record list"
  nu_block_header :: store_header

datatype sync_error = SyncDatabaseError db_error | EmptyBlockHeadersTable | SyncMmrError

definition sync_res :: "db_error + 'a \<Rightarrow> sync_error + 'a" where
  "sync_res r = (case r of Inl e \<Rightarrow> Inl (SyncDatabaseError e) | Inr a \<Rightarrow> Inr a)"

text \<open>The header of the first note's block, or the chain tip's.\<close>

definition sync_header :: "db \<Rightarrow> note_sync_record list \<Rightarrow> sync_error + store_header" where
  "sync_header d notes =
     (case select_block_header_by_block_num d (case notes of [] \<Rightarrow> None | n # _ \<Rightarrow> Some (ny_block_num n)) of
        None \<Rightarrow> Inl EmptyBlockHeadersTable | Some h \<Rightarrow> Inr h)"

definition get_state_sync :: "db \<Rightarrow> block_number \<Rightarrow> account_ident list \<Rightarrow> 32 word list \<Rightarrow> sync_error + state_sync_update" where
  "get_state_sync d n ids tags =
     bind_res (sync_res (select_notes_since_block_by_tag_and_sender d tags ids n)) (\<lambda>notes.
     bind_res (sync_header d notes) (\<lambda>h.
     bind_res (sync_res (select_accounts_by_block_range d n (sh_block_num h) ids)) (\<lambda>accounts.
     bind_res (sync_res (select_transactions_by_accounts_and_block_range d n (sh_block_num h) ids)) (\<lambda>txs.
       Inr \<lparr>su_notes = notes, su_block_header = h, su_account_updates = accounts, su_transactions = txs\<rparr>))))"

definition get_note_sync :: "db \<Rightarrow> block_number \<Rightarrow> 32 word list \<Rightarrow> sync_error + note_sync_update" where
  "get_note_sync d n tags =
     bind_res (sync_res (note_tag_limit (length tags))) (\<lambda>_.
     bind_res (sync_res (select_notes_since_block_by_tag_and_sender d tags [] n)) (\<lambda>notes.
     bind_res (sync_header d notes) (\<lambda>h. Inr \<lparr>nu_notes = notes, nu_block_header = h\<rparr>)))"

end
