(* ===== verification/Store_Invariant.thy ===== *)
theory Store_Invariant
  imports Store_Queries
begin

text \<open>
  The integrity of the database: primary keys are unique, foreign keys have their parents, row ids
  grow.  Every statement that succeeds keeps it, and the effect of applying a block is stated on what
  the rest of the store reads of the tables.
\<close>

section \<open>Integrity\<close>

definition unique :: "('r \<Rightarrow> 'k) \<Rightarrow> 'r list \<Rightarrow> bool" where
  "unique key rows \<longleftrightarrow> distinct (map key rows)"

definition delta_key :: "delta_row \<Rightarrow> account_ident \<times> block_number" where
  "delta_key r = (dr_account_id r, dr_block_num r)"

definition slot_key :: "slot_row \<Rightarrow> account_ident \<times> block_number \<times> nat" where
  "slot_key r = (sr_account_id r, sr_block_num r, sr_slot r)"

definition map_key :: "map_row \<Rightarrow> account_ident \<times> block_number \<times> nat \<times> digest" where
  "map_key r = (mr_account_id r, mr_block_num r, mr_slot r, mr_key r)"

definition fungible_key :: "fungible_row \<Rightarrow> account_ident \<times> block_number \<times> account_ident" where
  "fungible_key r = (fr_account_id r, fr_block_num r, fr_faucet_id r)"

definition non_fungible_key :: "non_fungible_row \<Rightarrow> account_ident \<times> block_number \<times> digest" where
  "non_fungible_key r = (kr_account_id r, kr_block_num r, kr_vault_key r)"

definition keys_ok :: "db \<Rightarrow> bool" where
  "keys_ok d \<longleftrightarrow> unique sh_block_num (db_block_headers d) \<and> unique ar_account_id (db_accounts d)
     \<and> unique note_key (db_notes d) \<and> unique fst (db_note_scripts d) \<and> unique delta_key (db_account_deltas d)
     \<and> unique slot_key (db_slot_updates d) \<and> unique map_key (db_map_updates d)
     \<and> unique fungible_key (db_fungible_deltas d) \<and> unique non_fungible_key (db_non_fungible_updates d)
     \<and> unique ur_nullifier (db_nullifiers d) \<and> unique tr_transaction_id (db_transactions d)"

definition blocks_of :: "db \<Rightarrow> block_number set" where
  "blocks_of d = sh_block_num ` set (db_block_headers d)"

definition accounts_of :: "db \<Rightarrow> account_ident set" where
  "accounts_of d = ar_account_id ` set (db_accounts d)"

definition references_ok :: "db \<Rightarrow> bool" where
  "references_ok d \<longleftrightarrow> ar_block_num ` set (db_accounts d) \<subseteq> blocks_of d
     \<and> nr_block_num ` set (db_notes d) \<subseteq> blocks_of d \<and> nr_sender ` set (db_notes d) \<subseteq> accounts_of d
     \<and> (\<forall>r \<in> set (db_notes d). \<forall>root. nr_script_root r = Some root \<longrightarrow> root \<in> fst ` set (db_note_scripts d))
     \<and> dr_account_id ` set (db_account_deltas d) \<subseteq> accounts_of d \<and> dr_block_num ` set (db_account_deltas d) \<subseteq> blocks_of d
     \<and> (\<lambda>r. (sr_account_id r, sr_block_num r)) ` set (db_slot_updates d) \<subseteq> delta_key ` set (db_account_deltas d)
     \<and> (\<lambda>r. (mr_account_id r, mr_block_num r)) ` set (db_map_updates d) \<subseteq> delta_key ` set (db_account_deltas d)
     \<and> (\<lambda>r. (fr_account_id r, fr_block_num r)) ` set (db_fungible_deltas d) \<subseteq> delta_key ` set (db_account_deltas d)
     \<and> (\<lambda>r. (kr_account_id r, kr_block_num r)) ` set (db_non_fungible_updates d) \<subseteq> delta_key ` set (db_account_deltas d)
     \<and> ur_block_num ` set (db_nullifiers d) \<subseteq> blocks_of d
     \<and> tr_account_id ` set (db_transactions d) \<subseteq> accounts_of d \<and> tr_block_num ` set (db_transactions d) \<subseteq> blocks_of d"

definition rowids_ok :: "db \<Rightarrow> bool" where
  "rowids_ok d \<longleftrightarrow> sorted_wrt (<) (map nr_rowid (db_notes d))"

definition db_ok :: "db \<Rightarrow> bool" where
  "db_ok d \<longleftrightarrow> keys_ok d \<and> references_ok d \<and> rowids_ok d"

lemmas db_ok_defs = db_ok_def keys_ok_def references_ok_def rowids_ok_def blocks_of_def accounts_of_def

lemma db_empty_ok: "db_ok db_empty"
  by (simp add: db_ok_defs db_empty_def unique_def)

section \<open>Single statements\<close>

lemma insert_row_Inr:
  "insert_row key r rows = Inr rows' \<longleftrightarrow> key r \<notin> key ` set rows \<and> rows' = rows @ [r]"
  by (auto simp: insert_row_def)

lemma references_Inr: "references k key rows = Inr u \<longleftrightarrow> k \<in> key ` set rows"
  by (auto simp: references_def)

lemma unique_append: "unique key (rows @ [r]) \<longleftrightarrow> unique key rows \<and> key r \<notin> key ` set rows"
  by (auto simp: unique_def)

lemma unique_replace: "unique key rows \<Longrightarrow> unique key (replace_row key r rows)"
  by (auto simp: unique_def replace_row_def distinct_map_filter)

lemma replace_row_keys: "key ` set (replace_row key r rows) = insert (key r) (key ` set rows)"
  by (auto simp: replace_row_def)

lemma set_replace_row: "set (replace_row key r rows) = insert r {r' \<in> set rows. key r' \<noteq> key r}"
  by (auto simp: replace_row_def)

lemmas row_Inr = bind_res_eq_Inr insert_row_Inr references_Inr unique_append

lemma and_write_Inr:
  "and_write r f = Inr (d', n) \<longleftrightarrow> (\<exists>d m k. r = Inr (d, m) \<and> f d = Inr (d', k) \<and> n = m + k)"
  by (auto simp: and_write_def bind_res_eq_Inr split_def)

text \<open>A statement preserves a predicate when every successful execution does.\<close>

definition preserves :: "(db \<Rightarrow> bool) \<Rightarrow> statement \<Rightarrow> bool" where
  "preserves P f \<longleftrightarrow> (\<forall>d d' n. P d \<longrightarrow> f d = Inr (d', n) \<longrightarrow> P d')"

lemma preservesI: "(\<And>d d' n. P d \<Longrightarrow> f d = Inr (d', n) \<Longrightarrow> P d') \<Longrightarrow> preserves P f"
  by (simp add: preserves_def)

lemma preservesD: "preserves P f \<Longrightarrow> P d \<Longrightarrow> f d = Inr (d', n) \<Longrightarrow> P d'"
  by (simp add: preserves_def)

lemma preserves_and: "preserves P f \<Longrightarrow> preserves P g \<Longrightarrow> preserves P (\<lambda>d. and_write (f d) g)"
  unfolding preserves_def and_write_Inr by blast

lemma preserves_each: "(\<And>x. x \<in> set xs \<Longrightarrow> preserves P (f x)) \<Longrightarrow> preserves P (write_each f xs)"
proof (induction xs)
  case (Cons x xs)
  then have "preserves P (\<lambda>d. and_write (f x d) (write_each f xs))" by (intro preserves_and) simp_all
  then show ?case by (simp add: preserves_def)
qed (simp add: preserves_def)

text \<open>
  Blocks, accounts, scripts and deltas never disappear, and what refers to them keeps its parents.
\<close>

lemma insert_block_header_ok: "preserves db_ok (insert_block_header h)"
proof (rule preservesI)
  fix d d' n assume ok: "db_ok d" and run: "insert_block_header h d = Inr (d', n)"
  from run have d': "d' = d\<lparr>db_block_headers := db_block_headers d @ [h]\<rparr>"
    and new: "sh_block_num h \<notin> sh_block_num ` set (db_block_headers d)"
    by (simp_all add: insert_block_header_def row_Inr)
  from ok new show "db_ok d'" unfolding d' by (simp add: db_ok_defs unique_append subset_insertI2)
qed

lemma insert_transaction_row_ok: "preserves db_ok (insert_transaction_row b tx)"
proof (rule preservesI)
  fix d d' n assume ok: "db_ok d" and run: "insert_transaction_row b tx d = Inr (d', n)"
  let ?r = "\<lparr>tr_transaction_id = th_id tx, tr_account_id = th_account_id tx, tr_block_num = b\<rparr>"
  from run have d': "d' = d\<lparr>db_transactions := db_transactions d @ [?r]\<rparr>"
    and new: "tr_transaction_id ?r \<notin> tr_transaction_id ` set (db_transactions d)"
    and ref: "tr_account_id ?r \<in> accounts_of d" "tr_block_num ?r \<in> blocks_of d"
    by (simp_all add: insert_transaction_row_def has_account_def has_block_def row_Inr accounts_of_def blocks_of_def)
  from ok new ref show "db_ok d'" unfolding d' by (simp add: db_ok_defs unique_append subset_insertI2)
qed

lemma insert_delta_row_ok: "preserves db_ok (insert_delta_row a b nonce)"
proof (rule preservesI)
  fix d d' n assume ok: "db_ok d" and run: "insert_delta_row a b nonce d = Inr (d', n)"
  let ?r = "\<lparr>dr_account_id = a, dr_block_num = b, dr_nonce = nonce\<rparr>"
  from run have d': "d' = d\<lparr>db_account_deltas := db_account_deltas d @ [?r]\<rparr>"
    and new: "delta_key ?r \<notin> delta_key ` set (db_account_deltas d)" and ref: "a \<in> accounts_of d" "b \<in> blocks_of d"
    by (simp_all add: insert_delta_row_def has_account_def has_block_def row_Inr accounts_of_def blocks_of_def delta_key_def split: if_splits)
  from ok new ref show "db_ok d'" unfolding d' by (simp add: db_ok_defs unique_append subset_insertI2)
qed

lemma has_delta_Inr: "has_delta a b d = Inr u \<longleftrightarrow> (a, b) \<in> delta_key ` set (db_account_deltas d)"
  by (simp add: has_delta_def references_Inr delta_key_def)

lemma insert_slot_update_ok: "preserves db_ok (insert_slot_update a b x)"
proof (rule preservesI)
  fix d d' n assume ok: "db_ok d" and run: "insert_slot_update a b x d = Inr (d', n)"
  let ?r = "\<lparr>sr_account_id = a, sr_block_num = b, sr_slot = fst x, sr_value = snd x\<rparr>"
  from run have d': "d' = d\<lparr>db_slot_updates := db_slot_updates d @ [?r]\<rparr>"
    and new: "slot_key ?r \<notin> slot_key ` set (db_slot_updates d)" and ref: "(a, b) \<in> delta_key ` set (db_account_deltas d)"
    by (simp_all add: insert_slot_update_def row_Inr has_delta_Inr slot_key_def split_def)
  from ok new ref show "db_ok d'" unfolding d' by (simp add: db_ok_defs unique_append)
qed

lemma insert_map_update_ok: "preserves db_ok (insert_map_update a b slot x)"
proof (rule preservesI)
  fix d d' n assume ok: "db_ok d" and run: "insert_map_update a b slot x d = Inr (d', n)"
  let ?r = "\<lparr>mr_account_id = a, mr_block_num = b, mr_slot = slot, mr_key = fst x, mr_value = snd x\<rparr>"
  from run have d': "d' = d\<lparr>db_map_updates := db_map_updates d @ [?r]\<rparr>"
    and new: "map_key ?r \<notin> map_key ` set (db_map_updates d)" and ref: "(a, b) \<in> delta_key ` set (db_account_deltas d)"
    by (simp_all add: insert_map_update_def row_Inr has_delta_Inr map_key_def split_def)
  from ok new ref show "db_ok d'" unfolding d' by (simp add: db_ok_defs unique_append)
qed

lemma insert_fungible_delta_ok: "preserves db_ok (insert_fungible_delta a b x)"
proof (rule preservesI)
  fix d d' n assume ok: "db_ok d" and run: "insert_fungible_delta a b x d = Inr (d', n)"
  let ?r = "\<lparr>fr_account_id = a, fr_block_num = b, fr_faucet_id = fst x, fr_delta = snd x\<rparr>"
  from run have d': "d' = d\<lparr>db_fungible_deltas := db_fungible_deltas d @ [?r]\<rparr>"
    and new: "fungible_key ?r \<notin> fungible_key ` set (db_fungible_deltas d)" and ref: "(a, b) \<in> delta_key ` set (db_account_deltas d)"
    by (simp_all add: insert_fungible_delta_def row_Inr has_delta_Inr fungible_key_def split_def)
  from ok new ref show "db_ok d'" unfolding d' by (simp add: db_ok_defs unique_append)
qed

lemma insert_non_fungible_update_ok: "preserves db_ok (insert_non_fungible_update a b x)"
proof (rule preservesI)
  fix d d' n assume ok: "db_ok d" and run: "insert_non_fungible_update a b x d = Inr (d', n)"
  let ?r = "\<lparr>kr_account_id = a, kr_block_num = b, kr_vault_key = fst x, kr_is_remove = (case snd x of NfAdd \<Rightarrow> 0 | NfRemove \<Rightarrow> 1)\<rparr>"
  from run have d': "d' = d\<lparr>db_non_fungible_updates := db_non_fungible_updates d @ [?r]\<rparr>"
    and new: "non_fungible_key ?r \<notin> non_fungible_key ` set (db_non_fungible_updates d)" and ref: "(a, b) \<in> delta_key ` set (db_account_deltas d)"
    by (simp_all add: insert_non_fungible_update_def row_Inr has_delta_Inr non_fungible_key_def split_def)
  from ok new ref show "db_ok d'" unfolding d' by (simp add: db_ok_defs unique_append)
qed

lemma insert_account_delta_preserves:
  assumes "preserves P (insert_delta_row a b (dd_nonce delta))" and "\<And>x. preserves P (insert_slot_update a b x)"
    and "\<And>slot x. preserves P (insert_map_update a b slot x)" and "\<And>x. preserves P (insert_fungible_delta a b x)"
    and "\<And>x. preserves P (insert_non_fungible_update a b x)"
  shows "preserves P (insert_account_delta a b delta)"
proof -
  have "preserves P (\<lambda>d. insert_account_delta a b delta d)"
    unfolding insert_account_delta_def
    by (intro preserves_and preserves_each assms) (auto intro: preserves_each assms)
  then show ?thesis .
qed

lemma insert_account_delta_ok: "preserves db_ok (insert_account_delta a b delta)"
  by (intro insert_account_delta_preserves insert_delta_row_ok insert_slot_update_ok insert_map_update_ok
      insert_fungible_delta_ok insert_non_fungible_update_ok)

text \<open>An account is replaced, with its delta.\<close>

lemma upsert_account_cases:
  assumes "upsert_account apply_delta delta_ok b u d = Inr (d', n)"
  obtains r d1 where "ar_account_id r = bu_account_id u" "ar_commitment r = bu_final_commitment u" "ar_block_num r = b"
    "b \<in> blocks_of d" "d1 = d\<lparr>db_accounts := replace_row ar_account_id r (db_accounts d)\<rparr>"
    "d' = d1 \<or> (\<exists>delta m. insert_account_delta (bu_account_id u) b delta d1 = Inr (d', m))"
proof -
  from assms obtain prefix full delta where
    b: "b \<in> blocks_of d" and
    rest: "(let d = d\<lparr>db_accounts := replace_row ar_account_id
           \<lparr>ar_account_id = bu_account_id u, ar_network_prefix = prefix, ar_commitment = bu_final_commitment u,
            ar_block_num = b, ar_details = full\<rparr> (db_accounts d)\<rparr>
       in bind_res (case delta of None \<Rightarrow> Inr (d, 0) | Some delta \<Rightarrow> insert_account_delta (bu_account_id u) b delta d)
            (\<lambda>(d, _). Inr (d, 1))) = Inr (d', n)"
    unfolding upsert_account_def by (auto simp: bind_res_eq_Inr has_block_def references_Inr blocks_of_def simp del: Let_def)
  let ?r = "\<lparr>ar_account_id = bu_account_id u, ar_network_prefix = prefix, ar_commitment = bu_final_commitment u,
            ar_block_num = b, ar_details = full\<rparr>"
  from rest have "d' = d\<lparr>db_accounts := replace_row ar_account_id ?r (db_accounts d)\<rparr>
      \<or> (\<exists>delta m. insert_account_delta (bu_account_id u) b delta (d\<lparr>db_accounts := replace_row ar_account_id ?r (db_accounts d)\<rparr>) = Inr (d', m))"
    by (cases delta) (auto simp: Let_def bind_res_eq_Inr)
  with b that[of ?r] show ?thesis by simp
qed

lemma upsert_account_ok: "preserves db_ok (upsert_account apply_delta delta_ok b u)"
proof (rule preservesI)
  fix d d' n assume ok: "db_ok d" and run: "upsert_account apply_delta delta_ok b u d = Inr (d', n)"
  from run obtain r d1 where r: "ar_account_id r = bu_account_id u" "ar_block_num r = b" "b \<in> blocks_of d"
    and d1: "d1 = d\<lparr>db_accounts := replace_row ar_account_id r (db_accounts d)\<rparr>"
    and d': "d' = d1 \<or> (\<exists>delta m. insert_account_delta (bu_account_id u) b delta d1 = Inr (d', m))"
    by (rule upsert_account_cases) blast
  have "ar_block_num ` set (replace_row ar_account_id r (db_accounts d)) \<subseteq> blocks_of d"
    using ok r by (auto simp: db_ok_def references_ok_def set_replace_row)
  with ok have "db_ok d1" unfolding d1
    by (simp add: db_ok_defs unique_replace replace_row_keys subset_insertI2)
  with d' show "db_ok d'" using preservesD[OF insert_account_delta_ok] by blast
qed

lemma mark_consumed_ok: "preserves db_ok (mark_consumed ns)"
proof (rule preservesI)
  fix d d' n assume ok: "db_ok d" and run: "mark_consumed ns d = Inr (d', n)"
  define f where "f r = (if \<exists>n \<in> set ns. nr_nullifier r = Some n then r\<lparr>nr_consumed := True\<rparr> else r)" for r :: note_row
  have d': "d' = d\<lparr>db_notes := map f (db_notes d)\<rparr>" using run by (auto simp: mark_consumed_def Let_def f_def[abs_def])
  have "note_key (f r) = note_key r" "nr_rowid (f r) = nr_rowid r" "nr_block_num (f r) = nr_block_num r"
    "nr_sender (f r) = nr_sender r" "nr_script_root (f r) = nr_script_root r" for r
    by (simp_all add: f_def note_key_def)
  with ok show "db_ok d'" unfolding d' by (simp add: db_ok_defs unique_def image_image comp_def)
qed

lemma insert_nullifier_row_ok: "preserves db_ok (insert_nullifier_row msf b k)"
proof (rule preservesI)
  fix d d' n assume ok: "db_ok d" and run: "insert_nullifier_row msf b k d = Inr (d', n)"
  let ?r = "\<lparr>ur_nullifier = k, ur_prefix = get_nullifier_prefix msf k, ur_block_num = b\<rparr>"
  from run have d': "d' = d\<lparr>db_nullifiers := db_nullifiers d @ [?r]\<rparr>"
    and new: "ur_nullifier ?r \<notin> ur_nullifier ` set (db_nullifiers d)" and ref: "b \<in> blocks_of d"
    by (simp_all add: insert_nullifier_row_def row_Inr has_block_def blocks_of_def Let_def split: if_splits)
  from ok new ref show "db_ok d'" unfolding d' by (simp add: db_ok_defs unique_append)
qed

lemma next_rowid_greater: "r \<in> set rows \<Longrightarrow> nr_rowid r < next_rowid rows"
  unfolding next_rowid_def by (simp add: le_imp_less_Suc)

lemma insert_note_Inr:
  assumes "insert_note x d = Inr (d', n)"
  defines "r \<equiv> note_row_of (fst x) (snd x) (next_rowid (db_notes d))"
  shows "d' = d\<lparr>db_notes := db_notes d @ [r]\<rparr>" "note_key r \<notin> note_key ` set (db_notes d)"
    "nr_block_num r \<in> blocks_of d" "nr_sender r \<in> accounts_of d"
    "nr_script_root r = Some root \<Longrightarrow> root \<in> fst ` set (db_note_scripts d)" "n = 1"
  using assms by (auto simp: insert_note_def row_Inr has_block_def has_account_def blocks_of_def accounts_of_def Let_def split_def
      split: if_splits option.splits)

lemma insert_note_ok: "preserves db_ok (insert_note x)"
proof (rule preservesI)
  fix d d' n assume ok: "db_ok d" and run: "insert_note x d = Inr (d', n)"
  let ?r = "note_row_of (fst x) (snd x) (next_rowid (db_notes d))"
  note i = insert_note_Inr[OF run]
  have "nr_rowid ?r = next_rowid (db_notes d)" by (simp add: note_row_of_def)
  then have "\<forall>r \<in> set (db_notes d). nr_rowid r < nr_rowid ?r" by (simp add: next_rowid_greater)
  with ok i(2-5) show "db_ok d'" unfolding i(1) by (simp add: db_ok_defs unique_append sorted_wrt_append)
qed

lemma insert_script_Inr:
  assumes "insert_script x d = Inr (d', n)"
  shows "d' = d \<or> (\<exists>r. fst r \<notin> fst ` set (db_note_scripts d) \<and> d' = d\<lparr>db_note_scripts := db_note_scripts d @ [r]\<rparr>)"
proof (cases "no_details x")
  case (Some nd)
  then show ?thesis
    using assms by (cases "nd_script_root nd \<in> fst ` set (db_note_scripts d)")
      (simp_all add: insert_script_def insert_row_or_ignore_def, metis fst_conv)
qed (use assms in \<open>simp add: insert_script_def\<close>)

lemma insert_script_ok: "preserves db_ok (insert_script x)"
proof (rule preservesI)
  fix d d' n assume ok: "db_ok d" and run: "insert_script x d = Inr (d', n)"
  show "db_ok d'"
    using insert_script_Inr[OF run]
  proof (elim disjE exE conjE)
    fix r assume "fst r \<notin> fst ` set (db_note_scripts d)" and d': "d' = d\<lparr>db_note_scripts := db_note_scripts d @ [r]\<rparr>"
    with ok show "db_ok d'" unfolding d' by (simp add: db_ok_defs unique_append)
  qed (use ok in simp)
qed

lemma sql_apply_block_preserves:
  assumes "preserves P (insert_block_header h)" "\<And>u. preserves P (upsert_account apply_delta delta_ok (sh_block_num h) u)"
    "\<And>x. preserves P (insert_script x)" "\<And>x. preserves P (insert_note x)"
    "\<And>x. preserves P (insert_transaction_row (sh_block_num h) x)" "preserves P (mark_consumed nullifiers)"
    "\<And>k. preserves P (insert_nullifier_row msf (sh_block_num h) k)"
  shows "preserves P (sql_apply_block apply_delta delta_ok msf h notes nullifiers accounts txs)"
proof -
  have n: "preserves P (insert_nullifiers_for_block msf nullifiers (sh_block_num h))"
  proof (rule preservesI)
    fix d d' m assume "P d" "insert_nullifiers_for_block msf nullifiers (sh_block_num h) d = Inr (d', m)"
    moreover have "preserves P (\<lambda>d. and_write (mark_consumed nullifiers d) (write_each (insert_nullifier_row msf (sh_block_num h)) nullifiers))"
      by (intro preserves_and preserves_each assms)
    ultimately show "P d'" by (auto simp: insert_nullifiers_for_block_def bind_res_eq_Inr preserves_def)
  qed
  have "preserves P (\<lambda>d. sql_apply_block apply_delta delta_ok msf h notes nullifiers accounts txs d)"
    unfolding sql_apply_block_def upsert_accounts_def insert_scripts_def insert_notes_def insert_transactions_def
    by (intro preserves_and preserves_each assms n)
  then show ?thesis .
qed

lemma sql_apply_block_ok: "preserves db_ok (sql_apply_block apply_delta delta_ok msf h notes nullifiers accounts txs)"
  by (intro sql_apply_block_preserves insert_block_header_ok upsert_account_ok insert_script_ok insert_note_ok
      insert_transaction_row_ok mark_consumed_ok insert_nullifier_row_ok)

end
