(* ===== verification/Store_Sample.thy ===== *)
theory Store_Sample
  imports Store_Invariant
begin

text \<open>
  A small database of three blocks that satisfies the integrity constraints: one public account
  updated in blocks 1 and 2, a network note of each of these blocks, the second of them consumed.
\<close>

definition sample_account :: account_ident where
  "sample_account = \<lparr>ident_key = 1, ident_prefix = 0, ident_is_network = True\<rparr>"

definition sample_header :: "block_number \<Rightarrow> store_header" where
  "sample_header n =
     \<lparr>sh_block_num = n, sh_prev_commitment = 100 + n, sh_chain_commitment = 0, sh_account_root = 0, sh_nullifier_root = 0,
      sh_note_root = 0, sh_tx_commitment = 0, sh_commitment = 101 + n\<rparr>"

definition sample_metadata :: "32 word \<Rightarrow> note_metadata" where
  "sample_metadata tag =
     \<lparr>nm_sender = sample_account, nm_note_type = 1, nm_tag = tag, nm_network = True, nm_aux = 4, nm_execution_hint = 1\<rparr>"

definition sample_details :: note_details where
  "sample_details = \<lparr>nd_assets = 1, nd_inputs = 2, nd_script_root = 5, nd_script = 50, nd_serial_num = 6\<rparr>"

definition sample_note :: "block_number \<Rightarrow> note_record" where
  "sample_note n =
     \<lparr>no_block_num = n, no_note_index = (0, 0), no_note_id = 20 + n, no_metadata = sample_metadata (if n = 1 then 7 else 8),
      no_details = Some sample_details, no_merkle_path = 0\<rparr>"

definition sample_slot :: "block_number \<Rightarrow> nat \<Rightarrow> digest \<Rightarrow> slot_row" where
  "sample_slot n slot v = \<lparr>sr_account_id = sample_account, sr_block_num = n, sr_slot = slot, sr_value = v\<rparr>"

definition sample_db :: db where
  "sample_db =
     \<lparr>db_block_headers = map sample_header [0, 1, 2],
      db_accounts = [\<lparr>ar_account_id = sample_account, ar_network_prefix = Some 0, ar_commitment = 11, ar_block_num = 2, ar_details = None\<rparr>],
      db_notes = [note_row_of (sample_note 1) (Some 32) 1, (note_row_of (sample_note 2) (Some 33) 2)\<lparr>nr_consumed := True\<rparr>],
      db_note_scripts = [(5, 50)],
      db_account_deltas = map (\<lambda>n. \<lparr>dr_account_id = sample_account, dr_block_num = n, dr_nonce = 1\<rparr>) [1, 2],
      db_slot_updates = [sample_slot 1 0 5, sample_slot 2 0 6, sample_slot 1 1 7],
      db_map_updates = [\<lparr>mr_account_id = sample_account, mr_block_num = 2, mr_slot = 2, mr_key = 3, mr_value = 4\<rparr>],
      db_fungible_deltas = [\<lparr>fr_account_id = sample_account, fr_block_num = 1, fr_faucet_id = sample_account, fr_delta = 10\<rparr>,
        \<lparr>fr_account_id = sample_account, fr_block_num = 2, fr_faucet_id = sample_account, fr_delta = - 3\<rparr>],
      db_non_fungible_updates = [\<lparr>kr_account_id = sample_account, kr_block_num = 1, kr_vault_key = 99, kr_is_remove = 0\<rparr>],
      db_nullifiers = [\<lparr>ur_nullifier = 33, ur_prefix = 0, ur_block_num = 2\<rparr>],
      db_transactions = [\<lparr>tr_transaction_id = 44, tr_account_id = sample_account, tr_block_num = 2\<rparr>]\<rparr>"

lemma sample_db_ok: "db_ok sample_db"
proof -
  have "keys_ok sample_db"
    by (simp add: keys_ok_def unique_def sample_db_def sample_header_def sample_slot_def note_row_of_def sample_note_def
        note_key_def delta_key_def slot_key_def map_key_def fungible_key_def non_fungible_key_def)
  moreover have "references_ok sample_db"
    by (simp add: references_ok_def blocks_of_def accounts_of_def sample_db_def sample_header_def sample_slot_def note_row_of_def
        sample_note_def sample_metadata_def sample_details_def delta_key_def)
  moreover have "rowids_ok sample_db" by (simp add: rowids_ok_def sample_db_def note_row_of_def)
  ultimately show ?thesis by (simp add: db_ok_def)
qed

end
