(* ===== verification/Store_Sync.thy ===== *)
theory Store_Sync
  imports Store_Sample
begin

text \<open>
  What clients rely on when they synchronize with the store: the answer to a sync request covers its
  block range, pages of network notes cover all of them, and a note read back is the note written.
\<close>

section \<open>Synchronization\<close>

lemma sort_key_hd:
  assumes "sort_key f xs = r # rs"
  shows "r \<in> set xs" "x \<in> set xs \<Longrightarrow> f r \<le> f x"
proof -
  have s: "set (sort_key f xs) = set xs" by simp
  then show "r \<in> set xs" using assms by (metis list.set_intros(1))
  have "sorted (map f (r # rs))" using assms sorted_sort_key[of f xs] by simp
  moreover assume "x \<in> set xs"
  then have "x \<in> set (r # rs)" using assms s by simp
  ultimately show "f r \<le> f x" by auto
qed

lemma next_matching_None:
  "next_matching_block d tags ids n = None \<longleftrightarrow> (\<forall>r \<in> set (db_notes d). note_matches tags ids r \<longrightarrow> nr_block_num r \<le> n)"
proof -
  have "next_matching_block d tags ids n = None \<longleftrightarrow> sort_key nr_block_num (filter (\<lambda>r. note_matches tags ids r \<and> nr_block_num r > n) (db_notes d)) = []"
    by (simp add: next_matching_block_def split: list.split)
  also have "\<dots> \<longleftrightarrow> set (filter (\<lambda>r. note_matches tags ids r \<and> nr_block_num r > n) (db_notes d)) = {}"
    by (metis set_empty set_sort)
  finally show ?thesis by (auto simp: not_less)
qed

lemma next_matching_Some:
  assumes "next_matching_block d tags ids n = Some b"
  shows "\<exists>r \<in> set (db_notes d). note_matches tags ids r \<and> nr_block_num r = b" "n < b"
    "r \<in> set (db_notes d) \<Longrightarrow> note_matches tags ids r \<Longrightarrow> n < nr_block_num r \<Longrightarrow> b \<le> nr_block_num r"
proof -
  let ?rows = "filter (\<lambda>r. note_matches tags ids r \<and> nr_block_num r > n) (db_notes d)"
  from assms obtain q qs where q: "sort_key nr_block_num ?rows = q # qs" "nr_block_num q = b"
    by (auto simp: next_matching_block_def split: list.splits)
  from sort_key_hd(1)[OF q(1)] q(2) show "\<exists>r \<in> set (db_notes d). note_matches tags ids r \<and> nr_block_num r = b" "n < b" by auto
  show "b \<le> nr_block_num r" if "r \<in> set (db_notes d)" "note_matches tags ids r" "n < nr_block_num r"
    using sort_key_hd(2)[OF q(1), of r] q(2) that by simp
qed

lemma note_sync_block: "note_sync_from_row r = Inr y \<Longrightarrow> ny_block_num y = nr_block_num r"
  by (auto simp: note_sync_from_row_def bind_res_eq_Inr)

definition chain_tip_of :: "db \<Rightarrow> block_number" where
  "chain_tip_of d = Max (blocks_of d)"

lemma latest_header:
  assumes "select_block_header_by_block_num d None = Some h"
  shows "h \<in> set (db_block_headers d)" "sh_block_num h = chain_tip_of d"
proof -
  let ?s = "sort_key sh_block_num (db_block_headers d)"
  from assms obtain hs where r: "rev ?s = h # hs"
    by (auto simp: select_block_header_by_block_num_def Let_def split: list.splits)
  then have s: "?s = rev hs @ [h]" by (metis rev.simps(2) rev_rev_ident)
  have set: "set ?s = set (db_block_headers d)" by simp
  with s show h: "h \<in> set (db_block_headers d)" by (metis in_set_conv_decomp)
  have "sorted (map sh_block_num (rev hs @ [h]))" using sorted_sort_key[of sh_block_num "db_block_headers d"] s by simp
  then have "\<forall>x \<in> set ?s. sh_block_num x \<le> sh_block_num h" unfolding s by (auto simp: sorted_append)
  then have "\<forall>b \<in> blocks_of d. b \<le> sh_block_num h" using set by (auto simp: blocks_of_def)
  then show "sh_block_num h = chain_tip_of d"
    unfolding chain_tip_of_def using h by (intro Max_eqI[symmetric]) (auto simp: blocks_of_def)
qed

lemma header_by_number:
  assumes "select_block_header_by_block_num d (Some b) = Some h"
  shows "h \<in> set (db_block_headers d)" "sh_block_num h = b"
proof -
  from assms obtain hs where "filter (\<lambda>h. sh_block_num h = b) (db_block_headers d) = h # hs"
    by (auto simp: select_block_header_by_block_num_def Let_def split: list.splits)
  then have "h \<in> set (filter (\<lambda>h. sh_block_num h = b) (db_block_headers d))" by (metis list.set_intros(1))
  then show "h \<in> set (db_block_headers d)" "sh_block_num h = b" by simp_all
qed

text \<open>The notes of an answer are those of the range up to the header of the answer.\<close>

lemma sync_notes_range:
  assumes ok: "db_ok d"
    and sel_notes: "select_notes_since_block_by_tag_and_sender d tags ids n = Inr ns" and h: "sync_header d ns = Inr h"
  shows "h \<in> set (db_block_headers d)"
    and "collect_res note_sync_from_row (filter (\<lambda>r. note_matches tags ids r \<and> n < nr_block_num r \<and> nr_block_num r \<le> sh_block_num h)
        (db_notes d)) = Inr ns"
    and "n < sh_block_num h \<or> sh_block_num h = chain_tip_of d"
    and "ns \<noteq> [] \<or> sh_block_num h = chain_tip_of d"
proof -
  let ?rows = "filter (\<lambda>r. Some (nr_block_num r) = next_matching_block d tags ids n \<and> note_matches tags ids r) (db_notes d)"
  let ?range = "filter (\<lambda>r. note_matches tags ids r \<and> n < nr_block_num r \<and> nr_block_num r \<le> sh_block_num h) (db_notes d)"
  from sel_notes have c: "collect_res note_sync_from_row ?rows = Inr ns"
    by (auto simp: select_notes_since_block_by_tag_and_sender_def bind_res_eq_Inr)
  note all = collect_res_InrD[OF c]
  have sel: "select_block_header_by_block_num d (case ns of [] \<Rightarrow> None | y # _ \<Rightarrow> Some (ny_block_num y)) = Some h"
    using h by (auto simp: sync_header_def split: option.splits)
  have "h \<in> set (db_block_headers d) \<and> ?rows = ?range \<and> (n < sh_block_num h \<or> sh_block_num h = chain_tip_of d)
      \<and> (ns \<noteq> [] \<or> sh_block_num h = chain_tip_of d)"
  proof (cases "next_matching_block d tags ids n")
    case None
    then have "?rows = []" by simp
    moreover from this c have ns: "ns = []" by (cases ns) auto
    moreover from None have "?range = []" by (auto simp: next_matching_None filter_empty_conv)
    moreover have "h \<in> set (db_block_headers d)" "sh_block_num h = chain_tip_of d"
      using latest_header[of d h] sel ns by simp_all
    ultimately show ?thesis by simp
  next
    case (Some b)
    note m = next_matching_Some[OF Some]
    from m(1) Some have "?rows \<noteq> []" by (auto simp: filter_empty_conv)
    then obtain q qs where q: "?rows = q # qs" by (cases ?rows) auto
    with all obtain y ys where y: "ns = y # ys" "note_sync_from_row q = Inr y" by (auto simp: list_all2_Cons1)
    have "q \<in> set ?rows" unfolding q by simp
    then have "nr_block_num q = b" using Some by simp
    then have "ny_block_num y = b" using note_sync_block[OF y(2)] by simp
    then have hb: "h \<in> set (db_block_headers d)" "sh_block_num h = b" using header_by_number[of d b h] sel y(1) by simp_all
    have "?rows = ?range"
      by (rule filter_cong) (use Some m(2,3) hb(2) in \<open>auto intro: antisym\<close>)
    with hb m(2) y(1) show ?thesis by simp
  qed
  then show "h \<in> set (db_block_headers d)" "collect_res note_sync_from_row ?range = Inr ns"
    "n < sh_block_num h \<or> sh_block_num h = chain_tip_of d" "ns \<noteq> [] \<or> sh_block_num h = chain_tip_of d"
    using c by simp_all
qed

lemma sync_res_Inr: "sync_res r = Inr a \<longleftrightarrow> r = Inr a"
  by (cases r) (simp_all add: sync_res_def)

text \<open>
  C26. The answer to a state sync request for the blocks after \<open>n\<close> is complete up to the block whose
  header it returns: it holds every matching note, every requested account whose last change, and every
  transaction of a requested account that, lies after \<open>n\<close> and up to that block, and nothing else. The
  block is later than \<open>n\<close> unless the chain has none later, and it is the chain tip when no note matches,
  so a client that continues from the returned block misses nothing and arrives at the tip.
\<close>

theorem state_sync_complete:
  assumes ok: "db_ok d" and run: "get_state_sync d n ids tags = Inr u"
  shows "\<exists>m. m = sh_block_num (su_block_header u) \<and> su_block_header u \<in> set (db_block_headers d)
    \<and> collect_res note_sync_from_row (filter (\<lambda>r. note_matches tags ids r \<and> n < nr_block_num r \<and> nr_block_num r \<le> m) (db_notes d))
        = Inr (su_notes u)
    \<and> set (su_account_updates u) = account_summary_from_row ` {r \<in> set (db_accounts d).
        n < ar_block_num r \<and> ar_block_num r \<le> m \<and> ar_account_id r \<in> set ids}
    \<and> {(ts_account_id t, ts_block_num t, ts_transaction_id t) | t. t \<in> set (su_transactions u)}
        = {(tr_account_id r, tr_block_num r, tr_transaction_id r) | r. r \<in> set (db_transactions d)
            \<and> n < tr_block_num r \<and> tr_block_num r \<le> m \<and> tr_account_id r \<in> set ids}
    \<and> (n < m \<or> m = chain_tip_of d) \<and> (su_notes u \<noteq> [] \<or> m = chain_tip_of d)"
proof -
  from run obtain ns h accs txs where
    ns: "select_notes_since_block_by_tag_and_sender d tags ids n = Inr ns" and h: "sync_header d ns = Inr h"
    and accs: "select_accounts_by_block_range d n (sh_block_num h) ids = Inr accs"
    and txs: "select_transactions_by_accounts_and_block_range d n (sh_block_num h) ids = Inr txs"
    and u: "u = \<lparr>su_notes = ns, su_block_header = h, su_account_updates = accs, su_transactions = txs\<rparr>"
    unfolding get_state_sync_def bind_res_eq_Inr sync_res_Inr by blast
  note range = sync_notes_range[OF ok ns h]
  have "set accs = account_summary_from_row ` {r \<in> set (db_accounts d).
      n < ar_block_num r \<and> ar_block_num r \<le> sh_block_num h \<and> ar_account_id r \<in> set ids}"
    using accs by (auto simp: select_accounts_by_block_range_def bind_res_eq_Inr)
  moreover have "{(ts_account_id t, ts_block_num t, ts_transaction_id t) | t. t \<in> set txs}
      = {(tr_account_id r, tr_block_num r, tr_transaction_id r) | r. r \<in> set (db_transactions d)
          \<and> n < tr_block_num r \<and> tr_block_num r \<le> sh_block_num h \<and> tr_account_id r \<in> set ids}"
  proof -
    have "set txs = (\<lambda>r. \<lparr>ts_account_id = tr_account_id r, ts_block_num = tr_block_num r, ts_transaction_id = tr_transaction_id r\<rparr>)
      ` {r \<in> set (db_transactions d). n < tr_block_num r \<and> tr_block_num r \<le> sh_block_num h \<and> tr_account_id r \<in> set ids}"
      using txs by (auto simp: select_transactions_by_accounts_and_block_range_def bind_res_eq_Inr)
    then show ?thesis by (simp add: Setcompr_eq_image image_image) blast
  qed
  ultimately show ?thesis using range unfolding u by simp
qed

lemma sample_sync:
  "case get_state_sync sample_db 0 [sample_account] [7] of
     Inr u \<Rightarrow> sh_block_num (su_block_header u) = 1 \<and> length (su_notes u) = 1 | Inl e \<Rightarrow> False"
  by code_simp

theorem state_sync_complete_witness:
  "\<exists>u. get_state_sync sample_db 0 [sample_account] [7] = Inr u \<and> length (su_notes u) = 1
     \<and> set (su_account_updates u) = account_summary_from_row ` {r \<in> set (db_accounts sample_db).
          0 < ar_block_num r \<and> ar_block_num r \<le> 1 \<and> ar_account_id r \<in> set [sample_account]}"
proof -
  obtain u where u: "get_state_sync sample_db 0 [sample_account] [7] = Inr u" "sh_block_num (su_block_header u) = 1" "length (su_notes u) = 1"
    using sample_sync by (auto split: sum.splits)
  from state_sync_complete[OF sample_db_ok u(1)]
  have "set (su_account_updates u) = account_summary_from_row ` {r \<in> set (db_accounts sample_db).
      0 < ar_block_num r \<and> ar_block_num r \<le> 1 \<and> ar_account_id r \<in> set [sample_account]}"
    unfolding u(2) by blast
  with u show ?thesis by blast
qed

section \<open>Reading notes back\<close>

lemma u64_value_sign: "u64_to_value v < 0 \<longleftrightarrow> v \<ge> 2 ^ 63"
proof -
  have "u64_to_value v < 0 \<longleftrightarrow> bit v 63" using bit_last_iff[of v] by (simp add: u64_to_value_def)
  also have "\<dots> \<longleftrightarrow> v \<ge> 2 ^ 63"
  proof -
    have "bit v 63 \<longleftrightarrow> bit (unat v) 63" by (simp add: bit_unsigned_iff)
    also have "\<dots> \<longleftrightarrow> odd (unat v div 2 ^ 63)" by (simp add: bit_iff_odd)
    also have "\<dots> \<longleftrightarrow> unat v \<ge> 2 ^ 63"
    proof -
      have "unat v < 2 ^ 64" by (rule less_le_trans[OF unsigned_less]) simp
      then have "unat v div 2 ^ 63 < 2" by (simp add: div_less_iff_less_mult)
      then show ?thesis by (cases "unat v div 2 ^ 63") (auto simp: div_eq_0_iff less_2_cases_iff)
    qed
    also have "\<dots> \<longleftrightarrow> v \<ge> 2 ^ 63" by (simp add: word_le_nat_alt)
    finally show ?thesis .
  qed
  finally show ?thesis .
qed

lemma word_of_value [simp]: "word_of_int (u64_to_value v) = v"
  by (simp add: u64_to_value_def)

text \<open>
  C29. A note read back from the database is the note written, whatever its execution hint, exactly when
  its auxiliary value is below \<open>2 ^ 63\<close>. Above, the value was stored as a negative integer that reading
  refuses: the row is written without complaint, and every query that returns it fails.
\<close>

theorem note_roundtrip:
  assumes run: "insert_note (note, k) d = Inr (d', n)"
    and script: "\<And>nd. no_details note = Some nd \<Longrightarrow> map_of (db_note_scripts d) (nd_script_root nd) = Some (nd_script nd)"
  shows "note_from_row d' (last (db_notes d')) =
    (if nm_aux (no_metadata note) < 2 ^ 63 then Inr note
     else Inl (SqliteOutOfRange (sint (nm_aux (no_metadata note)))))"
proof -
  let ?m = "no_metadata note"
  let ?r = "note_row_of note k (next_rowid (db_notes d))"
  have d': "d' = d\<lparr>db_notes := db_notes d @ [?r]\<rparr>" using insert_note_Inr(1)[OF run] by simp
  have meta: "metadata_from_row ?r = (if nm_aux ?m < 2 ^ 63 then Inr ?m else Inl (SqliteOutOfRange (sint (nm_aux ?m))))"
    using u64_value_sign[of "nm_aux ?m"]
    by (auto simp: metadata_from_row_def note_row_of_def row_get_u64_def column_value_as_u64_def not_le)
      (simp add: u64_to_value_def)
  have "details_from_row (db_note_scripts d) ?r = no_details note"
    using script by (cases "no_details note") (simp_all add: details_from_row_def note_row_of_def)
  then show ?thesis unfolding d' by (simp add: note_from_row_def meta) (simp add: note_row_of_def)
qed

lemma sample_insert: "insert_note (sample_note 2 \<lparr>no_note_index := (0, 1)\<rparr>, None) sample_db =
   Inr (sample_db\<lparr>db_notes := db_notes sample_db @ [note_row_of (sample_note 2 \<lparr>no_note_index := (0, 1)\<rparr>) None 3]\<rparr>, 1)"
  by code_simp

theorem note_roundtrip_witness:
  "\<exists>d' n. insert_note (sample_note 2 \<lparr>no_note_index := (0, 1)\<rparr>, None) sample_db = Inr (d', n)
     \<and> note_from_row d' (last (db_notes d')) = Inr (sample_note 2 \<lparr>no_note_index := (0, 1)\<rparr>)"
proof -
  let ?note = "sample_note 2 \<lparr>no_note_index := (0, 1)\<rparr>"
  have small: "nm_aux (no_metadata ?note) < 2 ^ 63" by (simp add: sample_note_def sample_metadata_def)
  have "note_from_row d' (last (db_notes d')) = Inr ?note" if "insert_note (?note, None) sample_db = Inr (d', n)" for d' n
    using note_roundtrip[OF that] small by (simp add: sample_note_def sample_details_def sample_db_def)
  with sample_insert show ?thesis by blast
qed

end
