(* ===== verification/Store_Deltas.thy ===== *)
theory Store_Deltas
  imports Store_Sample
begin

text \<open>
  The merged account delta of a range of blocks: the query takes the last update of every storage slot
  and map entry and the sums of the nonces and the fungible assets, and the deltas of adjacent ranges
  compose.
\<close>

section \<open>Last updates\<close>

definition latest :: "('r \<Rightarrow> 'k) \<Rightarrow> ('r \<Rightarrow> block_number) \<Rightarrow> block_number \<Rightarrow> block_number \<Rightarrow> 'r list \<Rightarrow> 'r list" where
  "latest key blk s e rows = filter (\<lambda>r. in_range s e (blk r)
     \<and> \<not> (\<exists>b \<in> set rows. key r = key b \<and> blk r < blk b \<and> blk b \<le> e)) rows"

lemma map_of_rows_snoc: "map_of_rows (rows @ [(k, v)]) = (map_of_rows rows)(k \<mapsto> v)"
  by (simp add: map_of_rows_def)

lemma map_of_rows_iff:
  "(\<And>k v v'. (k, v) \<in> set rows \<Longrightarrow> (k, v') \<in> set rows \<Longrightarrow> v = v') \<Longrightarrow>
     map_of_rows rows k = Some v \<longleftrightarrow> (k, v) \<in> set rows"
proof (induction rows rule: rev_induct)
  case (snoc x rows)
  obtain k' v' where x: "x = (k', v')" by (cases x)
  have "map_of_rows rows k = Some v \<longleftrightarrow> (k, v) \<in> set rows"
    by (rule snoc.IH) (use snoc.prems in \<open>auto\<close>)
  moreover have "v = v'" if "(k', v) \<in> set rows" "k = k'" using snoc.prems[of k' v v'] that x by simp
  ultimately show ?case by (auto simp: x map_of_rows_snoc)
qed (simp add: map_of_rows_def)

lemma latest_iff:
  assumes u: "distinct (map (\<lambda>r. (blk r, key r)) rows)"
  shows "map_of_rows (map (\<lambda>r. (key r, val r)) (latest key blk s e rows)) k = Some v \<longleftrightarrow>
    (\<exists>r \<in> set rows. key r = k \<and> val r = v \<and> in_range s e (blk r)
      \<and> (\<forall>b \<in> set rows. key b = k \<and> blk b \<le> e \<longrightarrow> blk b \<le> blk r))"
proof -
  have same: "r = r'" if "r \<in> set rows" "r' \<in> set rows" "blk r = blk r'" "key r = key r'" for r r'
    using inj_onD[OF distinct_map[THEN iffD1, OF u, THEN conjunct2], of r r'] that by simp
  have "map_of_rows (map (\<lambda>r. (key r, val r)) (latest key blk s e rows)) k = Some v \<longleftrightarrow>
      (k, v) \<in> set (map (\<lambda>r. (key r, val r)) (latest key blk s e rows))"
  proof (rule map_of_rows_iff)
    fix k v v'
    assume "(k, v) \<in> set (map (\<lambda>r. (key r, val r)) (latest key blk s e rows))"
      and "(k, v') \<in> set (map (\<lambda>r. (key r, val r)) (latest key blk s e rows))"
    then obtain r r' where r: "r \<in> set (latest key blk s e rows)" "key r = k" "val r = v"
      and r': "r' \<in> set (latest key blk s e rows)" "key r' = k" "val r' = v'" by auto
    then have "\<not> blk r < blk r'" "\<not> blk r' < blk r" by (auto simp: latest_def in_range_def)
    then have "r = r'" using r r' by (intro same) (auto simp: latest_def)
    with r r' show "v = v'" by simp
  qed
  also have "\<dots> \<longleftrightarrow> (\<exists>r \<in> set rows. key r = k \<and> val r = v \<and> in_range s e (blk r)
      \<and> (\<forall>b \<in> set rows. key b = k \<and> blk b \<le> e \<longrightarrow> blk b \<le> blk r))"
    unfolding latest_def by (auto simp: not_less) (metis not_le)+
  finally show ?thesis .
qed

text \<open>An entry is undefined exactly when the range has no update of it.\<close>

lemma latest_None:
  assumes u: "distinct (map (\<lambda>r. (blk r, key r)) rows)"
  shows "map_of_rows (map (\<lambda>r. (key r, val r)) (latest key blk s e rows)) k = None \<longleftrightarrow>
    (\<forall>r \<in> set rows. key r = k \<longrightarrow> \<not> in_range s e (blk r))"
proof -
  have nonempty: "(\<exists>r \<in> set rows. key r = k \<and> in_range s e (blk r) \<and> (\<forall>b \<in> set rows. key b = k \<and> blk b \<le> e \<longrightarrow> blk b \<le> blk r))"
    if q: "q \<in> set rows" "key q = k" "in_range s e (blk q)" for q
  proof -
    let ?S = "{r \<in> set rows. key r = k \<and> in_range s e (blk r)}"
    have "finite (blk ` ?S)" "blk ` ?S \<noteq> {}" using q by auto
    then have "Max (blk ` ?S) \<in> blk ` ?S" by (rule Max_in)
    then obtain r where "Max (blk ` ?S) = blk r" "r \<in> ?S" by (rule imageE)
    then have r: "r \<in> ?S" "blk r = Max (blk ` ?S)" by simp_all
    have "blk b \<le> blk r" if "b \<in> set rows" "key b = k" "blk b \<le> e" for b
    proof (cases "s < blk b")
      case True
      then have "b \<in> ?S" using that by (simp add: in_range_def)
      then show ?thesis using r(2) by simp
    qed (use r(1) in \<open>auto simp: in_range_def\<close>)
    with r(1) show ?thesis by blast
  qed
  let ?m = "map_of_rows (map (\<lambda>r. (key r, val r)) (latest key blk s e rows))"
  show ?thesis
  proof
    assume none: "?m k = None"
    show "\<forall>r \<in> set rows. key r = k \<longrightarrow> \<not> in_range s e (blk r)"
    proof (intro ballI impI notI)
      fix q assume "q \<in> set rows" "key q = k" "in_range s e (blk q)"
      from nonempty[OF this] obtain r where "?m k = Some (val r)" unfolding latest_iff[OF u] by blast
      with none show False by simp
    qed
  next
    assume no: "\<forall>r \<in> set rows. key r = k \<longrightarrow> \<not> in_range s e (blk r)"
    show "?m k = None"
    proof (cases "?m k")
      case (Some v)
      then show ?thesis unfolding latest_iff[OF u] using no by blast
    qed
  qed
qed

lemma latest_compose:
  assumes u: "distinct (map (\<lambda>r. (blk r, key r)) rows)" and sme: "s \<le> m" "m \<le> e"
  shows "map_of_rows (map (\<lambda>r. (key r, val r)) (latest key blk s e rows)) =
    map_of_rows (map (\<lambda>r. (key r, val r)) (latest key blk s m rows)) ++
    map_of_rows (map (\<lambda>r. (key r, val r)) (latest key blk m e rows))"
proof (rule ext)
  fix k
  let ?M = "\<lambda>s e. map_of_rows (map (\<lambda>r. (key r, val r)) (latest key blk s e rows))"
  show "?M s e k = (?M s m ++ ?M m e) k"
  proof (cases "?M m e k")
    case (Some v)
    then have "?M s e k = Some v" using sme unfolding latest_iff[OF u] by (auto simp: in_range_def)
    with Some show ?thesis by simp
  next
    case None
    then have no: "\<forall>r \<in> set rows. key r = k \<longrightarrow> \<not> in_range m e (blk r)" by (simp add: latest_None[OF u])
    then have le: "blk b \<le> m" if "b \<in> set rows" "key b = k" "blk b \<le> e" for b
      using that by (auto simp: in_range_def not_less)
    have "?M s e k = Some v \<longleftrightarrow> ?M s m k = Some v" for v
      unfolding latest_iff[OF u] using le sme by (auto simp: in_range_def)
    then have "?M s e k = ?M s m k" by (metis not_None_eq)
    with None show ?thesis by (simp add: map_add_def)
  qed
qed

section \<open>Sums and lists\<close>

lemma filter_split_range:
  "s \<le> m \<Longrightarrow> m \<le> e \<Longrightarrow> P r \<and> in_range s e n \<longleftrightarrow> (P r \<and> in_range s m n) \<or> (P r \<and> in_range m e n)"
  by (auto simp: in_range_def)

lemma sum_split:
  fixes f :: "'r \<Rightarrow> 'n::comm_monoid_add"
  assumes "\<And>r. r \<in> set rows \<Longrightarrow> \<not> (P r \<and> Q r)"
  shows "sum_list (map f (filter (\<lambda>r. P r \<or> Q r) rows)) = sum_list (map f (filter P rows)) + sum_list (map f (filter Q rows))"
  using assms by (induction rows) (auto simp: ac_simps)

lemma sort_split:
  assumes "\<And>r r'. r \<in> set rows \<Longrightarrow> r' \<in> set rows \<Longrightarrow> P r \<Longrightarrow> Q r' \<Longrightarrow> f r < f r'"
  shows "sort_key f (filter (\<lambda>r. P r \<or> Q r) rows) = sort_key f (filter P rows) @ sort_key f (filter Q rows)"
proof (rule properties_for_sort_key)
  have disj: "\<not> (P r \<and> Q r)" if "r \<in> set rows" for r using assms[of r r] that by blast
  then show "mset (sort_key f (filter P rows) @ sort_key f (filter Q rows)) = mset (filter (\<lambda>r. P r \<or> Q r) rows)"
    by (simp, induction rows) (auto)
  show "filter (\<lambda>x. f k = f x) (sort_key f (filter P rows) @ sort_key f (filter Q rows)) = filter (\<lambda>x. f k = f x) (filter (\<lambda>r. P r \<or> Q r) rows)"
    if "k \<in> set (sort_key f (filter P rows) @ sort_key f (filter Q rows))" for k
  proof -
    have s: "filter (\<lambda>x. f k = f x) (sort_key f xs) = filter (\<lambda>x. f k = f x) xs" for xs
      using sort_key_stable[of f "f k" xs] by (simp add: eq_commute)
    have one: "filter (\<lambda>x. f k = f x) (filter P rows) = [] \<or> filter (\<lambda>x. f k = f x) (filter Q rows) = []"
      using assms by (fastforce simp: filter_empty_conv)
    have "filter (\<lambda>x. f k = f x) (filter (\<lambda>r. P r \<or> Q r) rows) =
        filter (\<lambda>x. f k = f x) (filter P rows) @ filter (\<lambda>x. f k = f x) (filter Q rows)"
      using one
    proof
      assume e: "filter (\<lambda>x. f k = f x) (filter P rows) = []"
      then have "filter (\<lambda>x. f k = f x) (filter (\<lambda>r. P r \<or> Q r) rows) = filter (\<lambda>x. f k = f x) (filter Q rows)"
        by (auto simp: filter_empty_conv intro!: filter_cong)
      with e show ?thesis by simp
    next
      assume e: "filter (\<lambda>x. f k = f x) (filter Q rows) = []"
      then have "filter (\<lambda>x. f k = f x) (filter (\<lambda>r. P r \<or> Q r) rows) = filter (\<lambda>x. f k = f x) (filter P rows)"
        by (auto simp: filter_empty_conv intro!: filter_cong)
      with e show ?thesis by simp
    qed
    then show ?thesis by (simp only: filter_append s)
  qed
  show "sorted (map f (sort_key f (filter P rows) @ sort_key f (filter Q rows)))"
    using assms by (auto simp: sorted_append intro: less_imp_le)
qed

section \<open>The queries of a delta\<close>

lemma distinct_by_key:
  "unique key rows \<Longrightarrow> \<forall>r \<in> set rows. \<forall>r' \<in> set rows. g r = g r' \<longrightarrow> key r = key r' \<Longrightarrow> distinct (map g rows)"
  unfolding unique_def distinct_map inj_on_def by blast

lemma latest_filter:
  "latest key blk s e (filter A rows) =
     filter (\<lambda>r. A r \<and> in_range s e (blk r) \<and> \<not> (\<exists>b \<in> set rows. A b \<and> key r = key b \<and> blk r < blk b \<and> blk b \<le> e)) rows"
  unfolding latest_def filter_filter by (rule filter_cong) auto

lemma slot_updates_latest:
  "select_slot_updates d a s e = map (\<lambda>r. (sr_slot r, sr_value r))
     (latest sr_slot sr_block_num s e (filter (\<lambda>r. sr_account_id r = a) (db_slot_updates d)))"
  by (simp add: select_slot_updates_def latest_filter)

lemma map_updates_latest:
  "select_map_updates d a s e = map (\<lambda>r. ((mr_slot r, mr_key r), mr_value r))
     (latest (\<lambda>r. (mr_slot r, mr_key r)) mr_block_num s e (filter (\<lambda>r. mr_account_id r = a) (db_map_updates d)))"
  by (simp add: select_map_updates_def latest_filter conj_assoc)

lemma slot_updates_compose:
  assumes "db_ok d" "s \<le> m" "m \<le> e"
  shows "map_of_rows (select_slot_updates d a s e) = map_of_rows (select_slot_updates d a s m) ++ map_of_rows (select_slot_updates d a m e)"
proof -
  let ?rows = "filter (\<lambda>r. sr_account_id r = a) (db_slot_updates d)"
  have "unique slot_key ?rows" using assms(1) by (simp add: db_ok_def keys_ok_def unique_def distinct_map_filter)
  then have "distinct (map (\<lambda>r. (sr_block_num r, sr_slot r)) ?rows)"
    by (rule distinct_by_key) (auto simp: slot_key_def)
  from latest_compose[OF this assms(2,3), where val = sr_value] show ?thesis by (simp add: slot_updates_latest)
qed

lemma map_updates_compose:
  assumes "db_ok d" "s \<le> m" "m \<le> e"
  shows "map_of_rows (select_map_updates d a s e) = map_of_rows (select_map_updates d a s m) ++ map_of_rows (select_map_updates d a m e)"
proof -
  let ?rows = "filter (\<lambda>r. mr_account_id r = a) (db_map_updates d)"
  have "unique map_key ?rows" using assms(1) by (simp add: db_ok_def keys_ok_def unique_def distinct_map_filter)
  then have "distinct (map (\<lambda>r. (mr_block_num r, (mr_slot r, mr_key r))) ?rows)"
    by (rule distinct_by_key) (auto simp: map_key_def)
  from latest_compose[OF this assms(2,3), where val = mr_value] show ?thesis by (simp add: map_updates_latest)
qed

text \<open>The rows of a range are those of its first and of its second part.\<close>

lemma filter_range:
  assumes "s \<le> m" "m \<le> e"
  shows "filter (\<lambda>r. A r \<and> in_range s e (blk r)) rows =
    filter (\<lambda>r. (A r \<and> in_range s m (blk r)) \<or> (A r \<and> in_range m e (blk r))) rows"
  by (rule filter_cong) (use assms in \<open>auto simp: in_range_def\<close>)

lemma sum_range:
  fixes f :: "'r \<Rightarrow> 'n::comm_monoid_add"
  assumes "s \<le> m" "m \<le> e"
  shows "sum_list (map f (filter (\<lambda>r. A r \<and> in_range s e (blk r)) rows)) =
    sum_list (map f (filter (\<lambda>r. A r \<and> in_range s m (blk r)) rows)) + sum_list (map f (filter (\<lambda>r. A r \<and> in_range m e (blk r)) rows))"
  unfolding filter_range[OF assms] by (rule sum_split) (auto simp: in_range_def)

lemma non_fungible_updates_compose:
  assumes "s \<le> m" "m \<le> e"
  shows "select_non_fungible_updates d a s e = select_non_fungible_updates d a s m @ select_non_fungible_updates d a m e"
proof -
  have "sort_key kr_block_num (filter (\<lambda>r. kr_account_id r = a \<and> in_range s e (kr_block_num r)) (db_non_fungible_updates d)) =
      sort_key kr_block_num (filter (\<lambda>r. kr_account_id r = a \<and> in_range s m (kr_block_num r)) (db_non_fungible_updates d)) @
      sort_key kr_block_num (filter (\<lambda>r. kr_account_id r = a \<and> in_range m e (kr_block_num r)) (db_non_fungible_updates d))"
    unfolding filter_range[OF assms] by (rule sort_split) (auto simp: in_range_def)
  then show ?thesis by (simp add: select_non_fungible_updates_def)
qed

lemma merge_non_fungible_append:
  "merge_non_fungible nf_apply (xs @ ys) acc = bind_res (merge_non_fungible nf_apply xs acc) (merge_non_fungible nf_apply ys)"
proof (induction xs arbitrary: acc)
  case (Cons x xs)
  then show ?case by (cases x) (simp split: option.split)
qed simp

lemma collect_res_map:
  "collect_res f xs = Inr ys \<Longrightarrow> (\<And>x y. f x = Inr y \<Longrightarrow> y = g x) \<Longrightarrow> ys = map g xs"
  by (induction xs arbitrary: ys) (auto simp: bind_res_eq_Inr)

lemma fungible_lookup:
  assumes "select_fungible_deltas d a s e = Inr rows"
  defines "own \<equiv> \<lambda>f s e. filter (\<lambda>r. (fr_account_id r = a \<and> fr_faucet_id r = f) \<and> in_range s e (fr_block_num r)) (db_fungible_deltas d)"
  shows "map_of_rows rows f = (if own f s e = [] then None else Some (sum_list (map fr_delta (own f s e))))"
proof -
  let ?all = "filter (\<lambda>r. fr_account_id r = a \<and> in_range s e (fr_block_num r)) (db_fungible_deltas d)"
  have own: "filter (\<lambda>r. fr_faucet_id r = f) ?all = own f s e" for f
    unfolding own_def filter_filter by (rule filter_cong) auto
  have rows: "rows = map (\<lambda>f. (f, sum_list (map fr_delta (own f s e)))) (remdups (map fr_faucet_id ?all))"
    by (rule collect_res_map[OF assms(1)[unfolded select_fungible_deltas_def Let_def]])
      (auto simp: bind_res_eq_Inr own simp del: filter_filter dest!: sql_sum_Inr)
  have look: "map_of_rows rows f = Some v \<longleftrightarrow> (f, v) \<in> set rows" for v
    by (rule map_of_rows_iff) (auto simp: rows)
  have "f \<in> set (remdups (map fr_faucet_id ?all)) \<longleftrightarrow> own f s e \<noteq> []"
    by (auto simp: own_def filter_empty_conv)
  then have "map_of_rows rows f = Some v \<longleftrightarrow> own f s e \<noteq> [] \<and> v = sum_list (map fr_delta (own f s e))" for v
    unfolding look by (auto simp: rows)
  then show ?thesis by (cases "map_of_rows rows f") auto
qed

definition add_amounts :: "(account_ident \<rightharpoonup> int) \<Rightarrow> (account_ident \<rightharpoonup> int) \<Rightarrow> account_ident \<rightharpoonup> int" where
  "add_amounts m m' f = (case (m f, m' f) of (None, v) \<Rightarrow> v | (v, None) \<Rightarrow> v | (Some v, Some v') \<Rightarrow> Some (v + v'))"

lemma fungible_compose:
  assumes "s \<le> m" "m \<le> e"
    and "select_fungible_deltas d a s m = Inr x" "select_fungible_deltas d a m e = Inr y" "select_fungible_deltas d a s e = Inr z"
  shows "map_of_rows z = add_amounts (map_of_rows x) (map_of_rows y)"
proof (rule ext)
  fix f
  let ?own = "\<lambda>s e. filter (\<lambda>r. (fr_account_id r = a \<and> fr_faucet_id r = f) \<and> in_range s e (fr_block_num r)) (db_fungible_deltas d)"
  have sum: "sum_list (map fr_delta (?own s e)) = sum_list (map fr_delta (?own s m)) + sum_list (map fr_delta (?own m e))"
    by (rule sum_range[OF assms(1,2)])
  have "set (?own s e) = set (?own s m) \<union> set (?own m e)" using assms(1,2) by (auto simp: in_range_def)
  then have empty: "?own s e = [] \<longleftrightarrow> ?own s m = [] \<and> ?own m e = []" by (simp flip: set_empty)
  show "map_of_rows z f = add_amounts (map_of_rows x) (map_of_rows y) f"
    unfolding add_amounts_def fungible_lookup[OF assms(3)] fungible_lookup[OF assms(4)] fungible_lookup[OF assms(5)]
    by (cases "?own s m = []"; cases "?own m e = []") (simp_all only: empty sum, simp_all)
qed

lemma nonce_compose:
  assumes "s \<le> m" "m \<le> e"
    and "select_nonce d a s m = Inr x" "select_nonce d a m e = Inr y" "select_nonce d a s e = Inr z"
  shows "z = (case (x, y) of (None, v) \<Rightarrow> v | (v, None) \<Rightarrow> v | (Some v, Some v') \<Rightarrow> Some (v + v'))"
proof -
  let ?own = "\<lambda>s e. filter (\<lambda>r. dr_account_id r = a \<and> in_range s e (dr_block_num r)) (db_account_deltas d)"
  have look: "v = (if ?own s e = [] then None else Some (sum_list (map dr_nonce (?own s e))))" if "select_nonce d a s e = Inr v" for s e v
  proof -
    have sum: "sum_list (map (\<lambda>r. int (dr_nonce r)) rs) = int (sum_list (map dr_nonce rs))" for rs :: "delta_row list"
      by (induction rs) simp_all
    with that show ?thesis by (auto simp: select_nonce_def Let_def bind_res_eq_Inr sum split: if_splits dest!: sql_sum_Inr)
  qed
  have sum: "sum_list (map dr_nonce (?own s e)) = sum_list (map dr_nonce (?own s m)) + sum_list (map dr_nonce (?own m e))"
    by (rule sum_range[OF assms(1,2)])
  have "set (?own s e) = set (?own s m) \<union> set (?own m e)" using assms(1,2) by (auto simp: in_range_def)
  then have empty: "?own s e = [] \<longleftrightarrow> ?own s m = [] \<and> ?own m e = []" by (simp flip: set_empty)
  show ?thesis
    unfolding look[OF assms(3)] look[OF assms(4)] look[OF assms(5)]
    by (cases "?own s m = []"; cases "?own m e = []") (simp_all only: empty sum, simp_all)
qed

text \<open>A range without a nonce has no other row of the account either.\<close>

lemma no_range_rows:
  assumes "(\<lambda>r. (acct r, blk r)) ` set rows \<subseteq> keys" and "\<forall>n. (a, n) \<in> keys \<longrightarrow> \<not> in_range s e n"
  shows "filter (\<lambda>r. acct r = a \<and> in_range s e (blk r) \<and> B r) rows = []" "filter (\<lambda>r. acct r = a \<and> in_range s e (blk r)) rows = []"
proof -
  have "\<not> (acct r = a \<and> in_range s e (blk r))" if "r \<in> set rows" for r
    using assms(2) subsetD[OF assms(1) imageI[OF that]] by blast
  then show "filter (\<lambda>r. acct r = a \<and> in_range s e (blk r) \<and> B r) rows = []" "filter (\<lambda>r. acct r = a \<and> in_range s e (blk r)) rows = []"
    unfolding filter_empty_conv by blast+
qed

lemma no_delta_rows:
  assumes ok: "db_ok d" and none: "select_nonce d a s e = Inr None"
  shows "select_slot_updates d a s e = []" "select_map_updates d a s e = []" "select_fungible_deltas d a s e = Inr []"
    "select_non_fungible_updates d a s e = []"
proof -
  let ?keys = "delta_key ` set (db_account_deltas d)"
  from none have "filter (\<lambda>r. dr_account_id r = a \<and> in_range s e (dr_block_num r)) (db_account_deltas d) = []"
    by (auto simp: select_nonce_def Let_def bind_res_eq_Inr split: if_splits)
  then have no: "\<forall>n. (a, n) \<in> ?keys \<longrightarrow> \<not> in_range s e n" by (auto simp: delta_key_def filter_empty_conv)
  from ok have ref: "(\<lambda>r. (sr_account_id r, sr_block_num r)) ` set (db_slot_updates d) \<subseteq> ?keys"
    "(\<lambda>r. (mr_account_id r, mr_block_num r)) ` set (db_map_updates d) \<subseteq> ?keys"
    "(\<lambda>r. (fr_account_id r, fr_block_num r)) ` set (db_fungible_deltas d) \<subseteq> ?keys"
    "(\<lambda>r. (kr_account_id r, kr_block_num r)) ` set (db_non_fungible_updates d) \<subseteq> ?keys"
    by (simp_all add: db_ok_def references_ok_def)
  show "select_slot_updates d a s e = []" by (simp add: select_slot_updates_def no_range_rows(1)[OF ref(1) no])
  show "select_map_updates d a s e = []" by (simp add: select_map_updates_def no_range_rows(1)[OF ref(2) no])
  show "select_fungible_deltas d a s e = Inr []" by (simp add: select_fungible_deltas_def no_range_rows(2)[OF ref(3) no])
  show "select_non_fungible_updates d a s e = []" by (simp add: select_non_fungible_updates_def no_range_rows(2)[OF ref(4) no])
qed

lemma account_delta_cases:
  assumes "select_account_delta nf_apply merged_ok d a s e = Inr w"
  obtains (none) "select_nonce d a s e = Inr None" "w = None"
  | (some) n fs nf where "select_nonce d a s e = Inr (Some n)" "select_fungible_deltas d a s e = Inr fs"
      "merge_non_fungible nf_apply (select_non_fungible_updates d a s e) [] = Inr nf"
      "w = Some \<lparr>md_nonce = n, md_values = map_of_rows (select_slot_updates d a s e),
         md_maps = map_of_rows (select_map_updates d a s e), md_fungible = map_of_rows fs, md_non_fungible = nf\<rparr>"
proof -
  from assms obtain v where v: "select_nonce d a s e = Inr v" by (auto simp: select_account_delta_def bind_res_eq_Inr)
  show ?thesis
  proof (cases v)
    case None
    with assms v none show ?thesis by (simp add: select_account_delta_def)
  next
    case (Some n)
    with assms v some show ?thesis
      by (auto simp: select_account_delta_def bind_res_eq_Inr Let_def split: if_splits)
  qed
qed

lemma add_amounts_empty [simp]: "add_amounts Map.empty m = m" "add_amounts m Map.empty = m"
  by (auto simp: add_amounts_def fun_eq_iff split: option.split)

lemma map_of_rows_Nil [simp]: "map_of_rows [] = Map.empty"
  by (simp add: map_of_rows_def)

section \<open>Property\<close>

text \<open>
  C27. The account deltas of adjacent block ranges compose: the delta of \<open>(s, e]\<close> is the delta of
  \<open>(s, m]\<close> followed by the delta of \<open>(m, e]\<close>. Nonces and fungible amounts add up, the later update of
  a storage slot or map entry wins, and the non-fungible actions of the second range are merged on top
  of those of the first. A range without a delta changes nothing. So a client that applies the deltas
  one range after the other holds what one query over the whole range gives.
\<close>

theorem delta_ranges_compose:
  assumes ok: "db_ok d" and range: "s \<le> m" "m \<le> e"
    and x: "select_account_delta nf_apply merged_ok d a s m = Inr x"
    and y: "select_account_delta nf_apply merged_ok d a m e = Inr y"
    and z: "select_account_delta nf_apply merged_ok d a s e = Inr z"
  shows "case (x, y) of
      (None, None) \<Rightarrow> z = None
    | (Some x, None) \<Rightarrow> z = Some x
    | (None, Some y) \<Rightarrow> z = Some y
    | (Some x, Some y) \<Rightarrow> (\<exists>w. z = Some w \<and> md_nonce w = md_nonce x + md_nonce y
        \<and> md_values w = md_values x ++ md_values y \<and> md_maps w = md_maps x ++ md_maps y
        \<and> md_fungible w = add_amounts (md_fungible x) (md_fungible y)
        \<and> merge_non_fungible nf_apply (select_non_fungible_updates d a m e) (md_non_fungible x) = Inr (md_non_fungible w))"
proof -
  note slots = slot_updates_compose[OF ok range, of a] and maps = map_updates_compose[OF ok range, of a]
    and nf = non_fungible_updates_compose[OF range, of d a]
  show ?thesis
    using x
  proof (cases rule: account_delta_cases)
    case none
    note nx = none
    note e = no_delta_rows[OF ok none(1)]
    show ?thesis
      using y
    proof (cases rule: account_delta_cases)
      case none
      show ?thesis
        using z by (cases rule: account_delta_cases) (use nonce_compose[OF range nx(1) none(1)] nx none in auto)
    next
      case (some n fs ns)
      have nn: "select_nonce d a s e = Inr v \<Longrightarrow> v = Some n" for v using nonce_compose[OF range nx(1) some(1), of v] by simp
      have ff: "select_fungible_deltas d a s e = Inr fz \<Longrightarrow> map_of_rows fz = map_of_rows fs" for fz
        using fungible_compose[OF range e(3) some(2), of fz] by simp
      show ?thesis
        using z by (cases rule: account_delta_cases) (use nx some slots maps nf e in \<open>auto dest!: nn ff\<close>)
    qed
  next
    case (some n fs ns)
    note sx = some
    show ?thesis
      using y
    proof (cases rule: account_delta_cases)
      case none
      note e = no_delta_rows[OF ok none(1)]
      have nn: "select_nonce d a s e = Inr v \<Longrightarrow> v = Some n" for v using nonce_compose[OF range sx(1) none(1), of v] by simp
      have ff: "select_fungible_deltas d a s e = Inr fz \<Longrightarrow> map_of_rows fz = map_of_rows fs" for fz
        using fungible_compose[OF range sx(2) e(3), of fz] by simp
      show ?thesis
        using z by (cases rule: account_delta_cases) (use none sx slots maps nf e in \<open>auto dest!: nn ff\<close>)
    next
      case (some n' fs' ns')
      have nn: "select_nonce d a s e = Inr v \<Longrightarrow> v = Some (n + n')" for v using nonce_compose[OF range sx(1) some(1), of v] by simp
      have ff: "select_fungible_deltas d a s e = Inr fz \<Longrightarrow> map_of_rows fz = add_amounts (map_of_rows fs) (map_of_rows fs')" for fz
        using fungible_compose[OF range sx(2) some(2), of fz] by simp
      have mm: "merge_non_fungible nf_apply (select_non_fungible_updates d a s e) [] =
          merge_non_fungible nf_apply (select_non_fungible_updates d a m e) ns"
        unfolding nf merge_non_fungible_append sx(3) by simp
      show ?thesis
        using z by (cases rule: account_delta_cases) (use sx some slots maps mm in \<open>auto dest!: nn ff\<close>)
    qed
  qed
qed

definition sample_nf_apply :: "nf_action \<Rightarrow> digest \<Rightarrow> (digest \<times> nf_action) list \<Rightarrow> (digest \<times> nf_action) list option" where
  "sample_nf_apply action asset acc = (if (asset, action) \<in> set acc then None else Some ((asset, action) # acc))"

definition sample_delta :: "block_number \<Rightarrow> block_number \<Rightarrow> db_error + merged_delta option" where
  "sample_delta = select_account_delta sample_nf_apply (\<lambda>_. True) sample_db sample_account"

lemma sample_delta_some:
  "(case sample_delta 0 1 of Inr (Some x) \<Rightarrow> md_values x 0 = Some 5 | _ \<Rightarrow> False)"
  "(case sample_delta 1 2 of Inr (Some y) \<Rightarrow> md_values y 0 = Some 6 | _ \<Rightarrow> False)"
  "(case sample_delta 0 2 of Inr (Some w) \<Rightarrow> True | _ \<Rightarrow> False)"
  by code_simp+

theorem delta_ranges_compose_witness:
  "\<exists>x y w. sample_delta 0 1 = Inr (Some x)
     \<and> sample_delta 1 2 = Inr (Some y)
     \<and> sample_delta 0 2 = Inr (Some w)
     \<and> md_values w = md_values x ++ md_values y \<and> md_values x 0 = Some 5 \<and> md_values y 0 = Some 6"
proof -
  obtain x y w where r: "sample_delta 0 1 = Inr (Some x)"
    "sample_delta 1 2 = Inr (Some y)"
    "sample_delta 0 2 = Inr (Some w)"
    "md_values x 0 = Some 5" "md_values y 0 = Some 6"
    using sample_delta_some by (cases "sample_delta 0 1"; cases "sample_delta 1 2"; cases "sample_delta 0 2"; force split: option.splits)
  have le: "(0::block_number) \<le> 1" "(1::block_number) \<le> 2" by simp_all
  from delta_ranges_compose[OF sample_db_ok le r(1-3)[unfolded sample_delta_def]] r show ?thesis by auto
qed

end
