(* ===== verification/Store_Paging.thy ===== *)
theory Store_Paging
  imports Store_Sync
begin

text \<open>
  Paging through the unconsumed network notes: the handler of the store
  (crates/store/src/server/ntx_builder.rs) and the loop of the network transaction builder's client
  (crates/ntx-builder/src/store.rs), composed, with a database that does not change in between.

  A note travels as its metadata and its details; \<open>convert\<close> is the client's conversion into a
  network note, which ends in the library.
\<close>

datatype page_error = InvalidPageSize | PageInternal db_error | PageConversion

text \<open>The handler; \<open>None\<close> is the panic on a note without details.\<close>

definition serve_page :: "db \<Rightarrow> nat option \<Rightarrow> nat \<Rightarrow> (page_error + (note_metadata \<times> note_details) list \<times> nat option) option" where
  "serve_page d page_token page_size =
     (if page_size = 0 then Some (Inl InvalidPageSize)
      else (case unconsumed_network_notes d page_token page_size of
          Inl e \<Rightarrow> Some (Inl (PageInternal e))
        | Inr (notes, next_token) \<Rightarrow>
            (case those (map no_details notes) of
               None \<Rightarrow> None
             | Some details \<Rightarrow> Some (Inr (zip (map no_metadata notes) details, next_token)))))"

text \<open>One round of the client's loop, then the loop.\<close>

definition fetch_page :: "(note_metadata \<times> note_details \<Rightarrow> page_error + 'n) \<Rightarrow> db \<Rightarrow> nat option \<Rightarrow>
    (page_error + 'n list \<times> nat option) option" where
  "fetch_page convert d token =
     (case serve_page d token 128 of
        None \<Rightarrow> None
      | Some r \<Rightarrow> Some (bind_res r (\<lambda>(notes, next_token). bind_res (collect_res convert notes) (\<lambda>page. Inr (page, next_token)))))"

partial_function (option) fetch_pages :: "(nat option \<Rightarrow> (page_error + 'n list \<times> nat option) option) \<Rightarrow> nat option \<Rightarrow> 'n list \<Rightarrow>
    (page_error + 'n list) option" where
  "fetch_pages fetch page_token all_notes =
     (case fetch page_token of
        None \<Rightarrow> None
      | Some (Inl e) \<Rightarrow> Some (Inl e)
      | Some (Inr (page, next_token)) \<Rightarrow>
          (case next_token of
             None \<Rightarrow> Some (Inr (all_notes @ page))
           | Some tok \<Rightarrow> fetch_pages fetch (Some tok) (all_notes @ page)))"

definition get_unconsumed_network_notes :: "(note_metadata \<times> note_details \<Rightarrow> page_error + 'n) \<Rightarrow> db \<Rightarrow> (page_error + 'n list) option" where
  "get_unconsumed_network_notes convert d = fetch_pages (fetch_page convert d) None []"

section \<open>The pages\<close>

definition open_notes :: "db \<Rightarrow> note_row list" where
  "open_notes d = filter (\<lambda>r. nr_execution_mode r = 0 \<and> \<not> nr_consumed r) (db_notes d)"

definition readable :: "(note_metadata \<times> note_details \<Rightarrow> page_error + 'n) \<Rightarrow> db \<Rightarrow> (note_row \<Rightarrow> 'n) \<Rightarrow> bool" where
  "readable convert d f \<longleftrightarrow> (\<forall>r \<in> set (open_notes d). \<exists>note nd.
     note_from_row d r = Inr note \<and> no_details note = Some nd \<and> convert (no_metadata note, nd) = Inr (f r))"

lemma sorted_open_notes: "db_ok d \<Longrightarrow> sorted_wrt (\<lambda>r r'. nr_rowid r < nr_rowid r') (open_notes d)"
  unfolding open_notes_def db_ok_def rowids_ok_def by (simp add: sorted_wrt_map sorted_wrt_filter)

lemma page_rows:
  assumes ok: "db_ok d" and split: "open_notes d = before @ rest"
    and token: "before = [] \<and> token = None \<or> rest \<noteq> [] \<and> token = Some (nr_rowid (hd rest))"
  shows "sort_key nr_rowid (filter (\<lambda>r. nr_execution_mode r = 0 \<and> \<not> nr_consumed r
      \<and> nr_rowid r \<ge> (case token of None \<Rightarrow> 0 | Some t \<Rightarrow> t)) (db_notes d)) = rest"
proof -
  let ?t = "case token of None \<Rightarrow> 0 | Some t \<Rightarrow> t"
  have s: "sorted_wrt (\<lambda>r r'. nr_rowid r < nr_rowid r') (before @ rest)"
    using sorted_open_notes[OF ok] split by simp
  have "filter (\<lambda>r. nr_execution_mode r = 0 \<and> \<not> nr_consumed r \<and> nr_rowid r \<ge> ?t) (db_notes d) = filter (\<lambda>r. nr_rowid r \<ge> ?t) (open_notes d)"
    by (simp add: open_notes_def conj_commute conj_left_commute)
  also have "\<dots> = rest"
  proof -
    have "filter (\<lambda>r. nr_rowid r \<ge> ?t) before = []"
    proof (cases rest)
      case (Cons r rs)
      with s token show ?thesis by (auto simp: filter_empty_conv sorted_wrt_append not_le)
    qed (use token in simp)
    moreover have "filter (\<lambda>r. nr_rowid r \<ge> ?t) rest = rest"
      using s token by (cases rest) (auto simp: filter_id_conv sorted_wrt_append intro: less_imp_le)
    ultimately show ?thesis unfolding split by simp
  qed
  finally have f: "filter (\<lambda>r. nr_execution_mode r = 0 \<and> \<not> nr_consumed r \<and> nr_rowid r \<ge> ?t) (db_notes d) = rest" .
  have "sorted (map nr_rowid rest)"
    using s by (auto simp: sorted_wrt_append sorted_map intro: sorted_wrt_mono_rel[rotated] less_imp_le)
  then show ?thesis unfolding f by (rule sort_key_id_if_sorted)
qed

lemma those_map: "(\<And>x. x \<in> set xs \<Longrightarrow> f x = Some (g x)) \<Longrightarrow> those (map f xs) = Some (map g xs)"
  by (induction xs) auto

lemma collect_res_ex:
  "\<forall>x \<in> set xs. \<exists>y. f x = Inr y \<and> P x y \<Longrightarrow> \<exists>ys. collect_res f xs = Inr ys \<and> list_all2 P xs ys"
  by (induction xs) fastforce+

lemma fetch_page_rows:
  assumes ok: "db_ok d" and split: "open_notes d = before @ rest"
    and token: "before = [] \<and> token = None \<or> rest \<noteq> [] \<and> token = Some (nr_rowid (hd rest))"
    and readable: "readable convert d f"
  shows "fetch_page convert d token =
    Some (Inr (map f (take 128 rest), if length rest > 128 then Some (nr_rowid (rest ! 128)) else None))"
proof -
  let ?rows = "take 128 rest"
  have sub: "set ?rows \<subseteq> set (open_notes d)" using split set_take_subset[of 128 rest] by auto
  have "\<forall>r \<in> set ?rows. \<exists>y. note_from_row d r = Inr y \<and> (\<exists>nd. no_details y = Some nd \<and> convert (no_metadata y, nd) = Inr (f r))"
    using readable sub unfolding readable_def by blast
  from collect_res_ex[OF this] obtain ns where
    c: "collect_res (note_from_row d) ?rows = Inr ns"
    and each: "list_all2 (\<lambda>r y. \<exists>nd. no_details y = Some nd \<and> convert (no_metadata y, nd) = Inr (f r)) ?rows ns" by blast
  have page: "unconsumed_network_notes d token 128 =
      Inr (ns, if length rest > 128 then Some (nr_rowid (rest ! 128)) else None)"
    using c by (auto simp: unconsumed_network_notes_def page_rows[OF ok split token] Let_def min_def)
  have "\<exists>details. those (map no_details ns) = Some details \<and>
      collect_res convert (zip (map no_metadata ns) details) = Inr (map f ?rows)"
    using each by (induction rule: list_all2_induct) auto
  then show ?thesis by (auto simp: fetch_page_def serve_page_def page)
qed

lemma fetch_pages_complete:
  assumes ok: "db_ok d" and readable: "readable convert d f"
    and split: "open_notes d = before @ rest"
    and token: "before = [] \<and> token = None \<or> rest \<noteq> [] \<and> token = Some (nr_rowid (hd rest))"
  shows "fetch_pages (fetch_page convert d) token acc = Some (Inr (acc @ map f rest))"
  using split token
proof (induction "length rest" arbitrary: before rest token acc rule: less_induct)
  case less
  note page = fetch_page_rows[OF ok less.prems readable]
  show ?case
  proof (cases "length rest > 128")
    case True
    let ?rest = "drop 128 rest"
    have hd: "nr_rowid (rest ! 128) = nr_rowid (hd ?rest)" using True by (simp add: hd_drop_conv_nth)
    have "fetch_pages (fetch_page convert d) (Some (nr_rowid (hd ?rest))) (acc @ map f (take 128 rest))
        = Some (Inr ((acc @ map f (take 128 rest)) @ map f ?rest))"
      by (rule less.hyps[of ?rest "before @ take 128 rest"]) (use True less.prems(1) in auto)
    also have "(acc @ map f (take 128 rest)) @ map f ?rest = acc @ map f rest"
      by (simp flip: map_append)
    finally show ?thesis using page True hd by (subst fetch_pages.simps) simp
  next
    case False
    then show ?thesis using page by (subst fetch_pages.simps) simp
  qed
qed

section \<open>Properties\<close>

text \<open>
  C28. The client's loop over the pages of unconsumed network notes ends and returns every one of them
  exactly once, in the order they were inserted, when each can be read and converted: the token of a
  page is the row id of the first note of the next one.
\<close>

theorem paging_complete:
  assumes "db_ok d" and "readable convert d f"
  shows "get_unconsumed_network_notes convert d =
      Some (Inr (map f (filter (\<lambda>r. nr_execution_mode r = 0 \<and> \<not> nr_consumed r) (db_notes d))))
    \<and> distinct (map nr_rowid (filter (\<lambda>r. nr_execution_mode r = 0 \<and> \<not> nr_consumed r) (db_notes d)))"
proof
  show "get_unconsumed_network_notes convert d =
      Some (Inr (map f (filter (\<lambda>r. nr_execution_mode r = 0 \<and> \<not> nr_consumed r) (db_notes d))))"
    using fetch_pages_complete[OF assms, of "[]" "open_notes d" None "[]"]
    by (simp add: get_unconsumed_network_notes_def open_notes_def)
  have "sorted_wrt (<) (map nr_rowid (open_notes d))" using sorted_open_notes[OF assms(1)] by (simp add: sorted_wrt_map)
  then show "distinct (map nr_rowid (filter (\<lambda>r. nr_execution_mode r = 0 \<and> \<not> nr_consumed r) (db_notes d)))"
    unfolding open_notes_def by (rule strict_sorted_iff[THEN iffD1, THEN conjunct2])
qed

lemma sample_open:
  "filter (\<lambda>r. nr_execution_mode r = 0 \<and> \<not> nr_consumed r) (db_notes sample_db) = [note_row_of (sample_note 1) (Some 32) 1]"
  by (simp add: sample_db_def note_row_of_def sample_note_def sample_metadata_def)

theorem paging_complete_witness:
  "get_unconsumed_network_notes (\<lambda>(m, nd). Inr (nm_tag m)) sample_db = Some (Inr [7])"
proof -
  have "note_from_row sample_db (note_row_of (sample_note 1) (Some 32) 1) = Inr (sample_note 1)"
    by code_simp
  then have "readable (\<lambda>(m, nd). Inr (nm_tag m)) sample_db nr_tag"
    by (simp add: readable_def open_notes_def sample_open) (simp add: sample_note_def sample_metadata_def note_row_of_def)
  from paging_complete[OF sample_db_ok this]
  show ?thesis by (simp add: sample_open) (simp add: note_row_of_def sample_note_def sample_metadata_def)
qed

end
