(* ===== verification/Store_State.thy ===== *)
theory Store_State
  imports Store_Sample
begin

text \<open>
  The state of the store (crates/store/src/state.rs): the database, the block store and the trees kept
  in memory, the application of a block to all of them, loading them at startup and the requests that
  combine them.  A request reads one snapshot here; the locks that make it one are in
  \<open>Store_Locking\<close>.

  The trees and the chain MMR are the protocol library's.  The record \<open>trees\<close> holds the library
  functions the code calls and \<open>trees_ok\<close> what the code relies on; a Merkle proof or witness is a value
  the code only passes on.
\<close>

section \<open>The library's trees\<close>

record ('n, 'nu, 'a, 'au, 'm, 'p, 'w) trees =
  nt_block_num :: "'n \<Rightarrow> nullifier \<Rightarrow> block_number option"
  nt_root :: "'n \<Rightarrow> digest"
  nt_compute_mutations :: "'n \<Rightarrow> (nullifier \<times> block_number) list \<Rightarrow> 'nu option"
  nt_mutations_root :: "'nu \<Rightarrow> digest"
  nt_apply_mutations :: "'n \<Rightarrow> 'nu \<Rightarrow> 'n option"
  nt_with_entries :: "(nullifier \<times> block_number) list \<Rightarrow> 'n option"
  nt_open :: "'n \<Rightarrow> nullifier \<Rightarrow> 'w"
  at_get :: "'a \<Rightarrow> account_ident \<Rightarrow> digest"
  at_root :: "'a \<Rightarrow> digest"
  at_compute_mutations :: "'a \<Rightarrow> (account_ident \<times> digest) list \<Rightarrow> 'au option"
  at_mutations_root :: "'au \<Rightarrow> digest"
  at_apply_mutations :: "'a \<Rightarrow> 'au \<Rightarrow> 'a option"
  at_with_entries :: "(account_ident \<times> digest) list \<Rightarrow> 'a option"
  at_open :: "'a \<Rightarrow> account_ident \<Rightarrow> 'w"
  bc_chain_tip :: "'m \<Rightarrow> block_number option"
  bc_hash_peaks :: "'m \<Rightarrow> digest"
  bc_push :: "'m \<Rightarrow> digest \<Rightarrow> 'm"
  bc_from :: "digest list \<Rightarrow> 'm"
  bc_open :: "'m \<Rightarrow> block_number \<Rightarrow> 'w option"
  bc_delta :: "'m \<Rightarrow> nat \<Rightarrow> nat \<Rightarrow> 'w option"
  bc_partial_mmr :: "'m \<Rightarrow> block_number set \<Rightarrow> block_number \<Rightarrow> 'p option"
  pc_new :: "'p \<Rightarrow> store_header list \<Rightarrow> ('p \<times> store_header list) option"

text \<open>The empty word, the commitment of an account that is not in the tree.\<close>

definition empty_word :: digest where
  "empty_word = 0"

section \<open>Blocks and the state\<close>

text \<open>
  A proven block, with what the library computes of it: the commitment to its transactions and the
  root and the paths of its tree of output notes.
\<close>

datatype block_note =
    BlockFull note_id note_metadata note_details nullifier
  | BlockHeader note_id note_metadata
  | BlockPartial note_id note_metadata

record proven_block =
  pb_header :: store_header
  pb_tx_commitment :: digest
  pb_note_root :: digest
  pb_nullifiers :: "nullifier list"
  pb_accounts :: "block_account_update list"
  pb_transactions :: "tx_header list"
  pb_output_notes :: "((nat \<times> nat) \<times> nat \<times> block_note) list"

record ('n, 'a, 'm) inner_state =
  nullifier_tree :: 'n
  blockchain :: 'm
  account_tree :: 'a

text \<open>A file of the block store holds the block it serializes.\<close>

record ('n, 'a, 'm) store_state =
  st_db :: db
  st_blocks :: "block_number \<rightharpoonup> proven_block"
  st_inner :: "('n, 'a, 'm) inner_state"

text \<open>\<open>InnerState::latest_block_num\<close>; \<open>None\<close> is the panic of \<open>expect\<close> on an empty chain.\<close>

definition latest_block_num :: "('n, 'nu, 'a, 'au, 'm, 'p, 'w) trees \<Rightarrow> ('n, 'a, 'm) inner_state \<Rightarrow> block_number option" where
  "latest_block_num L inner = bc_chain_tip L (blockchain inner)"

section \<open>Applying a block\<close>

datatype invalid_block =
    DuplicatedNullifiers "nullifier list"
  | InvalidOutputNoteType note_id
  | InvalidBlockTxCommitment digest digest
  | NewBlockInvalidAccountRoot
  | NewBlockInvalidBlockNum block_number block_number
  | NewBlockInvalidChainCommitment
  | NewBlockInvalidNoteRoot
  | NewBlockInvalidNullifierRoot
  | NewBlockInvalidPrevCommitment
  | NewBlockNullifierAlreadySpent
  | NewBlockDuplicateAccountIdPrefix

datatype apply_block_error =
    InvalidBlockError invalid_block
  | BlockIoError
  | ClosedChannel
  | ConcurrentWrite
  | DbBlockHeaderEmpty
  | DbUpdateTaskFailed

datatype block_status = InvalidArgument apply_block_error | InternalError apply_block_error

fun apply_block_status :: "apply_block_error \<Rightarrow> block_status" where
  "apply_block_status (InvalidBlockError e) = InvalidArgument (InvalidBlockError e)"
| "apply_block_status e = InternalError e"

definition require :: "bool \<Rightarrow> invalid_block \<Rightarrow> apply_block_error + unit" where
  "require ok e = (if ok then Inr () else Inl (InvalidBlockError e))"

text \<open>The checks before the block is saved.\<close>

definition check_header :: "db \<Rightarrow> proven_block \<Rightarrow> apply_block_error + unit" where
  "check_header d block =
     (let header = pb_header block in
      bind_res (require (sh_tx_commitment header = pb_tx_commitment block)
          (InvalidBlockTxCommitment (pb_tx_commitment block) (sh_tx_commitment header))) (\<lambda>_.
      case select_block_header_by_block_num d None of
        None \<Rightarrow> Inl DbBlockHeaderEmpty
      | Some prev_block \<Rightarrow>
          bind_res (require (sh_block_num header = sh_block_num prev_block + 1)
              (NewBlockInvalidBlockNum (sh_block_num prev_block + 1) (sh_block_num header))) (\<lambda>_.
            require (sh_prev_commitment header = sh_commitment prev_block) NewBlockInvalidPrevCommitment)))"

text \<open>The updates of the trees, computed under the read lock, with the old roots.\<close>

record ('nu, 'au) tree_updates =
  tu_nullifier_old_root :: digest
  tu_nullifier :: 'nu
  tu_account_old_root :: digest
  tu_account :: 'au

definition compute_updates :: "('n, 'nu, 'a, 'au, 'm, 'p, 'w) trees \<Rightarrow> ('n, 'a, 'm) inner_state \<Rightarrow> proven_block \<Rightarrow>
    apply_block_error + ('nu, 'au) tree_updates" where
  "compute_updates L inner block =
     (let header = pb_header block;
          duplicate = filter (\<lambda>n. nt_block_num L (nullifier_tree inner) n \<noteq> None) (pb_nullifiers block)
      in bind_res (require (duplicate = []) (DuplicatedNullifiers duplicate)) (\<lambda>_.
         bind_res (require (bc_hash_peaks L (blockchain inner) = sh_chain_commitment header) NewBlockInvalidChainCommitment) (\<lambda>_.
         case nt_compute_mutations L (nullifier_tree inner) (map (\<lambda>n. (n, sh_block_num header)) (pb_nullifiers block)) of
           None \<Rightarrow> Inl (InvalidBlockError NewBlockNullifierAlreadySpent)
         | Some nullifier_update \<Rightarrow>
             bind_res (require (nt_mutations_root L nullifier_update = sh_nullifier_root header) NewBlockInvalidNullifierRoot) (\<lambda>_.
             case at_compute_mutations L (account_tree inner)
                 (map (\<lambda>u. (bu_account_id u, bu_final_commitment u)) (pb_accounts block)) of
               None \<Rightarrow> Inl (InvalidBlockError NewBlockDuplicateAccountIdPrefix)
             | Some account_update \<Rightarrow>
                 bind_res (require (at_mutations_root L account_update = sh_account_root header) NewBlockInvalidAccountRoot) (\<lambda>_.
                   Inr \<lparr>tu_nullifier_old_root = nt_root L (nullifier_tree inner), tu_nullifier = nullifier_update,
                        tu_account_old_root = at_root L (account_tree inner), tu_account = account_update\<rparr>)))))"

text \<open>The records of the block's output notes.\<close>

definition output_note_record :: "block_number \<Rightarrow> (nat \<times> nat) \<times> nat \<times> block_note \<Rightarrow>
    apply_block_error + note_record \<times> nullifier option" where
  "output_note_record n = (\<lambda>(note_index, path, note).
     let mk = (\<lambda>i metadata details. \<lparr>no_block_num = n, no_note_index = note_index, no_note_id = i, no_metadata = metadata,
           no_details = details, no_merkle_path = path\<rparr>)
     in (case note of
           BlockFull i metadata details k \<Rightarrow> Inr (mk i metadata (Some details), Some k)
         | BlockHeader i metadata \<Rightarrow> Inr (mk i metadata None, None)
         | BlockPartial i metadata \<Rightarrow> Inl (InvalidBlockError (InvalidOutputNoteType i))))"

definition block_notes :: "proven_block \<Rightarrow> apply_block_error + (note_record \<times> nullifier option) list" where
  "block_notes block =
     bind_res (require (pb_note_root block = sh_note_root (pb_header block)) NewBlockInvalidNoteRoot) (\<lambda>_.
       collect_res (output_note_record (sh_block_num (pb_header block))) (pb_output_notes block))"

text \<open>
  The in-memory part, under the write lock: the trees must not have changed, the database commits, and
  the update applies; a failure to apply it is the panic of \<open>expect\<close>.
\<close>

definition update_inner :: "('n, 'nu, 'a, 'au, 'm, 'p, 'w) trees \<Rightarrow> ('nu, 'au) tree_updates \<Rightarrow> digest \<Rightarrow>
    ('n, 'a, 'm) inner_state \<Rightarrow> ('n, 'a, 'm) inner_state option" where
  "update_inner L u commitment inner =
     Option.bind (nt_apply_mutations L (nullifier_tree inner) (tu_nullifier u)) (\<lambda>n.
     Option.bind (at_apply_mutations L (account_tree inner) (tu_account u)) (\<lambda>a.
       Some \<lparr>nullifier_tree = n, blockchain = bc_push L (blockchain inner) commitment, account_tree = a\<rparr>))"

definition roots_changed :: "('n, 'nu, 'a, 'au, 'm, 'p, 'w) trees \<Rightarrow> ('nu, 'au) tree_updates \<Rightarrow> ('n, 'a, 'm) inner_state \<Rightarrow> bool" where
  "roots_changed L u inner \<longleftrightarrow>
     nt_root L (nullifier_tree inner) \<noteq> tu_nullifier_old_root u \<or> at_root L (account_tree inner) \<noteq> tu_account_old_root u"

text \<open>
  The parameters of the database's statements, and how the outside world behaves while the block is
  applied: whether no other writer holds the lock, whether the block's file can be written and whether
  the transaction can be committed.
\<close>

record block_params =
  bp_apply_delta :: "db_account \<Rightarrow> db_delta \<Rightarrow> db_account option"
  bp_delta_ok :: "db_delta \<Rightarrow> bool"
  bp_most_significant_felt :: "nullifier \<Rightarrow> 64 word"

record block_world =
  bw_writer_free :: bool
  bw_save_ok :: bool
  bw_commit_ok :: bool

definition write_block :: "block_params \<Rightarrow> proven_block \<Rightarrow> (note_record \<times> nullifier option) list \<Rightarrow> statement" where
  "write_block P block notes =
     sql_apply_block (bp_apply_delta P) (bp_delta_ok P) (bp_most_significant_felt P) (pb_header block) notes
       (pb_nullifiers block) (pb_accounts block) (pb_transactions block)"

text \<open>
  \<open>State::apply_block\<close>.  The task that saves the block runs on when a later check fails.  An error
  of the database before its transaction is ready closes the channel the caller waits on; without the
  signal to commit the transaction is rolled back.
\<close>

definition finish_block :: "('n, 'nu, 'a, 'au, 'm, 'p, 'w) trees \<Rightarrow> block_params \<Rightarrow> block_world \<Rightarrow> proven_block \<Rightarrow>
    ('n, 'a, 'm) store_state \<Rightarrow> (('n, 'a, 'm) store_state, apply_block_error, unit) outcome" where
  "finish_block L P W block s =
     (case bind_res (compute_updates L (st_inner s) block) (\<lambda>u. bind_res (block_notes block) (\<lambda>records. Inr (u, records))) of
        Inl e \<Rightarrow> Err s e
      | Inr (u, records) \<Rightarrow>
          (case write_block P block records (st_db s) of
             Inl e \<Rightarrow> Err s ClosedChannel
           | Inr (d, _) \<Rightarrow>
               if \<not> bw_save_ok W then Err s BlockIoError
               else if roots_changed L u (st_inner s) then Err s ConcurrentWrite
               else if \<not> bw_commit_ok W then Err s DbUpdateTaskFailed
               else (case update_inner L u (sh_commitment (pb_header block)) (st_inner s) of
                   None \<Rightarrow> Panic
                 | Some inner \<Rightarrow> Ok (s\<lparr>st_db := d, st_inner := inner\<rparr>) ())))"

definition apply_block :: "('n, 'nu, 'a, 'au, 'm, 'p, 'w) trees \<Rightarrow> block_params \<Rightarrow> block_world \<Rightarrow> proven_block \<Rightarrow>
    ('n, 'a, 'm) store_state \<Rightarrow> (('n, 'a, 'm) store_state, apply_block_error, unit) outcome" where
  "apply_block L P W block s =
     (if \<not> bw_writer_free W then Err s ConcurrentWrite
      else (case check_header (st_db s) block of
        Inl e \<Rightarrow> Err s e
      | Inr _ \<Rightarrow> finish_block L P W block
          (if bw_save_ok W then s\<lparr>st_blocks := (st_blocks s)(sh_block_num (pb_header block) \<mapsto> block)\<rparr> else s)))"

section \<open>Starting the store\<close>

text \<open>\<open>Db::bootstrap\<close> and \<open>BlockStore::bootstrap\<close> write the genesis block.\<close>

definition bootstrap :: "block_params \<Rightarrow> proven_block \<Rightarrow> (db_error + db) \<times> (block_number \<rightharpoonup> proven_block)" where
  "bootstrap P genesis =
     (bind_res (sql_apply_block (bp_apply_delta P) (bp_delta_ok P) (bp_most_significant_felt P) (pb_header genesis) []
         [] (pb_accounts genesis) (pb_transactions genesis) db_empty) (\<lambda>(d, _). Inr d),
      [0 \<mapsto> genesis])"

datatype state_init_error = FailedToCreateNullifierTree | FailedToCreateAccountsTree

definition load_nullifier_tree :: "('n, 'nu, 'a, 'au, 'm, 'p, 'w) trees \<Rightarrow> db \<Rightarrow> state_init_error + 'n" where
  "load_nullifier_tree L d =
     (case nt_with_entries L (map (\<lambda>i. (ni_nullifier i, ni_block_num i)) (select_all_nullifiers d)) of
        None \<Rightarrow> Inl FailedToCreateNullifierTree | Some t \<Rightarrow> Inr t)"

definition load_mmr :: "('n, 'nu, 'a, 'au, 'm, 'p, 'w) trees \<Rightarrow> db \<Rightarrow> 'm" where
  "load_mmr L d = bc_from L (map sh_commitment (select_all_block_headers d))"

definition load_accounts :: "('n, 'nu, 'a, 'au, 'm, 'p, 'w) trees \<Rightarrow> db \<Rightarrow> state_init_error + 'a" where
  "load_accounts L d =
     (case at_with_entries L (select_all_account_commitments d) of None \<Rightarrow> Inl FailedToCreateAccountsTree | Some t \<Rightarrow> Inr t)"

definition load :: "('n, 'nu, 'a, 'au, 'm, 'p, 'w) trees \<Rightarrow> db \<Rightarrow> (block_number \<rightharpoonup> proven_block) \<Rightarrow>
    state_init_error + ('n, 'a, 'm) store_state" where
  "load L d blocks =
     bind_res (load_nullifier_tree L d) (\<lambda>n. bind_res (load_accounts L d) (\<lambda>a.
       Inr \<lparr>st_db = d, st_blocks = blocks,
            st_inner = \<lparr>nullifier_tree = n, blockchain = load_mmr L d, account_tree = a\<rparr>\<rparr>))"

definition load_block :: "('n, 'nu, 'a, 'au, 'm, 'p, 'w) trees \<Rightarrow> ('n, 'a, 'm) store_state \<Rightarrow> block_number \<Rightarrow> proven_block option option" where
  "load_block L s n =
     (case latest_block_num L (st_inner s) of
        None \<Rightarrow> None
      | Some latest \<Rightarrow> Some (if n > latest then None else st_blocks s n))"

end
