(* ===== verification/Store_Effect.thy ===== *)
theory Store_Effect
  imports Store_State
begin

text \<open>
  What applying a block writes: the effect of \<open>sql_apply_block\<close> on the block headers, the accounts and
  the nullifiers, which the trees in memory mirror.
\<close>

section \<open>Statements that leave the mirrored tables alone\<close>

definition same_core :: "db \<Rightarrow> db \<Rightarrow> bool" where
  "same_core d d' \<longleftrightarrow> db_block_headers d' = db_block_headers d \<and> db_accounts d' = db_accounts d \<and> db_nullifiers d' = db_nullifiers d"

lemma same_core_refl [simp]: "same_core d d"
  by (simp add: same_core_def)

lemma core_delta_row: "preserves (same_core d) (insert_delta_row a b nonce)"
  by (rule preservesI) (auto simp: insert_delta_row_def same_core_def bind_res_eq_Inr split: if_splits)

lemma core_slot: "preserves (same_core d) (insert_slot_update a b x)"
  by (rule preservesI) (auto simp: insert_slot_update_def same_core_def bind_res_eq_Inr split_def)

lemma core_map: "preserves (same_core d) (insert_map_update a b slot x)"
  by (rule preservesI) (auto simp: insert_map_update_def same_core_def bind_res_eq_Inr split_def)

lemma core_fungible: "preserves (same_core d) (insert_fungible_delta a b x)"
  by (rule preservesI) (auto simp: insert_fungible_delta_def same_core_def bind_res_eq_Inr split_def)

lemma core_non_fungible: "preserves (same_core d) (insert_non_fungible_update a b x)"
  by (rule preservesI) (auto simp: insert_non_fungible_update_def same_core_def bind_res_eq_Inr split_def)

lemma core_account_delta: "preserves (same_core d) (insert_account_delta a b delta)"
  by (intro insert_account_delta_preserves core_delta_row core_slot core_map core_fungible core_non_fungible)

lemma core_note: "preserves (same_core d) (insert_note x)"
  by (rule preservesI) (auto simp: same_core_def dest!: insert_note_Inr(1))

lemma core_script: "preserves (same_core d) (insert_script x)"
  by (rule preservesI) (auto simp: same_core_def dest!: insert_script_Inr)

lemma core_transaction: "preserves (same_core d) (insert_transaction_row b x)"
  by (rule preservesI) (auto simp: insert_transaction_row_def same_core_def bind_res_eq_Inr)

lemma core_mark_consumed: "preserves (same_core d) (mark_consumed ns)"
  by (rule preservesI) (auto simp: mark_consumed_def same_core_def Let_def)

lemma core_middle:
  "preserves (same_core d) (insert_scripts notes)" "preserves (same_core d) (insert_notes xs)" "preserves (same_core d) (insert_transactions b txs)"
  unfolding insert_scripts_def insert_notes_def insert_transactions_def
  by (intro preserves_each core_script core_note core_transaction)+

section \<open>Accounts\<close>

definition commitments :: "db \<Rightarrow> account_ident \<rightharpoonup> digest" where
  "commitments d = map_of (map (\<lambda>r. (ar_account_id r, ar_commitment r)) (db_accounts d))"

lemma commitments_replace:
  "map_of (map (\<lambda>r. (ar_account_id r, ar_commitment r)) (replace_row ar_account_id r rows)) =
     (map_of (map (\<lambda>r. (ar_account_id r, ar_commitment r)) rows))(ar_account_id r \<mapsto> ar_commitment r)"
proof (induction rows)
  case (Cons q rows)
  then show ?case by (auto simp: replace_row_def fun_eq_iff)
qed (simp add: replace_row_def)

lemma upsert_account_effect:
  assumes "upsert_account apply_delta delta_ok b u d = Inr (d', n)"
  shows "commitments d' = (commitments d)(bu_account_id u \<mapsto> bu_final_commitment u)"
    "accounts_of d' = insert (bu_account_id u) (accounts_of d)"
    "db_block_headers d' = db_block_headers d" "db_nullifiers d' = db_nullifiers d"
    "ar_commitment ` set (db_accounts d') \<subseteq> insert (bu_final_commitment u) (ar_commitment ` set (db_accounts d))"
proof -
  from assms obtain r d1 where r: "ar_account_id r = bu_account_id u" "ar_commitment r = bu_final_commitment u"
    and d1: "d1 = d\<lparr>db_accounts := replace_row ar_account_id r (db_accounts d)\<rparr>"
    and d': "d' = d1 \<or> (\<exists>delta m. insert_account_delta (bu_account_id u) b delta d1 = Inr (d', m))"
    by (rule upsert_account_cases) blast
  from d' have "same_core d1 d'"
  proof (elim disjE exE)
    fix delta m assume "insert_account_delta (bu_account_id u) b delta d1 = Inr (d', m)"
    then show "same_core d1 d'" by (rule preservesD[OF core_account_delta same_core_refl])
  qed simp
  then have acc: "db_accounts d' = replace_row ar_account_id r (db_accounts d)"
    and rest: "db_block_headers d' = db_block_headers d" "db_nullifiers d' = db_nullifiers d"
    by (simp_all add: same_core_def d1)
  show "commitments d' = (commitments d)(bu_account_id u \<mapsto> bu_final_commitment u)"
    by (simp add: commitments_def acc commitments_replace r)
  show "accounts_of d' = insert (bu_account_id u) (accounts_of d)"
    by (simp add: accounts_of_def acc replace_row_keys r)
  show "ar_commitment ` set (db_accounts d') \<subseteq> insert (bu_final_commitment u) (ar_commitment ` set (db_accounts d))"
    using r by (auto simp: acc set_replace_row)
  show "db_block_headers d' = db_block_headers d" "db_nullifiers d' = db_nullifiers d" by (fact rest)+
qed

text \<open>The commitments of the updates, the last update of an account winning.\<close>

definition update_commitments :: "block_account_update list \<Rightarrow> account_ident \<rightharpoonup> digest" where
  "update_commitments us = map_of (rev (map (\<lambda>u. (bu_account_id u, bu_final_commitment u)) us))"

lemma upsert_accounts_effect:
  assumes "upsert_accounts apply_delta delta_ok us b d = Inr (d', n)"
  shows "commitments d' = commitments d ++ update_commitments us"
    "accounts_of d' = accounts_of d \<union> bu_account_id ` set us"
    "db_block_headers d' = db_block_headers d" "db_nullifiers d' = db_nullifiers d"
    "ar_commitment ` set (db_accounts d') \<subseteq> bu_final_commitment ` set us \<union> ar_commitment ` set (db_accounts d)"
proof -
  have "commitments d' = commitments d ++ update_commitments us \<and> accounts_of d' = accounts_of d \<union> bu_account_id ` set us
      \<and> db_block_headers d' = db_block_headers d \<and> db_nullifiers d' = db_nullifiers d
      \<and> ar_commitment ` set (db_accounts d') \<subseteq> bu_final_commitment ` set us \<union> ar_commitment ` set (db_accounts d)"
    using assms[unfolded upsert_accounts_def]
  proof (induction us arbitrary: d n)
    case (Cons u us)
    from Cons.prems obtain d1 m k where s: "upsert_account apply_delta delta_ok b u d = Inr (d1, m)"
      and rest: "write_each (upsert_account apply_delta delta_ok b) us d1 = Inr (d', k)" by (auto simp: and_write_Inr)
    note e = upsert_account_effect[OF s]
    have tail: "m(k \<mapsto> v) ++ update_commitments us = m ++ update_commitments (u # us)"
      if "k = bu_account_id u" "v = bu_final_commitment u" for m k v
      using that by (simp add: update_commitments_def)
    note ih = Cons.IH[OF rest]
    have "commitments d' = commitments d ++ update_commitments (u # us)"
      using ih by (simp only: e(1) tail[OF refl refl])
    moreover have "accounts_of d' = accounts_of d \<union> bu_account_id ` set (u # us)" using ih by (simp add: e(2))
    moreover have "ar_commitment ` set (db_accounts d') \<subseteq> bu_final_commitment ` set us \<union> ar_commitment ` set (db_accounts d1)"
      using ih by blast
    then have "ar_commitment ` set (db_accounts d') \<subseteq> bu_final_commitment ` set (u # us) \<union> ar_commitment ` set (db_accounts d)"
      using e(5) unfolding list.set(2) image_insert by blast
    ultimately show ?case using ih e(3,4) by simp
  qed (simp add: update_commitments_def)
  then show "commitments d' = commitments d ++ update_commitments us"
    "accounts_of d' = accounts_of d \<union> bu_account_id ` set us"
    "db_block_headers d' = db_block_headers d" "db_nullifiers d' = db_nullifiers d"
    "ar_commitment ` set (db_accounts d') \<subseteq> bu_final_commitment ` set us \<union> ar_commitment ` set (db_accounts d)"
    by blast+
qed

section \<open>Nullifiers\<close>

definition nullifier_rows :: "(nullifier \<Rightarrow> 64 word) \<Rightarrow> block_number \<Rightarrow> nullifier list \<Rightarrow> nullifier_row list" where
  "nullifier_rows msf b ns = map (\<lambda>k. \<lparr>ur_nullifier = k, ur_prefix = get_nullifier_prefix msf k, ur_block_num = b\<rparr>) ns"

lemma insert_nullifier_rows_effect:
  "write_each (insert_nullifier_row msf b) ns d = Inr (d', n) \<Longrightarrow>
     d' = d\<lparr>db_nullifiers := db_nullifiers d @ nullifier_rows msf b ns\<rparr>"
proof (induction ns arbitrary: d n)
  case (Cons k ns)
  from Cons.prems obtain d1 m i where s: "insert_nullifier_row msf b k d = Inr (d1, m)"
    and rest: "write_each (insert_nullifier_row msf b) ns d1 = Inr (d', i)" by (auto simp: and_write_Inr)
  from s have "d1 = d\<lparr>db_nullifiers := db_nullifiers d @ nullifier_rows msf b [k]\<rparr>"
    by (auto simp: insert_nullifier_row_def nullifier_rows_def row_Inr Let_def split: if_splits)
  with Cons.IH[OF rest] show ?case by (simp add: nullifier_rows_def)
qed (simp add: nullifier_rows_def)

lemma insert_nullifiers_effect:
  assumes "insert_nullifiers_for_block msf ns b d = Inr (d', n)"
  shows "db_nullifiers d' = db_nullifiers d @ nullifier_rows msf b ns" "db_block_headers d' = db_block_headers d"
    "db_accounts d' = db_accounts d" "length ns \<le> 1000"
proof -
  from assms obtain d1 m k where lim: "nullifier_limit (length ns) = Inr ()" and m: "mark_consumed ns d = Inr (d1, m)"
    and w: "write_each (insert_nullifier_row msf b) ns d1 = Inr (d', k)"
    unfolding insert_nullifiers_for_block_def by (auto simp: bind_res_eq_Inr and_write_Inr)
  from m have "same_core d d1" by (rule preservesD[OF core_mark_consumed same_core_refl])
  with insert_nullifier_rows_effect[OF w]
  show "db_nullifiers d' = db_nullifiers d @ nullifier_rows msf b ns" "db_block_headers d' = db_block_headers d"
    "db_accounts d' = db_accounts d" by (simp_all add: same_core_def)
  from lim show "length ns \<le> 1000" by (simp add: nullifier_limit_def limit_check_def split: if_splits)
qed

section \<open>A block\<close>

lemma sql_apply_block_effect:
  assumes "sql_apply_block apply_delta delta_ok msf h notes ns us txs d = Inr (d', n)"
  shows "db_block_headers d' = db_block_headers d @ [h]"
    "commitments d' = commitments d ++ update_commitments us"
    "accounts_of d' = accounts_of d \<union> bu_account_id ` set us"
    "ar_commitment ` set (db_accounts d') \<subseteq> bu_final_commitment ` set us \<union> ar_commitment ` set (db_accounts d)"
    "db_nullifiers d' = db_nullifiers d @ nullifier_rows msf (sh_block_num h) ns" "length ns \<le> 1000"
proof -
  from assms obtain d1 d2 d3 d4 d5 i1 i2 i3 i4 i5 i6 where
    w1: "insert_block_header h d = Inr (d1, i1)" and w2: "upsert_accounts apply_delta delta_ok us (sh_block_num h) d1 = Inr (d2, i2)"
    and w3: "insert_scripts (map fst notes) d2 = Inr (d3, i3)" and w4: "insert_notes notes d3 = Inr (d4, i4)"
    and w5: "insert_transactions (sh_block_num h) txs d4 = Inr (d5, i5)"
    and w6: "insert_nullifiers_for_block msf ns (sh_block_num h) d5 = Inr (d', i6)"
    unfolding sql_apply_block_def and_write_Inr by blast
  have d1: "d1 = d\<lparr>db_block_headers := db_block_headers d @ [h]\<rparr>" using w1 by (simp add: insert_block_header_def row_Inr)
  have "same_core d2 d5"
    using preservesD[OF core_middle(3) preservesD[OF core_middle(2) preservesD[OF core_middle(1) same_core_refl w3] w4] w5] .
  then have mid: "db_block_headers d5 = db_block_headers d2" "db_accounts d5 = db_accounts d2" "db_nullifiers d5 = db_nullifiers d2"
    by (simp_all add: same_core_def)
  note a = upsert_accounts_effect[OF w2] and k = insert_nullifiers_effect[OF w6]
  show "db_block_headers d' = db_block_headers d @ [h]" using a(3) k(2) mid(1) by (simp add: d1)
  show "db_nullifiers d' = db_nullifiers d @ nullifier_rows msf (sh_block_num h) ns" using a(4) k(1) mid(3) by (simp add: d1)
  show "length ns \<le> 1000" by (fact k(4))
  have acc: "db_accounts d' = db_accounts d2" using k(3) mid(2) by simp
  show "commitments d' = commitments d ++ update_commitments us" using a(1) by (simp add: commitments_def acc d1)
  show "accounts_of d' = accounts_of d \<union> bu_account_id ` set us" using a(2) by (simp add: accounts_of_def acc d1)
  show "ar_commitment ` set (db_accounts d') \<subseteq> bu_final_commitment ` set us \<union> ar_commitment ` set (db_accounts d)"
    using a(5) by (simp add: acc d1)
qed

end
