(* ===== verification/Store_Consistency.thy ===== *)
theory Store_Consistency
  imports Store_Effect
begin

text \<open>
  The consistency of the store: the trees in memory mirror the database, every header of the chain has
  its block in the block store, and applying a block keeps this or changes nothing.
\<close>

section \<open>What the library's trees promise\<close>

text \<open>
  Nullifiers: applied mutations add the entries and nothing else, and a tree can be built from entries
  without duplicates.  Accounts: the same for commitments, with the check that identifier prefixes stay
  unique.  Blocks: a chain is the list of its commitments, and a partial MMR for blocks below the
  checkpoint takes the headers of exactly these blocks.
\<close>

definition nullifier_tree_ok :: "('n, 'nu, 'a, 'au, 'm, 'p, 'w) trees \<Rightarrow> bool" where
  "nullifier_tree_ok L \<longleftrightarrow>
     (\<forall>t ns b u. 0 < b \<longrightarrow> nt_compute_mutations L t (map (\<lambda>n. (n, b)) ns) = Some u \<longrightarrow>
        (\<exists>t'. nt_apply_mutations L t u = Some t'
           \<and> (\<forall>k. nt_block_num L t' k = (if k \<in> set ns then Some b else nt_block_num L t k))))
     \<and> (\<forall>es. distinct (map fst es) \<longrightarrow> (\<forall>e \<in> set es. 0 < snd e) \<longrightarrow>
        (\<exists>t. nt_with_entries L es = Some t \<and> nt_block_num L t = map_of es))"

definition known_accounts :: "('n, 'nu, 'a, 'au, 'm, 'p, 'w) trees \<Rightarrow> 'a \<Rightarrow> account_ident set" where
  "known_accounts L t = {a. at_get L t a \<noteq> empty_word}"

definition account_tree_ok :: "('n, 'nu, 'a, 'au, 'm, 'p, 'w) trees \<Rightarrow> bool" where
  "account_tree_ok L \<longleftrightarrow>
     (\<forall>t es u. distinct (map fst es) \<longrightarrow> at_compute_mutations L t es = Some u \<longrightarrow>
        (\<exists>t'. at_apply_mutations L t u = Some t'
           \<and> (\<forall>a. at_get L t' a = (case map_of es a of Some c \<Rightarrow> c | None \<Rightarrow> at_get L t a)))
        \<and> (inj_on ident_prefix (known_accounts L t) \<longrightarrow> inj_on ident_prefix (known_accounts L t \<union> fst ` set es)))
     \<and> (\<forall>es. distinct (map fst es) \<longrightarrow> inj_on ident_prefix (fst ` set es) \<longrightarrow>
        (\<exists>t. at_with_entries L es = Some t
           \<and> (\<forall>a. at_get L t a = (case map_of es a of Some c \<Rightarrow> c | None \<Rightarrow> empty_word))))"

definition blockchain_ok :: "('n, 'nu, 'a, 'au, 'm, 'p, 'w) trees \<Rightarrow> bool" where
  "blockchain_ok L \<longleftrightarrow>
     (\<forall>cs c. bc_push L (bc_from L cs) c = bc_from L (cs @ [c]))
     \<and> (\<forall>cs. bc_chain_tip L (bc_from L cs) = (if cs = [] then None else Some (length cs - 1)))
     \<and> (\<forall>cs blocks n. n < length cs \<longrightarrow> (\<forall>b \<in> blocks. b < n) \<longrightarrow>
        (\<exists>p. bc_partial_mmr L (bc_from L cs) blocks n = Some p
           \<and> (\<forall>hs. distinct (map sh_block_num hs) \<longrightarrow> sh_block_num ` set hs = blocks \<longrightarrow> pc_new L p hs = Some (p, hs))))"

definition trees_ok :: "('n, 'nu, 'a, 'au, 'm, 'p, 'w) trees \<Rightarrow> bool" where
  "trees_ok L \<longleftrightarrow> nullifier_tree_ok L \<and> account_tree_ok L \<and> blockchain_ok L"

section \<open>Consistency\<close>

definition chain_ok :: "db \<Rightarrow> bool" where
  "chain_ok d \<longleftrightarrow> db_ok d \<and> db_block_headers d \<noteq> []
     \<and> map sh_block_num (db_block_headers d) = [0..<length (db_block_headers d)]
     \<and> (\<forall>i. Suc i < length (db_block_headers d) \<longrightarrow>
          sh_prev_commitment (db_block_headers d ! Suc i) = sh_commitment (db_block_headers d ! i))
     \<and> inj_on ident_prefix (accounts_of d) \<and> empty_word \<notin> ar_commitment ` set (db_accounts d)
     \<and> 0 \<notin> ur_block_num ` set (db_nullifiers d)"

definition spent_at :: "db \<Rightarrow> nullifier \<rightharpoonup> block_number" where
  "spent_at d = map_of (map (\<lambda>r. (ur_nullifier r, ur_block_num r)) (db_nullifiers d))"

definition mirrors :: "('n, 'nu, 'a, 'au, 'm, 'p, 'w) trees \<Rightarrow> db \<Rightarrow> ('n, 'a, 'm) inner_state \<Rightarrow> bool" where
  "mirrors L d inner \<longleftrightarrow>
     blockchain inner = bc_from L (map sh_commitment (db_block_headers d))
     \<and> nt_block_num L (nullifier_tree inner) = spent_at d
     \<and> (\<forall>a. at_get L (account_tree inner) a = (case commitments d a of Some c \<Rightarrow> c | None \<Rightarrow> empty_word))"

definition blocks_stored :: "db \<Rightarrow> (block_number \<rightharpoonup> proven_block) \<Rightarrow> bool" where
  "blocks_stored d blocks \<longleftrightarrow> (\<forall>h \<in> set (db_block_headers d). \<exists>b. blocks (sh_block_num h) = Some b \<and> pb_header b = h)"

definition consistent :: "('n, 'nu, 'a, 'au, 'm, 'p, 'w) trees \<Rightarrow> ('n, 'a, 'm) store_state \<Rightarrow> bool" where
  "consistent L s \<longleftrightarrow> chain_ok (st_db s) \<and> mirrors L (st_db s) (st_inner s) \<and> blocks_stored (st_db s) (st_blocks s)"

text \<open>What a proven block promises: one update per account, to a state that is not the empty word.\<close>

definition block_wf :: "proven_block \<Rightarrow> bool" where
  "block_wf block \<longleftrightarrow> distinct (map bu_account_id (pb_accounts block)) \<and> empty_word \<notin> bu_final_commitment ` set (pb_accounts block)"

section \<open>The chain in the database\<close>

lemma chain_tip_header:
  assumes ok: "chain_ok d"
  shows "select_block_header_by_block_num d None = Some (last (db_block_headers d))"
    and "sh_block_num (last (db_block_headers d)) = length (db_block_headers d) - 1"
proof -
  let ?hs = "db_block_headers d"
  from ok have nums: "map sh_block_num ?hs = [0..<length ?hs]" and ne: "?hs \<noteq> []" by (simp_all add: chain_ok_def)
  have "sort_key sh_block_num ?hs = ?hs" by (rule sort_key_id_if_sorted) (simp add: nums)
  then show "select_block_header_by_block_num d None = Some (last ?hs)"
    using ne by (cases ?hs rule: rev_cases) (simp_all add: select_block_header_by_block_num_def)
  have "sh_block_num (last ?hs) = last (map sh_block_num ?hs)" using ne by (simp add: last_map)
  also have "\<dots> = length ?hs - 1" unfolding nums using ne by (simp add: last_conv_nth)
  finally show "sh_block_num (last ?hs) = length ?hs - 1" .
qed

lemma sorted_headers: "chain_ok d \<Longrightarrow> select_all_block_headers d = db_block_headers d"
  unfolding select_all_block_headers_def by (rule sort_key_id_if_sorted) (simp add: chain_ok_def)

lemma known_accounts_mirror:
  assumes "chain_ok d" "mirrors L d inner"
  shows "known_accounts L (account_tree inner) = accounts_of d"
proof -
  have nz: "commitments d a = None \<or> (\<exists>c. commitments d a = Some c \<and> c \<noteq> empty_word)" for a
    using assms(1) by (cases "commitments d a") (auto simp: chain_ok_def commitments_def dest!: map_of_SomeD)
  have "at_get L (account_tree inner) a \<noteq> empty_word \<longleftrightarrow> commitments d a \<noteq> None" for a
    using assms(2) nz[of a] by (auto simp: mirrors_def)
  moreover have "commitments d a \<noteq> None \<longleftrightarrow> a \<in> accounts_of d" for a
    by (auto simp: commitments_def accounts_of_def map_of_eq_None_iff image_image)
  ultimately show ?thesis by (auto simp: known_accounts_def)
qed

lemma update_commitments_distinct:
  "distinct (map bu_account_id us) \<Longrightarrow>
     update_commitments us = map_of (map (\<lambda>u. (bu_account_id u, bu_final_commitment u)) us)"
  unfolding update_commitments_def by (subst map_of_inject_set) (simp_all add: comp_def flip: rev_map)

section \<open>A new block keeps the chain\<close>

lemma chain_ok_extend:
  assumes ok: "chain_ok d" and run: "sql_apply_block apply_delta delta_ok msf h notes ns us txs d = Inr (d', n)"
    and num: "sh_block_num h = length (db_block_headers d)" and prev: "sh_prev_commitment h = sh_commitment (last (db_block_headers d))"
    and prefixes: "inj_on ident_prefix (accounts_of d \<union> bu_account_id ` set us)" and nz: "empty_word \<notin> bu_final_commitment ` set us"
  shows "chain_ok d'"
proof -
  note e = sql_apply_block_effect[OF run]
  let ?hs = "db_block_headers d"
  from ok have ne: "?hs \<noteq> []" and nums: "map sh_block_num ?hs = [0..<length ?hs]"
    and links: "\<forall>i. Suc i < length ?hs \<longrightarrow> sh_prev_commitment (?hs ! Suc i) = sh_commitment (?hs ! i)"
    by (simp_all add: chain_ok_def)
  have "db_ok d'" using preservesD[OF sql_apply_block_ok _ run] ok by (simp add: chain_ok_def)
  moreover have "map sh_block_num (?hs @ [h]) = [0..<length (?hs @ [h])]" using nums num by simp
  moreover have "sh_prev_commitment ((?hs @ [h]) ! Suc i) = sh_commitment ((?hs @ [h]) ! i)" if "Suc i < length (?hs @ [h])" for i
  proof (cases "Suc i = length ?hs")
    case True
    then have "i = length ?hs - 1" "i < length ?hs" by simp_all
    then show ?thesis using True prev ne by (simp add: nth_append last_conv_nth)
  next
    case False
    with that have "Suc i < length ?hs" by simp
    with links show ?thesis by (simp add: nth_append)
  qed
  moreover have "empty_word \<notin> ar_commitment ` set (db_accounts d')"
    using e(4) nz ok unfolding chain_ok_def by blast
  moreover have "0 \<notin> ur_block_num ` set (db_nullifiers d')"
    using ok num ne by (auto simp: e(5) chain_ok_def nullifier_rows_def)
  ultimately show ?thesis using prefixes by (simp add: chain_ok_def e(1,3))
qed

end
