(* ===== verification/Store_Apply.thy ===== *)
theory Store_Apply
  imports Store_Consistency
begin

text \<open>
  Applying a block to the store is all or nothing, and a store loaded from its database is the store
  that wrote it.
\<close>

section \<open>The checks\<close>

lemma require_Inr: "require ok e = Inr x \<longleftrightarrow> ok"
  by (cases x) (simp add: require_def)

lemma check_header_Inr:
  assumes "chain_ok d" "check_header d block = Inr x"
  shows "sh_block_num (pb_header block) = length (db_block_headers d)"
    "sh_prev_commitment (pb_header block) = sh_commitment (last (db_block_headers d))"
proof -
  have "db_block_headers d \<noteq> []" using assms(1) by (simp add: chain_ok_def)
  then show "sh_block_num (pb_header block) = length (db_block_headers d)"
    "sh_prev_commitment (pb_header block) = sh_commitment (last (db_block_headers d))"
    using assms(2) by (auto simp: check_header_def chain_tip_header[OF assms(1)] Let_def bind_res_eq_Inr require_Inr)
qed

lemma compute_updates_Inr:
  assumes "compute_updates L inner block = Inr u"
  shows "k \<in> set (pb_nullifiers block) \<Longrightarrow> nt_block_num L (nullifier_tree inner) k = None"
    "nt_compute_mutations L (nullifier_tree inner) (map (\<lambda>n. (n, sh_block_num (pb_header block))) (pb_nullifiers block)) = Some (tu_nullifier u)"
    "at_compute_mutations L (account_tree inner) (map (\<lambda>u. (bu_account_id u, bu_final_commitment u)) (pb_accounts block)) = Some (tu_account u)"
    "\<not> roots_changed L u inner"
  using assms by (auto simp: compute_updates_def Let_def bind_res_eq_Inr require_Inr roots_changed_def filter_empty_conv split: option.splits)

section \<open>The trees follow the database\<close>

lemma spent_at_append:
  assumes "\<forall>k \<in> set ns. spent_at d k = None" "db_nullifiers d' = db_nullifiers d @ nullifier_rows msf b ns"
  shows "spent_at d' k = (if k \<in> set ns then Some b else spent_at d k)"
proof -
  have "map_of (map (\<lambda>r. (ur_nullifier r, ur_block_num r)) (nullifier_rows msf b ns)) k = (if k \<in> set ns then Some b else None)"
    by (induction ns) (auto simp: nullifier_rows_def)
  moreover have "spent_at d' k = (map_of (map (\<lambda>r. (ur_nullifier r, ur_block_num r)) (nullifier_rows msf b ns)) ++ spent_at d) k"
    by (simp add: spent_at_def assms(2))
  ultimately show ?thesis using assms(1) by (auto simp: map_add_def split: option.split)
qed

lemma update_mirrors:
  assumes trees: "trees_ok L" and chain: "chain_ok d" and mir: "mirrors L d inner" and wf: "block_wf block"
    and upd: "compute_updates L inner block = Inr u" and num: "sh_block_num (pb_header block) = length (db_block_headers d)"
    and run: "write_block P block nts d = Inr (d', n)"
  shows "\<exists>inner'. update_inner L u (sh_commitment (pb_header block)) inner = Some inner' \<and> mirrors L d' inner'"
    and "inj_on ident_prefix (accounts_of d \<union> bu_account_id ` set (pb_accounts block))"
proof -
  let ?b = "sh_block_num (pb_header block)" and ?us = "pb_accounts block"
  let ?es = "map (\<lambda>u. (bu_account_id u, bu_final_commitment u)) ?us"
  note e = sql_apply_block_effect[OF run[unfolded write_block_def]] and c = compute_updates_Inr[OF upd]
  have pos: "0 < ?b" using num chain by (simp add: chain_ok_def)
  have ids: "distinct (map bu_account_id ?us)" using wf by (simp add: block_wf_def)
  obtain t where t: "nt_apply_mutations L (nullifier_tree inner) (tu_nullifier u) = Some t"
    "\<And>k. nt_block_num L t k = (if k \<in> set (pb_nullifiers block) then Some ?b else nt_block_num L (nullifier_tree inner) k)"
    using trees pos c(2) unfolding trees_ok_def nullifier_tree_ok_def by blast
  have "distinct (map fst ?es)" using ids by (simp add: comp_def)
  then obtain a where a: "at_apply_mutations L (account_tree inner) (tu_account u) = Some a"
    "\<And>i. at_get L a i = (case map_of ?es i of Some c \<Rightarrow> c | None \<Rightarrow> at_get L (account_tree inner) i)"
    and inj: "inj_on ident_prefix (known_accounts L (account_tree inner)) \<longrightarrow> inj_on ident_prefix (known_accounts L (account_tree inner) \<union> fst ` set ?es)"
    using trees c(3) unfolding trees_ok_def account_tree_ok_def by meson
  have fst_es: "fst ` set ?es = bu_account_id ` set ?us" by (simp add: image_image)
  show "inj_on ident_prefix (accounts_of d \<union> bu_account_id ` set ?us)"
    using inj chain unfolding known_accounts_mirror[OF chain mir] fst_es by (simp add: chain_ok_def)
  have nt: "nt_block_num L (nullifier_tree inner) = spent_at d" using mir by (simp add: mirrors_def)
  have "\<forall>k \<in> set (pb_nullifiers block). spent_at d k = None" using c(1) nt by simp
  from spent_at_append[OF this e(5)] have "nt_block_num L t = spent_at d'" using t(2) nt by (simp add: fun_eq_iff)
  moreover have "at_get L a i = (case commitments d' i of Some c \<Rightarrow> c | None \<Rightarrow> empty_word)" for i
    using mir a(2)[of i] unfolding e(2) update_commitments_distinct[OF ids] by (simp add: mirrors_def map_add_def split: option.split)
  moreover have "bc_push L (blockchain inner) (sh_commitment (pb_header block)) = bc_from L (map sh_commitment (db_block_headers d'))"
    using trees mir unfolding trees_ok_def blockchain_ok_def mirrors_def by (simp add: e(1))
  ultimately show "\<exists>inner'. update_inner L u (sh_commitment (pb_header block)) inner = Some inner' \<and> mirrors L d' inner'"
    using t(1) a(1) by (simp add: update_inner_def mirrors_def)
qed

section \<open>Candidate blocks\<close>

lemma latest_is_tip:
  assumes "trees_ok L" "consistent L s"
  shows "latest_block_num L (st_inner s) = Some (length (db_block_headers (st_db s)) - 1)"
  using assms by (simp add: consistent_def trees_ok_def blockchain_ok_def mirrors_def latest_block_num_def chain_ok_def)

lemma header_numbers: "chain_ok d \<Longrightarrow> h \<in> set (db_block_headers d) \<Longrightarrow> sh_block_num h < length (db_block_headers d)"
proof -
  assume "chain_ok d" "h \<in> set (db_block_headers d)"
  then have "sh_block_num h \<in> set [0..<length (db_block_headers d)]" unfolding chain_ok_def by (metis image_eqI set_map)
  then show ?thesis by simp
qed

text \<open>A candidate saved above the tip is neither part of the chain nor served.\<close>

lemma candidate_invisible:
  assumes "trees_ok L" "consistent L s" "n = length (db_block_headers (st_db s))"
  shows "consistent L (s\<lparr>st_blocks := (st_blocks s)(n \<mapsto> block)\<rparr>)"
    "load_block L (s\<lparr>st_blocks := (st_blocks s)(n \<mapsto> block)\<rparr>) m = load_block L s m"
proof -
  have "blocks_stored (st_db s) ((st_blocks s)(n \<mapsto> block))"
    using assms(2,3) header_numbers[of "st_db s"] by (fastforce simp: consistent_def blocks_stored_def)
  then show "consistent L (s\<lparr>st_blocks := (st_blocks s)(n \<mapsto> block)\<rparr>)" using assms(2) by (simp add: consistent_def)
  show "load_block L (s\<lparr>st_blocks := (st_blocks s)(n \<mapsto> block)\<rparr>) m = load_block L s m"
    using latest_is_tip[OF assms(1,2)] assms(2,3) by (auto simp: load_block_def consistent_def chain_ok_def)
qed

section \<open>The two outcomes\<close>

lemma apply_block_outcome:
  assumes trees: "trees_ok L" and con: "consistent L s" and wf: "block_wf block"
  defines "n \<equiv> sh_block_num (pb_header block)" and "d \<equiv> st_db s"
  shows "(\<exists>s' e. apply_block L P W block s = Err s' e
        \<and> (s' = s \<or> n = length (db_block_headers d) \<and> s' = s\<lparr>st_blocks := (st_blocks s)(n \<mapsto> block)\<rparr>))
    \<or> (\<exists>d' nts k inner. apply_block L P W block s = Ok (s\<lparr>st_blocks := (st_blocks s)(n \<mapsto> block), st_db := d', st_inner := inner\<rparr>) ()
        \<and> n = length (db_block_headers d) \<and> write_block P block nts d = Inr (d', k) \<and> chain_ok d' \<and> mirrors L d' inner
        \<and> (\<forall>k \<in> set (pb_nullifiers block). spent_at d k = None))"
proof -
  have chain: "chain_ok d" and mir: "mirrors L d (st_inner s)" using con by (simp_all add: consistent_def d_def)
  consider (busy) "\<not> bw_writer_free W" | (header) e where "bw_writer_free W" "check_header d block = Inl e"
    | (saved) "bw_writer_free W" "check_header d block = Inr ()" by (cases "check_header d block") auto
  then show ?thesis
  proof cases
    case saved
    note head = check_header_Inr[OF chain saved(2)]
    define s1 where "s1 = (if bw_save_ok W then s\<lparr>st_blocks := (st_blocks s)(n \<mapsto> block)\<rparr> else s)"
    have s1: "st_db s1 = d" "st_inner s1 = st_inner s" "s1 = s \<or> s1 = s\<lparr>st_blocks := (st_blocks s)(n \<mapsto> block)\<rparr>"
      by (simp_all add: s1_def d_def)
    have run: "apply_block L P W block s = finish_block L P W block s1"
      unfolding apply_block_def s1_def using saved by (simp add: n_def d_def)
    note run = run[unfolded finish_block_def s1(1,2)]
    show ?thesis
    proof (cases "bind_res (compute_updates L (st_inner s) block) (\<lambda>u. bind_res (block_notes block) (\<lambda>records. Inr (u, records)))")
      case (Inl e)
      then show ?thesis using run s1(3) head(1) by (auto simp: n_def)
    next
      case (Inr x)
      obtain u nts where x: "x = (u, nts)" by (cases x)
      with Inr have u: "compute_updates L (st_inner s) block = Inr u" by (auto simp: bind_res_eq_Inr)
      show ?thesis
      proof (cases "write_block P block nts d")
        case (Inl e)
        then show ?thesis using run Inr x s1(3) head(1) by (auto simp: n_def)
      next
        case (Inr y)
        obtain d' k where w: "write_block P block nts d = Inr (d', k)" using Inr by (cases y) simp
        note upd = update_mirrors[OF trees chain mir wf u head(1) w]
        obtain inner where inner: "update_inner L u (sh_commitment (pb_header block)) (st_inner s) = Some inner" "mirrors L d' inner"
          using upd(1) by blast
        have chain': "chain_ok d'"
          by (rule chain_ok_extend[OF chain w[unfolded write_block_def] head upd(2)]) (use wf in \<open>simp add: block_wf_def\<close>)
        have fresh: "\<forall>k \<in> set (pb_nullifiers block). spent_at d k = None"
          using compute_updates_Inr(1)[OF u] mir by (simp add: mirrors_def)
        show ?thesis
        proof (cases "bw_save_ok W \<and> bw_commit_ok W")
          case True
          then have "apply_block L P W block s = Ok (s\<lparr>st_blocks := (st_blocks s)(n \<mapsto> block), st_db := d', st_inner := inner\<rparr>) ()"
            using run u compute_updates_Inr(4)[OF u] w inner(1) \<open>_ = Inr x\<close> x by (simp add: s1_def)
          with w chain' inner(2) fresh head(1) show ?thesis by (auto simp: n_def)
        next
          case False
          then obtain e where "apply_block L P W block s = Err s1 e"
            using run compute_updates_Inr(4)[OF u] w \<open>_ = Inr x\<close> x by (cases "bw_save_ok W") auto
          then show ?thesis using s1(3) head(1) by (auto simp: n_def)
        qed
      qed
    qed
  qed (simp_all add: apply_block_def d_def)
qed

lemma apply_block_result:
  assumes trees: "trees_ok L" and con: "consistent L s" and wf: "block_wf block"
  shows "case apply_block L P W block s of
      Ok s' _ \<Rightarrow> consistent L s' \<and> db_block_headers (st_db s') = db_block_headers (st_db s) @ [pb_header block]
        \<and> sh_block_num (pb_header block) = length (db_block_headers (st_db s))
        \<and> (\<forall>k. spent_at (st_db s') k = (if k \<in> set (pb_nullifiers block) then Some (sh_block_num (pb_header block)) else spent_at (st_db s) k))
        \<and> commitments (st_db s') = commitments (st_db s) ++ update_commitments (pb_accounts block)
        \<and> load_block L s' (sh_block_num (pb_header block)) = Some (Some block)
    | Err s' e \<Rightarrow> consistent L s' \<and> st_db s' = st_db s \<and> st_inner s' = st_inner s \<and> (\<forall>n. load_block L s' n = load_block L s n)
    | Panic \<Rightarrow> False
    | Diverge \<Rightarrow> False"
  using apply_block_outcome[OF assms, of P W]
proof (elim disjE exE conjE)
  fix s' e
  assume "apply_block L P W block s = Err s' e" "s' = s"
  then show ?thesis using con by simp
next
  fix s' e
  assume "apply_block L P W block s = Err s' e" "sh_block_num (pb_header block) = length (db_block_headers (st_db s))"
    and "s' = s\<lparr>st_blocks := (st_blocks s)(sh_block_num (pb_header block) \<mapsto> block)\<rparr>"
  with candidate_invisible[OF trees con] show ?thesis by simp
next
  fix d' nts k inner
  let ?n = "sh_block_num (pb_header block)"
  let ?s' = "s\<lparr>st_blocks := (st_blocks s)(?n \<mapsto> block), st_db := d', st_inner := inner\<rparr>"
  assume run: "apply_block L P W block s = Ok ?s' ()" and n: "?n = length (db_block_headers (st_db s))"
    and w: "write_block P block nts (st_db s) = Inr (d', k)" and ok: "chain_ok d'" "mirrors L d' inner"
    and fresh: "\<forall>k \<in> set (pb_nullifiers block). spent_at (st_db s) k = None"
  note e = sql_apply_block_effect[OF w[unfolded write_block_def]]
  have "consistent L (s\<lparr>st_blocks := (st_blocks s)(?n \<mapsto> block)\<rparr>)" by (rule candidate_invisible(1)[OF trees con n])
  then have "blocks_stored d' ((st_blocks s)(?n \<mapsto> block))" by (simp add: consistent_def blocks_stored_def e(1))
  with ok have con': "consistent L ?s'" by (simp add: consistent_def)
  have "load_block L ?s' ?n = Some (Some block)" using latest_is_tip[OF trees con'] n by (simp add: load_block_def e(1))
  with run con' spent_at_append[OF fresh e(5)] e(1,2) n show ?thesis by simp
qed

end
