(* ===== verification/Store_Requests.thy ===== *)
theory Store_Requests
  imports Store_Apply
begin

text \<open>
  The requests that combine the database with the trees in memory (crates/store/src/state.rs): inputs
  for batches, blocks and transactions, proofs and synchronization.  \<open>None\<close> is a panic.
\<close>

type_synonym ('n, 'nu, 'a, 'au, 'm, 'p, 'w) lib = "('n, 'nu, 'a, 'au, 'm, 'p, 'w) trees"

section \<open>Headers and proofs\<close>

datatype header_error = HeaderMmrError

definition get_block_header :: "('n, 'nu, 'a, 'au, 'm, 'p, 'w) lib \<Rightarrow> ('n, 'a, 'm) store_state \<Rightarrow> block_number option \<Rightarrow> bool \<Rightarrow>
    header_error + store_header option \<times> 'w option" where
  "get_block_header L s block_num include_mmr_proof =
     (case select_block_header_by_block_num (st_db s) block_num of
        None \<Rightarrow> Inr (None, None)
      | Some header \<Rightarrow>
          if include_mmr_proof
          then (case bc_open L (blockchain (st_inner s)) (sh_block_num header) of
                  None \<Rightarrow> Inl HeaderMmrError | Some proof \<Rightarrow> Inr (Some header, Some proof))
          else Inr (Some header, None))"

definition check_nullifiers :: "('n, 'nu, 'a, 'au, 'm, 'p, 'w) lib \<Rightarrow> ('n, 'a, 'm) store_state \<Rightarrow> nullifier list \<Rightarrow> 'w list" where
  "check_nullifiers L s nullifiers = map (nt_open L (nullifier_tree (st_inner s))) nullifiers"

text \<open>The peaks are the library's \<open>Blockchain::peaks_at\<close>.\<close>

datatype current_data_error = InvalidPeaks

definition get_current_blockchain_data :: "('m \<Rightarrow> block_number \<Rightarrow> 'w option) \<Rightarrow> ('n, 'nu, 'a, 'au, 'm, 'p, 'w) lib \<Rightarrow>
    ('n, 'a, 'm) store_state \<Rightarrow> block_number option \<Rightarrow> (current_data_error + (store_header \<times> 'w) option) option" where
  "get_current_blockchain_data peaks_at L s block_num =
     (let fetch = (case select_block_header_by_block_num (st_db s) None of
          None \<Rightarrow> None
        | Some header \<Rightarrow> Some (case peaks_at (blockchain (st_inner s)) (sh_block_num header) of
              None \<Rightarrow> Inl InvalidPeaks | Some peaks \<Rightarrow> Inr (Some (header, peaks))))
      in (case block_num of
            None \<Rightarrow> fetch
          | Some number \<Rightarrow>
              (case latest_block_num L (st_inner s) of
                 None \<Rightarrow> None
               | Some latest \<Rightarrow> if number = latest then Some (Inr None) else fetch)))"

section \<open>Inputs for batches and blocks\<close>

text \<open>\<open>Vec::swap_remove\<close> and the position of a header.\<close>

definition swap_remove :: "'x list \<Rightarrow> nat \<Rightarrow> 'x \<times> 'x list" where
  "swap_remove xs i = (xs ! i, if i = length xs - 1 then butlast xs else (butlast xs)[i := last xs])"

fun header_index :: "block_number \<Rightarrow> nat \<Rightarrow> store_header list \<Rightarrow> nat option" where
  "header_index n i [] = None"
| "header_index n i (h # hs) = (if sh_block_num h = n then Some i else header_index n (Suc i) hs)"

text \<open>The header of the latest block and the partial chain over the other blocks.\<close>

definition partial_chain :: "('n, 'nu, 'a, 'au, 'm, 'p, 'w) lib \<Rightarrow> db \<Rightarrow> block_number set \<Rightarrow> block_number \<Rightarrow> 'p \<Rightarrow>
    (db_error + store_header \<times> 'p \<times> store_header list) option" where
  "partial_chain L d blocks latest partial_mmr =
     (case select_block_headers d (sorted_list_of_set blocks @ [latest]) (card blocks + 1) of
        Inl e \<Rightarrow> Some (Inl e)
      | Inr headers \<Rightarrow>
          (case header_index latest 0 headers of
             None \<Rightarrow> None
           | Some i \<Rightarrow>
               (case swap_remove headers i of (header, rest) \<Rightarrow>
                 (case pc_new L partial_mmr rest of None \<Rightarrow> None | Some chain \<Rightarrow> Some (Inr (header, chain))))))"

datatype batch_inputs_error =
    BatchNoteProofError db_error
  | BatchHeaderError db_error
  | TransactionBlockReferencesEmpty
  | UnknownTransactionBlockReference block_number block_number

record 'p batch_inputs =
  bi_reference_header :: store_header
  bi_note_proofs :: "note_id \<rightharpoonup> inclusion_proof"
  bi_chain :: "'p \<times> store_header list"

definition get_batch_inputs :: "('n, 'nu, 'a, 'au, 'm, 'p, 'w) lib \<Rightarrow> ('n, 'a, 'm) store_state \<Rightarrow> block_number set \<Rightarrow> note_id set \<Rightarrow>
    (batch_inputs_error + 'p batch_inputs) option" where
  "get_batch_inputs L s tx_reference_blocks note_ids =
     (if tx_reference_blocks = {} then Some (Inl TransactionBlockReferencesEmpty)
      else (case select_note_inclusion_proofs (st_db s) (sorted_list_of_set note_ids) of
        Inl e \<Rightarrow> Some (Inl (BatchNoteProofError e))
      | Inr note_proofs \<Rightarrow>
          let blocks = tx_reference_blocks \<union> ip_block_num ` ran note_proofs in
          (case latest_block_num L (st_inner s) of
             None \<Rightarrow> None
           | Some latest \<Rightarrow>
               if Max blocks > latest then Some (Inl (UnknownTransactionBlockReference (Max blocks) latest))
               else (case bc_partial_mmr L (blockchain (st_inner s)) (blocks - {latest}) latest of
                   None \<Rightarrow> None
                 | Some partial_mmr \<Rightarrow>
                     (case partial_chain L (st_db s) (blocks - {latest}) latest partial_mmr of
                        None \<Rightarrow> None
                      | Some (Inl e) \<Rightarrow> Some (Inl (BatchHeaderError e))
                      | Some (Inr (header, chain)) \<Rightarrow>
                          Some (Inr \<lparr>bi_reference_header = header, bi_note_proofs = note_proofs, bi_chain = chain\<rparr>))))))"

datatype block_inputs_error =
    BlockNoteProofError db_error
  | BlockHeaderError db_error
  | UnknownBatchBlockReference block_number block_number

record ('p, 'w) block_inputs =
  ki_prev_header :: store_header
  ki_chain :: "'p \<times> store_header list"
  ki_accounts :: "account_ident \<rightharpoonup> 'w"
  ki_nullifiers :: "nullifier \<rightharpoonup> 'w"
  ki_note_proofs :: "note_id \<rightharpoonup> inclusion_proof"

text \<open>\<open>get_block_inputs_witnesses\<close>: the latest block, the blocks without it, the witnesses and the partial MMR.\<close>

definition get_block_inputs_witnesses :: "('n, 'nu, 'a, 'au, 'm, 'p, 'w) lib \<Rightarrow> ('n, 'a, 'm) inner_state \<Rightarrow> block_number set \<Rightarrow>
    account_ident list \<Rightarrow> nullifier list \<Rightarrow>
    (block_inputs_error + block_number \<times> block_number set \<times> (account_ident \<rightharpoonup> 'w) \<times> (nullifier \<rightharpoonup> 'w) \<times> 'p) option" where
  "get_block_inputs_witnesses L inner blocks account_ids nullifiers =
     (case latest_block_num L inner of
        None \<Rightarrow> None
      | Some latest \<Rightarrow>
          let highest = (if blocks = {} then latest else Max blocks) in
          if highest > latest then Some (Inl (UnknownBatchBlockReference highest latest))
          else let blocks = blocks - {latest} in
            (case bc_partial_mmr L (blockchain inner) blocks latest of
               None \<Rightarrow> None
             | Some partial_mmr \<Rightarrow>
                 Some (Inr (latest, blocks,
                   map_of (map (\<lambda>a. (a, at_open L (account_tree inner) a)) account_ids),
                   map_of (map (\<lambda>k. (k, nt_open L (nullifier_tree inner) k)) nullifiers), partial_mmr))))"

definition get_block_inputs :: "('n, 'nu, 'a, 'au, 'm, 'p, 'w) lib \<Rightarrow> ('n, 'a, 'm) store_state \<Rightarrow> account_ident list \<Rightarrow> nullifier list \<Rightarrow>
    note_id set \<Rightarrow> block_number set \<Rightarrow> (block_inputs_error + ('p, 'w) block_inputs) option" where
  "get_block_inputs L s account_ids nullifiers unauthenticated_notes reference_blocks =
     (case select_note_inclusion_proofs (st_db s) (sorted_list_of_set unauthenticated_notes) of
        Inl e \<Rightarrow> Some (Inl (BlockNoteProofError e))
      | Inr note_proofs \<Rightarrow>
          (case get_block_inputs_witnesses L (st_inner s) (reference_blocks \<union> ip_block_num ` ran note_proofs) account_ids nullifiers of
             None \<Rightarrow> None
           | Some (Inl e) \<Rightarrow> Some (Inl e)
           | Some (Inr (latest, blocks, account_witnesses, nullifier_witnesses, partial_mmr)) \<Rightarrow>
               (case partial_chain L (st_db s) blocks latest partial_mmr of
                  None \<Rightarrow> None
                | Some (Inl e) \<Rightarrow> Some (Inl (BlockHeaderError e))
                | Some (Inr (header, chain)) \<Rightarrow>
                    Some (Inr \<lparr>ki_prev_header = header, ki_chain = chain, ki_accounts = account_witnesses,
                       ki_nullifiers = nullifier_witnesses, ki_note_proofs = note_proofs\<rparr>))))"

section \<open>Inputs for transactions\<close>

record store_tx_inputs =
  si_account_commitment :: digest
  si_nullifiers :: "nullifier_info list"
  si_found_unauthenticated_notes :: "note_id set"

definition get_transaction_inputs :: "('n, 'nu, 'a, 'au, 'm, 'p, 'w) lib \<Rightarrow> ('n, 'a, 'm) store_state \<Rightarrow> account_ident \<Rightarrow> nullifier list \<Rightarrow>
    note_id list \<Rightarrow> db_error + store_tx_inputs" where
  "get_transaction_inputs L s account_id nullifiers unauthenticated_notes =
     bind_res (select_note_ids (st_db s) unauthenticated_notes) (\<lambda>found.
       Inr \<lparr>si_account_commitment = at_get L (account_tree (st_inner s)) account_id,
            si_nullifiers = map (\<lambda>k. \<lparr>ni_nullifier = k,
               ni_block_num = (case nt_block_num L (nullifier_tree (st_inner s)) k of None \<Rightarrow> 0 | Some n \<Rightarrow> n)\<rparr>) nullifiers,
            si_found_unauthenticated_notes = found\<rparr>)"

section \<open>Synchronization\<close>

text \<open>\<open>Inl\<close> of the delta is the empty one of a client at the tip, with its forest.\<close>

definition sync_state :: "('n, 'nu, 'a, 'au, 'm, 'p, 'w) lib \<Rightarrow> ('n, 'a, 'm) store_state \<Rightarrow> block_number \<Rightarrow> account_ident list \<Rightarrow>
    32 word list \<Rightarrow> sync_error + state_sync_update \<times> (nat + 'w)" where
  "sync_state L s block_num account_ids note_tags =
     bind_res (get_state_sync (st_db s) block_num account_ids note_tags) (\<lambda>sync.
       if block_num = sh_block_num (su_block_header sync) then Inr (sync, Inl block_num)
       else (case bc_delta L (blockchain (st_inner s)) (block_num + 1) (sh_block_num (su_block_header sync)) of
           None \<Rightarrow> Inl SyncMmrError | Some delta \<Rightarrow> Inr (sync, Inr delta)))"

definition sync_notes :: "('n, 'nu, 'a, 'au, 'm, 'p, 'w) lib \<Rightarrow> ('n, 'a, 'm) store_state \<Rightarrow> block_number \<Rightarrow> 32 word list \<Rightarrow>
    sync_error + note_sync_update \<times> 'w" where
  "sync_notes L s block_num note_tags =
     bind_res (get_note_sync (st_db s) block_num note_tags) (\<lambda>sync.
       (case bc_open L (blockchain (st_inner s)) (sh_block_num (nu_block_header sync)) of
          None \<Rightarrow> Inl SyncMmrError | Some proof \<Rightarrow> Inr (sync, proof)))"

section \<open>Account proofs\<close>

text \<open>
  A request names an account and keys of its storage maps.  Parameters: the opening of a storage map,
  and the commitment to an account's code with the code itself.
\<close>

record account_proof_request =
  pr_account_id :: account_ident
  pr_storage_requests :: "(nat \<times> digest list) list"

record 'w account_state_header =
  ah_account :: db_account
  ah_code :: "nat option"
  ah_storage_maps :: "(nat \<times> 'w) list"

record 'w account_proof =
  pf_account_id :: account_ident
  pf_witness :: 'w
  pf_state_header :: "'w account_state_header option"

definition storage_proofs :: "((digest \<times> digest) list \<Rightarrow> digest \<Rightarrow> 'w) \<Rightarrow> storage_slot list \<Rightarrow> nat \<times> digest list \<Rightarrow>
    db_error + (nat \<times> 'w) list" where
  "storage_proofs map_open slots = (\<lambda>(i, keys).
     (if i < length slots
      then (case slots ! i of
          MapSlot m \<Rightarrow> Inr (map (\<lambda>k. (i, map_open m k)) keys)
        | ValueSlot v \<Rightarrow> Inl (StorageSlotNotMap i))
      else Inl (StorageSlotNotMap i)))"

definition state_header :: "((digest \<times> digest) list \<Rightarrow> digest \<Rightarrow> 'w) \<Rightarrow> (db_account \<Rightarrow> digest \<times> nat) \<Rightarrow> digest set \<Rightarrow>
    db_account \<Rightarrow> (nat \<times> digest list) list \<Rightarrow> db_error + 'w account_state_header" where
  "state_header map_open code known details requests =
     bind_res (collect_res (storage_proofs map_open (da_storage details)) requests) (\<lambda>proofs.
       Inr \<lparr>ah_account = details,
            ah_code = (if fst (code details) \<in> known then None else Some (snd (code details))),
            ah_storage_maps = concat proofs\<rparr>)"

text \<open>The loop over the requests; \<open>None\<close> is the panic of \<open>expect\<close> on an account that was not retrieved.\<close>

fun state_headers :: "((digest \<times> digest) list \<Rightarrow> digest \<Rightarrow> 'w) \<Rightarrow> (db_account \<Rightarrow> digest \<times> nat) \<Rightarrow> digest set \<Rightarrow> account_info list \<Rightarrow>
    account_proof_request list \<Rightarrow> (account_ident \<rightharpoonup> 'w account_state_header) \<Rightarrow>
    (db_error + (account_ident \<rightharpoonup> 'w account_state_header)) option" where
  "state_headers map_open code known infos [] headers = Some (Inr headers)"
| "state_headers map_open code known infos (req # reqs) headers =
     (case find (\<lambda>i. as_account_id (ai_summary i) = pr_account_id req) infos of
        None \<Rightarrow> None
      | Some info \<Rightarrow>
          (case ai_details info of
             None \<Rightarrow> state_headers map_open code known infos reqs headers
           | Some details \<Rightarrow>
               (case state_header map_open code known details (pr_storage_requests req) of
                  Inl e \<Rightarrow> Some (Inl e)
                | Inr h \<Rightarrow> state_headers map_open code known infos reqs (headers(pr_account_id req \<mapsto> h)))))"

definition get_account_proofs :: "((digest \<times> digest) list \<Rightarrow> digest \<Rightarrow> 'w) \<Rightarrow> (db_account \<Rightarrow> digest \<times> nat) \<Rightarrow>
    ('n, 'nu, 'a, 'au, 'm, 'p, 'w) lib \<Rightarrow> ('n, 'a, 'm) store_state \<Rightarrow> account_proof_request list \<Rightarrow> digest set \<Rightarrow> bool \<Rightarrow>
    (db_error + block_number \<times> 'w account_proof list) option" where
  "get_account_proofs map_open code L s requests known include_headers =
     (let ids = map pr_account_id requests;
          headers = (if \<not> include_headers then Some (Inr Map.empty)
            else (case select_accounts_by_ids (st_db s) ids of
                Inl e \<Rightarrow> Some (Inl e)
              | Inr infos \<Rightarrow>
                  if length ids > length infos
                  then Some (Inl (AccountsNotFoundInDb (set ids - set (map (\<lambda>i. as_account_id (ai_summary i)) infos))))
                  else state_headers map_open code known infos requests Map.empty))
      in (case headers of
            None \<Rightarrow> None
          | Some (Inl e) \<Rightarrow> Some (Inl e)
          | Some (Inr hs) \<Rightarrow>
              (case latest_block_num L (st_inner s) of
                 None \<Rightarrow> None
               | Some latest \<Rightarrow> Some (Inr (latest,
                   map (\<lambda>a. \<lparr>pf_account_id = a, pf_witness = at_open L (account_tree (st_inner s)) a, pf_state_header = hs a\<rparr>) ids)))))"

end
