(* ===== verification/Store_Instance.thy ===== *)
theory Store_Instance
  imports Store_Requests
begin

text \<open>
  A model of the library's trees as association lists, which satisfies everything the store relies on,
  and a consistent store over the sample database.
\<close>

definition spent_mutations :: "(nullifier \<times> block_number) list \<Rightarrow> (nullifier \<times> block_number) list \<Rightarrow> (nullifier \<times> block_number) list option" where
  "spent_mutations t es = (if list_ex (\<lambda>(k, b). map_of t k \<noteq> None) es then None else Some (es @ t))"

definition account_mutations :: "(account_ident \<times> digest) list \<Rightarrow> (account_ident \<times> digest) list \<Rightarrow> (account_ident \<times> digest) list option" where
  "account_mutations t es = (if inj_on ident_prefix (set (map fst (es @ t))) then Some (es @ t) else None)"

definition sample_trees ::
  "((nullifier \<times> block_number) list, (nullifier \<times> block_number) list, (account_ident \<times> digest) list, (account_ident \<times> digest) list,
    digest list, block_number set, nat) trees" where
  "sample_trees =
     \<lparr>nt_block_num = map_of, nt_root = length, nt_compute_mutations = spent_mutations, nt_mutations_root = length,
      nt_apply_mutations = (\<lambda>t u. Some u), nt_with_entries = Some, nt_open = (\<lambda>t k. k),
      at_get = (\<lambda>t a. case map_of t a of None \<Rightarrow> 0 | Some c \<Rightarrow> c), at_root = length, at_compute_mutations = account_mutations,
      at_mutations_root = length, at_apply_mutations = (\<lambda>t u. Some u),
      at_with_entries = (\<lambda>es. if inj_on ident_prefix (set (map fst es)) then Some es else None), at_open = (\<lambda>t a. ident_key a),
      bc_chain_tip = (\<lambda>cs. if cs = [] then None else Some (length cs - 1)), bc_hash_peaks = length,
      bc_push = (\<lambda>cs c. cs @ [c]), bc_from = id, bc_open = (\<lambda>cs n. if n < length cs then Some (cs ! n) else None),
      bc_delta = (\<lambda>cs m n. if m \<le> n \<and> n \<le> length cs then Some (n - m) else None),
      bc_partial_mmr = (\<lambda>cs blocks n. if n < length cs then Some blocks else None),
      pc_new = (\<lambda>p hs. Some (p, hs))\<rparr>"

lemma sample_nullifier_tree_ok: "nullifier_tree_ok sample_trees"
proof -
  have add: "(map_of t ++ map_of (map (\<lambda>n. (n, b)) ns)) k = (if k \<in> set ns then Some b else map_of t k)" for b :: block_number and ns t k
  proof -
    have "map_of (map (\<lambda>n. (n, b)) ns) k = (if k \<in> set ns then Some b else None)" by (induction ns) auto
    then show ?thesis by (simp add: map_add_def)
  qed
  show ?thesis by (auto simp: add nullifier_tree_ok_def sample_trees_def spent_mutations_def split: if_splits)
qed

lemma sample_account_tree_ok: "account_tree_ok sample_trees"
proof -
  have get: "at_get sample_trees t = (\<lambda>a. case map_of t a of None \<Rightarrow> 0 | Some c \<Rightarrow> c)" for t by (simp add: sample_trees_def)
  have known: "known_accounts sample_trees t \<subseteq> fst ` set t" for t
  proof
    fix a assume "a \<in> known_accounts sample_trees t"
    then obtain c where "map_of t a = Some c" by (auto simp: known_accounts_def get empty_word_def split: option.splits)
    then have "(a, c) \<in> set t" by (rule map_of_SomeD)
    then show "a \<in> fst ` set t" by force
  qed
  have "inj_on ident_prefix (known_accounts sample_trees t \<union> fst ` set es)" if "inj_on ident_prefix (set (map fst (es @ t)))" for es t
    by (rule inj_on_subset[OF that]) (use known[of t] in auto)
  then show ?thesis
    unfolding account_tree_ok_def get
    by (auto simp: sample_trees_def account_mutations_def empty_word_def map_add_def split: if_splits option.splits)
qed

lemma sample_trees_ok: "trees_ok sample_trees"
proof -
  have "blockchain_ok sample_trees" by (auto simp: blockchain_ok_def sample_trees_def)
  then show ?thesis by (simp add: trees_ok_def sample_nullifier_tree_ok sample_account_tree_ok)
qed

definition sample_block :: "block_number \<Rightarrow> proven_block" where
  "sample_block n =
     \<lparr>pb_header = sample_header n, pb_tx_commitment = 0, pb_note_root = 0, pb_nullifiers = [], pb_accounts = [],
      pb_transactions = [], pb_output_notes = []\<rparr>"

definition sample_store :: "((nullifier \<times> block_number) list, (account_ident \<times> digest) list, digest list) store_state" where
  "sample_store =
     \<lparr>st_db = sample_db, st_blocks = [0 \<mapsto> sample_block 0, 1 \<mapsto> sample_block 1, 2 \<mapsto> sample_block 2],
      st_inner = \<lparr>nullifier_tree = [(33, 2)], blockchain = [101, 102, 103], account_tree = [(sample_account, 11)]\<rparr>\<rparr>"

lemma sample_consistent: "consistent sample_trees sample_store"
proof -
  have "chain_ok sample_db"
    by (auto simp: chain_ok_def sample_db_ok) (auto simp: sample_db_def sample_header_def accounts_of_def empty_word_def less_Suc_eq nth_Cons split: nat.splits)
  moreover have "mirrors sample_trees sample_db (st_inner sample_store)"
    by (simp add: mirrors_def sample_trees_def sample_db_def sample_store_def sample_header_def spent_at_def commitments_def empty_word_def split: option.split)
  moreover have "blocks_stored sample_db (st_blocks sample_store)"
    by (simp add: blocks_stored_def sample_db_def sample_store_def sample_header_def sample_block_def)
  ultimately show ?thesis by (simp add: consistent_def) (simp add: sample_store_def)
qed

text \<open>The next block: it updates the account and consumes a note.\<close>

definition next_block :: proven_block where
  "next_block =
     (sample_block 3)
       \<lparr>pb_header := (sample_header 3)\<lparr>sh_chain_commitment := 3, sh_nullifier_root := 2, sh_account_root := 2\<rparr>,
        pb_nullifiers := [32],
        pb_accounts := [\<lparr>bu_account_id = sample_account, bu_final_commitment = 12, bu_details = PrivateAccount\<rparr>]\<rparr>"

definition sample_params :: block_params where
  "sample_params = \<lparr>bp_apply_delta = (\<lambda>a d. None), bp_delta_ok = (\<lambda>d. True), bp_most_significant_felt = (\<lambda>k. 0)\<rparr>"

definition calm_world :: block_world where
  "calm_world = \<lparr>bw_writer_free = True, bw_save_ok = True, bw_commit_ok = True\<rparr>"

lemma next_block_wf: "block_wf next_block"
  by (simp add: block_wf_def next_block_def empty_word_def)

lemma next_block_applies:
  "case apply_block sample_trees sample_params calm_world next_block sample_store of Ok s' _ \<Rightarrow> True | _ \<Rightarrow> False"
  by code_simp

end
