(* ===== verification/Store_Properties.thy ===== *)
theory Store_Properties
  imports Store_Instance
begin

text \<open>
  The properties of the store's state: applying a block, loading the store, the inputs for batches and
  the proofs of accounts.
\<close>

section \<open>Applying a block\<close>

text \<open>
  C5. Applying a block to a consistent store is all or nothing. Either it succeeds: the database, the
  trees in memory and the block store advance together to the new block, which is now served. Or it
  reports an error: the database and the trees are untouched, and no request can see the candidate that
  may be left in the block store. In both cases the store is consistent, and it never panics.
\<close>

theorem apply_block_atomic:
  assumes trees: "trees_ok L" and con: "consistent L s" and wf: "block_wf block"
  shows "case apply_block L P W block s of
      Ok s' _ \<Rightarrow> consistent L s' \<and> db_block_headers (st_db s') = db_block_headers (st_db s) @ [pb_header block]
        \<and> (\<forall>k. spent_at (st_db s') k = (if k \<in> set (pb_nullifiers block) then Some (sh_block_num (pb_header block)) else spent_at (st_db s) k))
        \<and> commitments (st_db s') = commitments (st_db s) ++ update_commitments (pb_accounts block)
        \<and> load_block L s' (sh_block_num (pb_header block)) = Some (Some block)
    | Err s' e \<Rightarrow> consistent L s' \<and> st_db s' = st_db s \<and> st_inner s' = st_inner s \<and> (\<forall>n. load_block L s' n = load_block L s n)
    | Panic \<Rightarrow> False
    | Diverge \<Rightarrow> False"
  using apply_block_result[OF assms, of P W]
  by (cases "apply_block L P W block s"; simp only: outcome.case) blast+

theorem apply_block_atomic_witness:
  "\<exists>s'. apply_block sample_trees sample_params calm_world next_block sample_store = Ok s' () \<and> consistent sample_trees s'
     \<and> load_block sample_trees s' 3 = Some (Some next_block)"
proof -
  obtain s' where s': "apply_block sample_trees sample_params calm_world next_block sample_store = Ok s' ()"
    using next_block_applies by (cases "apply_block sample_trees sample_params calm_world next_block sample_store") auto
  have n: "sh_block_num (pb_header next_block) = 3" by (simp add: next_block_def sample_header_def)
  from apply_block_atomic[OF sample_trees_ok sample_consistent next_block_wf, of sample_params calm_world] s' n
  show ?thesis by simp
qed

section \<open>Loading the store\<close>

lemma distinct_map_sort: "distinct (map g (sort_key f xs)) \<longleftrightarrow> distinct (map g xs)"
  by (simp add: distinct_map)

lemma load_nullifiers:
  assumes trees: "trees_ok L" and chain: "chain_ok d"
  shows "\<exists>t. load_nullifier_tree L d = Inr t \<and> nt_block_num L t = spent_at d"
proof -
  let ?es = "map (\<lambda>i. (ni_nullifier i, ni_block_num i)) (select_all_nullifiers d)"
  have es: "?es = map (\<lambda>r. (ur_nullifier r, ur_block_num r)) (sort_key ur_block_num (db_nullifiers d))"
    by (simp add: select_all_nullifiers_def nullifier_info_from_row_def comp_def)
  have dist: "distinct (map ur_nullifier (db_nullifiers d))"
    using chain by (simp add: chain_ok_def db_ok_def keys_ok_def unique_def)
  have d1: "distinct (map fst ?es)" using dist unfolding es by (simp add: comp_def distinct_map_sort)
  have "\<forall>e \<in> set ?es. 0 < snd e" using chain unfolding es by (auto simp: chain_ok_def intro!: gr0I)
  with trees d1 obtain t where t: "nt_with_entries L ?es = Some t" "nt_block_num L t = map_of ?es"
    unfolding trees_ok_def nullifier_tree_ok_def by blast
  have "map_of ?es = spent_at d"
    unfolding spent_at_def by (subst map_of_inject_set[OF d1]) (simp_all add: es comp_def dist)
  with t show ?thesis by (simp add: load_nullifier_tree_def)
qed

lemma load_account_tree:
  assumes trees: "trees_ok L" and chain: "chain_ok d"
  shows "\<exists>t. load_accounts L d = Inr t \<and> (\<forall>a. at_get L t a = (case commitments d a of Some c \<Rightarrow> c | None \<Rightarrow> empty_word))"
proof -
  let ?es = "select_all_account_commitments d"
  have dist: "distinct (map ar_account_id (db_accounts d))"
    using chain by (simp add: chain_ok_def db_ok_def keys_ok_def unique_def)
  have d1: "distinct (map fst ?es)"
    using dist unfolding select_all_account_commitments_def by (simp add: comp_def distinct_map_sort)
  have "fst ` set ?es = accounts_of d" by (simp add: select_all_account_commitments_def accounts_of_def image_image)
  then have "inj_on ident_prefix (fst ` set ?es)" using chain by (simp add: chain_ok_def)
  with trees d1 obtain t where t: "at_with_entries L ?es = Some t"
    "\<forall>a. at_get L t a = (case map_of ?es a of Some c \<Rightarrow> c | None \<Rightarrow> empty_word)"
    unfolding trees_ok_def account_tree_ok_def by blast
  have "map_of ?es = commitments d"
    unfolding commitments_def
    by (subst map_of_inject_set[OF d1]) (simp_all add: select_all_account_commitments_def comp_def dist)
  with t show ?thesis by (simp add: load_accounts_def)
qed

text \<open>
  C17. Restarting the store loses nothing: loading the database of a consistent store succeeds and gives a
  consistent store again, whose chain, spent nullifiers and account commitments are those that were in
  memory before.
\<close>

theorem load_restores:
  assumes trees: "trees_ok L" and con: "consistent L s"
  shows "\<exists>s'. load L (st_db s) (st_blocks s) = Inr s' \<and> consistent L s' \<and> st_db s' = st_db s \<and> st_blocks s' = st_blocks s
    \<and> blockchain (st_inner s') = blockchain (st_inner s)
    \<and> nt_block_num L (nullifier_tree (st_inner s')) = nt_block_num L (nullifier_tree (st_inner s))
    \<and> at_get L (account_tree (st_inner s')) = at_get L (account_tree (st_inner s))"
proof -
  have chain: "chain_ok (st_db s)" and mir: "mirrors L (st_db s) (st_inner s)" using con by (simp_all add: consistent_def)
  from load_nullifiers[OF trees chain] obtain n where n: "load_nullifier_tree L (st_db s) = Inr n" "nt_block_num L n = spent_at (st_db s)" by blast
  from load_account_tree[OF trees chain] obtain a where a: "load_accounts L (st_db s) = Inr a"
    "\<forall>i. at_get L a i = (case commitments (st_db s) i of Some c \<Rightarrow> c | None \<Rightarrow> empty_word)" by blast
  have m: "load_mmr L (st_db s) = bc_from L (map sh_commitment (db_block_headers (st_db s)))"
    by (simp add: load_mmr_def sorted_headers[OF chain])
  from n a m mir con show ?thesis by (simp add: load_def consistent_def mirrors_def fun_eq_iff)
qed

theorem load_restores_witness:
  "\<exists>s'. load sample_trees sample_db (st_blocks sample_store) = Inr s' \<and> consistent sample_trees s'"
proof -
  have "st_db sample_store = sample_db" by (simp add: sample_store_def)
  with load_restores[OF sample_trees_ok sample_consistent] show ?thesis by auto
qed

section \<open>Inputs for a batch\<close>

lemma map_of_rows_set:
  fixes rows :: "('k \<times> 'v) list"
  shows "map_of_rows rows k = Some v \<Longrightarrow> (k, v) \<in> set rows" "dom (map_of_rows rows) = fst ` set rows"
proof -
  have snoc_eq: "map_of_rows (rows @ [x]) = (map_of_rows rows)(fst x \<mapsto> snd x)" for rows and x :: "'k \<times> 'v"
    by (simp add: map_of_rows_def split_def)
  have nil: "map_of_rows ([] :: ('k \<times> 'v) list) = Map.empty" by (simp add: map_of_rows_def)
  have "\<forall>v. map_of_rows rows k = Some v \<longrightarrow> (k, v) \<in> set rows"
    by (induction rows rule: rev_induct) (auto simp: snoc_eq nil split: if_splits)
  moreover have "dom (map_of_rows rows) = fst ` set rows"
  proof (induction rows rule: rev_induct)
    case (snoc x xs)
    have "dom (map_of_rows (xs @ [x])) = insert (fst x) (dom (map_of_rows xs))" unfolding snoc_eq by (auto split: if_splits)
    then show ?case using snoc.IH by simp
  qed (simp add: nil)
  ultimately show "map_of_rows rows k = Some v \<Longrightarrow> (k, v) \<in> set rows" "dom (map_of_rows rows) = fst ` set rows" by blast+
qed

lemma note_proofs:
  assumes "select_note_inclusion_proofs d ids = Inr proofs"
  shows "dom proofs = set ids \<inter> nr_note_id ` set (db_notes d)"
    and "proofs i = Some p \<Longrightarrow> \<exists>r \<in> set (db_notes d). nr_note_id r = i \<and> ip_block_num p = nr_block_num r"
proof -
  let ?rows = "map (\<lambda>r. (nr_note_id r, \<lparr>ip_block_num = nr_block_num r, ip_note_index = (nr_batch_index r, nr_note_index r), ip_merkle_path = nr_merkle_path r\<rparr>))
      (sort_key nr_block_num (filter (\<lambda>r. nr_note_id r \<in> set ids) (db_notes d)))"
  have p: "proofs = map_of_rows ?rows" using assms by (auto simp: select_note_inclusion_proofs_def bind_res_eq_Inr)
  show "dom proofs = set ids \<inter> nr_note_id ` set (db_notes d)"
    unfolding p map_of_rows_set(2) by (auto simp: image_iff)
  show "\<exists>r \<in> set (db_notes d). nr_note_id r = i \<and> ip_block_num p = nr_block_num r" if "proofs i = Some p"
    using map_of_rows_set(1)[OF that[unfolded p]] by auto
qed

lemma header_index_append:
  "\<forall>h \<in> set hs. sh_block_num h \<noteq> n \<Longrightarrow> sh_block_num x = n \<Longrightarrow> header_index n i (hs @ [x]) = Some (i + length hs)"
  by (induction hs arbitrary: i) auto

lemma partial_chain_tip:
  assumes chain: "chain_ok d" and fin: "finite blocks" and below: "\<forall>b \<in> blocks. b < length (db_block_headers d) - 1"
  defines "tip \<equiv> length (db_block_headers d) - 1" and "rest \<equiv> filter (\<lambda>h. sh_block_num h \<in> blocks) (butlast (db_block_headers d))"
  shows "partial_chain L d blocks tip p = (case block_limit (card blocks + 1) of
      Inl e \<Rightarrow> Some (Inl e)
    | Inr _ \<Rightarrow> (case pc_new L p rest of None \<Rightarrow> None | Some c \<Rightarrow> Some (Inr (last (db_block_headers d), c))))"
    and "sh_block_num ` set rest = blocks" and "distinct (map sh_block_num rest)"
proof -
  let ?hs = "db_block_headers d"
  have ne: "?hs \<noteq> []" and nums: "map sh_block_num ?hs = [0..<length ?hs]" using chain by (simp_all add: chain_ok_def)
  have split: "?hs = butlast ?hs @ [last ?hs]" using ne by simp
  have last: "sh_block_num (last ?hs) = tip" using chain_tip_header(2)[OF chain] by (simp add: tip_def)
  have init: "map sh_block_num (butlast ?hs) = [0..<tip]"
    unfolding map_butlast nums tip_def using ne by (cases "length ?hs") simp_all
  then have set_init: "sh_block_num ` set (butlast ?hs) = {..<tip}" by (simp flip: set_map) (simp add: atLeast0LessThan)
  have "filter (\<lambda>h. sh_block_num h \<in> blocks \<or> sh_block_num h = tip) ?hs = rest @ [last ?hs]"
  proof -
    have "filter (\<lambda>h. sh_block_num h \<in> blocks \<or> sh_block_num h = tip) (butlast ?hs) = rest"
      unfolding rest_def by (rule filter_cong) (use set_init in auto)
    then show ?thesis by (subst split) (simp add: last)
  qed
  then have sel: "select_block_headers d (sorted_list_of_set blocks @ [tip]) (card blocks + 1) =
      bind_res (block_limit (card blocks + 1)) (\<lambda>_. Inr (rest @ [last ?hs]))"
    using fin by (simp add: select_block_headers_def disj_commute)
  have "\<forall>h \<in> set rest. sh_block_num h \<noteq> tip" using below by (auto simp: rest_def tip_def)
  from header_index_append[OF this last, of 0]
  show "partial_chain L d blocks tip p = (case block_limit (card blocks + 1) of
      Inl e \<Rightarrow> Some (Inl e)
    | Inr _ \<Rightarrow> (case pc_new L p rest of None \<Rightarrow> None | Some c \<Rightarrow> Some (Inr (last (db_block_headers d), c))))"
    unfolding partial_chain_def sel by (cases "block_limit (card blocks + 1)") (simp_all add: swap_remove_def)
  have "sh_block_num ` set rest = blocks \<inter> sh_block_num ` set (butlast ?hs)" by (auto simp: rest_def)
  also have "\<dots> = blocks" unfolding set_init using below by (auto simp: tip_def)
  finally show "sh_block_num ` set rest = blocks" .
  have "distinct (map sh_block_num (butlast ?hs))" by (simp add: init)
  then show "distinct (map sh_block_num rest)" unfolding rest_def by (rule distinct_map_filter)
qed

text \<open>
  C20. The inputs for a batch, on a consistent store. The request never panics. It fails only when no
  block is referenced, when more than a thousand note ids or blocks are asked for, or when a referenced
  block is later than the tip. Otherwise the reference header is the chain tip's, there is a proof for
  exactly the requested notes that are on chain, and the partial chain holds exactly the headers of the
  referenced blocks and of the blocks of these notes, the tip excepted.
\<close>

theorem batch_inputs_exact:
  assumes trees: "trees_ok L" and con: "consistent L s" and fin: "finite refs" "finite ids"
  defines "d \<equiv> st_db s" and "tip \<equiv> length (db_block_headers (st_db s)) - 1"
  shows "case get_batch_inputs L s refs ids of
      None \<Rightarrow> False
    | Some (Inl e) \<Rightarrow>
        e = TransactionBlockReferencesEmpty \<and> refs = {}
        \<or> e = BatchNoteProofError (QueryParamLimitExceeded ''note_id'' (card ids) 1000) \<and> card ids > 1000
        \<or> e = UnknownTransactionBlockReference (Max refs) tip \<and> refs \<noteq> {} \<and> Max refs > tip
        \<or> (\<exists>k. e = BatchHeaderError (QueryParamLimitExceeded ''block_header'' k 1000) \<and> k > 1000 \<and> k \<le> card refs + card ids + 1)
    | Some (Inr b) \<Rightarrow>
        bi_reference_header b = last (db_block_headers d)
        \<and> dom (bi_note_proofs b) = ids \<inter> nr_note_id ` set (db_notes d)
        \<and> (\<forall>i p. bi_note_proofs b i = Some p \<longrightarrow> (\<exists>r \<in> set (db_notes d). nr_note_id r = i \<and> ip_block_num p = nr_block_num r))
        \<and> set (snd (bi_chain b)) = {h \<in> set (db_block_headers d). sh_block_num h \<in> refs \<union> ip_block_num ` ran (bi_note_proofs b) - {tip}}
        \<and> sh_block_num ` set (snd (bi_chain b)) = refs \<union> ip_block_num ` ran (bi_note_proofs b) - {tip}"
proof (cases "refs = {}")
  case True
  then show ?thesis by (simp add: get_batch_inputs_def)
next
  case False
  note ne = False
  have chain: "chain_ok d" using con by (simp add: consistent_def d_def)
  show ?thesis
  proof (cases "select_note_inclusion_proofs d (sorted_list_of_set ids)")
    case (Inl e)
    then have "e = QueryParamLimitExceeded ''note_id'' (card ids) 1000 \<and> card ids > 1000"
      using fin(2) by (auto simp: select_note_inclusion_proofs_def bind_res_def note_id_limit_def limit_check_def split: if_splits)
    then show ?thesis using ne Inl by (simp add: get_batch_inputs_def d_def)
  next
    case (Inr proofs)
    note np = note_proofs[OF Inr]
    have dom: "dom proofs = ids \<inter> nr_note_id ` set (db_notes d)" using np(1) fin(2) by simp
    let ?nb = "ip_block_num ` ran proofs"
    have finp: "finite (dom proofs)" using dom fin(2) by simp
    have finb: "finite (refs \<union> ?nb)" and card_nb: "card ?nb \<le> card ids"
    proof -
      have ran: "?nb = (\<lambda>i. ip_block_num (the (proofs i))) ` dom proofs" by (force simp: ran_def dom_def)
      then show "finite (refs \<union> ?nb)" using finp fin(1) by simp
      have "card ?nb \<le> card (dom proofs)" unfolding ran by (rule card_image_le[OF finp])
      also have "\<dots> \<le> card ids" unfolding dom by (rule card_mono[OF fin(2)]) blast
      finally show "card ?nb \<le> card ids" .
    qed
    have nb: "b \<le> tip" if "b \<in> ?nb" for b
    proof -
      from that obtain i p where "proofs i = Some p" "b = ip_block_num p" by (auto simp: ran_def)
      then obtain r where "r \<in> set (db_notes d)" "b = nr_block_num r" using np(2) by blast
      then have "b \<in> blocks_of d" using chain by (auto simp: chain_ok_def db_ok_def references_ok_def)
      then obtain h where "h \<in> set (db_block_headers d)" "b = sh_block_num h" by (auto simp: blocks_of_def)
      then show ?thesis using header_numbers[OF chain] by (fastforce simp: tip_def d_def)
    qed
    have latest: "latest_block_num L (st_inner s) = Some tip" using latest_is_tip[OF trees con] by (simp add: tip_def)
    let ?blocks = "refs \<union> ?nb - {tip}"
    show ?thesis
    proof (cases "Max (refs \<union> ?nb) > tip")
      case True
      then have "Max (refs \<union> ?nb) \<in> refs" using Max_in[OF finb] ne nb by fastforce
      then have "Max (refs \<union> ?nb) = Max refs"
        using finb fin(1) by (intro antisym Max_ge Max_mono) auto
      then show ?thesis using True ne Inr latest by (simp add: get_batch_inputs_def d_def Let_def)
    next
      case False
      have below: "\<forall>b \<in> ?blocks. b < length (db_block_headers d) - 1"
      proof
        fix b assume b: "b \<in> ?blocks"
        then have "b \<le> Max (refs \<union> ?nb)" by (intro Max_ge finb) simp
        with False b show "b < length (db_block_headers d) - 1" by (simp add: tip_def d_def)
      qed
      have finbl: "finite ?blocks" using finb by simp
      note pc = partial_chain_tip[OF chain finbl below, folded tip_def d_def]
      have tip': "length (db_block_headers d) - 1 = tip" by (simp add: tip_def d_def)
      let ?rest = "filter (\<lambda>h. sh_block_num h \<in> ?blocks) (butlast (db_block_headers d))"
      have "tip < length (map sh_commitment (db_block_headers d))" using chain by (simp add: chain_ok_def tip'[symmetric])
      then obtain p where p: "bc_partial_mmr L (blockchain (st_inner s)) ?blocks tip = Some p" "pc_new L p ?rest = Some (p, ?rest)"
        using trees con below pc(2,3) tip' unfolding trees_ok_def blockchain_ok_def consistent_def mirrors_def d_def by metis
      have set_rest: "set ?rest = {h \<in> set (db_block_headers d). sh_block_num h \<in> ?blocks}"
      proof -
        have "db_block_headers d = butlast (db_block_headers d) @ [last (db_block_headers d)]" using chain by (simp add: chain_ok_def)
        then have "set (db_block_headers d) = insert (last (db_block_headers d)) (set (butlast (db_block_headers d)))"
          by (metis list.simps(15) rotate1.simps(2) set_rotate1)
        moreover have "sh_block_num (last (db_block_headers d)) = tip" using chain_tip_header(2)[OF chain] tip' by simp
        ultimately show ?thesis by auto
      qed
      have run: "get_batch_inputs L s refs ids = (case block_limit (card ?blocks + 1) of
          Inl e \<Rightarrow> Some (Inl (BatchHeaderError e))
        | Inr _ \<Rightarrow> Some (Inr \<lparr>bi_reference_header = last (db_block_headers d), bi_note_proofs = proofs, bi_chain = (p, ?rest)\<rparr>))"
        using ne Inr latest False p pc(1)[unfolded tip', of L p]
        by (simp add: get_batch_inputs_def d_def[symmetric] Let_def split: sum.split)
      show ?thesis
      proof (cases "card ?blocks + 1 > 1000")
        case True
        have "card ?blocks \<le> card (refs \<union> ?nb)" by (rule card_mono[OF finb]) blast
        also have "\<dots> \<le> card refs + card ids" using card_Un_le[of refs ?nb] card_nb by simp
        finally show ?thesis using True run by (simp add: block_limit_def limit_check_def)
      next
        case False
        then have "block_limit (card ?blocks + 1) = Inr ()" by (simp add: block_limit_def limit_check_def)
        then show ?thesis using run dom np(2) set_rest pc(2) by simp
      qed
    qed
  qed
qed

theorem batch_inputs_exact_witness:
  "\<exists>b. get_batch_inputs sample_trees sample_store {1, 2} {21, 99} = Some (Inr b) \<and> bi_reference_header b = sample_header 2
     \<and> dom (bi_note_proofs b) = {21} \<and> sh_block_num ` set (snd (bi_chain b)) = {1}"
proof -
  have small: "finite {1::block_number, 2}" "finite {21::note_id, 99}" "card {1::block_number, 2} = 2" "card {21::note_id, 99} = 2"
    "Max {1::block_number, 2} = 2" by simp_all
  have db: "st_db sample_store = sample_db" by (simp add: sample_store_def)
  have hs: "db_block_headers sample_db = [sample_header 0, sample_header 1, sample_header 2]" by (simp add: sample_db_def)
  have ids: "nr_note_id ` set (db_notes sample_db) = {21, 22}" by (simp add: sample_db_def note_row_of_def sample_note_def)
  have blk: "nr_block_num r = 1" if "r \<in> set (db_notes sample_db)" "nr_note_id r = 21" for r
    using that by (auto simp: sample_db_def note_row_of_def sample_note_def)
  note e = batch_inputs_exact[OF sample_trees_ok sample_consistent small(1,2), unfolded db hs small]
  show ?thesis
  proof (cases "get_batch_inputs sample_trees sample_store {1, 2} {21, 99}")
    case (Some r)
    show ?thesis
    proof (cases r)
      case (Inr b)
      with e Some ids have b: "bi_reference_header b = sample_header 2" "dom (bi_note_proofs b) = {21}"
        "\<And>i p. bi_note_proofs b i = Some p \<Longrightarrow> \<exists>r \<in> set (db_notes sample_db). nr_note_id r = i \<and> ip_block_num p = nr_block_num r"
        "sh_block_num ` set (snd (bi_chain b)) = {1, 2} \<union> ip_block_num ` ran (bi_note_proofs b) - {2}" by auto
      have "ip_block_num p = 1" if "p \<in> ran (bi_note_proofs b)" for p
        using that b(2,3) blk by (fastforce simp: ran_def dom_def)
      then have "{1, 2} \<union> ip_block_num ` ran (bi_note_proofs b) - {2} = {1::block_number}" by auto
      with b Some Inr show ?thesis by simp
    qed (use e Some in auto)
  qed (use e in simp)
qed

section \<open>Account proofs\<close>

lemma select_by_ids:
  assumes "chain_ok d" "select_accounts_by_ids d ids = Inr infos"
  shows "set (map (\<lambda>i. as_account_id (ai_summary i)) infos) = set ids \<inter> accounts_of d"
    and "length infos = card (set ids \<inter> accounts_of d)"
proof -
  let ?rows = "filter (\<lambda>r. ar_account_id r \<in> set ids) (db_accounts d)"
  have infos: "infos = map account_info_from_row ?rows"
    using assms(2) by (auto simp: select_accounts_by_ids_def bind_res_eq_Inr)
  have keys: "map (\<lambda>i. as_account_id (ai_summary i)) infos = map ar_account_id ?rows"
    by (simp add: infos account_info_from_row_def account_summary_from_row_def)
  show s: "set (map (\<lambda>i. as_account_id (ai_summary i)) infos) = set ids \<inter> accounts_of d"
    unfolding keys by (auto simp: accounts_of_def)
  have "distinct (map ar_account_id (db_accounts d))" using assms(1) by (simp add: chain_ok_def db_ok_def keys_ok_def unique_def)
  then have "distinct (map ar_account_id ?rows)" by (rule distinct_map_filter)
  from distinct_card[OF this] show "length infos = card (set ids \<inter> accounts_of d)"
    using s unfolding keys by (simp add: infos)
qed

text \<open>The details of an account, if it is public, and one of its storage maps.\<close>

definition details_of :: "db \<Rightarrow> account_ident \<Rightarrow> db_account option" where
  "details_of d a = (case find (\<lambda>r. ar_account_id r = a) (db_accounts d) of None \<Rightarrow> None | Some r \<Rightarrow> ar_details r)"

definition map_slot :: "storage_slot list \<Rightarrow> nat \<Rightarrow> (digest \<times> digest) list option" where
  "map_slot slots i = (if i < length slots then (case slots ! i of MapSlot m \<Rightarrow> Some m | ValueSlot v \<Rightarrow> None) else None)"

text \<open>The requested slots that are no maps of a public account, in the order of the requests.\<close>

definition slots_not_map :: "(account_ident \<Rightarrow> db_account option) \<Rightarrow> account_proof_request list \<Rightarrow> nat list" where
  "slots_not_map details requests = concat (map (\<lambda>req. case details (pr_account_id req) of
       None \<Rightarrow> []
     | Some account \<Rightarrow> filter (\<lambda>i. map_slot (da_storage account) i = None) (map fst (pr_storage_requests req))) requests)"

text \<open>One opening for every requested key, of the map in its slot.\<close>

definition map_proofs :: "((digest \<times> digest) list \<Rightarrow> digest \<Rightarrow> 'w) \<Rightarrow> storage_slot list \<Rightarrow> (nat \<times> digest list) list \<Rightarrow> (nat \<times> 'w) list" where
  "map_proofs map_open slots requests =
     [(i, map_open m k). (i, keys) \<leftarrow> requests, m \<leftarrow> (case map_slot slots i of None \<Rightarrow> [] | Some m \<Rightarrow> [m]), k \<leftarrow> keys]"

definition header_of :: "((digest \<times> digest) list \<Rightarrow> digest \<Rightarrow> 'w) \<Rightarrow> (db_account \<Rightarrow> digest \<times> nat) \<Rightarrow> digest set \<Rightarrow>
    account_proof_request \<Rightarrow> db_account \<Rightarrow> 'w account_state_header" where
  "header_of map_open code known req account =
     \<lparr>ah_account = account, ah_code = (if fst (code account) \<in> known then None else Some (snd (code account))),
      ah_storage_maps = map_proofs map_open (da_storage account) (pr_storage_requests req)\<rparr>"

lemma storage_proofs_exact:
  "collect_res (storage_proofs map_open slots) reqs =
     (case filter (\<lambda>i. map_slot slots i = None) (map fst reqs) of
        i # _ \<Rightarrow> Inl (StorageSlotNotMap i)
      | [] \<Rightarrow> Inr (map (\<lambda>(i, keys). map (\<lambda>k. (i, map_open (the (map_slot slots i)) k)) keys) reqs))"
proof (induction reqs)
  case (Cons req reqs)
  then show ?case
    by (cases req) (auto simp: storage_proofs_def map_slot_def split: list.splits storage_slot.splits)
qed simp

lemma map_proofs_all:
  assumes "filter (\<lambda>i. map_slot slots i = None) (map fst reqs) = []"
  shows "map_proofs map_open slots reqs = concat (map (\<lambda>(i, keys). map (\<lambda>k. (i, map_open (the (map_slot slots i)) k)) keys) reqs)"
  using assms by (induction reqs) (auto simp: map_proofs_def split: if_splits)

lemma state_header_exact:
  "state_header map_open code known account (pr_storage_requests req) =
     (case filter (\<lambda>i. map_slot (da_storage account) i = None) (map fst (pr_storage_requests req)) of
        i # _ \<Rightarrow> Inl (StorageSlotNotMap i)
      | [] \<Rightarrow> Inr (header_of map_open code known req account))"
  unfolding state_header_def storage_proofs_exact
  by (auto simp: header_of_def map_proofs_all split: list.split)

lemma state_headers_exact:
  assumes "\<forall>req \<in> set reqs. find (\<lambda>i. as_account_id (ai_summary i) = pr_account_id req) infos \<noteq> None"
    and "\<And>a. details a = (case find (\<lambda>i. as_account_id (ai_summary i) = a) infos of None \<Rightarrow> None | Some i \<Rightarrow> ai_details i)"
    and "distinct (map pr_account_id reqs)" and "\<forall>req \<in> set reqs. headers (pr_account_id req) = None"
  shows "\<exists>hs. state_headers map_open code known infos reqs headers =
      Some (case slots_not_map details reqs of i # _ \<Rightarrow> Inl (StorageSlotNotMap i) | [] \<Rightarrow> Inr hs)
    \<and> (slots_not_map details reqs = [] \<longrightarrow>
        (\<forall>req \<in> set reqs. hs (pr_account_id req) = map_option (header_of map_open code known req) (details (pr_account_id req)))
        \<and> (\<forall>a. a \<notin> pr_account_id ` set reqs \<longrightarrow> hs a = headers a))"
  using assms(1,3,4)
proof (induction reqs arbitrary: headers)
  case (Cons req reqs)
  let ?a = "pr_account_id req"
  from Cons.prems obtain info where info: "find (\<lambda>i. as_account_id (ai_summary i) = ?a) infos = Some info" by auto
  show ?case
  proof (cases "ai_details info")
    case None
    have d: "details ?a = None" using info None assms(2) by simp
    from Cons.IH[of headers] Cons.prems obtain hs where "state_headers map_open code known infos reqs headers =
        Some (case slots_not_map details reqs of i # _ \<Rightarrow> Inl (StorageSlotNotMap i) | [] \<Rightarrow> Inr hs)"
      "slots_not_map details reqs = [] \<Longrightarrow>
        (\<forall>req \<in> set reqs. hs (pr_account_id req) = map_option (header_of map_open code known req) (details (pr_account_id req)))
        \<and> (\<forall>a. a \<notin> pr_account_id ` set reqs \<longrightarrow> hs a = headers a)" by auto
    then show ?thesis using info None d Cons.prems by (intro exI[of _ hs]) (auto simp: slots_not_map_def)
  next
    case (Some account)
    have d: "details ?a = Some account" using info Some assms(2) by simp
    let ?headers = "headers(?a \<mapsto> header_of map_open code known req account)"
    have "?a \<notin> pr_account_id ` set reqs" using Cons.prems by simp
    then have "\<forall>r \<in> set reqs. ?headers (pr_account_id r) = None" using Cons.prems by (metis fun_upd_other imageI list.set_intros(2))
    moreover have "\<forall>r \<in> set reqs. find (\<lambda>i. as_account_id (ai_summary i) = pr_account_id r) infos \<noteq> None" "distinct (map pr_account_id reqs)"
      using Cons.prems by simp_all
    ultimately obtain hs where "state_headers map_open code known infos reqs ?headers =
        Some (case slots_not_map details reqs of i # _ \<Rightarrow> Inl (StorageSlotNotMap i) | [] \<Rightarrow> Inr hs)"
      and "slots_not_map details reqs = [] \<longrightarrow>
        (\<forall>req \<in> set reqs. hs (pr_account_id req) = map_option (header_of map_open code known req) (details (pr_account_id req)))
        \<and> (\<forall>a. a \<notin> pr_account_id ` set reqs \<longrightarrow> hs a = ?headers a)"
      using Cons.IH by blast
    then show ?thesis using info Some d \<open>?a \<notin> pr_account_id ` set reqs\<close>
      by (intro exI[of _ hs])
        (cases "filter (\<lambda>i. map_slot (da_storage account) i = None) (map fst (pr_storage_requests req))";
          auto simp: slots_not_map_def state_header_exact)
  qed
qed (auto simp: slots_not_map_def)

lemma find_retrieved:
  "find (\<lambda>i. as_account_id (ai_summary i) = a) (map account_info_from_row rows)
     = map_option account_info_from_row (find (\<lambda>r. ar_account_id r = a) rows)"
  by (induction rows) (simp_all add: account_info_from_row_def account_summary_from_row_def)

lemma find_requested: "a \<in> S \<Longrightarrow> find (\<lambda>r. ar_account_id r = a) (filter (\<lambda>r. ar_account_id r \<in> S) rows) = find (\<lambda>r. ar_account_id r = a) rows"
  by (induction rows) auto


text \<open>The headers of the accounts the database answers with, when it finds them all.\<close>

lemma retrieved_headers:
  fixes reqs :: "account_proof_request list"
  defines "ids \<equiv> map pr_account_id reqs"
  assumes infos: "infos = map account_info_from_row (filter (\<lambda>r. ar_account_id r \<in> set ids) (db_accounts d))"
    and "set (map (\<lambda>i. as_account_id (ai_summary i)) infos) = set ids" and "distinct ids"
  shows "\<exists>hs. state_headers map_open code known infos reqs Map.empty =
      Some (case slots_not_map (details_of d) reqs of i # _ \<Rightarrow> Inl (StorageSlotNotMap i) | [] \<Rightarrow> Inr hs)
    \<and> (slots_not_map (details_of d) reqs = [] \<longrightarrow>
        (\<forall>req \<in> set reqs. hs (pr_account_id req) = map_option (header_of map_open code known req) (details_of d (pr_account_id req))))"
proof -
  let ?details = "\<lambda>a. case find (\<lambda>i. as_account_id (ai_summary i) = a) infos of None \<Rightarrow> None | Some i \<Rightarrow> ai_details i"
  have same: "?details (pr_account_id req) = details_of d (pr_account_id req)" if "req \<in> set reqs" for req
    using that unfolding infos find_retrieved details_of_def
    by (simp add: find_requested ids_def account_info_from_row_def split: option.split)
  have "pr_account_id req \<in> (\<lambda>i. as_account_id (ai_summary i)) ` set infos" if "req \<in> set reqs" for req
    using assms(3) that by (auto simp: ids_def)
  then have found: "\<forall>req \<in> set reqs. find (\<lambda>i. as_account_id (ai_summary i) = pr_account_id req) infos \<noteq> None"
    unfolding find_None_iff by (metis imageE)
  have "slots_not_map ?details reqs = slots_not_map (details_of d) reqs"
    unfolding slots_not_map_def by (intro arg_cong[where f = concat] map_cong refl) (simp only: same)
  with state_headers_exact[OF found refl assms(4)[unfolded ids_def], of Map.empty map_open code known] same show ?thesis by force
qed

text \<open>
  C21. A request for account proofs on a consistent store never panics, and its outcome is determined.
  Without headers it answers with the tip and one proof per requested account, in order, and it does not
  fail. With headers, more than a thousand accounts are too many; an account that is not in the database,
  or is requested twice, makes it fail with the missing accounts (none of them, in the second case); else
  the first requested slot that is no map of its public account is reported; else every public account
  comes with its state header: its details, its code if the client does not know it, and one opening for
  every requested key of every requested map, in order. Private accounts have no header.
\<close>

theorem account_proofs_exact:
  fixes requests :: "account_proof_request list"
  assumes trees: "trees_ok L" and con: "consistent L s"
  defines "ids \<equiv> map pr_account_id requests" and "details \<equiv> details_of (st_db s)"
  shows "case get_account_proofs map_open code L s requests known include_headers of
      None \<Rightarrow> False
    | Some (Inl e) \<Rightarrow> include_headers
        \<and> (if length ids > 1000 then e = QueryParamLimitExceeded ''account_id'' (length ids) 1000
           else if set ids \<subseteq> accounts_of (st_db s) \<and> distinct ids
           then (\<exists>i rest. slots_not_map details requests = i # rest \<and> e = StorageSlotNotMap i)
           else e = AccountsNotFoundInDb (set ids - accounts_of (st_db s)))
    | Some (Inr (n, proofs)) \<Rightarrow> n = length (db_block_headers (st_db s)) - 1
        \<and> map pf_account_id proofs = ids
        \<and> map pf_witness proofs = map (at_open L (account_tree (st_inner s))) ids
        \<and> map pf_state_header proofs = map (\<lambda>req. if include_headers
              then map_option (header_of map_open code known req) (details (pr_account_id req)) else None) requests
        \<and> (include_headers \<longrightarrow> length ids \<le> 1000 \<and> distinct ids \<and> set ids \<subseteq> accounts_of (st_db s) \<and> slots_not_map details requests = [])"
proof -
  let ?d = "st_db s"
  have chain: "chain_ok ?d" using con by (simp add: consistent_def)
  note tip = latest_is_tip[OF trees con]
  show ?thesis
  proof (cases include_headers)
    case False
    then show ?thesis using tip by (simp add: get_account_proofs_def ids_def comp_def)
  next
    case True
    show ?thesis
    proof (cases "select_accounts_by_ids ?d ids")
      case (Inl e)
      then have "e = QueryParamLimitExceeded ''account_id'' (length ids) 1000 \<and> length ids > 1000"
        by (auto simp: select_accounts_by_ids_def bind_res_def account_id_limit_def limit_check_def split: if_splits)
      with True Inl show ?thesis by (simp add: get_account_proofs_def ids_def)
    next
      case (Inr infos)
      then have few: "length ids \<le> 1000"
        by (auto simp: select_accounts_by_ids_def bind_res_def account_id_limit_def limit_check_def split: if_splits)
      note sel = select_by_ids[OF chain Inr]
      have le: "card (set ids \<inter> accounts_of ?d) \<le> card (set ids)" "card (set ids) \<le> length ids"
        by (simp_all add: card_mono card_length)
      show ?thesis
      proof (cases "length ids > length infos")
        case True
        have "\<not> (set ids \<subseteq> accounts_of ?d \<and> distinct ids)"
        proof
          assume "set ids \<subseteq> accounts_of ?d \<and> distinct ids"
          then have "set ids \<inter> accounts_of ?d = set ids" "card (set ids) = length ids" by (auto simp: distinct_card)
          with True sel(2) show False by simp
        qed
        moreover have "set ids - (set ids \<inter> accounts_of ?d) = set ids - accounts_of ?d" by blast
        ultimately show ?thesis
          using True few \<open>include_headers\<close> Inr sel(1) by (simp add: get_account_proofs_def ids_def[symmetric])
      next
        case False
        then have eq: "card (set ids \<inter> accounts_of ?d) = card (set ids)" "card (set ids) = length ids" using le sel(2) by linarith+
        then have sub: "set ids \<inter> accounts_of ?d = set ids" by (intro card_subset_eq) auto
        have dist: "distinct ids" using eq(2) by (rule card_distinct)
        have infos: "infos = map account_info_from_row (filter (\<lambda>r. ar_account_id r \<in> set ids) (db_accounts ?d))"
          using Inr by (auto simp: select_accounts_by_ids_def bind_res_eq_Inr)
        have all: "set (map (\<lambda>i. as_account_id (ai_summary i)) infos) = set ids" using sel(1) sub by simp
        from retrieved_headers[OF infos[unfolded ids_def] all[unfolded ids_def] dist[unfolded ids_def], of map_open code known]
        obtain hs where hs: "state_headers map_open code known infos requests Map.empty =
            Some (case slots_not_map details requests of i # _ \<Rightarrow> Inl (StorageSlotNotMap i) | [] \<Rightarrow> Inr hs)"
          "slots_not_map details requests = [] \<Longrightarrow>
             (\<forall>req \<in> set requests. hs (pr_account_id req) = map_option (header_of map_open code known req) (details (pr_account_id req)))"
          unfolding details_def by blast
        have sub: "set ids \<subseteq> accounts_of ?d" using sub by blast
        show ?thesis
          using \<open>include_headers\<close> Inr False hs tip few dist sub
          by (cases "slots_not_map details requests") (simp_all add: get_account_proofs_def ids_def[symmetric] comp_def, simp add: ids_def)
      qed
    qed
  qed
qed

text \<open>The sample store with a public account, which has a map in its second slot.\<close>

definition public_details :: db_account where
  "public_details = \<lparr>da_ident = sample_account, da_commitment = 11, da_nonce = 1, da_storage = [ValueSlot 5, MapSlot [(3, 4)]], da_vault = []\<rparr>"

definition public_store :: "((nullifier \<times> block_number) list, (account_ident \<times> digest) list, digest list) store_state" where
  "public_store = sample_store\<lparr>st_db := sample_db\<lparr>db_accounts := [\<lparr>ar_account_id = sample_account, ar_network_prefix = Some 0,
     ar_commitment = 11, ar_block_num = 2, ar_details = Some public_details\<rparr>]\<rparr>\<rparr>"

lemma public_consistent: "consistent sample_trees public_store"
proof -
  have eq: "db_block_headers (st_db public_store) = db_block_headers sample_db" "st_blocks public_store = st_blocks sample_store"
    "st_inner public_store = st_inner sample_store" "accounts_of (st_db public_store) = accounts_of sample_db"
    by (simp_all add: public_store_def accounts_of_def sample_db_def)
  have con: "chain_ok sample_db" "mirrors sample_trees sample_db (st_inner sample_store)" "blocks_stored sample_db (st_blocks sample_store)"
    using sample_consistent by (simp_all add: consistent_def) (simp_all add: sample_store_def)
  have rows: "db_accounts sample_db = [\<lparr>ar_account_id = sample_account, ar_network_prefix = Some 0, ar_commitment = 11, ar_block_num = 2, ar_details = None\<rparr>]"
    by (simp add: sample_db_def)
  have db: "db_ok (st_db public_store)"
    using con(1) by (simp add: chain_ok_def public_store_def db_ok_defs unique_def rows)
  have "chain_ok (st_db public_store)"
    using con(1) db unfolding chain_ok_def by (simp add: eq) (simp add: public_store_def rows)
  moreover have "mirrors sample_trees (st_db public_store) (st_inner public_store)"
    using con(2) by (simp add: mirrors_def eq spent_at_def commitments_def) (simp add: public_store_def rows)
  moreover have "blocks_stored (st_db public_store) (st_blocks public_store)"
    using con(3) by (simp add: blocks_stored_def eq)
  ultimately show ?thesis by (simp add: consistent_def)
qed

theorem account_proofs_exact_witness:
  "case get_account_proofs (\<lambda>m k. (case map_of m k of None \<Rightarrow> 0 | Some v \<Rightarrow> v)) (\<lambda>a. (0, 0)) sample_trees public_store
      [\<lparr>pr_account_id = sample_account, pr_storage_requests = [(1, [3, 8])]\<rparr>] {} True of
     Some (Inr (n, proofs)) \<Rightarrow> n = 2 \<and> map pf_state_header proofs =
       [Some \<lparr>ah_account = public_details, ah_code = Some 0, ah_storage_maps = [(1, 4), (1, 0)]\<rparr>]
   | _ \<Rightarrow> False"
proof -
  have "length (db_block_headers (st_db public_store)) = 3" "details_of (st_db public_store) sample_account = Some public_details"
    "sample_account \<in> accounts_of (st_db public_store)"
    by (simp_all add: public_store_def details_of_def accounts_of_def) (simp add: sample_db_def)
  moreover have "map_slot (da_storage public_details) 1 = Some [(3, 4)]" by (simp add: map_slot_def public_details_def)
  ultimately show ?thesis
    using account_proofs_exact[OF sample_trees_ok public_consistent, where map_open = "\<lambda>m k. (case map_of m k of None \<Rightarrow> 0 | Some v \<Rightarrow> v)"
      and code = "\<lambda>a. (0, 0)" and requests = "[\<lparr>pr_account_id = sample_account, pr_storage_requests = [(1, [3, 8])]\<rparr>]"
      and known = "{}" and include_headers = True]
    by (auto simp: slots_not_map_def header_of_def map_proofs_def split: option.splits sum.splits if_splits)
qed

end
