(* ===== verification/Store_Locking.thy ===== *)
theory Store_Locking
  imports Store_Instance "HOL-Library.Multiset"
begin

text \<open>
  The lock around the trees in memory (the field \<open>inner\<close> of \<open>State\<close>, crates/store/src/state.rs): the
  interleaved steps of the one task that applies a block and of any number of requests.  The lock is
  tokio's; the parameter \<open>grant holders queue i\<close> says when it may admit the request at position \<open>i\<close> of its
  queue, and \<open>fair_lock\<close> is its documented policy: one writer or many readers, and no reader before a
  writer that queued earlier.
\<close>

section \<open>The lock\<close>

datatype mode = Shared | Exclusive

datatype task = Writer | Reader nat

type_synonym lock_policy = "(task \<times> mode) list \<Rightarrow> (task \<times> mode) list \<Rightarrow> nat \<Rightarrow> bool"

definition compatible :: "(task \<times> mode) list \<Rightarrow> mode \<Rightarrow> bool" where
  "compatible holders m \<longleftrightarrow> (case m of Exclusive \<Rightarrow> holders = [] | Shared \<Rightarrow> Exclusive \<notin> snd ` set holders)"

definition fair_lock :: "lock_policy \<Rightarrow> bool" where
  "fair_lock grant \<longleftrightarrow>
     (\<forall>holders queue i. grant holders queue i \<longrightarrow> i < length queue \<and> compatible holders (snd (queue ! i))
        \<and> (\<forall>j < i. snd (queue ! j) \<noteq> Exclusive))
     \<and> (\<forall>holders r queue. compatible holders (snd r) \<longrightarrow> grant holders (r # queue) 0)"

section \<open>The tasks\<close>

text \<open>
  The writer applies a block: it reads under the shared lock, writes the database's transaction
  without a lock, and commits and updates the trees under the exclusive lock.  A request holds the
  shared lock once or, as \<open>get_current_blockchain_data\<close> with a block number does, asks for it again while
  it holds it.
\<close>

datatype ('nu, 'au) writer_pc =
    WIdle
  | WQueuedRead proven_block
  | WReading proven_block
  | WComputed proven_block "('nu, 'au) tree_updates"
  | WPrepared proven_block "('nu, 'au) tree_updates" db
  | WQueuedWrite proven_block "('nu, 'au) tree_updates" db
  | WWriting proven_block "('nu, 'au) tree_updates" db
  | WCommitted proven_block "('nu, 'au) tree_updates"

datatype reader_pc = RIdle | RQueued bool | RHolding bool | RQueuedAgain | RHoldingTwice | RHoldingLast

record ('n, 'nu, 'a, 'au, 'm) config =
  cf_store :: "('n, 'a, 'm) store_state"
  cf_holders :: "(task \<times> mode) list"
  cf_queue :: "(task \<times> mode) list"
  cf_writer :: "('nu, 'au) writer_pc"
  cf_reader :: "nat \<Rightarrow> reader_pc"

definition initial :: "('n, 'a, 'm) store_state \<Rightarrow> ('n, 'nu, 'a, 'au, 'm) config" where
  "initial s = \<lparr>cf_store = s, cf_holders = [], cf_queue = [], cf_writer = WIdle, cf_reader = (\<lambda>_. RIdle)\<rparr>"

definition enqueue :: "task \<Rightarrow> mode \<Rightarrow> ('n, 'nu, 'a, 'au, 'm) config \<Rightarrow> ('n, 'nu, 'a, 'au, 'm) config" where
  "enqueue t m c = c\<lparr>cf_queue := cf_queue c @ [(t, m)]\<rparr>"

definition release :: "task \<Rightarrow> mode \<Rightarrow> ('n, 'nu, 'a, 'au, 'm) config \<Rightarrow> ('n, 'nu, 'a, 'au, 'm) config" where
  "release t m c = c\<lparr>cf_holders := remove1 (t, m) (cf_holders c)\<rparr>"

text \<open>An admitted task continues.\<close>

fun writer_admitted :: "mode \<Rightarrow> ('nu, 'au) writer_pc \<Rightarrow> ('nu, 'au) writer_pc" where
  "writer_admitted Shared (WQueuedRead b) = WReading b"
| "writer_admitted Exclusive (WQueuedWrite b u d) = WWriting b u d"
| "writer_admitted m pc = pc"

fun reader_admitted :: "reader_pc \<Rightarrow> reader_pc" where
  "reader_admitted (RQueued twice) = RHolding twice"
| "reader_admitted RQueuedAgain = RHoldingTwice"
| "reader_admitted pc = pc"

fun admitted :: "task \<times> mode \<Rightarrow> ('n, 'nu, 'a, 'au, 'm) config \<Rightarrow> ('n, 'nu, 'a, 'au, 'm) config" where
  "admitted (Writer, m) c = c\<lparr>cf_writer := writer_admitted m (cf_writer c)\<rparr>"
| "admitted (Reader t, m) c = c\<lparr>cf_reader := (cf_reader c)(t := reader_admitted (cf_reader c t))\<rparr>"

definition admit :: "nat \<Rightarrow> ('n, 'nu, 'a, 'au, 'm) config \<Rightarrow> ('n, 'nu, 'a, 'au, 'm) config" where
  "admit i c = admitted (cf_queue c ! i)
     (c\<lparr>cf_holders := cf_queue c ! i # cf_holders c, cf_queue := take i (cf_queue c) @ drop (Suc i) (cf_queue c)\<rparr>)"

section \<open>Steps\<close>

inductive lock_step :: "('n, 'nu, 'a, 'au, 'm, 'p, 'w) trees \<Rightarrow> block_params \<Rightarrow> lock_policy \<Rightarrow>
    ('n, 'nu, 'a, 'au, 'm) config \<Rightarrow> ('n, 'nu, 'a, 'au, 'm) config \<Rightarrow> bool" for L P grant where
  admit: "grant (cf_holders c) (cf_queue c) i \<Longrightarrow> i < length (cf_queue c) \<Longrightarrow> lock_step L P grant c (admit i c)"
| r_request: "cf_reader c t = RIdle \<Longrightarrow>
    lock_step L P grant c (enqueue (Reader t) Shared (c\<lparr>cf_reader := (cf_reader c)(t := RQueued twice)\<rparr>))"
| r_again: "cf_reader c t = RHolding True \<Longrightarrow>
    lock_step L P grant c (enqueue (Reader t) Shared (c\<lparr>cf_reader := (cf_reader c)(t := RQueuedAgain)\<rparr>))"
| r_inner: "cf_reader c t = RHoldingTwice \<Longrightarrow>
    lock_step L P grant c (release (Reader t) Shared (c\<lparr>cf_reader := (cf_reader c)(t := RHoldingLast)\<rparr>))"
| r_done: "cf_reader c t = RHolding twice \<or> cf_reader c t = RHoldingLast \<Longrightarrow>
    lock_step L P grant c (release (Reader t) Shared (c\<lparr>cf_reader := (cf_reader c)(t := RIdle)\<rparr>))"
| w_start: "cf_writer c = WIdle \<Longrightarrow> block_wf block \<Longrightarrow> check_header (st_db (cf_store c)) block = Inr () \<Longrightarrow>
    lock_step L P grant c (enqueue Writer Shared (c\<lparr>cf_writer := WQueuedRead block,
      cf_store := (cf_store c)\<lparr>st_blocks := (st_blocks (cf_store c))(sh_block_num (pb_header block) \<mapsto> block)\<rparr>\<rparr>))"
| w_compute: "cf_writer c = WReading block \<Longrightarrow> compute_updates L (st_inner (cf_store c)) block = Inr u \<Longrightarrow>
    lock_step L P grant c (release Writer Shared (c\<lparr>cf_writer := WComputed block u\<rparr>))"
| w_reject: "cf_writer c = WReading block \<Longrightarrow> compute_updates L (st_inner (cf_store c)) block = Inl e \<Longrightarrow>
    lock_step L P grant c (release Writer Shared (c\<lparr>cf_writer := WIdle\<rparr>))"
| w_write: "cf_writer c = WComputed block u \<Longrightarrow> block_notes block = Inr records \<Longrightarrow>
    write_block P block records (st_db (cf_store c)) = Inr (d, k) \<Longrightarrow>
    lock_step L P grant c (c\<lparr>cf_writer := WPrepared block u d\<rparr>)"
| w_abort: "cf_writer c = WComputed block u \<or> cf_writer c = WPrepared block u d \<Longrightarrow>
    lock_step L P grant c (c\<lparr>cf_writer := WIdle\<rparr>)"
| w_request: "cf_writer c = WPrepared block u d \<Longrightarrow>
    lock_step L P grant c (enqueue Writer Exclusive (c\<lparr>cf_writer := WQueuedWrite block u d\<rparr>))"
| w_commit: "cf_writer c = WWriting block u d \<Longrightarrow> \<not> roots_changed L u (st_inner (cf_store c)) \<Longrightarrow>
    lock_step L P grant c (c\<lparr>cf_writer := WCommitted block u, cf_store := (cf_store c)\<lparr>st_db := d\<rparr>\<rparr>)"
| w_fail: "cf_writer c = WWriting block u d \<Longrightarrow>
    lock_step L P grant c (release Writer Exclusive (c\<lparr>cf_writer := WIdle\<rparr>))"
| w_update: "cf_writer c = WCommitted block u \<Longrightarrow>
    update_inner L u (sh_commitment (pb_header block)) (st_inner (cf_store c)) = Some inner \<Longrightarrow>
    lock_step L P grant c (release Writer Exclusive (c\<lparr>cf_writer := WIdle, cf_store := (cf_store c)\<lparr>st_inner := inner\<rparr>\<rparr>))"

inductive lock_steps :: "('n, 'nu, 'a, 'au, 'm, 'p, 'w) trees \<Rightarrow> block_params \<Rightarrow> lock_policy \<Rightarrow>
    ('n, 'nu, 'a, 'au, 'm) config \<Rightarrow> ('n, 'nu, 'a, 'au, 'm) config \<Rightarrow> bool" for L P grant where
  here: "lock_steps L P grant c c"
| onward: "lock_steps L P grant c c' \<Longrightarrow> lock_step L P grant c' c'' \<Longrightarrow> lock_steps L P grant c c''"

section \<open>The invariant\<close>

text \<open>How often a task holds the lock, and waits for it, at its position.\<close>

fun writer_held :: "mode \<Rightarrow> ('nu, 'au) writer_pc \<Rightarrow> nat" where
  "writer_held Shared (WReading b) = 1"
| "writer_held Exclusive (WWriting b u d) = 1"
| "writer_held Exclusive (WCommitted b u) = 1"
| "writer_held m pc = 0"

fun writer_waits :: "mode \<Rightarrow> ('nu, 'au) writer_pc \<Rightarrow> nat" where
  "writer_waits Shared (WQueuedRead b) = 1"
| "writer_waits Exclusive (WQueuedWrite b u d) = 1"
| "writer_waits m pc = 0"

fun reader_held :: "reader_pc \<Rightarrow> nat" where
  "reader_held RIdle = 0"
| "reader_held (RQueued twice) = 0"
| "reader_held RHoldingTwice = 2"
| "reader_held pc = 1"

fun reader_waits :: "reader_pc \<Rightarrow> nat" where
  "reader_waits (RQueued twice) = 1"
| "reader_waits RQueuedAgain = 1"
| "reader_waits pc = 0"

fun held :: "('n, 'nu, 'a, 'au, 'm) config \<Rightarrow> task \<times> mode \<Rightarrow> nat" where
  "held c (Writer, m) = writer_held m (cf_writer c)"
| "held c (Reader t, Shared) = reader_held (cf_reader c t)"
| "held c (Reader t, Exclusive) = 0"

fun waits :: "('n, 'nu, 'a, 'au, 'm) config \<Rightarrow> task \<times> mode \<Rightarrow> nat" where
  "waits c (Writer, m) = writer_waits m (cf_writer c)"
| "waits c (Reader t, Shared) = reader_waits (cf_reader c t)"
| "waits c (Reader t, Exclusive) = 0"

definition lock_ok :: "('n, 'nu, 'a, 'au, 'm) config \<Rightarrow> bool" where
  "lock_ok c \<longleftrightarrow> (\<forall>e. count (mset (cf_holders c)) e = held c e) \<and> (\<forall>e. count (mset (cf_queue c)) e = waits c e)
     \<and> ((Writer, Exclusive) \<in> set (cf_holders c) \<longrightarrow> cf_holders c = [(Writer, Exclusive)])"

lemma lock_okD:
  assumes "lock_ok c"
  shows "count (mset (cf_holders c)) e = held c e" "count (mset (cf_queue c)) e = waits c e"
    "(Writer, Exclusive) \<in> set (cf_holders c) \<Longrightarrow> cf_holders c = [(Writer, Exclusive)]"
  using assms unfolding lock_ok_def by blast+

lemma lock_okI:
  assumes "\<And>e. count (mset (cf_holders c)) e = held c e" "\<And>e. count (mset (cf_queue c)) e = waits c e"
    "(Writer, Exclusive) \<in> set (cf_holders c) \<Longrightarrow> cf_holders c = [(Writer, Exclusive)]"
  shows "lock_ok c"
  using assms unfolding lock_ok_def by blast

lemma in_holders: "lock_ok c \<Longrightarrow> e \<in> set (cf_holders c) \<longleftrightarrow> held c e > 0"
  by (simp add: lock_okD(1)[symmetric])

lemma in_queue: "lock_ok c \<Longrightarrow> e \<in> set (cf_queue c) \<longleftrightarrow> waits c e > 0"
  by (simp add: lock_okD(2)[symmetric])

lemma task_mode_cases:
  obtains m where "e = (Writer, m)" | t where "e = (Reader t, Shared)" | t where "e = (Reader t, Exclusive)"
  by (cases e; cases "fst e"; cases "snd e") auto

lemma initial_ok: "lock_ok (initial s)"
proof (rule lock_okI)
  fix e :: "task \<times> mode"
  show "count (mset (cf_holders (initial s))) e = held (initial s) e"
    by (cases e rule: task_mode_cases) (simp_all add: initial_def)
  show "count (mset (cf_queue (initial s))) e = waits (initial s) e"
    by (cases e rule: task_mode_cases) (simp_all add: initial_def)
qed (simp add: initial_def)

text \<open>A step of a task changes what its own entries hold or wait for.\<close>

lemma enqueue_ok:
  assumes ok: "lock_ok c" and e: "\<And>e. held c' e = held c e" "\<And>e. waits c' e = waits c e + (if e = (t, m) then 1 else 0)"
    "cf_holders c' = cf_holders c" "cf_queue c' = cf_queue c"
  shows "lock_ok (enqueue t m c')"
proof (rule lock_okI)
  fix x
  have "held (enqueue t m c') x = held c' x" "waits (enqueue t m c') x = waits c' x"
    by (cases x rule: task_mode_cases; simp add: enqueue_def)+
  then show "count (mset (cf_holders (enqueue t m c'))) x = held (enqueue t m c') x"
    "count (mset (cf_queue (enqueue t m c'))) x = waits (enqueue t m c') x"
    using lock_okD(1,2)[OF ok] e by (simp_all add: enqueue_def)
qed (use lock_okD(3)[OF ok] e in \<open>simp add: enqueue_def\<close>)

lemma release_ok:
  assumes ok: "lock_ok c" and e: "\<And>e. held c' e = held c e - (if e = (t, m) then 1 else 0)" "\<And>e. waits c' e = waits c e"
    "cf_holders c' = cf_holders c" "cf_queue c' = cf_queue c"
  shows "lock_ok (release t m c')"
proof (rule lock_okI)
  fix x
  have "held (release t m c') x = held c' x" "waits (release t m c') x = waits c' x"
    by (cases x rule: task_mode_cases; simp add: release_def)+
  then show "count (mset (cf_holders (release t m c'))) x = held (release t m c') x"
    "count (mset (cf_queue (release t m c'))) x = waits (release t m c') x"
    using lock_okD(1,2)[OF ok] e by (simp_all add: release_def)
next
  assume "(Writer, Exclusive) \<in> set (cf_holders (release t m c'))"
  then have r: "(Writer, Exclusive) \<in> set (remove1 (t, m) (cf_holders c))" by (simp add: release_def e)
  then have "cf_holders c = [(Writer, Exclusive)]" using lock_okD(3)[OF ok] by (auto dest: notin_set_remove1)
  with r show "cf_holders (release t m c') = [(Writer, Exclusive)]" by (auto simp: release_def e split: if_splits)
qed

lemma writer_steps:
  assumes ok: "lock_ok c"
  shows "(\<And>m'. writer_held m' pc = writer_held m' (cf_writer c)) \<Longrightarrow>
      (\<And>m'. writer_waits m' pc = writer_waits m' (cf_writer c) + (if m' = m then 1 else 0)) \<Longrightarrow>
      lock_ok (enqueue Writer m (c\<lparr>cf_writer := pc\<rparr>))"
    and "(\<And>m'. writer_held m' pc = writer_held m' (cf_writer c) - (if m' = m then 1 else 0)) \<Longrightarrow>
      (\<And>m'. writer_waits m' pc = writer_waits m' (cf_writer c)) \<Longrightarrow>
      lock_ok (release Writer m (c\<lparr>cf_writer := pc\<rparr>))"
    and "(\<And>m'. writer_held m' pc = writer_held m' (cf_writer c)) \<Longrightarrow> (\<And>m'. writer_waits m' pc = writer_waits m' (cf_writer c)) \<Longrightarrow>
      lock_ok (c\<lparr>cf_writer := pc\<rparr>)"
proof -
  let ?c = "c\<lparr>cf_writer := pc\<rparr>"
  have h: "held ?c e = (case e of (Writer, m') \<Rightarrow> writer_held m' pc | _ \<Rightarrow> held c e)"
    "waits ?c e = (case e of (Writer, m') \<Rightarrow> writer_waits m' pc | _ \<Rightarrow> waits c e)" for e
    by (cases e rule: task_mode_cases; simp)+
  show "lock_ok (enqueue Writer m ?c)"
    if "\<And>m'. writer_held m' pc = writer_held m' (cf_writer c)" "\<And>m'. writer_waits m' pc = writer_waits m' (cf_writer c) + (if m' = m then 1 else 0)"
    by (rule enqueue_ok[OF ok]) (auto simp: h that split: prod.split task.split)
  show "lock_ok (release Writer m ?c)"
    if "\<And>m'. writer_held m' pc = writer_held m' (cf_writer c) - (if m' = m then 1 else 0)" "\<And>m'. writer_waits m' pc = writer_waits m' (cf_writer c)"
    by (rule release_ok[OF ok]) (auto simp: h that split: prod.split task.split)
  show "lock_ok ?c"
    if "\<And>m'. writer_held m' pc = writer_held m' (cf_writer c)" "\<And>m'. writer_waits m' pc = writer_waits m' (cf_writer c)"
    by (rule lock_okI) (use lock_okD[OF ok] in \<open>auto simp: h that split: prod.split task.split\<close>)
qed

lemma reader_steps:
  assumes ok: "lock_ok c"
  defines "c' \<equiv> \<lambda>t pc. c\<lparr>cf_reader := (cf_reader c)(t := pc)\<rparr>"
  shows "reader_held pc = reader_held (cf_reader c t) \<Longrightarrow> reader_waits pc = reader_waits (cf_reader c t) + 1 \<Longrightarrow>
      lock_ok (enqueue (Reader t) Shared (c' t pc))"
    and "reader_held pc = reader_held (cf_reader c t) - 1 \<Longrightarrow> reader_waits pc = reader_waits (cf_reader c t) \<Longrightarrow>
      lock_ok (release (Reader t) Shared (c' t pc))"
proof -
  have h: "held (c' t pc) e = (if e = (Reader t, Shared) then reader_held pc else held c e)"
    "waits (c' t pc) e = (if e = (Reader t, Shared) then reader_waits pc else waits c e)" for e
    unfolding c'_def by (cases e rule: task_mode_cases; simp)+
  show "lock_ok (enqueue (Reader t) Shared (c' t pc))"
    if "reader_held pc = reader_held (cf_reader c t)" "reader_waits pc = reader_waits (cf_reader c t) + 1"
    by (rule enqueue_ok[OF ok]) (use that in \<open>simp_all add: h, simp_all add: c'_def\<close>)
  show "lock_ok (release (Reader t) Shared (c' t pc))"
    if "reader_held pc = reader_held (cf_reader c t) - 1" "reader_waits pc = reader_waits (cf_reader c t)"
    by (rule release_ok[OF ok]) (use that in \<open>simp_all add: h, simp_all add: c'_def\<close>)
qed

lemma remove_nth_mset: "i < length xs \<Longrightarrow> mset (take i xs @ drop (Suc i) xs) = mset xs - {#xs ! i#}"
proof -
  assume "i < length xs"
  then have "mset xs = add_mset (xs ! i) (mset (take i xs @ drop (Suc i) xs))"
    by (metis id_take_nth_drop mset.simps(2) mset_append union_mset_add_mset_right)
  then show ?thesis by simp
qed

lemma admit_fields:
  "cf_holders (admit i c) = cf_queue c ! i # cf_holders c" "cf_queue (admit i c) = take i (cf_queue c) @ drop (Suc i) (cf_queue c)"
  "cf_store (admit i c) = cf_store c"
  by (cases "cf_queue c ! i" rule: task_mode_cases; simp add: admit_def)+

lemma admit_counts:
  assumes ok: "lock_ok c" and i: "i < length (cf_queue c)"
  shows "held (admit i c) e = held c e + (if e = cf_queue c ! i then 1 else 0)
    \<and> waits (admit i c) e = waits c e - (if e = cf_queue c ! i then 1 else 0)"
proof -
  let ?q = "cf_queue c ! i"
  have w: "waits c ?q > 0" using in_queue[OF ok, of ?q] i by simp
  show ?thesis
  proof (cases "?q" rule: task_mode_cases)
    case (1 m)
    have "writer_held m' (writer_admitted m (cf_writer c)) = writer_held m' (cf_writer c) + (if m' = m then 1 else 0)
        \<and> writer_waits m' (writer_admitted m (cf_writer c)) = writer_waits m' (cf_writer c) - (if m' = m then 1 else 0)" for m'
      using w unfolding 1 by (cases m; cases "cf_writer c"; cases m') simp_all
    with 1 show ?thesis by (cases e rule: task_mode_cases) (auto simp: admit_def)
  next
    case (2 t)
    with w show ?thesis by (cases "cf_reader c t"; cases e rule: task_mode_cases) (auto simp: admit_def)
  next
    case (3 t)
    with w show ?thesis by simp
  qed
qed

lemma admit_ok:
  assumes fair: "fair_lock grant" and ok: "lock_ok c" and g: "grant (cf_holders c) (cf_queue c) i"
  shows "lock_ok (admit i c)"
proof (rule lock_okI)
  from fair g have i: "i < length (cf_queue c)" and comp: "compatible (cf_holders c) (snd (cf_queue c ! i))"
    by (simp_all add: fair_lock_def)
  note counts = admit_counts[OF ok i]
  show "count (mset (cf_holders (admit i c))) e = held (admit i c) e" for e
    using counts[of e] lock_okD(1)[OF ok, of e] by (simp add: admit_fields)
  show "count (mset (cf_queue (admit i c))) e = waits (admit i c) e" for e
    unfolding admit_fields remove_nth_mset[OF i] using counts[of e] lock_okD(2)[OF ok, of e] by simp
  assume w: "(Writer, Exclusive) \<in> set (cf_holders (admit i c))"
  show "cf_holders (admit i c) = [(Writer, Exclusive)]"
  proof (cases "cf_queue c ! i = (Writer, Exclusive)")
    case True
    then show ?thesis using comp by (simp add: admit_fields compatible_def)
  next
    case False
    with w have "(Writer, Exclusive) \<in> set (cf_holders c)" by (auto simp: admit_fields)
    then have h: "cf_holders c = [(Writer, Exclusive)]" by (rule lock_okD(3)[OF ok])
    with comp show ?thesis by (cases "snd (cf_queue c ! i)") (simp_all add: compatible_def)
  qed
qed

lemma lock_ok_store: "lock_ok c \<Longrightarrow> lock_ok (c\<lparr>cf_store := s\<rparr>)"
proof -
  have "held (c\<lparr>cf_store := s\<rparr>) e = held c e" "waits (c\<lparr>cf_store := s\<rparr>) e = waits c e" for e
    by (cases e rule: task_mode_cases; simp)+
  then show "lock_ok c \<Longrightarrow> lock_ok (c\<lparr>cf_store := s\<rparr>)" unfolding lock_ok_def by simp
qed

lemma store_last:
  "enqueue t m (c\<lparr>cf_writer := pc, cf_store := s\<rparr>) = (enqueue t m (c\<lparr>cf_writer := pc\<rparr>))\<lparr>cf_store := s\<rparr>"
  "release t m (c\<lparr>cf_writer := pc, cf_store := s\<rparr>) = (release t m (c\<lparr>cf_writer := pc\<rparr>))\<lparr>cf_store := s\<rparr>"
  by (simp_all add: enqueue_def release_def)

lemma lock_step_ok:
  assumes fair: "fair_lock grant" and run: "lock_step L P grant c c'" and ok: "lock_ok c"
  shows "lock_ok c'"
proof -
  have two: "Q m" if "Q Shared" "Q Exclusive" for Q and m :: mode using that by (cases m) auto
  show ?thesis
    using run
  proof cases
    case (admit i)
    then show ?thesis using admit_ok[OF fair ok] by simp
  next
    case (r_request t twice)
    then show ?thesis using reader_steps(1)[OF ok] by simp
  next
    case (r_again t)
    then show ?thesis using reader_steps(1)[OF ok] by simp
  next
    case (r_inner t)
    then show ?thesis using reader_steps(2)[OF ok] by simp
  next
    case (r_done t twice)
    then show ?thesis using reader_steps(2)[OF ok] by auto
  next
    case (w_start block)
    show ?thesis unfolding w_start(1) store_last by (rule lock_ok_store, rule writer_steps(1)[OF ok]; rule two; simp add: w_start)
  next
    case (w_compute block u)
    show ?thesis unfolding w_compute(1) by (rule writer_steps(2)[OF ok]; rule two; simp add: w_compute)
  next
    case (w_reject block e)
    show ?thesis unfolding w_reject(1) by (rule writer_steps(2)[OF ok]; rule two; simp add: w_reject)
  next
    case (w_write block u records d k)
    show ?thesis unfolding w_write(1) by (rule writer_steps(3)[OF ok]; rule two; simp add: w_write)
  next
    case (w_abort block u d)
    show ?thesis unfolding w_abort(1) using w_abort(2)
      by (elim disjE) (rule writer_steps(3)[OF ok]; rule two; simp)+
  next
    case (w_request block u d)
    show ?thesis unfolding w_request(1) by (rule writer_steps(1)[OF ok]; rule two; simp add: w_request)
  next
    case (w_commit block u d)
    show ?thesis unfolding w_commit(1) by (rule lock_ok_store, rule writer_steps(3)[OF ok]; rule two; simp add: w_commit)
  next
    case (w_fail block u d)
    show ?thesis unfolding w_fail(1) by (rule writer_steps(2)[OF ok]; rule two; simp add: w_fail)
  next
    case (w_update block u inner)
    show ?thesis unfolding w_update(1) store_last by (rule lock_ok_store, rule writer_steps(2)[OF ok]; rule two; simp add: w_update)
  qed
qed

end
