(* ===== verification/Store_Snapshot.thy ===== *)
theory Store_Snapshot
  imports Store_Locking
begin

text \<open>
  What the lock gives: a request that holds it sees the database and the trees of one block.  What it
  costs: a request that asks for it twice can block the store for good.
\<close>

section \<open>The store during the steps\<close>

definition candidate :: "('n, 'a, 'm) store_state \<Rightarrow> proven_block \<Rightarrow> bool" where
  "candidate s block \<longleftrightarrow> block_wf block \<and> check_header (st_db s) block = Inr () \<and> st_blocks s (sh_block_num (pb_header block)) = Some block"

definition computed :: "('n, 'nu, 'a, 'au, 'm, 'p, 'w) trees \<Rightarrow> ('n, 'a, 'm) store_state \<Rightarrow> proven_block \<Rightarrow> ('nu, 'au) tree_updates \<Rightarrow> bool" where
  "computed L s block u \<longleftrightarrow> candidate s block \<and> compute_updates L (st_inner s) block = Inr u"

definition prepared :: "('n, 'nu, 'a, 'au, 'm, 'p, 'w) trees \<Rightarrow> block_params \<Rightarrow> ('n, 'a, 'm) store_state \<Rightarrow> proven_block \<Rightarrow>
    ('nu, 'au) tree_updates \<Rightarrow> db \<Rightarrow> bool" where
  "prepared L P s block u d \<longleftrightarrow> computed L s block u \<and> (\<exists>records k. write_block P block records (st_db s) = Inr (d, k))"

fun store_inv :: "('n, 'nu, 'a, 'au, 'm, 'p, 'w) trees \<Rightarrow> block_params \<Rightarrow> ('n, 'a, 'm) store_state \<Rightarrow> ('nu, 'au) writer_pc \<Rightarrow> bool" where
  "store_inv L P s WIdle = consistent L s"
| "store_inv L P s (WQueuedRead b) = (consistent L s \<and> candidate s b)"
| "store_inv L P s (WReading b) = (consistent L s \<and> candidate s b)"
| "store_inv L P s (WComputed b u) = (consistent L s \<and> computed L s b u)"
| "store_inv L P s (WPrepared b u d) = (consistent L s \<and> prepared L P s b u d)"
| "store_inv L P s (WQueuedWrite b u d) = (consistent L s \<and> prepared L P s b u d)"
| "store_inv L P s (WWriting b u d) = (consistent L s \<and> prepared L P s b u d)"
| "store_inv L P s (WCommitted b u) = (\<exists>inner. update_inner L u (sh_commitment (pb_header b)) (st_inner s) = Some inner
     \<and> consistent L (s\<lparr>st_inner := inner\<rparr>))"

lemma store_inv_consistent: "store_inv L P s pc \<Longrightarrow> \<forall>b u. pc \<noteq> WCommitted b u \<Longrightarrow> consistent L s"
  by (cases pc) auto

lemma prepared_commit:
  assumes trees: "trees_ok L" and con: "consistent L s" and p: "prepared L P s b u d"
  shows "store_inv L P (s\<lparr>st_db := d\<rparr>) (WCommitted b u)"
proof -
  from p obtain records k where c: "candidate s b" and u: "compute_updates L (st_inner s) b = Inr u"
    and w: "write_block P b records (st_db s) = Inr (d, k)" by (auto simp: prepared_def computed_def)
  from con have chain: "chain_ok (st_db s)" and mir: "mirrors L (st_db s) (st_inner s)" and st: "blocks_stored (st_db s) (st_blocks s)"
    by (simp_all add: consistent_def)
  from c have wf: "block_wf b" and ch: "check_header (st_db s) b = Inr ()" and sv: "st_blocks s (sh_block_num (pb_header b)) = Some b"
    by (simp_all add: candidate_def)
  note head = check_header_Inr[OF chain ch]
  note upd = update_mirrors[OF trees chain mir wf u head(1) w]
  obtain inner where i: "update_inner L u (sh_commitment (pb_header b)) (st_inner s) = Some inner" "mirrors L d inner" using upd(1) by blast
  have "chain_ok d"
    by (rule chain_ok_extend[OF chain w[unfolded write_block_def] head upd(2)]) (use wf in \<open>simp add: block_wf_def\<close>)
  moreover have "blocks_stored d (st_blocks s)"
    using st sv sql_apply_block_effect(1)[OF w[unfolded write_block_def]] by (auto simp: blocks_stored_def)
  ultimately show ?thesis using i by (simp add: consistent_def)
qed

lemma candidate_saved:
  assumes trees: "trees_ok L" and con: "consistent L s" and wf: "block_wf b" and ch: "check_header (st_db s) b = Inr ()"
  shows "store_inv L P (s\<lparr>st_blocks := (st_blocks s)(sh_block_num (pb_header b) \<mapsto> b)\<rparr>) (WQueuedRead b)"
proof -
  have "sh_block_num (pb_header b) = length (db_block_headers (st_db s))"
    using check_header_Inr(1)[OF _ ch] con by (simp add: consistent_def)
  from candidate_invisible(1)[OF trees con this, of b] wf ch show ?thesis by (simp add: candidate_def)
qed

lemma admitted_inv: "store_inv L P s pc \<Longrightarrow> store_inv L P s (writer_admitted m pc)"
  by (cases m; cases pc) auto

lemma admit_writer: "cf_writer (admit i c) = cf_writer c \<or> (\<exists>m. cf_writer (admit i c) = writer_admitted m (cf_writer c))"
  by (cases "cf_queue c ! i" rule: task_mode_cases) (auto simp: admit_def)

lemma store_step_inv:
  assumes trees: "trees_ok L" and run: "lock_step L P grant c c'" and inv: "store_inv L P (cf_store c) (cf_writer c)"
  shows "store_inv L P (cf_store c') (cf_writer c')"
  using run
proof cases
  case (admit i)
  then show ?thesis using admit_writer[of i c] admitted_inv[OF inv] inv by (auto simp: admit_fields)
next
  case (w_start block)
  then show ?thesis using candidate_saved[OF trees _ w_start(3,4)] inv by (simp add: enqueue_def)
next
  case (w_commit block u d)
  then show ?thesis using prepared_commit[OF trees, of "cf_store c" P block u d] inv by simp
next
  case (w_update block u inner)
  then show ?thesis using inv by (auto simp: release_def)
next
  case (w_write block u records d k)
  then show ?thesis using inv by (auto simp: prepared_def)
next
  case (w_abort block u d)
  then show ?thesis using inv by auto
qed (use inv in \<open>auto simp: enqueue_def release_def computed_def\<close>)

lemma lock_steps_ok:
  assumes fair: "fair_lock grant"
  shows "lock_steps L P grant c0 c \<Longrightarrow> lock_ok c0 \<Longrightarrow> lock_ok c"
  by (induction rule: lock_steps.induct) (auto dest: lock_step_ok[OF fair])

lemma store_steps_inv:
  assumes trees: "trees_ok L"
  shows "lock_steps L P grant c0 c \<Longrightarrow> store_inv L P (cf_store c0) (cf_writer c0) \<Longrightarrow> store_inv L P (cf_store c) (cf_writer c)"
  by (induction rule: lock_steps.induct) (auto dest: store_step_inv[OF trees])

section \<open>Requests see one block\<close>

text \<open>
  C18. However requests and the application of blocks interleave, a request that holds the lock sees a
  consistent store: the trees in memory are those of the database, and the blocks of the chain are
  stored. Neither the database nor the trees change before it releases the lock, although the block's
  transaction is written and the file saved in the meantime.
\<close>

theorem readers_see_one_block:
  assumes trees: "trees_ok L" and fair: "fair_lock grant" and con: "consistent L s"
    and run: "lock_steps L P grant (initial s) c" and holds: "reader_held (cf_reader c t) > 0"
  shows "consistent L (cf_store c)
    \<and> (\<forall>c'. lock_step L P grant c c' \<longrightarrow> st_db (cf_store c') = st_db (cf_store c) \<and> st_inner (cf_store c') = st_inner (cf_store c))"
proof -
  have ok: "lock_ok c" by (rule lock_steps_ok[OF fair run initial_ok])
  have inv: "store_inv L P (cf_store c) (cf_writer c)" by (rule store_steps_inv[OF trees run]) (simp add: con initial_def)
  have "(Reader t, Shared) \<in> set (cf_holders c)" using in_holders[OF ok] holds by simp
  then have no: "writer_held Exclusive (cf_writer c) = 0"
    using in_holders[OF ok, of "(Writer, Exclusive)"] lock_okD(3)[OF ok] by fastforce
  have "consistent L (cf_store c)" by (rule store_inv_consistent[OF inv]) (use no in auto)
  moreover have "st_db (cf_store c') = st_db (cf_store c) \<and> st_inner (cf_store c') = st_inner (cf_store c)" if "lock_step L P grant c c'" for c'
    using that by cases (use no in \<open>auto simp: enqueue_def release_def admit_fields\<close>)
  ultimately show ?thesis by blast
qed

text \<open>The first-in, first-out lock.\<close>

definition fifo :: lock_policy where
  "fifo holders queue i \<longleftrightarrow> i = 0 \<and> queue \<noteq> [] \<and> compatible holders (snd (hd queue))"

lemma fifo_fair: "fair_lock fifo"
  by (auto simp: fair_lock_def fifo_def hd_conv_nth)

definition sample_start ::
  "((nullifier \<times> block_number) list, (nullifier \<times> block_number) list, (account_ident \<times> digest) list, (account_ident \<times> digest) list, digest list) config" where
  "sample_start = initial sample_store"

theorem readers_see_one_block_witness:
  "\<exists>c. lock_steps sample_trees sample_params fifo sample_start c \<and> cf_reader c 5 = RHolding False \<and> consistent sample_trees (cf_store c)"
proof -
  let ?c1 = "enqueue (Reader 5) Shared (sample_start\<lparr>cf_reader := (cf_reader sample_start)(5 := RQueued False)\<rparr>)"
  have "lock_steps sample_trees sample_params fifo sample_start ?c1"
    by (rule lock_steps.onward[OF lock_steps.here lock_step.r_request]) (simp add: sample_start_def initial_def)
  then have run: "lock_steps sample_trees sample_params fifo sample_start (admit 0 ?c1)"
    by (rule lock_steps.onward[OF _ lock_step.admit]) (simp_all add: fifo_def enqueue_def sample_start_def initial_def compatible_def)
  have pc: "cf_reader (admit 0 ?c1) 5 = RHolding False" by (simp add: admit_def enqueue_def sample_start_def initial_def)
  obtain c where run': "lock_steps sample_trees sample_params fifo (initial sample_store) c" and eq: "sample_start = initial sample_store"
    and pc': "cf_reader c 5 = RHolding False"
    using run pc unfolding sample_start_def by blast
  have "reader_held (cf_reader c 5) > 0" by (simp add: pc')
  from readers_see_one_block[OF sample_trees_ok fifo_fair sample_consistent run' this] run' pc' show ?thesis unfolding eq by blast
qed

section \<open>A request that blocks the store\<close>

text \<open>
  A request that holds the lock, with the writer queued after it, waits for itself: its second request
  is behind the writer, and the writer waits for its first.
\<close>

definition stuck :: "nat \<Rightarrow> ('n, 'nu, 'a, 'au, 'm) config \<Rightarrow> bool" where
  "stuck t c \<longleftrightarrow> (Reader t, Shared) \<in> set (cf_holders c) \<and> cf_reader c t = RQueuedAgain
     \<and> (\<exists>b u d. cf_writer c = WQueuedWrite b u d)
     \<and> (\<exists>ahead behind. cf_queue c = ahead @ (Writer, Exclusive) # behind \<and> (\<forall>r \<in> set ahead. \<exists>t'. t' \<noteq> t \<and> r = (Reader t', Shared)))"

lemma stuck_admit:
  assumes fair: "fair_lock grant" and stuck: "stuck t c" and g: "grant (cf_holders c) (cf_queue c) i"
  shows "stuck t (admit i c) \<and> cf_writer (admit i c) = cf_writer c"
proof -
  from stuck obtain ahead behind where q: "cf_queue c = ahead @ (Writer, Exclusive) # behind"
    and ahead: "\<forall>r \<in> set ahead. \<exists>t'. t' \<noteq> t \<and> r = (Reader t', Shared)" and held: "(Reader t, Shared) \<in> set (cf_holders c)"
    by (auto simp: stuck_def)
  from fair g have i: "i < length (cf_queue c)" and comp: "compatible (cf_holders c) (snd (cf_queue c ! i))"
    and fifo: "\<forall>j < i. snd (cf_queue c ! j) \<noteq> Exclusive" by (simp_all add: fair_lock_def)
  have "i \<noteq> length ahead" using comp held by (auto simp: q compatible_def)
  moreover have "\<not> length ahead < i" using fifo by (auto simp: q)
  ultimately have less: "i < length ahead" by simp
  then have "\<exists>t'. t' \<noteq> t \<and> ahead ! i = (Reader t', Shared)" using ahead nth_mem by blast
  with less obtain t' where t': "t' \<noteq> t" "cf_queue c ! i = (Reader t', Shared)" by (auto simp: q nth_append)
  have rest: "cf_queue (admit i c) = (take i ahead @ drop (Suc i) ahead) @ (Writer, Exclusive) # behind"
    using less by (simp add: admit_fields q)
  have "\<forall>r \<in> set (take i ahead @ drop (Suc i) ahead). \<exists>t'. t' \<noteq> t \<and> r = (Reader t', Shared)"
    using ahead by (auto dest: in_set_takeD in_set_dropD)
  with rest have "\<exists>ahead behind. cf_queue (admit i c) = ahead @ (Writer, Exclusive) # behind
      \<and> (\<forall>r \<in> set ahead. \<exists>t'. t' \<noteq> t \<and> r = (Reader t', Shared))" by blast
  moreover have "cf_writer (admit i c) = cf_writer c" "cf_reader (admit i c) t = cf_reader c t" using t' by (simp_all add: admit_def)
  ultimately show ?thesis using stuck held by (simp add: stuck_def admit_fields)
qed

lemma stuck_enqueue: "stuck t c \<Longrightarrow> t' \<noteq> t \<Longrightarrow> stuck t (enqueue (Reader t') Shared (c\<lparr>cf_reader := (cf_reader c)(t' := pc)\<rparr>))"
  unfolding stuck_def enqueue_def by fastforce

lemma stuck_release: "stuck t c \<Longrightarrow> t' \<noteq> t \<Longrightarrow> stuck t (release (Reader t') Shared (c\<lparr>cf_reader := (cf_reader c)(t' := pc)\<rparr>))"
  unfolding stuck_def release_def by (simp add: in_set_remove1)

lemma stuck_step:
  assumes fair: "fair_lock grant" and run: "lock_step L P grant c c'" and stuck: "stuck t c"
  shows "stuck t c' \<and> cf_writer c' = cf_writer c"
proof -
  from stuck obtain b u d where w: "cf_writer c = WQueuedWrite b u d" and r: "cf_reader c t = RQueuedAgain" by (auto simp: stuck_def)
  from run show ?thesis
  proof cases
    case (admit i)
    then show ?thesis using stuck_admit[OF fair stuck] by simp
  next
    case (r_request t' twice)
    have "t' \<noteq> t" using r_request(2) r by auto
    from stuck_enqueue[OF stuck this] show ?thesis unfolding r_request(1) by (simp add: enqueue_def)
  next
    case (r_again t')
    have "t' \<noteq> t" using r_again(2) r by auto
    from stuck_enqueue[OF stuck this] show ?thesis unfolding r_again(1) by (simp add: enqueue_def)
  next
    case (r_inner t')
    have "t' \<noteq> t" using r_inner(2) r by auto
    from stuck_release[OF stuck this] show ?thesis unfolding r_inner(1) by (simp add: release_def)
  next
    case (r_done t' twice)
    have "t' \<noteq> t" using r_done(2) r by auto
    from stuck_release[OF stuck this] show ?thesis unfolding r_done(1) by (simp add: release_def)
  qed (use w in simp_all)
qed

lemma stuck_forever:
  assumes fair: "fair_lock grant"
  shows "lock_steps L P grant c c' \<Longrightarrow> stuck t c \<Longrightarrow> stuck t c' \<and> cf_writer c' = cf_writer c"
  by (induction rule: lock_steps.induct) (auto dest: stuck_step[OF fair])

lemma stuck_again:
  assumes "lock_ok c" "cf_reader c t = RHolding True" "cf_writer c = WQueuedWrite b u d" "cf_queue c = [(Writer, Exclusive)]"
  shows "stuck t (enqueue (Reader t) Shared (c\<lparr>cf_reader := (cf_reader c)(t := RQueuedAgain)\<rparr>))"
proof -
  have "(Reader t, Shared) \<in> set (cf_holders c)" using in_holders[OF assms(1)] assms(2) by simp
  moreover have "cf_queue c @ [(Reader t, Shared)] = [] @ (Writer, Exclusive) # [(Reader t, Shared)]" using assms(4) by simp
  ultimately show ?thesis
    unfolding stuck_def enqueue_def using assms(3) by simp (metis append_Nil empty_iff empty_set)
qed

text \<open>
  C19. A deadlock. \<open>get_current_blockchain_data\<close> with a block number holds the lock and asks for it again
  for the latest block number. For every store and every block that could be applied there is an
  interleaving of this one request with the application of the block after which neither ever
  continues, whatever other requests do: the block is never committed.
\<close>

theorem current_data_deadlocks:
  assumes fair: "fair_lock grant" and wf: "block_wf block" and applies: "apply_block L P W block s = Ok s' x"
  shows "\<exists>c. lock_steps L P grant (initial s) c \<and> cf_reader c t = RQueuedAgain \<and> (\<exists>u d. cf_writer c = WQueuedWrite block u d)
    \<and> (\<forall>c'. lock_steps L P grant c c' \<longrightarrow> cf_reader c' t = RQueuedAgain \<and> cf_writer c' = cf_writer c)"
proof -
  from applies have ch: "check_header (st_db s) block = Inr ()"
    by (auto simp: apply_block_def split: if_splits sum.splits)
  with applies obtain u records d k where u: "compute_updates L (st_inner s) block = Inr u" and records: "block_notes block = Inr records"
    and d: "write_block P block records (st_db s) = Inr (d, k)"
    by (auto simp: apply_block_def finish_block_def bind_res_def split: if_splits sum.splits prod.splits)
  let ?s = "s\<lparr>st_blocks := (st_blocks s)(sh_block_num (pb_header block) \<mapsto> block)\<rparr>"
  let ?r = "\<lambda>pc. (\<lambda>_. RIdle)(t := pc)"
  let ?c = "\<lambda>s hs qs w pc. \<lparr>cf_store = s, cf_holders = hs, cf_queue = qs, cf_writer = w, cf_reader = ?r pc\<rparr>"
  have front: "grant hs ((q, m) # qs) 0" if "compatible hs m" for hs q m qs using fair that by (simp add: fair_lock_def)
  let ?last = "?c ?s [(Reader t, Shared)] [(Writer, Exclusive)] (WQueuedWrite block u d) (RHolding True)"
  have start: "initial s = ?c s [] [] WIdle RIdle" by (simp add: initial_def fun_upd_idem)
  note st = lock_steps.onward[where L = L and P = P and grant = grant and c = "initial s"]
  have "lock_steps L P grant (initial s) (?c s [] [(Reader t, Shared)] WIdle (RQueued True))"
    by (rule st[OF lock_steps.here]) (use lock_step.r_request[of "initial s" t L P grant True] in \<open>simp add: start enqueue_def\<close>)
  from st[OF this lock_step.admit[of grant _ 0]] have "lock_steps L P grant (initial s) (?c s [(Reader t, Shared)] [] WIdle (RHolding True))"
    by (simp add: front compatible_def admit_def)
  from st[OF this lock_step.w_start[OF _ wf]] ch
  have "lock_steps L P grant (initial s) (?c ?s [(Reader t, Shared)] [(Writer, Shared)] (WQueuedRead block) (RHolding True))"
    by (simp add: enqueue_def)
  from st[OF this lock_step.admit[of grant _ 0]]
  have "lock_steps L P grant (initial s) (?c ?s [(Writer, Shared), (Reader t, Shared)] [] (WReading block) (RHolding True))"
    by (simp add: front compatible_def admit_def)
  from st[OF this lock_step.w_compute[of _ block L u]]
  have "lock_steps L P grant (initial s) (?c ?s [(Reader t, Shared)] [] (WComputed block u) (RHolding True))"
    by (simp add: u release_def)
  from st[OF this lock_step.w_write[of _ block u records P d k]]
  have "lock_steps L P grant (initial s) (?c ?s [(Reader t, Shared)] [] (WPrepared block u d) (RHolding True))"
    by (simp add: records d)
  from st[OF this lock_step.w_request[of _ block u d]]
  have last: "lock_steps L P grant (initial s) ?last" by (simp add: enqueue_def)
  let ?stuck = "enqueue (Reader t) Shared (?last\<lparr>cf_reader := (cf_reader ?last)(t := RQueuedAgain)\<rparr>)"
  have stuck: "stuck t ?stuck"
    by (rule stuck_again[OF lock_steps_ok[OF fair last initial_ok]]) simp_all
  have "lock_steps L P grant (initial s) ?stuck" by (rule st[OF last lock_step.r_again]) simp
  moreover have "cf_reader c' t = RQueuedAgain \<and> cf_writer c' = cf_writer ?stuck" if "lock_steps L P grant ?stuck c'" for c'
    using stuck_forever[OF fair that stuck] by (simp add: stuck_def)
  moreover have "cf_reader ?stuck t = RQueuedAgain" "cf_writer ?stuck = WQueuedWrite block u d" by (simp_all add: enqueue_def)
  ultimately show ?thesis by blast
qed

theorem current_data_deadlocks_witness:
  "\<exists>c u d. lock_steps sample_trees sample_params fifo (initial sample_store) c \<and> cf_writer c = WQueuedWrite next_block u d
     \<and> (\<forall>c'. lock_steps sample_trees sample_params fifo c c' \<longrightarrow> cf_reader c' 0 = RQueuedAgain)"
proof -
  obtain s' x where "apply_block sample_trees sample_params calm_world next_block sample_store = Ok s' x"
    using next_block_applies by (cases "apply_block sample_trees sample_params calm_world next_block sample_store") auto
  from current_data_deadlocks[OF fifo_fair next_block_wf this, where t = 0] show ?thesis by blast
qed

end
