(* ===== verification/Bytes.thy ===== *)
theory Bytes
  imports Prelude "HOL-Library.Word"
begin

text \<open>
  Bytes and fixed-width integers as the standard library converts them: \<open>to_le_bytes\<close>,
  \<open>to_be_bytes\<close> and their inverses on \<open>u64\<close>, and the bytes of an ASCII string.
\<close>

unbundle bit_operations_syntax

type_synonym byte = "8 word"
type_synonym bytes = "8 word list"

fun le_bytes :: "nat \<Rightarrow> 64 word \<Rightarrow> bytes" where
  "le_bytes 0 w = []"
| "le_bytes (Suc n) w = ucast w # le_bytes n (drop_bit 8 w)"

fun of_le_bytes :: "bytes \<Rightarrow> 64 word" where
  "of_le_bytes [] = 0"
| "of_le_bytes (b # bs) = ucast b OR push_bit 8 (of_le_bytes bs)"

definition u64_to_le_bytes :: "64 word \<Rightarrow> bytes" where
  "u64_to_le_bytes w = le_bytes 8 w"

definition u64_to_be_bytes :: "64 word \<Rightarrow> bytes" where
  "u64_to_be_bytes w = rev (le_bytes 8 w)"

definition u64_from_be_bytes :: "bytes \<Rightarrow> 64 word" where
  "u64_from_be_bytes bs = of_le_bytes (rev bs)"

definition as_bytes :: "string \<Rightarrow> bytes" where
  "as_bytes s = map of_char s"

text \<open>The slice \<open>bytes[from..to]\<close>.\<close>

definition slice :: "nat \<Rightarrow> nat \<Rightarrow> 'a list \<Rightarrow> 'a list" where
  "slice i j xs = take (j - i) (drop i xs)"

lemma length_le_bytes [simp]: "length (le_bytes n w) = n"
  by (induction n arbitrary: w) simp_all

lemma length_u64_bytes [simp]: "length (u64_to_le_bytes w) = 8" "length (u64_to_be_bytes w) = 8"
  by (simp_all add: u64_to_le_bytes_def u64_to_be_bytes_def)

lemma bit_of_le_bytes:
  "n \<le> 8 \<Longrightarrow> bit (of_le_bytes (le_bytes n w)) i \<longleftrightarrow> i < 8 * n \<and> bit w i"
proof (induction n arbitrary: w i)
  case (Suc n)
  have "bit (of_le_bytes (le_bytes n (drop_bit 8 w))) (i - 8) \<longleftrightarrow> i - 8 < 8 * n \<and> bit w (i - 8 + 8)"
    using Suc by (simp add: bit_simps add.commute)
  with Suc.prems show ?case
    by (auto simp: bit_simps not_less dest: bit_imp_le_length)
qed simp

lemma of_le_bytes_le_bytes: "of_le_bytes (le_bytes 8 w) = w"
  by (rule bit_word_eqI) (simp add: bit_of_le_bytes)

lemma u64_roundtrips [simp]:
  "of_le_bytes (u64_to_le_bytes w) = w" "u64_from_be_bytes (u64_to_be_bytes w) = w"
  by (simp_all add: u64_to_le_bytes_def u64_to_be_bytes_def u64_from_be_bytes_def of_le_bytes_le_bytes)

lemma u64_to_le_bytes_eq [simp]: "u64_to_le_bytes v = u64_to_le_bytes w \<longleftrightarrow> v = w"
  using u64_roundtrips(1) by metis

lemma slice_append:
  "slice i j (xs @ ys) = slice i j xs @ slice (i - length xs) (j - length xs) ys" if "length xs \<le> i \<or> j \<le> length xs" "i \<le> j"
  using that by (auto simp: slice_def)

lemma slice_all [simp]: "slice 0 (length xs) xs = xs"
  by (simp add: slice_def)

end
