(* ===== verification/Faucet_Challenge.thy ===== *)
theory Faucet_Challenge
  imports Bytes
begin

text \<open>
  The challenges of the faucet's proof of work (bin/faucet/src/server/challenge.rs) and its API keys
  (bin/faucet/src/server/api_key.rs).  The hash function, the serialization of account ids, and the
  hexadecimal and base64 encodings are libraries': fields of a record the definitions take, and
  \<open>faucet_lib_ok\<close> is what their documentation promises.
\<close>

section \<open>Libraries\<close>

text \<open>An account id, of the protocol library's type \<open>'id\<close>, is serialized in fifteen bytes.\<close>

record 'id faucet_lib =
  sha3 :: "bytes \<Rightarrow> bytes"
  id_to_bytes :: "'id \<Rightarrow> bytes"
  id_read_from_bytes :: "bytes \<Rightarrow> 'id option"
  id_array :: "'id \<Rightarrow> bytes"
  to_hex_with_prefix :: "bytes \<Rightarrow> string"
  hex_to_bytes :: "nat \<Rightarrow> string \<Rightarrow> bytes option"
  base64_encode :: "bytes \<Rightarrow> string"
  base64_decode :: "string \<Rightarrow> bytes option"

definition faucet_lib_ok :: "'id faucet_lib \<Rightarrow> bool" where
  "faucet_lib_ok L \<longleftrightarrow>
     (\<forall>bs. length (sha3 L bs) = 32)
   \<and> (\<forall>a. length (id_to_bytes L a) = 15 \<and> id_read_from_bytes L (id_to_bytes L a) = Some a)
   \<and> (\<forall>bs. hex_to_bytes L (length bs) (to_hex_with_prefix L bs) = Some bs)
   \<and> (\<forall>n s bs. hex_to_bytes L n s = Some bs \<longrightarrow> length bs = n)
   \<and> (\<forall>bs. base64_decode L (base64_encode L bs) = Some bs)
   \<and> (\<forall>bs. CHR ''_'' \<notin> set (base64_encode L bs))"

lemma faucet_lib_okD:
  assumes "faucet_lib_ok L"
  shows "length (sha3 L bs) = 32" "length (id_to_bytes L a) = 15" "id_read_from_bytes L (id_to_bytes L a) = Some a"
    "hex_to_bytes L (length bs) (to_hex_with_prefix L bs) = Some bs"
    "hex_to_bytes L n s = Some bs \<Longrightarrow> length bs = n"
    "base64_decode L (base64_encode L bs) = Some bs" "CHR ''_'' \<notin> set (base64_encode L bs)"
  using assms unfolding faucet_lib_ok_def by blast+

section \<open>Errors\<close>

text \<open>\<open>MintRequestError\<close> of bin/faucet/src/server/get_tokens.rs.\<close>

datatype mint_request_error =
    InvalidAccountId
  | InvalidAssetAmount "64 word"
  | InvalidApiKey string
  | InvalidPoW
  | MissingPowParameters
  | ServerSignaturesDoNotMatch
  | ExpiredServerTimestamp "64 word" "64 word"
  | ChallengeAlreadyUsed
  | RateLimited

section \<open>API keys\<close>

type_synonym api_key = bytes

definition api_key_default :: api_key where
  "api_key_default = replicate 32 0"

definition api_key_prefix :: string where
  "api_key_prefix = ''miden_faucet_''"

definition api_key_encode :: "'id faucet_lib \<Rightarrow> api_key \<Rightarrow> string" where
  "api_key_encode L key = api_key_prefix @ base64_encode L key"

text \<open>\<open>str::trim_start_matches\<close> removes the prefix as often as it occurs.\<close>

function trim_start_matches :: "string \<Rightarrow> string \<Rightarrow> string" where
  "trim_start_matches s p =
     (if p \<noteq> [] \<and> take (length p) s = p then trim_start_matches (drop (length p) s) p else s)"
  by pat_completeness auto
termination
proof (relation "measure (length \<circ> fst)")
  fix s p :: string
  assume "p \<noteq> [] \<and> take (length p) s = p"
  then have "0 < length p" "length p \<le> length s" by (metis length_greater_0_conv, metis length_take min.cobounded1)
  then have "length s - length p < length s" by linarith
  then show "((drop (length p) s, p), s, p) \<in> measure (length \<circ> fst)" by simp
qed simp

declare trim_start_matches.simps [simp del]

definition api_key_decode :: "'id faucet_lib \<Rightarrow> string \<Rightarrow> mint_request_error + api_key" where
  "api_key_decode L s =
     (let s = trim_start_matches s api_key_prefix in
      case base64_decode L s of
        None \<Rightarrow> Inl (InvalidApiKey s)
      | Some bytes \<Rightarrow> if length bytes = 32 then Inr bytes else Inl (InvalidApiKey s))"

lemma api_key_roundtrip:
  assumes L: "faucet_lib_ok L" and key: "length key = 32"
  shows "api_key_decode L (api_key_encode L key) = Inr key"
proof -
  let ?s = "base64_encode L key"
  have "CHR ''_'' \<in> set api_key_prefix" by (simp add: api_key_prefix_def)
  then have "take (length api_key_prefix) ?s \<noteq> api_key_prefix" using faucet_lib_okD(7)[OF L] by (metis in_set_takeD)
  then have "trim_start_matches ?s api_key_prefix = ?s" by (subst trim_start_matches.simps) simp
  moreover have "api_key_prefix \<noteq> []" by (simp add: api_key_prefix_def)
  ultimately have "trim_start_matches (api_key_prefix @ ?s) api_key_prefix = ?s" by (subst trim_start_matches.simps) simp
  then show ?thesis using faucet_lib_okD(6)[OF L] key by (simp add: api_key_decode_def api_key_encode_def)
qed

section \<open>Challenges\<close>

record 'id challenge =
  ch_target :: "64 word"
  ch_timestamp :: "64 word"
  ch_account_id :: 'id
  ch_api_key :: api_key
  ch_signature :: bytes

definition challenge_encoded_size :: nat where
  "challenge_encoded_size = 95"

definition compute_signature ::
  "'id faucet_lib \<Rightarrow> bytes \<Rightarrow> 64 word \<Rightarrow> 64 word \<Rightarrow> 'id \<Rightarrow> bytes \<Rightarrow> bytes" where
  "compute_signature L secret target timestamp account key =
     sha3 L (secret @ u64_to_le_bytes target @ u64_to_le_bytes timestamp @ id_array L account @ key)"

definition challenge_new ::
  "'id faucet_lib \<Rightarrow> 64 word \<Rightarrow> 64 word \<Rightarrow> 'id \<Rightarrow> api_key \<Rightarrow> bytes \<Rightarrow> 'id challenge" where
  "challenge_new L target timestamp account key secret =
     \<lparr>ch_target = target, ch_timestamp = timestamp, ch_account_id = account, ch_api_key = key,
      ch_signature = compute_signature L secret target timestamp account key\<rparr>"

definition challenge_bytes :: "'id faucet_lib \<Rightarrow> 'id challenge \<Rightarrow> bytes" where
  "challenge_bytes L c =
     u64_to_le_bytes (ch_target c) @ u64_to_le_bytes (ch_timestamp c) @ id_to_bytes L (ch_account_id c)
       @ ch_api_key c @ ch_signature c"

definition challenge_encode :: "'id faucet_lib \<Rightarrow> 'id challenge \<Rightarrow> string" where
  "challenge_encode L c = to_hex_with_prefix L (challenge_bytes L c)"

text \<open>\<open>None\<close> is the panic of \<open>AccountId::read_from_bytes(..).unwrap()\<close>.\<close>

definition challenge_decode :: "'id faucet_lib \<Rightarrow> string \<Rightarrow> bytes \<Rightarrow> (mint_request_error + 'id challenge) option" where
  "challenge_decode L v secret =
     (case hex_to_bytes L challenge_encoded_size v of
        None \<Rightarrow> Some (Inl MissingPowParameters)
      | Some bytes \<Rightarrow>
          let target = of_le_bytes (slice 0 8 bytes);
              timestamp = of_le_bytes (slice 8 16 bytes) in
          case id_read_from_bytes L (slice 16 31 bytes) of
            None \<Rightarrow> None
          | Some account \<Rightarrow>
              let key = slice 31 63 bytes;
                  signature = slice 63 95 bytes in
              if signature = compute_signature L secret target timestamp account key
              then Some (Inr \<lparr>ch_target = target, ch_timestamp = timestamp, ch_account_id = account,
                              ch_api_key = key, ch_signature = signature\<rparr>)
              else Some (Inl ServerSignaturesDoNotMatch))"

definition validate_pow :: "'id faucet_lib \<Rightarrow> 'id challenge \<Rightarrow> 64 word \<Rightarrow> bool" where
  "validate_pow L c nonce =
     (u64_from_be_bytes (take 8 (sha3 L (as_bytes (challenge_encode L c) @ u64_to_be_bytes nonce))) < ch_target c)"

definition is_expired :: "'id challenge \<Rightarrow> 64 word \<Rightarrow> 64 word \<Rightarrow> bool" where
  "is_expired c current_time challenge_lifetime =
     (let diff = (if ch_timestamp c \<le> current_time then current_time - ch_timestamp c else - 1) in
      diff > challenge_lifetime)"

section \<open>What decoding accepts\<close>

lemma challenge_slices:
  assumes "faucet_lib_ok L" "length (ch_api_key c) = 32"
  shows "slice 0 8 (challenge_bytes L c) = u64_to_le_bytes (ch_target c)"
    "slice 8 16 (challenge_bytes L c) = u64_to_le_bytes (ch_timestamp c)"
    "slice 16 31 (challenge_bytes L c) = id_to_bytes L (ch_account_id c)"
    "slice 31 63 (challenge_bytes L c) = ch_api_key c"
    "slice 63 95 (challenge_bytes L c) = take 32 (ch_signature c)"
  using assms(2) faucet_lib_okD(2)[OF assms(1)] by (simp_all add: challenge_bytes_def slice_def)

lemma length_challenge_bytes:
  assumes "faucet_lib_ok L" "length (ch_api_key c) = 32" "length (ch_signature c) = 32"
  shows "length (challenge_bytes L c) = challenge_encoded_size"
  using assms faucet_lib_okD(2)[OF assms(1)] by (simp add: challenge_bytes_def challenge_encoded_size_def)

definition server_signed :: "'id faucet_lib \<Rightarrow> bytes \<Rightarrow> 'id challenge \<Rightarrow> bool" where
  "server_signed L secret c \<longleftrightarrow>
     ch_signature c = compute_signature L secret (ch_target c) (ch_timestamp c) (ch_account_id c) (ch_api_key c)"

lemma signed_new: "server_signed L secret (challenge_new L target timestamp account key secret)"
  by (simp add: server_signed_def challenge_new_def)

lemma decode_signed:
  assumes "challenge_decode L v secret = Some (Inr c)"
  shows "server_signed L secret c"
  using assms by (auto simp: challenge_decode_def server_signed_def Let_def split: option.splits if_splits)

lemma decode_encode:
  assumes L: "faucet_lib_ok L" and key: "length (ch_api_key c) = 32" and sig: "length (ch_signature c) = 32"
  shows "challenge_decode L (challenge_encode L c) secret =
    Some (if server_signed L secret c then Inr c else Inl ServerSignaturesDoNotMatch)"
proof -
  have "hex_to_bytes L challenge_encoded_size (challenge_encode L c) = Some (challenge_bytes L c)"
    using faucet_lib_okD(4)[OF L, of "challenge_bytes L c"] length_challenge_bytes[OF assms] by (simp add: challenge_encode_def)
  then show ?thesis
    using sig by (simp add: challenge_decode_def challenge_slices[OF L key] faucet_lib_okD(3)[OF L] server_signed_def Let_def)
qed

lemma decode_new:
  assumes "faucet_lib_ok L" "length key = 32"
  shows "challenge_decode L (challenge_encode L (challenge_new L target timestamp account key secret)) secret =
      Some (Inr (challenge_new L target timestamp account key secret))"
proof -
  have "length (ch_signature (challenge_new L target timestamp account key secret)) = 32"
    by (simp add: challenge_new_def compute_signature_def faucet_lib_okD(1)[OF assms(1)])
  then show ?thesis
    using decode_encode[OF assms(1), of "challenge_new L target timestamp account key secret"] assms(2) signed_new
    by (simp add: challenge_new_def[of L target timestamp account key secret, THEN arg_cong, of ch_api_key])
qed

text \<open>
  C39. Round trip and authenticity of challenges. A challenge the server made decodes, from its text, to
  itself; the text of any challenge is accepted exactly when its signature is the server's over all the
  other fields; and what is ever accepted carries that signature, so none of its fields was changed by
  the client, unless it can forge the keyed hash.
\<close>

theorem challenge_roundtrip:
  assumes "faucet_lib_ok L" "length key = 32"
  shows "challenge_decode L (challenge_encode L (challenge_new L target timestamp account key secret)) secret =
      Some (Inr (challenge_new L target timestamp account key secret))
    \<and> (\<forall>c. length (ch_api_key c) = 32 \<and> length (ch_signature c) = 32 \<longrightarrow>
        challenge_decode L (challenge_encode L c) secret
          = Some (if server_signed L secret c then Inr c else Inl ServerSignaturesDoNotMatch))
    \<and> (\<forall>v c. challenge_decode L v secret = Some (Inr c) \<longrightarrow> server_signed L secret c)"
  using decode_new[OF assms] decode_encode[OF assms(1)] decode_signed by blast

text \<open>
  The panic. Decoding reads the account id before it checks the signature: ninety-five bytes with an
  invalid account id make it panic, whoever sends them and whatever the secret; no other input does.
\<close>

theorem decode_panics_iff:
  "challenge_decode L v secret = None \<longleftrightarrow>
     (\<exists>bytes. hex_to_bytes L 95 v = Some bytes \<and> id_read_from_bytes L (slice 16 31 bytes) = None)"
  by (auto simp: challenge_decode_def challenge_encoded_size_def Let_def split: option.splits)

section \<open>An instance of the libraries\<close>

text \<open>The encodings write a byte as two letters, and the hash keeps the last bytes.\<close>

definition letter :: "byte \<Rightarrow> char" where
  "letter b = char_of (97 + unat b)"

definition unletter :: "char \<Rightarrow> byte" where
  "unletter c = of_nat (of_char c - 97)"

fun letters :: "bytes \<Rightarrow> string" where
  "letters [] = []"
| "letters (b # bs) = letter (drop_bit 4 b) # letter (b AND mask 4) # letters bs"

fun unletters :: "string \<Rightarrow> bytes" where
  "unletters (x # y # cs) = (push_bit 4 (unletter x) OR unletter y) # unletters cs"
| "unletters cs = []"

definition id_bytes :: "64 word \<Rightarrow> bytes" where
  "id_bytes a = u64_to_le_bytes a @ replicate 7 0"

definition id_of_bytes :: "bytes \<Rightarrow> 64 word option" where
  "id_of_bytes bs = (if length bs = 15 \<and> drop 8 bs = replicate 7 0 then Some (of_le_bytes (take 8 bs)) else None)"

definition sample_lib :: "64 word faucet_lib" where
  "sample_lib =
     \<lparr>sha3 = (\<lambda>bs. take 32 (rev bs @ replicate 32 0)),
      id_to_bytes = id_bytes, id_read_from_bytes = id_of_bytes, id_array = id_bytes,
      to_hex_with_prefix = letters, hex_to_bytes = (\<lambda>n s. if length (unletters s) = n then Some (unletters s) else None),
      base64_encode = letters, base64_decode = (\<lambda>s. Some (unletters s))\<rparr>"

lemma nibbles: "push_bit 4 (drop_bit 4 b) OR (b AND mask 4) = b" for b :: byte
  by (rule bit_word_eqI) (auto simp: bit_simps)

lemma nibble_less: "unat (drop_bit 4 b) < 16" "unat (b AND mask 4) < 16" for b :: byte
proof -
  have "drop_bit 4 b = b div 16" by (simp add: drop_bit_eq_div)
  then have "unat (drop_bit 4 b) = unat b div 16" by (simp add: unat_div)
  moreover have "unat b < 256" using unsigned_less[of b] by simp
  ultimately show "unat (drop_bit 4 b) < 16" by simp
  have "take_bit 4 (unat b) < 2 ^ 4" by (rule take_bit_nat_less_exp)
  then show "unat (b AND mask 4) < 16" by (simp add: take_bit_eq_mask[symmetric] unsigned_take_bit_eq)
qed

lemma unletter_letter: "unat b < 16 \<Longrightarrow> unletter (letter b) = b"
  by (simp add: letter_def unletter_def of_char_of)

lemma unletters_letters [simp]: "unletters (letters bs) = bs"
  by (induction bs) (simp_all add: unletter_letter nibble_less nibbles)

lemma letter_range: "unat b < 16 \<Longrightarrow> letter b \<noteq> CHR ''_''"
proof
  assume b: "unat b < 16" and "letter b = CHR ''_''"
  then have "of_char (letter b) = (of_char (CHR ''_'') :: nat)" by simp
  with b show False by (simp add: letter_def of_char_of)
qed

lemma letters_range: "CHR ''_'' \<notin> set (letters bs)"
proof (induction bs)
  case (Cons b bs)
  then show ?case using letter_range[of "drop_bit 4 b"] letter_range[of "b AND mask 4"] nibble_less[of b] by auto
qed simp

lemma sample_lib_ok: "faucet_lib_ok sample_lib"
  by (auto simp: faucet_lib_ok_def sample_lib_def letters_range id_bytes_def id_of_bytes_def min_def)

theorem challenge_roundtrip_witness:
  "challenge_decode sample_lib (challenge_encode sample_lib (challenge_new sample_lib 5 1000 7 (replicate 32 1) [1, 2])) [1, 2]
     = Some (Inr (challenge_new sample_lib 5 1000 7 (replicate 32 1) [1, 2]))"
  using challenge_roundtrip[OF sample_lib_ok, of "replicate 32 1" 5 1000 7 "[1, 2]"] by simp

text \<open>Bytes that make decoding panic.\<close>

lemma crafted_challenge: "challenge_decode sample_lib (letters (replicate 95 1)) secret = None"
proof -
  have "replicate 95 (1::byte) = replicate 24 1 @ replicate 71 1" by (simp only: replicate_add[symmetric]) simp
  then have "drop 8 (slice 16 31 (replicate 95 (1::byte))) \<noteq> replicate 7 0"
    by (simp add: slice_def numeral_nat)
  then show ?thesis
    by (simp add: decode_panics_iff sample_lib_def id_of_bytes_def)
qed

end
