(* ===== verification/Faucet_Pow.thy ===== *)
theory Faucet_Pow
  imports Faucet_Challenge "HOL-Library.Multiset"
begin

text \<open>
  The faucet's proof of work (bin/faucet/src/server/pow.rs): the cache of submitted challenges, the
  difficulty it sets, the submission of a solved challenge and the periodic removal of expired ones.
  The lock around the cache makes each of these one step; the time a step reads is a parameter.
  \<open>None\<close> is a panic: an \<open>expect\<close>, or arithmetic that overflows in a build with overflow checks; the
  theorems on whole runs assume times and configurations for which none does.
\<close>

section \<open>Counters\<close>

text \<open>
  The entries of \<open>challenges_per_key\<close> and \<open>account_ids\<close>: \<open>entry(..).and_modify(..).or_insert(1)\<close>, and
  the decrement that removes an entry at zero.
\<close>

definition usize_max :: nat where
  "usize_max = 2 ^ 64 - 1"

definition count_up :: "'k \<Rightarrow> ('k \<rightharpoonup> nat) \<Rightarrow> ('k \<rightharpoonup> nat)" where
  "count_up k m = m(k \<mapsto> (case m k of None \<Rightarrow> 1 | Some c \<Rightarrow> if c < usize_max then c + 1 else c))"

definition count_down :: "'k \<Rightarrow> ('k \<rightharpoonup> nat) \<Rightarrow> ('k \<rightharpoonup> nat) option" where
  "count_down k m = (case m k of None \<Rightarrow> None | Some c \<Rightarrow> Some (if c - 1 = 0 then m(k := None) else m(k \<mapsto> c - 1)))"

text \<open>A map that counts the elements of a multiset.\<close>

definition counts :: "('k \<rightharpoonup> nat) \<Rightarrow> 'k multiset \<Rightarrow> bool" where
  "counts m M \<longleftrightarrow> (\<forall>k. m k = (if k \<in># M then Some (count M k) else None))"

lemma counts_empty: "counts Map.empty {#}"
  by (simp add: counts_def)

lemma counts_dom: "counts m M \<Longrightarrow> k \<in> dom m \<longleftrightarrow> k \<in># M"
  by (auto simp: counts_def dom_def split: if_splits)

lemma counts_up:
  assumes "counts m M" "size M < usize_max"
  shows "counts (count_up k m) (add_mset k M)"
proof -
  have "count M k < usize_max" using count_le_size[of M k] assms(2) by linarith
  with assms(1) show ?thesis by (simp add: counts_def count_up_def not_in_iff)
qed

lemma counts_down:
  assumes "counts m (add_mset k M)"
  shows "\<exists>m'. count_down k m = Some m' \<and> counts m' M"
proof -
  have "m k = Some (Suc (count M k))" using assms by (simp add: counts_def)
  then show ?thesis using assms by (auto simp: counts_def count_down_def not_in_iff)
qed

section \<open>The cache\<close>

record 'id challenge_cache =
  cc_challenges :: "(64 word \<times> ('id \<times> api_key) list) list"
  cc_per_key :: "api_key \<rightharpoonup> nat"
  cc_account_ids :: "'id \<rightharpoonup> nat"

definition cache_default :: "'id challenge_cache" where
  "cache_default = \<lparr>cc_challenges = [], cc_per_key = Map.empty, cc_account_ids = Map.empty\<rparr>"

definition issuers_at :: "64 word \<Rightarrow> 'id challenge_cache \<Rightarrow> ('id \<times> api_key) list" where
  "issuers_at ts c = (case map_of (cc_challenges c) ts of None \<Rightarrow> [] | Some issuers \<Rightarrow> issuers)"

definition insert_challenge :: "'id challenge \<Rightarrow> 'id challenge_cache \<Rightarrow> bool \<times> 'id challenge_cache" where
  "insert_challenge ch c =
     (let issuers = issuers_at (ch_timestamp ch) c; issuer = (ch_account_id ch, ch_api_key ch) in
      if issuer \<in> set issuers then (False, c\<lparr>cc_challenges := bt_insert (ch_timestamp ch) issuers (cc_challenges c)\<rparr>)
      else (True,
        \<lparr>cc_challenges = bt_insert (ch_timestamp ch) (issuers @ [issuer]) (cc_challenges c),
         cc_per_key = count_up (ch_api_key ch) (cc_per_key c),
         cc_account_ids = count_up (ch_account_id ch) (cc_account_ids c)\<rparr>))"

definition has_challenge_for_account :: "'id \<Rightarrow> 'id challenge_cache \<Rightarrow> bool" where
  "has_challenge_for_account a c = contains_key (cc_account_ids c) a"

definition num_challenges_for_api_key :: "api_key \<Rightarrow> 'id challenge_cache \<Rightarrow> nat" where
  "num_challenges_for_api_key key c = (case cc_per_key c key of None \<Rightarrow> 0 | Some n \<Rightarrow> n)"

text \<open>The body of the loop over the expired issuers.\<close>

fun drop_issuers :: "('id \<times> api_key) list \<Rightarrow> 'id challenge_cache \<Rightarrow> 'id challenge_cache option" where
  "drop_issuers [] c = Some c"
| "drop_issuers ((account, key) # issuers) c =
     (case count_down key (cc_per_key c) of
        None \<Rightarrow> None
      | Some per_key \<Rightarrow>
          case count_down account (cc_account_ids c) of
            None \<Rightarrow> None
          | Some accounts \<Rightarrow> drop_issuers issuers (c\<lparr>cc_per_key := per_key, cc_account_ids := accounts\<rparr>))"

definition cleanup_expired_challenges ::
  "64 word \<Rightarrow> 64 word \<Rightarrow> 'id challenge_cache \<Rightarrow> 'id challenge_cache option" where
  "cleanup_expired_challenges current_time challenge_lifetime c =
     (if current_time < challenge_lifetime then None
      else let limit = current_time - challenge_lifetime;
               valid = filter (\<lambda>(ts, _). limit \<le> ts) (cc_challenges c);
               expired = filter (\<lambda>(ts, _). ts < limit) (cc_challenges c) in
           drop_issuers (concat (map snd expired)) (c\<lparr>cc_challenges := valid\<rparr>))"

section \<open>The proof of work\<close>

record pow_config =
  pc_challenge_lifetime :: "64 word"
  pc_growth_rate :: nat
  pc_baseline :: nat

text \<open>A shift by the width of the type or more overflows.\<close>

definition get_challenge_target :: "pow_config \<Rightarrow> api_key \<Rightarrow> 'id challenge_cache \<Rightarrow> 64 word option" where
  "get_challenge_target P key c =
     (let num_challenges = num_challenges_for_api_key key c in
      if pc_baseline P < 64 \<and> pc_growth_rate P < 64
      then let max_target = drop_bit (pc_baseline P) (- 1 :: 64 word);
               difficulty = max (push_bit (pc_growth_rate P) (of_nat num_challenges :: 64 word)) 1 in
           Some (max_target div difficulty)
      else None)"

definition build_challenge ::
  "'id faucet_lib \<Rightarrow> pow_config \<Rightarrow> bytes \<Rightarrow> 64 word \<Rightarrow> 'id \<Rightarrow> api_key \<Rightarrow> 'id challenge_cache \<Rightarrow> 'id challenge option" where
  "build_challenge L P secret current_time account key c =
     map_option (\<lambda>target. challenge_new L target current_time account key secret) (get_challenge_target P key c)"

definition submit_challenge ::
  "'id faucet_lib \<Rightarrow> pow_config \<Rightarrow> bytes \<Rightarrow> 'id \<Rightarrow> api_key \<Rightarrow> string \<Rightarrow> 64 word \<Rightarrow> 64 word \<Rightarrow> 'id challenge_cache \<Rightarrow>
     ('id challenge_cache, mint_request_error, unit) outcome" where
  "submit_challenge L P secret account key msg nonce current_time c =
     (case challenge_decode L msg secret of
        None \<Rightarrow> Panic
      | Some (Inl e) \<Rightarrow> Err c e
      | Some (Inr ch) \<Rightarrow>
          if is_expired ch current_time (pc_challenge_lifetime P)
          then Err c (ExpiredServerTimestamp (ch_timestamp ch) current_time)
          else if \<not> (validate_pow L ch nonce \<and> account = ch_account_id ch \<and> key = ch_api_key ch) then Err c InvalidPoW
          else if has_challenge_for_account account c then Err c RateLimited
          else case insert_challenge ch c of
                 (False, c') \<Rightarrow> Err c' ChallengeAlreadyUsed
               | (True, c') \<Rightarrow> Ok c' ())"

section \<open>The invariant of the cache\<close>

fun entries :: "(64 word \<times> ('id \<times> api_key) list) list \<Rightarrow> (64 word \<times> 'id \<times> api_key) list" where
  "entries [] = []"
| "entries ((ts, issuers) # xs) = map (Pair ts) issuers @ entries xs"

definition cache_ok :: "'id challenge_cache \<Rightarrow> bool" where
  "cache_ok c \<longleftrightarrow> sorted (map fst (cc_challenges c)) \<and> distinct (map fst (cc_challenges c))
     \<and> counts (cc_per_key c) (mset (map (snd \<circ> snd) (entries (cc_challenges c))))
     \<and> counts (cc_account_ids c) (mset (map (fst \<circ> snd) (entries (cc_challenges c))))"

lemma cache_default_ok: "cache_ok cache_default"
  by (simp add: cache_ok_def cache_default_def counts_empty)

lemma entries_issuers:
  "distinct (map fst xs) \<Longrightarrow> (ts, i) \<in> set (entries xs) \<longleftrightarrow> (\<exists>issuers. map_of xs ts = Some issuers \<and> i \<in> set issuers)"
  by (induction xs rule: entries.induct) (auto dest: map_of_SomeD simp: rev_image_eqI)

lemma entries_bt_insert:
  assumes "sorted (map fst xs)" "distinct (map fst xs)"
  shows "mset (entries (bt_insert ts ((case map_of xs ts of None \<Rightarrow> [] | Some is \<Rightarrow> is) @ [i]) xs)) = add_mset (ts, i) (mset (entries xs))"
  using assms
proof (induction xs rule: entries.induct)
  case (2 t issuers xs)
  have "map_of xs ts = None" if "ts < t" using 2(2) that by (force simp: map_of_eq_None_iff)
  moreover have "map_of xs ts = None" if "ts = t" using 2(3) that by (simp add: map_of_eq_None_iff)
  ultimately show ?case using 2 by auto
qed simp

lemma entries_filter: "mset (entries xs) = mset (entries (filter (\<lambda>(ts, _). P ts) xs)) + mset (entries (filter (\<lambda>(ts, _). \<not> P ts) xs))"
  by (induction xs rule: entries.induct) simp_all

lemma entries_filter_mem: "e \<in> set (entries (filter (\<lambda>(ts, _). P ts) xs)) \<longleftrightarrow> e \<in> set (entries xs) \<and> P (fst e)"
  by (induction xs rule: entries.induct) auto

lemma set_entries_filter: "set (entries (filter (\<lambda>(ts, _). P ts) xs)) = {e \<in> set (entries xs). P (fst e)}"
  using entries_filter_mem by blast

lemma entries_expired: "concat (map snd xs) = map snd (entries xs)"
  by (induction xs rule: entries.induct) (simp_all add: comp_def)

lemma drop_issuers_counts:
  assumes "counts (cc_per_key c) (mset (map snd is) + K)" "counts (cc_account_ids c) (mset (map fst is) + A)"
  shows "\<exists>c'. drop_issuers is c = Some c' \<and> cc_challenges c' = cc_challenges c \<and> counts (cc_per_key c') K \<and> counts (cc_account_ids c') A"
  using assms
proof (induction "is" c rule: drop_issuers.induct)
  case (2 account key issuers c)
  from 2(2) obtain per_key where k: "count_down key (cc_per_key c) = Some per_key" "counts per_key (mset (map snd issuers) + K)"
    using counts_down[of "cc_per_key c" key "mset (map snd issuers) + K"] by auto
  from 2(3) obtain accounts where a: "count_down account (cc_account_ids c) = Some accounts" "counts accounts (mset (map fst issuers) + A)"
    using counts_down[of "cc_account_ids c" account "mset (map fst issuers) + A"] by auto
  from 2(1)[OF k(1) a(1)] k a show ?case by simp
qed simp

lemma cleanup_ok:
  assumes ok: "cache_ok c" and t: "life \<le> t"
  shows "\<exists>c'. cleanup_expired_challenges t life c = Some c' \<and> cache_ok c'
    \<and> set (entries (cc_challenges c')) = {e \<in> set (entries (cc_challenges c)). t - life \<le> fst e}"
proof -
  let ?xs = "cc_challenges c"
  let ?valid = "filter (\<lambda>(ts, _). t - life \<le> ts) ?xs" and ?expired = "filter (\<lambda>(ts, _). ts < t - life) ?xs"
  have split: "mset (entries ?xs) = mset (entries ?expired) + mset (entries ?valid)"
    using entries_filter[of ?xs "\<lambda>ts. ts < t - life"] by (simp add: not_less)
  have "counts (cc_per_key (c\<lparr>cc_challenges := ?valid\<rparr>)) (mset (map snd (concat (map snd ?expired))) + mset (map (snd \<circ> snd) (entries ?valid)))"
    "counts (cc_account_ids (c\<lparr>cc_challenges := ?valid\<rparr>)) (mset (map fst (concat (map snd ?expired))) + mset (map (fst \<circ> snd) (entries ?valid)))"
    using ok split by (simp_all add: cache_ok_def entries_expired mset_map multiset.map_comp comp_def)
  from drop_issuers_counts[OF this] obtain c' where c': "drop_issuers (concat (map snd ?expired)) (c\<lparr>cc_challenges := ?valid\<rparr>) = Some c'"
    "cc_challenges c' = ?valid" "counts (cc_per_key c') (mset (map (snd \<circ> snd) (entries ?valid)))"
    "counts (cc_account_ids c') (mset (map (fst \<circ> snd) (entries ?valid)))" by auto
  have "sorted (map fst ?valid)" "distinct (map fst ?valid)"
    using ok by (simp_all add: cache_ok_def sorted_filter distinct_map_filter)
  with c' have "cache_ok c'" by (simp add: cache_ok_def)
  with c' t show ?thesis by (simp add: cleanup_expired_challenges_def set_entries_filter not_less Let_def)
qed

lemma drop_issuers_challenges: "drop_issuers is c = Some c' \<Longrightarrow> cc_challenges c' = cc_challenges c"
  by (induction "is" c rule: drop_issuers.induct) (auto split: option.splits)

lemma length_entries_filter: "length (entries (filter (\<lambda>(ts, _). P ts) xs)) \<le> length (entries xs)"
  by (induction xs rule: entries.induct) auto

lemma cleanup_shrinks:
  "cleanup_expired_challenges t life c = Some c' \<Longrightarrow> length (entries (cc_challenges c')) \<le> length (entries (cc_challenges c))"
  by (auto simp: cleanup_expired_challenges_def Let_def dest!: drop_issuers_challenges split: if_splits intro: length_entries_filter)

lemma has_challenge: "cache_ok c \<Longrightarrow> has_challenge_for_account a c \<longleftrightarrow> (\<exists>ts key. (ts, a, key) \<in> set (entries (cc_challenges c)))"
proof -
  assume "cache_ok c"
  then have "counts (cc_account_ids c) (mset (map (fst \<circ> snd) (entries (cc_challenges c))))" by (simp add: cache_ok_def)
  from counts_dom[OF this] show ?thesis by (simp add: has_challenge_for_account_def image_iff Bex_def split_paired_Ex)
qed

lemma insert_fresh:
  assumes ok: "cache_ok c" and fresh: "\<not> has_challenge_for_account (ch_account_id ch) c"
    and room: "length (entries (cc_challenges c)) < usize_max"
  shows "\<exists>c'. insert_challenge ch c = (True, c') \<and> cache_ok c'
    \<and> mset (entries (cc_challenges c')) = add_mset (ch_timestamp ch, ch_account_id ch, ch_api_key ch) (mset (entries (cc_challenges c)))"
proof -
  let ?i = "(ch_account_id ch, ch_api_key ch)"
  have "?i \<notin> set (issuers_at (ch_timestamp ch) c)"
    using fresh ok entries_issuers[of "cc_challenges c" "ch_timestamp ch" ?i]
    by (auto simp: has_challenge[OF ok] issuers_at_def cache_ok_def split: option.splits)
  moreover have m: "mset (entries (bt_insert (ch_timestamp ch) (issuers_at (ch_timestamp ch) c @ [?i]) (cc_challenges c)))
      = add_mset (ch_timestamp ch, ?i) (mset (entries (cc_challenges c)))"
    using entries_bt_insert[of "cc_challenges c" "ch_timestamp ch" ?i] ok by (simp add: cache_ok_def issuers_at_def)
  moreover have "counts (count_up (ch_api_key ch) (cc_per_key c)) (add_mset (ch_api_key ch) (mset (map (snd \<circ> snd) (entries (cc_challenges c)))))"
    "counts (count_up (ch_account_id ch) (cc_account_ids c)) (add_mset (ch_account_id ch) (mset (map (fst \<circ> snd) (entries (cc_challenges c)))))"
    using ok room by (auto simp: cache_ok_def intro: counts_up)
  ultimately show ?thesis
    using ok bt_insert_sorted[of "cc_challenges c"] by (simp add: insert_challenge_def cache_ok_def mset_map)
qed

section \<open>What a submission does\<close>

definition acceptable ::
  "'id faucet_lib \<Rightarrow> pow_config \<Rightarrow> bytes \<Rightarrow> 'id \<Rightarrow> api_key \<Rightarrow> 64 word \<Rightarrow> 64 word \<Rightarrow> 'id challenge \<Rightarrow> bool" where
  "acceptable L P secret account key nonce t ch \<longleftrightarrow>
     server_signed L secret ch \<and> account = ch_account_id ch \<and> key = ch_api_key ch \<and> validate_pow L ch nonce
     \<and> ch_timestamp ch \<le> t \<and> unat t \<le> unat (ch_timestamp ch) + unat (pc_challenge_lifetime P)"

lemma not_expired:
  assumes "life \<noteq> - 1"
  shows "\<not> is_expired ch t life \<longleftrightarrow> ch_timestamp ch \<le> t \<and> unat t \<le> unat (ch_timestamp ch) + unat life"
proof (cases "ch_timestamp ch \<le> t")
  case True
  then have "unat (t - ch_timestamp ch) = unat t - unat (ch_timestamp ch)" by (simp add: unat_sub)
  then show ?thesis using True by (auto simp: is_expired_def word_le_nat_alt not_less word_less_nat_alt)
next
  case False
  have "life < - 1" using assms by (simp add: order.not_eq_order_implies_strict word_order.extremum)
  then show ?thesis using False by (simp add: is_expired_def)
qed

lemma submit_cases:
  assumes ok: "cache_ok c" and room: "length (entries (cc_challenges c)) < usize_max" and life: "pc_challenge_lifetime P \<noteq> - 1"
    and dec: "challenge_decode L msg secret = Some (Inr ch)"
  shows "if acceptable L P secret account key nonce t ch \<and> \<not> has_challenge_for_account account c
    then \<exists>c'. submit_challenge L P secret account key msg nonce t c = Ok c' () \<and> cache_ok c'
      \<and> mset (entries (cc_challenges c')) = add_mset (ch_timestamp ch, account, key) (mset (entries (cc_challenges c)))
    else submit_challenge L P secret account key msg nonce t c = Err c
      (if is_expired ch t (pc_challenge_lifetime P) then ExpiredServerTimestamp (ch_timestamp ch) t
       else if \<not> (validate_pow L ch nonce \<and> account = ch_account_id ch \<and> key = ch_api_key ch) then InvalidPoW
       else RateLimited)"
proof (cases "acceptable L P secret account key nonce t ch \<and> \<not> has_challenge_for_account account c")
  case True
  then have "\<not> has_challenge_for_account (ch_account_id ch) c" by (auto simp: acceptable_def)
  from insert_fresh[OF ok this room] True show ?thesis
    using not_expired[OF life, of ch t] by (auto simp: submit_challenge_def dec acceptable_def)
next
  case False
  then show ?thesis
    using not_expired[OF life, of ch t] decode_signed[OF dec] by (auto simp: submit_challenge_def dec acceptable_def)
qed

text \<open>
  What a submission does, on every branch. Text that is no challenge of this server is refused; a
  challenge that expired, is from the future, was made for another account or key or is not solved is
  refused with the error that says so; of the rest it is accepted exactly when its account has no
  challenge in the cache, and is entered. The cache is changed by no refusal, and the error for a
  challenge that was already used never occurs: the account's entry is found first.
\<close>

theorem submit_exact:
  assumes ok: "cache_ok c" and room: "length (entries (cc_challenges c)) < usize_max" and life: "pc_challenge_lifetime P \<noteq> - 1"
  shows "case challenge_decode L msg secret of
      None \<Rightarrow> submit_challenge L P secret account key msg nonce t c = Panic
    | Some (Inl e) \<Rightarrow> submit_challenge L P secret account key msg nonce t c = Err c e
        \<and> e \<in> {MissingPowParameters, ServerSignaturesDoNotMatch}
    | Some (Inr ch) \<Rightarrow>
        (if acceptable L P secret account key nonce t ch \<and> \<not> has_challenge_for_account account c
         then \<exists>c'. submit_challenge L P secret account key msg nonce t c = Ok c' () \<and> cache_ok c'
           \<and> mset (entries (cc_challenges c')) = add_mset (ch_timestamp ch, account, key) (mset (entries (cc_challenges c)))
         else submit_challenge L P secret account key msg nonce t c = Err c
           (if is_expired ch t (pc_challenge_lifetime P) then ExpiredServerTimestamp (ch_timestamp ch) t
            else if \<not> (validate_pow L ch nonce \<and> account = ch_account_id ch \<and> key = ch_api_key ch) then InvalidPoW
            else RateLimited))"
proof (cases "challenge_decode L msg secret")
  case None
  then show ?thesis by (simp add: submit_challenge_def)
next
  case (Some r)
  show ?thesis
  proof (cases r)
    case (Inl e)
    have "e \<in> {MissingPowParameters, ServerSignaturesDoNotMatch}"
      using Some Inl by (auto simp: challenge_decode_def Let_def split: option.splits if_splits)
    then show ?thesis using Some Inl by (simp add: submit_challenge_def)
  next
    case (Inr ch)
    from submit_cases[OF ok room life, of L msg secret ch account key nonce t] Some Inr show ?thesis by simp
  qed
qed

section \<open>Runs\<close>

text \<open>
  The calls in the order in which they take the lock, each with the time it read.  A panic before the
  lock is taken ends that request only; a panic of the cleanup poisons the lock: \<open>None\<close>.
\<close>

datatype 'id pow_op = Submit 'id api_key string "64 word" "64 word" | Cleanup "64 word"

text \<open>
  A request reads the clock before it waits for the lock, so a cleanup with a later time may take the lock
  first: by at most \<open>skew\<close> seconds, for a cleanup and a later request of a run.
\<close>

fun within_skew :: "nat \<Rightarrow> 'id pow_op \<Rightarrow> 'id pow_op \<Rightarrow> bool" where
  "within_skew skew (Cleanup t) (Submit account key msg nonce t') \<longleftrightarrow> unat t \<le> unat t' + skew"
| "within_skew skew op op' \<longleftrightarrow> True"

datatype reply = Accepted | Rejected mint_request_error | Panicked | Cleaned

fun pow_step ::
  "'id faucet_lib \<Rightarrow> pow_config \<Rightarrow> bytes \<Rightarrow> 'id pow_op \<Rightarrow> 'id challenge_cache \<Rightarrow> (reply \<times> 'id challenge_cache) option" where
  "pow_step L P secret (Submit account key msg nonce t) c =
     Some (case submit_challenge L P secret account key msg nonce t c of
             Ok c' u \<Rightarrow> (Accepted, c') | Err c' e \<Rightarrow> (Rejected e, c') | _ \<Rightarrow> (Panicked, c))"
| "pow_step L P secret (Cleanup t) c = map_option (Pair Cleaned) (cleanup_expired_challenges t (pc_challenge_lifetime P) c)"

fun pow_run ::
  "'id faucet_lib \<Rightarrow> pow_config \<Rightarrow> bytes \<Rightarrow> 'id pow_op list \<Rightarrow> 'id challenge_cache \<Rightarrow> (reply list \<times> 'id challenge_cache) option" where
  "pow_run L P secret [] c = Some ([], c)"
| "pow_run L P secret (op # ops) c =
     (case pow_step L P secret op c of
        None \<Rightarrow> None
      | Some (r, c') \<Rightarrow> map_option (\<lambda>(rs, d). (r # rs, d)) (pow_run L P secret ops c'))"

definition cache_size :: "'id challenge_cache \<Rightarrow> nat" where
  "cache_size c = length (entries (cc_challenges c))"

definition cleanup_late :: "pow_config \<Rightarrow> 'id pow_op \<Rightarrow> bool" where
  "cleanup_late P op \<longleftrightarrow> (case op of Cleanup t \<Rightarrow> pc_challenge_lifetime P \<le> t | _ \<Rightarrow> True)"

text \<open>The three things a step can do.\<close>

lemma pow_step_cases:
  assumes ok: "cache_ok c" and room: "cache_size c < usize_max" and life: "pc_challenge_lifetime P \<noteq> - 1" and late: "cleanup_late P op"
  obtains (accepted) account key msg nonce t ch c' where "op = Submit account key msg nonce t" "pow_step L P secret op c = Some (Accepted, c')"
      "challenge_decode L msg secret = Some (Inr ch)" "acceptable L P secret account key nonce t ch" "\<not> has_challenge_for_account account c"
      "cache_ok c'" "mset (entries (cc_challenges c')) = add_mset (ch_timestamp ch, account, key) (mset (entries (cc_challenges c)))"
    | (refused) r where "pow_step L P secret op c = Some (r, c)" "r \<noteq> Accepted"
    | (cleaned) t c' where "op = Cleanup t" "pow_step L P secret op c = Some (Cleaned, c')" "cache_ok c'" "pc_challenge_lifetime P \<le> t"
      "set (entries (cc_challenges c')) = {e \<in> set (entries (cc_challenges c)). t - pc_challenge_lifetime P \<le> fst e}"
      "cache_size c' \<le> cache_size c"
proof (cases op)
  case (Submit account key msg nonce t)
  note exact = submit_exact[OF ok room[unfolded cache_size_def] life, where L = L and msg = msg and secret = secret and account = account and key = key and nonce = nonce and t = t]
  show ?thesis
  proof (cases "\<exists>ch. challenge_decode L msg secret = Some (Inr ch) \<and> acceptable L P secret account key nonce t ch \<and> \<not> has_challenge_for_account account c")
    case True
    then obtain ch where ch: "challenge_decode L msg secret = Some (Inr ch)" "acceptable L P secret account key nonce t ch"
      "\<not> has_challenge_for_account account c" by blast
    with exact obtain c' where c': "submit_challenge L P secret account key msg nonce t c = Ok c' ()" "cache_ok c'"
      "mset (entries (cc_challenges c')) = add_mset (ch_timestamp ch, account, key) (mset (entries (cc_challenges c)))" by auto
    then have "pow_step L P secret op c = Some (Accepted, c')" by (simp add: Submit)
    from accepted[OF Submit this ch c'(2,3)] show ?thesis .
  next
    case False
    with exact have "submit_challenge L P secret account key msg nonce t c = Panic \<or> (\<exists>e. submit_challenge L P secret account key msg nonce t c = Err c e)"
      by (auto split: option.splits sum.splits if_splits)
    then show ?thesis using refused by (auto simp: Submit)
  qed
next
  case (Cleanup t)
  with late have t: "pc_challenge_lifetime P \<le> t" by (simp add: cleanup_late_def)
  from cleanup_ok[OF ok t] obtain c' where c': "cleanup_expired_challenges t (pc_challenge_lifetime P) c = Some c'" "cache_ok c'"
    "set (entries (cc_challenges c')) = {e \<in> set (entries (cc_challenges c)). t - pc_challenge_lifetime P \<le> fst e}" by blast
  have "cache_size c' \<le> cache_size c" using cleanup_shrinks[OF c'(1)] by (simp add: cache_size_def)
  with cleaned[OF Cleanup _ c'(2) t c'(3)] c'(1) Cleanup show ?thesis by simp
qed

lemma pow_step_size:
  assumes "cache_ok c" "cache_size c < usize_max" "pc_challenge_lifetime P \<noteq> - 1" "cleanup_late P op"
  obtains r c' where "pow_step L P secret op c = Some (r, c')" "cache_ok c'" "cache_size c' \<le> Suc (cache_size c)"
  using assms
proof (cases rule: pow_step_cases[where L = L and secret = secret, case_names accepted refused cleaned])
  case (accepted account key msg nonce t ch c')
  have "cache_size c' = Suc (cache_size c)" using arg_cong[OF accepted(7), of size] by (simp add: cache_size_def)
  with accepted show ?thesis using that by auto
qed (use assms that in \<open>auto intro: le_SucI\<close>)

lemma pow_run_total:
  assumes life: "pc_challenge_lifetime P \<noteq> - 1"
  shows "cache_ok c \<Longrightarrow> cache_size c + length ops < usize_max \<Longrightarrow> \<forall>op \<in> set ops. cleanup_late P op \<Longrightarrow>
    \<exists>rs d. pow_run L P secret ops c = Some (rs, d) \<and> length rs = length ops \<and> cache_ok d"
proof (induction ops arbitrary: c)
  case (Cons op ops)
  from Cons.prems have "cache_size c < usize_max" "cleanup_late P op" by simp_all
  from pow_step_size[OF Cons.prems(1) this(1) life this(2)] obtain r c' where
    step: "pow_step L P secret op c = Some (r, c')" "cache_ok c'" "cache_size c' \<le> Suc (cache_size c)" by blast
  from Cons.IH[OF step(2)] Cons.prems step(3) obtain rs d where "pow_run L P secret ops c' = Some (rs, d)" "length rs = length ops" "cache_ok d"
    by (metis add_Suc_right le_less_trans add_le_mono1 add_Suc length_Cons list.set_intros(2))
  with step show ?case by simp
qed simp

text \<open>While an account has an entry, its next acceptance comes after the entry's lifetime.\<close>

lemma pow_run_blocked:
  assumes life: "pc_challenge_lifetime P \<noteq> - 1"
  shows "cache_ok c \<Longrightarrow> cache_size c + length ops < usize_max \<Longrightarrow> \<forall>op \<in> set ops. cleanup_late P op \<Longrightarrow>
    sorted_wrt (within_skew skew) ops \<Longrightarrow> pow_run L P secret ops c = Some (rs, d) \<Longrightarrow> (ts, a, k) \<in> set (entries (cc_challenges c)) \<Longrightarrow>
    j < length ops \<Longrightarrow> ops ! j = Submit a key msg nonce t \<Longrightarrow> rs ! j = Accepted \<Longrightarrow> unat ts + unat (pc_challenge_lifetime P) < unat t + skew"
proof (induction ops arbitrary: c rs j)
  case (Cons op ops)
  let ?life = "pc_challenge_lifetime P"
  from Cons.prems have room: "cache_size c < usize_max" and late: "cleanup_late P op" by simp_all
  from pow_step_size[OF Cons.prems(1) room life late, of L secret] obtain r c' where
    step: "pow_step L P secret op c = Some (r, c')" "cache_ok c'" "cache_size c' \<le> Suc (cache_size c)" by blast
  from Cons.prems(5) step(1) obtain rs' where rs: "rs = r # rs'" "pow_run L P secret ops c' = Some (rs', d)" by auto
  have has: "has_challenge_for_account a c" using has_challenge[OF Cons.prems(1)] Cons.prems(6) by blast
  have later: "within_skew skew op (Submit a key msg nonce t)" if "0 < j"
    using Cons.prems(4,7,8) that by (cases j) (auto dest!: nth_mem)
  have tail: "unat ts + unat ?life < unat t + skew" if "(ts, a, k) \<in> set (entries (cc_challenges c'))" "0 < j"
  proof -
    from that(2) obtain j' where j: "j = Suc j'" by (cases j) auto
    from Cons.IH[OF step(2) _ _ _ rs(2) that(1), of j'] Cons.prems step(3) j rs show ?thesis by auto
  qed
  from Cons.prems(1) room life late show ?case
  proof (cases rule: pow_step_cases[where L = L and secret = secret, case_names accepted refused cleaned])
    case (accepted account key' msg' nonce' t' ch c'')
    then have "account \<noteq> a" using has by blast
    then have "0 < j" using Cons.prems(8) accepted(1) by (cases j) auto
    moreover have "(ts, a, k) \<in> set (entries (cc_challenges c'))"
      using Cons.prems(6) accepted(2,7) step(1) by (metis Pair_inject insert_iff option.inject set_mset_add_mset_insert set_mset_mset)
    ultimately show ?thesis using tail by blast
  next
    case (refused r')
    then have "0 < j" using Cons.prems(9) rs(1) step(1) by (cases j) auto
    with refused show ?thesis using tail Cons.prems(6) step(1) by auto
  next
    case (cleaned t' c'')
    then have j: "0 < j" using Cons.prems(8) by (cases j) auto
    show ?thesis
    proof (cases "t' - ?life \<le> ts")
      case True
      with cleaned Cons.prems(6) have "(ts, a, k) \<in> set (entries (cc_challenges c'))" using step(1) by auto
      then show ?thesis using tail j by blast
    next
      case False
      then have "unat ts < unat t' - unat ?life" using cleaned(4) by (simp add: not_le word_less_nat_alt unat_sub)
      moreover have "unat t' \<le> unat t + skew" using later[OF j] cleaned(1) by simp
      ultimately show ?thesis by linarith
    qed
  qed
qed simp

lemma pow_run_accepted:
  assumes life: "pc_challenge_lifetime P \<noteq> - 1"
  shows "cache_ok c \<Longrightarrow> cache_size c + length ops < usize_max \<Longrightarrow> \<forall>op \<in> set ops. cleanup_late P op \<Longrightarrow>
    sorted_wrt (within_skew skew) ops \<Longrightarrow> pow_run L P secret ops c = Some (rs, d) \<Longrightarrow>
    i < length ops \<Longrightarrow> ops ! i = Submit a key msg nonce t \<Longrightarrow> rs ! i = Accepted \<Longrightarrow>
    \<exists>ch. challenge_decode L msg secret = Some (Inr ch) \<and> acceptable L P secret a key nonce t ch
      \<and> (\<forall>j key' msg' nonce' t'. i < j \<and> j < length ops \<and> ops ! j = Submit a key' msg' nonce' t' \<and> rs ! j = Accepted
           \<longrightarrow> unat (ch_timestamp ch) + unat (pc_challenge_lifetime P) < unat t' + skew)"
proof (induction ops arbitrary: c rs i)
  case (Cons op ops)
  from Cons.prems have room: "cache_size c < usize_max" and late: "cleanup_late P op" by simp_all
  from pow_step_size[OF Cons.prems(1) room life late, of L secret] obtain r c' where
    step: "pow_step L P secret op c = Some (r, c')" "cache_ok c'" "cache_size c' \<le> Suc (cache_size c)" by blast
  from Cons.prems(5) step(1) obtain rs' where rs: "rs = r # rs'" "pow_run L P secret ops c' = Some (rs', d)" by auto
  have rest: "cache_size c' + length ops < usize_max" "\<forall>op \<in> set ops. cleanup_late P op" "sorted_wrt (within_skew skew) ops"
    using Cons.prems step(3) by simp_all
  show ?case
  proof (cases i)
    case 0
    with Cons.prems(7,8) rs(1) have op: "op = Submit a key msg nonce t" and r: "r = Accepted" by simp_all
    from Cons.prems(1) room life late show ?thesis
    proof (cases rule: pow_step_cases[where L = L and secret = secret, case_names accepted refused cleaned])
      case (accepted account key' msg' nonce' t' ch c'')
      then have eq: "account = a" "key' = key" "msg' = msg" "nonce' = nonce" "t' = t" "c'' = c'" using op step(1) by simp_all
      have entry: "(ch_timestamp ch, a, key) \<in> set (entries (cc_challenges c'))"
        using accepted(7) eq by (metis set_mset_mset union_single_eq_member)
      have "unat (ch_timestamp ch) + unat (pc_challenge_lifetime P) < unat t2 + skew"
        if "0 < j" "j < length (op # ops)" "(op # ops) ! j = Submit a k2 m2 n2 t2" "rs ! j = Accepted" for j k2 m2 n2 t2
      proof -
        from that(1) obtain j' where "j = Suc j'" by (cases j) auto
        with that pow_run_blocked[OF life step(2) rest rs(2) entry, of j'] rs(1) show ?thesis by auto
      qed
      with accepted(3,4) eq 0 show ?thesis by blast
    qed (use r step(1) op in auto)
  next
    case (Suc i')
    from Cons.IH[OF step(2) rest rs(2), of i'] Cons.prems(6,7,8) Suc rs(1) obtain ch where
      ch: "challenge_decode L msg secret = Some (Inr ch)" "acceptable L P secret a key nonce t ch"
      and later: "\<forall>j key' msg' nonce' t'. i' < j \<and> j < length ops \<and> ops ! j = Submit a key' msg' nonce' t' \<and> rs' ! j = Accepted
           \<longrightarrow> unat (ch_timestamp ch) + unat (pc_challenge_lifetime P) < unat t' + skew" by auto
    have "unat (ch_timestamp ch) + unat (pc_challenge_lifetime P) < unat t2 + skew"
      if "i < j" "j < length (op # ops)" "(op # ops) ! j = Submit a k2 m2 n2 t2" "rs ! j = Accepted" for j k2 m2 n2 t2
    proof -
      from that(1) Suc obtain j' where "j = Suc j'" "i' < j'" by (cases j) auto
      with that later rs(1) show ?thesis by auto
    qed
    with ch show ?thesis by blast
  qed
qed simp

text \<open>
  C22. One token request per account and lifetime, up to the skew of the clock. Requests arrive in any
  order, with the cleanup running in between; a cleanup that takes the lock before a request has read a
  time at most \<open>skew\<close> seconds after the request's. No call panics under the lock; a request is accepted only
  for a challenge of this server that its sender solved and that has not expired; and an account is
  accepted again only when the lifetime of the challenge it used before has passed or less than \<open>skew\<close>
  seconds of it are left, with a challenge that is newer or older by less than \<open>skew\<close> seconds. Without skew (the clock is read in the order of the lock), the
  lifetime has passed, and the challenge is a newer one: no solution is accepted twice.  The code does not
  exclude a skew; \<open>replay_race\<close> shows what one of a second allows.
  The other conditions: the lifetime is not the largest number, the cleanup starts at a time after the
  first lifetime, and the requests are fewer than the largest \<open>usize\<close>.
\<close>

theorem one_mint_per_lifetime:
  assumes life: "pc_challenge_lifetime P \<noteq> - 1" and few: "length ops < usize_max"
    and late: "\<forall>op \<in> set ops. cleanup_late P op" and clock: "sorted_wrt (within_skew skew) ops"
  shows "\<exists>rs d. pow_run L P secret ops cache_default = Some (rs, d) \<and> length rs = length ops \<and> cache_ok d
    \<and> (\<forall>i a key msg nonce t. i < length ops \<and> ops ! i = Submit a key msg nonce t \<and> rs ! i = Accepted \<longrightarrow>
        (\<exists>ch. challenge_decode L msg secret = Some (Inr ch) \<and> acceptable L P secret a key nonce t ch
          \<and> (\<forall>j key' msg' nonce' t'. i < j \<and> j < length ops \<and> ops ! j = Submit a key' msg' nonce' t' \<and> rs ! j = Accepted \<longrightarrow>
               unat (ch_timestamp ch) + unat (pc_challenge_lifetime P) < unat t' + skew
               \<and> (\<exists>ch'. challenge_decode L msg' secret = Some (Inr ch') \<and> unat (ch_timestamp ch) < unat (ch_timestamp ch') + skew))))"
proof -
  have room: "cache_size (cache_default :: 'a challenge_cache) + length ops < usize_max"
    using few by (simp add: cache_size_def cache_default_def)
  from pow_run_total[OF life cache_default_ok room late] obtain rs d where
    run: "pow_run L P secret ops cache_default = Some (rs, d)" "length rs = length ops" "cache_ok d" by blast
  note accepted = pow_run_accepted[OF life cache_default_ok room late clock run(1)]
  have "\<exists>ch. challenge_decode L msg secret = Some (Inr ch) \<and> acceptable L P secret a key nonce t ch
      \<and> (\<forall>j key' msg' nonce' t'. i < j \<and> j < length ops \<and> ops ! j = Submit a key' msg' nonce' t' \<and> rs ! j = Accepted \<longrightarrow>
           unat (ch_timestamp ch) + unat (pc_challenge_lifetime P) < unat t' + skew
           \<and> (\<exists>ch'. challenge_decode L msg' secret = Some (Inr ch') \<and> unat (ch_timestamp ch) < unat (ch_timestamp ch') + skew))"
    if "i < length ops" "ops ! i = Submit a key msg nonce t" "rs ! i = Accepted" for i a key msg nonce t
  proof -
    from accepted[OF that] obtain ch where ch: "challenge_decode L msg secret = Some (Inr ch)" "acceptable L P secret a key nonce t ch"
      and later: "\<forall>j key' msg' nonce' t'. i < j \<and> j < length ops \<and> ops ! j = Submit a key' msg' nonce' t' \<and> rs ! j = Accepted
           \<longrightarrow> unat (ch_timestamp ch) + unat (pc_challenge_lifetime P) < unat t' + skew" by blast
    have "unat (ch_timestamp ch) + unat (pc_challenge_lifetime P) < unat t' + skew
        \<and> (\<exists>ch'. challenge_decode L msg' secret = Some (Inr ch') \<and> unat (ch_timestamp ch) < unat (ch_timestamp ch') + skew)"
      if j: "i < j" "j < length ops" "ops ! j = Submit a key' msg' nonce' t'" "rs ! j = Accepted" for j key' msg' nonce' t'
    proof -
      have less: "unat (ch_timestamp ch) + unat (pc_challenge_lifetime P) < unat t' + skew" using later j by blast
      from accepted[OF j(2,3,4)] obtain ch' where ch': "challenge_decode L msg' secret = Some (Inr ch')" "acceptable L P secret a key' nonce' t' ch'"
        by blast
      with less have "unat (ch_timestamp ch) < unat (ch_timestamp ch') + skew" by (simp add: acceptable_def)
      with less ch' show ?thesis by blast
    qed
    with ch show ?thesis by blast
  qed
  with run show ?thesis by blast
qed

section \<open>Sample runs\<close>

definition sample_pow :: pow_config where
  "sample_pow = \<lparr>pc_challenge_lifetime = 30, pc_growth_rate = 1, pc_baseline = 12\<rparr>"

definition sample_key :: api_key where
  "sample_key = replicate 32 1"

definition sample_challenge :: "64 word \<Rightarrow> 64 word challenge" where
  "sample_challenge ts = challenge_new sample_lib 5 ts 7 sample_key [1, 2]"

definition sample_submit :: "64 word \<Rightarrow> 64 word \<Rightarrow> 64 word pow_op" where
  "sample_submit ts t = Submit 7 sample_key (challenge_encode sample_lib (sample_challenge ts)) 0 t"

lemma sample_decodes:
  "challenge_decode sample_lib (challenge_encode sample_lib (sample_challenge ts)) [1, 2] = Some (Inr (sample_challenge ts))"
  using decode_new[OF sample_lib_ok, of sample_key 5 ts 7 "[1, 2]"] by (simp add: sample_challenge_def sample_key_def)

lemma sample_solved: "validate_pow sample_lib (sample_challenge ts) 0"
proof -
  have "rev (u64_to_be_bytes 0) = replicate 8 0" by (simp add: u64_to_be_bytes_def numeral_nat)
  then have "take 8 (sha3 sample_lib (bs @ u64_to_be_bytes 0)) = replicate 8 0" for bs
    by (simp add: sample_lib_def min_def)
  moreover have "of_le_bytes (replicate 8 0) = 0" by (simp add: numeral_nat)
  ultimately show ?thesis by (simp add: validate_pow_def u64_from_be_bytes_def sample_challenge_def challenge_new_def)
qed

lemma sample_accepted:
  assumes ok: "cache_ok c" and free: "entries (cc_challenges c) = []" and ts: "ts \<le> t" "unat t \<le> unat ts + 30"
  shows "\<exists>c'. pow_step sample_lib sample_pow [1, 2] (sample_submit ts t) c = Some (Accepted, c') \<and> cache_ok c'
    \<and> set (entries (cc_challenges c')) = {(ts, 7, sample_key)}"
proof -
  have "\<not> has_challenge_for_account 7 c" using has_challenge[OF ok] free by simp
  moreover have "acceptable sample_lib sample_pow [1, 2] 7 sample_key 0 t (sample_challenge ts)"
    using ts sample_solved signed_new[of sample_lib "[1, 2]" 5 ts 7 sample_key]
    by (simp add: acceptable_def sample_challenge_def challenge_new_def sample_pow_def)
  moreover have "length (entries (cc_challenges c)) < usize_max" "pc_challenge_lifetime sample_pow \<noteq> - 1"
    by (simp_all add: free usize_max_def sample_pow_def)
  ultimately obtain c' where "submit_challenge sample_lib sample_pow [1, 2] 7 sample_key (challenge_encode sample_lib (sample_challenge ts)) 0 t c = Ok c' ()"
    "cache_ok c'" "mset (entries (cc_challenges c')) = add_mset (ch_timestamp (sample_challenge ts), 7, sample_key) (mset (entries (cc_challenges c)))"
    using submit_exact[OF ok, where P = sample_pow and L = sample_lib and secret = "[1, 2]" and msg = "challenge_encode sample_lib (sample_challenge ts)"
        and account = 7 and key = sample_key and nonce = 0 and t = t]
    by (auto simp: sample_decodes)
  then show ?thesis
    using arg_cong[of "mset (entries (cc_challenges c'))" _ set_mset] free
    by (simp add: sample_submit_def sample_challenge_def challenge_new_def)
qed

lemma sample_cleaned:
  assumes ok: "cache_ok c" and e: "set (entries (cc_challenges c)) = {(1000, i)}"
  shows "\<exists>c'. pow_step sample_lib sample_pow [1, 2] (Cleanup 1031) c = Some (Cleaned, c') \<and> cache_ok c' \<and> entries (cc_challenges c') = []"
proof -
  obtain c' where "cleanup_expired_challenges 1031 30 c = Some c'" "cache_ok c'"
    "set (entries (cc_challenges c')) \<subseteq> {e \<in> {(1000, i)}. (1001 :: 64 word) \<le> fst e}" using cleanup_ok[OF ok, of 30 1031] e by auto
  moreover from this(3) have "entries (cc_challenges c') = []" by (cases "entries (cc_challenges c')") auto
  ultimately show ?thesis by (simp add: sample_pow_def)
qed

theorem one_mint_per_lifetime_witness:
  "\<exists>d. pow_run sample_lib sample_pow [1, 2] [sample_submit 1000 1030, Cleanup 1031, sample_submit 1031 1040] cache_default
     = Some ([Accepted, Cleaned, Accepted], d) \<and> cache_ok d"
proof -
  let ?ops = "[sample_submit 1000 1030, Cleanup 1031, sample_submit 1031 1040]"
  have empty: "entries (cc_challenges (cache_default :: 64 word challenge_cache)) = []" by (simp add: cache_default_def)
  obtain c1 where 1: "pow_step sample_lib sample_pow [1, 2] (sample_submit 1000 1030) cache_default = Some (Accepted, c1)" "cache_ok c1"
    "set (entries (cc_challenges c1)) = {(1000, 7, sample_key)}" using sample_accepted[OF cache_default_ok empty, of 1000 1030] by auto
  from sample_cleaned[OF 1(2,3)] obtain c2 where 2: "pow_step sample_lib sample_pow [1, 2] (Cleanup 1031) c1 = Some (Cleaned, c2)" "cache_ok c2"
    "entries (cc_challenges c2) = []" by blast
  from sample_accepted[OF 2(2,3), of 1031 1040] obtain c3 where 3: "pow_step sample_lib sample_pow [1, 2] (sample_submit 1031 1040) c2 = Some (Accepted, c3)"
    by auto
  have "pc_challenge_lifetime sample_pow \<noteq> - 1" "length ?ops < usize_max" "\<forall>op \<in> set ?ops. cleanup_late sample_pow op" "sorted_wrt (within_skew 0) ?ops"
    by (simp_all add: sample_pow_def usize_max_def cleanup_late_def sample_submit_def)
  from one_mint_per_lifetime[OF this, of sample_lib "[1, 2]"] 1(1) 2(1) 3 show ?thesis by auto
qed

theorem submit_exact_witness:
  "\<exists>c'. submit_challenge sample_lib sample_pow [1, 2] 7 sample_key (challenge_encode sample_lib (sample_challenge 1000)) 0 1010 cache_default = Ok c' ()"
proof -
  have "length (entries (cc_challenges (cache_default :: 64 word challenge_cache))) < usize_max" "pc_challenge_lifetime sample_pow \<noteq> - 1"
    by (simp_all add: usize_max_def sample_pow_def cache_default_def)
  note exact = submit_exact[OF cache_default_ok this, where L = sample_lib and secret = "[1, 2]" and account = 7 and key = sample_key
      and msg = "challenge_encode sample_lib (sample_challenge 1000)" and nonce = 0 and t = 1010]
  have "acceptable sample_lib sample_pow [1, 2] 7 sample_key 0 1010 (sample_challenge 1000)"
    using sample_solved signed_new[of sample_lib "[1, 2]" 5 1000 7 sample_key]
    by (simp add: acceptable_def sample_challenge_def challenge_new_def sample_pow_def)
  moreover have "\<not> has_challenge_for_account 7 (cache_default :: 64 word challenge_cache)"
    by (simp add: has_challenge_for_account_def cache_default_def)
  ultimately show ?thesis using exact by (auto simp: sample_decodes)
qed

text \<open>
  The skew matters. A request reads the clock before it waits for the lock. When a cleanup that
  read a later time takes the lock first, a challenge that was accepted before is accepted a second
  time: the cleanup has removed its entry, and the request still judges it by the earlier time.
\<close>

theorem replay_race:
  "\<exists>d. pow_run sample_lib sample_pow [1, 2] [sample_submit 1000 1030, Cleanup 1031, sample_submit 1000 1030] cache_default
     = Some ([Accepted, Cleaned, Accepted], d)"
proof -
  have empty: "entries (cc_challenges (cache_default :: 64 word challenge_cache)) = []" by (simp add: cache_default_def)
  obtain c1 where 1: "pow_step sample_lib sample_pow [1, 2] (sample_submit 1000 1030) cache_default = Some (Accepted, c1)" "cache_ok c1"
    "set (entries (cc_challenges c1)) = {(1000, 7, sample_key)}" using sample_accepted[OF cache_default_ok empty, of 1000 1030] by auto
  from sample_cleaned[OF 1(2,3)] obtain c2 where 2: "pow_step sample_lib sample_pow [1, 2] (Cleanup 1031) c1 = Some (Cleaned, c2)" "cache_ok c2"
    "entries (cc_challenges c2) = []" by blast
  from sample_accepted[OF 2(2,3), of 1000 1030] obtain c3 where 3: "pow_step sample_lib sample_pow [1, 2] (sample_submit 1000 1030) c2 = Some (Accepted, c3)"
    by auto
  from 1(1) 2(1) 3 show ?thesis by simp
qed

section \<open>Difficulty\<close>

lemma unat_max_target:
  assumes "b < 64"
  shows "unat (drop_bit b (- 1 :: 64 word)) = 2 ^ (64 - b) - 1"
proof -
  have "(2::nat) ^ 64 = 2 ^ (64 - b) * 2 ^ b" using assms by (simp add: power_add[symmetric])
  moreover have "(k * m - 1) div m = k - 1" if pos: "0 < k" "0 < m" for k m :: nat
  proof -
    obtain j where k: "k = Suc j" using gr0_implies_Suc[OF pos(1)] by (elim exE)
    have "(k * m - 1) = (m - 1) + j * m" using pos by (simp add: k)
    then have "(k * m - 1) div m = j + (m - 1) div m" using div_mult_self1[of m "m - 1" j] pos by simp
    then show ?thesis using pos by (simp add: k)
  qed
  ultimately have "(2 ^ 64 - 1) div 2 ^ b = 2 ^ (64 - b) - (1::nat)" by (simp only: zero_less_power zero_less_numeral)
  moreover have "unat (- 1 :: 64 word) = 2 ^ 64 - 1" by (simp add: unsigned_minus_1_eq_mask mask_eq_exp_minus_1)
  moreover have "unat (drop_bit b (- 1 :: 64 word)) = unat (- 1 :: 64 word) div 2 ^ b"
    by (simp only: unat_drop_bit_eq drop_bit_eq_div[where 'a = nat])
  ultimately show ?thesis by (simp only:)
qed

lemma unat_difficulty:
  assumes "n * 2 ^ g < 2 ^ 64"
  shows "unat (max (push_bit g (of_nat n :: 64 word)) 1) = max (n * 2 ^ g) 1"
proof -
  have "push_bit g (of_nat n :: 64 word) = of_nat (n * 2 ^ g)" by (simp add: push_bit_eq_mult)
  moreover have "unat (of_nat (n * 2 ^ g) :: 64 word) = n * 2 ^ g" by (rule of_nat_inverse[OF refl]) (use assms in simp)
  ultimately show ?thesis by (simp add: max_def word_le_nat_alt)
qed

lemma target_value:
  assumes "get_challenge_target P key c = Some target" "num_challenges_for_api_key key c * 2 ^ pc_growth_rate P < 2 ^ 64"
  shows "unat target = (2 ^ (64 - pc_baseline P) - 1) div max (num_challenges_for_api_key key c * 2 ^ pc_growth_rate P) 1"
proof -
  have t: "target = drop_bit (pc_baseline P) (- 1) div max (push_bit (pc_growth_rate P) (of_nat (num_challenges_for_api_key key c))) 1"
    and b: "pc_baseline P < 64"
    using assms(1) by (auto simp: get_challenge_target_def Let_def split: if_splits)
  show ?thesis unfolding t unat_div unat_max_target[OF b] unat_difficulty[OF assms(2)] by simp
qed

text \<open>
  C40. The difficulty. With a baseline and a growth rate below 64, and as long as the number of the key's
  challenges shifted by the growth rate fits 64 bits, the target is the largest 64-bit number below the
  baseline divided by it: it never exceeds \<open>2^(64 - baseline) - 1\<close>, and more challenges never make it
  larger. Other settings panic.
\<close>

theorem challenge_target:
  "(get_challenge_target P key c = None \<longleftrightarrow> \<not> (pc_baseline P < 64 \<and> pc_growth_rate P < 64))
   \<and> (\<forall>target. get_challenge_target P key c = Some target \<and> num_challenges_for_api_key key c * 2 ^ pc_growth_rate P < 2 ^ 64 \<longrightarrow>
       unat target = (2 ^ (64 - pc_baseline P) - 1) div max (num_challenges_for_api_key key c * 2 ^ pc_growth_rate P) 1
       \<and> (\<forall>c' target'. num_challenges_for_api_key key c' \<le> num_challenges_for_api_key key c \<and> get_challenge_target P key c' = Some target'
            \<longrightarrow> target \<le> target'))"
proof (intro conjI allI impI; (elim conjE)?)
  show "get_challenge_target P key c = None \<longleftrightarrow> \<not> (pc_baseline P < 64 \<and> pc_growth_rate P < 64)"
    by (simp add: get_challenge_target_def Let_def)
  let ?d = "\<lambda>c. num_challenges_for_api_key key c * 2 ^ pc_growth_rate P"
  fix target assume t: "get_challenge_target P key c = Some target" "?d c < 2 ^ 64"
  show "unat target = (2 ^ (64 - pc_baseline P) - 1) div max (?d c) 1" by (rule target_value[OF t])
  fix c' target' assume fewer: "num_challenges_for_api_key key c' \<le> num_challenges_for_api_key key c"
    and t': "get_challenge_target P key c' = Some target'"
  have le: "?d c' \<le> ?d c" using fewer by simp
  then have "?d c' < 2 ^ 64" using t(2) by linarith
  from target_value[OF t' this] target_value[OF t] have
    "unat target' = (2 ^ (64 - pc_baseline P) - 1) div max (?d c') 1" "unat target = (2 ^ (64 - pc_baseline P) - 1) div max (?d c) 1" .
  moreover have "max (?d c') 1 \<le> max (?d c) 1" using le by (rule max.mono) simp
  ultimately show "target \<le> target'" by (simp only: word_le_nat_alt) (rule div_le_mono2, simp_all only: max_less_iff_conj less_max_iff_disj zero_less_one simp_thms)
qed

theorem challenge_target_witness:
  "\<exists>target. get_challenge_target sample_pow sample_key (cache_default :: 64 word challenge_cache) = Some target \<and> unat target = 2 ^ 52 - 1"
proof -
  have n: "num_challenges_for_api_key sample_key (cache_default :: 64 word challenge_cache) = 0"
    by (simp add: num_challenges_for_api_key_def cache_default_def)
  obtain target where t: "get_challenge_target sample_pow sample_key (cache_default :: 64 word challenge_cache) = Some target"
    using challenge_target[of sample_pow sample_key "cache_default :: 64 word challenge_cache"] by (auto simp: sample_pow_def)
  then have "unat target = 2 ^ (64 - pc_baseline sample_pow) - 1"
    using challenge_target[of sample_pow sample_key "cache_default :: 64 word challenge_cache"] n by (auto simp: t)
  then show ?thesis using t by (simp add: sample_pow_def)
qed

end
