(* ===== verification/Faucet_Mint.thy ===== *)
theory Faucet_Mint
  imports Domain Faucet_Pow
begin

text \<open>
  Minting (bin/faucet/src/faucet/mod.rs, types.rs and server/get_tokens.rs): the validation of a
  request, the notes of a batch, the local state of the faucet's account with its history, and the
  recovery from an error of the node, which reads the text that the block producer wrote
  (crates/block-producer/src/errors.rs, crates/utils/src/lib.rs).  The text of a digest and its
  parser, and the library's checks on assets, are parameters.
\<close>

section \<open>Strings\<close>

text \<open>\<open>str::contains\<close>, \<open>str::split_once\<close>, the first word of \<open>split_whitespace\<close>, \<open>eq_ignore_ascii_case\<close>.\<close>

fun str_contains :: "string \<Rightarrow> string \<Rightarrow> bool" where
  "str_contains p [] = (p = [])"
| "str_contains p (c # s) = (take (length p) (c # s) = p \<or> str_contains p s)"

fun split_once :: "string \<Rightarrow> string \<Rightarrow> (string \<times> string) option" where
  "split_once p [] = (if p = [] then Some ([], []) else None)"
| "split_once p (c # s) =
     (if take (length p) (c # s) = p then Some ([], drop (length p) (c # s))
      else map_option (\<lambda>(a, b). (c # a, b)) (split_once p s))"

definition is_whitespace :: "char \<Rightarrow> bool" where
  "is_whitespace c \<longleftrightarrow> c = CHR '' '' \<or> (9 \<le> (of_char c :: nat) \<and> (of_char c :: nat) \<le> 13)"

definition first_word :: "string \<Rightarrow> string option" where
  "first_word s = (let w = takeWhile (\<lambda>c. \<not> is_whitespace c) (dropWhile is_whitespace s) in if w = [] then None else Some w)"

definition ascii_lower :: "char \<Rightarrow> char" where
  "ascii_lower c = (let n = of_char c :: nat in if 65 \<le> n \<and> n \<le> 90 then char_of (n + 32) else c)"

section \<open>The text of the block producer's errors\<close>

record messages =
  show_digest :: "digest \<Rightarrow> string"
  parse_digest :: "string \<Rightarrow> digest option"
  debug_ids :: "nat list \<Rightarrow> string"
  show_id :: "nat \<Rightarrow> string"
  show_source :: string

text \<open>A digest is shown in hexadecimal with a prefix, which the parser reads.\<close>

definition hex_chars :: string where
  "hex_chars = ''0123456789abcdefx''"

definition messages_ok :: "messages \<Rightarrow> bool" where
  "messages_ok M \<longleftrightarrow> (\<forall>d. set (show_digest M d) \<subseteq> set hex_chars \<and> show_digest M d \<noteq> [] \<and> parse_digest M (show_digest M d) = Some d)"

definition format_opt :: "('a \<Rightarrow> string) \<Rightarrow> 'a option \<Rightarrow> string" where
  "format_opt f opt = (case opt of None \<Rightarrow> ''None'' | Some x \<Rightarrow> f x)"

fun verify_tx_message :: "messages \<Rightarrow> verify_tx_error \<Rightarrow> string" where
  "verify_tx_message M (InputNotesAlreadyConsumed ns) =
     ''input notes with given nullifiers were already consumed by another transaction: '' @ debug_ids M ns"
| "verify_tx_message M (UnauthenticatedNotesNotFound ns) =
     ''unauthenticated transaction notes were not found in the store or in outputs of in-flight transactions: '' @ debug_ids M ns"
| "verify_tx_message M (OutputNotesAlreadyExist ns) = ''output note IDs already used: '' @ debug_ids M ns"
| "verify_tx_message M (IncorrectAccountInitialCommitment initial current) =
     ''transaction's initial state commitment '' @ show_digest M initial
       @ '' does not match the account's current value of '' @ format_opt (show_digest M) current"
| "verify_tx_message M StoreConnectionFailed = ''failed to retrieve transaction inputs from the store''"
| "verify_tx_message M (InvalidTransactionProof t) = ''invalid transaction proof error for transaction: '' @ show_id M t"

text \<open>\<open>ErrorReport::as_report\<close>: the error and its sources, one per line.\<close>

definition as_report :: "string list \<Rightarrow> string" where
  "as_report chain = hd chain @ concat (map (\<lambda>source. CHR 0x0A # ''caused by: '' @ source) (tl chain))"

fun error_chain :: "messages \<Rightarrow> add_transaction_error \<Rightarrow> string list" where
  "error_chain M (VerificationFailed StoreConnectionFailed) =
     [''transaction verification failed'', verify_tx_message M StoreConnectionFailed, show_source M]"
| "error_chain M (VerificationFailed e) = [''transaction verification failed'', verify_tx_message M e]"
| "error_chain M (StaleInputs input_block stale_limit) =
     [''transaction input data from block '' @ show_id M input_block
       @ '' is rejected as stale because it is older than the limit of '' @ show_id M stale_limit]"
| "error_chain M TransactionDeserializationFailed = [''transaction deserialization failed'', show_source M]"
| "error_chain M (Expired expired_at limit) =
     [''transaction expired at block height '' @ show_id M expired_at @ '' but the block height limit was '' @ show_id M limit]"

datatype grpc_code = CodeInvalidArgument | CodeInternal | CodeOther

text \<open>The status the client receives.\<close>

fun status_received :: "messages \<Rightarrow> grpc_status \<Rightarrow> grpc_code \<times> string" where
  "status_received M (InvalidArgument e) = (CodeInvalidArgument, as_report (error_chain M e))"
| "status_received M InternalError = (CodeInternal, ''Internal error'')"

section \<open>Requests\<close>

text \<open>\<open>AssetOptions\<close>: amounts up to the library's \<open>FungibleAsset::MAX_AMOUNT\<close>, the parameter \<open>max_amount\<close>.\<close>

definition asset_options_new :: "64 word \<Rightarrow> 64 word list \<Rightarrow> 64 word + 64 word list" where
  "asset_options_new max_amount options =
     (case find (\<lambda>x. max_amount < x) options of Some invalid \<Rightarrow> Inl invalid | None \<Rightarrow> Inr options)"

definition asset_options_validate :: "64 word list \<Rightarrow> 64 word \<Rightarrow> 64 word option" where
  "asset_options_validate options amount = (if amount \<in> set options then Some amount else None)"

datatype faucet_note_type = PrivateNote | PublicNote

record raw_mint_request =
  rq_account_id :: string
  rq_is_private_note :: bool
  rq_asset_amount :: "64 word"
  rq_challenge :: "string option"
  rq_nonce :: "64 word option"
  rq_api_key :: "string option"

record 'id mint_request =
  mr_account_id :: 'id
  mr_note_type :: faucet_note_type
  mr_asset_amount :: "64 word"

record 'id server =
  sv_lib :: "'id faucet_lib"
  sv_from_hex :: "string \<Rightarrow> 'id option"
  sv_from_bech32 :: "string \<Rightarrow> 'id option"
  sv_asset_options :: "64 word list"
  sv_api_keys :: "api_key set"
  sv_pow :: pow_config
  sv_secret :: bytes

definition parse_account_id :: "'id server \<Rightarrow> string \<Rightarrow> 'id option" where
  "parse_account_id S s = (if take 2 s = ''0x'' then sv_from_hex S s else sv_from_bech32 S s)"

definition request_api_key :: "'id server \<Rightarrow> string option \<Rightarrow> mint_request_error + api_key" where
  "request_api_key S k =
     (case k of
        None \<Rightarrow> Inr api_key_default
      | Some text \<Rightarrow>
          case api_key_decode (sv_lib S) text of
            Inl e \<Rightarrow> Inl e
          | Inr key \<Rightarrow> if key \<in> sv_api_keys S then Inr key else Inl (InvalidApiKey (api_key_encode (sv_lib S) key)))"

definition validate_request ::
  "'id server \<Rightarrow> 64 word \<Rightarrow> raw_mint_request \<Rightarrow> 'id challenge_cache \<Rightarrow> ('id challenge_cache, mint_request_error, 'id mint_request) outcome" where
  "validate_request S now r c =
     (case parse_account_id S (rq_account_id r) of
        None \<Rightarrow> Err c InvalidAccountId
      | Some account \<Rightarrow>
          case asset_options_validate (sv_asset_options S) (rq_asset_amount r) of
            None \<Rightarrow> Err c (InvalidAssetAmount (rq_asset_amount r))
          | Some amount \<Rightarrow>
              case request_api_key S (rq_api_key r) of
                Inl e \<Rightarrow> Err c e
              | Inr key \<Rightarrow>
                  case (rq_challenge r, rq_nonce r) of
                    (Some challenge, Some nonce) \<Rightarrow>
                      and_then (submit_challenge (sv_lib S) (sv_pow S) (sv_secret S) account key challenge nonce now c)
                        (\<lambda>c _. Ok c \<lparr>mr_account_id = account,
                                     mr_note_type = (if rq_is_private_note r then PrivateNote else PublicNote),
                                     mr_asset_amount = amount\<rparr>)
                  | _ \<Rightarrow> Err c MissingPowParameters)"

text \<open>The handler: the bounded channel to the minter holds \<open>capacity\<close> requests.\<close>

datatype get_token_error = InvalidRequest mint_request_error | FaucetOverloaded | FaucetClosed

fun get_token_status :: "get_token_error \<Rightarrow> nat" where
  "get_token_status (InvalidRequest e) = 400"
| "get_token_status FaucetOverloaded = 503"
| "get_token_status FaucetClosed = 503"

record 'id channel =
  ch_closed :: bool
  ch_queue :: "'id mint_request list"

definition get_tokens ::
  "'id server \<Rightarrow> nat \<Rightarrow> 64 word \<Rightarrow> raw_mint_request \<Rightarrow> 'id challenge_cache \<times> 'id channel \<Rightarrow>
     ('id challenge_cache \<times> 'id channel, get_token_error, unit) outcome" where
  "get_tokens S capacity now r = (\<lambda>(c, q).
     case validate_request S now r c of
       Ok c request \<Rightarrow>
         if ch_closed q then Err (c, q) FaucetClosed
         else if length (ch_queue q) < capacity then Ok (c, q\<lparr>ch_queue := ch_queue q @ [request]\<rparr>) ()
         else Err (c, q) FaucetOverloaded
     | Err c e \<Rightarrow> Err (c, q) (InvalidRequest e)
     | Panic \<Rightarrow> Panic | Diverge \<Rightarrow> Diverge)"

section \<open>The notes of a batch\<close>

text \<open>
  The amount in base units: both the power and the product are 64-bit.  A build with overflow checks
  panics (\<open>None\<close>) when one of them overflows, another wraps around; the library refuses an asset above
  \<open>max_amount\<close>, which the \<open>unwrap\<close> turns into a panic.  \<open>create\<close> is the library's constructor of the note.
\<close>

definition base_units :: "bool \<Rightarrow> 64 word \<Rightarrow> nat \<Rightarrow> 64 word \<Rightarrow> 64 word option" where
  "base_units overflow_checks max_amount decimals amount =
     (if overflow_checks \<and> (2 ^ 64 \<le> (10::nat) ^ decimals \<or> 2 ^ 64 \<le> unat amount * 10 ^ decimals) then None
      else let base = amount * 10 ^ decimals in if base \<le> max_amount then Some base else None)"

fun build_notes ::
  "bool \<Rightarrow> 64 word \<Rightarrow> nat \<Rightarrow> ('id \<Rightarrow> 64 word \<Rightarrow> faucet_note_type \<Rightarrow> 'rng \<Rightarrow> 'rng \<times> 'note option) \<Rightarrow>
     'id mint_request list \<Rightarrow> 'rng \<Rightarrow> 'note list option option" where
  "build_notes overflow_checks max_amount decimals create [] rng = Some (Some [])"
| "build_notes overflow_checks max_amount decimals create (r # requests) rng =
     (case base_units overflow_checks max_amount decimals (mr_asset_amount r) of
        None \<Rightarrow> None
      | Some amount \<Rightarrow>
          case create (mr_account_id r) amount (mr_note_type r) rng of
            (rng, None) \<Rightarrow> Some None
          | (rng, Some note) \<Rightarrow> map_option (map_option (Cons note)) (build_notes overflow_checks max_amount decimals create requests rng))"

section \<open>The local state of the faucet\<close>

text \<open>
  The account as of the last accepted transaction, and its earlier states.  \<open>commitment\<close> and
  \<open>apply_delta\<close> are the library's.
\<close>

record 'acc faucet =
  fa_account :: 'acc
  fa_prior_state :: "'acc list"

definition update_state :: "('acc \<Rightarrow> 'd \<Rightarrow> 'acc option) \<Rightarrow> 'd \<Rightarrow> 'acc faucet \<Rightarrow> ('acc faucet, unit, unit) outcome" where
  "update_state apply_delta delta f =
     (let prior = (if length (fa_prior_state f) > 1000 then tl (fa_prior_state f) else fa_prior_state f);
          f = f\<lparr>fa_prior_state := prior @ [fa_account f]\<rparr> in
      case apply_delta (fa_account f) delta of
        None \<Rightarrow> Err f ()
      | Some account \<Rightarrow> Ok (f\<lparr>fa_account := account\<rparr>) ())"

definition parse_desync_error :: "messages \<Rightarrow> string \<Rightarrow> digest option" where
  "parse_desync_error M err =
     (case split_once ''current value of '' err of
        None \<Rightarrow> None
      | Some (prefix, suffix) \<Rightarrow>
          case first_word suffix of
            None \<Rightarrow> None
          | Some onchain_state \<Rightarrow>
              if map ascii_lower onchain_state = ''none'' then Some default_digest else parse_digest M onchain_state)"

datatype desync_error = ParseFailed | NoMatchingState

fun find_position :: "('a \<Rightarrow> bool) \<Rightarrow> 'a list \<Rightarrow> nat option" where
  "find_position P [] = None"
| "find_position P (x # xs) = (if P x then Some 0 else map_option Suc (find_position P xs))"

definition handle_desync ::
  "messages \<Rightarrow> ('acc \<Rightarrow> digest) \<Rightarrow> string \<Rightarrow> 'acc faucet \<Rightarrow> ('acc faucet, desync_error, unit) outcome" where
  "handle_desync M commitment err f =
     (case parse_desync_error M err of
        None \<Rightarrow> Err f ParseFailed
      | Some onchain_state \<Rightarrow>
          case find_position (\<lambda>state. commitment state = onchain_state) (fa_prior_state f) of
            None \<Rightarrow> Err f NoMatchingState
          | Some rollback \<Rightarrow>
              Ok (f\<lparr>fa_account := fa_prior_state f ! rollback, fa_prior_state := take rollback (fa_prior_state f)\<rparr>) ())"

datatype mint_error =
    ScriptCompilation | Execution | Proving | NoteBuild
  | SubmissionTransport "grpc_code \<times> string"
  | SubmissionResponse

datatype recovery_error = DesyncUnrecovered desync_error | NotRecoverable mint_error

fun error_recovery ::
  "messages \<Rightarrow> ('acc \<Rightarrow> digest) \<Rightarrow> mint_error \<Rightarrow> 'acc faucet \<Rightarrow> ('acc faucet, recovery_error, unit) outcome" where
  "error_recovery M commitment (SubmissionTransport (code, message)) f =
     (if code = CodeInvalidArgument \<and> str_contains ''incorrect initial state commitment'' message
      then map_err DesyncUnrecovered (handle_desync M commitment message f)
      else Err f (NotRecoverable (SubmissionTransport (code, message))))"
| "error_recovery M commitment e f = Err f (NotRecoverable e)"

text \<open>
  The loop of \<open>run\<close> over the outcomes of the batches: a delta is applied, where the \<open>unwrap\<close> panics on an
  error; an error is recovered from or ends the loop.
\<close>

fun faucet_run ::
  "messages \<Rightarrow> ('acc \<Rightarrow> digest) \<Rightarrow> ('acc \<Rightarrow> 'd \<Rightarrow> 'acc option) \<Rightarrow> (mint_error + 'd) list \<Rightarrow> 'acc faucet \<Rightarrow>
     ('acc faucet, recovery_error, unit) outcome" where
  "faucet_run M commitment apply_delta [] f = Ok f ()"
| "faucet_run M commitment apply_delta (Inr delta # batches) f =
     and_then (expect (update_state apply_delta delta f)) (\<lambda>f _. faucet_run M commitment apply_delta batches f)"
| "faucet_run M commitment apply_delta (Inl e # batches) f =
     and_then (error_recovery M commitment e f) (\<lambda>f _. faucet_run M commitment apply_delta batches f)"

section \<open>Reading the report\<close>

text \<open>No match starts inside text that misses the pattern's second character.\<close>

lemma no_match: "take (length (a # b # p)) (x # y # t) = a # b # p \<Longrightarrow> y = b"
  by simp

lemma split_once_skip:
  assumes "b \<notin> set h" "x \<noteq> b"
  shows "split_once (a # b # p) (h @ x # s) = map_option (\<lambda>(l, r). (h @ l, r)) (split_once (a # b # p) (x # s))"
  using assms(1)
proof (induction h)
  case Nil
  then show ?case by (cases "split_once (a # b # p) (x # s)") auto
next
  case (Cons c h)
  have "take (length (a # b # p)) (c # h @ x # s) \<noteq> a # b # p"
    using Cons.prems assms(2) by (cases h) auto
  with Cons show ?case by (auto simp: option.map_comp comp_def split_beta)
qed

lemma str_contains_skip:
  assumes "b \<notin> set h" "x \<noteq> b"
  shows "str_contains (a # b # p) (h @ x # s) = str_contains (a # b # p) (x # s)"
  using assms(1)
proof (induction h)
  case (Cons c h)
  have "take (length (a # b # p)) (c # h @ x # s) \<noteq> a # b # p"
    using Cons.prems assms(2) by (cases h) auto
  then have "str_contains (a # b # p) (c # h @ x # s) = str_contains (a # b # p) (h @ x # s)" by (simp only: str_contains.simps simp_thms)
  with Cons show ?case by (simp del: str_contains.simps)
qed simp

lemma str_contains_last:
  assumes "b \<notin> set h"
  shows "\<not> str_contains (a # b # p) h"
  using assms
proof (induction h)
  case (Cons c h)
  then have "take (length (a # b # p)) (c # h) \<noteq> a # b # p" by (cases h) auto
  with Cons show ?case by simp
qed simp

definition desync_report :: "messages \<Rightarrow> digest \<Rightarrow> digest option \<Rightarrow> string" where
  "desync_report M initial current = as_report (error_chain M (VerificationFailed (IncorrectAccountInitialCommitment initial current)))"

lemma digest_text:
  assumes "messages_ok M"
  shows "parse_digest M (show_digest M d) = Some d" "show_digest M d \<noteq> []" "c \<in> set (show_digest M d) \<Longrightarrow> c \<in> set hex_chars"
  using assms unfolding messages_ok_def by blast+

lemma digest_misses:
  assumes "messages_ok M"
  shows "CHR ''n'' \<notin> set (show_digest M d)" "CHR ''u'' \<notin> set (show_digest M d)"
  using digest_text(3)[OF assms] by (auto simp: hex_chars_def)

lemma report_text:
  "desync_report M initial current =
     ''transaction verification failed'' @ CHR 0x0A # ''caused by: transaction's initial state commitment '' @ show_digest M initial
       @ '' does not match the account's current value of '' @ format_opt (show_digest M) current"
  by (simp add: desync_report_def as_report_def)

lemma report_no_trigger:
  assumes M: "messages_ok M"
  shows "\<not> str_contains ''incorrect initial state commitment'' (desync_report M initial current)"
proof -
  have "\<not> str_contains ''incorrect initial state commitment'' ('' does not match the account's current value of '' @ format_opt (show_digest M) current)"
    using str_contains_last[OF digest_misses(1)[OF M], of "CHR ''i''"]
    by (cases current) (simp_all add: format_opt_def)
  then have "\<not> str_contains ''incorrect initial state commitment''
      (show_digest M initial @ '' does not match the account's current value of '' @ format_opt (show_digest M) current)"
    using str_contains_skip[OF digest_misses(1)[OF M], of "CHR '' ''" "CHR ''i''"] by simp
  then show ?thesis unfolding report_text by simp
qed

lemma first_word_digest: "messages_ok M \<Longrightarrow> first_word (show_digest M d) = Some (show_digest M d)"
proof -
  assume M: "messages_ok M"
  have "\<not> is_whitespace c" if "c \<in> set (show_digest M d)" for c
    using digest_text(3)[OF M that] by (auto simp: hex_chars_def is_whitespace_def)
  then have "takeWhile (\<lambda>c. \<not> is_whitespace c) (show_digest M d) = show_digest M d" "dropWhile is_whitespace (show_digest M d) = show_digest M d"
    by (simp_all add: dropWhile_eq_self_iff digest_text(2)[OF M])
  then show ?thesis by (simp only: first_word_def Let_def digest_text(2)[OF M] if_False)
qed

lemma report_split:
  assumes M: "messages_ok M"
  shows "\<exists>before. split_once ''current value of '' (desync_report M initial current) = Some (before, format_opt (show_digest M) current)"
proof -
  let ?rest = "'' does not match the account's current value of '' @ format_opt (show_digest M) current"
  have "\<exists>before. split_once ''current value of '' ?rest = Some (before, format_opt (show_digest M) current)" by simp
  then have "\<exists>before. split_once ''current value of '' (show_digest M initial @ ?rest) = Some (before, format_opt (show_digest M) current)"
    using split_once_skip[OF digest_misses(2)[OF M], of "CHR '' ''" "CHR ''c''"] by auto
  then obtain before where "split_once ''current value of '' (show_digest M initial @ ?rest) = Some (before, format_opt (show_digest M) current)" by blast
  then show ?thesis unfolding report_text by simp
qed

lemma ascii_lower_hex: "c \<in> set hex_chars \<Longrightarrow> ascii_lower c = c"
  by (auto simp: hex_chars_def ascii_lower_def)

lemma parse_report:
  assumes M: "messages_ok M"
  shows "parse_desync_error M (desync_report M initial (Some d)) = Some d" "parse_desync_error M (desync_report M initial None) = Some default_digest"
proof -
  have "map ascii_lower (show_digest M d) = show_digest M d"
    using digest_text(3)[OF M] by (auto intro!: map_idI ascii_lower_hex)
  moreover have "show_digest M d \<noteq> ''none''" using digest_misses(1)[OF M, of d] by auto
  ultimately show "parse_desync_error M (desync_report M initial (Some d)) = Some d"
    using report_split[OF M, of initial "Some d"] by (auto simp: parse_desync_error_def format_opt_def first_word_digest[OF M] digest_text(1)[OF M])
  have "first_word ''None'' = Some ''None''" by (simp add: first_word_def is_whitespace_def)
  moreover have "map ascii_lower ''None'' = ''none''" by code_simp
  ultimately show "parse_desync_error M (desync_report M initial None) = Some default_digest"
    using report_split[OF M, of initial None] by (auto simp: parse_desync_error_def format_opt_def)
qed

section \<open>History\<close>

text \<open>The states that applying the deltas one after the other goes through.\<close>

fun account_states :: "('acc \<Rightarrow> 'd \<Rightarrow> 'acc option) \<Rightarrow> 'd list \<Rightarrow> 'acc \<Rightarrow> 'acc list option" where
  "account_states apply_delta [] a = Some [a]"
| "account_states apply_delta (d # ds) a =
     (case apply_delta a d of None \<Rightarrow> None | Some a' \<Rightarrow> map_option (Cons a) (account_states apply_delta ds a'))"

lemma account_states_length: "account_states apply_delta ds a = Some xs \<Longrightarrow> length xs = Suc (length ds) \<and> xs \<noteq> []"
  by (induction ds arbitrary: a xs) (auto split: option.splits)

definition faucet_at :: "'acc list \<Rightarrow> nat \<Rightarrow> 'acc faucet" where
  "faucet_at states k = \<lparr>fa_account = states ! k, fa_prior_state = take k states\<rparr>"

lemma run_history:
  assumes "account_states apply_delta ds (fa_account f) = Some states" "length (fa_prior_state f) + length ds \<le> 1001"
  shows "faucet_run M commitment apply_delta (map Inr ds) f
    = Ok \<lparr>fa_account = last states, fa_prior_state = fa_prior_state f @ butlast states\<rparr> ()"
  using assms
proof (induction ds arbitrary: f states)
  case (Cons d ds)
  from Cons.prems(1) obtain a xs where a: "apply_delta (fa_account f) d = Some a" "account_states apply_delta ds a = Some xs" "states = fa_account f # xs"
    by (auto split: option.splits)
  let ?f = "\<lparr>fa_account = a, fa_prior_state = fa_prior_state f @ [fa_account f]\<rparr>"
  have "update_state apply_delta d f = Ok ?f ()" using Cons.prems(2) a(1) by (simp add: update_state_def)
  moreover have "faucet_run M commitment apply_delta (map Inr ds) ?f
      = Ok \<lparr>fa_account = last xs, fa_prior_state = fa_prior_state ?f @ butlast xs\<rparr> ()"
    by (rule Cons.IH) (use a Cons.prems(2) in simp_all)
  ultimately show ?case using a(2,3) account_states_length[OF a(2)] by simp
qed simp

lemma find_position_first:
  "k < length xs \<Longrightarrow> P (xs ! k) \<Longrightarrow> \<forall>j < k. \<not> P (xs ! j) \<Longrightarrow> find_position P xs = Some k"
proof (induction xs arbitrary: k)
  case (Cons x xs)
  show ?case
  proof (cases k)
    case 0
    then show ?thesis using Cons.prems by simp
  next
    case (Suc j)
    then have "\<not> P x" using Cons.prems(3) by auto
    moreover have "\<not> P (xs ! i)" if "i < j" for i using Cons.prems(3)[rule_format, of "Suc i"] Suc that by simp
    then have "find_position P xs = Some j" using Suc Cons.IH[of j] Cons.prems(1,2) by simp
    ultimately show ?thesis by (simp add: Suc)
  qed
qed simp

text \<open>
  C23. Rolling back. When the node dropped the faucet's latest transactions, so that the account's state
  on the node is the one before the last \<open>n - k\<close> of \<open>n \<le> 1001\<close> mints, handling the block producer's report
  restores exactly the faucet as it was after the first \<open>k\<close> mints: the account and its history. States
  with the same commitment are resolved to the oldest.
\<close>

theorem desync_rollback:
  assumes M: "messages_ok M" and states: "account_states apply_delta ds a = Some states" and n: "length ds \<le> 1001"
    and k: "k < length ds" "\<forall>j < k. commitment (states ! j) \<noteq> commitment (states ! k)"
  shows "\<exists>f. faucet_run M commitment apply_delta (map Inr ds) \<lparr>fa_account = a, fa_prior_state = []\<rparr> = Ok f ()
    \<and> handle_desync M commitment (desync_report M initial (Some (commitment (states ! k)))) f = Ok (faucet_at states k) ()
    \<and> faucet_run M commitment apply_delta (map Inr (take k ds)) \<lparr>fa_account = a, fa_prior_state = []\<rparr> = Ok (faucet_at states k) ()"
proof -
  let ?f0 = "\<lparr>fa_account = a, fa_prior_state = []\<rparr>"
  note len = account_states_length[OF states]
  have prefix: "account_states apply_delta (take k ds) a = Some (take (Suc k) states)" if "k \<le> length ds" for k
    using states that
  proof (induction ds arbitrary: a states k)
    case (Cons d ds)
    then show ?case by (cases k) (auto split: option.splits)
  qed auto
  from run_history[of apply_delta ds ?f0 states M commitment] states n
  have run: "faucet_run M commitment apply_delta (map Inr ds) ?f0 = Ok \<lparr>fa_account = last states, fa_prior_state = butlast states\<rparr> ()" by simp
  have "find_position (\<lambda>state. commitment state = commitment (states ! k)) (butlast states) = Some k"
    by (rule find_position_first) (use k len in \<open>auto simp: nth_butlast\<close>)
  then have "handle_desync M commitment (desync_report M initial (Some (commitment (states ! k)))) \<lparr>fa_account = last states, fa_prior_state = butlast states\<rparr>
      = Ok (faucet_at states k) ()"
    using k(1) len by (simp add: handle_desync_def parse_report[OF M] faucet_at_def nth_butlast take_butlast)
  moreover have "faucet_run M commitment apply_delta (map Inr (take k ds)) ?f0 = Ok (faucet_at states k) ()"
    using run_history[of apply_delta "take k ds" ?f0 "take (Suc k) states" M commitment] prefix[of k] k(1) n len
    by (simp add: faucet_at_def last_conv_nth butlast_take min_def)
  ultimately show ?thesis using run by blast
qed

text \<open>
  C24. The recovery that never happens. Whatever the digests, the report that the block producer writes
  when a transaction's initial state is not the account's current one does not contain the words that
  the faucet looks for: the error is taken for a fatal one, although handling it as a desync would have
  rolled the account back.
\<close>

theorem desync_is_fatal:
  assumes M: "messages_ok M"
  shows "faucet_run M commitment apply_delta
      (Inl (SubmissionTransport (status_received M (add_transaction_status (VerificationFailed (IncorrectAccountInitialCommitment initial current)))))
        # batches) f
      = Err f (NotRecoverable (SubmissionTransport (CodeInvalidArgument, desync_report M initial current)))
    \<and> parse_desync_error M (desync_report M initial current) = Some (case current of None \<Rightarrow> default_digest | Some d \<Rightarrow> d)"
proof -
  have "status_received M (add_transaction_status (VerificationFailed (IncorrectAccountInitialCommitment initial current)))
      = (CodeInvalidArgument, desync_report M initial current)"
    by (simp add: desync_report_def)
  then show ?thesis using report_no_trigger[OF M] parse_report[OF M] by (cases current) simp_all
qed

section \<open>Amounts\<close>

lemma base_units_exact:
  assumes "unat amount * 10 ^ decimals < 2 ^ 64" "10 ^ decimals < (2::nat) ^ 64"
  shows "base_units overflow_checks max_amount decimals amount
    = (if unat amount * 10 ^ decimals \<le> unat max_amount then Some (of_nat (unat amount * 10 ^ decimals)) else None)"
proof -
  have base: "amount * 10 ^ decimals = of_nat (unat amount * 10 ^ decimals)" by simp
  have "unat (amount * 10 ^ decimals) = unat amount * 10 ^ decimals"
    unfolding base by (rule of_nat_inverse[OF refl]) (use assms(1) in simp)
  then show ?thesis using assms by (simp add: base_units_def Let_def word_le_nat_alt)
qed

text \<open>
  The configured amounts are checked against the library's maximum before they are multiplied by the
  faucet's decimals.  An amount that passes that check but not the one on base units makes every batch
  with a request for it panic; one whose product overflows does so in a build with overflow checks.
\<close>

theorem accepted_amount_panics:
  assumes "asset_options_new max_amount options = Inr options" "amount \<in> set options" "mr_asset_amount r = amount"
    and "10 ^ decimals < (2::nat) ^ 64" "unat max_amount < unat amount * 10 ^ decimals"
    and "overflow_checks \<or> unat amount * 10 ^ decimals < 2 ^ 64"
  shows "amount \<le> max_amount \<and> build_notes overflow_checks max_amount decimals create (r # requests) rng = None"
proof -
  have "amount \<le> max_amount" using assms(1,2) by (auto simp: asset_options_new_def find_None_iff split: option.splits)
  moreover have "base_units overflow_checks max_amount decimals amount = None"
  proof (cases "unat amount * 10 ^ decimals < 2 ^ 64")
    case True
    show ?thesis using assms(5) by (simp add: base_units_exact[OF True assms(4)])
  next
    case False
    then show ?thesis using assms(6) by (simp add: base_units_def)
  qed
  ultimately show ?thesis using assms(3) by simp
qed

lemma build_notes_total:
  assumes "10 ^ decimals < (2::nat) ^ 64"
  shows "\<forall>r \<in> set requests. unat (mr_asset_amount r) * 10 ^ decimals \<le> unat max_amount \<Longrightarrow>
    build_notes overflow_checks max_amount decimals create requests rng \<noteq> None"
proof (induction requests arbitrary: rng)
  case (Cons r requests)
  have "unat max_amount < 2 ^ LENGTH(64)" by (rule unsigned_less)
  then have "unat (mr_asset_amount r) * 10 ^ decimals < 2 ^ 64" using Cons.prems by (auto intro: le_less_trans)
  then show ?case using Cons base_units_exact[OF _ assms, of "mr_asset_amount r"]
    by (auto split: prod.splits option.splits)
qed simp

text \<open>A request that the overloaded minter refuses has used up its challenge, and the account's turn.\<close>

lemma overloaded_limits:
  assumes "get_tokens S capacity now r (c, q) = Err (c', q') FaucetOverloaded"
  shows "\<exists>account key. parse_account_id S (rq_account_id r) = Some account
    \<and> submit_challenge (sv_lib S) (sv_pow S) (sv_secret S) account key (the (rq_challenge r)) (the (rq_nonce r)) now c = Ok c' ()"
  using assms by (auto simp: get_tokens_def validate_request_def and_then_eq_Ok split: outcome.splits option.splits sum.splits if_splits)

section \<open>Sample\<close>

definition sample_messages :: messages where
  "sample_messages = \<lparr>show_digest = (\<lambda>d. ''0x'' @ replicate d CHR ''1''), parse_digest = (\<lambda>s. Some (length s - 2)),
     debug_ids = (\<lambda>_. ''[]''), show_id = (\<lambda>_. ''0''), show_source = []\<rparr>"

lemma sample_messages_ok: "messages_ok sample_messages"
  by (auto simp: messages_ok_def sample_messages_def hex_chars_def)

theorem desync_rollback_witness:
  "\<exists>f. faucet_run sample_messages id (\<lambda>a d. Some (a + d)) (map Inr [10, 10, 10]) \<lparr>fa_account = 1, fa_prior_state = []\<rparr> = Ok f ()
     \<and> handle_desync sample_messages id (desync_report sample_messages 31 (Some 11)) f = Ok \<lparr>fa_account = 11, fa_prior_state = [1]\<rparr> ()"
proof -
  have "account_states (\<lambda>a d. Some (a + d)) [10, 10, 10] 1 = Some [1, 11, 21, 31 :: nat]" by simp
  from desync_rollback[OF sample_messages_ok this, of 1 id 31] show ?thesis by (auto simp: faucet_at_def)
qed

theorem desync_is_fatal_witness:
  "faucet_run sample_messages id (\<lambda>a d. Some (a + d))
     [Inl (SubmissionTransport (status_received sample_messages (add_transaction_status (VerificationFailed (IncorrectAccountInitialCommitment 3 (Some 5))))))]
     \<lparr>fa_account = 3 :: nat, fa_prior_state = [5]\<rparr>
   = Err \<lparr>fa_account = 3, fa_prior_state = [5]\<rparr> (NotRecoverable (SubmissionTransport (CodeInvalidArgument, desync_report sample_messages 3 (Some 5))))"
  using desync_is_fatal[OF sample_messages_ok, of id "\<lambda>a d. Some (a + d)" 3 "Some 5" "[]"] by blast

end
