(* ===== verification/Proxy_Worker.thy ===== *)
theory Proxy_Worker
  imports Prelude
begin

text \<open>
  A worker of the remote prover's proxy (bin/remote-prover/src/proxy/worker.rs) with its health checks
  (proxy/health_check.rs), and the status the proxy and the worker report (proxy/status.rs,
  api/status.rs, api/prover.rs, generated/conversions.rs).

  What the network answers is an argument: whether the address is a valid backend, whether a status
  client connects, and the reply to the status request.  Instants and durations are in nanoseconds.
\<close>

section \<open>Proof types\<close>

datatype proof_type = TransactionProof | BatchProof | BlockProof

definition proof_type_of_i32 :: "int \<Rightarrow> proof_type option" where
  "proof_type_of_i32 v = (if v = 0 then Some TransactionProof else if v = 1 then Some BatchProof
     else if v = 2 then Some BlockProof else None)"

fun i32_of_proof_type :: "proof_type \<Rightarrow> int" where
  "i32_of_proof_type TransactionProof = 0"
| "i32_of_proof_type BatchProof = 1"
| "i32_of_proof_type BlockProof = 2"

fun proof_type_name :: "proof_type \<Rightarrow> string" where
  "proof_type_name TransactionProof = ''transaction''"
| "proof_type_name BatchProof = ''batch''"
| "proof_type_name BlockProof = ''block''"

lemma proof_type_roundtrip: "proof_type_of_i32 (i32_of_proof_type p) = Some p"
  by (cases p) (simp_all add: proof_type_of_i32_def)

text \<open>\<open>Display\<close> of integers.\<close>

fun show_nat :: "nat \<Rightarrow> string" where
  "show_nat n = (if n < 10 then [char_of (48 + n)] else show_nat (n div 10) @ [char_of (48 + n mod 10)])"

declare show_nat.simps [simp del]

definition show_int :: "int \<Rightarrow> string" where
  "show_int i = (if i < 0 then CHR ''-'' # show_nat (nat (- i)) else show_nat (nat i))"

section \<open>Workers\<close>

datatype health_status = Healthy | Unhealthy nat nat string | Unknown

record worker =
  wk_address :: string
  wk_has_client :: bool
  wk_is_available :: bool
  wk_health :: health_status
  wk_version :: string

text \<open>\<open>PartialEq\<close> compares the backends only.\<close>

definition same_worker :: "worker \<Rightarrow> worker \<Rightarrow> bool" where
  "same_worker w v \<longleftrightarrow> wk_address w = wk_address v"

text \<open>
  The network at the moment of a call: valid backend addresses, the attempt to connect a status client,
  the reply to a status request (an error, or version and proof type), and the requirement on versions.
\<close>

record network =
  nw_valid_address :: "string \<Rightarrow> bool"
  nw_connect :: "string \<Rightarrow> string option"
  nw_status :: "string \<Rightarrow> string + (string \<times> int)"
  nw_version_matches :: "string \<Rightarrow> bool option"
  nw_now :: nat

definition worker_new :: "network \<Rightarrow> string \<Rightarrow> worker option" where
  "worker_new N addr =
     (if \<not> nw_valid_address N addr then None
      else let (client, health) = (case nw_connect N addr of
                 None \<Rightarrow> (True, Unknown)
               | Some err \<Rightarrow> (False, Unhealthy 1 (nw_now N) (''failed to create status client'' @ '': '' @ CHR 0x0A # ''caused by: '' @ err))) in
           Some \<lparr>wk_address = addr, wk_has_client = client, wk_is_available = (health = Unknown), wk_health = health, wk_version = []\<rparr>)"

definition num_failures :: "worker \<Rightarrow> nat" where
  "num_failures w = (case wk_health w of Unhealthy n first reason \<Rightarrow> n | _ \<Rightarrow> 0)"

definition is_healthy :: "worker \<Rightarrow> bool" where
  "is_healthy w = (case wk_health w of Unhealthy n first reason \<Rightarrow> False | _ \<Rightarrow> True)"

definition set_availability :: "bool \<Rightarrow> worker \<Rightarrow> worker" where
  "set_availability b w = w\<lparr>wk_is_available := b\<rparr>"

definition max_backoff_exponent :: nat where
  "max_backoff_exponent = 9"

definition nanos :: "nat \<Rightarrow> nat" where
  "nanos secs = secs * 1000000000"

definition should_do_health_check :: "nat \<Rightarrow> worker \<Rightarrow> bool" where
  "should_do_health_check now w =
     (case wk_health w of
        Unhealthy failed_attempts first reason \<Rightarrow> now - first > nanos (2 ^ min failed_attempts max_backoff_exponent)
      | _ \<Rightarrow> True)"

definition set_health_status :: "health_status \<Rightarrow> worker \<Rightarrow> worker" where
  "set_health_status health w =
     (let was_healthy = is_healthy w; w = w\<lparr>wk_health := health\<rparr> in
      case health of
        Unhealthy n first reason \<Rightarrow> w\<lparr>wk_is_available := False\<rparr>
      | _ \<Rightarrow> if was_healthy then w else w\<lparr>wk_is_available := True\<rparr>)"

text \<open>The result of a check (\<open>None\<close> for \<open>Ok(())\<close>, or the reason) and the worker it leaves.\<close>

definition check_reply :: "network \<Rightarrow> proof_type \<Rightarrow> worker \<Rightarrow> string option \<times> worker" where
  "check_reply N supported w =
     (case nw_status N (wk_address w) of
        Inl message \<Rightarrow> (Some message, w)
      | Inr (version, proof) \<Rightarrow>
          if version = [] then (Some ''Worker version is empty'', w)
          else if nw_version_matches N version \<noteq> Some True then (Some (''Worker version is invalid ('' @ version @ '')''), w)
          else let w = w\<lparr>wk_version := version\<rparr> in
               case proof_type_of_i32 proof of
                 None \<Rightarrow> (Some (''unknown ProverType value: '' @ show_int proof), w)
               | Some p \<Rightarrow>
                   if supported \<noteq> p then (Some (''Unsupported proof type: '' @ proof_type_name supported), w)
                   else (None, w))"

definition check_status :: "network \<Rightarrow> proof_type \<Rightarrow> worker \<Rightarrow> string option \<times> worker" where
  "check_status N supported w =
     (if \<not> should_do_health_check (nw_now N) w then (None, w)
      else if wk_has_client w then check_reply N supported w
      else case nw_connect N (wk_address w) of
             Some err \<Rightarrow> (Some (''failed to recreate status client'' @ '': '' @ CHR 0x0A # ''caused by: '' @ err), w)
           | None \<Rightarrow> check_reply N supported (w\<lparr>wk_has_client := True\<rparr>))"

definition update_status :: "nat \<Rightarrow> string option \<Rightarrow> worker \<Rightarrow> worker" where
  "update_status now check_result w =
     (case check_result of
        None \<Rightarrow> set_health_status Healthy w
      | Some reason \<Rightarrow>
          set_health_status (Unhealthy (num_failures w + 1) (case wk_health w of Unhealthy n first r \<Rightarrow> first | _ \<Rightarrow> now) reason) w)"

text \<open>The health check of one worker, in the loop of \<open>start\<close>.\<close>

definition health_check :: "network \<Rightarrow> proof_type \<Rightarrow> worker \<Rightarrow> worker" where
  "health_check N supported w = (let (result, w) = check_status N supported w in update_status (nw_now N) result w)"

text \<open>What the proxy's status reports of a worker.\<close>

fun reported_status :: "health_status \<Rightarrow> int" where
  "reported_status Unknown = 0"
| "reported_status Healthy = 1"
| "reported_status (Unhealthy n first reason) = 2"

section \<open>What a health check does\<close>

lemma check_reply_fields:
  "check_reply N supported w = (r, w') \<Longrightarrow> wk_address w' = wk_address w \<and> wk_health w' = wk_health w
     \<and> wk_is_available w' = wk_is_available w \<and> wk_has_client w' = wk_has_client w"
  by (auto simp: check_reply_def Let_def split: sum.splits if_splits option.splits prod.splits)

lemma check_status_fields:
  "check_status N supported w = (r, w') \<Longrightarrow> wk_address w' = wk_address w \<and> wk_health w' = wk_health w \<and> wk_is_available w' = wk_is_available w"
  by (auto simp: check_status_def split: if_splits option.splits dest: check_reply_fields)

lemma health_check_address: "wk_address (health_check N supported w) = wk_address w"
  by (auto simp: health_check_def update_status_def set_health_status_def Let_def split: prod.split option.split health_status.split
      dest: check_status_fields)

text \<open>A worker passes when it is asked and answers with a compatible version and the right proof type.\<close>

definition passes :: "network \<Rightarrow> proof_type \<Rightarrow> worker \<Rightarrow> bool" where
  "passes N supported w \<longleftrightarrow> (wk_has_client w \<or> nw_connect N (wk_address w) = None)
     \<and> (\<exists>version proof. nw_status N (wk_address w) = Inr (version, proof) \<and> version \<noteq> [] \<and> nw_version_matches N version = Some True
         \<and> proof_type_of_i32 proof = Some supported)"

lemma check_passes:
  assumes "should_do_health_check (nw_now N) w"
  shows "fst (check_status N supported w) = None \<longleftrightarrow> passes N supported w"
  using assms
  by (auto simp: check_status_def check_reply_def passes_def Let_def split: sum.splits option.splits prod.splits if_splits)

lemma healthy_check:
  assumes "is_healthy w"
  shows "wk_is_available (health_check N supported w) \<longleftrightarrow> passes N supported w \<and> wk_is_available w"
proof -
  obtain r w' where c: "check_status N supported w = (r, w')" by (cases "check_status N supported w")
  have "should_do_health_check (nw_now N) w" using assms by (auto simp: should_do_health_check_def is_healthy_def split: health_status.splits)
  from check_passes[OF this, of supported] c have "r = None \<longleftrightarrow> passes N supported w" by simp
  then show ?thesis using check_status_fields[OF c] assms
    by (cases r) (auto simp: health_check_def c update_status_def set_health_status_def is_healthy_def Let_def)
qed

text \<open>
  C38. A health check. A healthy worker stays as it is when it passes, busy or not, and becomes unhealthy
  and unavailable when it does not. An unhealthy worker that is due and passes becomes healthy and
  available; that is due and fails counts one more failure since the first; and one that is \<open>not\<close> due, so
  that it is not asked at all, becomes healthy and available too: the failures are forgotten, and
  requests are sent to it again.
\<close>

theorem health_check_exact:
  "case wk_health w of
      Unhealthy n first reason \<Rightarrow>
        should_do_health_check (nw_now N) w = (nanos (2 ^ min n 9) < nw_now N - first)
        \<and> wk_is_available (health_check N supported w) = (\<not> should_do_health_check (nw_now N) w \<or> passes N supported w)
        \<and> (if \<not> should_do_health_check (nw_now N) w \<or> passes N supported w then wk_health (health_check N supported w) = Healthy
           else \<exists>reason'. wk_health (health_check N supported w) = Unhealthy (Suc n) first reason')
    | _ \<Rightarrow>
        should_do_health_check (nw_now N) w
        \<and> wk_is_available (health_check N supported w) = (passes N supported w \<and> wk_is_available w)
        \<and> (if passes N supported w then wk_health (health_check N supported w) = Healthy
           else \<exists>reason. wk_health (health_check N supported w) = Unhealthy 1 (nw_now N) reason)"
proof -
  obtain r w' where c: "check_status N supported w = (r, w')" by (cases "check_status N supported w")
  note f = check_status_fields[OF c]
  have skip: "r = None" if "\<not> should_do_health_check (nw_now N) w" using c that by (auto simp: check_status_def)
  have ask: "r = None \<longleftrightarrow> passes N supported w" if "should_do_health_check (nw_now N) w" using check_passes[of N w supported] that c by simp
  show ?thesis
  proof (cases "wk_health w")
    case Healthy
    then have "should_do_health_check (nw_now N) w" by (simp add: should_do_health_check_def)
    then show ?thesis using Healthy f ask
      by (cases r) (auto simp: health_check_def c update_status_def set_health_status_def is_healthy_def num_failures_def Let_def)
  next
    case Unknown
    then have "should_do_health_check (nw_now N) w" by (simp add: should_do_health_check_def)
    then show ?thesis using Unknown f ask
      by (cases r) (auto simp: health_check_def c update_status_def set_health_status_def is_healthy_def num_failures_def Let_def)
  next
    case (Unhealthy n first reason)
    have "should_do_health_check (nw_now N) w = (nanos (2 ^ min n 9) < nw_now N - first)"
      using Unhealthy by (simp add: should_do_health_check_def max_backoff_exponent_def)
    moreover have "r = None \<longleftrightarrow> \<not> should_do_health_check (nw_now N) w \<or> passes N supported w" using skip ask by blast
    ultimately show ?thesis using Unhealthy f
      by (cases r) (auto simp: health_check_def c update_status_def set_health_status_def is_healthy_def num_failures_def Let_def)
  qed
qed

text \<open>A worker that failed three times a second ago, and whose address no longer answers, is taken for healthy.\<close>

definition silent_network :: network where
  "silent_network = \<lparr>nw_valid_address = (\<lambda>_. True), nw_connect = (\<lambda>_. Some ''refused''), nw_status = (\<lambda>_. Inl ''refused''),
     nw_version_matches = (\<lambda>_. None), nw_now = 1000000000\<rparr>"

definition failing_worker :: worker where
  "failing_worker = \<lparr>wk_address = ''a'', wk_has_client = False, wk_is_available = False, wk_health = Unhealthy 3 0 ''refused'', wk_version = []\<rparr>"

theorem health_check_exact_witness:
  "wk_health (health_check silent_network TransactionProof failing_worker) = Healthy
   \<and> wk_is_available (health_check silent_network TransactionProof failing_worker)"
proof -
  have "wk_health failing_worker = Unhealthy 3 0 ''refused''" "nw_now silent_network = 1000000000"
    by (simp_all add: failing_worker_def silent_network_def)
  then show ?thesis using health_check_exact[where w = failing_worker and N = silent_network and supported = TransactionProof]
    by (simp add: nanos_def)
qed

end
