(* ===== verification/Proxy.thy ===== *)
theory Proxy
  imports Proxy_Worker "HOL-Library.Multiset"
begin

text \<open>
  The proxy of the remote prover (bin/remote-prover/src/proxy/mod.rs and update_workers.rs): the pool of
  workers, the queue of requests, and the life of a request through the callbacks that the pingora
  library makes, in the order it documents: the request filter, the choice of an upstream peer, the
  retry after a failed connection, which chooses again, and the final logging.
\<close>

section \<open>The pool of workers\<close>

fun pop_available_worker :: "worker list \<Rightarrow> (worker \<times> worker list) option" where
  "pop_available_worker [] = None"
| "pop_available_worker (w # ws) =
     (if wk_is_available w then let w = set_availability False w in Some (w, w # ws)
      else map_option (\<lambda>(v, ws). (v, w # ws)) (pop_available_worker ws))"

definition add_available_worker :: "worker \<Rightarrow> worker list \<Rightarrow> worker list" where
  "add_available_worker worker ws =
     (case List.extract (same_worker worker) ws of
        None \<Rightarrow> ws
      | Some (before, w, after) \<Rightarrow> before @ after @ [set_availability True w])"

datatype action = Add | Remove

text \<open>The first address that is no backend fails the whole update.\<close>

fun new_workers :: "network \<Rightarrow> string list \<Rightarrow> worker list option" where
  "new_workers N [] = Some []"
| "new_workers N (addr # addrs) =
     (case worker_new N addr of None \<Rightarrow> None | Some w \<Rightarrow> map_option (Cons w) (new_workers N addrs))"

definition update_workers :: "network \<Rightarrow> action \<Rightarrow> string list \<Rightarrow> worker list \<Rightarrow> worker list option" where
  "update_workers N a addrs ws =
     map_option (\<lambda>native.
       case a of
         Add \<Rightarrow> fold (\<lambda>w ws. if list_ex (\<lambda>v. same_worker v w) ws then ws else ws @ [w]) native ws
       | Remove \<Rightarrow> fold (\<lambda>w ws. filter (\<lambda>v. \<not> same_worker v w) ws) native ws)
     (new_workers N addrs)"

text \<open>\<open>LoadBalancerState::new\<close> leaves out the workers that cannot be created.\<close>

definition load_balancer_new :: "network \<Rightarrow> string list \<Rightarrow> worker list" where
  "load_balancer_new N addrs = List.map_filter (worker_new N) addrs"

definition num_busy_workers :: "worker list \<Rightarrow> nat" where
  "num_busy_workers ws = length (filter (\<lambda>w. \<not> wk_is_available w) ws)"

section \<open>Requests\<close>

record proxy_config =
  px_max_queue_items :: nat
  px_max_retries :: nat
  px_max_req_per_sec :: int

datatype filter_reply = NoSocketAddress | TooManyRequests | QueueFull | Forward

text \<open>The rate limiter's count for the client in the current window is an argument.\<close>

definition request_filter :: "proxy_config \<Rightarrow> int option \<Rightarrow> nat list \<Rightarrow> filter_reply" where
  "request_filter P window_requests queue =
     (case window_requests of
        None \<Rightarrow> NoSocketAddress
      | Some n \<Rightarrow>
          if n > px_max_req_per_sec P then TooManyRequests
          else if length queue \<ge> px_max_queue_items P then QueueFull
          else Forward)"

datatype phase = Fresh | Admitted | Queued | Chosen | Sent | Closing | Closed

record request_context =
  rc_phase :: phase
  rc_tries :: nat
  rc_worker :: "worker option"

definition context_new :: request_context where
  "context_new = \<lparr>rc_phase = Fresh, rc_tries = 0, rc_worker = None\<rparr>"

record proxy =
  px_workers :: "worker list"
  px_queue :: "nat list"
  px_requests :: "nat \<Rightarrow> request_context"

definition with_request :: "nat \<Rightarrow> (request_context \<Rightarrow> request_context) \<Rightarrow> proxy \<Rightarrow> proxy" where
  "with_request r f p = p\<lparr>px_requests := (px_requests p)(r := f (px_requests p r))\<rparr>"

text \<open>\<open>fail_to_connect\<close>: whether the connection is tried again.\<close>

definition fail_to_connect :: "proxy_config \<Rightarrow> request_context \<Rightarrow> bool \<times> request_context" where
  "fail_to_connect P ctx = (if rc_tries ctx > px_max_retries P then (False, ctx) else (True, ctx\<lparr>rc_tries := rc_tries ctx + 1\<rparr>))"

text \<open>\<open>logging\<close> gives the context's worker back.\<close>

definition release_worker :: "worker option \<Rightarrow> worker list \<Rightarrow> worker list" where [simp]:
  "release_worker held ws = (case held of None \<Rightarrow> ws | Some w \<Rightarrow> add_available_worker w ws)"

text \<open>
  The steps.  \<open>upstream_peer\<close> is three of them: entering the queue, taking a worker at the front of it,
  leaving it.  A step of the health check checks every worker of the pool under its lock.
\<close>

datatype event = RequestEvent nat | HealthEvent "network list" | UpdateEvent

inductive proxy_step :: "proxy_config \<Rightarrow> proof_type \<Rightarrow> proxy \<Rightarrow> event \<Rightarrow> proxy \<Rightarrow> bool" for P supported where
  refuse: "rc_phase (px_requests p r) = Fresh \<Longrightarrow> request_filter P n (px_queue p) \<noteq> Forward \<Longrightarrow>
    proxy_step P supported p (RequestEvent r) (with_request r (\<lambda>c. c\<lparr>rc_phase := Closing\<rparr>) p)"
| forward: "rc_phase (px_requests p r) = Fresh \<Longrightarrow> request_filter P n (px_queue p) = Forward \<Longrightarrow>
    proxy_step P supported p (RequestEvent r) (with_request r (\<lambda>c. c\<lparr>rc_phase := Admitted\<rparr>) p)"
| enqueue: "rc_phase (px_requests p r) = Admitted \<Longrightarrow>
    proxy_step P supported p (RequestEvent r) (with_request r (\<lambda>c. c\<lparr>rc_phase := Queued\<rparr>) (p\<lparr>px_queue := px_queue p @ [r]\<rparr>))"
| choose: "rc_phase (px_requests p r) = Queued \<Longrightarrow> px_queue p \<noteq> [] \<Longrightarrow> hd (px_queue p) = r \<Longrightarrow>
    pop_available_worker (px_workers p) = Some (w, ws) \<Longrightarrow>
    proxy_step P supported p (RequestEvent r) (with_request r (\<lambda>c. c\<lparr>rc_phase := Chosen, rc_worker := Some w\<rparr>) (p\<lparr>px_workers := ws\<rparr>))"
| dequeue: "rc_phase (px_requests p r) = Chosen \<Longrightarrow>
    proxy_step P supported p (RequestEvent r) (with_request r (\<lambda>c. c\<lparr>rc_phase := Sent\<rparr>) (p\<lparr>px_queue := tl (px_queue p)\<rparr>))"
| retry: "rc_phase (px_requests p r) = Sent \<Longrightarrow> fail_to_connect P (px_requests p r) = (True, c) \<Longrightarrow>
    proxy_step P supported p (RequestEvent r) (with_request r (\<lambda>_. c\<lparr>rc_phase := Admitted\<rparr>) p)"
| give_up: "rc_phase (px_requests p r) = Sent \<Longrightarrow> fail_to_connect P (px_requests p r) = (False, c) \<Longrightarrow>
    proxy_step P supported p (RequestEvent r) (with_request r (\<lambda>_. c\<lparr>rc_phase := Closing\<rparr>) p)"
| served: "rc_phase (px_requests p r) = Sent \<Longrightarrow>
    proxy_step P supported p (RequestEvent r) (with_request r (\<lambda>c. c\<lparr>rc_phase := Closing\<rparr>) p)"
| logging: "rc_phase (px_requests p r) = Closing \<Longrightarrow>
    proxy_step P supported p (RequestEvent r) (with_request r (\<lambda>c. c\<lparr>rc_phase := Closed, rc_worker := None\<rparr>)
      (p\<lparr>px_workers := release_worker (rc_worker (px_requests p r)) (px_workers p)\<rparr>))"
| health: "length Ns = length (px_workers p) \<Longrightarrow>
    proxy_step P supported p (HealthEvent Ns) (p\<lparr>px_workers := map2 (\<lambda>N w. health_check N supported w) Ns (px_workers p)\<rparr>)"
| update: "update_workers N a addrs (px_workers p) = Some ws \<Longrightarrow>
    proxy_step P supported p UpdateEvent (p\<lparr>px_workers := ws\<rparr>)"

definition proxy_init :: "worker list \<Rightarrow> proxy" where
  "proxy_init ws = \<lparr>px_workers = ws, px_queue = [], px_requests = (\<lambda>_. context_new)\<rparr>"

inductive proxy_run :: "proxy_config \<Rightarrow> proof_type \<Rightarrow> (proxy \<Rightarrow> event \<Rightarrow> bool) \<Rightarrow> proxy \<Rightarrow> proxy \<Rightarrow> bool" for P supported ok where
  here: "proxy_run P supported ok p p"
| onward: "proxy_run P supported ok p p' \<Longrightarrow> ok p' e \<Longrightarrow> proxy_step P supported p' e p'' \<Longrightarrow> proxy_run P supported ok p p''"

section \<open>The queue\<close>

lemma with_request_simps [simp]:
  "px_workers (with_request r f p) = px_workers p" "px_queue (with_request r f p) = px_queue p"
  "px_requests (with_request r f p) x = (if x = r then f (px_requests p r) else px_requests p x)"
  by (simp_all add: with_request_def)

definition waiting :: "phase \<Rightarrow> bool" where
  "waiting ph \<longleftrightarrow> ph = Queued \<or> ph = Chosen"

definition queue_ok :: "proxy \<Rightarrow> bool" where
  "queue_ok p \<longleftrightarrow> distinct (px_queue p)
     \<and> (\<forall>r. r \<in> set (px_queue p) \<longleftrightarrow> waiting (rc_phase (px_requests p r)))
     \<and> (\<forall>r. rc_phase (px_requests p r) = Chosen \<longrightarrow> hd (px_queue p) = r)
     \<and> (\<forall>r. rc_phase (px_requests p r) \<in> {Chosen, Sent} \<longrightarrow> rc_worker (px_requests p r) \<noteq> None)"

lemma queue_okD:
  assumes "queue_ok p"
  shows "distinct (px_queue p)" "r \<in> set (px_queue p) \<longleftrightarrow> waiting (rc_phase (px_requests p r))"
    "rc_phase (px_requests p r) = Chosen \<Longrightarrow> hd (px_queue p) = r"
    "rc_phase (px_requests p r) \<in> {Chosen, Sent} \<Longrightarrow> rc_worker (px_requests p r) \<noteq> None"
  using assms unfolding queue_ok_def by blast+

lemma queue_okI:
  assumes "distinct (px_queue p)" "\<And>r. r \<in> set (px_queue p) \<longleftrightarrow> waiting (rc_phase (px_requests p r))"
    "\<And>r. rc_phase (px_requests p r) = Chosen \<Longrightarrow> hd (px_queue p) = r"
    "\<And>r. rc_phase (px_requests p r) \<in> {Chosen, Sent} \<Longrightarrow> rc_worker (px_requests p r) \<noteq> None"
  shows "queue_ok p"
  using assms unfolding queue_ok_def by blast

lemma chosen_front:
  assumes "queue_ok p" "rc_phase (px_requests p r) = Chosen"
  obtains rest where "px_queue p = r # rest" "r \<notin> set rest" "distinct rest"
proof -
  have "r \<in> set (px_queue p)" "hd (px_queue p) = r" using queue_okD(2,3)[OF assms(1)] assms(2) by (auto simp: waiting_def)
  then obtain rest where "px_queue p = r # rest" by (cases "px_queue p") auto
  then show ?thesis using that queue_okD(1)[OF assms(1)] by simp
qed

lemma queue_step:
  assumes "queue_ok p" "proxy_step P supported p e p'"
  shows "queue_ok p'"
  using assms(2)
proof cases
  case (enqueue r)
  have fresh: "r \<notin> set (px_queue p)" using queue_okD(2)[OF assms(1), of r] enqueue by (simp add: waiting_def)
  have front: "hd (px_queue p @ [r]) = x" if "rc_phase (px_requests p x) = Chosen" for x
    using chosen_front[OF assms(1) that] by fastforce
  show ?thesis
  proof (rule queue_okI)
    show "distinct (px_queue p')" using fresh queue_okD(1)[OF assms(1)] by (simp add: enqueue)
    show "x \<in> set (px_queue p') \<longleftrightarrow> waiting (rc_phase (px_requests p' x))" for x
      using queue_okD(2)[OF assms(1), of x] by (simp add: enqueue waiting_def)
    show "hd (px_queue p') = x" if "rc_phase (px_requests p' x) = Chosen" for x
      using that front by (simp add: enqueue split: if_splits)
    show "rc_worker (px_requests p' x) \<noteq> None" if "rc_phase (px_requests p' x) \<in> {Chosen, Sent}" for x
      using that queue_okD(4)[OF assms(1), of x] by (simp add: enqueue split: if_splits)
  qed
next
  case (dequeue r)
  from chosen_front[OF assms(1) dequeue(3)] obtain rest where q: "px_queue p = r # rest" "r \<notin> set rest" "distinct rest" .
  have only: "x = r" if "rc_phase (px_requests p x) = Chosen" for x using queue_okD(3)[OF assms(1) that] q by simp
  show ?thesis
  proof (rule queue_okI)
    show "distinct (px_queue p')" using q by (simp add: dequeue)
    show "x \<in> set (px_queue p') \<longleftrightarrow> waiting (rc_phase (px_requests p' x))" for x
      using queue_okD(2)[OF assms(1), of x] q by (auto simp: dequeue waiting_def)
    show "hd (px_queue p') = x" if "rc_phase (px_requests p' x) = Chosen" for x
      using that only by (auto simp: dequeue split: if_splits)
    show "rc_worker (px_requests p' x) \<noteq> None" if "rc_phase (px_requests p' x) \<in> {Chosen, Sent}" for x
      using that queue_okD(4)[OF assms(1)] dequeue by (auto split: if_splits)
  qed
next
  case (choose r w ws)
  then show ?thesis using assms(1) by (auto simp: queue_ok_def waiting_def)
next
  case (refuse r n)
  then show ?thesis using assms(1) by (auto simp: queue_ok_def waiting_def)
next
  case (forward r n)
  then show ?thesis using assms(1) by (auto simp: queue_ok_def waiting_def)
next
  case (retry r c)
  then show ?thesis using assms(1) by (auto simp: queue_ok_def waiting_def)
next
  case (give_up r c)
  then show ?thesis using assms(1) by (auto simp: queue_ok_def waiting_def)
next
  case (served r)
  then show ?thesis using assms(1) by (auto simp: queue_ok_def waiting_def)
next
  case (logging r)
  then show ?thesis using assms(1) by (auto simp: queue_ok_def waiting_def)
qed (use assms(1) in \<open>auto simp: queue_ok_def\<close>)

lemma queue_run: "proxy_run P supported ok p p' \<Longrightarrow> queue_ok p \<Longrightarrow> queue_ok p'"
  by (induction rule: proxy_run.induct) (auto intro: queue_step)

lemma queue_init: "queue_ok (proxy_init ws)"
  by (auto simp: queue_ok_def proxy_init_def context_new_def waiting_def)

section \<open>The workers of the pool\<close>

text \<open>The availability of the workers, by address.\<close>

definition free :: "worker list \<Rightarrow> string set" where
  "free ws = {wk_address w | w. w \<in> set ws \<and> wk_is_available w}"

definition addresses :: "worker list \<Rightarrow> string list" where
  "addresses ws = map wk_address ws"

lemma free_subset: "free ws \<subseteq> set (addresses ws)"
  by (auto simp: free_def addresses_def)

lemma pop_available:
  "pop_available_worker ws = Some (w, ws') \<Longrightarrow> distinct (addresses ws) \<Longrightarrow>
     addresses ws' = addresses ws \<and> wk_address w \<in> free ws \<and> free ws' = free ws - {wk_address w}"
proof (induction ws arbitrary: w ws')
  case (Cons v ws)
  show ?case
  proof (cases "wk_is_available v")
    case True
    then have w: "w = set_availability False v" "ws' = w # ws" using Cons.prems(1) by (auto simp: Let_def)
    have "wk_address v \<notin> free ws" using Cons.prems(2) free_subset[of ws] by (auto simp: addresses_def)
    moreover have "free (v # ws) = insert (wk_address v) (free ws)" "free ws' = free ws"
      using True w by (auto simp: free_def set_availability_def)
    ultimately show ?thesis using w by (simp add: addresses_def set_availability_def)
  next
    case False
    with Cons.prems(1) obtain vs where vs: "pop_available_worker ws = Some (w, vs)" "ws' = v # vs" by auto
    have IH: "addresses vs = addresses ws" "wk_address w \<in> free ws" "free vs = free ws - {wk_address w}"
      using Cons.IH[OF vs(1)] Cons.prems(2) by (simp_all add: addresses_def)
    have "free (v # us) = free us" for us using False by (auto simp: free_def)
    with IH vs(2) show ?thesis by (simp add: addresses_def)
  qed
qed simp

lemma pop_none: "pop_available_worker ws = None \<longleftrightarrow> free ws = {}"
proof (induction ws)
  case (Cons v ws)
  have "free (v # ws) = (if wk_is_available v then {wk_address v} else {}) \<union> free ws" by (auto simp: free_def)
  with Cons show ?case by (auto simp: Let_def)
qed (simp add: free_def)

lemma add_available:
  assumes "distinct (addresses ws)"
  shows "distinct (addresses (add_available_worker w ws)) \<and> set (addresses (add_available_worker w ws)) = set (addresses ws)
    \<and> free (add_available_worker w ws) = (if wk_address w \<in> set (addresses ws) then insert (wk_address w) (free ws) else free ws)"
proof (cases "List.extract (same_worker w) ws")
  case None
  then have "wk_address w \<notin> set (addresses ws)" by (auto simp: extract_None_iff same_worker_def addresses_def)
  then show ?thesis using None assms by (simp add: add_available_worker_def)
next
  case (Some r)
  then obtain us v vs where e: "List.extract (same_worker w) ws = Some (us, v, vs)" by (cases r) auto
  then have eq: "add_available_worker w ws = us @ vs @ [set_availability True v]" by (simp add: add_available_worker_def)
  from e have ws: "ws = us @ v # vs" "wk_address v = wk_address w" by (auto simp: extract_Some_iff same_worker_def)
  have split: "free (xs @ ys) = free xs \<union> free ys" "free (x # xs) = (if wk_is_available x then {wk_address x} else {}) \<union> free xs" "free [] = {}"
    for x xs ys by (auto simp: free_def)
  have "free (us @ vs @ [set_availability True v]) = free us \<union> free vs \<union> {wk_address w}"
    "free ws \<union> {wk_address w} = free us \<union> free vs \<union> {wk_address w}"
    using ws by (auto simp: split set_availability_def)
  then show ?thesis unfolding eq using assms ws by (auto simp: addresses_def set_availability_def)
qed

text \<open>
  Steps that do not change the pool from outside: any step of a request, and health checks in which
  every worker is healthy and passes.
\<close>

definition steady :: "proof_type \<Rightarrow> proxy \<Rightarrow> event \<Rightarrow> bool" where
  "steady supported p e \<longleftrightarrow> (case e of
       RequestEvent r \<Rightarrow> True
     | HealthEvent Ns \<Rightarrow> \<forall>(N, w) \<in> set (zip Ns (px_workers p)). is_healthy w \<and> passes N supported w
     | UpdateEvent \<Rightarrow> False)"

lemma steady_check: "is_healthy w \<Longrightarrow> passes N supported w \<Longrightarrow> wk_is_available (health_check N supported w) = wk_is_available w"
  by (simp add: healthy_check)

lemma steady_health:
  assumes "length Ns = length ws" "\<forall>(N, w) \<in> set (zip Ns ws). is_healthy w \<and> passes N supported w"
  shows "addresses (map2 (\<lambda>N w. health_check N supported w) Ns ws) = addresses ws
    \<and> free (map2 (\<lambda>N w. health_check N supported w) Ns ws) = free ws"
  using assms
proof (induction Ns ws rule: list_induct2)
  case (Cons N Ns w ws)
  have "free (v # vs) = (if wk_is_available v then {wk_address v} else {}) \<union> free vs" for v vs by (auto simp: free_def)
  with Cons show ?case by (simp add: addresses_def health_check_address steady_check)
qed simp

text \<open>
  A worker serves one request. As long as the pool changes only through requests and through health
  checks that pass, no two requests that hold a worker hold the same one, and a worker that is held is
  not available.
\<close>

definition holds :: "proxy \<Rightarrow> nat \<Rightarrow> string \<Rightarrow> bool" where
  "holds p r a \<longleftrightarrow> (\<exists>w. rc_worker (px_requests p r) = Some w \<and> wk_address w = a)"

definition workers_ok :: "proxy \<Rightarrow> bool" where
  "workers_ok p \<longleftrightarrow> distinct (addresses (px_workers p))
     \<and> (\<forall>r a. holds p r a \<longrightarrow> a \<in> set (addresses (px_workers p)) \<and> a \<notin> free (px_workers p))
     \<and> (\<forall>r r' a. holds p r a \<longrightarrow> holds p r' a \<longrightarrow> r = r')"

lemma fail_to_connect_worker: "fail_to_connect P c = (b, c') \<Longrightarrow> rc_worker c' = rc_worker c"
  by (auto simp: fail_to_connect_def split: if_splits)

lemma workers_same:
  assumes "workers_ok p" "addresses (px_workers p') = addresses (px_workers p)" "free (px_workers p') = free (px_workers p)"
    "\<And>x. rc_worker (px_requests p' x) = rc_worker (px_requests p x)"
  shows "workers_ok p'"
  using assms unfolding workers_ok_def holds_def by simp

lemma workers_step:
  assumes ok: "workers_ok p" and st: "steady supported p e" and step: "proxy_step P supported p e p'"
  shows "workers_ok p'"
  using step
proof cases
  case (choose r w ws)
  have d: "distinct (addresses (px_workers p))" using ok by (simp add: workers_ok_def)
  note pop = pop_available[OF choose(6) d]
  have h: "holds p' x a \<longleftrightarrow> (if x = r then a = wk_address w else holds p x a)" for x a by (auto simp: holds_def choose)
  have ws: "px_workers p' = ws" by (simp add: choose)
  have other: "a \<noteq> wk_address w" if "holds p x a" for x a using ok that pop unfolding workers_ok_def by blast
  have uniq: "x = y" if "holds p x a" "holds p y a" for x y a
  proof -
    have "\<forall>x y a. holds p x a \<longrightarrow> holds p y a \<longrightarrow> x = y" using ok unfolding workers_ok_def by (elim conjE)
    with that show ?thesis by blast
  qed
  have "wk_address w \<in> set (addresses (px_workers p))" using pop free_subset by blast
  then have "\<forall>x a. (if x = r then a = wk_address w else holds p x a) \<longrightarrow> a \<in> set (addresses ws) \<and> a \<notin> free ws"
    using ok pop other unfolding workers_ok_def by auto
  moreover have "x = y" if "if x = r then a = wk_address w else holds p x a" "if y = r then a = wk_address w else holds p y a" for x y a
  proof (cases "x = r \<or> y = r")
    case True
    then show ?thesis using that other[of x a] other[of y a] by (metis (full_types))
  next
    case False
    then show ?thesis using that uniq[of x a y] by simp
  qed
  moreover have "distinct (addresses ws)" using pop d by simp
  ultimately show ?thesis unfolding workers_ok_def h ws by blast
next
  case (logging r)
  have d: "distinct (addresses (px_workers p))" using ok by (simp add: workers_ok_def)
  have h: "holds p' x a \<longleftrightarrow> x \<noteq> r \<and> holds p x a" for x a by (auto simp: holds_def logging)
  show ?thesis
  proof (cases "rc_worker (px_requests p r)")
    case None
    then show ?thesis using ok unfolding workers_ok_def h by (auto simp: logging)
  next
    case (Some w)
    then have "holds p r (wk_address w)" by (simp add: holds_def)
    then have other: "a \<noteq> wk_address w" if "x \<noteq> r" "holds p x a" for x a using ok that unfolding workers_ok_def by blast
    show ?thesis unfolding workers_ok_def h
      using ok add_available[OF d, of w] other unfolding workers_ok_def by (auto simp: logging Some)
  qed
next
  case (health Ns)
  then show ?thesis using steady_health[of Ns "px_workers p" supported] st by (intro workers_same[OF ok]) (simp_all add: steady_def)
next
  case (update N a addrs ws)
  then show ?thesis using st by (simp add: steady_def)
qed (rule workers_same[OF ok]; auto dest: fail_to_connect_worker)+

lemma workers_run:
  assumes "proxy_run P supported ok p p'" "\<And>p e. ok p e \<Longrightarrow> steady supported p e"
  shows "workers_ok p \<Longrightarrow> workers_ok p'"
  using assms(1) by (induction rule: proxy_run.induct) (auto intro: workers_step assms(2))

lemma workers_init: "distinct (addresses ws) \<Longrightarrow> workers_ok (proxy_init ws)"
  by (simp add: workers_ok_def holds_def proxy_init_def context_new_def)

text \<open>
  C25. The queue and the workers. In every reachable state, whatever the health checks and the updates of
  the pool do: the queue holds exactly the requests that wait in \<open>upstream_peer\<close>, each once, so that its
  first element exists while one of them looks for it; it changes only by a request that enters at the
  end or one that leaves from the front, which then has a worker; a request is given a worker only at
  the front of the queue and then removes itself, not another; and a request that is sent on has one. As long as the pool changes only through requests and passing health checks, no
  two requests hold the same worker.
\<close>

theorem requests_served_in_order:
  assumes run: "proxy_run P supported ok (proxy_init ws) p"
  shows "distinct (px_queue p)
    \<and> (\<forall>r. rc_phase (px_requests p r) \<in> {Queued, Chosen} \<longleftrightarrow> r \<in> set (px_queue p))
    \<and> (\<forall>r. rc_phase (px_requests p r) = Chosen \<longrightarrow> (\<exists>rest. px_queue p = r # rest))
    \<and> (\<forall>r. rc_phase (px_requests p r) \<in> {Chosen, Sent} \<longrightarrow> (\<exists>a. holds p r a))
    \<and> (\<forall>e p'. proxy_step P supported p e p' \<longrightarrow>
        px_queue p' = px_queue p \<or> (\<exists>r. px_queue p' = px_queue p @ [r]) \<or> (\<exists>r a. px_queue p = r # px_queue p' \<and> holds p r a))
    \<and> (distinct (addresses ws) \<and> (\<forall>p e. ok p e \<longrightarrow> steady supported p e) \<longrightarrow>
        (\<forall>r r' a. holds p r a \<and> holds p r' a \<longrightarrow> r = r') \<and> (\<forall>r a. holds p r a \<longrightarrow> a \<notin> free (px_workers p)))"
proof -
  have q: "queue_ok p" by (rule queue_run[OF run queue_init])
  have "\<exists>rest. px_queue p = r # rest" if "rc_phase (px_requests p r) = Chosen" for r using chosen_front[OF q that] by blast
  moreover have "\<exists>a. holds p r a" if "rc_phase (px_requests p r) \<in> {Chosen, Sent}" for r
    using queue_okD(4)[OF q that] by (auto simp: holds_def)
  moreover have "(\<forall>r r' a. holds p r a \<and> holds p r' a \<longrightarrow> r = r') \<and> (\<forall>r a. holds p r a \<longrightarrow> a \<notin> free (px_workers p))"
    if "distinct (addresses ws)" "\<forall>p e. ok p e \<longrightarrow> steady supported p e"
    using workers_run[OF run _ workers_init[OF that(1)]] that(2) unfolding workers_ok_def by blast
  moreover have "px_queue p' = px_queue p \<or> (\<exists>r. px_queue p' = px_queue p @ [r]) \<or> (\<exists>r a. px_queue p = r # px_queue p' \<and> holds p r a)"
    if "proxy_step P supported p e p'" for e p'
    using that
  proof cases
    case (dequeue r)
    obtain rest where "px_queue p = r # rest" using chosen_front[OF q dequeue(3)] by blast
    moreover obtain a where "holds p r a" using queue_okD(4)[OF q, of r] dequeue(3) by (auto simp: holds_def)
    ultimately show ?thesis using dequeue(2) by auto
  qed simp_all
  ultimately show ?thesis using queue_okD(1,2)[OF q] by (auto simp: waiting_def)
qed

section \<open>A worker that is lost\<close>

text \<open>
  The address of a worker that is in the pool, unavailable, and held by no request.
\<close>

definition lost :: "proxy \<Rightarrow> string \<Rightarrow> bool" where
  "lost p a \<longleftrightarrow> a \<in> set (addresses (px_workers p)) \<and> a \<notin> free (px_workers p) \<and> (\<forall>r. \<not> holds p r a)"

lemma lost_same:
  assumes "lost p a" "addresses (px_workers p') = addresses (px_workers p)" "free (px_workers p') = free (px_workers p)"
    "\<And>x. rc_worker (px_requests p' x) = rc_worker (px_requests p x)"
  shows "lost p' a"
  using assms unfolding lost_def holds_def by simp

lemma lost_step:
  assumes ok: "workers_ok p" and lost: "lost p a" and st: "steady supported p e" and step: "proxy_step P supported p e p'"
  shows "lost p' a"
  using step
proof cases
  case (choose r w ws)
  have d: "distinct (addresses (px_workers p))" using ok by (simp add: workers_ok_def)
  note pop = pop_available[OF choose(6) d]
  have "a \<noteq> wk_address w" using lost pop by (auto simp: lost_def)
  then show ?thesis using lost pop by (auto simp: lost_def holds_def choose)
next
  case (logging r)
  have d: "distinct (addresses (px_workers p))" using ok by (simp add: workers_ok_def)
  show ?thesis
  proof (cases "rc_worker (px_requests p r)")
    case None
    then show ?thesis using lost by (auto simp: lost_def holds_def logging)
  next
    case (Some w)
    then have "wk_address w \<noteq> a" using lost by (auto simp: lost_def holds_def)
    then show ?thesis using lost add_available[OF d, of w] by (auto simp: lost_def holds_def logging Some)
  qed
next
  case (health Ns)
  then show ?thesis using steady_health[of Ns "px_workers p" supported] st by (intro lost_same[OF lost]) (simp_all add: steady_def)
next
  case (update N a addrs ws)
  then show ?thesis using st by (simp add: steady_def)
qed (rule lost_same[OF lost]; auto dest: fail_to_connect_worker)+

lemma lost_run:
  "proxy_run P supported (steady supported) p p' \<Longrightarrow> workers_ok p \<Longrightarrow> lost p a \<Longrightarrow> workers_ok p' \<and> lost p' a"
  by (induction rule: proxy_run.induct) (auto intro: workers_step lost_step)

text \<open>A request that holds a worker when it takes another loses the first.\<close>

theorem retry_loses_worker:
  assumes ok: "workers_ok p" and held: "holds p r a" and ready: "rc_phase (px_requests p r) = Queued"
    and step: "proxy_step P supported p (RequestEvent r) p'" and run: "proxy_run P supported (steady supported) p' p''"
  shows "lost p'' a"
proof -
  from step have "lost p' a"
  proof cases
    case (choose w ws)
    have d: "distinct (addresses (px_workers p))" using ok by (simp add: workers_ok_def)
    note pop = pop_available[OF choose(5) d]
    have a: "a \<in> set (addresses (px_workers p))" "a \<notin> free (px_workers p)" using ok held unfolding workers_ok_def by blast+
    then have "a \<noteq> wk_address w" using pop by auto
    moreover have "\<not> holds p x a" if "x \<noteq> r" for x using ok held that unfolding workers_ok_def by blast
    ultimately show ?thesis using a pop by (auto simp: lost_def holds_def choose)
  qed (use ready in simp_all)
  moreover have "workers_ok p'" by (rule workers_step[OF ok _ step]) (simp add: steady_def)
  ultimately show ?thesis using lost_run[OF run] by blast
qed

definition blocked :: "proxy \<Rightarrow> bool" where
  "blocked p \<longleftrightarrow> free (px_workers p) = {}
     \<and> (\<forall>x. rc_phase (px_requests p x) \<notin> {Chosen, Sent})
     \<and> (\<forall>x. rc_phase (px_requests p x) \<in> {Fresh, Closing} \<longrightarrow> rc_worker (px_requests p x) = None)"

lemma blocked_step:
  assumes b: "blocked p" and st: "steady supported p e" and step: "proxy_step P supported p e p'"
  shows "blocked p'"
  using step
proof cases
  case (choose r w ws)
  then show ?thesis using b pop_none[of "px_workers p"] by (simp add: blocked_def)
next
  case (health Ns)
  then show ?thesis using steady_health[of Ns "px_workers p" supported] st b by (simp add: steady_def blocked_def)
next
  case (update N a addrs ws)
  then show ?thesis using st by (simp add: steady_def)
qed (use b in \<open>auto simp: blocked_def\<close>)

lemma blocked_run: "proxy_run P supported (steady supported) p p' \<Longrightarrow> blocked p \<Longrightarrow> blocked p'"
  by (induction rule: proxy_run.induct) (auto intro: blocked_step)

text \<open>
  C37. A retry that blocks the proxy. With a single worker, one failed connection is enough: the request is
  sent back to choose a worker while the only one is still marked as its own. From there, as long as every
  health check finds the worker healthy and passes, and the pool is not updated (\<open>steady\<close>), the worker
  stays taken, and neither this request nor any later one is sent on. Nothing in the proxy ends this: it takes
  a failed check of the idle worker (\<open>health_check_exact\<close> says when a check gives a worker back) or
  an update that adds a worker.
\<close>

theorem retry_blocks_proxy:
  assumes w: "wk_is_available w" and room: "0 < px_max_queue_items P"
  shows "\<exists>p. proxy_run P supported (steady supported) (proxy_init [w]) p \<and> rc_phase (px_requests p r) = Admitted
    \<and> (\<forall>p'. proxy_run P supported (steady supported) p p' \<longrightarrow>
        free (px_workers p') = {} \<and> (\<forall>x. rc_phase (px_requests p' x) \<notin> {Chosen, Sent}))"
proof -
  let ?v = "set_availability False w" and ?run = "proxy_run P supported (steady supported) (proxy_init [w])"
  let ?p = "\<lambda>ws q ph t h. \<lparr>px_workers = ws, px_queue = q, px_requests = (\<lambda>_. context_new)(r := \<lparr>rc_phase = ph, rc_tries = t, rc_worker = h\<rparr>)\<rparr>"
  have next_step: "?run p''" if "?run p'" "proxy_step P supported p' (RequestEvent r) p''" for p' p''
    using proxy_run.onward[OF that(1) _ that(2)] by (simp add: steady_def)
  have "request_filter P (Some (px_max_req_per_sec P)) [] = Forward" using room by (simp add: request_filter_def)
  then have "?run (?p [w] [] Admitted 0 None)"
    using next_step[OF proxy_run.here proxy_step.forward[of "proxy_init [w]" r P "Some (px_max_req_per_sec P)"]]
    by (simp add: proxy_init_def with_request_def context_new_def)
  from next_step[OF this proxy_step.enqueue[of "?p [w] [] Admitted 0 None" r]]
  have "?run (?p [w] [r] Queued 0 None)" by (simp add: with_request_def)
  from next_step[OF this proxy_step.choose[of "?p [w] [r] Queued 0 None" r ?v "[?v]"]]
  have "?run (?p [?v] [r] Chosen 0 (Some ?v))" using w by (simp add: with_request_def Let_def)
  from next_step[OF this proxy_step.dequeue[of "?p [?v] [r] Chosen 0 (Some ?v)" r]]
  have "?run (?p [?v] [] Sent 0 (Some ?v))" by (simp add: with_request_def)
  from next_step[OF this proxy_step.retry[of "?p [?v] [] Sent 0 (Some ?v)" r P]]
  have run: "?run (?p [?v] [] Admitted 1 (Some ?v))" by (simp add: with_request_def fail_to_connect_def)
  have "blocked (?p [?v] [] Admitted 1 (Some ?v))" by (simp add: blocked_def free_def set_availability_def context_new_def)
  then have "\<forall>p'. proxy_run P supported (steady supported) (?p [?v] [] Admitted 1 (Some ?v)) p' \<longrightarrow>
      free (px_workers p') = {} \<and> (\<forall>x. rc_phase (px_requests p' x) \<notin> {Chosen, Sent})"
    using blocked_run unfolding blocked_def by blast
  with run show ?thesis by (intro exI[of _ "?p [?v] [] Admitted 1 (Some ?v)"]) simp
qed

section \<open>Sample\<close>

definition sample_worker :: "string \<Rightarrow> worker" where
  "sample_worker a = \<lparr>wk_address = a, wk_has_client = True, wk_is_available = True, wk_health = Unknown, wk_version = []\<rparr>"

definition sample_proxy :: proxy_config where
  "sample_proxy = \<lparr>px_max_queue_items = 10, px_max_retries = 1, px_max_req_per_sec = 5\<rparr>"

theorem retry_blocks_proxy_witness:
  "\<exists>p. proxy_run sample_proxy TransactionProof (steady TransactionProof) (proxy_init [sample_worker ''a'']) p
     \<and> (\<forall>p'. proxy_run sample_proxy TransactionProof (steady TransactionProof) p p' \<longrightarrow> free (px_workers p') = {})"
  using retry_blocks_proxy[of "sample_worker ''a''" sample_proxy TransactionProof 7]
  by (auto simp: sample_worker_def sample_proxy_def)

theorem requests_served_in_order_witness:
  "\<exists>p. proxy_run sample_proxy TransactionProof (steady TransactionProof) (proxy_init [sample_worker ''a'', sample_worker ''b'']) p
     \<and> px_queue p = [7] \<and> rc_phase (px_requests p 7) = Queued"
proof -
  let ?ws = "[sample_worker ''a'', sample_worker ''b'']"
  let ?p = "\<lambda>q ph. \<lparr>px_workers = ?ws, px_queue = q, px_requests = (\<lambda>_. context_new)(7 := \<lparr>rc_phase = ph, rc_tries = 0, rc_worker = None\<rparr>)\<rparr>"
  let ?run = "proxy_run sample_proxy TransactionProof (steady TransactionProof) (proxy_init ?ws)"
  have next_step: "?run p''" if "?run p'" "proxy_step sample_proxy TransactionProof p' (RequestEvent 7) p''" for p' p''
    using proxy_run.onward[OF that(1) _ that(2)] by (simp add: steady_def)
  have "request_filter sample_proxy (Some 1) [] = Forward" by (simp add: request_filter_def sample_proxy_def)
  then have "?run (?p [] Admitted)"
    using next_step[OF proxy_run.here proxy_step.forward[of "proxy_init ?ws" 7 sample_proxy "Some 1"]]
    by (simp add: proxy_init_def with_request_def context_new_def)
  from next_step[OF this proxy_step.enqueue[of "?p [] Admitted" 7]]
  have run: "?run (?p [7] Queued)" by (simp add: with_request_def)
  from requests_served_in_order[OF run] run show ?thesis by (intro exI[of _ "?p [7] Queued"]) simp
qed

end
