(* ===== verification/Block_Production.thy ===== *)
theory Block_Production
  imports Guarded_Runs Retry Mempool_Properties Store_Requests
begin

text \<open>
  The block producer around its mempool (crates/block-producer/src: server/mod.rs, batch_builder/mod.rs,
  block_builder/mod.rs, store/mod.rs) and the store it talks to (crates/store/src/server/block_producer.rs):
  the submission of transactions, the batch jobs and the block builder as tasks whose calls interleave.
  A step is one call under the mempool's lock, one request to the store, or the work between two of
  them.  What the provers and the protocol library compute is in the event that makes a task go on.
\<close>

section \<open>Errors\<close>

datatype store_error = GrpcClientError | MalformedResponse | DeserializationError

datatype build_batch_error =
    BatchFailureInjected
  | BatchJoinError
  | FetchBatchInputsFailed store_error
  | ProposeBatchError
  | ProveBatchError
  | BatchRemoteProverError
  | BatchSecurityTooLow nat nat

datatype build_block_error =
    StoreApplyBlockFailed store_error
  | GetBlockInputsFailed store_error
  | ProposeBlockFailed
  | ProveBlockFailed
  | BlockFailureInjected
  | BlockRemoteProverError
  | BlockSecurityTooLow nat nat

text \<open>What a client sees of a handler: an error, or a panic in it (\<open>None\<close>), is a failed call.\<close>

definition client_reply :: "('e + 'a) option \<Rightarrow> store_error + 'a" where
  "client_reply r = (case r of Some (Inr a) \<Rightarrow> Inr a | _ \<Rightarrow> Inl GrpcClientError)"

text \<open>The failure rate and the roll are in the units of the random generator; the builders set the rate to zero.\<close>

definition inject_failure :: "nat \<Rightarrow> nat \<Rightarrow> 'e \<Rightarrow> 'a \<Rightarrow> 'e + 'a" where
  "inject_failure failure_rate roll e x = (if roll < failure_rate then Inl e else Inr x)"

definition check_security :: "nat \<Rightarrow> nat \<Rightarrow> (nat \<Rightarrow> nat \<Rightarrow> 'e) \<Rightarrow> 'a \<Rightarrow> 'e + 'a" where
  "check_security level min_level e x = (if level < min_level then Inl (e level min_level) else Inr x)"

section \<open>What is read of the protocol library\<close>

record producer_lib =
  pl_from_ids :: "(transaction_id \<times> account_id) list \<Rightarrow> batch_id"
  pl_account_ident :: "account_id \<Rightarrow> account_ident"
  pl_input_headers :: "proven_batch \<Rightarrow> note_id option list"
  pl_reference_block :: "proven_batch \<Rightarrow> block_number"
  pl_updated_accounts :: "proven_batch \<Rightarrow> account_ident list"
  pl_created_nullifiers :: "proven_batch \<Rightarrow> nullifier list"
  pl_block_security :: "proven_block \<Rightarrow> nat"
  pl_min_security :: nat

section \<open>Submitting a transaction\<close>

text \<open>
  \<open>get_transaction_inputs\<close> of the store reads the inputs under one lock and the block height under
  another, later one.
\<close>

datatype submission =
    Fetched proven_tx store_tx_inputs
  | Authenticated proven_tx transaction_inputs

definition fetch_tx_inputs ::
  "('n, 'nu, 'a, 'au, 'm, 'p, 'w) lib \<Rightarrow> producer_lib \<Rightarrow> ('n, 'a, 'm) store_state \<Rightarrow> proven_tx \<Rightarrow> store_error + store_tx_inputs" where
  "fetch_tx_inputs L A s tx =
     client_reply (Some (get_transaction_inputs L s (pl_account_ident A (ptx_account_id tx)) (ptx_nullifiers tx) (ptx_unauthenticated tx)))"

text \<open>\<open>TransactionInputs::try_from\<close>: zero stands for no block, the empty word for no account.\<close>

definition transaction_inputs_from :: "proven_tx \<Rightarrow> store_tx_inputs \<Rightarrow> block_number \<Rightarrow> transaction_inputs" where
  "transaction_inputs_from tx si block_height =
     \<lparr>ti_account_id = ptx_account_id tx,
      ti_account_commitment = (if si_account_commitment si = default_digest then None else Some (si_account_commitment si)),
      ti_nullifiers = map_of (rev (map (\<lambda>i. (ni_nullifier i, if ni_block_num i = 0 then None else Some (ni_block_num i))) (si_nullifiers si))),
      ti_found_unauthenticated_notes = si_found_unauthenticated_notes si,
      ti_current_block_height = block_height\<rparr>"

section \<open>Batch jobs\<close>

datatype job =
    JobIdle
  | JobRunning batch_id "auth_tx list"
  | JobProven batch_id proven_batch
  | JobFailed batch_id build_batch_error

text \<open>What happens to one batch: the proposal and the proof, and the roll of the failure injection.\<close>

record ('p, 'q) batch_work =
  bt_propose :: "proven_tx list \<Rightarrow> 'p batch_inputs \<Rightarrow> 'q option"
  bt_prove :: "'q \<Rightarrow> build_batch_error + proven_batch"
  bt_reached :: bool
  bt_roll :: nat

definition fetch_batch_inputs ::
  "('n, 'nu, 'a, 'au, 'm, 'p, 'w) lib \<Rightarrow> ('n, 'a, 'm) store_state \<Rightarrow> bool \<Rightarrow> auth_tx list \<Rightarrow> store_error + 'p batch_inputs" where
  "fetch_batch_inputs L s reached txs =
     (if reached then client_reply (get_batch_inputs L s (set (map (fst \<circ> tx_reference_block) txs)) (set (concat (map tx_unauthenticated_notes txs))))
      else Inl GrpcClientError)"

definition prove_batch ::
  "('n, 'nu, 'a, 'au, 'm, 'p, 'w) lib \<Rightarrow> producer_lib \<Rightarrow> ('p, 'q) batch_work \<Rightarrow> ('n, 'a, 'm) store_state \<Rightarrow> auth_tx list \<Rightarrow>
     build_batch_error + proven_batch" where
  "prove_batch L A W s txs =
     bind_res (map_fail FetchBatchInputsFailed (fetch_batch_inputs L s (bt_reached W) txs)) (\<lambda>inputs.
     bind_res (case bt_propose W (map tx_inner txs) inputs of None \<Rightarrow> Inl ProposeBatchError | Some proposed \<Rightarrow> Inr proposed) (\<lambda>proposed.
     bind_res (bt_prove W proposed) (\<lambda>batch.
     bind_res (check_security (pb_security_level batch) (pl_min_security A) BatchSecurityTooLow batch) (\<lambda>batch.
     inject_failure 0 (bt_roll W) BatchFailureInjected batch))))"

section \<open>The block builder\<close>

datatype builder =
    BuilderIdle
  | BlockSelected "proven_batch list"
  | BlockProven proven_block
  | BlockApplied proven_block
  | BlockFailed build_block_error

record ('p, 'w, 'q) block_work =
  bk_propose :: "('p, 'w) block_inputs \<Rightarrow> proven_batch list \<Rightarrow> 'q option"
  bk_prove :: "'q \<Rightarrow> build_block_error + proven_block"
  bk_reached :: bool
  bk_roll :: nat

definition fetch_block_inputs ::
  "('n, 'nu, 'a, 'au, 'm, 'p, 'w) lib \<Rightarrow> producer_lib \<Rightarrow> ('n, 'a, 'm) store_state \<Rightarrow> bool \<Rightarrow> proven_batch list \<Rightarrow>
     store_error + ('p, 'w) block_inputs" where
  "fetch_block_inputs L A s reached batches =
     (if reached then client_reply (get_block_inputs L s
          (concat (map (pl_updated_accounts A) batches))
          (concat (map (pl_created_nullifiers A) batches))
          (set (concat (map (List.map_filter id \<circ> pl_input_headers A) batches)))
          (set (map (pl_reference_block A) batches)))
      else Inl GrpcClientError)"

definition prove_block ::
  "('n, 'nu, 'a, 'au, 'm, 'p, 'w) lib \<Rightarrow> producer_lib \<Rightarrow> ('p, 'w, 'q) block_work \<Rightarrow> ('n, 'a, 'm) store_state \<Rightarrow> proven_batch list \<Rightarrow>
     build_block_error + proven_block" where
  "prove_block L A W s batches =
     bind_res (map_fail GetBlockInputsFailed (fetch_block_inputs L A s (bk_reached W) batches)) (\<lambda>inputs.
     bind_res (case bk_propose W inputs batches of None \<Rightarrow> Inl ProposeBlockFailed | Some proposed \<Rightarrow> Inr proposed) (\<lambda>proposed.
     bind_res (bk_prove W proposed) (\<lambda>block.
     bind_res (check_security (pl_block_security A block) (pl_min_security A) BlockSecurityTooLow block) (\<lambda>block.
     inject_failure 0 (bk_roll W) BlockFailureInjected block))))"

section \<open>The node\<close>

record ('n, 'a, 'm) node =
  nd_mempool :: mempool
  nd_store :: "('n, 'a, 'm) store_state"
  nd_builder :: builder
  nd_jobs :: "nat \<Rightarrow> job"
  nd_submissions :: "nat \<Rightarrow> submission option"

text \<open>
  The events: a request numbered by the client, a job by its worker.  \<open>ApplyBlock\<close> says how the store's
  surroundings behave, and whether the reply arrives.
\<close>

datatype ('p, 'w, 'q, 'r) node_event =
    FetchInputs nat proven_tx
  | ReadHeight nat
  | SubmitTx nat
  | SubscribeEvents block_number
  | JobSelects nat
  | JobProves nat "('p, 'q) batch_work"
  | JobFinishes nat
  | BuilderSelects
  | BuilderProves "('p, 'w, 'r) block_work"
  | ApplyBlock block_world bool
  | BuilderFinishes

text \<open>A call on the mempool: a panic ends the node.\<close>

definition call_mempool :: "(mempool, 'e, 'x) outcome \<Rightarrow> (mempool \<Rightarrow> 'x option \<Rightarrow> 'c) \<Rightarrow> ('c, unit, unit) outcome" where
  "call_mempool r f = (case r of Ok m x \<Rightarrow> Ok (f m (Some x)) () | Err m e \<Rightarrow> Ok (f m None) () | Panic \<Rightarrow> Panic | Diverge \<Rightarrow> Diverge)"

lemma call_mempool_simps [simp]:
  "call_mempool (Ok m x) f = Ok (f m (Some x)) ()" "call_mempool (Err m e) f = Ok (f m None) ()"
  "call_mempool Panic f = Panic" "call_mempool Diverge f = Diverge"
  by (simp_all add: call_mempool_def)

subsection \<open>The handlers\<close>

text \<open>
  A handler whose task is not where it expects it does not run (\<open>Err\<close>).  Submissions first: the two
  reads of \<open>get_transaction_inputs\<close>, and the rest of \<open>submit_proven_transaction\<close>.
\<close>

definition start_submission ::
  "('n, 'nu, 'a, 'au, 'm, 'p, 'w) lib \<Rightarrow> producer_lib \<Rightarrow> nat \<Rightarrow> proven_tx \<Rightarrow> ('n, 'a, 'm) node \<Rightarrow> (('n, 'a, 'm) node, unit, unit) outcome" where
  "start_submission L A k tx n =
     (case nd_submissions n k of
        Some _ \<Rightarrow> Err n ()
      | None \<Rightarrow>
          (case fetch_tx_inputs L A (nd_store n) tx of
             Inl _ \<Rightarrow> Ok n ()
           | Inr si \<Rightarrow> Ok (n\<lparr>nd_submissions := (nd_submissions n)(k \<mapsto> Fetched tx si)\<rparr>) ()))"

definition read_height ::
  "('n, 'nu, 'a, 'au, 'm, 'p, 'w) lib \<Rightarrow> nat \<Rightarrow> ('n, 'a, 'm) node \<Rightarrow> (('n, 'a, 'm) node, unit, unit) outcome" where
  "read_height L k n =
     (case nd_submissions n k of
        Some (Fetched tx si) \<Rightarrow>
          (case latest_block_num L (st_inner (nd_store n)) of
             None \<Rightarrow> Ok (n\<lparr>nd_submissions := (nd_submissions n)(k := None)\<rparr>) ()
           | Some h \<Rightarrow> Ok (n\<lparr>nd_submissions := (nd_submissions n)(k \<mapsto> Authenticated tx (transaction_inputs_from tx si h))\<rparr>) ())
      | _ \<Rightarrow> Err n ())"

definition submit_proven_transaction ::
  "(sender \<Rightarrow> mempool_event \<Rightarrow> bool) \<Rightarrow> nat \<Rightarrow> ('n, 'a, 'm) node \<Rightarrow> (('n, 'a, 'm) node, unit, unit) outcome" where
  "submit_proven_transaction accepts k n =
     (case nd_submissions n k of
        Some (Authenticated tx inputs) \<Rightarrow>
          (case auth_tx_new tx inputs of
             Inl _ \<Rightarrow> Ok (n\<lparr>nd_submissions := (nd_submissions n)(k := None)\<rparr>) ()
           | Inr a \<Rightarrow> call_mempool (add_transaction accepts (nd_mempool n) a)
               (\<lambda>m _. n\<lparr>nd_mempool := m, nd_submissions := (nd_submissions n)(k := None)\<rparr>))
      | _ \<Rightarrow> Err n ())"

definition mempool_subscription ::
  "(sender \<Rightarrow> mempool_event \<Rightarrow> bool) \<Rightarrow> block_number \<Rightarrow> ('n, 'a, 'm) node \<Rightarrow> (('n, 'a, 'm) node, unit, unit) outcome" where
  "mempool_subscription accepts tip n = call_mempool (mp_subscribe accepts (nd_mempool n) tip) (\<lambda>m _. n\<lparr>nd_mempool := m\<rparr>)"

text \<open>\<open>BatchJob::build_batch\<close>: a worker without a job selects a batch, proves it, and commits it or rolls it back.\<close>

definition select_job ::
  "producer_lib \<Rightarrow> nat \<Rightarrow> nat \<Rightarrow> ('n, 'a, 'm) node \<Rightarrow> (('n, 'a, 'm) node, unit, unit) outcome" where
  "select_job A workers w n =
     (if w < workers \<and> nd_jobs n w = JobIdle
      then call_mempool (mp_select_batch (pl_from_ids A) (nd_mempool n) :: (mempool, unit, (batch_id \<times> auth_tx list) option) outcome)
        (\<lambda>m r. n\<lparr>nd_mempool := m,
            nd_jobs := (nd_jobs n)(w := (case r of Some (Some (i, txs)) \<Rightarrow> JobRunning i txs | _ \<Rightarrow> JobIdle))\<rparr>)
      else Err n ())"

definition prove_job ::
  "('n, 'nu, 'a, 'au, 'm, 'p, 'w) lib \<Rightarrow> producer_lib \<Rightarrow> nat \<Rightarrow> ('p, 'q) batch_work \<Rightarrow> ('n, 'a, 'm) node \<Rightarrow> (('n, 'a, 'm) node, unit, unit) outcome" where
  "prove_job L A w W n =
     (case nd_jobs n w of
        JobRunning i txs \<Rightarrow>
          Ok (n\<lparr>nd_jobs := (nd_jobs n)(w := (case prove_batch L A W (nd_store n) txs of
              Inl e \<Rightarrow> JobFailed i e | Inr batch \<Rightarrow> JobProven i batch))\<rparr>) ()
      | _ \<Rightarrow> Err n ())"

definition finish_job :: "nat \<Rightarrow> ('n, 'a, 'm) node \<Rightarrow> (('n, 'a, 'm) node, unit, unit) outcome" where
  "finish_job w n =
     (case nd_jobs n w of
        JobProven i batch \<Rightarrow> call_mempool (commit_batch (nd_mempool n) batch :: (mempool, unit, unit) outcome)
          (\<lambda>m _. n\<lparr>nd_mempool := m, nd_jobs := (nd_jobs n)(w := JobIdle)\<rparr>)
      | JobFailed i e \<Rightarrow> call_mempool (rollback_batch (nd_mempool n) i :: (mempool, unit, unit) outcome)
          (\<lambda>m _. n\<lparr>nd_mempool := m, nd_jobs := (nd_jobs n)(w := JobIdle)\<rparr>)
      | _ \<Rightarrow> Err n ())"

text \<open>\<open>BlockBuilder::build_block\<close>: the two calls of \<open>commit_block\<close> are two steps.\<close>

definition select_block :: "('n, 'a, 'm) node \<Rightarrow> (('n, 'a, 'm) node, unit, unit) outcome" where
  "select_block n =
     (if nd_builder n = BuilderIdle
      then call_mempool (mp_select_block (nd_mempool n) :: (mempool, unit, block_number \<times> proven_batch list) outcome)
        (\<lambda>m r. n\<lparr>nd_mempool := m, nd_builder := (case r of Some (_, batches) \<Rightarrow> BlockSelected batches | None \<Rightarrow> BuilderIdle)\<rparr>)
      else Err n ())"

definition prove_selected ::
  "('n, 'nu, 'a, 'au, 'm, 'p, 'w) lib \<Rightarrow> producer_lib \<Rightarrow> ('p, 'w, 'q) block_work \<Rightarrow> ('n, 'a, 'm) node \<Rightarrow> (('n, 'a, 'm) node, unit, unit) outcome" where
  "prove_selected L A W n =
     (case nd_builder n of
        BlockSelected batches \<Rightarrow>
          Ok (n\<lparr>nd_builder := (case prove_block L A W (nd_store n) batches of
              Inl e \<Rightarrow> BlockFailed e | Inr block \<Rightarrow> BlockProven block)\<rparr>) ()
      | _ \<Rightarrow> Err n ())"

definition apply_to_store ::
  "('n, 'nu, 'a, 'au, 'm, 'p, 'w) lib \<Rightarrow> block_params \<Rightarrow> block_world \<Rightarrow> bool \<Rightarrow> ('n, 'a, 'm) node \<Rightarrow> (('n, 'a, 'm) node, unit, unit) outcome" where
  "apply_to_store L P W reply_arrives n =
     (case nd_builder n of
        BlockProven block \<Rightarrow>
          (case apply_block L P W block (nd_store n) of
             Ok s _ \<Rightarrow> Ok (n\<lparr>nd_store := s,
                nd_builder := (if reply_arrives then BlockApplied block else BlockFailed (StoreApplyBlockFailed GrpcClientError))\<rparr>) ()
           | Err s e \<Rightarrow> Ok (n\<lparr>nd_store := s, nd_builder := BlockFailed (StoreApplyBlockFailed GrpcClientError)\<rparr>) ()
           | Panic \<Rightarrow> Panic | Diverge \<Rightarrow> Diverge)
      | _ \<Rightarrow> Err n ())"

definition finish_block_build :: "(sender \<Rightarrow> mempool_event \<Rightarrow> bool) \<Rightarrow> ('n, 'a, 'm) node \<Rightarrow> (('n, 'a, 'm) node, unit, unit) outcome" where
  "finish_block_build accepts n =
     (case nd_builder n of
        BlockApplied block \<Rightarrow>
          call_mempool (commit_block accepts (nd_mempool n) \<lparr>bh_block_num = sh_block_num (pb_header block)\<rparr> :: (mempool, unit, unit) outcome)
            (\<lambda>m _. n\<lparr>nd_mempool := m, nd_builder := BuilderIdle\<rparr>)
      | BlockFailed e \<Rightarrow> call_mempool (rollback_block accepts (nd_mempool n) :: (mempool, unit, unit) outcome)
            (\<lambda>m _. n\<lparr>nd_mempool := m, nd_builder := BuilderIdle\<rparr>)
      | _ \<Rightarrow> Err n ())"

lemmas handler_defs [simp] = start_submission_def read_height_def submit_proven_transaction_def mempool_subscription_def
  select_job_def prove_job_def finish_job_def select_block_def prove_selected_def apply_to_store_def finish_block_build_def

fun node_step ::
  "('n, 'nu, 'a, 'au, 'm, 'p, 'w) lib \<Rightarrow> block_params \<Rightarrow> producer_lib \<Rightarrow> nat \<Rightarrow> (sender \<Rightarrow> mempool_event \<Rightarrow> bool) \<Rightarrow>
     ('n, 'a, 'm) node \<Rightarrow> ('p, 'w, 'q, 'r) node_event \<Rightarrow> (('n, 'a, 'm) node, unit, unit) outcome" where
  "node_step L P A workers accepts n (FetchInputs k tx) = start_submission L A k tx n"
| "node_step L P A workers accepts n (ReadHeight k) = read_height L k n"
| "node_step L P A workers accepts n (SubmitTx k) = submit_proven_transaction accepts k n"
| "node_step L P A workers accepts n (SubscribeEvents tip) = mempool_subscription accepts tip n"
| "node_step L P A workers accepts n (JobSelects w) = select_job A workers w n"
| "node_step L P A workers accepts n (JobProves w W) = prove_job L A w W n"
| "node_step L P A workers accepts n (JobFinishes w) = finish_job w n"
| "node_step L P A workers accepts n BuilderSelects = select_block n"
| "node_step L P A workers accepts n (BuilderProves W) = prove_selected L A W n"
| "node_step L P A workers accepts n (ApplyBlock W reply_arrives) = apply_to_store L P W reply_arrives n"
| "node_step L P A workers accepts n BuilderFinishes = finish_block_build accepts n"

text \<open>\<open>BlockProducer::serve\<close> starts from the store's latest header; no header is an error.\<close>

definition serve :: "batch_budget \<Rightarrow> block_budget \<Rightarrow> nat \<Rightarrow> nat \<Rightarrow> ('n, 'a, 'm) store_state \<Rightarrow> ('n, 'a, 'm) node option" where
  "serve bat_budget blk_budget state_retention expiration_slack s =
     map_option (\<lambda>header. \<lparr>nd_mempool = mempool_new (sh_block_num header) bat_budget blk_budget state_retention expiration_slack,
        nd_store = s, nd_builder = BuilderIdle, nd_jobs = (\<lambda>_. JobIdle), nd_submissions = (\<lambda>_. None)\<rparr>)
      (select_block_header_by_block_num (st_db s) None)"

definition server_num_batch_builders :: nat where
  "server_num_batch_builders = 2"

definition server_mempool_state_retention :: nat where
  "server_mempool_state_retention = 5"

definition server_mempool_expiration_slack :: nat where
  "server_mempool_expiration_slack = 2"

text \<open>The loop that asks the store for the chain tip before, over the store's answers.\<close>

definition fetch_chain_tip :: "bool \<Rightarrow> (store_error + store_header) list \<Rightarrow> (store_error, block_number) retried" where
  "fetch_chain_tip overflow_checks answers =
     with_retry overflow_checks (\<lambda>e. e = GrpcClientError) 0 [] (map (map_sum id sh_block_num) answers)"

text \<open>A step that happens, with whatever the event channel accepts.\<close>

definition node_next ::
  "('n, 'nu, 'a, 'au, 'm, 'p, 'w) lib \<Rightarrow> block_params \<Rightarrow> producer_lib \<Rightarrow> nat \<Rightarrow> ('n, 'a, 'm) node \<Rightarrow>
     ('p, 'w, 'q, 'r) node_event \<Rightarrow> ('n, 'a, 'm) node \<Rightarrow> bool" where
  "node_next L P A workers n ev n' \<longleftrightarrow> (\<exists>accepts. node_step L P A workers accepts n ev = Ok n' ())"

end
