(* ===== verification/Mempool_Effects.thy ===== *)
theory Mempool_Effects
  imports Mempool_Properties
begin

text \<open>
  What the calls on the mempool (crates/block-producer/src/mempool/mod.rs) leave alone: which proofs of
  batches it holds, which deltas of committed blocks the inflight state retains, and which transactions
  and proofs a selection hands out.  The tasks around the mempool rely on it between their own calls.
\<close>

abbreviation retained :: "mempool \<Rightarrow> (transaction_id \<times> delta) list list" where
  "retained m \<equiv> is_committed_blocks (mp_state m)"

abbreviation proofs :: "mempool \<Rightarrow> batch_id \<rightharpoonup> proven_batch" where
  "proofs m \<equiv> vertices (bg_inner (mp_batches m))"

section \<open>Proofs of batches only disappear\<close>

lemma purge_subgraphs_vertices: "purge_subgraphs g keys = Ok g' removed \<Longrightarrow> vertices g' \<subseteq>\<^sub>m vertices g"
proof -
  assume "purge_subgraphs g keys = Ok g' removed"
  then obtain rest where loop: "while_option (\<lambda>(g, removed, to_remove). to_remove \<noteq> {}) (purge_step keys) (g, {}, keys) = Some (g', removed, rest)"
    by (auto simp: purge_subgraphs_def Let_def returned_def split: if_splits option.splits prod.splits)
  have "case (g', removed, rest) of (h, r, t) \<Rightarrow> vertices h \<subseteq>\<^sub>m vertices g"
    by (rule while_option_rule[where P = "\<lambda>(h, r, t). vertices h \<subseteq>\<^sub>m vertices g", OF _ loop])
      (auto simp: purge_step_def purge_key_def Let_def intro: map_le_trans[OF upd_None_map_le])
  then show ?thesis by simp
qed

lemma remove_batches_proofs:
  "remove_batches B ids = Ok B' r \<Longrightarrow> vertices (bg_inner B') \<subseteq>\<^sub>m vertices (bg_inner B)"
proof -
  assume "remove_batches B ids = Ok B' r"
  then obtain g' removed where "purge_subgraphs (bg_inner B) ids = Ok g' removed" "bg_inner B' = g'"
    by (auto simp: remove_batches_def and_then_eq_Ok in_field_eq_Ok split: option.splits)
  then show ?thesis by (simp add: purge_subgraphs_vertices)
qed

lemma prune_keys_vertices: "prune_keys g ks acc = Ok g' r \<Longrightarrow> vertices g' \<subseteq>\<^sub>m vertices g"
proof (induction ks arbitrary: g acc)
  case (Cons k ks)
  then have "vertices g' \<subseteq>\<^sub>m vertices (prune_key g k)" by (simp split: option.splits)
  then show ?case using map_le_trans[OF _ upd_None_map_le] by (auto simp: prune_key_def)
qed simp

lemma prune_committed_proofs:
  "prune_committed B ids = Ok B' r \<Longrightarrow> vertices (bg_inner B') \<subseteq>\<^sub>m vertices (bg_inner B)"
proof -
  assume "prune_committed B ids = Ok B' r"
  then obtain B1 vs where B1: "in_field (\<lambda>g. B\<lparr>bg_inner := g\<rparr>) (prune_processed (bg_inner B) ids) = Ok B1 vs"
    and B': "(case drain_batches (sorted_list_of_set ids) (bg_batches B1) of (m, transactions) \<Rightarrow>
        Ok (B1\<lparr>bg_batches := m, bg_transactions := remove_keys transactions (bg_transactions B1)\<rparr>) transactions) =
        (Ok B' r :: (batch_graph, batch_id graph_error, transaction_id list) outcome)"
    unfolding prune_committed_def and_then_eq_Ok by blast
  from B1 obtain g' where g': "prune_processed (bg_inner B) ids = Ok g' vs" "bg_inner B1 = g'" by (auto simp: in_field_eq_Ok)
  from B' have "bg_inner B' = bg_inner B1" by (cases "drain_batches (sorted_list_of_set ids) (bg_batches B1)") auto
  with g'(2) have g'2: "bg_inner B' = g'" by simp
  from g'(1) have "prune_keys (bg_inner B) (sorted_list_of_set ids) [] = Ok g' vs"
    unfolding prune_processed_def Let_def by (simp split: if_splits)
  with g'2 show ?thesis by (simp add: prune_keys_vertices)
qed

lemma promote_pending_vertices: "promote_pending g k v = Ok g' u \<Longrightarrow> vertices g' = (vertices g)(k \<mapsto> v)"
  by (auto simp: promote_pending_def try_make_root_def split: if_splits)

lemma map_le_ran: "m \<subseteq>\<^sub>m m' \<Longrightarrow> ran m \<subseteq> ran m'"
proof
  fix v assume le: "m \<subseteq>\<^sub>m m'" and "v \<in> ran m"
  then obtain k where "m k = Some v" by (auto simp: ran_def)
  with le have "m' k = Some v" by (metis domI map_le_def)
  then show "v \<in> ran m'" by (rule ranI)
qed

section \<open>The inflight state\<close>

lemma insert_retained: "insert_transaction s tx = Ok s' ps \<Longrightarrow> is_committed_blocks s' = is_committed_blocks s"
  by (auto simp: insert_transaction_def Let_def split: outcome.splits option.splits)

lemma verify_same: "verify_transaction s tx = Ok s' u \<Longrightarrow> s' = s"
  by (auto simp: verify_transaction_def Let_def split: option.splits if_splits)

lemma revert_retained:
  "revert_all s ts = (Ok s' () :: (inflight_state, 'e, unit) outcome) \<Longrightarrow> is_committed_blocks s' = is_committed_blocks s"
proof (induction ts arbitrary: s)
  case (Cons t ts)
  have "is_committed_blocks s1 = is_committed_blocks s" if "revert_one s t = (Ok s1 u :: (inflight_state, 'e, unit) outcome)" for s1 u
    using that by (auto simp: revert_one_def put_account_def split: option.splits outcome.splits)
  with Cons show ?case by (auto simp: and_then_eq_Ok)
qed simp

lemma prune_retained:
  "prune_deltas s ds = (Ok s' () :: (inflight_state, 'e, unit) outcome) \<Longrightarrow> is_committed_blocks s' = is_committed_blocks s"
proof (induction ds arbitrary: s)
  case (Cons d ds)
  have "is_committed_blocks s1 = is_committed_blocks s" if "prune_delta s d = (Ok s1 u :: (inflight_state, 'e, unit) outcome)" for s1 u
    using that by (auto simp: prune_delta_def put_account_def split: option.splits outcome.splits)
  with Cons show ?case by (auto simp: and_then_eq_Ok)
qed simp

lemma set_bt_insert: "k \<notin> fst ` set m \<Longrightarrow> set (bt_insert k v m) = insert (k, v) (set m)"
  by (induction m) (auto split: if_splits)

lemma commit_one_effect:
  assumes "commit_one s t = Ok s1 d"
  shows "is_deltas s t = Some d" "is_deltas s1 = (is_deltas s)(t := None)"
    "is_committed_blocks s1 = is_committed_blocks s" "is_num_retained s1 = is_num_retained s"
  using assms by (auto simp: commit_one_def split: option.splits outcome.splits)

text \<open>Committing retains the block's deltas and drops at most the oldest block.\<close>

lemma commit_all_effect:
  assumes "commit_all s ts b = (Ok s' b' :: (inflight_state, 'e, (transaction_id \<times> delta) list) outcome)"
    and "distinct ts" "fst ` set b \<inter> set ts = {}"
  shows "set b' = set b \<union> {(t, d). t \<in> set ts \<and> is_deltas s t = Some d}
    \<and> is_committed_blocks s' = is_committed_blocks s \<and> is_num_retained s' = is_num_retained s"
  using assms
proof (induction ts arbitrary: s b)
  case (Cons t ts)
  from Cons.prems(1) obtain s1 d where one: "commit_one s t = (Ok s1 d :: (inflight_state, 'e, delta) outcome)"
    and rest: "commit_all s1 ts (bt_insert t d b) = (Ok s' b' :: (inflight_state, 'e, (transaction_id \<times> delta) list) outcome)" by (auto simp: and_then_eq_Ok)
  note one = commit_one_effect[OF one]
  have b: "set (bt_insert t d b) = insert (t, d) (set b)" using Cons.prems(3) by (intro set_bt_insert) auto
  have "fst ` set (bt_insert t d b) \<inter> set ts = {}" using Cons.prems(2,3) by (simp add: b)
  from Cons.IH[OF rest _ this] Cons.prems(2) show ?case using one by (auto simp: b split: if_splits)
qed simp

lemma commit_retained:
  assumes "inflight_commit_block s ts = (Ok s' () :: (inflight_state, 'e, unit) outcome)" "distinct ts"
  shows "\<exists>block. set block = {(t, d). t \<in> set ts \<and> is_deltas s t = Some d}
    \<and> is_committed_blocks s' = drop (if length (is_committed_blocks s) < is_num_retained s then 0 else 1) (is_committed_blocks s @ [block])"
proof -
  from assms(1) obtain s1 block s2 where
    c: "commit_all s ts [] = (Ok s1 block :: (inflight_state, 'e, (transaction_id \<times> delta) list) outcome)"
    and p: "prune_block (s1\<lparr>is_committed_blocks := is_committed_blocks s1 @ [block]\<rparr>) = (Ok s2 () :: (inflight_state, 'e, unit) outcome)"
    and s': "s' = s2\<lparr>is_chain_tip := Suc (is_chain_tip s2)\<rparr>" by (auto simp: inflight_commit_block_def and_then_eq_Ok)
  have e: "set block = {(t, d). t \<in> set ts \<and> is_deltas s t = Some d}" "is_committed_blocks s1 = is_committed_blocks s"
    "is_num_retained s1 = is_num_retained s" using commit_all_effect[OF c assms(2)] by simp_all
  have "is_committed_blocks s2 = drop (if length (is_committed_blocks s) < is_num_retained s then 0 else 1) (is_committed_blocks s @ [block])"
  proof (cases "length (is_committed_blocks s) < is_num_retained s")
    case True
    then have "s2 = s1\<lparr>is_committed_blocks := is_committed_blocks s @ [block]\<rparr>"
      using p by (simp add: prune_block_def e(2,3) Suc_le_eq)
    with True show ?thesis by simp
  next
    case False
    obtain b bs where bs: "is_committed_blocks s @ [block] = b # bs" by (cases "is_committed_blocks s @ [block]") auto
    then have "prune_deltas (s1\<lparr>is_committed_blocks := bs\<rparr>) (map snd b) = (Ok s2 () :: (inflight_state, 'e, unit) outcome)"
    proof -
      have "length bs = length (is_committed_blocks s)" using arg_cong[OF bs, of length] by simp
      then show ?thesis using p False bs by (simp add: prune_block_def e(2,3) Suc_le_eq)
    qed
    from prune_retained[OF this] show ?thesis using False bs by simp
  qed
  with e(1) s' show ?thesis by auto
qed

section \<open>The calls\<close>

lemma add_transaction_effect:
  assumes "add_transaction accepts m tx = Ok m' tip"
  shows "proofs m' = proofs m \<and> retained m' = retained m"
proof -
  from assms obtain s ps where "inflight_add_transaction (mp_state m) tx = Ok s ps" "mp_state m' = s" "mp_batches m' = mp_batches m"
    by (auto simp: add_transaction_def Let_def outcome_Ok_iffs)
  then show ?thesis by (auto simp: inflight_add_transaction_def and_then_eq_Ok dest!: verify_same insert_retained)
qed

lemma subscribe_effect:
  "mp_subscribe accepts m tip = Ok m' r \<Longrightarrow> mp_state m' = mp_state m \<and> mp_batches m' = mp_batches m
     \<and> mp_transactions m' = mp_transactions m \<and> mp_chain_tip m' = mp_chain_tip m \<and> mp_block_in_progress m' = mp_block_in_progress m"
  by (auto simp: mp_subscribe_def in_field_eq_Ok)

lemma bg_insert_proofs: "bg_insert from_ids B txs ps = Ok B' i \<Longrightarrow> vertices (bg_inner B') = vertices (bg_inner B) \<and> i = from_ids txs"
  by (auto simp: bg_insert_def insert_pending_def Let_def split: if_splits sum.splits)

lemma select_batch_effect:
  assumes ok: "tg_ok (mp_transactions m)"
    and run: "mp_select_batch from_ids m = (Ok m' r :: (mempool, 'e, (batch_id \<times> auth_tx list) option) outcome)"
  shows "mp_state m' = mp_state m" "proofs m' = proofs m"
    and "r = Some (i, txs) \<Longrightarrow> i = from_ids (map (\<lambda>tx. (tx_id tx, tx_account_id tx)) txs)
      \<and> (\<forall>tx \<in> set txs. vertices (mp_transactions m) (tx_id tx) = Some tx)"
proof -
  from tg_select_batch_Ok[OF ok, of "mp_batch_budget m", where ?'e = 'e] obtain ks g' where
    sel: "tg_select_batch (mp_transactions m) (mp_batch_budget m) = (Ok g' (values_of (mp_transactions m) ks, \<Union>k \<in> set ks. pars (mp_transactions m) k)
        :: (transaction_graph, 'e, auth_tx list \<times> transaction_id set) outcome)"
      "selection batch_check_then_subtract (mp_transactions m) (mp_batch_budget m) ks g'" "map tx_id (values_of (mp_transactions m) ks) = ks"
    by blast
  let ?txs = "values_of (mp_transactions m) ks"
  have member: "vertices (mp_transactions m) (tx_id tx) = Some tx" if "tx \<in> set ?txs" for tx
  proof -
    from that obtain k where k: "k \<in> set ks" "tx = the (vertices (mp_transactions m) k)" by (auto simp: values_of_def)
    then have "vertices (mp_transactions m) k = Some tx" using selection_values[OF sel(2)] by fastforce
    with tg_okD(3)[OF ok] show ?thesis by auto
  qed
  have "mp_state m' = mp_state m \<and> proofs m' = proofs m
      \<and> (r = None \<or> r = Some (from_ids (map (\<lambda>tx. (tx_id tx, tx_account_id tx)) ?txs), ?txs))"
    using run by (auto simp: mp_select_batch_def sel(1) Let_def outcome_Ok_iffs split: if_splits dest!: bg_insert_proofs)
  with member show "mp_state m' = mp_state m" "proofs m' = proofs m"
    "r = Some (i, txs) \<Longrightarrow> i = from_ids (map (\<lambda>tx. (tx_id tx, tx_account_id tx)) txs)
      \<and> (\<forall>tx \<in> set txs. vertices (mp_transactions m) (tx_id tx) = Some tx)" by auto
qed

lemma rollback_batch_effect:
  assumes "rollback_batch m b = (Ok m' () :: (mempool, 'e, unit) outcome)"
  shows "mp_state m' = mp_state m \<and> proofs m' \<subseteq>\<^sub>m proofs m"
  using assms by (auto simp: rollback_batch_def Let_def outcome_Ok_iffs split: if_splits dest: remove_batches_proofs)

lemma commit_batch_effect:
  assumes "commit_batch m batch = (Ok m' () :: (mempool, 'e, unit) outcome)"
  shows "mp_state m' = mp_state m" "proofs m' \<subseteq>\<^sub>m (proofs m)(pb_id batch \<mapsto> batch) \<or> proofs m' = proofs m"
  using assms by (auto simp: commit_batch_def submit_proof_def outcome_Ok_iffs split: if_splits dest!: promote_pending_vertices)

lemma select_block_effect:
  assumes ok: "bg_ok (mp_batches m)"
    and run: "mp_select_block m = (Ok m' (n, batches) :: (mempool, 'e, block_number \<times> proven_batch list) outcome)"
  shows "mp_state m' = mp_state m" "proofs m' = proofs m" "set batches \<subseteq> ran (proofs m)"
proof -
  from bg_select_block_Ok[OF ok, of "mp_block_budget m", where ?'e = 'e] obtain ks h where
    s: "bg_select_block (mp_batches m) (mp_block_budget m) = (Ok (mp_batches m\<lparr>bg_inner := h\<rparr>) (values_of (bg_inner (mp_batches m)) ks)
        :: (batch_graph, 'e, proven_batch list) outcome)"
      "selection block_check_then_subtract (bg_inner (mp_batches m)) (mp_block_budget m) ks h" by blast
  have "set (values_of (bg_inner (mp_batches m)) ks) \<subseteq> ran (proofs m)"
    using selection_values[OF s(2)] by (fastforce simp: values_of_def intro: ranI)
  moreover have "vertices h = proofs m" using s(2) by (simp add: selection_def)
  moreover from run have "mp_state m' = mp_state m \<and> proofs m' = vertices h \<and> batches = values_of (bg_inner (mp_batches m)) ks"
    by (auto simp: mp_select_block_def s(1) outcome_Ok_iffs split: if_splits)
  ultimately show "mp_state m' = mp_state m" "proofs m' = proofs m" "set batches \<subseteq> ran (proofs m)" by auto
qed

lemma revert_transactions_effect:
  assumes "revert_transactions accepts m txs = Ok m' R"
  shows "retained m' = retained m \<and> proofs m' \<subseteq>\<^sub>m proofs m"
proof -
  from assms obtain s B' r where "inflight_revert_transactions (mp_state m) R = (Ok s () :: (inflight_state, transaction_id graph_error, unit) outcome)"
    "remove_batches_with_transactions (mp_batches m) (sorted_list_of_set R) = (Ok B' r :: (batch_graph, transaction_id graph_error, _) outcome)"
    "mp_state m' = s" "mp_batches m' = B'" by (auto simp: revert_transactions_def Let_def outcome_Ok_iffs)
  then show ?thesis
    by (auto simp: inflight_revert_transactions_def remove_batches_with_transactions_def Let_def outcome_Ok_iffs
        dest!: revert_retained remove_batches_proofs)
qed

lemma rollback_block_effect:
  assumes "rollback_block accepts m = (Ok m' () :: (mempool, 'e, unit) outcome)"
  shows "retained m' = retained m \<and> proofs m' \<subseteq>\<^sub>m proofs m"
  using assms by (auto simp: rollback_block_def Let_def outcome_Ok_iffs split: option.splits dest!: revert_transactions_effect)

lemma commit_block_effect:
  assumes inv: "mempool_inv from_ids m" and S: "mp_block_in_progress m = Some S"
    and run: "commit_block accepts m header = (Ok m' () :: (mempool, 'e, unit) outcome)"
  shows "proofs m' \<subseteq>\<^sub>m proofs m"
    and "\<exists>block. set block = {(t, d). t \<in> txs_of (mp_batches m) S \<and> is_deltas (mp_state m) t = Some d}
      \<and> retained m' = drop (if length (retained m) < is_num_retained (mp_state m) then 0 else 1) (retained m @ [block])"
proof -
  have core: "mempool_core from_ids m S" using inv S by (simp add: mempool_inv_def selected_def)
  note C = mempool_coreD[OF core]
  have cl: "\<And>b. b \<in> S \<Longrightarrow> pars (bg_inner (mp_batches m)) b \<subseteq> S"
    using wf_graphD(3)[OF bg_okD(1)[OF linkedD(2)[OF C(1)]]] C(2) by blast
  define ts where "ts = concat (map (\<lambda>b. the (bg_batches (mp_batches m) b)) (sorted_list_of_set S))"
  note lc = linked_commit[OF C(1) _ cl, folded ts_def]
  have ts: "prune_committed (mp_batches m) S = Ok (bg_delete (mp_batches m) S) ts" "set ts = txs_of (mp_batches m) S" "distinct ts"
    using lc(1,2,3) C(2) by simp_all
  from run obtain s m6 expired where r: "revert_expired_transactions accepts m6 = (Ok m' expired :: (mempool, 'e, transaction_id set) outcome)"
    and c: "inflight_commit_block (mp_state m) ts = (Ok s () :: (inflight_state, 'e, unit) outcome)"
    and m6: "mp_state m6 = s" "mp_batches m6 = bg_delete (mp_batches m) S"
    by (fastforce simp: commit_block_def S ts(1) Let_def outcome_Ok_iffs)
  from r have e: "retained m' = retained m6 \<and> proofs m' \<subseteq>\<^sub>m proofs m6"
    by (auto simp: revert_expired_transactions_def Let_def outcome_Ok_iffs dest!: revert_transactions_effect)
  moreover have "proofs m6 \<subseteq>\<^sub>m proofs m" by (simp add: m6 bg_delete_def map_le_def)
  ultimately show "proofs m' \<subseteq>\<^sub>m proofs m" using map_le_trans by blast
  from commit_retained[OF c ts(3)] e show "\<exists>block. set block = {(t, d). t \<in> txs_of (mp_batches m) S \<and> is_deltas (mp_state m) t = Some d}
      \<and> retained m' = drop (if length (retained m) < is_num_retained (mp_state m) then 0 else 1) (retained m @ [block])"
    by (simp add: m6 ts(2))
qed

end
