(* ===== verification/Block_Production_Safety.thy ===== *)
theory Block_Production_Safety
  imports Block_Production Mempool_Effects
begin

text \<open>
  The block producer and the store as one system: what holds between any two steps of its tasks, and
  under which conditions on the world outside.  The mempool and the store agree on the chain, no task
  is in a position from which its next call panics, and a nullifier that the store has seen is never
  spent by an inflight transaction.
\<close>

section \<open>What the world outside promises\<close>

text \<open>
  A transaction's identifier commits to it: \<open>body\<close> gives the transaction of an identifier.  What the
  transactions of a batch spend, as far as the batch's identifier tells.
\<close>

definition spends :: "producer_lib \<Rightarrow> (transaction_id \<Rightarrow> proven_tx) \<Rightarrow> batch_id \<Rightarrow> nullifier set" where
  "spends A body i = {k. \<exists>txs. pl_from_ids A txs = i \<and> (\<exists>t \<in> fst ` set txs. k \<in> set (ptx_nullifiers (body t)))}"

definition faithful_proof :: "producer_lib \<Rightarrow> (transaction_id \<Rightarrow> proven_tx) \<Rightarrow> proven_batch \<Rightarrow> bool" where
  "faithful_proof A body pb \<longleftrightarrow> set (pl_created_nullifiers A pb) \<subseteq> spends A body (pb_id pb)"

fun job_batch :: "job \<Rightarrow> batch_id option" where
  "job_batch JobIdle = None"
| "job_batch (JobRunning i txs) = Some i"
| "job_batch (JobProven i pb) = Some i"
| "job_batch (JobFailed i e) = Some i"

text \<open>
  The events the theorems admit.  Submitted transactions are what their identifiers say and do
  something, the counter of events does not run out, provers prove what they were given, no batch is
  selected again while a job still works on it, the reply of \<open>apply_block\<close> reaches the builder, and
  no block is applied between the two reads of \<open>get_transaction_inputs\<close>.
\<close>

fun sound_event ::
  "('n, 'nu, 'a, 'au, 'm, 'p, 'w) lib \<Rightarrow> producer_lib \<Rightarrow> (transaction_id \<Rightarrow> proven_tx) \<Rightarrow> ('n, 'a, 'm) node \<Rightarrow>
     ('p, 'w, 'q, 'r) node_event \<Rightarrow> bool" where
  "sound_event L A body n (FetchInputs k tx) = (tx = body (ptx_id tx) \<and> (ptx_nullifiers tx \<noteq> [] \<or> ptx_output_notes tx \<noteq> []))"
| "sound_event L A body n (SubmitTx k) = (next_index (sp_inflight_txs (mp_subscription (nd_mempool n))) < 2 ^ 64)"
| "sound_event L A body n (JobSelects w) =
     (\<forall>m i txs v. mp_select_batch (pl_from_ids A) (nd_mempool n) = (Ok m (Some (i, txs)) :: (mempool, unit, _) outcome)
        \<longrightarrow> job_batch (nd_jobs n v) \<noteq> Some i)"
| "sound_event L A body n (JobProves w W) =
     (\<forall>i txs pb. nd_jobs n w = JobRunning i txs \<longrightarrow> prove_batch L A W (nd_store n) txs = Inr pb
        \<longrightarrow> pb_id pb = i \<and> set (pl_created_nullifiers A pb) \<subseteq> (\<Union>tx \<in> set txs. set (tx_nullifiers tx)))"
| "sound_event L A body n (BuilderProves W) =
     (\<forall>batches block. nd_builder n = BlockSelected batches \<longrightarrow> prove_block L A W (nd_store n) batches = Inr block
        \<longrightarrow> block_wf block \<and> set (pb_nullifiers block) \<subseteq> (\<Union>pb \<in> set batches. set (pl_created_nullifiers A pb)))"
| "sound_event L A body n (ApplyBlock W reply_arrives) = (reply_arrives \<and> (\<forall>k tx si. nd_submissions n k \<noteq> Some (Fetched tx si)))"
| "sound_event L A body n ev = True"

section \<open>The invariant\<close>

text \<open>The mempool: its own invariant, faithful proofs, and transactions that are what their identifiers say.\<close>

definition pool_ok :: "producer_lib \<Rightarrow> (transaction_id \<Rightarrow> proven_tx) \<Rightarrow> mempool \<Rightarrow> bool" where
  "pool_ok A body m \<longleftrightarrow> mempool_inv (pl_from_ids A) m
     \<and> (\<forall>pb \<in> ran (proofs m). faithful_proof A body pb)
     \<and> (\<forall>tx \<in> ran (vertices (mp_transactions m)). tx_inner tx = body (tx_id tx))"

text \<open>The jobs: no two on one batch, none on a batch with a proof, and faithful results.\<close>

fun job_ok :: "producer_lib \<Rightarrow> (transaction_id \<Rightarrow> proven_tx) \<Rightarrow> job \<Rightarrow> bool" where
  "job_ok A body (JobRunning i txs) \<longleftrightarrow> i = pl_from_ids A (map (\<lambda>tx. (tx_id tx, tx_account_id tx)) txs)
     \<and> (\<forall>tx \<in> set txs. tx_inner tx = body (tx_id tx))"
| "job_ok A body (JobProven i pb) \<longleftrightarrow> pb_id pb = i \<and> faithful_proof A body pb"
| "job_ok A body j \<longleftrightarrow> True"

definition jobs_ok :: "producer_lib \<Rightarrow> (transaction_id \<Rightarrow> proven_tx) \<Rightarrow> batch_id set \<Rightarrow> (nat \<Rightarrow> job) \<Rightarrow> bool" where
  "jobs_ok A body proven jobs \<longleftrightarrow> (\<forall>w. job_ok A body (jobs w))
     \<and> (\<forall>w i. job_batch (jobs w) = Some i \<longrightarrow> i \<notin> proven)
     \<and> (\<forall>w v i. job_batch (jobs w) = Some i \<longrightarrow> job_batch (jobs v) = Some i \<longrightarrow> w = v)"

text \<open>The block builder against the mempool's block in progress.\<close>

fun builder_ok :: "producer_lib \<Rightarrow> (transaction_id \<Rightarrow> proven_tx) \<Rightarrow> batch_id set option \<Rightarrow> builder \<Rightarrow> bool" where
  "builder_ok A body S BuilderIdle \<longleftrightarrow> S = None"
| "builder_ok A body S (BlockSelected batches) \<longleftrightarrow> S = Some (pb_id ` set batches) \<and> (\<forall>pb \<in> set batches. faithful_proof A body pb)"
| "builder_ok A body S (BlockProven block) \<longleftrightarrow> block_wf block
     \<and> (\<exists>B. S = Some B \<and> (\<forall>k \<in> set (pb_nullifiers block). \<exists>i \<in> B. k \<in> spends A body i))"
| "builder_ok A body S (BlockApplied block) \<longleftrightarrow> (\<exists>B. S = Some B \<and> (\<forall>k \<in> set (pb_nullifiers block). \<exists>i \<in> B. k \<in> spends A body i))"
| "builder_ok A body S (BlockFailed e) \<longleftrightarrow> S \<noteq> None"

text \<open>The block that the store has and the mempool does not know of yet.\<close>

fun unacknowledged :: "builder \<Rightarrow> proven_block list" where
  "unacknowledged (BlockApplied block) = [block]"
| "unacknowledged b = []"

definition unacknowledged_nullifiers :: "builder \<Rightarrow> nullifier set" where
  "unacknowledged_nullifiers b = set (concat (map pb_nullifiers (unacknowledged b)))"

text \<open>
  The chain: the heights agree, and the numbers of applied blocks are their heights.  The blocks the
  mempool retains have the nullifiers the store saw at their heights.
\<close>

definition tips_ok :: "mempool \<Rightarrow> db \<Rightarrow> builder \<Rightarrow> bool" where
  "tips_ok m d b \<longleftrightarrow> Suc (mp_chain_tip m + length (unacknowledged b)) = length (db_block_headers d)
     \<and> (\<forall>block \<in> set (unacknowledged b). sh_block_num (pb_header block) = Suc (mp_chain_tip m))"

definition remembered :: "mempool \<Rightarrow> (nullifier \<rightharpoonup> block_number) \<Rightarrow> builder \<Rightarrow> bool" where
  "remembered m spent b \<longleftrightarrow>
     (\<forall>k h. spent k = Some h \<longrightarrow> mp_chain_tip m < h \<longrightarrow> k \<in> unacknowledged_nullifiers b)
     \<and> (\<forall>k h. spent k = Some h \<longrightarrow> h \<le> mp_chain_tip m \<longrightarrow> mp_chain_tip m < h + length (retained m) \<longrightarrow>
        (\<exists>d \<in> snd ` set (retained m ! (h + length (retained m) - Suc (mp_chain_tip m))). k \<in> d_nullifiers d))"

text \<open>What a submission knows of the store.\<close>

fun submission_ok :: "(transaction_id \<Rightarrow> proven_tx) \<Rightarrow> (nullifier \<rightharpoonup> block_number) \<Rightarrow> nat \<Rightarrow> submission \<Rightarrow> bool" where
  "submission_ok body spent num_blocks (Fetched tx si) \<longleftrightarrow> tx = body (ptx_id tx) \<and> (ptx_nullifiers tx \<noteq> [] \<or> ptx_output_notes tx \<noteq> [])
     \<and> si_nullifiers si = map (\<lambda>k. \<lparr>ni_nullifier = k, ni_block_num = (case spent k of None \<Rightarrow> 0 | Some h \<Rightarrow> h)\<rparr>) (ptx_nullifiers tx)"
| "submission_ok body spent num_blocks (Authenticated tx inputs) \<longleftrightarrow> tx = body (ptx_id tx) \<and> (ptx_nullifiers tx \<noteq> [] \<or> ptx_output_notes tx \<noteq> [])
     \<and> ti_current_block_height inputs < num_blocks
     \<and> (\<forall>k \<in> set (ptx_nullifiers tx). \<forall>h. spent k = Some h \<longrightarrow> spent_in_store inputs k \<or> ti_current_block_height inputs < h)"

definition no_double_spend :: "mempool \<Rightarrow> (nullifier \<rightharpoonup> block_number) \<Rightarrow> builder \<Rightarrow> bool" where
  "no_double_spend m spent b \<longleftrightarrow> (\<forall>tx \<in> ran (vertices (mp_transactions m)). \<forall>k \<in> set (tx_nullifiers tx).
     spent k = None \<or> k \<in> unacknowledged_nullifiers b)"

definition node_ok ::
  "('n, 'nu, 'a, 'au, 'm, 'p, 'w) lib \<Rightarrow> producer_lib \<Rightarrow> (transaction_id \<Rightarrow> proven_tx) \<Rightarrow> ('n, 'a, 'm) node \<Rightarrow> bool" where
  "node_ok L A body n \<longleftrightarrow> pool_ok A body (nd_mempool n) \<and> consistent L (nd_store n)
     \<and> jobs_ok A body (dom (proofs (nd_mempool n))) (nd_jobs n)
     \<and> builder_ok A body (mp_block_in_progress (nd_mempool n)) (nd_builder n)
     \<and> tips_ok (nd_mempool n) (st_db (nd_store n)) (nd_builder n)
     \<and> remembered (nd_mempool n) (spent_at (st_db (nd_store n))) (nd_builder n)
     \<and> (\<forall>k s. nd_submissions n k = Some s \<longrightarrow>
          submission_ok body (spent_at (st_db (nd_store n))) (length (db_block_headers (st_db (nd_store n)))) s)
     \<and> no_double_spend (nd_mempool n) (spent_at (st_db (nd_store n))) (nd_builder n)"

lemma node_okD:
  assumes "node_ok L A body n"
  shows "pool_ok A body (nd_mempool n)" "consistent L (nd_store n)"
    "jobs_ok A body (dom (proofs (nd_mempool n))) (nd_jobs n)"
    "builder_ok A body (mp_block_in_progress (nd_mempool n)) (nd_builder n)"
    "tips_ok (nd_mempool n) (st_db (nd_store n)) (nd_builder n)"
    "remembered (nd_mempool n) (spent_at (st_db (nd_store n))) (nd_builder n)"
    "nd_submissions n k = Some s \<Longrightarrow> submission_ok body (spent_at (st_db (nd_store n))) (length (db_block_headers (st_db (nd_store n)))) s"
    "no_double_spend (nd_mempool n) (spent_at (st_db (nd_store n))) (nd_builder n)"
  using assms by (simp_all add: node_ok_def)

lemma pool_okD:
  assumes "pool_ok A body m"
  shows "mempool_inv (pl_from_ids A) m" "mempool_core (pl_from_ids A) m (selected m)" "unexpired m"
    "proofs m i = Some pb \<Longrightarrow> faithful_proof A body pb"
    "vertices (mp_transactions m) t = Some tx \<Longrightarrow> tx_inner tx = body (tx_id tx)"
  using assms by (auto simp: pool_ok_def mempool_inv_def intro: ranI)

section \<open>Steps that leave the store alone\<close>

text \<open>A step must lead to a good state or not happen; it must not panic.\<close>

definition step_ok ::
  "('n, 'nu, 'a, 'au, 'm, 'p, 'w) lib \<Rightarrow> producer_lib \<Rightarrow> (transaction_id \<Rightarrow> proven_tx) \<Rightarrow> (('n, 'a, 'm) node, unit, unit) outcome \<Rightarrow> bool" where
  "step_ok L A body r \<longleftrightarrow> (\<exists>n. r = Ok n () \<and> node_ok L A body n \<or> r = Err n ())"

lemma step_okI: "node_ok L A body n \<Longrightarrow> step_ok L A body (Ok n ())"
  by (auto simp: step_ok_def)

lemma step_ok_Err [simp]: "step_ok L A body (Err n ())"
  by (auto simp: step_ok_def)

lemma node_ok_pool:
  assumes ok: "node_ok L A body n" and pool: "pool_ok A body (nd_mempool n')"
    and same: "nd_store n' = nd_store n" "nd_builder n' = nd_builder n"
      "mp_chain_tip (nd_mempool n') = mp_chain_tip (nd_mempool n)" "retained (nd_mempool n') = retained (nd_mempool n)"
      "mp_block_in_progress (nd_mempool n') = mp_block_in_progress (nd_mempool n)"
    and jobs: "jobs_ok A body (dom (proofs (nd_mempool n'))) (nd_jobs n')"
    and subs: "\<And>k s. nd_submissions n' k = Some s \<Longrightarrow> nd_submissions n k = Some s"
    and spent: "no_double_spend (nd_mempool n') (spent_at (st_db (nd_store n))) (nd_builder n)"
  shows "node_ok L A body n'"
  using node_okD[OF ok] pool jobs subs spent unfolding node_ok_def same tips_ok_def remembered_def same by blast

lemma no_double_spend_mono:
  "no_double_spend m spent b \<Longrightarrow> ran (vertices (mp_transactions m')) \<subseteq> ran (vertices (mp_transactions m)) \<Longrightarrow> no_double_spend m' spent b"
  by (auto simp: no_double_spend_def)

lemma jobs_ok_mono: "jobs_ok A body P jobs \<Longrightarrow> Q \<subseteq> P \<Longrightarrow> jobs_ok A body Q jobs"
  unfolding jobs_ok_def by blast

lemma jobs_ok_set:
  assumes "jobs_ok A body P jobs" and "job_ok A body j"
    and "\<And>i. job_batch j = Some i \<Longrightarrow> i \<notin> P" and "\<And>i v. job_batch j = Some i \<Longrightarrow> v \<noteq> w \<Longrightarrow> job_batch (jobs v) \<noteq> Some i"
  shows "jobs_ok A body P (jobs(w := j))"
  unfolding jobs_ok_def
proof (intro conjI allI impI)
  fix v i assume v: "job_batch ((jobs(w := j)) v) = Some i"
  show "i \<notin> P"
  proof (cases "v = w")
    case True
    with v assms(3) show ?thesis by simp
  next
    case False
    with v assms(1) show ?thesis by (simp add: jobs_ok_def)
  qed
  fix u assume u: "job_batch ((jobs(w := j)) u) = Some i"
  show "v = u"
  proof (cases "v = w"; cases "u = w")
    assume "v \<noteq> w" "u \<noteq> w"
    with u v assms(1) show ?thesis unfolding jobs_ok_def by simp
  qed (use u v assms(4) in auto)
qed (use assms(1,2) in \<open>simp add: jobs_ok_def\<close>)

text \<open>A job that finished its batch with a proof.\<close>

lemma jobs_ok_done:
  assumes "jobs_ok A body P jobs" and "job_batch (jobs w) = Some i"
  shows "jobs_ok A body (insert i P) (jobs(w := JobIdle))"
proof -
  have idle: "jobs_ok A body P (jobs(w := JobIdle))" by (rule jobs_ok_set[OF assms(1)]) simp_all
  moreover have "job_batch ((jobs(w := JobIdle)) v) \<noteq> Some i" for v
    using assms unfolding jobs_ok_def by (cases "v = w") auto
  ultimately show ?thesis unfolding jobs_ok_def by blast
qed

subsection \<open>Submissions\<close>

lemma map_of_keys: "map_of (rev (map (\<lambda>k. (k, f k)) ks)) k = (if k \<in> set ks then Some (f k) else None)"
  by (simp add: rev_map map_of_map_restrict)

lemma fetch_step:
  assumes ok: "node_ok L A body n" and sound: "sound_event L A body n (FetchInputs k tx)"
  shows "step_ok L A body (node_step L P A workers accepts n (FetchInputs k tx))"
proof (cases "nd_submissions n k")
  case None
  show ?thesis
  proof (cases "fetch_tx_inputs L A (nd_store n) tx")
    case (Inl e)
    with None ok show ?thesis by (simp add: step_okI)
  next
    case (Inr si)
    have "mirrors L (st_db (nd_store n)) (st_inner (nd_store n))" using node_okD(2)[OF ok] by (simp add: consistent_def)
    then have nt: "nt_block_num L (nullifier_tree (st_inner (nd_store n))) = spent_at (st_db (nd_store n))" by (simp add: mirrors_def)
    from Inr have "si_nullifiers si = map (\<lambda>k. \<lparr>ni_nullifier = k,
        ni_block_num = (case spent_at (st_db (nd_store n)) k of None \<Rightarrow> 0 | Some h \<Rightarrow> h)\<rparr>) (ptx_nullifiers tx)"
      by (auto simp: fetch_tx_inputs_def client_reply_def get_transaction_inputs_def nt bind_res_eq_Inr split: sum.splits)
    with sound have "submission_ok body (spent_at (st_db (nd_store n))) (length (db_block_headers (st_db (nd_store n)))) (Fetched tx si)"
      by simp
    with ok have "node_ok L A body (n\<lparr>nd_submissions := (nd_submissions n)(k \<mapsto> Fetched tx si)\<rparr>)"
      by (simp add: node_ok_def del: submission_ok.simps)
    with None Inr show ?thesis by (simp add: step_okI)
  qed
qed simp

lemma read_height_step:
  assumes trees: "trees_ok L" and ok: "node_ok L A body n"
  shows "step_ok L A body (node_step L P A workers accepts n (ReadHeight k))"
proof (cases "\<exists>tx si. nd_submissions n k = Some (Fetched tx si)")
  case True
  then obtain tx si where sub: "nd_submissions n k = Some (Fetched tx si)" by blast
  let ?d = "st_db (nd_store n)"
  define h where "h = length (db_block_headers ?d) - 1"
  have chain: "chain_ok ?d" using node_okD(2)[OF ok] by (simp add: consistent_def)
  have h: "h < length (db_block_headers ?d)" using chain by (simp add: chain_ok_def h_def)
  have height: "latest_block_num L (st_inner (nd_store n)) = Some h"
    using latest_is_tip[OF trees node_okD(2)[OF ok]] by (simp add: h_def)
  have snap: "tx = body (ptx_id tx)" "ptx_nullifiers tx \<noteq> [] \<or> ptx_output_notes tx \<noteq> []"
    and nul: "si_nullifiers si = map (\<lambda>k. \<lparr>ni_nullifier = k, ni_block_num = (case spent_at ?d k of None \<Rightarrow> 0 | Some h \<Rightarrow> h)\<rparr>) (ptx_nullifiers tx)"
    using node_okD(7)[OF ok sub] by simp_all
  have "spent_in_store (transaction_inputs_from tx si h) k" if "k \<in> set (ptx_nullifiers tx)" "spent_at ?d k = Some b" for k b
  proof -
    have "b \<noteq> 0" using chain that(2) by (force simp: chain_ok_def spent_at_def dest!: map_of_SomeD)
    with that show ?thesis by (simp add: spent_in_store_def transaction_inputs_from_def nul comp_def map_of_keys)
  qed
  then have "submission_ok body (spent_at ?d) (length (db_block_headers ?d)) (Authenticated tx (transaction_inputs_from tx si h))"
    using snap h by (simp add: transaction_inputs_from_def)
  with ok have "node_ok L A body (n\<lparr>nd_submissions := (nd_submissions n)(k \<mapsto> Authenticated tx (transaction_inputs_from tx si h))\<rparr>)"
    by (simp add: node_ok_def del: submission_ok.simps)
  with sub height show ?thesis by (simp add: step_okI)
qed (simp split: option.splits submission.splits)

text \<open>An admissible transaction with a good snapshot of the store spends nothing the store has seen.\<close>

lemma admitted_unspent:
  assumes rem: "remembered m spent b" and sub: "submission_ok body spent num_blocks (Authenticated tx inputs)"
    and auth: "auth_tx_new tx inputs = Inr a" and adm: "admissible (mp_state m) a" and tip: "is_chain_tip (mp_state m) = mp_chain_tip m"
    and k: "k \<in> set (tx_nullifiers a)"
  shows "spent k = None \<or> k \<in> unacknowledged_nullifiers b"
proof (cases "spent k")
  case (Some h)
  note A = auth_tx_new_Inr[OF auth]
  have k': "k \<in> set (ptx_nullifiers tx)" using k A(1) by (simp add: tx_nullifiers_def)
  have "spent_in_store inputs k \<or> ti_current_block_height inputs < h"
    using sub k' Some unfolding submission_ok.simps by blast
  with A(2)[OF k'] A(4) have "tx_authentication_height a < h" by simp
  then have near: "mp_chain_tip m < h + length (retained m)" using adm tip by (simp add: admissible_def)
  show ?thesis
  proof (cases "mp_chain_tip m < h")
    case False
    let ?i = "h + length (retained m) - Suc (mp_chain_tip m)"
    from False have "h \<le> mp_chain_tip m" by simp
    from conjunct2[OF rem[unfolded remembered_def], rule_format, OF Some this near]
    obtain d where d: "d \<in> snd ` set (retained m ! ?i)" "k \<in> d_nullifiers d" ..
    have "?i < length (retained m)" using False near by linarith
    then have "retained m ! ?i \<in> set (retained m)" by (rule nth_mem)
    with d(1) have "d \<in> set (committed_deltas (mp_state m))" unfolding committed_deltas_def by auto
    with adm d(2) k show ?thesis by (auto simp: admissible_def known_deltas_def)
  qed (use rem Some in \<open>auto simp: remembered_def\<close>)
qed simp

lemma submit_step:
  fixes n :: "('n, 'a, 'm) node"
  assumes ok: "node_ok L A body n" and sound: "sound_event L A body n (SubmitTx k :: ('p, 'w, 'q, 'r) node_event)"
  shows "step_ok L A body (node_step L P A workers accepts n (SubmitTx k :: ('p, 'w, 'q, 'r) node_event))"
proof (cases "\<exists>tx inputs. nd_submissions n k = Some (Authenticated tx inputs)")
  case True
  then obtain tx inputs where sub: "nd_submissions n k = Some (Authenticated tx inputs)" by blast
  let ?m = "nd_mempool n"
  note N = node_okD[OF ok]
  note so = N(7)[OF sub] and po = pool_okD[OF N(1)]
  have gone: "node_ok L A body (n\<lparr>nd_submissions := (nd_submissions n)(k := None)\<rparr>)"
    using ok by (simp add: node_ok_def del: submission_ok.simps)
  show ?thesis
  proof (cases "auth_tx_new tx inputs")
    case (Inl e)
    with sub gone show ?thesis by (simp add: step_okI)
  next
    case (Inr a)
    note A = auth_tx_new_Inr[OF Inr] and C = mempool_coreD[OF po(2)]
    have body: "tx_inner a = body (tx_id a)" using so A(1) by (simp add: tx_id_def)
    have tip: "is_chain_tip (mp_state ?m) = mp_chain_tip ?m" by (rule trackingD(8)[OF C(4)])
    have may: "may_add ?m a"
    proof -
      have "delta_new tx' = delta_new a" if "vertices (mp_transactions ?m) (tx_id a) = Some tx'" for tx'
      proof -
        have "tx_id tx' = tx_id a" using tg_okD(3)[OF linkedD(1)[OF C(1)]] that by blast
        with po(5)[OF that] body have "tx_inner tx' = tx_inner a" by simp
        then show ?thesis by (simp add: delta_new_def tx_account_id_def tx_nullifiers_def tx_output_note_ids_def)
      qed
      moreover have "tx_nullifiers a \<noteq> [] \<or> tx_output_note_ids a \<noteq> []"
        using so A(1) by (simp add: tx_nullifiers_def tx_output_note_ids_def)
      ultimately show ?thesis using sound by (simp add: may_add_def)
    qed
    note add = add_transaction_core[OF po(2) may, of accepts]
    show ?thesis
    proof (cases "add_transaction accepts ?m a")
      case (Ok m' h)
      note e = add_transaction_effect[OF Ok]
      from add Ok have c: "admissible (mp_state ?m) a" "mempool_core (pl_from_ids A) m' (selected ?m)"
        "vertices (mp_transactions m') = (vertices (mp_transactions ?m))(tx_id a \<mapsto> a)"
        "tx_id a \<notin> inflight_ids ?m" "mp_chain_tip m' = mp_chain_tip ?m" "mp_block_in_progress m' = mp_block_in_progress ?m" by simp_all
      have ran: "ran (vertices (mp_transactions m')) = insert a (ran (vertices (mp_transactions ?m)))"
        using c(4) by (simp add: c(3) inflight_ids_def ran_map_upd domIff)
      have "mp_chain_tip ?m < tx_expires_at a" using c(1) tip by (simp add: admissible_def)
      then have "mempool_inv (pl_from_ids A) m'"
        using po(3) c by (auto simp: mempool_inv_def selected_def unexpired_def)
      then have "pool_ok A body m'" using N(1) body by (simp add: pool_ok_def e ran)
      moreover have "no_double_spend m' (spent_at (st_db (nd_store n))) (nd_builder n)"
        using N(8) admitted_unspent[OF N(6) so Inr c(1) tip] by (simp add: no_double_spend_def ran)
      ultimately have "node_ok L A body (n\<lparr>nd_mempool := m', nd_submissions := (nd_submissions n)(k := None)\<rparr>)"
        using N(3) e c by (intro node_ok_pool[OF ok]) (simp_all split: if_splits)
      with sub Inr Ok show ?thesis by (simp add: step_okI)
    next
      case (Err m' e)
      with add gone sub Inr show ?thesis by (simp add: step_okI)
    qed (use add in simp_all)
  qed
qed (simp split: option.splits submission.splits)

lemma subscribe_step:
  assumes ok: "node_ok L A body n"
  shows "step_ok L A body (node_step L P A workers accepts n (SubscribeEvents tip))"
proof -
  note N = node_okD[OF ok]
  consider (Ok) m' r where "mp_subscribe accepts (nd_mempool n) tip = Ok m' r" "mempool_inv (pl_from_ids A) m'"
    | (Err) e where "mp_subscribe accepts (nd_mempool n) tip = Err (nd_mempool n) e"
    using subscribe_core[OF pool_okD(1)[OF N(1)], of accepts tip]
    by (cases "mp_subscribe accepts (nd_mempool n) tip") (auto simp: mp_subscribe_def subscribe_def split: if_splits)
  then show ?thesis
  proof cases
    case Ok
    note e = subscribe_effect[OF Ok(1)]
    have "node_ok L A body (n\<lparr>nd_mempool := m'\<rparr>)"
      using N(1,3,8) Ok(2) e by (intro node_ok_pool[OF ok]) (simp_all add: pool_ok_def no_double_spend_def)
    with Ok show ?thesis by (simp add: step_okI)
  qed (use ok in \<open>simp add: step_okI\<close>)
qed

subsection \<open>Jobs\<close>

lemma faithful_covers:
  assumes "job_ok A body (JobRunning i txs)" and "pb_id pb = i"
    and "set (pl_created_nullifiers A pb) \<subseteq> (\<Union>tx \<in> set txs. set (tx_nullifiers tx))"
  shows "job_ok A body (JobProven i pb)"
proof -
  let ?ids = "map (\<lambda>tx. (tx_id tx, tx_account_id tx)) txs"
  have "k \<in> spends A body i" if "k \<in> set (pl_created_nullifiers A pb)" for k
  proof -
    from that assms(3) obtain tx where tx: "tx \<in> set txs" "k \<in> set (tx_nullifiers tx)" by blast
    with assms(1) have "k \<in> set (ptx_nullifiers (body (tx_id tx)))" by (auto simp: tx_nullifiers_def)
    with tx(1) assms(1) show ?thesis unfolding spends_def by (intro CollectI exI[of _ ?ids]) force
  qed
  with assms(2) show ?thesis by (auto simp: faithful_proof_def)
qed

lemma job_selects_step:
  assumes inj: "inj (pl_from_ids A)" and ok: "node_ok L A body n" and sound: "sound_event L A body n (JobSelects w)"
  shows "step_ok L A body (node_step L P A workers accepts n (JobSelects w))"
proof (cases "w < workers \<and> nd_jobs n w = JobIdle")
  case True
  let ?m = "nd_mempool n"
  note N = node_okD[OF ok]
  note po = pool_okD[OF N(1)]
  from select_batch_core[OF po(2) inj, where ?'e = unit] obtain m' r where
    c: "mp_select_batch (pl_from_ids A) ?m = (Ok m' r :: (mempool, unit, (batch_id \<times> auth_tx list) option) outcome)"
      "mempool_core (pl_from_ids A) m' (selected ?m)" "vertices (mp_transactions m') = vertices (mp_transactions ?m)"
      "mp_chain_tip m' = mp_chain_tip ?m" "mp_block_in_progress m' = mp_block_in_progress ?m"
    and r: "case r of None \<Rightarrow> True | Some (i, batch) \<Rightarrow> batch \<noteq> [] \<and> bg_get_transactions (mp_batches m') i = Some (map tx_id batch)
        \<and> tx_id ` set batch \<inter> processed (mp_transactions ?m) = {} \<and> i \<notin> nodes (bg_inner (mp_batches ?m))" by blast
  have new: "i \<notin> nodes (bg_inner (mp_batches ?m))" if "r = Some (i, txs)" for i txs using r that by simp
  note e = select_batch_effect[OF linkedD(1)[OF mempool_coreD(1)[OF po(2)]] c(1)]
  define j where "j = (case r of Some (i, txs) \<Rightarrow> JobRunning i txs | _ \<Rightarrow> JobIdle)"
  have "pool_ok A body m'"
    using mempool_inv_same[OF po(3) c(2,4,5,3)] N(1) by (simp add: pool_ok_def e(2) c(3))
  moreover have "jobs_ok A body (dom (proofs m')) ((nd_jobs n)(w := j))"
  proof (rule jobs_ok_set)
    show "jobs_ok A body (dom (proofs m')) (nd_jobs n)" using N(3) by (simp add: e(2))
    show "job_ok A body j"
    proof (cases r)
      case (Some x)
      then obtain i txs where x: "r = Some (i, txs)" by (cases x) simp
      note m = e(3)[OF x]
      then have "tx_inner tx = body (tx_id tx)" if "tx \<in> set txs" for tx using that po(5) by blast
      with m x show ?thesis by (simp add: j_def)
    qed (simp add: j_def)
    fix i assume i: "job_batch j = Some i"
    then obtain txs where r: "r = Some (i, txs)" by (auto simp: j_def split: option.splits prod.splits)
    from new[OF r] show "i \<notin> dom (proofs m')" by (simp add: e(2) nodes_def)
    fix v
    from sound c(1) r show "job_batch (nd_jobs n v) \<noteq> Some i" by simp
  qed
  ultimately have "node_ok L A body (n\<lparr>nd_mempool := m', nd_jobs := (nd_jobs n)(w := j)\<rparr>)"
    using N(8) c e(1) by (intro node_ok_pool[OF ok]) (simp_all add: no_double_spend_def)
  moreover have "node_step L P A workers accepts n (JobSelects w) = Ok (n\<lparr>nd_mempool := m', nd_jobs := (nd_jobs n)(w := j)\<rparr>) ()"
    using True c(1) by (cases r) (auto simp: j_def)
  ultimately show ?thesis by (simp add: step_okI)
qed (simp only: node_step.simps select_job_def if_False step_ok_Err)

lemma job_proves_step:
  assumes ok: "node_ok L A body n" and sound: "sound_event L A body n (JobProves w W)"
  shows "step_ok L A body (node_step L P A workers accepts n (JobProves w W))"
proof (cases "\<exists>i txs. nd_jobs n w = JobRunning i txs")
  case True
  then obtain i txs where j: "nd_jobs n w = JobRunning i txs" by blast
  note N = node_okD[OF ok]
  define j' where "j' = (case prove_batch L A W (nd_store n) txs of Inl e \<Rightarrow> JobFailed i e | Inr batch \<Rightarrow> JobProven i batch)"
  have run: "job_ok A body (JobRunning i txs)" using N(3) j by (metis jobs_ok_def)
  have b: "job_batch j' = Some i" by (simp add: j'_def split: sum.split)
  have "jobs_ok A body (dom (proofs (nd_mempool n))) ((nd_jobs n)(w := j'))"
  proof (rule jobs_ok_set[OF N(3)])
    show "job_ok A body j'"
    proof (cases "prove_batch L A W (nd_store n) txs")
      case (Inr pb)
      with sound j have "pb_id pb = i" "set (pl_created_nullifiers A pb) \<subseteq> (\<Union>tx \<in> set txs. set (tx_nullifiers tx))" by auto
      from faithful_covers[OF run this] Inr show ?thesis by (simp add: j'_def)
    qed (simp add: j'_def)
    show "\<And>i. job_batch j' = Some i \<Longrightarrow> i \<notin> dom (proofs (nd_mempool n))"
      "\<And>i v. job_batch j' = Some i \<Longrightarrow> v \<noteq> w \<Longrightarrow> job_batch (nd_jobs n v) \<noteq> Some i"
      using N(3) j b unfolding jobs_ok_def by (metis job_batch.simps(2) option.inject)+
  qed
  then have "node_ok L A body (n\<lparr>nd_jobs := (nd_jobs n)(w := j')\<rparr>)"
    using N by (simp add: node_ok_def)
  with j show ?thesis by (simp add: step_okI j'_def)
qed (simp split: job.splits)

lemma job_finishes_step:
  assumes ok: "node_ok L A body n"
  shows "step_ok L A body (node_step L P A workers accepts n (JobFinishes w))"
proof -
  let ?m = "nd_mempool n"
  note N = node_okD[OF ok]
  note po = pool_okD[OF N(1)] and C = mempool_coreD[OF pool_okD(2)[OF N(1)]]
  note bok = linkedD(2)[OF C(1)]
  consider (proven) i pb where "nd_jobs n w = JobProven i pb" | (failed) i e where "nd_jobs n w = JobFailed i e"
    | (other) "\<forall>i pb e. nd_jobs n w \<noteq> JobProven i pb \<and> nd_jobs n w \<noteq> JobFailed i e" by blast
  then show ?thesis
  proof cases
    case proven
    have free: "i \<notin> dom (proofs ?m)" and job: "job_ok A body (JobProven i pb)"
      using N(3) proven by (metis jobs_ok_def job_batch.simps(3))+
    have pend: "pb_id pb \<in> nodes (bg_inner (mp_batches ?m)) \<Longrightarrow> pb_id pb \<in> pending (bg_inner (mp_batches ?m))"
      using free job by (auto simp: nodes_def)
    from commit_batch_core[OF po(2) pend, where ?'e = unit] obtain m' where
      c: "commit_batch ?m pb = (Ok m' () :: (mempool, unit, unit) outcome)" "mempool_core (pl_from_ids A) m' (selected ?m)"
        "mp_transactions m' = mp_transactions ?m" "mp_chain_tip m' = mp_chain_tip ?m" "mp_block_in_progress m' = mp_block_in_progress ?m" by blast
    note e = commit_batch_effect[OF c(1)]
    have sub: "proofs m' \<subseteq>\<^sub>m (proofs ?m)(i \<mapsto> pb)"
    proof -
      have "proofs ?m \<subseteq>\<^sub>m (proofs ?m)(i \<mapsto> pb)" using free by (simp add: map_le_def)
      with e(2) job show ?thesis by auto
    qed
    have dom: "dom (proofs m') \<subseteq> insert i (dom (proofs ?m))" using map_le_implies_dom_le[OF sub] by simp
    have "faithful_proof A body q" if "proofs m' l = Some q" for l q
    proof -
      have "((proofs ?m)(i \<mapsto> pb)) l = Some q" using sub that by (metis domI map_le_def)
      then show ?thesis using job po(4) by (auto split: if_splits)
    qed
    then have "pool_ok A body m'"
      using mempool_inv_same[OF po(3) c(2,4,5)] N(1) by (auto simp: pool_ok_def c(3) ran_def)
    moreover have "jobs_ok A body (dom (proofs m')) ((nd_jobs n)(w := JobIdle))"
      by (rule jobs_ok_mono[OF jobs_ok_done[OF N(3)] dom]) (simp add: proven)
    ultimately have "node_ok L A body (n\<lparr>nd_mempool := m', nd_jobs := (nd_jobs n)(w := JobIdle)\<rparr>)"
      using N(8) c e(1) by (intro node_ok_pool[OF ok]) (simp_all add: no_double_spend_def)
    with proven c(1) show ?thesis by (simp add: step_okI)
  next
    case failed
    have "i \<notin> selected ?m"
    proof
      assume "i \<in> selected ?m"
      then have "i \<in> dom (proofs ?m)" using C(2) wf_graphD(2)[OF bg_okD(1)[OF bok]] by blast
      then show False using N(3) failed by (metis jobs_ok_def job_batch.simps(4))
    qed
    from rollback_batch_core[OF po(2) this, where ?'e = unit] obtain m' where
      c: "rollback_batch ?m i = (Ok m' () :: (mempool, unit, unit) outcome)" "mempool_core (pl_from_ids A) m' (selected ?m)"
        "vertices (mp_transactions m') = vertices (mp_transactions ?m)" "mp_chain_tip m' = mp_chain_tip ?m"
        "mp_block_in_progress m' = mp_block_in_progress ?m" by blast
    note e = rollback_batch_effect[OF c(1)]
    have "pool_ok A body m'"
      using mempool_inv_same[OF po(3) c(2,4,5,3)] N(1) e map_le_ran[of "proofs m'" "proofs ?m"] unfolding pool_ok_def c(3) by blast
    moreover have "jobs_ok A body (dom (proofs m')) ((nd_jobs n)(w := JobIdle))"
      by (rule jobs_ok_set[OF jobs_ok_mono[OF N(3) map_le_implies_dom_le[OF conjunct2[OF e]]]]) simp_all
    ultimately have "node_ok L A body (n\<lparr>nd_mempool := m', nd_jobs := (nd_jobs n)(w := JobIdle)\<rparr>)"
      using N(8) c e by (intro node_ok_pool[OF ok]) (simp_all add: no_double_spend_def)
    with failed c(1) show ?thesis by (simp add: step_okI)
  qed (simp split: job.splits)
qed

section \<open>The block builder\<close>

text \<open>The same with another builder, against the same store and the same unacknowledged block.\<close>

lemma node_ok_builder:
  assumes ok: "node_ok L A body n" and pool: "pool_ok A body (nd_mempool n')"
    and same: "nd_store n' = nd_store n" "nd_jobs n' = nd_jobs n" "nd_submissions n' = nd_submissions n"
      "mp_chain_tip (nd_mempool n') = mp_chain_tip (nd_mempool n)" "retained (nd_mempool n') = retained (nd_mempool n)"
      "unacknowledged (nd_builder n') = unacknowledged (nd_builder n)"
    and less: "proofs (nd_mempool n') \<subseteq>\<^sub>m proofs (nd_mempool n)"
      "ran (vertices (mp_transactions (nd_mempool n'))) \<subseteq> ran (vertices (mp_transactions (nd_mempool n)))"
    and builder: "builder_ok A body (mp_block_in_progress (nd_mempool n')) (nd_builder n')"
  shows "node_ok L A body n'"
proof -
  note N = node_okD[OF ok]
  have "jobs_ok A body (dom (proofs (nd_mempool n'))) (nd_jobs n)"
    by (rule jobs_ok_mono[OF N(3) map_le_implies_dom_le[OF less(1)]])
  moreover have "no_double_spend (nd_mempool n') (spent_at (st_db (nd_store n))) (nd_builder n')"
    using N(8) less(2) unfolding no_double_spend_def unacknowledged_nullifiers_def same by blast
  ultimately show ?thesis
    using N pool builder unfolding node_ok_def tips_ok_def remembered_def unacknowledged_nullifiers_def same by blast
qed

lemma builder_selects_step:
  assumes ok: "node_ok L A body n"
  shows "step_ok L A body (node_step L P A workers accepts n BuilderSelects)"
proof (cases "nd_builder n = BuilderIdle")
  case True
  let ?m = "nd_mempool n"
  note N = node_okD[OF ok]
  note po = pool_okD[OF N(1)]
  have free: "mp_block_in_progress ?m = None" using N(4) True by simp
  then have core: "mempool_core (pl_from_ids A) ?m {}" using po(2) by (simp add: selected_def)
  from select_block_core[OF core free, where ?'e = unit] obtain m' batches where
    c: "mp_select_block ?m = (Ok m' (Suc (mp_chain_tip ?m), batches) :: (mempool, unit, block_number \<times> proven_batch list) outcome)"
      "mempool_core (pl_from_ids A) m' (set (map pb_id batches))" "mp_block_in_progress m' = Some (set (map pb_id batches))"
      "mp_transactions m' = mp_transactions ?m" "mp_chain_tip m' = mp_chain_tip ?m" by blast
  note e = select_block_effect[OF linkedD(2)[OF mempool_coreD(1)[OF po(2)]] c(1)]
  have "mempool_inv (pl_from_ids A) m'" using po(3) c by (simp add: mempool_inv_def selected_def unexpired_def)
  then have "pool_ok A body m'" using N(1) by (simp add: pool_ok_def e(2) c(4))
  moreover have "faithful_proof A body pb" if "pb \<in> set batches" for pb
    using e(3) that N(1) by (auto simp: pool_ok_def)
  ultimately have "node_ok L A body (n\<lparr>nd_mempool := m', nd_builder := BlockSelected batches\<rparr>)"
    using c e True by (intro node_ok_builder[OF ok]) simp_all
  with True c(1) show ?thesis by (simp add: step_okI)
qed simp

lemma builder_proves_step:
  assumes ok: "node_ok L A body n" and sound: "sound_event L A body n (BuilderProves W)"
  shows "step_ok L A body (node_step L P A workers accepts n (BuilderProves W))"
proof (cases "\<exists>batches. nd_builder n = BlockSelected batches")
  case True
  then obtain batches where b: "nd_builder n = BlockSelected batches" by blast
  note N = node_okD[OF ok]
  have S: "mp_block_in_progress (nd_mempool n) = Some (pb_id ` set batches)" "\<forall>pb \<in> set batches. faithful_proof A body pb"
    using N(4) b by simp_all
  define b' where "b' = (case prove_block L A W (nd_store n) batches of Inl e \<Rightarrow> BlockFailed e | Inr block \<Rightarrow> BlockProven block)"
  have "builder_ok A body (mp_block_in_progress (nd_mempool n)) b'"
  proof (cases "prove_block L A W (nd_store n) batches")
    case (Inr block)
    with sound b have wf: "block_wf block" and sub: "set (pb_nullifiers block) \<subseteq> (\<Union>pb \<in> set batches. set (pl_created_nullifiers A pb))"
      by auto
    have "\<exists>i \<in> pb_id ` set batches. k \<in> spends A body i" if "k \<in> set (pb_nullifiers block)" for k
      using that sub S(2) by (fastforce simp: faithful_proof_def)
    then show ?thesis using wf S(1) Inr by (simp add: b'_def)
  qed (simp add: S b'_def)
  then have "node_ok L A body (n\<lparr>nd_builder := b'\<rparr>)"
    using N(1) b by (intro node_ok_builder[OF ok]) (simp_all add: b'_def split: sum.split)
  with b show ?thesis by (simp add: step_okI b'_def)
qed (simp split: builder.splits)

subsection \<open>Applying the block\<close>

lemma spent_bounded: "chain_ok d \<Longrightarrow> spent_at d k = Some h \<Longrightarrow> h < length (db_block_headers d)"
proof -
  assume ok: "chain_ok d" and "spent_at d k = Some h"
  then have "h \<in> ur_block_num ` set (db_nullifiers d)" by (force simp: spent_at_def dest!: map_of_SomeD)
  then have "h \<in> sh_block_num ` set (db_block_headers d)" using ok by (auto simp: chain_ok_def db_ok_defs)
  with header_numbers[OF ok] show ?thesis by blast
qed

lemma unacknowledged_simps [simp]:
  "unacknowledged_nullifiers BuilderIdle = {}" "unacknowledged_nullifiers (BlockSelected bs) = {}"
  "unacknowledged_nullifiers (BlockProven block) = {}" "unacknowledged_nullifiers (BlockFailed e) = {}"
  "unacknowledged_nullifiers (BlockApplied block) = set (pb_nullifiers block)"
  by (simp_all add: unacknowledged_nullifiers_def)

lemma apply_step:
  assumes trees: "trees_ok L" and ok: "node_ok L A body n" and sound: "sound_event L A body n (ApplyBlock W reply)"
  shows "step_ok L A body (node_step L P A workers accepts n (ApplyBlock W reply))"
proof (cases "\<exists>block. nd_builder n = BlockProven block")
  case True
  then obtain block where b: "nd_builder n = BlockProven block" by blast
  let ?m = "nd_mempool n" and ?s = "nd_store n"
  note N = node_okD[OF ok]
  obtain S where wf: "block_wf block" and S: "mp_block_in_progress ?m = Some S" "\<forall>k \<in> set (pb_nullifiers block). \<exists>i \<in> S. k \<in> spends A body i"
    using N(4) b by auto
  note res = apply_block_result[OF trees N(2) wf, of P W]
  show ?thesis
  proof (cases "apply_block L P W block ?s")
    case (Err s' e)
    with res have "consistent L s'" "st_db s' = st_db ?s" by simp_all
    then have "node_ok L A body (n\<lparr>nd_store := s', nd_builder := BlockFailed (StoreApplyBlockFailed GrpcClientError)\<rparr>)"
      using N S b by (simp add: node_ok_def tips_ok_def remembered_def no_double_spend_def)
    with Err b show ?thesis by (simp add: step_okI)
  next
    case (Ok s' u)
    let ?n = "sh_block_num (pb_header block)" and ?spent = "spent_at (st_db ?s)" and ?spent' = "spent_at (st_db s')"
    let ?len = "length (db_block_headers (st_db ?s))"
    from res Ok have r: "consistent L s'" "db_block_headers (st_db s') = db_block_headers (st_db ?s) @ [pb_header block]" "?n = ?len"
      "\<And>k. ?spent' k = (if k \<in> set (pb_nullifiers block) then Some ?len else ?spent k)" by auto
    have tip: "?len = Suc (mp_chain_tip ?m)" using N(5) b by (simp add: tips_ok_def)
    have "tips_ok ?m (st_db s') (BlockApplied block)" using tip r(2,3) by (simp add: tips_ok_def)
    moreover have "remembered ?m ?spent' (BlockApplied block)"
      using N(6) b unfolding remembered_def r(4) by (auto simp: tip split: if_splits)
    moreover have "submission_ok body ?spent' (length (db_block_headers (st_db s'))) sub" if sub: "nd_submissions n k = Some sub" for k sub
    proof (cases sub)
      case (Authenticated tx inputs)
      have old: "submission_ok body ?spent ?len (Authenticated tx inputs)" using N(7)[OF sub] Authenticated by simp
      then have "spent_in_store inputs q \<or> ti_current_block_height inputs < h" if "q \<in> set (ptx_nullifiers tx)" "?spent' q = Some h" for q h
        using that by (auto simp: r(4) split: if_splits)
      with old show ?thesis by (simp add: Authenticated r(2))
    qed (use sound sub in auto)
    moreover have "no_double_spend ?m ?spent' (BlockApplied block)" using N(8) b by (auto simp: no_double_spend_def r(4))
    ultimately have "node_ok L A body (n\<lparr>nd_store := s', nd_builder := BlockApplied block\<rparr>)"
      using N(1,3) r(1) S by (simp add: node_ok_def del: submission_ok.simps)
    moreover have "reply" using sound by simp
    ultimately show ?thesis using Ok b by (simp add: step_okI)
  qed (use res in simp_all)
qed (simp split: builder.splits)

subsection \<open>Committing or rolling back\<close>

text \<open>What a batch of the block in progress spends is spent by its inflight transactions.\<close>

lemma block_spends:
  assumes inj: "inj (pl_from_ids A)" and pool: "pool_ok A body m" and S: "mp_block_in_progress m = Some S"
    and i: "i \<in> S" and k: "k \<in> spends A body i"
  shows "\<exists>t d. t \<in> txs_of (mp_batches m) S \<and> is_deltas (mp_state m) t = Some d \<and> k \<in> d_nullifiers d"
proof -
  note po = pool_okD[OF pool] and C = mempool_coreD[OF pool_okD(2)[OF pool]]
  note bok = linkedD(2)[OF C(1)]
  have "i \<in> processed (bg_inner (mp_batches m))" using C(2) S i by (simp add: selected_def)
  then have "i \<in> nodes (bg_inner (mp_batches m))" using wf_graphD(2)[OF bg_okD(1)[OF bok]] by (auto simp: nodes_def)
  then obtain ts where ts: "bg_batches (mp_batches m) i = Some ts" using bg_okD(2)[OF bok] by blast
  with C(3) obtain txs where txs: "map fst txs = ts" "pl_from_ids A txs = i" unfolding ids_ok_def by blast
  from k obtain txs' t where t: "pl_from_ids A txs' = i" "t \<in> fst ` set txs'" "k \<in> set (ptx_nullifiers (body t))"
    by (auto simp: spends_def)
  have "txs' = txs" using inj t(1) txs(2) by (auto dest: injD)
  with t(2) have "t \<in> set ts" by (simp only: txs(1)[symmetric] set_map)
  then have tb: "bg_transactions (mp_batches m) t = Some i" using bg_okD(3)[OF bok] ts by blast
  then have "t \<in> processed (mp_transactions m)" using linkedD(3)[OF C(1)] by blast
  then obtain tx where tx: "vertices (mp_transactions m) t = Some tx" using linked_dom[OF C(1)] by blast
  have "tx_id tx = t" using tg_okD(3)[OF linkedD(1)[OF C(1)]] tx by blast
  with po(5)[OF tx] t(3) have "k \<in> d_nullifiers (delta_new tx)" by (simp add: delta_new_def tx_nullifiers_def)
  moreover have "is_deltas (mp_state m) t = Some (delta_new tx)" using trackingD(2)[OF C(4)] tx by simp
  moreover have "t \<in> txs_of (mp_batches m) S" using tb i by (auto simp: txs_of_def)
  ultimately show ?thesis by blast
qed

lemma nth_retained:
  assumes "c \<le> 1" and "Suc tip < h + (length R + 1 - c)" and "h \<le> Suc tip" and "c \<le> length R + 1"
  shows "drop c (R @ [x]) ! (h + length (drop c (R @ [x])) - Suc (Suc tip)) = (if h \<le> tip then R ! (h + length R - Suc tip) else x)"
proof -
  have "drop c (R @ [x]) ! (h + length (drop c (R @ [x])) - Suc (Suc tip)) = (R @ [x]) ! (h + length R - Suc tip)"
    using assms by (subst nth_drop) (auto intro: arg_cong[where f = "\<lambda>i. (R @ [x]) ! i"])
  with assms show ?thesis by (auto simp: nth_append)
qed

lemma remembered_commit:
  assumes rem: "remembered m spent (BlockApplied block)" and bound: "\<And>k h. spent k = Some h \<Longrightarrow> h \<le> Suc (mp_chain_tip m)"
    and new: "\<And>k. k \<in> set (pb_nullifiers block) \<Longrightarrow> \<exists>d \<in> snd ` set newest. k \<in> d_nullifiers d"
    and m': "mp_chain_tip m' = Suc (mp_chain_tip m)" "retained m' = drop c (retained m @ [newest])" "c \<le> 1"
  shows "remembered m' spent BuilderIdle"
  unfolding remembered_def m'(1,2)
proof (intro conjI allI impI)
  fix k h assume k: "spent k = Some h"
  show "k \<in> unacknowledged_nullifiers BuilderIdle" if "Suc (mp_chain_tip m) < h" using bound[OF k] that by simp
  let ?R = "drop c (retained m @ [newest])"
  assume h: "h \<le> Suc (mp_chain_tip m)" and near: "Suc (mp_chain_tip m) < h + length ?R"
  have near': "Suc (mp_chain_tip m) < h + (length (retained m) + 1 - c)" using near by simp
  have nth: "?R ! (h + length ?R - Suc (Suc (mp_chain_tip m))) =
      (if h \<le> mp_chain_tip m then retained m ! (h + length (retained m) - Suc (mp_chain_tip m)) else newest)"
    using m'(3) by (intro nth_retained[OF m'(3) near' h]) simp
  show "\<exists>d \<in> snd ` set (?R ! (h + length ?R - Suc (Suc (mp_chain_tip m)))). k \<in> d_nullifiers d"
  proof (cases "h \<le> mp_chain_tip m")
    case True
    have "mp_chain_tip m < h + length (retained m)" using near' by linarith
    from conjunct2[OF rem[unfolded remembered_def], rule_format, OF k True this] True show ?thesis unfolding nth by simp
  next
    case False
    then have "k \<in> set (pb_nullifiers block)" using rem k by (auto simp: remembered_def)
    with new False show ?thesis unfolding nth by simp
  qed
qed

lemma finish_commit:
  assumes inj: "inj (pl_from_ids A)" and ok: "node_ok L A body n" and b: "nd_builder n = BlockApplied block"
  shows "step_ok L A body (node_step L P A workers accepts n BuilderFinishes)"
proof -
  let ?m = "nd_mempool n" and ?spent = "spent_at (st_db (nd_store n))"
  note N = node_okD[OF ok]
  note po = pool_okD[OF N(1)] and C = mempool_coreD[OF pool_okD(2)[OF N(1)]]
  obtain S where S: "mp_block_in_progress ?m = Some S" and cover: "\<forall>k \<in> set (pb_nullifiers block). \<exists>i \<in> S. k \<in> spends A body i"
    using N(4) b by auto
  let ?T = "txs_of (mp_batches ?m) S" and ?header = "\<lparr>bh_block_num = sh_block_num (pb_header block)\<rparr>"
  have tips: "Suc (Suc (mp_chain_tip ?m)) = length (db_block_headers (st_db (nd_store n)))"
    "bh_block_num ?header = Suc (mp_chain_tip ?m)" using N(5) b by (simp_all add: tips_ok_def)
  from commit_block_core[OF po(1) S tips(2), where accepts = accepts and ?'e = unit] obtain m' R where
    c: "commit_block accepts ?m ?header = (Ok m' () :: (mempool, unit, unit) outcome)" "mempool_inv (pl_from_ids A) m'"
      "mp_chain_tip m' = Suc (mp_chain_tip ?m)" "mp_block_in_progress m' = None"
      "vertices (mp_transactions m') = vertices (mp_transactions ?m) |` (- (?T \<union> R))" by blast
  note e = commit_block_effect[OF po(1) S c(1)]
  from e(2) obtain newest where newest: "set newest = {(t, d). t \<in> ?T \<and> is_deltas (mp_state ?m) t = Some d}"
    "retained m' = drop (if length (retained ?m) < is_num_retained (mp_state ?m) then 0 else 1) (retained ?m @ [newest])" by blast
  have spender: "\<exists>t d. t \<in> ?T \<and> is_deltas (mp_state ?m) t = Some d \<and> k \<in> d_nullifiers d" if "k \<in> set (pb_nullifiers block)" for k
    using block_spends[OF inj N(1) S] cover that by blast
  have "ran (vertices (mp_transactions m')) \<subseteq> ran (vertices (mp_transactions ?m))" unfolding c(5) by (rule ran_restrict_subset)
  then have pool: "pool_ok A body m'"
    using N(1) c(2) map_le_ran[OF e(1)] unfolding pool_ok_def by blast
  have "chain_ok (st_db (nd_store n))" using N(2) by (simp add: consistent_def)
  then have bound: "h \<le> Suc (mp_chain_tip ?m)" if "?spent k = Some h" for k h using spent_bounded that tips(1) by fastforce
  have rem: "remembered ?m ?spent (BlockApplied block)" using N(6) b by simp
  have "remembered m' ?spent BuilderIdle"
    by (rule remembered_commit[OF rem bound _ c(3) newest(2)]) (use spender newest(1) in \<open>force+\<close>)
  moreover have "no_double_spend m' ?spent BuilderIdle"
    unfolding no_double_spend_def
  proof (intro ballI disjI1)
    fix tx k assume "tx \<in> ran (vertices (mp_transactions m'))" and k: "k \<in> set (tx_nullifiers tx)"
    then obtain t where t: "vertices (mp_transactions ?m) t = Some tx" "t \<notin> ?T"
      by (auto simp: c(5) ran_def restrict_map_def split: if_splits)
    have "k \<notin> set (pb_nullifiers block)"
    proof
      assume "k \<in> set (pb_nullifiers block)"
      then obtain u d where u: "u \<in> ?T" "is_deltas (mp_state ?m) u = Some d" "k \<in> d_nullifiers d" using spender by blast
      have d: "is_deltas (mp_state ?m) t = Some (delta_new tx)" using trackingD(2)[OF C(4)] t(1) by simp
      have "exclusive d_nullifiers (is_deltas (mp_state ?m)) (committed_deltas (mp_state ?m))"
        using trackingD(11)[OF C(4)] by (simp add: core_inv_def)
      moreover have "u \<noteq> t" using u(1) t(2) by blast
      ultimately have "d_nullifiers d \<inter> d_nullifiers (delta_new tx) = {}" using u(2) d unfolding exclusive_def by blast
      with u(3) k show False by (auto simp: delta_new_def)
    qed
    then show "?spent k = None" using N(8) b t(1) k by (auto simp: no_double_spend_def ran_def)
  qed
  moreover have "jobs_ok A body (dom (proofs m')) (nd_jobs n)"
    by (rule jobs_ok_mono[OF N(3) map_le_implies_dom_le[OF e(1)]])
  ultimately have "node_ok L A body (n\<lparr>nd_mempool := m', nd_builder := BuilderIdle\<rparr>)"
    using N(2,7) pool c(3,4) tips(1) by (simp add: node_ok_def tips_ok_def del: submission_ok.simps)
  with b c(1) show ?thesis by (simp add: step_okI)
qed

lemma finish_rollback:
  assumes ok: "node_ok L A body n" and b: "nd_builder n = BlockFailed e"
  shows "step_ok L A body (node_step L P A workers accepts n BuilderFinishes)"
proof -
  let ?m = "nd_mempool n"
  note N = node_okD[OF ok]
  obtain S where S: "mp_block_in_progress ?m = Some S" using N(4) b by auto
  from rollback_block_core[OF pool_okD(1)[OF N(1)] S, where accepts = accepts and ?'e = unit] obtain m' R where
    c: "rollback_block accepts ?m = (Ok m' () :: (mempool, unit, unit) outcome)" "mempool_inv (pl_from_ids A) m'"
      "mp_chain_tip m' = mp_chain_tip ?m" "mp_block_in_progress m' = None"
      "vertices (mp_transactions m') = vertices (mp_transactions ?m) |` (- R)" by blast
  note e = rollback_block_effect[OF c(1)]
  have ran: "ran (vertices (mp_transactions m')) \<subseteq> ran (vertices (mp_transactions ?m))" unfolding c(5) by (rule ran_restrict_subset)
  then have "pool_ok A body m'"
    using N(1) c(2) map_le_ran[OF conjunct2[OF e]] unfolding pool_ok_def by blast
  then have "node_ok L A body (n\<lparr>nd_mempool := m', nd_builder := BuilderIdle\<rparr>)"
    using c e ran b by (intro node_ok_builder[OF ok]) simp_all
  with b c(1) show ?thesis by (simp add: step_okI)
qed

section \<open>Every step\<close>

lemma node_step_ok:
  assumes "trees_ok L" and "inj (pl_from_ids A)" and "node_ok L A body n" and "sound_event L A body n ev"
  shows "step_ok L A body (node_step L P A workers accepts n ev)"
proof (cases ev)
  case BuilderFinishes
  show ?thesis
  proof (cases "nd_builder n")
    case (BlockApplied block)
    with finish_commit[OF assms(2,3)] BuilderFinishes show ?thesis by blast
  next
    case (BlockFailed e)
    with finish_rollback[OF assms(3)] BuilderFinishes show ?thesis by blast
  qed (simp_all add: BuilderFinishes)
qed (use assms in \<open>simp_all only: fetch_step read_height_step submit_step subscribe_step job_selects_step job_proves_step job_finishes_step
    builder_selects_step builder_proves_step apply_step\<close>)

lemma serve_ok:
  assumes "consistent L s" and "retention < 2 ^ 32" and serve: "serve bb kb retention slack s = Some n"
  shows "node_ok L A body n"
proof -
  let ?d = "st_db s"
  have chain: "chain_ok ?d" using assms(1) by (simp add: consistent_def)
  obtain h where len: "length (db_block_headers ?d) = Suc h"
    using chain by (cases "db_block_headers ?d") (simp_all add: chain_ok_def)
  let ?m = "mempool_new h bb kb retention slack"
  from serve chain_tip_header[OF chain] have n: "n = \<lparr>nd_mempool = ?m, nd_store = s,
      nd_builder = BuilderIdle, nd_jobs = (\<lambda>_. JobIdle), nd_submissions = (\<lambda>_. None)\<rparr>" by (simp add: serve_def len)
  have m: "proofs ?m = Map.empty" "vertices (mp_transactions ?m) = Map.empty" "retained ?m = []" "mp_block_in_progress ?m = None"
    "mp_chain_tip ?m = h" by (simp_all add: mempool_new_def graph_default_def bg_default_def inflight_new_def)
  have "pool_ok A body ?m" by (simp add: pool_ok_def m mempool_new_inv[OF assms(2)])
  moreover have "remembered ?m (spent_at ?d) BuilderIdle"
    using spent_bounded[OF chain] by (fastforce simp: remembered_def m len)
  ultimately show ?thesis
    using assms(1) by (simp add: n node_ok_def m jobs_ok_def tips_ok_def no_double_spend_def len)
qed

text \<open>The interface of runs, on the node.\<close>

interpretation node_runs: run_invariant "node_next L P A workers" "sound_event L A body"
    "\<lambda>n. trees_ok L \<and> inj (pl_from_ids A) \<and> node_ok L A body n" for L P A workers body
proof (unfold_locales, elim conjE)
  fix n ev n'
  assume ok: "trees_ok L" "inj (pl_from_ids A)" "node_ok L A body n" and ev: "sound_event L A body n ev"
    and "node_next L P A workers n ev n'"
  then obtain accepts where "node_step L P A workers accepts n ev = Ok n' ()" by (auto simp: node_next_def)
  with node_step_ok[OF ok ev, of P workers accepts] have "node_ok L A body n'" by (simp add: step_ok_def)
  with ok show "trees_ok L \<and> inj (pl_from_ids A) \<and> node_ok L A body n'" by blast
qed

end
