(* ===== verification/Block_Production_Properties.thy ===== *)
theory Block_Production_Properties
  imports Block_Production_Safety Store_Instance
begin

text \<open>
  What the block producer and the store guarantee together (crates/block-producer/src: server/mod.rs,
  batch_builder/mod.rs, block_builder/mod.rs; crates/store/src/server/block_producer.rs).
\<close>

section \<open>A sample run\<close>

text \<open>A library of injective identifiers, and a node over the sample store that accepts a transaction.\<close>

definition sample_producer :: producer_lib where
  "sample_producer =
     \<lparr>pl_from_ids = sample_hash, pl_account_ident = (\<lambda>a. \<lparr>ident_key = a, ident_prefix = 0, ident_is_network = False\<rparr>),
      pl_input_headers = (\<lambda>pb. []), pl_reference_block = (\<lambda>pb. 2), pl_updated_accounts = (\<lambda>pb. []),
      pl_created_nullifiers = (\<lambda>pb. []), pl_block_security = (\<lambda>block. 96), pl_min_security = 96\<rparr>"

definition sample_body :: "transaction_id \<Rightarrow> proven_tx" where
  "sample_body t = (tx_inner sample_first)\<lparr>ptx_id := t\<rparr>"

type_synonym sample_node = "((nullifier \<times> block_number) list, (account_ident \<times> digest) list, digest list) node"

definition sample_node0 :: sample_node where
  "sample_node0 = \<lparr>nd_mempool = mempool_new 2 (batch_budget_default 10 10 8) block_budget_default server_mempool_state_retention
      server_mempool_expiration_slack, nd_store = sample_store, nd_builder = BuilderIdle, nd_jobs = (\<lambda>_. JobIdle),
      nd_submissions = (\<lambda>_. None)\<rparr>"

definition sample_inputs :: store_tx_inputs where
  "sample_inputs = \<lparr>si_account_commitment = 0, si_nullifiers = [\<lparr>ni_nullifier = 9, ni_block_num = 0\<rparr>], si_found_unauthenticated_notes = {}\<rparr>"

definition sample_auth :: auth_tx where
  "sample_auth = \<lparr>tx_inner = sample_body 1, tx_store_account_state = None, tx_notes_authenticated_by_store = {}, tx_authentication_height = 2\<rparr>"

definition sample_pool :: mempool where
  "sample_pool = (case add_transaction accept_all (nd_mempool sample_node0) sample_auth of Ok m _ \<Rightarrow> m | _ \<Rightarrow> nd_mempool sample_node0)"

definition sample_node1 :: sample_node where
  "sample_node1 = sample_node0\<lparr>nd_submissions := [0 \<mapsto> Fetched (sample_body 1) sample_inputs]\<rparr>"

definition sample_node2 :: sample_node where
  "sample_node2 = sample_node0\<lparr>nd_submissions := [0 \<mapsto> Authenticated (sample_body 1) (transaction_inputs_from (sample_body 1) sample_inputs 2)]\<rparr>"

definition sample_node3 :: sample_node where
  "sample_node3 = sample_node0\<lparr>nd_mempool := sample_pool\<rparr>"

lemma sample_serve:
  "serve (batch_budget_default 10 10 8) block_budget_default server_mempool_state_retention server_mempool_expiration_slack sample_store
     = Some sample_node0"
proof -
  have "chain_ok sample_db" using sample_consistent by (simp add: consistent_def) (simp add: sample_store_def)
  then have "map_option sh_block_num (select_block_header_by_block_num (st_db sample_store) None) = Some 2"
    by (simp add: chain_tip_header sample_store_def) (simp add: sample_db_def sample_header_def)
  then show ?thesis by (auto simp: serve_def sample_node0_def)
qed

lemma sample_fetched: "fetch_tx_inputs sample_trees sample_producer sample_store (sample_body 1) = Inr sample_inputs"
  by code_simp

lemma sample_height: "latest_block_num sample_trees (st_inner sample_store) = Some 2"
  by code_simp

lemma sample_authenticated: "auth_tx_new (sample_body 1) (transaction_inputs_from (sample_body 1) sample_inputs 2) = Inr sample_auth"
  by code_simp

lemma sample_added: "case add_transaction accept_all (nd_mempool sample_node0) sample_auth of Ok m h \<Rightarrow> h = 2 \<and> contains_key (vertices (mp_transactions m)) 1 | _ \<Rightarrow> False"
  by code_simp

lemma sample_counter: "next_index (sp_inflight_txs (mp_subscription (nd_mempool sample_node0))) < 2 ^ 64"
  by code_simp

abbreviation sample_next :: "sample_node \<Rightarrow> (block_number set, nat, unit, unit) node_event \<Rightarrow> sample_node \<Rightarrow> bool" where
  "sample_next \<equiv> node_next sample_trees sample_params sample_producer 2"

abbreviation sample_sound :: "sample_node \<Rightarrow> (block_number set, nat, unit, unit) node_event \<Rightarrow> bool" where
  "sample_sound \<equiv> sound_event sample_trees sample_producer sample_body"

lemma sample_steps:
  "sample_next sample_node0 (FetchInputs 0 (sample_body 1)) sample_node1" "sample_next sample_node1 (ReadHeight 0) sample_node2"
  "sample_next sample_node2 (SubmitTx 0) sample_node3"
proof -
  have n0: "nd_submissions sample_node0 = Map.empty" "nd_store sample_node0 = sample_store" by (simp_all add: sample_node0_def)
  show "sample_next sample_node0 (FetchInputs 0 (sample_body 1)) sample_node1"
    by (simp add: node_next_def n0 sample_fetched sample_node1_def del: One_nat_def)
  show "sample_next sample_node1 (ReadHeight 0) sample_node2"
    by (simp add: node_next_def n0 sample_node1_def sample_node2_def sample_height)
  obtain m h where m: "add_transaction accept_all (nd_mempool sample_node0) sample_auth = Ok m h"
    using sample_added by (cases "add_transaction accept_all (nd_mempool sample_node0) sample_auth") auto
  have pool: "sample_pool = m" by (simp add: sample_pool_def m)
  have n2: "nd_mempool sample_node2 = nd_mempool sample_node0"
    "nd_submissions sample_node2 0 = Some (Authenticated (sample_body 1) (transaction_inputs_from (sample_body 1) sample_inputs 2))"
    by (simp_all add: sample_node2_def)
  have "sample_node2\<lparr>nd_mempool := m, nd_submissions := (nd_submissions sample_node2)(0 := None)\<rparr> = sample_node3"
    by (simp add: sample_node3_def sample_node2_def pool) (simp add: sample_node0_def)
  then have "node_step sample_trees sample_params sample_producer 2 accept_all sample_node2 (SubmitTx 0 :: (block_number set, nat, unit, unit) node_event)
      = Ok sample_node3 ()"
    by (simp add: n2 sample_authenticated m del: One_nat_def)
  then show "sample_next sample_node2 (SubmitTx 0) sample_node3" unfolding node_next_def by blast
qed

lemma sample_run: "guarded_run sample_next sample_sound sample_node0 sample_node3"
proof -
  note extend = guarded_run.extend[where steps = sample_next and ok = sample_sound]
  have "guarded_run sample_next sample_sound sample_node0 sample_node1"
    by (rule extend[OF guarded_run.stay _ sample_steps(1)]) (simp add: sample_body_def sample_first_def sample_tx_def)
  then have "guarded_run sample_next sample_sound sample_node0 sample_node2"
    by (rule extend[OF _ _ sample_steps(2)]) simp
  then show ?thesis
    by (rule extend[OF _ _ sample_steps(3)]) (use sample_counter in \<open>simp add: sample_node2_def\<close>)
qed

lemma sample_inj: "inj (pl_from_ids sample_producer)"
  using inj_sample_hash by (simp add: sample_producer_def)

section \<open>Safety\<close>

lemma run_node_ok:
  assumes "trees_ok L" "inj (pl_from_ids A)" "consistent L s" "retention < 2 ^ 32" "serve bb kb retention slack s = Some n0"
    and "guarded_run (node_next L P A workers) (sound_event L A body) n0 n"
  shows "node_ok L A body n"
proof -
  from serve_ok[OF assms(3,4,5)] have "trees_ok L \<and> inj (pl_from_ids A) \<and> node_ok L A body n0" using assms(1,2) by blast
  from node_runs.reached[OF assms(6) this] show ?thesis by blast
qed





end
