(* ===== verification/Block_Production_Lag.thy ===== *)
theory Block_Production_Lag
  imports Block_Production_Properties
begin

text \<open>
  What the block producer does when a condition of its safety fails: a reply of \<open>apply_block\<close> that is
  lost, a block applied between the two reads of \<open>get_transaction_inputs\<close>, a store that cannot be
  reached at startup, a batch that is selected again.
\<close>

section \<open>Who moves the mempool's chain tip\<close>

text \<open>No invariant is needed here: these facts hold in any state of the mempool.\<close>

lemma and_then_eq_Err: "and_then r f = Err s e \<longleftrightarrow> r = Err s e \<or> (\<exists>s1 a. r = Ok s1 a \<and> f s1 a = Err s e)"
  by (cases r) auto

lemma in_field_eq_Err: "in_field put r = Err t e \<longleftrightarrow> (\<exists>s. r = Err s e \<and> t = put s)"
  by (cases r) auto

lemma expect_no_Err: "expect r \<noteq> Err s e"
  by (cases r) auto

lemmas run_Err = and_then_eq_Err in_field_eq_Err expect_no_Err

definition keeps_tip :: "mempool \<Rightarrow> (mempool, 'e, 'x) outcome \<Rightarrow> bool" where
  "keeps_tip m r \<longleftrightarrow> (\<forall>m' x. r = Ok m' x \<longrightarrow> mp_chain_tip m' = mp_chain_tip m) \<and> (\<forall>m' e. r = Err m' e \<longrightarrow> mp_chain_tip m' = mp_chain_tip m)"

lemma revert_tip: "revert_transactions accepts m txs = Ok m' R \<Longrightarrow> mp_chain_tip m' = mp_chain_tip m"
  by (auto simp: revert_transactions_def Let_def outcome_Ok_iffs)

lemma calls_keep_tip:
  "keeps_tip m (add_transaction accepts m tx)" "keeps_tip m (mp_select_batch from_ids m)" "keeps_tip m (rollback_batch m b)"
  "keeps_tip m (commit_batch m batch)" "keeps_tip m (mp_select_block m)" "keeps_tip m (rollback_block accepts m)"
  "keeps_tip m (mp_subscribe accepts m tip)"
  by (auto simp: keeps_tip_def add_transaction_def mp_select_batch_def rollback_batch_def commit_batch_def mp_select_block_def
      rollback_block_def mp_subscribe_def Let_def outcome_Ok_iffs run_Err split: if_splits option.splits prod.splits dest: revert_tip)

lemma commit_parts_no_Err:
  "expirations_remove e ts \<noteq> Err e' x" "events_remove_all t txs \<noteq> Err t' x" "commit_all s ts b \<noteq> Err s' x" "prune_deltas s ds \<noteq> Err s' x"
proof -
  show "expirations_remove e ts \<noteq> Err e' x"
    by (induction ts arbitrary: e) (auto simp: run_Err expirations_remove_one_def split: option.splits if_splits)
  show "events_remove_all t txs \<noteq> Err t' x"
    by (induction txs arbitrary: t) (auto simp: run_Err events_remove_def split: option.splits)
  show "commit_all s ts b \<noteq> Err s' x"
    by (induction ts arbitrary: s b) (auto simp: run_Err commit_one_def account_commit_def split: option.splits outcome.splits if_splits)
  show "prune_deltas s ds \<noteq> Err s' x"
    by (induction ds arbitrary: s) (auto simp: run_Err prune_delta_def account_prune_committed_def Let_def split: option.splits outcome.splits if_splits)
qed

lemma commit_block_tip:
  "commit_block accepts m header = Ok m' u \<Longrightarrow> mp_chain_tip m' = Suc (mp_chain_tip m)" "commit_block accepts m header \<noteq> Err m' e"
  by (auto simp: commit_block_def revert_expired_transactions_def inflight_commit_block_def prune_block_def block_committed_def
      Let_def outcome_Ok_iffs run_Err commit_parts_no_Err split: option.splits if_splits list.splits dest: revert_tip)

section \<open>A lost reply\<close>

text \<open>
  How many blocks of the store the mempool will never hear of: the store's blocks beyond the mempool's
  tip, the one being committed left out.
\<close>

definition lag :: "('n, 'a, 'm) node \<Rightarrow> int" where
  "lag n = int (length (db_block_headers (st_db (nd_store n)))) - int (Suc (mp_chain_tip (nd_mempool n) + length (unacknowledged (nd_builder n))))"

definition reply_lost :: "('n, 'a, 'm) node \<Rightarrow> ('p, 'w, 'q, 'r) node_event \<Rightarrow> ('n, 'a, 'm) node \<Rightarrow> bool" where
  "reply_lost n ev n' \<longleftrightarrow> (\<exists>W. ev = ApplyBlock W False) \<and> st_db (nd_store n') \<noteq> st_db (nd_store n)"

lemma apply_block_db:
  "apply_block L P W block s = Ok s' u \<Longrightarrow> length (db_block_headers (st_db s')) = Suc (length (db_block_headers (st_db s)))"
  "apply_block L P W block s = Err s' e \<Longrightarrow> st_db s' = st_db s"
proof -
  assume "apply_block L P W block s = Ok s' u"
  then obtain nts k where "write_block P block nts (st_db s) = Inr (st_db s', k)"
    by (auto simp: apply_block_def finish_block_def split: if_splits sum.splits option.splits prod.splits)
  then show "length (db_block_headers (st_db s')) = Suc (length (db_block_headers (st_db s)))"
    unfolding write_block_def by (simp add: sql_apply_block_effect(1))
next
  assume "apply_block L P W block s = Err s' e"
  then show "st_db s' = st_db s"
    by (auto simp: apply_block_def finish_block_def split: if_splits sum.splits option.splits prod.splits)
qed

lemma call_keeps_tip:
  assumes "call_mempool r f = Ok n' ()" and "keeps_tip m r"
  shows "\<exists>m' x. n' = f m' x \<and> mp_chain_tip m' = mp_chain_tip m"
  using assms by (cases r) (auto simp: keeps_tip_def)

lemma lag_same:
  "mp_chain_tip (nd_mempool n') = mp_chain_tip (nd_mempool n) \<Longrightarrow> nd_store n' = nd_store n \<Longrightarrow>
     unacknowledged (nd_builder n') = unacknowledged (nd_builder n) \<Longrightarrow> lag n' = lag n"
  by (simp add: lag_def)

text \<open>Every event but the last two of the builder.\<close>

lemma lag_other:
  assumes "node_step L P A workers accepts n ev = Ok n' ()" and "\<forall>W r. ev \<noteq> ApplyBlock W r" and "ev \<noteq> BuilderFinishes"
  shows "lag n' = lag n"
proof (cases ev)
  case (SubmitTx k)
  with assms(1) show ?thesis
    by (fastforce split: option.splits submission.splits sum.splits dest: call_keeps_tip[OF _ calls_keep_tip(1)] intro: lag_same)
next
  case (SubscribeEvents tip)
  with assms(1) show ?thesis by (auto dest!: call_keeps_tip[OF _ calls_keep_tip(7)] intro: lag_same)
next
  case (JobSelects w)
  with assms(1) show ?thesis by (auto split: if_splits dest!: call_keeps_tip[OF _ calls_keep_tip(2)] intro: lag_same)
next
  case (JobFinishes w)
  with assms(1) show ?thesis
    by (auto split: job.splits dest!: call_keeps_tip[OF _ calls_keep_tip(3)] call_keeps_tip[OF _ calls_keep_tip(4)] intro: lag_same)
next
  case BuilderSelects
  with assms(1) show ?thesis
    by (auto split: if_splits option.splits dest!: call_keeps_tip[OF _ calls_keep_tip(5)] intro: lag_same)
qed (use assms in \<open>auto split: option.splits sum.splits submission.splits job.splits builder.splits intro: lag_same\<close>)

lemma lag_finishes:
  assumes "node_step L P A workers accepts n BuilderFinishes = Ok n' ()"
  shows "lag n' = lag n"
proof (cases "nd_builder n")
  case (BlockApplied block)
  let ?r = "commit_block accepts (nd_mempool n) \<lparr>bh_block_num = sh_block_num (pb_header block)\<rparr> :: (mempool, unit, unit) outcome"
  show ?thesis
  proof (cases ?r)
    case (Ok m u)
    with assms BlockApplied commit_block_tip(1)[OF Ok] show ?thesis by (auto simp: lag_def)
  next
    case (Err m e)
    then show ?thesis by (simp add: commit_block_tip(2))
  qed (use assms BlockApplied in simp_all)
next
  case (BlockFailed e)
  with assms show ?thesis by (auto dest!: call_keeps_tip[OF _ calls_keep_tip(6)] intro: lag_same)
qed (use assms in simp_all)

text \<open>
  C10. Every step of the node, in any state, leaves the lag of the mempool behind the store as it is,
  except a block that the store applies while its reply to the builder is lost: then the builder rolls
  the block back, and the lag grows by one. No step reduces it, so the mempool never catches up: its
  chain tip, and with it the expirations, the age of inputs it accepts and the heights it reports stay
  wrong until the block producer restarts.
\<close>

theorem lag_grows_with_lost_replies:
  assumes "node_step L P A workers accepts n ev = Ok n' ()"
  shows "lag n' = lag n + of_bool (reply_lost n ev n')"
proof (cases ev)
  case (ApplyBlock W reply)
  then obtain block where b: "nd_builder n = BlockProven block" using assms by (auto split: builder.splits)
  show ?thesis
  proof (cases "apply_block L P W block (nd_store n)")
    case (Ok s u)
    note len = apply_block_db(1)[OF Ok]
    then have "st_db s \<noteq> st_db (nd_store n)" by auto
    with assms ApplyBlock b Ok len show ?thesis by (auto simp: lag_def reply_lost_def split: if_splits)
  next
    case (Err s e)
    with assms ApplyBlock b apply_block_db(2)[OF Err] show ?thesis by (auto simp: lag_def reply_lost_def)
  qed (use assms ApplyBlock b in simp_all)
next
  case BuilderFinishes
  with assms lag_finishes show ?thesis by (auto simp: reply_lost_def)
qed (use lag_other[OF assms] in \<open>auto simp: reply_lost_def\<close>)

text \<open>The next block of the sample store, applied without a reply: the store has it and the builder takes it for failed.\<close>

definition lost_node :: sample_node where
  "lost_node = sample_node0\<lparr>nd_builder := BlockProven next_block\<rparr>"

theorem lag_grows_with_lost_replies_witness:
  "\<exists>n'. node_step sample_trees sample_params sample_producer 2 accept_all lost_node
       (ApplyBlock calm_world False :: (block_number set, nat, unit, unit) node_event) = Ok n' ()
     \<and> nd_builder n' = BlockFailed (StoreApplyBlockFailed GrpcClientError) \<and> lag lost_node = 0 \<and> lag n' = 1"
proof -
  let ?ev = "ApplyBlock calm_world False :: (block_number set, nat, unit, unit) node_event"
  obtain s where s: "apply_block sample_trees sample_params calm_world next_block sample_store = Ok s ()"
    using next_block_applies by (cases "apply_block sample_trees sample_params calm_world next_block sample_store") auto
  let ?n' = "lost_node\<lparr>nd_store := s, nd_builder := BlockFailed (StoreApplyBlockFailed GrpcClientError)\<rparr>"
  have step: "node_step sample_trees sample_params sample_producer 2 accept_all lost_node ?ev = Ok ?n' ()"
    by (simp add: lost_node_def sample_node0_def s)
  have lost: "reply_lost lost_node ?ev ?n'"
    using apply_block_db(1)[OF s] by (auto simp: reply_lost_def lost_node_def sample_node0_def)
  have "lag lost_node = 0" by (simp add: lag_def lost_node_def sample_node0_def mempool_new_def sample_store_def sample_db_def)
  with lag_grows_with_lost_replies[OF step] step lost show ?thesis by auto
qed

section \<open>A block between the two reads\<close>

text \<open>
  \<open>get_transaction_inputs\<close> reads the inputs before a block is applied and the height after it: the
  transaction spends what the block has spent, is authenticated all the same, and claims to be as recent
  as the block.  The mempool's retained blocks then reach one block less far than they should.
\<close>

definition race_tx :: proven_tx where
  "race_tx = (sample_body 1)\<lparr>ptx_nullifiers := [32]\<rparr>"

lemma read_between_blocks:
  "\<exists>n1 n2 n3 inputs. sample_next lost_node (FetchInputs 0 race_tx) n1 \<and> sample_next n1 (ApplyBlock calm_world True) n2
     \<and> sample_next n2 (ReadHeight 0) n3 \<and> nd_submissions n3 0 = Some (Authenticated race_tx inputs)
     \<and> spent_at (st_db (nd_store n3)) 32 = Some 3 \<and> ti_current_block_height inputs = 3
     \<and> (\<exists>a. auth_tx_new race_tx inputs = Inr a \<and> 32 \<in> set (tx_nullifiers a) \<and> tx_authentication_height a = 3)"
proof -
  let ?si = "\<lparr>si_account_commitment = 0, si_nullifiers = [\<lparr>ni_nullifier = 32, ni_block_num = 0\<rparr>], si_found_unauthenticated_notes = {}\<rparr>"
  have si: "fetch_tx_inputs sample_trees sample_producer sample_store race_tx = Inr ?si" by code_simp
  obtain s where s: "apply_block sample_trees sample_params calm_world next_block sample_store = Ok s ()"
    using next_block_applies by (cases "apply_block sample_trees sample_params calm_world next_block sample_store") auto
  note res = apply_block_result[OF sample_trees_ok sample_consistent next_block_wf, of sample_params calm_world, unfolded s outcome.case]
  have hdr: "sh_block_num (pb_header next_block) = 3" "pb_nullifiers next_block = [32]" by (simp_all add: next_block_def sample_header_def)
  have spent: "spent_at (st_db s) 32 = Some 3" using res hdr by simp
  have "length (db_block_headers (st_db s)) = 4" using res by (simp add: sample_store_def sample_db_def)
  then have tip: "latest_block_num sample_trees (st_inner s) = Some 3" using latest_is_tip[OF sample_trees_ok] res by simp
  let ?n1 = "lost_node\<lparr>nd_submissions := [0 \<mapsto> Fetched race_tx ?si]\<rparr>"
  let ?n2 = "?n1\<lparr>nd_store := s, nd_builder := BlockApplied next_block\<rparr>"
  let ?in = "transaction_inputs_from race_tx ?si 3"
  let ?n3 = "?n2\<lparr>nd_submissions := [0 \<mapsto> Authenticated race_tx ?in]\<rparr>"
  have "sample_next lost_node (FetchInputs 0 race_tx) ?n1"
    by (simp add: node_next_def lost_node_def si) (simp add: sample_node0_def si)
  moreover have "sample_next ?n1 (ApplyBlock calm_world True) ?n2"
    by (simp add: node_next_def lost_node_def) (simp add: sample_node0_def s)
  moreover have "sample_next ?n2 (ReadHeight 0) ?n3" by (simp add: node_next_def tip)
  moreover have "case auth_tx_new race_tx ?in of Inr a \<Rightarrow> 32 \<in> set (tx_nullifiers a) \<and> tx_authentication_height a = 3 | Inl e \<Rightarrow> False"
    by code_simp
  moreover have "ti_current_block_height ?in = 3" by (simp add: transaction_inputs_from_def)
  ultimately show ?thesis
    using spent by (intro exI[of _ ?n1] exI[of _ ?n2] exI[of _ ?n3] exI[of _ ?in]) (auto split: sum.splits)
qed

section \<open>Starting without a store\<close>

text \<open>
  The store out of reach for 33 attempts: a build with overflow checks panics, another starts its delay
  over at half a second.
\<close>

lemma startup_overflows:
  "fetch_chain_tip True (replicate 33 (Inl GrpcClientError)) = RetryPanics"
  "case fetch_chain_tip False (replicate 33 (Inl GrpcClientError)) of Retrying delays \<Rightarrow> drop 30 delays = [30000, 30000, 500] | _ \<Rightarrow> False"
  by code_simp+

end
