(* ===== verification/Block_Production_Reselect.thy ===== *)
theory Block_Production_Reselect
  imports Block_Production_Properties Store_Properties
begin

text \<open>
  What happens when a batch is selected again while a job works on it (crates/block-producer/src:
  batch_builder/mod.rs, mempool/mod.rs): both jobs report a proof for the same identifier, and the
  second report panics.
\<close>

section \<open>Two reports for one batch\<close>

text \<open>A selected batch has the identifier of its transactions, is known to the mempool, and waits for its proof.\<close>

definition awaits_proof :: "mempool \<Rightarrow> batch_id \<Rightarrow> bool" where
  "awaits_proof m i \<longleftrightarrow> bg_contains (mp_batches m) i \<and> i \<in> pending (bg_inner (mp_batches m))"

lemma select_batch_awaits:
  assumes "(mp_select_batch from_ids m :: (mempool, unit, (batch_id \<times> auth_tx list) option) outcome) = Ok m' (Some (i, txs))"
  shows "i = from_ids (map (\<lambda>tx. (tx_id tx, tx_account_id tx)) txs)" "awaits_proof m' i"
proof -
  let ?ids = "map (\<lambda>tx. (tx_id tx, tx_account_id tx)) txs"
  from assms obtain g ps B where ins: "bg_insert from_ids (mp_batches m) ?ids ps = Ok B i"
    and m': "m' = m\<lparr>mp_transactions := g, mp_batches := B\<rparr>"
    by (auto simp: mp_select_batch_def Let_def outcome_Ok_iffs split: prod.splits if_splits)
  from bg_insert_proofs[OF ins] show "i = from_ids ?ids" by blast
  from ins show "awaits_proof m' i"
    by (auto simp: bg_insert_def awaits_proof_def m' bg_contains_def insert_pending_def Let_def split: if_splits sum.splits)
qed

text \<open>A report for a batch that awaits its proof panics or takes it; a second one panics.\<close>

lemma commit_batch_twice:
  assumes "awaits_proof m (pb_id pb)" and "pb_id pb' = pb_id pb"
  shows "(commit_batch m pb :: (mempool, unit, unit) outcome) = Panic
    \<or> (\<exists>m'. commit_batch m pb = (Ok m' () :: (mempool, unit, unit) outcome)
         \<and> (commit_batch m' pb' :: (mempool, unit, unit) outcome) = Panic)"
proof (cases "promote_pending (bg_inner (mp_batches m)) (pb_id pb) pb")
  case (Ok g u)
  let ?m = "m\<lparr>mp_batches := mp_batches m\<lparr>bg_inner := g\<rparr>\<rparr>"
  have "commit_batch m pb = (Ok ?m () :: (mempool, unit, unit) outcome)"
    using assms(1) Ok by (simp add: commit_batch_def submit_proof_def awaits_proof_def)
  moreover have "pb_id pb \<notin> pending g"
    using Ok by (auto simp: promote_pending_def try_make_root_def split: if_splits)
  then have "(commit_batch ?m pb' :: (mempool, unit, unit) outcome) = Panic"
    using assms by (simp add: commit_batch_def submit_proof_def awaits_proof_def bg_contains_def promote_pending_def)
  ultimately show ?thesis by blast
qed (use assms(1) in \<open>auto simp: commit_batch_def submit_proof_def awaits_proof_def promote_pending_def try_make_root_def split: if_splits\<close>)

text \<open>Two jobs that hold proofs of the same batch: the node panics at the second report, if not at the first.\<close>

lemma both_report:
  assumes await: "awaits_proof (nd_mempool n) (pb_id pb)" and jobs: "nd_jobs n w = JobProven i pb" "nd_jobs n v = JobProven j pb'"
    and "v \<noteq> w" and "pb_id pb' = pb_id pb"
  shows "node_step L P A workers accepts n (JobFinishes w) = Panic
    \<or> (\<exists>n'. node_step L P A workers accepts n (JobFinishes w) = Ok n' ()
         \<and> (commit_batch (nd_mempool n') pb' :: (mempool, unit, unit) outcome) = Panic
         \<and> node_step L P A workers accepts n' (JobFinishes v) = Panic)"
  using commit_batch_twice[OF await assms(5)] jobs assms(4) by auto

text \<open>
  C11. A batch job can be led into a panic without fault of its own.  A job keeps running when the failure of
  a parent batch removes its batch from the mempool.  When another job is then given the same
  transactions, its batch has the same identifier, and both end with a proof for it.  Whichever job
  reports first, the other report panics in \<open>commit_batch\<close>, if the first did not.  In the witness, the jobs of
  the server's two workers get there from its start.
\<close>

theorem reselected_batch_panics:
  assumes first: "nd_jobs n w = JobProven (pl_from_ids A ids) pb" "pb_id pb = pl_from_ids A ids" and "v \<noteq> w"
    and again: "node_step L P A workers accepts n (JobSelects v) = Ok n1 ()" "nd_jobs n1 v = JobRunning j txs"
      "map (\<lambda>tx. (tx_id tx, tx_account_id tx)) txs = ids"
    and proved: "node_step L P A workers accepts n1 (JobProves v W) = Ok n2 ()" "nd_jobs n2 v = JobProven j pb'" "pb_id pb' = j"
  shows "j = pl_from_ids A ids
    \<and> (node_step L P A workers accepts n2 (JobFinishes w) = Panic
       \<or> (\<exists>n3. node_step L P A workers accepts n2 (JobFinishes w) = Ok n3 ()
            \<and> (commit_batch (nd_mempool n3) pb' :: (mempool, unit, unit) outcome) = Panic
            \<and> node_step L P A workers accepts n3 (JobFinishes v) = Panic))
    \<and> (node_step L P A workers accepts n2 (JobFinishes v) = Panic
       \<or> (\<exists>n3. node_step L P A workers accepts n2 (JobFinishes v) = Ok n3 ()
            \<and> (commit_batch (nd_mempool n3) pb :: (mempool, unit, unit) outcome) = Panic
            \<and> node_step L P A workers accepts n3 (JobFinishes w) = Panic))"
proof -
  let ?r = "mp_select_batch (pl_from_ids A) (nd_mempool n) :: (mempool, unit, (batch_id \<times> auth_tx list) option) outcome"
  from again(1) have run: "call_mempool ?r (\<lambda>m r. n\<lparr>nd_mempool := m,
      nd_jobs := (nd_jobs n)(v := (case r of Some (Some (i, txs)) \<Rightarrow> JobRunning i txs | _ \<Rightarrow> JobIdle))\<rparr>) = Ok n1 ()"
    by (simp split: if_splits)
  with again(2) obtain m where sel: "?r = Ok m (Some (j, txs))" and n1: "n1 = n\<lparr>nd_mempool := m, nd_jobs := (nd_jobs n)(v := JobRunning j txs)\<rparr>"
    by (cases ?r) (auto split: option.splits)
  note s = select_batch_awaits[OF sel]
  have j: "j = pl_from_ids A ids" using s(1) again(3) by simp
  have n2: "n2 = n1\<lparr>nd_jobs := (nd_jobs n1)(v := JobProven j pb')\<rparr>"
    using proved(1,2) again(2) by (auto split: sum.splits)
  have "nd_mempool n2 = m" "nd_jobs n2 w = JobProven j pb" "nd_jobs n2 v = JobProven j pb'"
    using first(1) \<open>v \<noteq> w\<close> by (simp_all add: n2 n1 j)
  with s(2) first(2) proved(3) j have B: "awaits_proof (nd_mempool n2) (pb_id pb)" "awaits_proof (nd_mempool n2) (pb_id pb')"
    "nd_jobs n2 w = JobProven j pb" "nd_jobs n2 v = JobProven j pb'" "pb_id pb' = pb_id pb" "pb_id pb = pb_id pb'" by simp_all
  show ?thesis
    using j both_report[OF B(1,3,4) \<open>v \<noteq> w\<close> B(5)] both_report[OF B(2,4,3) not_sym[OF \<open>v \<noteq> w\<close>] B(6)] by blast
qed

section \<open>A run that gets there\<close>

fun run_node ::
  "('n, 'nu, 'a, 'au, 'm, 'p, 'w) lib \<Rightarrow> block_params \<Rightarrow> producer_lib \<Rightarrow> nat \<Rightarrow> (sender \<Rightarrow> mempool_event \<Rightarrow> bool) \<Rightarrow>
     ('n, 'a, 'm) node \<Rightarrow> ('p, 'w, 'q, 'r) node_event list \<Rightarrow> (('n, 'a, 'm) node, unit, unit) outcome" where
  "run_node L P A workers accepts n [] = Ok n ()"
| "run_node L P A workers accepts n (ev # evs) =
     and_then (node_step L P A workers accepts n ev) (\<lambda>n _. run_node L P A workers accepts n evs)"

lemma run_node_append:
  "run_node L P A workers accepts n (evs @ evs') =
     and_then (run_node L P A workers accepts n evs) (\<lambda>n _. run_node L P A workers accepts n evs')"
proof (induction evs arbitrary: n)
  case (Cons ev evs)
  then show ?case by (cases "node_step L P A workers accepts n ev") simp_all
qed simp

text \<open>The requested notes are finitely many, which lets the store's handlers for batches and blocks run.\<close>

lemma proofs_of_requested:
  "select_note_inclusion_proofs d ids = Inr found \<Longrightarrow> ran found = (\<Union>i \<in> set ids. set_option (found i))"
  using note_proofs(1)[of d ids found] by (force simp: ran_def)

lemma get_batch_inputs_code [code]:
  "get_batch_inputs L s tx_reference_blocks note_ids =
     (if tx_reference_blocks = {} then Some (Inl TransactionBlockReferencesEmpty)
      else (case select_note_inclusion_proofs (st_db s) (sorted_list_of_set note_ids) of
        Inl e \<Rightarrow> Some (Inl (BatchNoteProofError e))
      | Inr note_proofs \<Rightarrow>
          let blocks = tx_reference_blocks \<union> ip_block_num ` ((\<Union>i \<in> set (sorted_list_of_set note_ids). set_option (note_proofs i))) in
          (case latest_block_num L (st_inner s) of
             None \<Rightarrow> None
           | Some latest \<Rightarrow>
               if Max blocks > latest then Some (Inl (UnknownTransactionBlockReference (Max blocks) latest))
               else (case bc_partial_mmr L (blockchain (st_inner s)) (blocks - {latest}) latest of
                   None \<Rightarrow> None
                 | Some partial_mmr \<Rightarrow>
                     (case partial_chain L (st_db s) (blocks - {latest}) latest partial_mmr of
                        None \<Rightarrow> None
                      | Some (Inl e) \<Rightarrow> Some (Inl (BatchHeaderError e))
                      | Some (Inr (header, chain)) \<Rightarrow>
                          Some (Inr \<lparr>bi_reference_header = header, bi_note_proofs = note_proofs, bi_chain = chain\<rparr>))))))"
  by (simp add: get_batch_inputs_def proofs_of_requested Let_def split: sum.split)

lemma get_block_inputs_code [code]:
  "get_block_inputs L s account_ids nullifiers unauthenticated_notes reference_blocks =
     (case select_note_inclusion_proofs (st_db s) (sorted_list_of_set unauthenticated_notes) of
        Inl e \<Rightarrow> Some (Inl (BlockNoteProofError e))
      | Inr note_proofs \<Rightarrow>
          (case get_block_inputs_witnesses L (st_inner s) (reference_blocks \<union> ip_block_num ` ((\<Union>i \<in> set (sorted_list_of_set unauthenticated_notes). set_option (note_proofs i)))) account_ids nullifiers of
             None \<Rightarrow> None
           | Some (Inl e) \<Rightarrow> Some (Inl e)
           | Some (Inr (latest, blocks, account_witnesses, nullifier_witnesses, partial_mmr)) \<Rightarrow>
               (case partial_chain L (st_db s) blocks latest partial_mmr of
                  None \<Rightarrow> None
                | Some (Inl e) \<Rightarrow> Some (Inl (BlockHeaderError e))
                | Some (Inr (header, chain)) \<Rightarrow>
                    Some (Inr \<lparr>ki_prev_header = header, ki_chain = chain, ki_accounts = account_witnesses,
                       ki_nullifiers = nullifier_witnesses, ki_note_proofs = note_proofs\<rparr>))))"
  by (simp add: get_block_inputs_def proofs_of_requested split: sum.split)

text \<open>
  Two transactions, the second depending on the first, in batches of one transaction each.  The job of the
  first batch fails while the second is proven, both are selected again, and the first job that is done
  is given the second batch.
\<close>

definition small_producer :: producer_lib where
  "small_producer = sample_producer\<lparr>pl_from_ids := sample_ids\<rparr>"

definition parent_tx :: proven_tx where
  "parent_tx = (tx_inner sample_first)\<lparr>ptx_ref_block := (2, 0)\<rparr>"

definition child_tx :: proven_tx where
  "child_tx = (tx_inner sample_second)\<lparr>ptx_ref_block := (2, 0)\<rparr>"

definition small_node :: sample_node where
  "small_node = sample_node0\<lparr>nd_mempool := mempool_new 2 (batch_budget_default 10 10 8\<lparr>budget_transactions := 1\<rparr>) block_budget_default
      server_mempool_state_retention server_mempool_expiration_slack\<rparr>"

definition batch_work_of :: "bool \<Rightarrow> (block_number set, nat) batch_work" where
  "batch_work_of reached = \<lparr>bt_propose = (\<lambda>txs inputs. Some (case txs of [] \<Rightarrow> 0 | tx # _ \<Rightarrow> 10 * ptx_id tx)),
     bt_prove = (\<lambda>i. Inr \<lparr>pb_id = i, pb_security_level = 96\<rparr>), bt_reached = reached, bt_roll = 0\<rparr>"

type_synonym sample_event = "(block_number set, nat, nat, unit) node_event"

definition until_reselection :: "sample_event list" where
  "until_reselection =
     [FetchInputs 0 parent_tx, ReadHeight 0, SubmitTx 0, FetchInputs 1 child_tx, ReadHeight 1, SubmitTx 1,
      JobSelects 0, JobSelects 1, JobProves 1 (batch_work_of True), JobProves 0 (batch_work_of False), JobFinishes 0,
      JobSelects 0, JobProves 0 (batch_work_of True), JobFinishes 0]"

abbreviation small_run :: "sample_node \<Rightarrow> sample_event list \<Rightarrow> (sample_node, unit, unit) outcome" where
  "small_run \<equiv> run_node sample_trees sample_params small_producer server_num_batch_builders accept_all"

definition small_proof :: proven_batch where
  "small_proof = \<lparr>pb_id = 20, pb_security_level = 96\<rparr>"

lemma small_run_reselects:
  "case small_run small_node until_reselection of
     Ok n _ \<Rightarrow> nd_jobs n 1 = JobProven 20 small_proof \<and> nd_jobs n 0 = JobIdle
       \<and> (case small_run n [JobSelects 0] of
            Ok n1 _ \<Rightarrow> (case nd_jobs n1 0 of JobRunning j txs \<Rightarrow> j = 20 \<and> map (\<lambda>tx. (tx_id tx, tx_account_id tx)) txs = [(2, 7)] | _ \<Rightarrow> False)
              \<and> (case small_run n1 [JobProves 0 (batch_work_of True)] of
                   Ok n2 _ \<Rightarrow> nd_jobs n2 0 = JobProven 20 small_proof
                     \<and> (case small_run n2 [JobFinishes 1] of Ok n3 _ \<Rightarrow> True | _ \<Rightarrow> False)
                 | _ \<Rightarrow> False)
          | _ \<Rightarrow> False)
   | _ \<Rightarrow> False"
  by code_simp

theorem reselected_batch_panics_witness:
  "\<exists>n n3. small_run small_node until_reselection = Ok n ()
     \<and> small_run n [JobSelects 0, JobProves 0 (batch_work_of True), JobFinishes 1] = Ok n3 ()
     \<and> (commit_batch (nd_mempool n3) small_proof :: (mempool, unit, unit) outcome) = Panic
     \<and> small_run small_node (until_reselection @ [JobSelects 0, JobProves 0 (batch_work_of True), JobFinishes 1, JobFinishes 0]) = Panic"
proof -
  let ?step = "node_step sample_trees sample_params small_producer server_num_batch_builders accept_all :: _ \<Rightarrow> sample_event \<Rightarrow> _"
  from small_run_reselects obtain n n1 n2 n3 txs where run: "small_run small_node until_reselection = Ok n ()"
    and first: "nd_jobs n 1 = JobProven 20 small_proof"
    and "small_run n [JobSelects 0] = Ok n1 ()" "small_run n1 [JobProves 0 (batch_work_of True)] = Ok n2 ()"
      "small_run n2 [JobFinishes 1] = Ok n3 ()"
    and jobs: "nd_jobs n1 0 = JobRunning 20 txs" "map (\<lambda>tx. (tx_id tx, tx_account_id tx)) txs = [(2, 7)]"
      "nd_jobs n2 0 = JobProven 20 small_proof"
    by (auto split: outcome.splits job.splits)
  then have step: "?step n (JobSelects 0) = Ok n1 ()" "?step n1 (JobProves 0 (batch_work_of True)) = Ok n2 ()" "?step n2 (JobFinishes 1) = Ok n3 ()"
    by (simp_all del: node_step.simps add: and_then_eq_Ok)
  have id: "20 = pl_from_ids small_producer [(2, 7)]" "pb_id small_proof = 20" by code_simp+
  have "?step n2 (JobFinishes 1) = Panic
    \<or> (\<exists>n3. ?step n2 (JobFinishes 1) = Ok n3 () \<and> (commit_batch (nd_mempool n3) small_proof :: (mempool, unit, unit) outcome) = Panic
         \<and> ?step n3 (JobFinishes 0) = Panic)"
    by (rule reselected_batch_panics[of n 1 small_producer "[(2, 7)]" small_proof 0, folded id(1), OF first id(2) _ step(1) jobs(1,2) step(2) jobs(3) id(2),
        THEN conjunct2, THEN conjunct1]) simp
  with step(3) have "(commit_batch (nd_mempool n3) small_proof :: (mempool, unit, unit) outcome) = Panic" "?step n3 (JobFinishes 0) = Panic"
    by (simp_all del: node_step.simps)
  then show ?thesis using run step
    by (intro exI[of _ n] exI[of _ n3]) (simp add: run_node_append del: node_step.simps)
qed

end
