(* ===== verification/Spec2Isabelle.thy ===== *)
theory Spec2Isabelle
  imports Mempool_Properties Ntx_Builder_Properties Ntx_Loaded Store_Sync Store_Deltas Store_Paging Store_Properties Store_Snapshot
    Faucet_Mint Proxy Block_Production_Lag Block_Production_Reselect
begin

text \<open>
  A model of the Miden node, for a reader who has the repository.  Paths are below \<open>src/\<close>.

  \<^bold>\<open>The program.\<close>  Users send proven transactions to the block producer.  Its mempool
  (\<open>crates/block-producer/src/mempool\<close>) checks each against the inflight state, selects transactions into
  batches and proven batches into blocks.  Batch jobs and the block builder take what it selects, have it
  proven, and report back; a proven block goes to the store (\<open>crates/store\<close>), which keeps the chain in an
  SQLite database, in trees in memory and in files.  The network transaction builder
  (\<open>crates/ntx-builder\<close>) subscribes to the mempool's events and consumes the notes that are addressed to
  network accounts, with transactions of its own.  The faucet (\<open>bin/faucet\<close>) mints tokens for whoever solves
  a challenge, and the proxy of the remote prover (\<open>bin/remote-prover\<close>) spreads proof requests over workers.

  \<^bold>\<open>Conventions.\<close>  A struct is a record, an enum a datatype, with the source's names.  A method that borrows
  its receiver mutably returns an \<open>outcome\<close> (\<open>Prelude\<close>): its new state with a result, its state at an early return
  with the error, a panic (a failed assertion, \<open>expect\<close>, subtraction below zero), or \<open>Diverge\<close>.  Elsewhere
  an error is the left of a sum and a panic is \<open>None\<close>.  Block numbers, counts and amounts are naturals where the
  code cannot overflow them or the overflow is a branch of the model, and words where their width matters.
  B-tree maps and sets are finite maps and sets iterated in key order.  Code outside the repository (the protocol
  library, hashes, encodings, trees, the network) is an argument: a function, or a record of functions.

  \<^bold>\<open>The mempool.\<close>
  \<^item> \<open>Dependency_Graph\<close> is \<open>graph/mod.rs\<close> with every operation; \<open>Transaction_Graph\<close> and \<open>Batch_Graph\<close> are the two
    typed graphs over it.  \<open>Root_Selection\<close> states once, as the locale \<open>root_selection\<close>, the loop that processes
    the least root until a budget is exceeded; batch selection and block selection interpret it.
  \<^item> \<open>Account_State\<close> and \<open>Inflight_State\<close> are \<open>inflight_state\<close>; \<open>Inflight_Contract\<close> is what they refine: a
    transaction is accepted exactly when it is admissible with respect to all known deltas.
  \<^item> \<open>Tx_Expirations\<close> and \<open>Subscription\<close> are the expiration index and the event index with its channel.
  \<^item> \<open>Mempool\<close> is \<open>mempool/mod.rs\<close>.  \<open>Mempool_Links\<close>, \<open>Mempool_Tracking\<close> and \<open>Mempool_Safety\<close> build the
    invariant that ties the parts together; \<open>Mempool_Properties\<close> is the transition system of its callers and the
    effect of each call; \<open>Mempool_Effects\<close> is what the calls leave alone.
  \<^item> \<open>Domain\<close> and \<open>Network_Domain\<close> are the types that mempool and network transaction builder share
    (\<open>domain/transaction.rs\<close>, \<open>errors.rs\<close>, \<open>crates/proto/src/domain\<close>).

  \<^bold>\<open>The block producer around it.\<close>  \<open>Block_Production\<close> models submission (\<open>server/mod.rs\<close>), the batch jobs
  (\<open>batch_builder/mod.rs\<close>) and the block builder (\<open>block_builder/mod.rs\<close>) as tasks of one system with the mempool and
  the store; a step is one call under a lock, one request, or the work between two of them.  \<open>Guarded_Runs\<close> holds
  the runs of such a system and the locale \<open>run_invariant\<close>; \<open>Block_Production_Safety\<close> interprets it.
  \<open>Block_Production_Properties\<close> says what holds across mempool and store in the runs it admits,
  \<open>Block_Production_Lag\<close> what a lost reply or a block between the two reads of a submission does, and
  \<open>Block_Production_Reselect\<close> how two jobs come to prove the same batch, and the panic that follows.

  \<^bold>\<open>The network transaction builder.\<close>  \<open>Ntx_Account\<close> and \<open>Ntx_State\<close> are \<open>state/account.rs\<close> and
  \<open>state/mod.rs\<close>; \<open>Ntx_Invariant\<close>, \<open>Ntx_Safety\<close> and \<open>Ntx_Index\<close> show that its handlers keep accounts, impacts and
  nullifier index consistent on events that satisfy \<open>in_order\<close>, \<open>Ntx_Properties\<close> what a selection does and where a
  handler panics on other events, and \<open>Ntx_Loaded\<close> that the notes loaded at the start are never marked.
  \<open>Ntx_Transaction\<close> is \<open>transaction.rs\<close>, the execution of a candidate; \<open>Ntx_Builder\<close> is the loop of
  \<open>builder/mod.rs\<close> with its tasks, the channel of events, and the two clients' calls (\<open>store.rs\<close>,
  \<open>block_producer.rs\<close>); \<open>Retry\<close> is the waiting at the start, which the block producer has too.
  \<open>Ntx_Builder_Safety\<close> keeps two invariants, one of every run and one of runs that nobody disturbs, and
  \<open>Ntx_Builder_Properties\<close> states what follows and what a lost reply does.

  \<^bold>\<open>The store.\<close>
  \<^item> \<open>Store_Tables\<close>, \<open>Store_Writes\<close> and \<open>Store_Queries\<close> are the schema, the statements that write a block and the
    queries (\<open>db\<close>): a table is a list of rows, and a statement checks its keys.  \<open>Store_Invariant\<close> is the integrity
    of the tables, \<open>Store_Sample\<close> a small database for the witnesses.
  \<^item> \<open>Store_State\<close> and \<open>Store_Requests\<close> are \<open>state.rs\<close>: applying a block, loading, and the requests.
    \<open>Store_Effect\<close>, \<open>Store_Consistency\<close>, \<open>Store_Apply\<close>, \<open>Store_Instance\<close> and \<open>Store_Properties\<close> show that
    database, trees and files stay in agreement.
  \<^item> \<open>Store_Locking\<close> and \<open>Store_Snapshot\<close> are the read-write lock with the tasks that ask for it.
  \<^item> \<open>Store_Sync\<close>, \<open>Store_Deltas\<close> and \<open>Store_Paging\<close> are what clients rely on: sync answers, account deltas,
    and the pages of network notes with the loop of the client that reads them.

  \<^bold>\<open>The faucet.\<close>  \<open>Bytes\<close> and \<open>Faucet_Challenge\<close> are keys and challenges; \<open>Faucet_Pow\<close> the cache, difficulty and
  submission; \<open>Faucet_Mint\<close> the requests, the notes of a batch and the recovery from a desync.

  \<^bold>\<open>The remote prover.\<close>  \<open>Proxy_Worker\<close> is a worker with its health checks; \<open>Proxy\<close> is the pool, the queue and
  the life of a request through the callbacks of pingora.

  \<^bold>\<open>Hypotheses.\<close>  \<open>inj from_ids\<close>: batches with different transactions have different identifiers (a hash).
  \<open>trees_ok\<close>: the library's trees answer what was inserted, and the chain's peaks determine its length.
  \<open>fair_lock\<close>: the documented policy of tokio's lock.  \<open>faucet_lib_ok\<close> and \<open>messages_ok\<close>: lengths of hashes,
  round trips of encodings, digests that can be read in an error's text.  \<open>vm_ok\<close>: shuffling keeps the notes,
  and the checker names notes it was given.  \<open>network_notes_only\<close>, \<open>answers_match\<close>, \<open>keeps_identity\<close>: the store
  answers with what it was asked for, and a delta keeps an account's identity.  Each is shown to hold of a
  concrete instance by the witness of a property that uses it.

  \<^bold>\<open>Conditions on runs.\<close>  Some properties hold only when the world behaves; the program does not enforce it, and
  other theorems show what happens otherwise.
  \<^item> \<open>sound_event\<close> (\<open>Block_Production_Safety\<close>): a transaction is what its identifier says (the parameter
    \<open>body\<close>) and provers create only nullifiers of what they were given; replies of \<open>apply_block\<close> arrive
    (else \<open>lag_grows_with_lost_replies\<close>); no block is applied between the two reads of a
    \<open>get_transaction_inputs\<close> (else \<open>read_between_blocks\<close>); no batch is selected while a job works on the same one
    (else \<open>reselected_batch_panics\<close>).
  \<^item> \<open>in_order\<close> (\<open>Ntx_Properties\<close>): an event creates an untracked account or has a delta that applies,
    its notes are new and addressed to known accounts, and what it consumes is not consumed twice
    (else \<open>unknown_account_panics\<close>); reverts come in reverse dependency order (else
    \<open>revert_out_of_order_panics\<close>) and spare account creations (else \<open>reverted_creation_panics\<close>).
  \<^item> \<open>ntx_world\<close> (\<open>Ntx_Builder_Safety\<close>) asks for \<open>in_order\<close> events only; \<open>undisturbed\<close> besides for replies that
    arrive (else \<open>lost_reply_doubles_work\<close>), proofs of the candidate's transaction, no updates of network accounts by
    others, and no event twice; \<open>ntx_sound\<close> is both.
  \<^item> \<open>within_skew\<close> (\<open>Faucet_Pow\<close>): how much later a cleanup that overtakes a request may have read the clock
    (\<open>replay_race\<close> with one second).  \<open>steady\<close> (\<open>Proxy\<close>): health checks pass and the pool is not updated.

  \<^bold>\<open>Bounds.\<close>  Loops whose end is not structural are functions with a termination proof or \<open>partial_function\<close>s;
  the selection loops, the graph's closures and the client's paging loop are proved to end.  Budgets and limits
  are arguments or the code's constants.  Samples of mempools use 8 transactions in a batch, 8 batches in a block,
  2 workers, a retention of 5 blocks and a slack of 2.

  \<^bold>\<open>Abstractions.\<close>  \<open>apply_block\<close> saves the candidate block before its checks, where the code's task runs beside
  them and may end after an early return; likewise \<open>lock_step\<close> has no late saves and no cancelled futures.
  \<open>get_batch_inputs\<close> reads one state, where the code takes no lock across its three reads.  The chain tip plus the
  expiration slack is taken to fit 32 bits.

  \<^bold>\<open>Not modelled.\<close>
  \<^item> Code of the protocol library: execution and proving of transactions, accounts, trees, serialization.
  \<^item> Generated message types, and the conversions that copy their fields.
  \<^item> HTTP and gRPC handlers that decode a message and call what is modelled; clients that only forward.
  \<^item> Command lines, configuration, telemetry, metrics, static pages, benchmarks.
  \<^item> SQLite's connection pool and migrations, and the reading and writing of block files.
\<close>

end
